(* ===== verification/Prelude.thy ===== *)
theory Prelude
  imports Main "HOL-Library.Word"
begin

text \<open>
  What every component of the development shares: the machine types of the Rust code, its
  \<open>Result\<close> as a sum type with the \<open>?\<close> operator, the pieces of the standard library the code
  calls (\<open>to_be_bytes\<close>, \<open>leading_zeros\<close>, \<open>div_ceil\<close>, \<open>starts_with\<close>, \<open>strip_prefix\<close>,
  \<open>split\<close> and \<open>parse\<close> on strings, \<open>copy_within\<close> on vectors), and the lemmas on them.

  Conventions of the whole development:
  \<^item> \<open>u8\<close>, \<open>u32\<close>, \<open>u64\<close> are words of their width and \<open>i32\<close>, \<open>i64\<close> words read by \<open>sint\<close>;
    \<open>usize\<close> is \<open>nat\<close>, because every value of it in the modelled code is a length of, or an
    index into, a vector that exists (at most \<open>isize::MAX\<close>);
  \<^item> \<open>&str\<close> and \<open>String\<close> are \<open>string\<close>, the UTF-8 bytes of the text as a list of characters
    below 256, so \<open>length\<close> is Rust's \<open>len()\<close>;
  \<^item> a \<open>Result<T, E>\<close> is \<open>E + T\<close>, with \<open>Inl\<close> the error;
  \<^item> a \<open>&mut Vec<u8>\<close> argument becomes an argument and a result.
\<close>

unbundle bit_operations_syntax

named_theorems sonda_simps \<open>rewrite rules the component proofs share\<close>

section \<open>Machine types\<close>

type_synonym u8 = "8 word"
type_synonym u32 = "32 word"
type_synonym i32 = "32 word"
type_synonym u64 = "64 word"
type_synonym i64 = "64 word"
type_synonym bytes = "u8 list"

section \<open>Result and the question-mark operator\<close>

definition rbind :: "'e + 'a \<Rightarrow> ('a \<Rightarrow> 'e + 'b) \<Rightarrow> 'e + 'b" where
  "rbind m f = (case m of Inl e \<Rightarrow> Inl e | Inr x \<Rightarrow> f x)"

definition ok_or :: "'a option \<Rightarrow> 'e \<Rightarrow> 'e + 'a" where
  "ok_or m e = (case m of None \<Rightarrow> Inl e | Some x \<Rightarrow> Inr x)"

definition map_err :: "('e \<Rightarrow> 'f) \<Rightarrow> 'e + 'a \<Rightarrow> 'f + 'a" where
  "map_err f m = (case m of Inl e \<Rightarrow> Inl (f e) | Inr x \<Rightarrow> Inr x)"

definition unwrap_or :: "'a option \<Rightarrow> 'a \<Rightarrow> 'a" where
  "unwrap_or x d = (case x of Some v \<Rightarrow> v | None \<Rightarrow> d)"

definition to_option :: "'e + 'a \<Rightarrow> 'a option" where
  "to_option m = (case m of Inl e \<Rightarrow> None | Inr x \<Rightarrow> Some x)"

lemma rbind_simps [simp]:
  "rbind (Inl e) f = Inl e"
  "rbind (Inr x) f = f x"
  by (simp_all add: rbind_def)

lemma rbind_eq_Inr [sonda_simps]: "rbind m f = Inr y \<longleftrightarrow> (\<exists>x. m = Inr x \<and> f x = Inr y)"
  by (cases m) simp_all

lemma rbind_eq_Inl [sonda_simps]: "rbind m f = Inl e \<longleftrightarrow> m = Inl e \<or> (\<exists>x. m = Inr x \<and> f x = Inl e)"
  by (cases m) simp_all

text \<open>The early returns of a successful run, one at a time.\<close>

lemma rbind_InrE:
  assumes "rbind m f = Inr y"
  obtains x where "m = Inr x" and "f x = Inr y"
  using assms by (auto simp: rbind_eq_Inr)

lemma if_InlE:
  assumes "(if b then Inl e else z) = Inr y"
  obtains "\<not> b" and "z = Inr y"
  using assms by (auto split: if_splits)

lemma case_prod_InrE:
  assumes "(case x of (a, b) \<Rightarrow> f a b) = Inr y"
  obtains a b where "x = (a, b)" and "f a b = Inr y"
  using assms by (cases x) auto

lemma case_prod_app_InrE:
  assumes "(case x of (a, b) \<Rightarrow> f a b) z = Inr y"
  obtains a b where "x = (a, b)" and "f a b z = Inr y"
  using assms by (cases x) auto

lemmas run_InrE = rbind_InrE case_prod_InrE if_InlE case_prod_app_InrE

lemma ok_or_simps [simp]:
  "ok_or None e = Inl e"
  "ok_or (Some x) e = Inr x"
  "ok_or m e = Inr y \<longleftrightarrow> m = Some y"
  by (simp_all add: ok_or_def split: option.split)

lemma map_err_simps [simp]:
  "map_err f (Inl e) = Inl (f e)"
  "map_err f (Inr x) = Inr x"
  "map_err f m = Inr y \<longleftrightarrow> m = Inr y"
  by (simp_all add: map_err_def split: sum.split)

lemma to_option_simps [simp]:
  "to_option (Inl e) = None"
  "to_option (Inr x) = Some x"
  "to_option m = Some y \<longleftrightarrow> m = Inr y"
  by (simp_all add: to_option_def split: sum.split)

section \<open>Bit lengths\<close>

text \<open>\<open>bit_len n\<close> is \<open>BITS - n.leading_zeros()\<close> for an \<open>n\<close> that fits the type.\<close>

fun bit_len :: "nat \<Rightarrow> nat" where
  "bit_len n = (if n = 0 then 0 else Suc (bit_len (n div 2)))"

declare bit_len.simps [simp del]

definition div_ceil :: "nat \<Rightarrow> nat \<Rightarrow> nat" where
  "div_ceil n d = (if n mod d = 0 then n div d else n div d + 1)"

lemma bit_len_0 [simp]: "bit_len 0 = 0"
  by (simp add: bit_len.simps)

lemma bit_len_le_iff: "bit_len n \<le> k \<longleftrightarrow> n < 2 ^ k"
proof (induction k arbitrary: n)
  case 0
  show ?case by (subst bit_len.simps) simp
next
  case (Suc k)
  show ?case
  proof (cases "n = 0")
    case False
    then have "bit_len n \<le> Suc k \<longleftrightarrow> bit_len (n div 2) \<le> k"
      by (subst bit_len.simps) simp
    also have "\<dots> \<longleftrightarrow> n div 2 < 2 ^ k" by (rule Suc.IH)
    also have "\<dots> \<longleftrightarrow> n < 2 ^ Suc k" by (simp add: div_less_iff_less_mult mult.commute)
    finally show ?thesis .
  qed simp
qed

lemma bit_len_pos: "0 < n \<Longrightarrow> 0 < bit_len n"
  by (subst bit_len.simps) simp

lemma less_bit_len_iff: "k < bit_len n \<longleftrightarrow> 2 ^ k \<le> n"
  using bit_len_le_iff [of n k] by linarith

lemma div_ceil_le_iff: "0 < d \<Longrightarrow> div_ceil n d \<le> k \<longleftrightarrow> n \<le> k * d"
proof -
  assume d: "0 < d"
  have n: "n = n div d * d + n mod d" by simp
  show ?thesis
  proof (cases "n mod d = 0")
    case True
    with n have "n = n div d * d" by simp
    with d True show ?thesis unfolding div_ceil_def
      by (metis mult_le_cancel2)
  next
    case False
    have "n div d + 1 \<le> k \<longleftrightarrow> n < k * d"
      using d by (metis Suc_eq_plus1 Suc_le_eq div_less_iff_less_mult)
    moreover have "n \<noteq> k * d" using False by auto
    ultimately show ?thesis using False by (simp add: div_ceil_def) linarith
  qed
qed

section \<open>Exclusive or\<close>

lemma xor_xor_cancel: "a XOR (a XOR b) = b" for a b :: "'a :: len word"
  by (simp flip: xor.assoc)

lemma xor_left_cancel: "a XOR b = a XOR c \<longleftrightarrow> b = c" for a b c :: "'a :: len word"
proof
  assume "a XOR b = a XOR c"
  then have "a XOR (a XOR b) = a XOR (a XOR c)" by (rule arg_cong)
  then show "b = c" by (simp only: xor_xor_cancel)
qed simp

lemma xor_eq_0: "a XOR b = 0 \<longleftrightarrow> a = b" for a b :: "'a :: len word"
proof -
  have "a XOR b = 0 \<longleftrightarrow> a XOR b = a XOR a" by simp
  then show ?thesis by (simp only: xor_left_cancel) blast
qed

section \<open>Big-endian octets\<close>

text \<open>
  The \<open>n\<close> low octets of a number, most significant first: \<open>to_be_bytes\<close> of an \<open>8 * n\<close>-bit
  integer.
\<close>

fun be_nat :: "nat \<Rightarrow> nat \<Rightarrow> bytes" where
  "be_nat 0 k = []"
| "be_nat (Suc n) k = of_nat (k div 256 ^ n) # be_nat n k"

definition be_val :: "bytes \<Rightarrow> nat" where
  "be_val bs = foldl (\<lambda>acc b. acc * 256 + unat b) 0 bs"

definition to_be_bytes64 :: "u64 \<Rightarrow> bytes" where
  "to_be_bytes64 v = be_nat 8 (unat v)"

definition to_be_bytes32 :: "u32 \<Rightarrow> bytes" where
  "to_be_bytes32 v = be_nat 4 (unat v)"

definition from_be_bytes64 :: "bytes \<Rightarrow> u64" where
  "from_be_bytes64 bs = of_nat (be_val bs)"

lemma length_be_nat [simp]: "length (be_nat n k) = n"
  by (induction n) simp_all

lemma length_to_be_bytes [simp]:
  "length (to_be_bytes64 v) = 8"
  "length (to_be_bytes32 w) = 4"
  by (simp_all add: to_be_bytes64_def to_be_bytes32_def)

lemma foldl_be: "foldl (\<lambda>acc b. acc * 256 + unat b) a bs = a * 256 ^ length bs + be_val bs"
proof (induction bs arbitrary: a)
  case (Cons b bs)
  show ?case
    by (simp only: foldl_Cons be_val_def Cons.IH [of "a * 256 + unat b"]
        Cons.IH [of "0 * 256 + unat b"] list.size power_add)
       (simp add: algebra_simps)
qed (simp add: be_val_def)

lemma be_val_Nil [simp]: "be_val [] = 0"
  by (simp add: be_val_def)

lemma be_val_Cons: "be_val (b # bs) = unat b * 256 ^ length bs + be_val bs"
  using foldl_be [of "unat b" bs] by (simp add: be_val_def)

lemma be_val_append: "be_val (xs @ ys) = be_val xs * 256 ^ length ys + be_val ys"
  using foldl_be [of "be_val xs" ys] by (simp add: be_val_def)

lemma unat_u8_less: "unat (b :: u8) < 256"
proof -
  have "unat b < 2 ^ LENGTH(8)" by (rule unsigned_less)
  then show ?thesis by simp
qed

lemma be_val_less: "be_val bs < 256 ^ length bs"
proof (induction bs)
  case (Cons b bs)
  have "unat b * 256 ^ length bs + be_val bs < (unat b + 1) * 256 ^ length bs"
    using Cons.IH by simp
  also have "\<dots> \<le> 256 * 256 ^ length bs"
    using unat_u8_less [of b] by (intro mult_right_mono) simp_all
  finally show ?case by (simp add: be_val_Cons)
qed simp

lemma be_val_be_nat: "be_val (be_nat n k) = k mod 256 ^ n"
proof (induction n)
  case (Suc n)
  have "unat (of_nat (k div 256 ^ n) :: u8) = k div 256 ^ n mod 256"
    by (simp add: unat_of_nat)
  then have "be_val (be_nat (Suc n) k) = k div 256 ^ n mod 256 * 256 ^ n + k mod 256 ^ n"
    by (simp add: be_val_Cons Suc.IH)
  also have "\<dots> = k mod (256 ^ n * 256)"
    by (simp only: mod_mult2_eq [of k "256 ^ n" 256]
        mult.commute [of "k div 256 ^ n mod 256"])
  also have "\<dots> = k mod 256 ^ Suc n"
    by (simp add: mult.commute)
  finally show ?case .
qed simp

lemma be_nat_be_val: "be_nat (length bs) (k * 256 ^ length bs + be_val bs) = bs"
proof (induction bs arbitrary: k)
  case (Cons b bs)
  let ?p = "256 ^ length bs :: nat"
  have split: "k * 256 ^ length (b # bs) + be_val (b # bs) = (k * 256 + unat b) * ?p + be_val bs"
    by (simp add: be_val_Cons algebra_simps)
  have "((k * 256 + unat b) * ?p + be_val bs) div ?p = k * 256 + unat b"
    using be_val_less [of bs] by (simp add: div_mult_self3)
  moreover have "(of_nat (k * 256 + unat b) :: u8) = b"
  proof -
    have "(of_nat (k * 256) :: u8) = 0"
      by (subst word_of_nat_eq_0_iff) simp
    then show ?thesis by (simp only: of_nat_add of_nat_unat) simp
  qed
  ultimately show ?case
    unfolding split using Cons.IH [of "k * 256 + unat b"] by simp
qed simp

lemma be_nat_be_val_id [simp]: "be_nat (length bs) (be_val bs) = bs"
  using be_nat_be_val [of bs 0] by simp

lemma from_to_be_bytes64 [simp]: "from_be_bytes64 (to_be_bytes64 v) = v"
proof -
  have "unat v < 2 ^ LENGTH(64)" by (rule unsigned_less)
  then have "unat v < 256 ^ 8" by simp
  then show ?thesis
    by (simp add: from_be_bytes64_def to_be_bytes64_def be_val_be_nat)
qed

lemma to_from_be_bytes64: "length bs = 8 \<Longrightarrow> to_be_bytes64 (from_be_bytes64 bs) = bs"
proof -
  assume len: "length bs = 8"
  then have "be_val bs < 2 ^ 64" using be_val_less [of bs] by simp
  then have "unat (from_be_bytes64 bs) = be_val bs"
    by (simp add: from_be_bytes64_def unat_of_nat)
  then show ?thesis using be_nat_be_val_id [of bs] len by (simp add: to_be_bytes64_def)
qed

lemma drop_be_nat: "m \<le> n \<Longrightarrow> drop (n - m) (be_nat n k) = be_nat m k"
proof (induction n)
  case (Suc n)
  then show ?case by (cases "m = Suc n") (simp_all add: Suc_diff_le)
qed simp

text \<open>The shift-and-or step of the decoders, on numbers and on words.\<close>

lemma or_push_bit_nat: "b < 2 ^ n \<Longrightarrow> push_bit n a OR b = a * 2 ^ n + (b :: nat)"
proof -
  assume b: "b < 2 ^ n"
  then have tb: "take_bit n b = b" by (simp add: take_bit_nat_eq_self)
  have "push_bit n a AND b = 0"
  proof (rule bit_eqI)
    fix m
    show "bit (push_bit n a AND b) m \<longleftrightarrow> bit (0 :: nat) m"
      using tb by (metis bit_0_eq bit_and_iff bit_push_bit_iff bit_take_bit_iff bot_apply bot_bool_def leD)
  qed
  then have "push_bit n a OR b = push_bit n a + b"
    by (simp add: disjunctive_add_eq_or)
  then show ?thesis by (simp add: push_bit_eq_mult)
qed

section \<open>Octets and their high bit\<close>

lemma hi_bit_iff: "b AND 0x80 = 0 \<longleftrightarrow> unat b < 128" for b :: u8
proof -
  have "b AND 0x80 = 0 \<longleftrightarrow> \<not> bit b 7"
    using and_exp_eq_0_iff_not_bit [of b 7] by simp
  also have "\<dots> \<longleftrightarrow> even (unat b div 128)"
  proof -
    have "bit b 7 \<longleftrightarrow> bit (unat b) 7" by (simp add: bit_unsigned_iff)
    then show ?thesis by (simp add: bit_iff_odd)
  qed
  also have "\<dots> \<longleftrightarrow> unat b < 128"
  proof -
    have "unat b div 128 < 2" using unat_u8_less [of b] by (simp add: div_less_iff_less_mult)
    then have "unat b div 128 = 0 \<or> unat b div 128 = 1" by linarith
    then show ?thesis by (auto simp: div_eq_0_iff)
  qed
  finally show ?thesis .
qed

lemma unat_and_7F: "unat (b AND 0x7F) = unat b mod 128" for b :: u8
proof -
  have "b AND 0x7F = take_bit 7 b" by (simp add: take_bit_eq_mask mask_eq_exp_minus_1)
  then have "unat (b AND 0x7F) = take_bit 7 (unat b)" by (simp only: unsigned_take_bit_eq)
  then show ?thesis by (simp add: take_bit_eq_mod)
qed

lemma unat_or_80: "unat b < 128 \<Longrightarrow> unat (b OR 0x80) = unat b + 128" for b :: u8
proof -
  assume "unat b < 128"
  then have "push_bit 7 1 OR unat b = 1 * 2 ^ 7 + unat b" by (intro or_push_bit_nat) simp
  then show ?thesis by (simp add: unsigned_or_eq or.commute push_bit_eq_mult)
qed

lemma unat_shift7_or:
  "unat v < 2 ^ 57 \<Longrightarrow> unat (push_bit 7 v OR ucast (b AND 0x7F) :: u64) = unat v * 128 + unat b mod 128"
  for v :: u64 and b :: u8
proof -
  assume v: "unat v < 2 ^ 57"
  then have "unat (push_bit 7 v) = push_bit 7 (unat v)"
    by (simp only: unsigned_push_bit_eq) (simp add: push_bit_eq_mult take_bit_eq_mod)
  moreover have "unat (ucast (b AND 0x7F) :: u64) = unat b mod 128"
    by (simp add: unsigned_ucast_eq unat_and_7F take_bit_eq_mod)
  ultimately show ?thesis
    using or_push_bit_nat [of "unat b mod 128" 7 "unat v"] by (simp only: unsigned_or_eq) simp
qed

lemma unat_u64_less: "unat (v :: u64) < 2 ^ 64"
proof -
  have "unat v < 2 ^ LENGTH(64)" by (rule unsigned_less)
  then show ?thesis by simp
qed

lemma unat_u32_less: "unat (v :: u32) < 2 ^ 32"
proof -
  have "unat v < 2 ^ LENGTH(32)" by (rule unsigned_less)
  then show ?thesis by simp
qed

lemma unat_of_nat_small [simp]:
  "n < 2 ^ 64 \<Longrightarrow> unat (of_nat n :: u64) = n"
  "n < 2 ^ 32 \<Longrightarrow> unat (of_nat n :: u32) = n"
  "n < 2 ^ 8 \<Longrightarrow> unat (of_nat n :: u8) = n"
  by (simp_all add: unat_of_nat)

lemma unat_ucast_widen [simp]:
  "unat (ucast a :: u64) = unat a"
  "unat (ucast b :: u64) = unat b"
  "unat (ucast b :: u32) = unat b"
  for a :: u32 and b :: u8
  using unat_u32_less [of a] unat_u8_less [of b]
  by (simp_all add: unsigned_ucast_eq take_bit_nat_eq_self)

lemma word_of_nat_unat: "of_nat (unat w) = w" for w :: "'a :: len word"
  by simp

lemma of_nat_or_80: "s < 128 \<Longrightarrow> (of_nat s :: u8) OR 0x80 = of_nat (s + 128)"
proof -
  assume "s < 128"
  then have "unat ((of_nat s :: u8) OR 0x80) = s + 128"
    by (subst unat_or_80) (simp_all add: unat_of_nat)
  then show ?thesis by (metis word_of_nat_unat)
qed

section \<open>Lists updated by index\<close>

lemma nth_update_eq: "xs[j := v] ! i = (if i = j \<and> j < length xs then v else xs ! i)"
  by (cases "j < length xs"; cases "i = j") (simp_all add: list_update_beyond)

lemma distinct_concat_disjoint:
  assumes "distinct (concat xss)" and "i < length xss" and "j < length xss" and "i \<noteq> j"
  shows "set (xss ! i) \<inter> set (xss ! j) = {}"
  using assms
proof (induction xss arbitrary: i j)
  case (Cons xs xss)
  have apart: "set xs \<inter> set (xss ! k) = {}" if "k < length xss" for k
    using Cons.prems(1) nth_mem [OF that] by fastforce
  show ?case
  proof (cases i)
    case 0
    with Cons.prems(4) obtain k where "j = Suc k" by (cases j) auto
    with 0 Cons.prems(3) apart [of k] show ?thesis by simp
  next
    case i: (Suc k)
    show ?thesis
    proof (cases j)
      case 0
      with i Cons.prems(2) apart [of k] show ?thesis by auto
    next
      case (Suc l)
      with i Cons.prems Cons.IH [of k l] show ?thesis by simp
    qed
  qed
qed simp

end
