(* ===== verification/Text.thy ===== *)
theory Text
  imports Prelude
begin

text \<open>
  The operations of Rust's \<open>str\<close> that the modelled code calls: \<open>split\<close> on a character, \<open>join\<close>,
  \<open>strip_prefix\<close> and \<open>strip_suffix\<close>, the ASCII character classes, \<open>u32::from_str\<close>, and the
  \<open>Display\<close> of an unsigned integer in decimal and in hexadecimal. The main facts: splitting what
  was joined gives back the parts, and reading a printed number gives back the number.
\<close>

section \<open>Character classes\<close>

definition code :: "char \<Rightarrow> nat" where
  "code c = of_char c"

definition is_ascii_digit :: "char \<Rightarrow> bool" where
  "is_ascii_digit c \<longleftrightarrow> 48 \<le> code c \<and> code c \<le> 57"

definition is_ascii_alphabetic :: "char \<Rightarrow> bool" where
  "is_ascii_alphabetic c \<longleftrightarrow> (65 \<le> code c \<and> code c \<le> 90) \<or> (97 \<le> code c \<and> code c \<le> 122)"

definition is_ascii_alphanumeric :: "char \<Rightarrow> bool" where
  "is_ascii_alphanumeric c \<longleftrightarrow> is_ascii_alphabetic c \<or> is_ascii_digit c"

definition is_ascii_hexdigit :: "char \<Rightarrow> bool" where
  "is_ascii_hexdigit c \<longleftrightarrow>
     is_ascii_digit c \<or> (65 \<le> code c \<and> code c \<le> 70) \<or> (97 \<le> code c \<and> code c \<le> 102)"

lemma code_less [simp]: "code c < 256"
  by (simp add: code_def)

lemma code_char_of [simp]: "n < 256 \<Longrightarrow> code (char_of n) = n"
  by (simp add: code_def)

lemma code_inj: "code c = code d \<longleftrightarrow> c = d"
  by (simp add: code_def)

section \<open>Prefixes and suffixes\<close>

fun strip_prefix :: "'a list \<Rightarrow> 'a list \<Rightarrow> 'a list option" where
  "strip_prefix [] s = Some s"
| "strip_prefix (p # ps) [] = None"
| "strip_prefix (p # ps) (c # cs) = (if p = c then strip_prefix ps cs else None)"

definition strip_suffix :: "'a list \<Rightarrow> 'a list \<Rightarrow> 'a list option" where
  "strip_suffix p s = map_option rev (strip_prefix (rev p) (rev s))"

definition starts_with :: "'a list \<Rightarrow> 'a list \<Rightarrow> bool" where
  "starts_with s p \<longleftrightarrow> take (length p) s = p"

lemma strip_prefix_Some: "strip_prefix p s = Some r \<longleftrightarrow> s = p @ r"
  by (induction p s rule: strip_prefix.induct) auto

lemma strip_prefix_None: "strip_prefix p s = None \<longleftrightarrow> (\<forall>r. s \<noteq> p @ r)"
  using strip_prefix_Some [of p s] by (cases "strip_prefix p s") auto

lemma strip_suffix_Some: "strip_suffix p s = Some r \<longleftrightarrow> s = r @ p"
proof -
  have "strip_suffix p s = Some r \<longleftrightarrow> rev s = rev p @ rev r"
    unfolding strip_suffix_def by (auto simp: strip_prefix_Some)
  also have "\<dots> \<longleftrightarrow> s = r @ p"
    by (metis rev_append rev_rev_ident)
  finally show ?thesis .
qed

lemma starts_with_iff: "starts_with s p \<longleftrightarrow> (\<exists>r. s = p @ r)"
  unfolding starts_with_def by (metis append_eq_conv_conj append_take_drop_id)

section \<open>Split and join\<close>

fun split_on :: "'a \<Rightarrow> 'a list \<Rightarrow> 'a list list" where
  "split_on d [] = [[]]"
| "split_on d (c # cs) =
     (if c = d then [] # split_on d cs
      else (case split_on d cs of [] \<Rightarrow> [[c]] | w # ws \<Rightarrow> (c # w) # ws))"

fun join :: "'a list \<Rightarrow> 'a list list \<Rightarrow> 'a list" where
  "join s [] = []"
| "join s [w] = w"
| "join s (w # v # ws) = w @ s @ join s (v # ws)"

lemma join_Cons_Cons [simp]: "join s ((c # w) # ws) = c # join s (w # ws)"
  by (cases ws) simp_all

lemma join_append_head [simp]: "join s ((u @ w) # ws) = u @ join s (w # ws)"
  by (cases ws) simp_all

lemma split_on_nonempty [simp]: "split_on d s \<noteq> []"
  by (induction s) (auto split: list.split)

lemma split_on_append: "d \<notin> set w \<Longrightarrow> split_on d (w @ d # s) = w # split_on d s"
  by (induction w) auto

lemma split_on_no_sep: "d \<notin> set w \<Longrightarrow> split_on d w = [w]"
  by (induction w) auto

lemma split_on_join:
  assumes "ws \<noteq> []" and "\<forall>w \<in> set ws. d \<notin> set w"
  shows "split_on d (join [d] ws) = ws"
  using assms
proof (induction "[d]" ws rule: join.induct)
  case (3 w v ws)
  then show ?case by (simp add: split_on_append)
qed (simp_all add: split_on_no_sep)

lemma join_split_on [simp]: "join [d] (split_on d s) = s"
proof (induction s)
  case (Cons c s)
  obtain w ws where "split_on d s = w # ws"
    by (cases "split_on d s") auto
  with Cons.IH show ?case by (cases ws) auto
qed simp

section \<open>Decimal numbers\<close>

definition digit_val :: "char \<Rightarrow> nat" where
  "digit_val c = code c - 48"

definition digit_char :: "nat \<Rightarrow> char" where
  "digit_char d = char_of (48 + d)"

fun show_nat :: "nat \<Rightarrow> string" where
  "show_nat n = (if n < 10 then [digit_char n] else show_nat (n div 10) @ [digit_char (n mod 10)])"

declare show_nat.simps [simp del]

definition read_digits :: "string \<Rightarrow> nat" where
  "read_digits s = foldl (\<lambda>acc c. acc * 10 + digit_val c) 0 s"

text \<open>\<open>u32::from_str\<close>: an optional \<open>+\<close>, then at least one digit, and no overflow.\<close>

definition parse_u32 :: "string \<Rightarrow> u32 option" where
  "parse_u32 s =
     (let d = (case s of [] \<Rightarrow> [] | c # cs \<Rightarrow> if c = CHR ''+'' then cs else s)
      in if d \<noteq> [] \<and> (\<forall>c \<in> set d. is_ascii_digit c) \<and> read_digits d < 2 ^ 32
         then Some (of_nat (read_digits d)) else None)"

lemma digit_char_simps [simp]:
  "d < 10 \<Longrightarrow> is_ascii_digit (digit_char d)"
  "d < 10 \<Longrightarrow> digit_val (digit_char d) = d"
  by (simp_all add: is_ascii_digit_def digit_char_def digit_val_def)

lemma show_nat_digits: "\<forall>c \<in> set (show_nat n). is_ascii_digit c"
proof (induction n rule: show_nat.induct)
  case (1 n)
  then show ?case by (subst show_nat.simps) auto
qed

lemma show_nat_nonempty [simp]: "show_nat n \<noteq> []"
  by (subst show_nat.simps) simp

lemma read_digits_snoc [simp]: "read_digits (s @ [c]) = read_digits s * 10 + digit_val c"
  by (simp add: read_digits_def)

lemma read_show_nat [simp]: "read_digits (show_nat n) = n"
proof (induction n rule: show_nat.induct)
  case (1 n)
  then show ?case by (subst show_nat.simps) (auto simp: read_digits_def [of "[_]"])
qed

lemma show_nat_inj: "show_nat m = show_nat n \<longleftrightarrow> m = n"
  by (metis read_show_nat)

lemma digit_not: "is_ascii_digit c \<Longrightarrow> code d < 48 \<or> 57 < code d \<Longrightarrow> c \<noteq> d"
  by (auto simp: is_ascii_digit_def)

lemma code_punctuation [simp]:
  "code (CHR ''.'') = 46" "code (CHR ''+'') = 43" "code (CHR ''-'') = 45"
  "code (CHR ''{'') = 123" "code (CHR ''}'') = 125" "code (CHR '':'') = 58"
  "code (CHR ''0'') = 48" "code (CHR ''_'') = 95"
  by (simp_all add: code_def)

lemma parse_show_u32 [simp]: "parse_u32 (show_nat (unat w)) = Some w"
proof -
  have bound: "unat w < 2 ^ 32"
    using unsigned_less [of w] by simp
  have digits: "\<forall>c \<in> set (show_nat (unat w)). is_ascii_digit c"
    by (rule show_nat_digits)
  obtain c cs where eq: "show_nat (unat w) = c # cs"
    by (cases "show_nat (unat w)") auto
  with digits have "c \<noteq> CHR ''+''"
    by (intro digit_not) auto
  with eq have "(case show_nat (unat w) of [] \<Rightarrow> [] | c # cs \<Rightarrow>
      if c = CHR ''+'' then cs else show_nat (unat w)) = show_nat (unat w)"
    by simp
  then show ?thesis
    unfolding parse_u32_def Let_def using digits bound by simp
qed

section \<open>Hexadecimal numbers\<close>

definition hex_char :: "nat \<Rightarrow> char" where
  "hex_char d = (if d < 10 then char_of (48 + d) else char_of (87 + d))"

text \<open>\<open>{:016x}\<close> of a \<open>u64\<close>, and \<open>char::to_digit(16)\<close>.\<close>

definition show_hex16 :: "u64 \<Rightarrow> string" where
  "show_hex16 v = map (\<lambda>i. hex_char (unat v div 16 ^ i mod 16)) (rev [0..<16])"

definition to_digit16 :: "char \<Rightarrow> nat option" where
  "to_digit16 c =
     (if is_ascii_digit c then Some (code c - 48)
      else if 97 \<le> code c \<and> code c \<le> 102 then Some (code c - 87)
      else if 65 \<le> code c \<and> code c \<le> 70 then Some (code c - 55)
      else None)"

lemma to_digit_hex_char [simp]: "d < 16 \<Longrightarrow> to_digit16 (hex_char d) = Some d"
  by (simp add: to_digit16_def hex_char_def is_ascii_digit_def)

lemma hex_char_inj: "d < 16 \<Longrightarrow> e < 16 \<Longrightarrow> hex_char d = hex_char e \<longleftrightarrow> d = e"
  by (metis option.inject to_digit_hex_char)

lemma digits16_eq:
  assumes "\<forall>i < n. a div 16 ^ i mod 16 = b div 16 ^ i mod (16 :: nat)"
  shows "a mod 16 ^ n = b mod 16 ^ n"
  using assms
proof (induction n)
  case (Suc n)
  have "x mod 16 ^ Suc n = 16 ^ n * (x div 16 ^ n mod 16) + x mod 16 ^ n" for x :: nat
    using mod_mult2_eq [of x "16 ^ n" 16] by (simp add: mult.commute)
  with Suc show ?case by simp
qed simp

lemma show_hex16_inj: "show_hex16 v = show_hex16 w \<longleftrightarrow> v = w"
proof
  assume eq: "show_hex16 v = show_hex16 w"
  have "unat v div 16 ^ i mod 16 = unat w div 16 ^ i mod 16" if "i < 16" for i
    using eq that by (auto simp: show_hex16_def hex_char_inj)
  then have "unat v mod 16 ^ 16 = unat w mod 16 ^ 16"
    by (intro digits16_eq) blast
  moreover have "unat v < 16 ^ 16" "unat w < 16 ^ 16"
    using unsigned_less [of v] unsigned_less [of w] by simp_all
  ultimately show "v = w" by (simp add: word_unat_eq_iff)
qed simp

end
