(* ===== verification/Util.thy ===== *)
theory Util
  imports Text
begin

text \<open>
  The shared primitives of \<open>sonda-core/src/util.rs\<close>: the SplitMix64 mixing function and its inverse,
  the values of a \<open>random\<close> cardinality spike, and the constant-time comparison of octets.

  The inverse is built from two loops. \<open>unxorshift\<close> runs until \<open>known\<close> reaches 64, which never
  happens for a shift of 0, so it is a partial function; \<open>inverse_of_odd\<close> is Newton's iteration.
  The lemmas show that both loops return the inverse they promise, hence that \<open>splitmix64\<close> is a
  bijection on 64-bit words.
\<close>

section \<open>SplitMix64\<close>

definition SPLITMIX64_GAMMA :: u64 where
  "SPLITMIX64_GAMMA = 0x9e3779b97f4a7c15"

definition SPLITMIX64_MIX1 :: u64 where
  "SPLITMIX64_MIX1 = 0xbf58476d1ce4e5b9"

definition SPLITMIX64_MIX2 :: u64 where
  "SPLITMIX64_MIX2 = 0x94d049bb133111eb"

definition splitmix64 :: "u64 \<Rightarrow> u64" where
  "splitmix64 z0 =
     (let z = z0 + SPLITMIX64_GAMMA;
          z = (z XOR drop_bit 30 z) * SPLITMIX64_MIX1;
          z = (z XOR drop_bit 27 z) * SPLITMIX64_MIX2
      in z XOR drop_bit 31 z)"

partial_function (option) unxorshift_loop :: "u64 \<Rightarrow> nat \<Rightarrow> u64 \<Rightarrow> nat \<Rightarrow> u64 option" where
  "unxorshift_loop z shift x known =
     (if known < 64 then unxorshift_loop z shift (z XOR drop_bit shift x) (known + shift)
      else Some x)"

definition unxorshift :: "u64 \<Rightarrow> nat \<Rightarrow> u64 option" where
  "unxorshift z shift = unxorshift_loop z shift z shift"

function inverse_of_odd_loop :: "u64 \<Rightarrow> u64 \<Rightarrow> nat \<Rightarrow> u64" where
  "inverse_of_odd_loop a x step =
     (if step < 5 then inverse_of_odd_loop a (x * (2 - a * x)) (step + 1) else x)"
  by auto
termination by (relation "measure (\<lambda>(a, x, step). 5 - step)") auto

declare inverse_of_odd_loop.simps [simp del]

definition inverse_of_odd :: "u64 \<Rightarrow> u64" where
  "inverse_of_odd a = inverse_of_odd_loop a a 0"

definition SPLITMIX64_MIX1_INVERSE :: u64 where
  "SPLITMIX64_MIX1_INVERSE = inverse_of_odd SPLITMIX64_MIX1"

definition SPLITMIX64_MIX2_INVERSE :: u64 where
  "SPLITMIX64_MIX2_INVERSE = inverse_of_odd SPLITMIX64_MIX2"

definition splitmix64_inverse :: "u64 \<Rightarrow> u64 option" where
  "splitmix64_inverse z =
     Option.bind (unxorshift z 31) (\<lambda>u.
       let z = u * SPLITMIX64_MIX2_INVERSE
       in Option.bind (unxorshift z 27) (\<lambda>u.
            let z = u * SPLITMIX64_MIX1_INVERSE
            in map_option (\<lambda>u. u - SPLITMIX64_GAMMA) (unxorshift z 30)))"

section \<open>Random spike values and the constant-time comparison\<close>

definition random_spike_hash :: "u64 \<Rightarrow> u64 \<Rightarrow> u64" where
  "random_spike_hash seed index = splitmix64 (seed XOR index)"

definition random_spike_index :: "u64 \<Rightarrow> u64 \<Rightarrow> u64 option" where
  "random_spike_index seed hash = map_option (\<lambda>z. z XOR seed) (splitmix64_inverse hash)"

definition random_spike_value :: "string \<Rightarrow> u64 \<Rightarrow> u64 \<Rightarrow> string" where
  "random_spike_value prefix seed index = prefix @ show_hex16 (random_spike_hash seed index)"

definition constant_time_eq :: "bytes \<Rightarrow> bytes \<Rightarrow> bool" where
  "constant_time_eq a b \<longleftrightarrow>
     (if length a \<noteq> length b then False
      else foldl (\<lambda>acc (x, y). acc OR (x XOR y)) 0 (zip a b) = 0)"

section \<open>The loops invert their steps\<close>

lemma unxorshift_loop_inverts:
  assumes "0 < shift"
    and "\<forall>i. 64 \<le> i + known \<longrightarrow> bit x i = bit y i"
  shows "unxorshift_loop (y XOR drop_bit shift y) shift x known = Some y"
  using assms(2)
proof (induction "64 - known" arbitrary: x known rule: less_induct)
  case less
  show ?case
  proof (cases "known < 64")
    case True
    let ?x = "y XOR drop_bit shift y XOR drop_bit shift x"
    have "\<forall>i. 64 \<le> i + (known + shift) \<longrightarrow> bit ?x i = bit y i"
      using less.prems by (auto simp: bit_xor_iff bit_drop_bit_eq algebra_simps)
    with less.hyps [of "known + shift" ?x] True \<open>0 < shift\<close> show ?thesis
      by (subst unxorshift_loop.simps) (simp add: xor.assoc)
  next
    case False
    then have "x = y" using less.prems by (intro bit_word_eqI) simp
    with False show ?thesis by (subst unxorshift_loop.simps) simp
  qed
qed

lemma unxorshift_inverts: "0 < shift \<Longrightarrow> unxorshift (y XOR drop_bit shift y) shift = Some y"
  unfolding unxorshift_def
proof (rule unxorshift_loop_inverts)
  show "\<forall>i. 64 \<le> i + shift \<longrightarrow> bit (y XOR drop_bit shift y) i = bit y i"
  proof (intro allI impI)
    fix i assume "64 \<le> i + shift"
    then have "\<not> bit y (shift + i)"
      using bit_imp_le_length [of y "shift + i"] by auto
    then show "bit (y XOR drop_bit shift y) i = bit y i"
      by (simp add: bit_xor_iff bit_drop_bit_eq)
  qed
qed

lemma newton_step: "1 - a * (x * (2 - a * x)) = (1 - a * x) ^ 2" for a x :: u64
  by (simp add: power2_eq_square algebra_simps)

lemma inverse_of_odd_unfold:
  "1 - a * inverse_of_odd a = (1 - a * a) ^ 32"
proof -
  have "1 - a * inverse_of_odd a = ((((((1 - a * a)\<^sup>2)\<^sup>2)\<^sup>2)\<^sup>2)\<^sup>2)"
    unfolding inverse_of_odd_def
    by (simp add: inverse_of_odd_loop.simps numeral_eq_Suc [symmetric] newton_step)
  then show ?thesis by (simp flip: power_mult)
qed

lemma odd_square_mod8: "odd a \<Longrightarrow> \<exists>k. 1 - a * a = 8 * (k :: u64)"
proof -
  assume "odd a"
  then obtain b :: u64 where a: "a = 2 * b + 1" by (rule oddE)
  have "even (b * (b + 1))" by (cases "even b") auto
  then obtain c where c: "b * (b + 1) = 2 * c" by (rule evenE)
  have "1 - a * a = 8 * (- c)"
  proof -
    have "1 - a * a = - 4 * (b * (b + 1))" by (simp add: a algebra_simps)
    then show ?thesis by (simp add: c)
  qed
  then show ?thesis by blast
qed

lemma inverse_of_odd_inverts: "odd a \<Longrightarrow> a * inverse_of_odd a = 1"
proof -
  assume "odd a"
  then obtain k where k: "1 - a * a = 8 * k" using odd_square_mod8 by blast
  have "(8 :: u64) ^ 32 = 0" by simp
  then have "(1 - a * a) ^ 32 = 0" by (simp only: k power_mult_distrib mult_zero_left)
  then show ?thesis using inverse_of_odd_unfold [of a] by simp
qed

lemma odd_mix: "odd SPLITMIX64_MIX1" "odd SPLITMIX64_MIX2"
  by (simp_all add: SPLITMIX64_MIX1_def SPLITMIX64_MIX2_def)

lemma mix_inverse [simp]:
  "z * SPLITMIX64_MIX1 * SPLITMIX64_MIX1_INVERSE = z"
  "z * SPLITMIX64_MIX2 * SPLITMIX64_MIX2_INVERSE = z"
  using inverse_of_odd_inverts [OF odd_mix(1)] inverse_of_odd_inverts [OF odd_mix(2)]
  by (simp_all add: SPLITMIX64_MIX1_INVERSE_def SPLITMIX64_MIX2_INVERSE_def mult.assoc)

lemma splitmix64_inverse_inverts: "splitmix64_inverse (splitmix64 z) = Some z"
  by (simp add: splitmix64_def splitmix64_inverse_def Let_def unxorshift_inverts)

lemma splitmix64_inj: "splitmix64 x = splitmix64 y \<longleftrightarrow> x = y"
  by (metis option.inject splitmix64_inverse_inverts)

lemma splitmix64_surj: "\<exists>z. splitmix64 z = h"
proof -
  have "inj splitmix64" by (rule injI) (simp add: splitmix64_inj)
  then have "surj splitmix64" by (rule finite_UNIV_inj_surj [OF finite])
  then show ?thesis by (metis surjD)
qed

lemma splitmix64_splitmix64_inverse: "\<exists>z. splitmix64_inverse h = Some z \<and> splitmix64 z = h"
  by (metis splitmix64_inverse_inverts splitmix64_surj)

section \<open>Properties\<close>

text \<open>
  The index of a \<open>random\<close> spike value is recovered from its hash under the same seed, for every
  hash, and it is the only index with that hash: both loops of the inverse return, and
  \<open>random_spike_index\<close> and \<open>random_spike_hash\<close> are inverse to each other.
\<close>

lemma random_spike_roundtrip:
  "random_spike_index seed hash = Some index \<longleftrightarrow> random_spike_hash seed index = hash"
proof -
  obtain z where z: "splitmix64_inverse hash = Some z" "splitmix64 z = hash"
    using splitmix64_splitmix64_inverse by blast
  have "random_spike_index seed hash = Some index \<longleftrightarrow> seed XOR z = index"
    by (simp add: random_spike_index_def z xor.commute)
  also have "\<dots> \<longleftrightarrow> z = seed XOR index"
    using xor_left_cancel [of seed z "seed XOR index"] by (simp add: xor_xor_cancel)
  also have "\<dots> \<longleftrightarrow> random_spike_hash seed index = hash"
    unfolding random_spike_hash_def z(2) [symmetric] splitmix64_inj by auto
  finally show ?thesis .
qed

lemma foldl_or_xor_eq_0:
  "length a = length b \<Longrightarrow>
   foldl (\<lambda>acc (x, y). acc OR (x XOR y)) c (zip a b) = 0 \<longleftrightarrow> c = 0 \<and> a = (b :: bytes)"
proof (induction a b arbitrary: c rule: list_induct2)
  case (Cons x xs y ys)
  show ?case by (simp add: Cons.IH xor_eq_0 or_eq_0_iff)
qed simp

lemma constant_time_eq_iff [simp]: "constant_time_eq a b \<longleftrightarrow> a = b"
  by (auto simp: constant_time_eq_def foldl_or_xor_eq_0)

lemma random_spike_value_inj:
  "random_spike_value prefix seed i = random_spike_value prefix seed j \<longleftrightarrow> i = j"
  by (simp add: random_spike_value_def random_spike_hash_def show_hex16_inj splitmix64_inj
      xor_left_cancel)

end
