(* ===== verification/Ordered_Map.thy ===== *)
theory Ordered_Map
  imports Text "HOL-Library.Char_ord" "HOL-Library.List_Lexorder"
begin

text \<open>
  Rust's \<open>BTreeMap\<close>, as the code uses it: \<open>get\<close>, \<open>insert\<close>, \<open>remove\<close>, iteration in key order and
  \<open>range\<close> from an excluded bound. The interface is the locale \<open>ordered_map\<close>, in which the facts a
  client needs are proved once: what a lookup finds after an update, and that following
  \<open>after\<close> from key to key (a MIB walk) visits every entry above the start in increasing order,
  none twice. The concrete map is a list of entries sorted by key.

  Keys are ordered as Rust orders them: strings and arc vectors lexicographically, by octet and by
  number, a prefix before what extends it.
\<close>

section \<open>The interface\<close>

locale ordered_map =
  fixes empty_map :: "'m"
    and get :: "'m \<Rightarrow> 'k :: linorder \<Rightarrow> 'v option"
    and insert_map :: "'k \<Rightarrow> 'v \<Rightarrow> 'm \<Rightarrow> 'm"
    and remove_map :: "'k \<Rightarrow> 'm \<Rightarrow> 'm"
    and after :: "'k \<Rightarrow> 'm \<Rightarrow> ('k \<times> 'v) list"
    and invar :: "'m \<Rightarrow> bool"
  assumes get_empty: "get empty_map k = None"
    and get_insert: "invar m \<Longrightarrow> get (insert_map k v m) j = (if j = k then Some v else get m j)"
    and get_remove: "invar m \<Longrightarrow> get (remove_map k m) j = (if j = k then None else get m j)"
    and after_get: "invar m \<Longrightarrow> (j, v) \<in> set (after k m) \<longleftrightarrow> k < j \<and> get m j = Some v"
    and after_sorted: "invar m \<Longrightarrow> sorted_wrt (<) (map fst (after k m))"
    and invar_empty: "invar empty_map"
    and invar_insert: "invar m \<Longrightarrow> invar (insert_map k v m)"
    and invar_remove: "invar m \<Longrightarrow> invar (remove_map k m)"
begin

lemma after_Nil: "invar m \<Longrightarrow> after k m = [] \<longleftrightarrow> (\<forall>j v. get m j = Some v \<longrightarrow> j \<le> k)"
  by (metis after_get last_in_set list.set(1) empty_iff leD leI prod.exhaust)

lemma after_least:
  assumes "invar m" and "after k m = (j, v) # rest"
  shows "k < j" and "get m j = Some v" and "\<And>i w. k < i \<Longrightarrow> get m i = Some w \<Longrightarrow> j \<le> i"
proof -
  have "(j, v) \<in> set (after k m)" using assms by simp
  then show "k < j" and "get m j = Some v" using after_get [OF assms(1)] by blast+
  fix i w
  assume "k < i" and "get m i = Some w"
  then have "(i, w) \<in> set (after k m)" using after_get [OF assms(1)] by blast
  then show "j \<le> i" using after_sorted [OF assms(1), of k] assms(2) by fastforce
qed

text \<open>Asking again from the key just returned continues the same walk.\<close>

lemma after_step:
  assumes "invar m" and "after k m = (j, v) # rest"
  shows "after j m = rest"
proof -
  have srt: "sorted_wrt (<) (map fst (after j m))" "sorted_wrt (<) (map fst rest)"
    using after_sorted [OF assms(1)] assms(2) by (metis list.simps(9) sorted_wrt.simps(2))+
  have above: "\<forall>e \<in> set rest. j < fst e"
    using after_sorted [OF assms(1), of k] assms(2) by simp
  have "set (after j m) = set rest"
  proof (intro equalityI subsetI)
    fix e assume "e \<in> set (after j m)"
    moreover obtain i w where e: "e = (i, w)" by (cases e)
    ultimately have "j < i" "get m i = Some w" using after_get [OF assms(1)] by blast+
    then have "(i, w) \<in> set (after k m)"
      using after_least(1) [OF assms] after_get [OF assms(1)] less_trans by blast
    with \<open>j < i\<close> e show "e \<in> set rest" using assms(2) by auto
  next
    fix e assume "e \<in> set rest"
    moreover obtain i w where e: "e = (i, w)" by (cases e)
    ultimately have "(i, w) \<in> set (after k m)" using assms(2) by simp
    then have "get m i = Some w" using after_get [OF assms(1)] by blast
    then show "e \<in> set (after j m)"
      using above \<open>e \<in> set rest\<close> e after_get [OF assms(1)] by fastforce
  qed
  then have "set (map fst (after j m)) = set (map fst rest)" by simp
  then have keys: "map fst (after j m) = map fst rest"
    using srt by (metis sorted_wrt_less_idx strict_sorted_equal)
  show ?thesis
  proof (rule nth_equalityI)
    show len: "length (after j m) = length rest" using keys by (metis length_map)
    fix n assume n: "n < length (after j m)"
    obtain a b c d where e: "after j m ! n = (a, b)" "rest ! n = (c, d)"
      by (metis prod.exhaust)
    have "a = c" using keys n len e by (metis fst_conv nth_map)
    moreover have "(a, b) \<in> set (after j m)" "(c, d) \<in> set (after j m)"
      using n len \<open>set (after j m) = set rest\<close> e by (metis nth_mem)+
    then have "get m a = Some b" "get m c = Some d"
      using after_get [OF assms(1)] by blast+
    ultimately show "after j m ! n = rest ! n" by (simp add: e)
  qed
qed

end

section \<open>Sorted entries\<close>

type_synonym ('k, 'v) btree = "('k \<times> 'v) list"

definition btree_inv :: "('k :: linorder, 'v) btree \<Rightarrow> bool" where
  "btree_inv m \<longleftrightarrow> sorted_wrt (<) (map fst m)"

definition btree_get :: "('k, 'v) btree \<Rightarrow> 'k \<Rightarrow> 'v option" where
  "btree_get m k = map_of m k"

fun btree_insert :: "'k :: linorder \<Rightarrow> 'v \<Rightarrow> ('k, 'v) btree \<Rightarrow> ('k, 'v) btree" where
  "btree_insert k v [] = [(k, v)]"
| "btree_insert k v ((a, b) # m) =
     (if k < a then (k, v) # (a, b) # m
      else if k = a then (k, v) # m
      else (a, b) # btree_insert k v m)"

definition btree_remove :: "'k \<Rightarrow> ('k, 'v) btree \<Rightarrow> ('k, 'v) btree" where
  "btree_remove k m = filter (\<lambda>(a, b). a \<noteq> k) m"

definition btree_after :: "'k :: linorder \<Rightarrow> ('k, 'v) btree \<Rightarrow> ('k \<times> 'v) list" where
  "btree_after k m = dropWhile (\<lambda>(a, b). a \<le> k) m"

lemma btree_inv_Nil [simp]: "btree_inv []"
  by (simp add: btree_inv_def)

lemma btree_inv_Cons [simp]:
  "btree_inv ((a, b) # m) \<longleftrightarrow> (\<forall>k v. (k, v) \<in> set m \<longrightarrow> a < k) \<and> btree_inv m"
  by (auto simp: btree_inv_def)

lemma btree_insert_keys: "fst ` set (btree_insert k v m) = insert k (fst ` set m)"
  by (induction m rule: btree_insert.induct) auto

lemma btree_inv_iff_keys: "btree_inv ((a, b) # m) \<longleftrightarrow> (\<forall>k \<in> fst ` set m. a < k) \<and> btree_inv m"
  by (force simp: btree_inv_def)

lemma btree_inv_insert: "btree_inv m \<Longrightarrow> btree_inv (btree_insert k v m)"
proof (induction k v m rule: btree_insert.induct)
  case (2 k v a b m)
  then show ?case
    by (auto simp: btree_inv_iff_keys btree_insert_keys simp del: btree_inv_Cons
        intro: less_trans)
qed simp

lemma btree_inv_remove: "btree_inv m \<Longrightarrow> btree_inv (btree_remove k m)"
  unfolding btree_inv_def btree_remove_def by (induction m) auto

lemma btree_get_insert:
  "btree_inv m \<Longrightarrow> btree_get (btree_insert k v m) j = (if j = k then Some v else btree_get m j)"
  unfolding btree_get_def by (induction k v m rule: btree_insert.induct) auto

lemma btree_get_remove: "btree_get (btree_remove k m) j = (if j = k then None else btree_get m j)"
  unfolding btree_get_def btree_remove_def by (induction m) auto

lemma btree_get_iff: "btree_inv m \<Longrightarrow> btree_get m k = Some v \<longleftrightarrow> (k, v) \<in> set m"
  unfolding btree_get_def
  by (rule map_of_eq_Some_iff) (simp add: btree_inv_def strict_sorted_iff)

text \<open>Sorted entries are determined by what they hold.\<close>

lemma btree_eqI: "btree_inv m \<Longrightarrow> btree_inv m' \<Longrightarrow> set m = set m' \<Longrightarrow> m = m'"
  by (rule map_sorted_distinct_set_unique [of fst])
     (auto simp: btree_inv_def strict_sorted_iff distinct_map)

lemma btree_get_eqI:
  assumes "btree_inv m" and "btree_inv n" and "btree_get m = btree_get n"
  shows "m = n"
proof (rule btree_eqI [OF assms(1,2)])
  show "set m = set n" using btree_get_iff [OF assms(1)] btree_get_iff [OF assms(2)] assms(3) by auto
qed

lemma btree_after_filter: "btree_inv m \<Longrightarrow> btree_after k m = filter (\<lambda>(a, b). k < a) m"
proof (induction m)
  case (Cons e m)
  obtain a b where e: "e = (a, b)" by (cases e)
  show ?case
  proof (cases "a \<le> k")
    case True
    with Cons e show ?thesis by (auto simp: btree_after_def)
  next
    case False
    have "\<forall>x \<in> set m. k < fst x" using Cons.prems False e by (force simp: btree_inv_iff_keys)
    then have "filter (\<lambda>(a, b). k < a) m = m"
      by (intro filter_True) (auto simp: case_prod_beta)
    with False e show ?thesis by (simp add: btree_after_def)
  qed
qed (simp add: btree_after_def)

lemma btree_after_get:
  "btree_inv m \<Longrightarrow> (j, v) \<in> set (btree_after k m) \<longleftrightarrow> k < j \<and> btree_get m j = Some v"
  by (auto simp: btree_after_filter btree_get_iff)

lemma btree_after_sorted: "btree_inv m \<Longrightarrow> sorted_wrt (<) (map fst (btree_after k m))"
proof -
  assume "btree_inv m"
  then have "sorted_wrt (<) (map fst (filter (\<lambda>(a, b). k < a) m))"
    unfolding btree_inv_def by (induction m) auto
  with \<open>btree_inv m\<close> show ?thesis by (simp add: btree_after_filter)
qed

interpretation bt: ordered_map "[]" btree_get btree_insert btree_remove btree_after btree_inv
  by unfold_locales
     (simp_all add: btree_get_insert btree_get_remove btree_after_get btree_after_sorted
       btree_inv_insert btree_inv_remove btree_get_def [of "[]"])

end
