(* ===== verification/Float64.thy ===== *)
theory Float64
  imports Prelude
begin

text \<open>
  IEEE 754 binary64 as Rust's \<open>f64\<close>: the 64 bits of the value, as \<open>to_bits\<close> shows them. What the modelled
  code uses of it: \<open>is_nan\<close>, \<open>is_finite\<close>, the strict comparisons, the comparison of bits. The exact value of a
  finite number is an integer count of the smallest positive number, two to the minus 1074; the comparison
  of sign and magnitude is shown to be the comparison of these values.
\<close>

type_synonym f64 = "64 word"

definition f64_sign :: "f64 \<Rightarrow> bool" where
  "f64_sign x \<longleftrightarrow> bit x 63"

definition f64_magnitude :: "f64 \<Rightarrow> nat" where
  "f64_magnitude x = unat (take_bit 63 x)"

definition f64_exponent :: "f64 \<Rightarrow> nat" where
  "f64_exponent x = f64_magnitude x div 2 ^ 52"

definition f64_fraction :: "f64 \<Rightarrow> nat" where
  "f64_fraction x = f64_magnitude x mod 2 ^ 52"

definition f64_is_nan :: "f64 \<Rightarrow> bool" where
  "f64_is_nan x \<longleftrightarrow> f64_exponent x = 2047 \<and> f64_fraction x \<noteq> 0"

definition f64_is_finite :: "f64 \<Rightarrow> bool" where
  "f64_is_finite x \<longleftrightarrow> f64_exponent x < 2047"

text \<open>The positive quiet NaN that \<open>f64::NAN\<close> is.\<close>

definition f64_nan :: f64 where
  "f64_nan = 0x7FF8000000000000"

text \<open>Sign and magnitude as one integer, in which both zeros are the same.\<close>

definition f64_key :: "f64 \<Rightarrow> int" where
  "f64_key x = (if f64_sign x then - int (f64_magnitude x) else int (f64_magnitude x))"

definition f64_lt :: "f64 \<Rightarrow> f64 \<Rightarrow> bool" where
  "f64_lt a b \<longleftrightarrow> \<not> f64_is_nan a \<and> \<not> f64_is_nan b \<and> f64_key a < f64_key b"

definition f64_bit_eq :: "f64 \<Rightarrow> f64 \<Rightarrow> bool" where
  "f64_bit_eq a b \<longleftrightarrow> a = b"

section \<open>The value of a finite number\<close>

definition units_of :: "nat \<Rightarrow> nat" where
  "units_of m = (if m div 2 ^ 52 = 0 then m mod 2 ^ 52
                 else (2 ^ 52 + m mod 2 ^ 52) * 2 ^ (m div 2 ^ 52 - 1))"

definition f64_units :: "f64 \<Rightarrow> int" where
  "f64_units x = (if f64_sign x then - int (units_of (f64_magnitude x)) else int (units_of (f64_magnitude x)))"

lemma units_of_bounds:
  assumes "0 < m div 2 ^ 52"
  shows "2 ^ (m div 2 ^ 52 + 51) \<le> units_of m" and "units_of m < 2 ^ (m div 2 ^ 52 + 52)"
proof -
  obtain e where e: "m div 2 ^ 52 = Suc e" using assms by (cases "m div 2 ^ 52") auto
  have u: "units_of m = (2 ^ 52 + m mod 2 ^ 52) * 2 ^ e" unfolding units_of_def e by simp
  have f: "m mod 2 ^ 52 < (2 ^ 52 :: nat)" by simp
  show "2 ^ (m div 2 ^ 52 + 51) \<le> units_of m"
    unfolding u e by (simp add: power_add)
  have "(2 ^ 52 + m mod 2 ^ 52) * 2 ^ e < (2 ^ 53 :: nat) * 2 ^ e" using f by simp
  then show "units_of m < 2 ^ (m div 2 ^ 52 + 52)"
    unfolding u e by (simp add: power_add)
qed

lemma units_of_small: "m div 2 ^ 52 = 0 \<Longrightarrow> units_of m < 2 ^ 52"
  by (simp add: units_of_def)

lemma units_of_strict_mono:
  assumes "m < n"
  shows "units_of m < units_of n"
proof (cases "m div 2 ^ 52 = n div 2 ^ 52")
  case True
  then have "m mod 2 ^ 52 < n mod 2 ^ 52"
    using assms by (metis div_mult_mod_eq nat_add_left_cancel_less)
  with True assms show ?thesis unfolding units_of_def by (simp del: power_numeral)
next
  case False
  with assms have lt: "m div 2 ^ 52 < n div 2 ^ 52" using div_le_mono [of m n "2 ^ 52"] by linarith
  have "units_of m < 2 ^ (m div 2 ^ 52 + 52)"
    using units_of_bounds(2) [of m] units_of_small [of m] by (cases "m div 2 ^ 52 = 0") auto
  also have "\<dots> \<le> 2 ^ (n div 2 ^ 52 + 51)" using lt by (intro power_increasing) auto
  also have "\<dots> \<le> units_of n" using lt by (intro units_of_bounds(1)) auto
  finally show ?thesis .
qed

lemma units_of_less_iff [simp]: "units_of m < units_of n \<longleftrightarrow> m < n"
  by (metis less_asym linorder_neqE_nat units_of_strict_mono)

lemma units_of_0 [simp]: "units_of m = 0 \<longleftrightarrow> m = 0"
  using units_of_less_iff [of 0 m] by (cases m) (auto simp: units_of_def)

lemma f64_key_units: "f64_key a < f64_key b \<longleftrightarrow> f64_units a < f64_units b"
proof -
  have z: "0 < units_of n \<longleftrightarrow> 0 < n" for n by (simp only: neq0_conv [symmetric] units_of_0)
  have n: "- int m < int n \<longleftrightarrow> 0 < m \<or> 0 < n" "\<not> int m < - int n" for m n by linarith+
  show ?thesis by (simp add: f64_key_def f64_units_def z n)
qed

lemma f64_lt_value:
  "\<not> f64_is_nan a \<Longrightarrow> \<not> f64_is_nan b \<Longrightarrow> f64_lt a b \<longleftrightarrow> f64_units a < f64_units b"
  by (simp add: f64_lt_def f64_key_units)

lemma f64_lt_irrefl [simp]: "\<not> f64_lt a a"
  by (simp add: f64_lt_def)

lemma f64_lt_asym: "f64_lt a b \<Longrightarrow> \<not> f64_lt b a"
  by (simp add: f64_lt_def)

lemma f64_is_nan_nan [simp]: "f64_is_nan f64_nan"
  by (simp add: f64_is_nan_def f64_exponent_def f64_fraction_def f64_magnitude_def f64_nan_def take_bit_eq_mod)

lemma f64_lt_nan [simp]: "\<not> f64_lt f64_nan b" "\<not> f64_lt a f64_nan"
  by (simp_all add: f64_lt_def)

text \<open>What evaluates a comparison of two literals.\<close>

lemmas f64_evals = f64_lt_def f64_is_nan_def f64_exponent_def f64_fraction_def f64_magnitude_def f64_key_def
  f64_sign_def take_bit_eq_mod

end
