(* ===== verification/Metric.thy ===== *)
theory Metric
  imports Ordered_Map Float64
begin

text \<open>
  The metric model of \<open>sonda-core/src/model/metric.rs\<close>: metric names and label keys, label sets and
  metric events. A label set is an ordered map from keys to values; every label set built by
  \<open>Labels_from_pairs\<close> holds valid keys only, each once, in key order, and the last pair given for
  a key wins.

  An \<open>f64\<close> is its 64 bits (theory Float64). A \<open>SystemTime\<close> is a number of nanoseconds since the epoch.
\<close>

section \<open>Errors\<close>

text \<open>
  A \<open>SondaError\<close> as far as the modelled code builds one. The text of a message is not modelled;
  what the message names is.
\<close>

datatype metric_error = InvalidLabelKey string | InvalidMetricName string

section \<open>Names, keys and label sets\<close>

definition is_valid_label_key :: "string \<Rightarrow> bool" where
  "is_valid_label_key s \<longleftrightarrow>
     (case s of
        [] \<Rightarrow> False
      | c # chars \<Rightarrow>
          if is_ascii_alphabetic c \<or> c = CHR ''_''
          then list_all (\<lambda>c. is_ascii_alphanumeric c \<or> c = CHR ''_'') chars
          else False)"

definition is_valid_metric_name :: "string \<Rightarrow> bool" where
  "is_valid_metric_name s \<longleftrightarrow>
     (case s of
        [] \<Rightarrow> False
      | c # chars \<Rightarrow>
          if is_ascii_alphabetic c \<or> c = CHR ''_'' \<or> c = CHR '':''
          then list_all (\<lambda>c. is_ascii_alphanumeric c \<or> c = CHR ''_'' \<or> c = CHR '':'') chars
          else False)"

type_synonym Labels = "(string, string) btree"

type_synonym MetricKey = "string \<times> Labels"

definition ValidatedMetricName_new :: "string \<Rightarrow> metric_error + string" where
  "ValidatedMetricName_new name =
     (if \<not> is_valid_metric_name name then Inl (InvalidMetricName name) else Inr name)"

fun from_pairs_loop :: "(string \<times> string) list \<Rightarrow> Labels \<Rightarrow> metric_error + Labels" where
  "from_pairs_loop [] inner = Inr inner"
| "from_pairs_loop ((key, value) # pairs) inner =
     (if \<not> is_valid_label_key key then Inl (InvalidLabelKey key)
      else from_pairs_loop pairs (btree_insert key value inner))"

definition Labels_from_pairs :: "(string \<times> string) list \<Rightarrow> metric_error + Labels" where
  "Labels_from_pairs pairs = from_pairs_loop pairs []"

definition Labels_insert :: "string \<Rightarrow> string \<Rightarrow> Labels \<Rightarrow> Labels" where
  "Labels_insert key value inner = btree_insert key value inner"

definition Labels_iter :: "Labels \<Rightarrow> (string \<times> string) list" where
  "Labels_iter inner = inner"

text \<open>The \<open>find_map\<close> over \<open>Labels::iter\<close> that the encoders look a label up with.\<close>

definition label_value :: "Labels \<Rightarrow> string \<Rightarrow> string option" where
  "label_value labels label =
     map_option snd (List.find (\<lambda>(key, value). key = label) (Labels_iter labels))"

record MetricEvent =
  ev_name :: string
  ev_value :: f64
  ev_labels :: Labels
  ev_timestamp :: nat

definition MetricEvent_with_timestamp :: "string \<Rightarrow> f64 \<Rightarrow> Labels \<Rightarrow> nat \<Rightarrow> metric_error + MetricEvent" where
  "MetricEvent_with_timestamp name value labels timestamp =
     rbind (ValidatedMetricName_new name) (\<lambda>validated.
       Inr \<lparr> ev_name = validated, ev_value = value, ev_labels = labels, ev_timestamp = timestamp \<rparr>)"

section \<open>Lemmas\<close>

lemma label_value_get [simp]: "label_value labels label = btree_get labels label"
  unfolding label_value_def Labels_iter_def btree_get_def
  by (induction labels) (auto simp: List.find.simps)

lemma is_valid_label_key_imp_metric_name: "is_valid_label_key s \<Longrightarrow> is_valid_metric_name s"
  unfolding is_valid_label_key_def is_valid_metric_name_def
  by (auto simp: list_all_iff split: list.splits if_splits)

lemma label_key_chars: "is_valid_label_key s \<Longrightarrow> c \<in> set s \<Longrightarrow> is_ascii_alphanumeric c \<or> c = CHR ''_''"
  by (auto simp: is_valid_label_key_def list_all_iff is_ascii_alphanumeric_def
      split: list.splits if_splits)

lemma label_key_no_punctuation:
  assumes "is_valid_label_key s"
  shows "CHR ''.'' \<notin> set s" "CHR ''{'' \<notin> set s" "CHR ''}'' \<notin> set s" "CHR '':'' \<notin> set s"
  using label_key_chars [OF assms, of "CHR ''.''"] label_key_chars [OF assms, of "CHR ''{''"]
    label_key_chars [OF assms, of "CHR ''}''"] label_key_chars [OF assms, of "CHR '':''"]
  by (auto simp: is_ascii_alphanumeric_def is_ascii_alphabetic_def is_ascii_digit_def)

lemma label_key_nonempty: "is_valid_label_key s \<Longrightarrow> s \<noteq> []"
  by (auto simp: is_valid_label_key_def)

definition labels_inv :: "Labels \<Rightarrow> bool" where
  "labels_inv labels \<longleftrightarrow> btree_inv labels \<and> list_all (\<lambda>(k, v). is_valid_label_key k) labels"

lemma labels_inv_insert:
  "labels_inv labels \<Longrightarrow> is_valid_label_key k \<Longrightarrow> labels_inv (Labels_insert k v labels)"
proof -
  assume inv: "labels_inv labels" and k: "is_valid_label_key k"
  have "\<forall>j \<in> fst ` set labels. is_valid_label_key j"
    using inv by (auto simp: labels_inv_def list_all_iff)
  with k have "\<forall>j \<in> fst ` set (btree_insert k v labels). is_valid_label_key j"
    by (simp add: btree_insert_keys)
  with inv show ?thesis
    by (auto simp: labels_inv_def Labels_insert_def bt.invar_insert list_all_iff)
qed

lemma from_pairs_loop_Inr:
  assumes "btree_inv inner" and "from_pairs_loop pairs inner = Inr labels"
  shows "btree_inv labels
    \<and> btree_get labels k = (case map_of (rev pairs) k of Some v \<Rightarrow> Some v | None \<Rightarrow> btree_get inner k)
    \<and> list_all (\<lambda>(k, v). is_valid_label_key k) pairs"
  using assms
proof (induction pairs inner rule: from_pairs_loop.induct)
  case (2 key v pairs inner)
  then show ?case
    by (auto simp: bt.invar_insert btree_get_insert map_add_def split: if_splits option.splits)
qed simp

lemma from_pairs_loop_Inl:
  "(\<exists>e. from_pairs_loop pairs inner = Inl e) \<longleftrightarrow> (\<exists>(k, v) \<in> set pairs. \<not> is_valid_label_key k)"
  by (induction pairs inner rule: from_pairs_loop.induct) auto

section \<open>Properties\<close>

text \<open>
  A label set is refused exactly when a key of its pairs is not a label key; otherwise it is
  sorted by key without repetition, holds valid keys only, and maps each key to the last value
  given for it.
\<close>

theorem Labels_from_pairs_correct:
  "case Labels_from_pairs pairs of
     Inl e \<Rightarrow> (\<exists>k v. (k, v) \<in> set pairs \<and> \<not> is_valid_label_key k \<and> e = InvalidLabelKey k)
   | Inr labels \<Rightarrow> list_all (\<lambda>(k, v). is_valid_label_key k) pairs \<and> labels_inv labels
       \<and> label_value labels = map_of (rev pairs)"
proof -
  have err: "\<exists>k v. (k, v) \<in> set pairs \<and> \<not> is_valid_label_key k \<and> e = InvalidLabelKey k"
    if "from_pairs_loop pairs inner = Inl e" for e inner
    using that
    by (induction pairs inner rule: from_pairs_loop.induct) (auto split: if_splits)
  have ok: "list_all (\<lambda>(k, v). is_valid_label_key k) pairs \<and> labels_inv labels
       \<and> label_value labels = map_of (rev pairs)" if eq: "from_pairs_loop pairs [] = Inr labels" for labels
  proof (intro conjI)
    note facts = from_pairs_loop_Inr [OF bt.invar_empty eq]
    show valid: "list_all (\<lambda>(k, v). is_valid_label_key k) pairs" using facts by blast
    have get: "btree_get labels = map_of (rev pairs)"
      by (rule ext) (simp add: facts bt.get_empty split: option.split)
    then show "label_value labels = map_of (rev pairs)" by (simp add: fun_eq_iff)
    have "is_valid_label_key k" if "(k, v) \<in> set labels" for k v
    proof -
      have "map_of (rev pairs) k = Some v" using that get facts by (metis btree_get_iff)
      then have "(k, v) \<in> set pairs" by (metis map_of_SomeD set_rev)
      then show ?thesis using valid by (auto simp: list_all_iff)
    qed
    then show "labels_inv labels" using facts by (auto simp: labels_inv_def list_all_iff)
  qed
  show ?thesis
    unfolding Labels_from_pairs_def by (simp split: sum.split) (use err ok in blast)
qed

end
