(* ===== verification/Oid.thy ===== *)
theory Oid
  imports Metric
begin

text \<open>
  Object identifiers, \<open>sonda-core/src/encoder/snmp/oid.rs\<close>: the dotted text form, the order a MIB
  walk visits instances in, and the BER content octets.

  The lemmas show that printing and parsing agree, that the order is the lexicographic one with a
  prefix first, that \<open>ber_body_len\<close> is the number of octets written, and that decoding accepts
  exactly the octets that encoding produces, so the BER form of an OID is unique.
\<close>

section \<open>Arcs and their text\<close>

datatype Oid = Oid (oid_arcs: "u32 list")

datatype OidParseError =
    LeadingDot string
  | EmptyArc string
  | OneArc string
  | BadArc string string
  | NotEncodable string

definition MAX_ARCS :: nat where
  "MAX_ARCS = 128"

fun first_arcs_encodable :: "u32 list \<Rightarrow> bool" where
  "first_arcs_encodable (first # second # rest) =
     (if first = 0 \<or> first = 1 then second < 40
      else if first = 2 then second \<le> (- 1) - 80
      else False)"
| "first_arcs_encodable _ = False"

fun parse_arcs :: "string \<Rightarrow> string list \<Rightarrow> u32 list \<Rightarrow> OidParseError + u32 list" where
  "parse_arcs text [] acc = Inr acc"
| "parse_arcs text (arc # words) acc =
     (if arc = [] then Inl (EmptyArc text)
      else if \<not> list_all is_ascii_digit arc then Inl (BadArc text arc)
      else rbind (ok_or (parse_u32 arc) (BadArc text arc))
             (\<lambda>v. parse_arcs text words (acc @ [v])))"

definition Oid_parse :: "string \<Rightarrow> OidParseError + Oid" where
  "Oid_parse text =
     (if starts_with text ''.'' then Inl (LeadingDot text)
      else rbind (parse_arcs text (split_on (CHR ''.'') text) []) (\<lambda>arcs.
        if length arcs < 2 then Inl (OneArc text)
        else if \<not> first_arcs_encodable arcs then Inl (NotEncodable text)
        else Inr (Oid arcs)))"

definition Oid_from_arcs :: "u32 list \<Rightarrow> Oid option" where
  "Oid_from_arcs arcs =
     (if length arcs < 2 \<or> \<not> first_arcs_encodable arcs then None else Some (Oid arcs))"

definition Oid_is_prefix_of :: "Oid \<Rightarrow> Oid \<Rightarrow> bool" where
  "Oid_is_prefix_of self other = starts_with (oid_arcs other) (oid_arcs self)"

definition show_u32 :: "u32 \<Rightarrow> string" where
  "show_u32 a = show_nat (unat a)"

definition Oid_show :: "Oid \<Rightarrow> string" where
  "Oid_show oid =
     (case oid_arcs oid of
        [] \<Rightarrow> []
      | first # rest \<Rightarrow> show_u32 first @ concat (map (\<lambda>arc. ''.'' @ show_u32 arc) rest))"

definition index_arc :: "string \<Rightarrow> u32 option" where
  "index_arc v =
     (let digits = v \<noteq> [] \<and> list_all is_ascii_digit v
      in if \<not> digits \<or> (length v > 1 \<and> starts_with v ''0'') then None else parse_u32 v)"

section \<open>The BER content octets\<close>

definition first_subidentifier :: "u32 list \<Rightarrow> u64" where
  "first_subidentifier arcs =
     (let first = (case arcs of [] \<Rightarrow> 0 | a # _ \<Rightarrow> a);
          second = (case arcs of _ # b # _ \<Rightarrow> b | _ \<Rightarrow> 0)
      in ucast first * 40 + ucast second)"

definition subidentifier_len :: "u64 \<Rightarrow> nat" where
  "subidentifier_len v = (let bits = bit_len (unat v) in max (div_ceil bits 7) 1)"

definition write_subidentifier :: "u64 \<Rightarrow> bytes \<Rightarrow> bytes" where
  "write_subidentifier v out =
     (let len = subidentifier_len v
      in foldl (\<lambda>out i.
           let septet = ucast (drop_bit (7 * i) v AND 0x7F) :: u8
           in out @ [if i = 0 then septet else septet OR 0x80]) out (rev [0..<len]))"

definition ber_body_len :: "u32 list \<Rightarrow> nat" where
  "ber_body_len arcs =
     subidentifier_len (first_subidentifier arcs)
     + sum_list (map (\<lambda>arc. subidentifier_len (ucast arc)) (drop 2 arcs))"

definition write_ber_body :: "u32 list \<Rightarrow> bytes \<Rightarrow> bytes" where
  "write_ber_body arcs out =
     foldl (\<lambda>out arc. write_subidentifier (ucast arc) out)
       (write_subidentifier (first_subidentifier arcs) out) (drop 2 arcs)"

definition u32_try_from :: "u64 \<Rightarrow> u32 option" where
  "u32_try_from v = (if v \<le> 0xFFFFFFFF then Some (ucast v) else None)"

fun decode_ber_loop :: "bytes \<Rightarrow> u64 \<Rightarrow> bool \<Rightarrow> bool \<Rightarrow> u32 list \<Rightarrow> u32 list option" where
  "decode_ber_loop [] val started first arcs = (if started then None else Some arcs)"
| "decode_ber_loop (octet # body) val started first arcs =
     (if \<not> started \<and> octet = 0x80 then None
      else
        let val = push_bit 7 val OR ucast (octet AND 0x7F)
        in if val > 0xFFFFFFFF + 80 then None
           else if octet AND 0x80 \<noteq> 0 then decode_ber_loop body val True first arcs
           else if first then
             let (a, b) = (if val \<le> 39 then (0, val)
                           else if val \<le> 79 then (1, val - 40)
                           else (2, val - 80))
             in Option.bind (u32_try_from b) (\<lambda>b.
                  decode_ber_loop body 0 False False (arcs @ [a, b]))
           else Option.bind (u32_try_from val) (\<lambda>v.
                  decode_ber_loop body 0 False False (arcs @ [v])))"

definition decode_ber_body :: "bytes \<Rightarrow> u32 list option" where
  "decode_ber_body body = (if body = [] then None else decode_ber_loop body 0 False True [])"

definition Oid_from_ber_body :: "bytes \<Rightarrow> Oid option" where
  "Oid_from_ber_body body = map_option Oid (decode_ber_body body)"

section \<open>Order\<close>

instantiation Oid :: linorder
begin

definition less_eq_Oid :: "Oid \<Rightarrow> Oid \<Rightarrow> bool" where
  "less_eq_Oid a b \<longleftrightarrow> oid_arcs a \<le> oid_arcs b"

definition less_Oid :: "Oid \<Rightarrow> Oid \<Rightarrow> bool" where
  "less_Oid a b \<longleftrightarrow> oid_arcs a < oid_arcs b"

instance
  by standard (auto simp: less_eq_Oid_def less_Oid_def Oid.expand)

end

text \<open>
  An OID whose first two arcs fold: what decoding produces and \<open>Oid_from_arcs\<close> produces a part of
  (its second arc is at most \<open>u32::MAX - 80\<close> when the first is 2; the decoder has no such bound).
\<close>

fun arcs_foldable :: "u32 list \<Rightarrow> bool" where
  "arcs_foldable (first # second # rest) \<longleftrightarrow> (first = 0 \<or> first = 1) \<and> second < 40 \<or> first = 2"
| "arcs_foldable _ \<longleftrightarrow> False"

definition oid_ok :: "Oid \<Rightarrow> bool" where
  "oid_ok oid \<longleftrightarrow> first_arcs_encodable (oid_arcs oid)"

section \<open>Text round trips\<close>

lemma encodable_length: "first_arcs_encodable as \<Longrightarrow> 2 \<le> length as"
  by (cases as rule: first_arcs_encodable.cases) auto

lemma encodable_foldable: "first_arcs_encodable as \<Longrightarrow> arcs_foldable as"
  by (cases as rule: first_arcs_encodable.cases) (auto split: if_splits)

lemma Oid_from_arcs_Some [simp]: "Oid_from_arcs as = Some oid \<longleftrightarrow> oid = Oid as \<and> oid_ok oid"
  using encodable_length [of as] by (auto simp: Oid_from_arcs_def oid_ok_def)

lemma show_u32_chars: "c \<in> set (show_u32 a) \<Longrightarrow> is_ascii_digit c"
  using show_nat_digits by (auto simp: show_u32_def)

lemma show_u32_no_dot: "CHR ''.'' \<notin> set (show_u32 a)"
  using show_u32_chars [of "CHR ''.''"] by (auto simp: is_ascii_digit_def)

lemma Oid_show_join: "Oid_show oid = join ''.'' (map show_u32 (oid_arcs oid))"
proof -
  have "a @ concat (map (\<lambda>arc. ''.'' @ show_u32 arc) rest) = join ''.'' (a # map show_u32 rest)" for a rest
    by (induction rest arbitrary: a) simp_all
  then show ?thesis by (simp add: Oid_show_def split: list.split)
qed

lemma parse_arcs_show: "parse_arcs text (map show_u32 as) acc = Inr (acc @ as)"
proof (induction as arbitrary: acc)
  case (Cons a as)
  have "show_u32 a \<noteq> []" "list_all is_ascii_digit (show_u32 a)"
    using show_u32_chars by (auto simp: show_u32_def list_all_iff)
  with Cons show ?case by (simp add: show_u32_def)
qed simp

lemma parse_arcs_length: "parse_arcs text ws acc = Inr as \<Longrightarrow> length as = length acc + length ws"
  by (induction "text" ws acc rule: parse_arcs.induct) (auto split: if_splits simp: sonda_simps)

lemma Oid_parse_ok: "Oid_parse text = Inr oid \<Longrightarrow> oid_ok oid"
  by (auto simp: Oid_parse_def oid_ok_def sonda_simps split: if_splits)

lemma Oid_show_no_leading_dot:
  assumes "oid_arcs oid \<noteq> []"
  shows "\<not> starts_with (Oid_show oid) ''.''"
proof -
  obtain a rest where a: "oid_arcs oid = a # rest" using assms by (cases "oid_arcs oid") auto
  obtain c cs where c: "show_u32 a = c # cs" by (cases "show_u32 a") (auto simp: show_u32_def)
  have "is_ascii_digit c" using show_u32_chars [of c a] c by simp
  then have "c \<noteq> CHR ''.''" by (auto simp: is_ascii_digit_def)
  with a c show ?thesis by (simp add: Oid_show_def starts_with_def)
qed

lemma Oid_parse_show_ok:
  assumes "oid_ok oid"
  shows "Oid_parse (Oid_show oid) = Inr oid"
proof -
  have len: "2 \<le> length (oid_arcs oid)"
    using assms encodable_length by (auto simp: oid_ok_def)
  have ne: "map show_u32 (oid_arcs oid) \<noteq> []" using len by auto
  have sep: "\<forall>w \<in> set (map show_u32 (oid_arcs oid)). CHR ''.'' \<notin> set w"
    using show_u32_no_dot by auto
  have split: "split_on (CHR ''.'') (Oid_show oid) = map show_u32 (oid_arcs oid)"
    unfolding Oid_show_join by (rule split_on_join [OF ne sep])
  have "\<not> starts_with (Oid_show oid) ''.''"
    using len by (intro Oid_show_no_leading_dot) auto
  then show ?thesis
    using assms len by (simp add: Oid_parse_def split parse_arcs_show oid_ok_def)
qed

section \<open>BER round trips\<close>

definition digits128 :: "nat \<Rightarrow> nat \<Rightarrow> nat list" where
  "digits128 len n = map (\<lambda>i. n div 128 ^ i mod 128) (rev [0..<len])"

definition val128 :: "nat list \<Rightarrow> nat" where
  "val128 ds = foldl (\<lambda>acc d. acc * 128 + d) 0 ds"

lemma digits128_Suc: "digits128 (Suc len) n = n div 128 ^ len mod 128 # digits128 len n"
  by (simp add: digits128_def)

lemma val128_snoc [simp]: "val128 (ds @ [d]) = val128 ds * 128 + d"
  by (simp add: val128_def)

lemma val128_Nil [simp]: "val128 [] = 0"
  by (simp add: val128_def)

lemma digits128_snoc: "digits128 (Suc len) n = digits128 len (n div 128) @ [n mod 128]"
proof -
  have "[0..<Suc len] = 0 # map Suc [0..<len]"
    by (simp add: upt_conv_Cons map_Suc_upt del: upt_Suc)
  then have "rev [0..<Suc len] = map Suc (rev [0..<len]) @ [0]" by (simp add: rev_map)
  then show ?thesis by (simp add: digits128_def div_mult2_eq o_def)
qed

lemma val128_digits128: "val128 (digits128 len n) = n mod 128 ^ len"
proof (induction len arbitrary: n)
  case (Suc len)
  show ?case
    using mod_mult2_eq [of n 128 "128 ^ len"] by (simp add: digits128_snoc Suc)
qed (simp add: digits128_def)

lemma digits128_val128: "\<forall>d \<in> set ds. d < 128 \<Longrightarrow> digits128 (length ds) (val128 ds) = ds"
proof (induction ds rule: rev_induct)
  case (snoc d ds)
  then show ?case by (simp add: digits128_snoc)
qed (simp add: digits128_def)

lemma val128_less: "\<forall>d \<in> set ds. d < 128 \<Longrightarrow> val128 ds < 128 ^ length ds"
proof (induction ds rule: rev_induct)
  case (snoc d ds)
  then have "val128 ds + 1 \<le> 128 ^ length ds" "d < 128" by auto
  then have "(val128 ds + 1) * 128 \<le> 128 ^ length ds * 128" by (intro mult_right_mono) auto
  with \<open>d < 128\<close> show ?case by simp
qed simp

lemma val128_ge: "ds \<noteq> [] \<Longrightarrow> hd ds \<noteq> 0 \<Longrightarrow> 128 ^ (length ds - 1) \<le> val128 ds"
proof (induction ds rule: rev_induct)
  case (snoc d ds)
  show ?case
  proof (cases "ds = []")
    case True
    with snoc.prems show ?thesis by (simp add: val128_def)
  next
    case False
    with snoc have "128 ^ (length ds - 1) \<le> val128 ds" by simp
    then have "128 ^ (length ds - 1) * 128 \<le> val128 ds * 128 + d" by linarith
    moreover have "length ds = Suc (length ds - 1)" using False by simp
    ultimately show ?thesis by (metis length_append_singleton diff_Suc_1 power_Suc2 val128_snoc)
  qed
qed simp

lemma subidentifier_len_le: "0 < k \<Longrightarrow> subidentifier_len v \<le> k \<longleftrightarrow> unat v < 128 ^ k"
proof -
  assume "0 < k"
  then have "subidentifier_len v \<le> k \<longleftrightarrow> bit_len (unat v) \<le> k * 7"
    by (simp add: subidentifier_len_def div_ceil_le_iff)
  also have "\<dots> \<longleftrightarrow> unat v < 128 ^ k"
    using power_mult [of "2 :: nat" 7 k] by (simp add: bit_len_le_iff mult.commute)
  finally show ?thesis .
qed

lemma subidentifier_len_pos [simp]: "0 < subidentifier_len v"
  by (simp add: subidentifier_len_def)

lemma subidentifier_len_bound: "unat v < 128 ^ subidentifier_len v"
  using subidentifier_len_le [of "subidentifier_len v" v] by simp

lemma subidentifier_len_eq:
  assumes "ds \<noteq> []" and "\<forall>d \<in> set ds. d < 128" and "length ds = 1 \<or> hd ds \<noteq> 0"
    and "unat v = val128 ds"
  shows "subidentifier_len v = length ds"
proof (rule antisym)
  show "subidentifier_len v \<le> length ds"
    using assms val128_less [OF assms(2)] by (simp add: subidentifier_len_le)
  show "length ds \<le> subidentifier_len v"
  proof (cases "length ds = 1")
    case True
    have "0 < subidentifier_len v" by simp
    then show ?thesis using True by linarith
  next
    case False
    then have "hd ds \<noteq> 0" "0 < length ds - 1" using assms by (auto simp: Suc_lessI)
    then have "\<not> subidentifier_len v \<le> length ds - 1"
      using val128_ge [OF assms(1)] assms(4) by (simp add: subidentifier_len_le)
    then show ?thesis by linarith
  qed
qed

text \<open>An octet list with the continuation bit set on all but the last octet.\<close>

fun continued :: "nat list \<Rightarrow> bytes" where
  "continued [] = []"
| "continued [d] = [of_nat d]"
| "continued (d # e # ds) = of_nat (d + 128) # continued (e # ds)"

lemma foldl_append_map: "foldl (\<lambda>out i. out @ [f i]) out xs = out @ map f xs"
  by (induction xs arbitrary: out) simp_all

lemma septet_word: "ucast (drop_bit (7 * i) v AND 0x7F) = (of_nat (unat v div 128 ^ i mod 128) :: u8)"
  for v :: u64
proof -
  have "drop_bit (7 * i) v AND 0x7F = take_bit 7 (drop_bit (7 * i) v)"
    by (simp add: take_bit_eq_mask mask_eq_exp_minus_1)
  then have "unat (drop_bit (7 * i) v AND 0x7F) = unat v div 128 ^ i mod 128"
    using unat_u64_less [of v]
    by (simp only: unsigned_take_bit_eq unsigned_drop_bit_eq)
       (simp add: take_bit_eq_mod drop_bit_eq_div power_mult take_bit_nat_eq_self)
  then show ?thesis by (metis of_nat_unat)
qed

lemma write_subidentifier_continued:
  "write_subidentifier v out = out @ continued (digits128 (subidentifier_len v) (unat v))"
proof -
  let ?f = "\<lambda>i. let septet = ucast (drop_bit (7 * i) v AND 0x7F) :: u8
                in if i = 0 then septet else septet OR 0x80"
  have f: "?f i = (if i = 0 then of_nat (unat v div 128 ^ i mod 128)
                   else of_nat (unat v div 128 ^ i mod 128 + 128))" for i
  proof (cases "i = 0")
    case False
    have "(of_nat (unat v div 128 ^ i mod 128) :: u8) OR 0x80
        = of_nat (unat v div 128 ^ i mod 128 + 128)" by (rule of_nat_or_80) simp
    with False show ?thesis by (simp only: septet_word Let_def if_False)
  qed (use septet_word [of 0 v] in simp)
  have "map ?f (rev [0..<Suc len]) = continued (digits128 (Suc len) (unat v))" for len
  proof (induction len)
    case 0
    show ?case by (simp add: f digits128_def del: Let_def)
  next
    case (Suc len)
    have "map ?f (rev [0..<Suc (Suc len)]) = ?f (Suc len) # map ?f (rev [0..<Suc len])"
      by simp
    also have "map ?f (rev [0..<Suc len]) = continued (digits128 (Suc len) (unat v))"
      by (rule Suc.IH)
    also have "?f (Suc len) = of_nat (unat v div 128 ^ Suc len mod 128 + 128)"
      unfolding f by simp
    also have "\<dots> # continued (digits128 (Suc len) (unat v))
        = continued (digits128 (Suc (Suc len)) (unat v))"
      by (simp only: digits128_Suc continued.simps)
    finally show ?case .
  qed
  from this [of "subidentifier_len v - 1"] show ?thesis
    by (simp add: write_subidentifier_def Let_def foldl_append_map)
qed

text \<open>One subidentifier, as the decoder sees it.\<close>

definition subid_octets :: "nat \<Rightarrow> bytes" where
  "subid_octets n = write_subidentifier (of_nat n) []"

lemma write_subidentifier_enc: "write_subidentifier v out = out @ subid_octets (unat v)"
  by (simp add: subid_octets_def write_subidentifier_continued word_of_nat_unat)

lemma length_continued [simp]: "length (continued ds) = length ds"
  by (induction ds rule: continued.induct) simp_all

lemma length_enc: "length (subid_octets (unat v)) = subidentifier_len v"
  by (simp add: subid_octets_def write_subidentifier_continued digits128_def word_of_nat_unat)

fun emit_arcs :: "bool \<Rightarrow> nat list \<Rightarrow> u32 list" where
  "emit_arcs first [] = []"
| "emit_arcs True (v # vs) =
     (if v \<le> 39 then [0, of_nat v] else if v \<le> 79 then [1, of_nat (v - 40)] else [2, of_nat (v - 80)])
     @ map of_nat vs"
| "emit_arcs False vs = map of_nat vs"

fun emit_arcs_ok :: "bool \<Rightarrow> nat list \<Rightarrow> bool" where
  "emit_arcs_ok first [] = True"
| "emit_arcs_ok True (v # vs) \<longleftrightarrow> v < 2 ^ 32 + 80 \<and> (\<forall>v \<in> set vs. v < 2 ^ 32)"
| "emit_arcs_ok False vs \<longleftrightarrow> (\<forall>v \<in> set vs. v < 2 ^ 32)"

definition octets128 :: "bytes \<Rightarrow> nat" where
  "octets128 p = val128 (map (\<lambda>b. unat b mod 128) p)"

lemma octets128_snoc [simp]: "octets128 (p @ [b]) = octets128 p * 128 + unat b mod 128"
  by (simp add: octets128_def)

lemma octets128_Nil [simp]: "octets128 [] = 0"
  by (simp add: octets128_def)

lemma continued_septets:
  assumes "\<forall>b \<in> set p. 128 \<le> unat b" and "unat d < 128"
  shows "continued (map (\<lambda>b. unat b mod 128) (p @ [d])) = p @ [d]"
  using assms(1)
proof (induction p)
  case Nil
  then show ?case using assms(2) by (simp add: word_of_nat_unat)
next
  case (Cons b p)
  then have "unat b mod 128 + 128 = unat b" using unat_u8_less [of b] by (simp add: le_mod_geq)
  with Cons show ?case by (cases p) (simp_all add: word_of_nat_unat)
qed

lemma enc_octets:
  assumes "\<forall>b \<in> set p. 128 \<le> unat b" and "unat d < 128" and "p \<noteq> [] \<longrightarrow> hd p \<noteq> 0x80"
    and "octets128 (p @ [d]) < 2 ^ 64"
  shows "subid_octets (octets128 (p @ [d])) = p @ [d]"
proof -
  let ?ds = "map (\<lambda>b. unat b mod 128) (p @ [d])"
  let ?v = "of_nat (octets128 (p @ [d])) :: u64"
  have v: "unat ?v = val128 ?ds"
    using unat_of_nat_small(1) [OF assms(4)] by (simp only: octets128_def)
  have small: "\<forall>d \<in> set ?ds. d < 128" by auto
  have "length ?ds = 1 \<or> hd ?ds \<noteq> 0"
  proof (cases p)
    case (Cons b q)
    then have "128 \<le> unat b" "b \<noteq> 0x80" using assms by auto
    then have "unat b \<noteq> 128" by (simp add: word_unat_eq_iff)
    with \<open>128 \<le> unat b\<close> have "unat b mod 128 \<noteq> 0" using unat_u8_less [of b] by (simp add: le_mod_geq)
    with Cons show ?thesis by simp
  qed simp
  then have "subidentifier_len ?v = length ?ds"
    using subidentifier_len_eq [OF _ small _ v] by simp
  then have "subid_octets (octets128 (p @ [d])) = continued (digits128 (length ?ds) (val128 ?ds))"
    unfolding subid_octets_def write_subidentifier_continued v by simp
  also have "\<dots> = p @ [d]"
    using digits128_val128 [OF small] continued_septets [OF assms(1,2)] by simp
  finally show ?thesis .
qed

lemma u32_try_from_unat: "u32_try_from w = (if unat w < 2 ^ 32 then Some (of_nat (unat w)) else None)"
proof -
  have "w \<le> 0xFFFFFFFF \<longleftrightarrow> unat w < 2 ^ 32" by (simp add: word_le_nat_alt) arith
  moreover have "ucast w = (of_nat (unat w) :: u32)" by simp
  ultimately show ?thesis by (simp add: u32_try_from_def)
qed

lemma decode_ber_loop_last:
  fixes val :: u64 and octet :: u8
  defines "w \<equiv> push_bit 7 val OR (ucast (octet AND 0x7F) :: u64)"
  assumes "octet AND 0x80 = 0" and "unat w < 2 ^ 32 + 80"
  shows "decode_ber_loop (octet # body) val started first acc =
    (if emit_arcs_ok first [unat w] then decode_ber_loop body 0 False False (acc @ emit_arcs first [unat w]) else None)"
proof -
  have "octet \<noteq> 0x80" using assms(2) by auto
  moreover have "\<not> w > 0xFFFFFFFF + 80" using assms(3) by (simp add: word_less_nat_alt)
  ultimately have step: "decode_ber_loop (octet # body) val started first acc =
    (if first then
       let (a, b) = (if w \<le> 39 then (0, w) else if w \<le> 79 then (1, w - 40) else (2, w - 80))
       in Option.bind (u32_try_from b) (\<lambda>b. decode_ber_loop body 0 False False (acc @ [a, b]))
     else Option.bind (u32_try_from w) (\<lambda>v. decode_ber_loop body 0 False False (acc @ [v])))"
    using assms(2) by (simp add: w_def [symmetric] Let_def)
  have le: "w \<le> 39 \<longleftrightarrow> unat w \<le> 39" "w \<le> 79 \<longleftrightarrow> unat w \<le> 79"
    by (simp_all add: word_le_nat_alt)
  have sub: "\<not> unat w \<le> 39 \<Longrightarrow> unat (w - 40) = unat w - 40"
    "\<not> unat w \<le> 79 \<Longrightarrow> unat (w - 80) = unat w - 80"
    by (simp_all add: unat_sub word_le_nat_alt)
  have "unat w \<le> 39 \<Longrightarrow> u32_try_from w = Some (of_nat (unat w))"
    "\<not> unat w \<le> 39 \<Longrightarrow> unat w \<le> 79 \<Longrightarrow> u32_try_from (w - 40) = Some (of_nat (unat w - 40))"
    "\<not> unat w \<le> 79 \<Longrightarrow> u32_try_from (w - 80) = Some (of_nat (unat w - 80))"
    using assms(3) by (simp_all add: u32_try_from_unat sub del: of_nat_diff)
  then show ?thesis
    unfolding step
    by (cases first; cases "unat w \<le> 39"; cases "unat w \<le> 79")
       (use assms(3) in \<open>auto simp: le u32_try_from_unat Let_def\<close>)
qed

lemma decode_ber_loop_sound:
  assumes "decode_ber_loop body val started first acc = Some out"
    and "unat val = octets128 p" and "started \<longleftrightarrow> p \<noteq> []"
    and "\<forall>b \<in> set p. 128 \<le> unat b" and "p \<noteq> [] \<longrightarrow> hd p \<noteq> 0x80" and "unat val < 2 ^ 57"
  shows "\<exists>vs. p @ body = concat (map subid_octets vs) \<and> out = acc @ emit_arcs first vs \<and> emit_arcs_ok first vs"
  using assms
proof (induction body arbitrary: val started first acc p)
  case Nil
  then show ?case by (intro exI [of _ "[]"]) (auto split: if_splits)
next
  case (Cons octet body)
  define w where "w = push_bit 7 val OR (ucast (octet AND 0x7F) :: u64)"
  have w: "unat w = octets128 (p @ [octet])"
    using Cons.prems(2,6) unat_shift7_or [of val octet] by (simp add: w_def)
  have bound: "\<not> w > 0xFFFFFFFF + 80" "p = [] \<longrightarrow> octet \<noteq> 0x80"
    using Cons.prems(1,3) by (auto simp: w_def Let_def split: if_splits)
  then have small: "unat w < 2 ^ 32 + 80" by (simp add: word_less_nat_alt not_less)
  have hd: "hd (p @ [octet]) \<noteq> 0x80" using Cons.prems(5) bound(2) by (cases p) auto
  show ?case
  proof (cases "octet AND 0x80 = 0")
    case False
    then have hi: "128 \<le> unat octet" using hi_bit_iff [of octet] by auto
    have "decode_ber_loop body w True first acc = Some out"
      using Cons.prems(1) False by (auto simp: w_def Let_def split: if_splits)
    then have "\<exists>vs. (p @ [octet]) @ body = concat (map subid_octets vs) \<and> out = acc @ emit_arcs first vs \<and> emit_arcs_ok first vs"
      by (rule Cons.IH) (use w hd hi small Cons.prems(4) in auto)
    then show ?thesis by simp
  next
    case True
    then have lo: "unat octet < 128" by (simp add: hi_bit_iff)
    have e: "subid_octets (unat w) = p @ [octet]"
      unfolding w using Cons.prems small lo w by (intro enc_octets) auto
    have ok: "emit_arcs_ok first [unat w]"
      and rest: "decode_ber_loop body 0 False False (acc @ emit_arcs first [unat w]) = Some out"
      using Cons.prems(1) decode_ber_loop_last [OF True small [unfolded w_def]]
      by (auto simp: w_def split: if_splits)
    obtain vs where vs: "body = concat (map subid_octets vs)"
      "out = (acc @ emit_arcs first [unat w]) @ emit_arcs False vs" "emit_arcs_ok False vs"
      using Cons.IH [OF rest, of "[]"] by auto
    have "emit_arcs first [unat w] @ emit_arcs False vs = emit_arcs first (unat w # vs)"
      by (cases first; cases vs) auto
    moreover have "emit_arcs_ok first (unat w # vs)"
      using ok vs(3) by (cases first; cases vs) auto
    ultimately show ?thesis
      using vs e by (intro exI [of _ "unat w # vs"]) auto
  qed
qed


lemma octets128_mono: "octets128 p \<le> octets128 (p @ q)"
proof (induction q rule: rev_induct)
  case (snoc b q)
  then show ?case using octets128_snoc [of "p @ q" b] by simp
qed simp

lemma decode_ber_loop_run:
  assumes "\<forall>b \<in> set q. 128 \<le> unat b" and "unat d < 128"
    and "unat val = octets128 p" and "octets128 (p @ q @ [d]) < 2 ^ 32 + 80"
    and "started \<or> hd (q @ [d]) \<noteq> 0x80"
  shows "decode_ber_loop (q @ d # rest) val started first acc =
    (let n = octets128 (p @ q @ [d])
     in if emit_arcs_ok first [n] then decode_ber_loop rest 0 False False (acc @ emit_arcs first [n]) else None)"
  using assms
proof (induction q arbitrary: p val started)
  case Nil
  have "unat val \<le> octets128 (p @ [d])" using Nil octets128_mono [of p "[d]"] by simp
  then have w: "unat (push_bit 7 val OR (ucast (d AND 0x7F) :: u64)) = octets128 (p @ [d])"
    using Nil unat_shift7_or [of val d] by simp
  have "d AND 0x80 = 0" using Nil by (simp add: hi_bit_iff)
  then show ?case
    using Nil w decode_ber_loop_last [of d val rest started first acc] by simp
next
  case (Cons b q)
  define w where "w = push_bit 7 val OR (ucast (b AND 0x7F) :: u64)"
  have "octets128 p \<le> octets128 (p @ (b # q) @ [d])" by (rule octets128_mono)
  then have w: "unat w = octets128 (p @ [b])"
    using Cons.prems unat_shift7_or [of val b] by (simp add: w_def)
  have "octets128 (p @ [b]) \<le> octets128 ((p @ [b]) @ q @ [d])" by (rule octets128_mono)
  then have "\<not> w > 0xFFFFFFFF + 80" using Cons.prems w by (simp add: word_less_nat_alt)
  moreover have "b AND 0x80 \<noteq> 0" using Cons.prems(1) hi_bit_iff [of b] by auto
  ultimately have "decode_ber_loop ((b # q) @ d # rest) val started first acc
      = decode_ber_loop (q @ d # rest) w True first acc"
    using Cons.prems(5) by (auto simp: w_def [symmetric] Let_def)
  also have "\<dots> = (let n = octets128 ((p @ [b]) @ q @ [d])
     in if emit_arcs_ok first [n] then decode_ber_loop rest 0 False False (acc @ emit_arcs first [n]) else None)"
    by (rule Cons.IH) (use Cons.prems w in auto)
  finally show ?case by simp
qed

lemma continued_shape:
  assumes "ds \<noteq> []" and "\<forall>d \<in> set ds. d < 128"
  shows "\<exists>q d. continued ds = q @ [d] \<and> (\<forall>b \<in> set q. 128 \<le> unat b) \<and> unat d < 128
    \<and> map (\<lambda>b. unat b mod 128) (q @ [d]) = ds"
  using assms
proof (induction ds rule: continued.induct)
  case (2 d)
  then show ?case by (intro exI [of _ "[]"]) (simp add: unat_of_nat)
next
  case (3 d e ds)
  then obtain q c where IH: "continued (e # ds) = q @ [c]" "\<forall>b \<in> set q. 128 \<le> unat b" "unat c < 128"
    "map (\<lambda>b. unat b mod 128) (q @ [c]) = e # ds" by auto
  have d: "unat (of_nat (d + 128) :: u8) = d + 128"
    using "3.prems" by (intro unat_of_nat_small) simp
  show ?case
    by (intro exI [of _ "of_nat (d + 128) # q"] exI [of _ c])
       (use IH d "3.prems" in \<open>auto simp del: of_nat_add\<close>)
qed simp

lemma enc_shape:
  assumes "n < 2 ^ 64"
  shows "\<exists>q d. subid_octets n = q @ [d] \<and> (\<forall>b \<in> set q. 128 \<le> unat b) \<and> unat d < 128
    \<and> hd (q @ [d]) \<noteq> 0x80 \<and> octets128 (q @ [d]) = n"
proof -
  let ?v = "of_nat n :: u64"
  let ?len = "subidentifier_len ?v"
  let ?ds = "digits128 ?len n"
  have v: "unat ?v = n" using assms by (simp add: unat_of_nat)
  have len: "length ?ds = ?len" "?ds \<noteq> []" by (auto simp: digits128_def)
  have small: "\<forall>d \<in> set ?ds. d < 128" by (auto simp: digits128_def)
  obtain q d where qd: "continued ?ds = q @ [d]" "\<forall>b \<in> set q. 128 \<le> unat b" "unat d < 128"
    "map (\<lambda>b. unat b mod 128) (q @ [d]) = ?ds"
    using continued_shape [OF len(2) small] by blast
  have val: "octets128 (q @ [d]) = n"
    using qd(4) val128_digits128 [of ?len n] subidentifier_len_bound [of ?v] v
    by (simp add: octets128_def)
  have "hd (q @ [d]) \<noteq> 0x80"
  proof (cases q)
    case Nil
    then show ?thesis using qd(3) by auto
  next
    case (Cons b q')
    then obtain k where k: "?len = Suc k" "0 < k"
      using qd(4) len(1) by (metis length_Cons length_append_singleton length_map zero_less_Suc)
    have "\<not> ?len \<le> k" using k by simp
    then have "\<not> n < 128 ^ k" using subidentifier_len_le [OF k(2), of ?v] v by simp
    moreover have "n < 128 ^ Suc k" using subidentifier_len_bound [of ?v] v k by simp
    ultimately have "n div 128 ^ k mod 128 \<noteq> 0"
      by (simp add: div_eq_0_iff less_mult_imp_div_less mult.commute)
    then have "unat b mod 128 \<noteq> 0" using qd(4) Cons k by (simp add: digits128_Suc)
    then have "unat b \<noteq> 128" by auto
    then show ?thesis using Cons by (auto simp: word_unat_eq_iff)
  qed
  then show ?thesis
    using qd val v by (intro exI [of _ q] exI [of _ d]) (simp add: subid_octets_def write_subidentifier_continued)
qed

lemma decode_ber_loop_enc:
  assumes "n < 2 ^ 32 + 80"
  shows "decode_ber_loop (subid_octets n @ rest) 0 False first acc =
    (if emit_arcs_ok first [n] then decode_ber_loop rest 0 False False (acc @ emit_arcs first [n]) else None)"
proof -
  have "n < 2 ^ 64" using assms by simp
  then obtain q d where qd: "subid_octets n = q @ [d]" "\<forall>b \<in> set q. 128 \<le> unat b" "unat d < 128"
    "hd (q @ [d]) \<noteq> 0x80" "octets128 (q @ [d]) = n" using enc_shape by blast
  show ?thesis
    using decode_ber_loop_run [of q d 0 "[]" False rest first acc] qd assms by simp
qed

lemma decode_ber_loop_complete:
  assumes "\<forall>v \<in> set vs. v < 2 ^ 32"
  shows "decode_ber_loop (concat (map subid_octets vs)) 0 False False acc = Some (acc @ map of_nat vs)"
  using assms
proof (induction vs arbitrary: acc)
  case (Cons v vs)
  then show ?case using decode_ber_loop_enc [of v "concat (map subid_octets vs)" False acc] by simp
qed simp

lemma write_ber_body_enc:
  "write_ber_body as out = out @ subid_octets (unat (first_subidentifier as)) @ concat (map (\<lambda>a. subid_octets (unat a)) (drop 2 as))"
proof -
  have "foldl (\<lambda>out arc. write_subidentifier (ucast arc) out) out xs = out @ concat (map (\<lambda>a. subid_octets (unat a)) xs)"
    for out and xs :: "u32 list"
    by (induction xs arbitrary: out) (simp_all add: write_subidentifier_enc)
  then show ?thesis by (simp add: write_ber_body_def write_subidentifier_enc)
qed


lemma unat_first_subidentifier:
  "arcs_foldable (a # b # rest) \<Longrightarrow> unat (first_subidentifier (a # b # rest)) = unat a * 40 + unat b"
proof -
  assume "arcs_foldable (a # b # rest)"
  then have "unat a \<le> 2" by auto
  then have "unat (ucast a :: u64) * unat (40 :: u64) + unat (ucast b :: u64) < 2 ^ LENGTH(64)"
    using unat_u32_less [of b] by simp
  then have "unat (ucast a * 40 + ucast b :: u64) = unat a * 40 + unat b"
    using unat_u32_less [of b] \<open>unat a \<le> 2\<close> by (simp add: unat_word_ariths)
  then show ?thesis by (simp add: first_subidentifier_def)
qed

lemma emit_first_subidentifier:
  assumes "arcs_foldable as"
  shows "emit_arcs True (unat (first_subidentifier as) # map unat (drop 2 as)) = as"
    and "emit_arcs_ok True (unat (first_subidentifier as) # map unat (drop 2 as))"
proof -
  obtain a b rest where as: "as = a # b # rest" using assms by (cases as rule: arcs_foldable.cases) auto
  have ab: "unat (first_subidentifier as) = unat a * 40 + unat b"
    using assms unat_first_subidentifier by (simp add: as)
  have rest: "map (of_nat :: nat \<Rightarrow> u32) (map unat rest) = rest" by (simp add: o_def)
  consider "a = 0" "unat b < 40" | "a = 1" "unat b < 40" | "a = 2"
    using assms by (auto simp: as word_less_nat_alt)
  then show "emit_arcs True (unat (first_subidentifier as) # map unat (drop 2 as)) = as"
    unfolding ab using rest by cases (simp_all add: as)
  have "unat a \<le> 2" using assms by (auto simp: as)
  then have "unat a * 40 + unat b < 2 ^ 32 + 80" using unat_u32_less [of b] by simp
  then show "emit_arcs_ok True (unat (first_subidentifier as) # map unat (drop 2 as))"
    unfolding ab using unat_u32_less by (auto simp: as)
qed

lemma foldable_emit:
  assumes "emit_arcs_ok True (v # vs)"
  shows "arcs_foldable (emit_arcs True (v # vs))"
    and "unat (first_subidentifier (emit_arcs True (v # vs))) = v"
    and "map unat (drop 2 (emit_arcs True (v # vs))) = vs"
proof -
  have v: "v < 2 ^ 32 + 80" and vs: "\<forall>v \<in> set vs. v < 2 ^ 32" using assms by auto
  show fold: "arcs_foldable (emit_arcs True (v # vs))"
    using v by (auto simp: word_less_nat_alt simp del: of_nat_diff)
  show "unat (first_subidentifier (emit_arcs True (v # vs))) = v"
    using fold v by (auto simp: unat_first_subidentifier simp del: of_nat_diff)
  show "map unat (drop 2 (emit_arcs True (v # vs))) = vs"
    using vs by (auto simp: map_idI)
qed

lemma decode_ber_body_iff:
  "decode_ber_body body = Some as \<longleftrightarrow> arcs_foldable as \<and> body = write_ber_body as []"
proof
  assume dec: "decode_ber_body body = Some as"
  then have ne: "body \<noteq> []" and loop: "decode_ber_loop body 0 False True [] = Some as"
    by (auto simp: decode_ber_body_def split: if_splits)
  obtain vs where vs: "body = concat (map subid_octets vs)" "as = emit_arcs True vs" "emit_arcs_ok True vs"
    using decode_ber_loop_sound [OF loop, of "[]"] by auto
  then obtain v us where "vs = v # us" using ne by (cases vs) auto
  with vs foldable_emit [of v us] show "arcs_foldable as \<and> body = write_ber_body as []"
    by (simp add: write_ber_body_enc flip: map_map [unfolded o_def] del: emit_arcs.simps)
next
  assume as: "arcs_foldable as \<and> body = write_ber_body as []"
  then have body: "body = subid_octets (unat (first_subidentifier as)) @ concat (map subid_octets (map unat (drop 2 as)))"
    by (simp add: write_ber_body_enc o_def)
  have "length (subid_octets (unat (first_subidentifier as))) > 0" by (simp only: length_enc subidentifier_len_pos)
  then have "body \<noteq> []" unfolding body by auto
  moreover have "decode_ber_loop body 0 False True [] = Some as"
    using as emit_first_subidentifier [of as] unfolding body
    by (subst decode_ber_loop_enc) (auto simp: decode_ber_loop_complete simp del: map_map)
  ultimately show "decode_ber_body body = Some as" by (simp add: decode_ber_body_def)
qed

lemma length_write_ber_body: "length (write_ber_body as out) = length out + ber_body_len as"
proof -
  have "length (concat (map (\<lambda>a. subid_octets (unat a)) xs)) = sum_list (map (\<lambda>arc. subidentifier_len (ucast arc)) xs)"
    for xs :: "u32 list"
  proof (induction xs)
    case (Cons a xs)
    then show ?case using length_enc [of "ucast a :: u64"] by simp
  qed simp
  then show ?thesis by (simp add: write_ber_body_enc ber_body_len_def length_enc)
qed

section \<open>Canonical index arcs\<close>

lemma read_digits_pos:
  assumes "s \<noteq> []" and "list_all is_ascii_digit s" and "\<not> starts_with s ''0''"
  shows "0 < read_digits s"
  using assms
proof (induction s rule: rev_induct)
  case (snoc c s)
  show ?case
  proof (cases "s = []")
    case True
    then have "c \<noteq> CHR ''0''" using snoc.prems by (simp add: starts_with_def)
    then have "code c \<noteq> 48" using code_inj [of c "CHR ''0''"] by simp
    then show ?thesis
      using snoc.prems True by (simp add: read_digits_def digit_val_def is_ascii_digit_def)
  next
    case False
    then have "\<not> starts_with s ''0''" using snoc.prems(3) by (cases s) (auto simp: starts_with_def)
    with snoc False show ?thesis by simp
  qed
qed simp

lemma digit_char_val: "is_ascii_digit c \<Longrightarrow> digit_char (digit_val c) = c"
  by (simp add: digit_char_def digit_val_def is_ascii_digit_def code_def)

lemma digit_val_less: "is_ascii_digit c \<Longrightarrow> digit_val c < 10"
  by (auto simp: digit_val_def is_ascii_digit_def)

lemma show_read_digits:
  assumes "s \<noteq> []" and "list_all is_ascii_digit s" and "length s = 1 \<or> \<not> starts_with s ''0''"
  shows "show_nat (read_digits s) = s"
  using assms
proof (induction s rule: rev_induct)
  case (snoc c s)
  have c: "digit_val c < 10" "digit_char (digit_val c) = c"
    using snoc.prems(2) digit_val_less digit_char_val by auto
  show ?case
  proof (cases "s = []")
    case True
    then show ?thesis using c by (subst show_nat.simps) (simp add: read_digits_def)
  next
    case False
    then have nz: "\<not> starts_with s ''0''"
      using snoc.prems(3) by (cases s) (auto simp: starts_with_def)
    then have "0 < read_digits s" using False snoc.prems by (intro read_digits_pos) auto
    moreover have "show_nat (read_digits s) = s" using snoc False nz by simp
    ultimately show ?thesis using c by (subst show_nat.simps) simp
  qed
qed simp

lemma show_nat_no_leading_zero: "length (show_nat n) = 1 \<or> \<not> starts_with (show_nat n) ''0''"
proof (induction n rule: show_nat.induct)
  case (1 n)
  show ?case
  proof (cases "n < 10")
    case True
    then show ?thesis by (subst show_nat.simps) simp
  next
    case False
    have "\<not> starts_with (show_nat (n div 10)) ''0''"
    proof
      assume z: "starts_with (show_nat (n div 10)) ''0''"
      with 1 False have "length (show_nat (n div 10)) = 1" by auto
      with z have "show_nat (n div 10) = ''0''"
        by (auto simp: starts_with_def length_Suc_conv)
      moreover have "show_nat 0 = ''0''"
        by (subst show_nat.simps) (simp add: digit_char_def flip: code_inj)
      ultimately have "n div 10 = 0" by (metis show_nat_inj)
      with False show False by simp
    qed
    then show ?thesis
      using False by (subst (2) show_nat.simps) (auto simp: starts_with_def take_Cons' split: list.splits)
  qed
qed

lemma index_arc_iff: "index_arc v = Some a \<longleftrightarrow> v = show_u32 a"
proof
  assume "index_arc v = Some a"
  then have v: "v \<noteq> []" "list_all is_ascii_digit v" "length v = 1 \<or> \<not> starts_with v ''0''"
    and p: "parse_u32 v = Some a"
    by (cases v; auto simp: index_arc_def Let_def split: if_splits)+
  obtain c cs where "v = c # cs" using v by (cases v) auto
  then have "c \<noteq> CHR ''+''" using v(2) by (auto simp: is_ascii_digit_def)
  then have "unat a = read_digits v"
    using p \<open>v = c # cs\<close> by (auto simp: parse_u32_def Let_def split: if_splits)
  then show "v = show_u32 a" using show_read_digits [OF v] by (simp add: show_u32_def)
next
  assume v: "v = show_u32 a"
  have "v \<noteq> []" "list_all is_ascii_digit v" using show_u32_chars v
    by (auto simp: show_u32_def list_all_iff)
  moreover have "\<not> (1 < length v \<and> starts_with v ''0'')"
    using show_nat_no_leading_zero [of "unat a"] v by (auto simp: show_u32_def)
  ultimately show "index_arc v = Some a" using v by (simp add: index_arc_def show_u32_def)
qed

section \<open>Properties\<close>

text \<open>
  An OID parses back from its dotted text exactly when it is one \<open>Oid::parse\<close> can produce: at
  least two arcs, the first two of which fold into a subidentifier.
\<close>

theorem Oid_parse_show_iff: "Oid_parse (Oid_show oid) = Inr oid \<longleftrightarrow> oid_ok oid"
  using Oid_parse_show_ok Oid_parse_ok by blast

text \<open>
  C4: the BER content octets of an OID are unique and complete: decoding accepts exactly the octets
  encoding writes, and gives back the OID that was written, for every OID whose first two arcs
  fold. Unterminated and non-minimal subidentifiers and arcs above 32 bits are refused.
\<close>

theorem Oid_ber_exact:
  "Oid_from_ber_body body = Some oid \<longleftrightarrow>
     arcs_foldable (oid_arcs oid) \<and> body = write_ber_body (oid_arcs oid) []"
  by (cases oid) (auto simp: Oid_from_ber_body_def decode_ber_body_iff)

end
