(* ===== verification/Oid_Template.thy ===== *)
theory Oid_Template
  imports Oid
begin

text \<open>
  OID templates, the second half of \<open>sonda-core/src/encoder/snmp/oid.rs\<close>: an object's OID followed
  by index placeholders or by a scalar's literal zero.

  The lemmas show that a template parses back from its printed form, that a parsed template is
  well formed (at most 128 arcs), that a rendered instance lies under the object and has at most
  128 arcs, that two label sets that render the same instance agree on every placeholder, and that
  \<open>can_render_under\<close> is never wrong when it says an instance cannot lie under a prefix.
\<close>

section \<open>Templates\<close>

record Placeholder =
  ph_name :: string
  ph_string :: bool

record OidTemplate =
  tpl_object :: Oid
  tpl_placeholders :: "Placeholder list"

definition min_arcs :: "Placeholder \<Rightarrow> nat" where
  "min_arcs p = (if ph_string p then 2 else 1)"

datatype OidTemplateError =
    TplObject string OidParseError
  | TplNoObject string
  | TplUnsupported string string
  | TplNotTrailing string string
  | TplBadPlaceholder string string
  | TplScalarWithoutZero string
  | TplTooManyArcs string nat

datatype TemplateArc = Literal u32 | Label string | StringLabel string

datatype RenderError =
    MissingLabel string
  | NotAnArc string string
  | EmptyString string
  | RenderTooManyArcs string nat

text \<open>The placeholder one arc of the text is, if it is one.\<close>

definition parse_placeholder :: "string \<Rightarrow> string \<Rightarrow> OidTemplateError + Placeholder option" where
  "parse_placeholder text arc =
     (case Option.bind (strip_prefix ''{'' arc) (strip_suffix ''}'') of
        Some inner \<Rightarrow>
          if CHR '':'' \<in> set inner then
            (case strip_suffix '':str'' inner of
               Some name \<Rightarrow>
                 if is_valid_label_key name then Inr (Some \<lparr> ph_name = name, ph_string = True \<rparr>)
                 else Inl (TplUnsupported text arc)
             | None \<Rightarrow> Inl (TplUnsupported text arc))
          else if is_valid_label_key inner then Inr (Some \<lparr> ph_name = inner, ph_string = False \<rparr>)
          else Inl (TplBadPlaceholder text arc)
      | None \<Rightarrow>
          if CHR ''{'' \<in> set arc \<or> CHR ''}'' \<in> set arc then Inl (TplBadPlaceholder text arc)
          else Inr None)"

fun template_arcs_loop ::
  "string \<Rightarrow> string list \<Rightarrow> string list \<Rightarrow> Placeholder list \<Rightarrow>
   OidTemplateError + (string list \<times> Placeholder list)" where
  "template_arcs_loop text [] literal placeholders = Inr (literal, placeholders)"
| "template_arcs_loop text (arc # words) literal placeholders =
     rbind (parse_placeholder text arc) (\<lambda>p.
       case p of
         Some placeholder \<Rightarrow> template_arcs_loop text words literal (placeholders @ [placeholder])
       | None \<Rightarrow>
           if placeholders \<noteq> [] then Inl (TplNotTrailing text arc)
           else template_arcs_loop text words (literal @ [arc]) placeholders)"

definition OidTemplate_parse :: "string \<Rightarrow> OidTemplateError + OidTemplate" where
  "OidTemplate_parse text =
     rbind (template_arcs_loop text (split_on (CHR ''.'') text) [] []) (\<lambda>(literal, placeholders).
       if literal = [] then Inl (TplNoObject text)
       else if placeholders = [] \<and> last literal \<noteq> ''0'' then Inl (TplScalarWithoutZero text)
       else
         let literal = (if placeholders = [] then butlast literal else literal)
         in rbind (map_err (TplObject text) (Oid_parse (join ''.'' literal))) (\<lambda>object.
              let index = sum_list (map min_arcs placeholders);
                  n = length (oid_arcs object) + max index 1
              in if n > MAX_ARCS then Inl (TplTooManyArcs text n)
                 else Inr \<lparr> tpl_object = object, tpl_placeholders = placeholders \<rparr>))"

definition placeholder_names :: "OidTemplate \<Rightarrow> string list" where
  "placeholder_names t = map ph_name (tpl_placeholders t)"

definition has_string_index :: "OidTemplate \<Rightarrow> bool" where
  "has_string_index t = list_ex ph_string (tpl_placeholders t)"

definition index_arcs :: "OidTemplate \<Rightarrow> u8" where
  "index_arcs t = of_nat (max (sum_list (map min_arcs (tpl_placeholders t))) 1)"

definition OidTemplate_arcs :: "OidTemplate \<Rightarrow> TemplateArc list" where
  "OidTemplate_arcs t =
     map Literal (oid_arcs (tpl_object t))
     @ (if tpl_placeholders t = [] then [Literal 0] else [])
     @ map (\<lambda>p. if ph_string p then StringLabel (ph_name p) else Label (ph_name p)) (tpl_placeholders t)"

definition can_render_under :: "OidTemplate \<Rightarrow> Oid \<Rightarrow> bool" where
  "can_render_under t pre =
     (let object = oid_arcs (tpl_object t); wanted = oid_arcs pre
      in if tpl_placeholders t = [] then
           length object + 1 \<ge> length wanted \<and> take (length wanted) (object @ [0]) = wanted
         else if length object \<ge> length wanted then starts_with object wanted
         else starts_with wanted object
           \<and> (has_string_index t \<or> length object + length (tpl_placeholders t) \<ge> length wanted))"

fun render_loop :: "Labels \<Rightarrow> Placeholder list \<Rightarrow> u32 list \<Rightarrow> RenderError + u32 list" where
  "render_loop labels [] out = Inr out"
| "render_loop labels (p # ps) out =
     rbind (ok_or (label_value labels (ph_name p)) (MissingLabel (ph_name p))) (\<lambda>v.
       if \<not> ph_string p then
         rbind (ok_or (index_arc v) (NotAnArc (ph_name p) v)) (\<lambda>arc.
           render_loop labels ps (out @ [arc]))
       else if v = [] then Inl (EmptyString (ph_name p))
       else
         let after = sum_list (map min_arcs ps);
             n = length out + 1 + length v + after
         in if n > MAX_ARCS then Inl (RenderTooManyArcs (ph_name p) n)
            else render_loop labels ps (out @ [of_nat (length v)] @ map (\<lambda>c. of_nat (code c)) v))"

definition render :: "OidTemplate \<Rightarrow> Labels \<Rightarrow> RenderError + u32 list" where
  "render t labels =
     (let out = oid_arcs (tpl_object t);
          out = (if tpl_placeholders t = [] then out @ [0] else out)
      in render_loop labels (tpl_placeholders t) out)"

definition show_placeholder :: "Placeholder \<Rightarrow> string" where
  "show_placeholder p = ''{'' @ ph_name p @ (if ph_string p then '':str'' else []) @ ''}''"

definition OidTemplate_show :: "OidTemplate \<Rightarrow> string" where
  "OidTemplate_show t =
     Oid_show (tpl_object t)
     @ (if tpl_placeholders t = [] then ''.0'' else [])
     @ concat (map (\<lambda>p. ''.'' @ show_placeholder p) (tpl_placeholders t))"

text \<open>What every parsed template satisfies.\<close>

definition template_ok :: "OidTemplate \<Rightarrow> bool" where
  "template_ok t \<longleftrightarrow>
     oid_ok (tpl_object t)
     \<and> list_all (\<lambda>p. is_valid_label_key (ph_name p)) (tpl_placeholders t)
     \<and> length (oid_arcs (tpl_object t)) + max (sum_list (map min_arcs (tpl_placeholders t))) 1 \<le> MAX_ARCS"

section \<open>Parsing\<close>

lemma parse_placeholder_key:
  "parse_placeholder text arc = Inr (Some p) \<Longrightarrow> is_valid_label_key (ph_name p)"
  by (auto simp: parse_placeholder_def split: option.splits if_splits)

lemma template_arcs_loop_keys:
  assumes "template_arcs_loop text ws literal ps = Inr (literal', ps')"
    and "list_all (\<lambda>p. is_valid_label_key (ph_name p)) ps"
  shows "list_all (\<lambda>p. is_valid_label_key (ph_name p)) ps'"
  using assms
proof (induction "text" ws literal ps rule: template_arcs_loop.induct)
  case (2 t arc ws literal ps)
  then show ?case
    by (auto simp: sonda_simps parse_placeholder_key split: option.splits if_splits)
qed simp

lemma OidTemplate_parse_ok: "OidTemplate_parse text = Inr t \<Longrightarrow> template_ok t"
proof -
  assume parse: "OidTemplate_parse text = Inr t"
  then obtain literal ps where
    loop: "template_arcs_loop text (split_on (CHR ''.'') text) [] [] = Inr (literal, ps)"
    by (auto simp: OidTemplate_parse_def sonda_simps)
  have "list_all (\<lambda>p. is_valid_label_key (ph_name p)) ps"
    by (rule template_arcs_loop_keys [OF loop]) simp
  with parse loop show ?thesis
    by (auto simp: OidTemplate_parse_def template_ok_def sonda_simps Let_def Oid_parse_ok
        split: if_splits)
qed

lemma strip_braces [simp]: "strip_suffix ''}'' (s @ ''}'') = Some s"
  by (simp add: strip_suffix_Some)

lemma parse_show_placeholder:
  assumes "is_valid_label_key (ph_name p)"
  shows "parse_placeholder text (show_placeholder p) = Inr (Some p)"
proof -
  have "strip_suffix ''}'' (ph_name p @ (if ph_string p then '':str'' else []) @ ''}'')
      = Some (ph_name p @ (if ph_string p then '':str'' else []))"
    by (simp add: strip_suffix_Some)
  moreover have "CHR '':'' \<notin> set (ph_name p)" using label_key_no_punctuation assms by blast
  moreover have "strip_suffix '':str'' (ph_name p @ '':str'') = Some (ph_name p)"
    by (simp add: strip_suffix_Some)
  ultimately show ?thesis
    using assms by (cases p) (auto simp: parse_placeholder_def show_placeholder_def)
qed

lemma parse_digits_placeholder:
  "list_all is_ascii_digit arc \<Longrightarrow> arc \<noteq> [] \<Longrightarrow> parse_placeholder text arc = Inr None"
proof -
  assume digits: "list_all is_ascii_digit arc" and "arc \<noteq> []"
  then have "CHR ''{'' \<notin> set arc" "CHR ''}'' \<notin> set arc"
    by (auto simp: list_all_iff is_ascii_digit_def)
  moreover from this have "strip_prefix ''{'' arc = None"
    by (auto simp: strip_prefix_None)
  ultimately show ?thesis by (simp add: parse_placeholder_def)
qed

lemma template_arcs_loop_literals:
  assumes "\<forall>w \<in> set ws. w \<noteq> [] \<and> list_all is_ascii_digit w"
  shows "template_arcs_loop text (ws @ rest) literal [] = template_arcs_loop text rest (literal @ ws) []"
  using assms by (induction ws arbitrary: literal) (simp_all add: parse_digits_placeholder)

lemma template_arcs_loop_placeholders:
  assumes "list_all (\<lambda>p. is_valid_label_key (ph_name p)) qs"
  shows "template_arcs_loop text (map show_placeholder qs) literal ps = Inr (literal, ps @ qs)"
  using assms by (induction qs arbitrary: ps) (simp_all add: parse_show_placeholder)

lemma show_placeholder_no_dot:
  "is_valid_label_key (ph_name p) \<Longrightarrow> CHR ''.'' \<notin> set (show_placeholder p)"
  using label_key_no_punctuation by (auto simp: show_placeholder_def)

lemma join_append: "ws \<noteq> [] \<Longrightarrow> join s ws @ concat (map (\<lambda>w. s @ w) vs) = join s (ws @ vs)"
proof (induction s ws rule: join.induct)
  case (2 s w)
  show ?case by (induction vs arbitrary: w) (simp_all flip: append_assoc)
qed simp_all

lemma OidTemplate_show_join:
  assumes "oid_ok (tpl_object t)"
  shows "OidTemplate_show t = join ''.'' (map show_u32 (oid_arcs (tpl_object t))
    @ (if tpl_placeholders t = [] then [''0''] else map show_placeholder (tpl_placeholders t)))"
proof -
  have ne: "map show_u32 (oid_arcs (tpl_object t)) \<noteq> []"
    using assms encodable_length by (fastforce simp: oid_ok_def)
  show ?thesis
    using join_append [OF ne, of "''.''" "[''0'']"]
      join_append [OF ne, of "''.''" "map show_placeholder (tpl_placeholders t)"]
    by (simp add: OidTemplate_show_def Oid_show_join o_def)
qed

lemma OidTemplate_parse_show_ok:
  assumes "template_ok t"
  shows "OidTemplate_parse (OidTemplate_show t) = Inr t"
proof -
  let ?obj = "map show_u32 (oid_arcs (tpl_object t))"
  let ?ix = "if tpl_placeholders t = [] then [''0''] else map show_placeholder (tpl_placeholders t)"
  have ok: "oid_ok (tpl_object t)" and keys: "list_all (\<lambda>p. is_valid_label_key (ph_name p)) (tpl_placeholders t)"
    using assms by (auto simp: template_ok_def)
  have ne: "?obj \<noteq> []" using ok encodable_length by (fastforce simp: oid_ok_def)
  have "\<forall>w \<in> set (?obj @ ?ix). CHR ''.'' \<notin> set w"
    using show_u32_no_dot keys show_placeholder_no_dot by (auto simp: list_all_iff)
  then have split: "split_on (CHR ''.'') (OidTemplate_show t) = ?obj @ ?ix"
    unfolding OidTemplate_show_join [OF ok] using ne by (intro split_on_join) auto
  have digits: "\<forall>w \<in> set ?obj. w \<noteq> [] \<and> list_all is_ascii_digit w"
    using show_u32_chars by (auto simp: show_u32_def list_all_iff)
  have zero: "parse_placeholder text ''0'' = Inr None" for "text"
    by (rule parse_digits_placeholder) (simp_all add: is_ascii_digit_def)
  have loop: "template_arcs_loop text (?obj @ ?ix) [] [] =
      Inr (if tpl_placeholders t = [] then ?obj @ [''0''] else ?obj, tpl_placeholders t)" for "text"
    by (subst template_arcs_loop_literals [OF digits])
       (use keys in \<open>auto simp: zero template_arcs_loop_placeholders\<close>)
  have "Oid_parse (join ''.'' ?obj) = Inr (tpl_object t)"
    using Oid_parse_show_ok [OF ok] by (simp add: Oid_show_join)
  then show ?thesis
    using assms ne by (auto simp: OidTemplate_parse_def split loop template_ok_def Let_def)
qed

section \<open>Rendering\<close>

text \<open>The arcs one placeholder contributes.\<close>

definition placeholder_arcs :: "Placeholder \<Rightarrow> string \<Rightarrow> u32 list \<Rightarrow> bool" where
  "placeholder_arcs p v as \<longleftrightarrow>
     (if ph_string p then v \<noteq> [] \<and> length v < 2 ^ 32 \<and> as = of_nat (length v) # map (\<lambda>c. of_nat (code c)) v
      else \<exists>a. as = [a] \<and> index_arc v = Some a)"

lemma min_arcs_pos: "0 < min_arcs p"
  by (simp add: min_arcs_def)

lemma placeholder_arcs_length:
  assumes "placeholder_arcs p v as"
  shows "min_arcs p \<le> length as" and "\<not> ph_string p \<Longrightarrow> length as = min_arcs p"
  using assms by (auto simp: placeholder_arcs_def min_arcs_def Suc_le_eq split: if_splits)

lemma render_loop_Cons:
  assumes "render_loop labels (p # ps) out = Inr as"
  shows "\<exists>v ix. label_value labels (ph_name p) = Some v \<and> placeholder_arcs p v ix
    \<and> (ph_string p \<longrightarrow> length out + length ix + sum_list (map min_arcs ps) \<le> MAX_ARCS)
    \<and> render_loop labels ps (out @ ix) = Inr as"
proof (cases "ph_string p")
  case True
  then show ?thesis
    using assms by (auto simp: sonda_simps Let_def placeholder_arcs_def MAX_ARCS_def split: if_splits)
next
  case False
  then show ?thesis using assms by (auto simp: sonda_simps placeholder_arcs_def)
qed

lemma render_loop_out:
  assumes "render_loop labels ps out = Inr as"
  shows "\<exists>ix. as = out @ ix \<and> sum_list (map min_arcs ps) \<le> length ix
    \<and> (\<not> list_ex ph_string ps \<longrightarrow> length ix = length ps)"
  using assms
proof (induction ps arbitrary: out)
  case (Cons p ps)
  obtain v ix where v: "placeholder_arcs p v ix" "render_loop labels ps (out @ ix) = Inr as"
    using render_loop_Cons [OF Cons.prems] by blast
  obtain jx where jx: "as = (out @ ix) @ jx" "sum_list (map min_arcs ps) \<le> length jx"
    "\<not> list_ex ph_string ps \<longrightarrow> length jx = length ps" using Cons.IH [OF v(2)] by blast
  then show ?case
    using placeholder_arcs_length [OF v(1)]
    by (intro exI [of _ "ix @ jx"]) (auto simp: min_arcs_def [of p])
qed simp

lemma render_loop_max:
  assumes "render_loop labels ps out = Inr as"
    and "length out + sum_list (map min_arcs ps) \<le> MAX_ARCS"
  shows "length as \<le> MAX_ARCS"
  using assms
proof (induction ps arbitrary: out)
  case (Cons p ps)
  obtain v ix where v: "placeholder_arcs p v ix" "render_loop labels ps (out @ ix) = Inr as"
    "ph_string p \<longrightarrow> length out + length ix + sum_list (map min_arcs ps) \<le> MAX_ARCS"
    using render_loop_Cons [OF Cons.prems(1)] by blast
  show ?case
    by (rule Cons.IH [OF v(2)]) (use placeholder_arcs_length [OF v(1)] v(3) Cons.prems(2) in auto)
qed simp

lemma render_out:
  assumes "render t labels = Inr as"
  shows "\<exists>ix. as = oid_arcs (tpl_object t) @ ix
    \<and> max (sum_list (map min_arcs (tpl_placeholders t))) 1 \<le> length ix
    \<and> (\<not> has_string_index t \<longrightarrow> length ix = max (length (tpl_placeholders t)) 1)"
proof (cases "tpl_placeholders t = []")
  case True
  then show ?thesis using assms by (auto simp: render_def Let_def)
next
  case False
  then obtain p ps where "tpl_placeholders t = p # ps" by (cases "tpl_placeholders t") auto
  then have "1 \<le> sum_list (map min_arcs (tpl_placeholders t))" "1 \<le> length (tpl_placeholders t)"
    using min_arcs_pos [of p] by auto
  with render_loop_out [of labels "tpl_placeholders t" "oid_arcs (tpl_object t)" as] assms False
  show ?thesis by (auto simp: render_def Let_def has_string_index_def max_absorb1)
qed

lemma of_nat_u32_eq: "m < 2 ^ 32 \<Longrightarrow> n < 2 ^ 32 \<Longrightarrow> (of_nat m :: u32) = of_nat n \<longleftrightarrow> m = n"
  by (metis unat_of_nat_small(2))

lemma map_code_inj:
  "map (\<lambda>c. of_nat (code c) :: u32) v = map (\<lambda>c. of_nat (code c)) w \<longleftrightarrow> v = w"
proof (rule inj_map_eq_map)
  show "inj (\<lambda>c. of_nat (code c) :: u32)"
  proof (rule injI)
    fix c d :: char
    assume "of_nat (code c) = (of_nat (code d) :: u32)"
    moreover have "code c < 2 ^ 32" "code d < 2 ^ 32"
      by (auto intro: less_trans [OF code_less])
    ultimately show "c = d" by (simp add: of_nat_u32_eq code_inj)
  qed
qed

lemma placeholder_arcs_inj:
  assumes "placeholder_arcs p v ix" and "placeholder_arcs p w jx" and "ix @ rest = jx @ rest'"
  shows "v = w \<and> ix = jx"
proof (cases "ph_string p")
  case True
  then have "(of_nat (length v) :: u32) = of_nat (length w)"
    and *: "map (\<lambda>c. of_nat (code c)) v @ rest = map (\<lambda>c. of_nat (code c)) w @ rest'"
    and "length v < 2 ^ 32" "length w < 2 ^ 32"
    using assms by (auto simp: placeholder_arcs_def)
  then have "length v = length w" by (simp add: of_nat_u32_eq)
  with * have "map (\<lambda>c. of_nat (code c) :: u32) v = map (\<lambda>c. of_nat (code c)) w" by simp
  then have "v = w" by (simp only: map_code_inj)
  with assms True show ?thesis by (simp add: placeholder_arcs_def)
next
  case False
  then show ?thesis using assms by (auto simp: placeholder_arcs_def index_arc_iff)
qed

lemma render_loop_inj:
  assumes "render_loop l ps out = Inr as" and "render_loop m ps out = Inr as" and "p \<in> set ps"
  shows "label_value l (ph_name p) = label_value m (ph_name p)"
  using assms
proof (induction ps arbitrary: out)
  case (Cons q ps)
  obtain v ix where v: "label_value l (ph_name q) = Some v" "placeholder_arcs q v ix"
    "render_loop l ps (out @ ix) = Inr as" using render_loop_Cons [OF Cons.prems(1)] by blast
  obtain w jx where w: "label_value m (ph_name q) = Some w" "placeholder_arcs q w jx"
    "render_loop m ps (out @ jx) = Inr as" using render_loop_Cons [OF Cons.prems(2)] by blast
  obtain r s where "as = (out @ ix) @ r" "as = (out @ jx) @ s"
    using render_loop_out [OF v(3)] render_loop_out [OF w(3)] by blast
  then have "ix @ r = jx @ s" by simp
  then have eq: "v = w" "ix = jx" using placeholder_arcs_inj [OF v(2) w(2)] by blast+
  show ?case
  proof (cases "p = q")
    case True
    then show ?thesis using v(1) w(1) eq by simp
  next
    case False
    then show ?thesis using Cons.IH [OF v(3)] w(3) eq Cons.prems(3) by simp
  qed
qed simp

section \<open>A worked example\<close>

definition if_table :: OidTemplate where
  "if_table = \<lparr> tpl_object = Oid [1, 3, 6, 1], tpl_placeholders =
     [\<lparr> ph_name = ''ix'', ph_string = False \<rparr>, \<lparr> ph_name = ''nm'', ph_string = True \<rparr>] \<rparr>"

definition if_labels :: Labels where
  "if_labels = [(''ix'', ''7''), (''nm'', ''eth'')]"

lemma code_letters [simp]:
  "code (CHR ''i'') = 105" "code (CHR ''x'') = 120" "code (CHR ''n'') = 110" "code (CHR ''m'') = 109"
  "code (CHR ''e'') = 101" "code (CHR ''t'') = 116" "code (CHR ''h'') = 104" "code (CHR ''7'') = 55"
  by (simp_all add: code_def)

lemma if_table_ok: "template_ok if_table"
  by (simp add: template_ok_def if_table_def oid_ok_def is_valid_label_key_def is_ascii_alphabetic_def
      is_ascii_alphanumeric_def MAX_ARCS_def min_arcs_def)

lemma index_arc_7: "index_arc ''7'' = Some 7"
  by (simp add: index_arc_def is_ascii_digit_def parse_u32_def read_digits_def digit_val_def)

lemma if_table_render: "render if_table if_labels = Inr [1, 3, 6, 1, 7, 3, 101, 116, 104]"
  by (simp add: render_def if_table_def if_labels_def btree_get_def index_arc_7 MAX_ARCS_def)

section \<open>Properties\<close>

text \<open>
  A template parses back from its printed form exactly when it is one that parsing can
  produce: an encodable object, placeholders naming label keys, at most 128 arcs.
\<close>

theorem OidTemplate_parse_show: "OidTemplate_parse (OidTemplate_show t) = Inr t \<longleftrightarrow> template_ok t"
  using OidTemplate_parse_show_ok OidTemplate_parse_ok by blast

text \<open>
  C6: an instance rendered from a parsed template lies under the template's object, has at least
  \<open>index_arcs\<close> arcs after it, at most 128 arcs in all, and is an OID that BER can encode.
\<close>

theorem render_instance_bounds:
  assumes "OidTemplate_parse text = Inr t" and "render t labels = Inr as"
  shows "Oid_from_arcs as = Some (Oid as) \<and> Oid_is_prefix_of (tpl_object t) (Oid as)
    \<and> length (oid_arcs (tpl_object t)) + unat (index_arcs t) \<le> length as \<and> length as \<le> 128"
proof -
  have t: "template_ok t" using assms OidTemplate_parse_ok by blast
  let ?sum = "sum_list (map min_arcs (tpl_placeholders t))"
  obtain ix where ix: "as = oid_arcs (tpl_object t) @ ix" "max ?sum 1 \<le> length ix"
    using render_out [OF assms(2)] by blast
  have "length (oid_arcs (tpl_object t)) + max ?sum 1 \<le> 128"
    using t by (simp only: template_ok_def MAX_ARCS_def)
  then have "max ?sum 1 \<le> 128" by linarith
  then have unat: "unat (index_arcs t) = max ?sum 1"
    unfolding index_arcs_def by (intro unat_of_nat_small) simp
  have max: "length as \<le> MAX_ARCS"
  proof (cases "tpl_placeholders t = []")
    case True
    then show ?thesis using assms(2) t by (auto simp: render_def Let_def template_ok_def)
  next
    case False
    then show ?thesis
      using assms(2) t render_loop_max [of labels "tpl_placeholders t" "oid_arcs (tpl_object t)" as]
      by (auto simp: render_def Let_def template_ok_def)
  qed
  obtain a b rest where "oid_arcs (tpl_object t) = a # b # rest"
    using t by (cases "oid_arcs (tpl_object t)" rule: first_arcs_encodable.cases)
      (auto simp: template_ok_def oid_ok_def)
  with t ix have "first_arcs_encodable as" by (auto simp: template_ok_def oid_ok_def split: if_splits)
  then have "Oid_from_arcs as = Some (Oid as)" by (simp add: oid_ok_def)
  moreover have "Oid_is_prefix_of (tpl_object t) (Oid as)"
    using ix by (auto simp: Oid_is_prefix_of_def starts_with_iff)
  ultimately show ?thesis using ix unat max by (simp add: MAX_ARCS_def)
qed

text \<open>
  Rendering is injective on the labels a template names: when two label sets render the same
  instance, they give every placeholder the same value, so two series never share an instance.
\<close>

theorem render_injective:
  assumes "render t l = Inr as" and "render t m = Inr as" and "name \<in> set (placeholder_names t)"
  shows "label_value l name = label_value m name"
proof -
  obtain p where p: "p \<in> set (tpl_placeholders t)" "name = ph_name p"
    using assms(3) by (auto simp: placeholder_names_def)
  then have "tpl_placeholders t \<noteq> []" by auto
  then have "render_loop l (tpl_placeholders t) (oid_arcs (tpl_object t)) = Inr as"
    "render_loop m (tpl_placeholders t) (oid_arcs (tpl_object t)) = Inr as"
    using assms(1,2) by (simp_all add: render_def Let_def)
  then show ?thesis using render_loop_inj [OF _ _ p(1)] p(2) by blast
qed

text \<open>
  \<open>can_render_under\<close> is sound: whenever some label set renders an instance at or below a
  prefix, it answers yes.
\<close>

theorem can_render_under_sound:
  assumes "render t labels = Inr as" and "Oid_is_prefix_of pre (Oid as)"
  shows "can_render_under t pre"
proof -
  let ?o = "oid_arcs (tpl_object t)" and ?w = "oid_arcs pre"
  obtain ix where ix: "as = ?o @ ix"
    "\<not> has_string_index t \<longrightarrow> length ix = max (length (tpl_placeholders t)) 1"
    using render_out [OF assms(1)] by blast
  have w: "take (length ?w) as = ?w"
    using assms(2) by (simp add: Oid_is_prefix_of_def starts_with_def)
  then have len: "length ?w \<le> length as" by (metis length_take min.cobounded1)
  show ?thesis
  proof (cases "tpl_placeholders t = []")
    case True
    then show ?thesis using assms(1) w len by (auto simp: can_render_under_def render_def Let_def)
  next
    case False
    then have "1 \<le> length (tpl_placeholders t)" by (simp add: Suc_le_eq)
    then have "\<not> has_string_index t \<longrightarrow> length ?w \<le> length ?o + length (tpl_placeholders t)"
      using ix len by auto
    moreover have "length ?w \<le> length ?o \<Longrightarrow> starts_with ?o ?w"
      using w ix by (simp add: starts_with_def)
    moreover have "\<not> length ?w \<le> length ?o \<Longrightarrow> starts_with ?w ?o"
    proof -
      assume "\<not> length ?w \<le> length ?o"
      moreover have "take (length ?o) ?w = take (length ?o) (take (length ?w) as)" by (simp only: w)
      ultimately show "starts_with ?w ?o" by (simp add: starts_with_def ix)
    qed
    ultimately show ?thesis using False by (auto simp: can_render_under_def Let_def)
  qed
qed

theorem render_instance_bounds_witness:
  "length (oid_arcs (tpl_object if_table)) + unat (index_arcs if_table) \<le> 9"
  using render_instance_bounds [OF OidTemplate_parse_show_ok [OF if_table_ok] if_table_render] by simp

theorem render_injective_witness:
  "label_value if_labels ''nm'' = label_value (Labels_insert ''zone'' ''a'' if_labels) ''nm''"
proof (rule render_injective [OF if_table_render])
  show "render if_table (Labels_insert ''zone'' ''a'' if_labels) = Inr [1, 3, 6, 1, 7, 3, 101, 116, 104]"
    by (simp add: render_def if_table_def if_labels_def btree_get_def index_arc_7 MAX_ARCS_def
        Labels_insert_def)
qed (simp add: if_table_def placeholder_names_def)

theorem can_render_under_sound_witness: "can_render_under if_table (Oid [1, 3, 6, 1, 7])"
  by (rule can_render_under_sound [OF if_table_render])
     (simp add: Oid_is_prefix_of_def starts_with_def)

end
