(* ===== verification/Ber.thy ===== *)
theory Ber
  imports Oid_Template
begin

text \<open>
  The BER subset of \<open>sonda-core/src/encoder/snmp/ber.rs\<close>: tags, definite lengths, integers, octet
  strings, OIDs, varbinds and the SNMPv1/v2c message, both directions.

  A writer takes the octets written so far and returns them extended. \<open>write_tlv\<close> is the
  back-patching writer of the source: it leaves one octet for the length, runs its body, and moves
  the body when the length needs the long form. A reader takes the octets left and returns what it read with what is left
  after it, or the error; no reader of the source is used again after an error.
\<close>

section \<open>Tags and errors\<close>

datatype Tag =
    Tag_Integer | Tag_OctetString | Tag_Null | Tag_Oid | Tag_Sequence | Tag_IpAddress
  | Tag_Counter32 | Tag_Gauge32 | Tag_TimeTicks | Tag_Opaque | Tag_Counter64
  | Tag_NoSuchObject | Tag_NoSuchInstance | Tag_EndOfMibView
  | Tag_GetRequest | Tag_GetNextRequest | Tag_Response | Tag_SetRequest | Tag_GetBulkRequest
  | Tag_InformRequest | Tag_TrapV2 | Tag_Report

datatype BerError =
    Truncated
  | BadLength
  | BadTag u8
  | Overflow
  | BadOid
  | UnsupportedVersion i64

fun Tag_byte :: "Tag \<Rightarrow> u8" where
  "Tag_byte Tag_Integer = 0x02"
| "Tag_byte Tag_OctetString = 0x04"
| "Tag_byte Tag_Null = 0x05"
| "Tag_byte Tag_Oid = 0x06"
| "Tag_byte Tag_Sequence = 0x30"
| "Tag_byte Tag_IpAddress = 0x40"
| "Tag_byte Tag_Counter32 = 0x41"
| "Tag_byte Tag_Gauge32 = 0x42"
| "Tag_byte Tag_TimeTicks = 0x43"
| "Tag_byte Tag_Opaque = 0x44"
| "Tag_byte Tag_Counter64 = 0x46"
| "Tag_byte Tag_NoSuchObject = 0x80"
| "Tag_byte Tag_NoSuchInstance = 0x81"
| "Tag_byte Tag_EndOfMibView = 0x82"
| "Tag_byte Tag_GetRequest = 0xA0"
| "Tag_byte Tag_GetNextRequest = 0xA1"
| "Tag_byte Tag_Response = 0xA2"
| "Tag_byte Tag_SetRequest = 0xA3"
| "Tag_byte Tag_GetBulkRequest = 0xA5"
| "Tag_byte Tag_InformRequest = 0xA6"
| "Tag_byte Tag_TrapV2 = 0xA7"
| "Tag_byte Tag_Report = 0xA8"

definition Tag_from_byte :: "u8 \<Rightarrow> BerError + Tag" where
  "Tag_from_byte b =
     (if b = 0x02 then Inr Tag_Integer
      else if b = 0x04 then Inr Tag_OctetString
      else if b = 0x05 then Inr Tag_Null
      else if b = 0x06 then Inr Tag_Oid
      else if b = 0x30 then Inr Tag_Sequence
      else if b = 0x40 then Inr Tag_IpAddress
      else if b = 0x41 then Inr Tag_Counter32
      else if b = 0x42 then Inr Tag_Gauge32
      else if b = 0x43 then Inr Tag_TimeTicks
      else if b = 0x44 then Inr Tag_Opaque
      else if b = 0x46 then Inr Tag_Counter64
      else if b = 0x80 then Inr Tag_NoSuchObject
      else if b = 0x81 then Inr Tag_NoSuchInstance
      else if b = 0x82 then Inr Tag_EndOfMibView
      else if b = 0xA0 then Inr Tag_GetRequest
      else if b = 0xA1 then Inr Tag_GetNextRequest
      else if b = 0xA2 then Inr Tag_Response
      else if b = 0xA3 then Inr Tag_SetRequest
      else if b = 0xA5 then Inr Tag_GetBulkRequest
      else if b = 0xA6 then Inr Tag_InformRequest
      else if b = 0xA7 then Inr Tag_TrapV2
      else if b = 0xA8 then Inr Tag_Report
      else Inl (BadTag b))"

definition Tag_is_pdu :: "Tag \<Rightarrow> bool" where
  "Tag_is_pdu t \<longleftrightarrow>
     t \<in> set [Tag_GetRequest, Tag_GetNextRequest, Tag_Response, Tag_SetRequest,
       Tag_GetBulkRequest, Tag_InformRequest, Tag_TrapV2, Tag_Report]"

section \<open>Lengths and headers\<close>

definition length_len :: "nat \<Rightarrow> nat" where
  "length_len len = (if len < 0x80 then 1 else 1 + div_ceil (bit_len len) 8)"

definition tlv_len :: "nat \<Rightarrow> nat" where
  "tlv_len body_len = 1 + length_len body_len + body_len"

definition write_length :: "bytes \<Rightarrow> nat \<Rightarrow> bytes" where
  "write_length out len =
     (if len < 0x80 then out @ [of_nat len]
      else
        let octets = length_len len - 1;
            out = out @ [0x80 OR of_nat octets];
            be = be_nat 8 len
        in out @ drop (length be - octets) be)"

definition write_header :: "bytes \<Rightarrow> Tag \<Rightarrow> nat \<Rightarrow> bytes" where
  "write_header out tag len = write_length (out @ [Tag_byte tag]) len"

text \<open>\<open>Vec::copy_within(src_start..src_end, dst)\<close>, which panics unless both ranges are in bounds.\<close>

definition copy_within :: "'a list \<Rightarrow> nat \<Rightarrow> nat \<Rightarrow> nat \<Rightarrow> 'a list" where
  "copy_within xs src_start src_end dst =
     take dst xs @ drop src_start (take src_end xs) @ drop (dst + (src_end - src_start)) xs"

text \<open>
  The body of \<open>write_tlv\<close> is a closure that may also set a variable of its caller, which is
  \<open>'r\<close> here; \<open>write_tlv\<close> is the case of a closure that sets none.
\<close>

definition write_tlv_ret :: "bytes \<Rightarrow> Tag \<Rightarrow> (bytes \<Rightarrow> 'r \<times> bytes) \<Rightarrow> 'r \<times> bytes" where
  "write_tlv_ret out tag body =
     (let out = out @ [Tag_byte tag];
          at = length out;
          out = out @ [0];
          (r, out) = body out;
          len = length out - at - 1
      in if len < 0x80 then (r, out[at := of_nat len])
         else
           let octets = length_len len - 1;
               fin = length out;
               out = out @ replicate octets 0;
               out = copy_within out (at + 1) fin (at + 1 + octets);
               out = out[at := 0x80 OR of_nat octets];
               be = be_nat 8 len
           in (r, take (at + 1) out @ drop (length be - octets) be @ drop (at + 1 + octets) out))"

definition write_tlv :: "bytes \<Rightarrow> Tag \<Rightarrow> (bytes \<Rightarrow> bytes) \<Rightarrow> bytes" where
  "write_tlv out tag body = snd (write_tlv_ret out tag (\<lambda>out. ((), body out)))"

section \<open>Primitive values\<close>

function signed_span_loop :: "bytes \<Rightarrow> nat \<Rightarrow> nat" where
  "signed_span_loop bs start =
     (if start < 7 then
        let redundant = (bs ! start = 0x00 \<and> bs ! (start + 1) AND 0x80 = 0)
              \<or> (bs ! start = 0xFF \<and> bs ! (start + 1) AND 0x80 \<noteq> 0)
        in if \<not> redundant then start else signed_span_loop bs (start + 1)
      else start)"
  by auto
termination by (relation "measure (\<lambda>(bs, start). 7 - start)") auto

declare signed_span_loop.simps [simp del]

definition signed_span :: "i64 \<Rightarrow> bytes \<times> nat" where
  "signed_span v = (let bs = to_be_bytes64 v in (bs, signed_span_loop bs 0))"

definition i64_len :: "i64 \<Rightarrow> nat" where
  "i64_len v = (let (_, start) = signed_span v in tlv_len (8 - start))"

definition write_i64 :: "bytes \<Rightarrow> Tag \<Rightarrow> i64 \<Rightarrow> bytes" where
  "write_i64 out tag v =
     (let (bs, start) = signed_span v
      in write_header out tag (8 - start) @ drop start bs)"

definition write_u64 :: "bytes \<Rightarrow> Tag \<Rightarrow> u64 \<Rightarrow> bytes" where
  "write_u64 out tag v =
     (let bs = to_be_bytes64 v;
          start = min ((64 - bit_len (unat v)) div 8) 7;
          pad = bs ! start AND 0x80 \<noteq> 0;
          out = write_header out tag (8 - start + (if pad then 1 else 0));
          out = (if pad then out @ [0] else out)
      in out @ drop start bs)"

definition write_octets :: "bytes \<Rightarrow> Tag \<Rightarrow> bytes \<Rightarrow> bytes" where
  "write_octets out tag bs = write_header out tag (length bs) @ bs"

definition write_integer :: "bytes \<Rightarrow> i32 \<Rightarrow> bytes" where
  "write_integer out v = write_i64 out Tag_Integer (scast v)"

definition write_counter32 :: "bytes \<Rightarrow> u32 \<Rightarrow> bytes" where
  "write_counter32 out v = write_u64 out Tag_Counter32 (ucast v)"

definition write_gauge32 :: "bytes \<Rightarrow> u32 \<Rightarrow> bytes" where
  "write_gauge32 out v = write_u64 out Tag_Gauge32 (ucast v)"

definition write_timeticks :: "bytes \<Rightarrow> u32 \<Rightarrow> bytes" where
  "write_timeticks out v = write_u64 out Tag_TimeTicks (ucast v)"

definition write_counter64 :: "bytes \<Rightarrow> u64 \<Rightarrow> bytes" where
  "write_counter64 out v = write_u64 out Tag_Counter64 v"

definition write_opaque_float :: "bytes \<Rightarrow> u32 \<Rightarrow> bytes" where
  "write_opaque_float out v = write_header out Tag_Opaque 7 @ [0x9F, 0x78, 0x04] @ to_be_bytes32 v"

definition write_opaque_double :: "bytes \<Rightarrow> u64 \<Rightarrow> bytes" where
  "write_opaque_double out v = write_header out Tag_Opaque 11 @ [0x9F, 0x79, 0x08] @ to_be_bytes64 v"

definition write_ipaddress :: "bytes \<Rightarrow> u32 \<Rightarrow> bytes" where
  "write_ipaddress out v = write_octets out Tag_IpAddress (to_be_bytes32 v)"

definition write_string :: "bytes \<Rightarrow> bytes \<Rightarrow> bytes" where
  "write_string out bs = write_octets out Tag_OctetString bs"

definition write_null :: "bytes \<Rightarrow> bytes" where
  "write_null out = out @ [Tag_byte Tag_Null, 0]"

definition write_oid :: "bytes \<Rightarrow> Oid \<Rightarrow> bytes" where
  "write_oid out oid =
     write_ber_body (oid_arcs oid) (write_header out Tag_Oid (ber_body_len (oid_arcs oid)))"

definition varbind_len :: "Oid \<Rightarrow> nat \<Rightarrow> nat" where
  "varbind_len oid value_len = tlv_len (tlv_len (ber_body_len (oid_arcs oid)) + value_len)"

definition write_varbind :: "bytes \<Rightarrow> Oid \<Rightarrow> bytes \<Rightarrow> bytes" where
  "write_varbind out oid v =
     (let body = tlv_len (ber_body_len (oid_arcs oid)) + length v;
          out = write_header out Tag_Sequence body
      in write_oid out oid @ v)"

section \<open>Readers\<close>

type_synonym 'a reader = "bytes \<Rightarrow> BerError + ('a \<times> bytes)"

definition raw_tlv :: "(u8 \<times> bytes) reader" where
  "raw_tlv inp =
     (case inp of
        [] \<Rightarrow> Inl Truncated
      | tag # rest \<Rightarrow>
          if tag AND 0x1F = 0x1F then Inl (BadTag tag)
          else (case rest of
             [] \<Rightarrow> Inl Truncated
           | first # rest \<Rightarrow>
               rbind
                 (if first < 0x80 then Inr (unat first, rest)
                  else
                    let octets = unat (first AND 0x7F)
                    in if octets = 0 \<or> octets > 4 then Inl BadLength
                       else if length rest < octets then Inl Truncated
                       else
                         let len_bytes = take octets rest
                         in Inr (foldl (\<lambda>acc b. push_bit 8 acc OR unat b) 0 len_bytes, drop octets rest))
                 (\<lambda>(len, rest).
                    if length rest < len then Inl Truncated
                    else Inr ((tag, take len rest), drop len rest))))"

definition read_tlv :: "(Tag \<times> bytes) reader" where
  "read_tlv inp = rbind (raw_tlv inp) (\<lambda>((tag, body), rest).
     rbind (Tag_from_byte tag) (\<lambda>t. Inr ((t, body), rest)))"

definition expect :: "Tag \<Rightarrow> bytes reader" where
  "expect tag inp = rbind (raw_tlv inp) (\<lambda>((found, body), rest).
     if found \<noteq> Tag_byte tag then Inl (BadTag found) else Inr (body, rest))"

definition decode_i64 :: "bytes \<Rightarrow> BerError + i64" where
  "decode_i64 body =
     (if length body = 0 then Inl BadLength
      else if length body \<le> 8 then
        let negative = hd body AND 0x80 \<noteq> 0;
            bs = (if negative then replicate 8 0xFF else replicate 8 0)
        in Inr (from_be_bytes64 (take (8 - length body) bs @ body))
      else Inl Overflow)"

definition decode_u64 :: "bytes \<Rightarrow> BerError + u64" where
  "decode_u64 body =
     (case body of
        [] \<Rightarrow> Inl BadLength
      | b # rest \<Rightarrow>
          let significant = (if b = 0 \<and> rest \<noteq> [] then rest else body)
          in if length significant > 8 then Inl Overflow
             else Inr (foldl (\<lambda>acc b. push_bit 8 acc OR ucast b) 0 significant))"

definition read_i64 :: "Tag \<Rightarrow> i64 reader" where
  "read_i64 tag inp = rbind (expect tag inp) (\<lambda>(body, rest). rbind (decode_i64 body) (\<lambda>v. Inr (v, rest)))"

definition read_u64 :: "Tag \<Rightarrow> u64 reader" where
  "read_u64 tag inp = rbind (expect tag inp) (\<lambda>(body, rest). rbind (decode_u64 body) (\<lambda>v. Inr (v, rest)))"

definition read_octets :: "Tag \<Rightarrow> bytes reader" where
  "read_octets tag inp = expect tag inp"

definition read_oid :: "Oid reader" where
  "read_oid inp = rbind (expect Tag_Oid inp) (\<lambda>(body, rest).
     rbind (ok_or (Oid_from_ber_body body) BadOid) (\<lambda>oid. Inr (oid, rest)))"

definition read_null :: "unit reader" where
  "read_null inp = rbind (expect Tag_Null inp) (\<lambda>(body, rest).
     if body \<noteq> [] then Inl BadLength else Inr ((), rest))"

section \<open>Messages and varbinds\<close>

record Message =
  msg_version :: i64
  msg_community :: bytes
  msg_pdu :: Tag
  msg_request_id :: i64
  msg_error_status :: i64
  msg_error_index :: i64
  msg_varbinds :: bytes

definition Message_decode :: "bytes \<Rightarrow> BerError + Message" where
  "Message_decode datagram =
     rbind (expect Tag_Sequence datagram) (\<lambda>(body, outer).
     if outer \<noteq> [] then Inl BadLength else
     rbind (read_i64 Tag_Integer body) (\<lambda>(version, message).
     if \<not> (version = 0 \<or> version = 1) then Inl (UnsupportedVersion version) else
     rbind (read_octets Tag_OctetString message) (\<lambda>(community, message).
     rbind (read_tlv message) (\<lambda>((pdu, pdu_body), message).
     if \<not> Tag_is_pdu pdu then Inl (BadTag (Tag_byte pdu)) else
     if message \<noteq> [] then Inl BadLength else
     rbind (read_i64 Tag_Integer pdu_body) (\<lambda>(request_id, fields).
     rbind (read_i64 Tag_Integer fields) (\<lambda>(error_status, fields).
     rbind (read_i64 Tag_Integer fields) (\<lambda>(error_index, fields).
     rbind (expect Tag_Sequence fields) (\<lambda>(varbinds, fields).
     if fields \<noteq> [] then Inl BadLength else
     Inr \<lparr> msg_version = version, msg_community = community, msg_pdu = pdu,
           msg_request_id = request_id, msg_error_status = error_status,
           msg_error_index = error_index, msg_varbinds = varbinds \<rparr>))))))))"

record VarBind =
  vb_oid :: bytes
  vb_value_tag :: u8
  vb_value :: bytes

definition VarBind_name :: "VarBind \<Rightarrow> BerError + Oid" where
  "VarBind_name vb = ok_or (Oid_from_ber_body (vb_oid vb)) BadOid"

definition VarBind_name_into :: "VarBind \<Rightarrow> BerError + u32 list" where
  "VarBind_name_into vb = ok_or (decode_ber_body (vb_oid vb)) BadOid"

definition read_one :: "VarBind reader" where
  "read_one inp =
     rbind (expect Tag_Sequence inp) (\<lambda>(body, rest).
     rbind (expect Tag_Oid body) (\<lambda>(oid, fields).
     rbind (raw_tlv fields) (\<lambda>((value_tag, v), fields).
     if fields \<noteq> [] then Inl BadLength
     else Inr (\<lparr> vb_oid = oid, vb_value_tag = value_tag, vb_value = v \<rparr>, rest))))"

text \<open>\<open>VarBinds::next\<close>, with what is left to iterate.\<close>

definition VarBinds_next :: "bytes \<Rightarrow> (BerError + (VarBind \<times> bytes)) option" where
  "VarBinds_next inp = (if inp = [] then None else Some (read_one inp))"

definition message_len :: "i64 \<Rightarrow> bytes \<Rightarrow> i64 \<Rightarrow> i64 \<Rightarrow> i64 \<Rightarrow> nat \<Rightarrow> nat" where
  "message_len version community request_id error_status error_index varbinds_len =
     (let pdu_body = i64_len request_id + i64_len error_status + i64_len error_index + tlv_len varbinds_len
      in tlv_len (i64_len version + tlv_len (length community) + tlv_len pdu_body))"

definition write_message_ret ::
  "bytes \<Rightarrow> i64 \<Rightarrow> bytes \<Rightarrow> Tag \<Rightarrow> i64 \<Rightarrow> i64 \<Rightarrow> i64 \<Rightarrow> (bytes \<Rightarrow> 'r \<times> bytes) \<Rightarrow> 'r \<times> bytes" where
  "write_message_ret out version community pdu request_id error_status error_index varbinds =
     write_tlv_ret out Tag_Sequence (\<lambda>out.
       let out = write_i64 out Tag_Integer version;
           out = write_octets out Tag_OctetString community
       in write_tlv_ret out pdu (\<lambda>out.
            let out = write_i64 out Tag_Integer request_id;
                out = write_i64 out Tag_Integer error_status;
                out = write_i64 out Tag_Integer error_index
            in write_tlv_ret out Tag_Sequence varbinds))"

end
