(* ===== verification/Ber_Codec.thy ===== *)
theory Ber_Codec
  imports Ber
begin

text \<open>
  What the BER writers and readers promise each other. \<open>tlv tag bs\<close> is the reference encoding of one
  TLV; every writer of \<open>Ber\<close> appends one, and every reader reads one back.

  The locale \<open>tlv_codec\<close> is the interface of a writer and a reader of one kind of value: what is
  written is read back, whatever follows. Inside it: encodings are prefix-free, and a run of
  encoded values is read back as the same list. It is interpreted for signed and unsigned
  integers, octet strings, OIDs, NULL and varbinds. Decoding is modelled for bodies below
  \<open>2 ^ 32\<close> octets, which is what the four length octets the reader accepts can say.
\<close>

section \<open>Headers\<close>

definition len_octets :: "nat \<Rightarrow> bytes" where
  "len_octets n = write_length [] n"

definition hdr :: "Tag \<Rightarrow> nat \<Rightarrow> bytes" where
  "hdr tag n = Tag_byte tag # len_octets n"

lemma write_length_eq: "write_length out n = out @ len_octets n"
  by (simp add: len_octets_def write_length_def Let_def)

lemma write_header_eq: "write_header out tag n = out @ hdr tag n"
  by (simp add: write_header_def write_length_eq hdr_def)

lemma len_octets_short: "n < 0x80 \<Longrightarrow> len_octets n = [of_nat n]"
  by (simp add: len_octets_def write_length_def)

lemma length_len_long:
  assumes "0x80 \<le> n" and "n < 256 ^ k"
  shows "1 \<le> length_len n - 1" and "length_len n - 1 \<le> k" and "n < 256 ^ (length_len n - 1)"
proof -
  have eq: "length_len n - 1 = div_ceil (bit_len n) 8" using assms by (simp add: length_len_def)
  have le: "div_ceil (bit_len n) 8 \<le> j \<longleftrightarrow> n < 256 ^ j" for j
    using power_mult [of "2 :: nat" 8 j] by (simp add: div_ceil_le_iff bit_len_le_iff mult.commute)
  show "length_len n - 1 \<le> k" using eq le assms by simp
  show "n < 256 ^ (length_len n - 1)" using eq le [of "div_ceil (bit_len n) 8"] by simp
  have "\<not> div_ceil (bit_len n) 8 \<le> 0" using le [of 0] assms by simp
  then show "1 \<le> length_len n - 1" using eq by simp
qed

lemma len_octets_long:
  assumes "0x80 \<le> n" and "n < 2 ^ 64"
  shows "len_octets n = (0x80 OR of_nat (length_len n - 1)) # be_nat (length_len n - 1) n"
proof -
  have "n < 256 ^ 8" using assms by simp
  then have "length_len n - 1 \<le> 8" using length_len_long assms by blast
  then show ?thesis
    using assms drop_be_nat [of "length_len n - 1" 8 n] by (simp add: len_octets_def write_length_def Let_def)
qed

lemma length_len_octets [simp]: "n < 2 ^ 64 \<Longrightarrow> length (len_octets n) = length_len n"
proof (cases "n < 0x80")
  case True
  then show ?thesis by (simp add: len_octets_short length_len_def)
next
  case False
  assume n: "n < 2 ^ 64"
  have "1 \<le> length_len n - 1" using length_len_long [of n 8] n False by simp
  then show ?thesis using n False by (simp add: len_octets_long)
qed

lemma length_hdr [simp]: "n < 2 ^ 64 \<Longrightarrow> length (hdr tag n) = 1 + length_len n"
  by (simp add: hdr_def)

lemma write_tlv_ret_eq:
  assumes "body (out @ [Tag_byte tag, 0]) = (r, out @ [Tag_byte tag, 0] @ bs)"
    and "length bs < 2 ^ 64"
  shows "write_tlv_ret out tag body = (r, out @ hdr tag (length bs) @ bs)"
proof (cases "length bs < 0x80")
  case True
  then show ?thesis
    using assms by (simp add: write_tlv_ret_def Let_def hdr_def len_octets_short list_update_append)
next
  case False
  let ?n = "length_len (length bs) - 1"
  have n: "?n \<le> 8" using length_len_long [of "length bs" 8] assms False by simp
  have oct: "drop (8 - ?n) (be_nat 8 (length bs)) = be_nat ?n (length bs)" by (rule drop_be_nat [OF n])
  have copy: "copy_within (out @ [Tag_byte tag, 0] @ bs @ replicate ?n 0) (length out + 2)
      (length out + 2 + length bs) (length out + 2 + ?n)
    = take (length out + 2 + ?n) (out @ [Tag_byte tag, 0] @ bs @ replicate ?n 0) @ bs"
    by (simp add: copy_within_def)
  have "write_tlv_ret out tag body =
    (let o2 = (take (length out + 2 + ?n) (out @ [Tag_byte tag, 0] @ bs @ replicate ?n 0) @ bs)
              [Suc (length out) := 0x80 OR of_nat ?n]
     in (r, take (length out + 2) o2 @ be_nat ?n (length bs) @ drop (length out + 2 + ?n) o2))"
    using assms(1) False copy oct
    by (simp add: write_tlv_ret_def Let_def add.commute add.left_commute del: be_nat.simps)
  also have "\<dots> = (r, out @ hdr tag (length bs) @ bs)"
    using False assms(2) by (simp add: Let_def hdr_def len_octets_long list_update_append)
  finally show ?thesis .
qed

text \<open>A whole TLV: the reference the writers and readers are compared with.\<close>

definition tlv :: "Tag \<Rightarrow> bytes \<Rightarrow> bytes" where
  "tlv tag bs = hdr tag (length bs) @ bs"

lemma length_tlv [simp]: "length bs < 2 ^ 64 \<Longrightarrow> length (tlv tag bs) = tlv_len (length bs)"
  by (simp add: tlv_def tlv_len_def)

lemma write_tlv_ret_tlv:
  "body (out @ [Tag_byte tag, 0]) = (r, out @ [Tag_byte tag, 0] @ bs) \<Longrightarrow> length bs < 2 ^ 64 \<Longrightarrow>
   write_tlv_ret out tag body = (r, out @ tlv tag bs)"
  unfolding tlv_def by (rule write_tlv_ret_eq)

lemma write_tlv_tlv:
  "body (out @ [Tag_byte tag, 0]) = out @ [Tag_byte tag, 0] @ bs \<Longrightarrow> length bs < 2 ^ 64 \<Longrightarrow>
   write_tlv out tag body = out @ tlv tag bs"
  using write_tlv_ret_tlv [of "\<lambda>out. ((), body out)" out tag "()" bs] by (simp add: write_tlv_def)

lemma Tag_byte_not_high: "Tag_byte tag AND 0x1F \<noteq> 0x1F"
  by (cases tag) simp_all

lemma Tag_from_byte_byte [simp]: "Tag_from_byte (Tag_byte tag) = Inr tag"
  by (cases tag) (simp_all add: Tag_from_byte_def)

lemma Tag_from_byte_Inr: "Tag_from_byte b = Inr tag \<longleftrightarrow> b = Tag_byte tag"
proof
  assume "Tag_from_byte b = Inr tag"
  then show "b = Tag_byte tag" by (auto simp: Tag_from_byte_def split: if_splits)
qed simp

lemma Tag_byte_inj: "Tag_byte s = Tag_byte t \<longleftrightarrow> s = t"
  by (metis Tag_from_byte_byte sum.inject(2))

section \<open>Reading a header back\<close>

lemma fold_shift8: "foldl (\<lambda>acc b. push_bit 8 acc OR unat b) a bs = foldl (\<lambda>acc b. acc * 256 + unat b) a bs"
  for bs :: bytes
proof (induction bs arbitrary: a)
  case (Cons b bs)
  have "push_bit 8 a OR unat b = a * 256 + unat b"
    using or_push_bit_nat [of "unat b" 8 a] unat_u8_less [of b] by simp
  with Cons show ?case by simp
qed simp

lemma fold_shift8_be_val: "foldl (\<lambda>acc b. push_bit 8 acc OR unat b) 0 bs = be_val bs" for bs :: bytes
  by (simp add: fold_shift8 be_val_def)

lemma raw_tlv_hdr:
  assumes "length bs < 2 ^ 32"
  shows "raw_tlv (hdr tag (length bs) @ bs @ rest) = Inr ((Tag_byte tag, bs), rest)"
proof (cases "length bs < 0x80")
  case True
  then have "unat (of_nat (length bs) :: u8) = length bs" by (intro unat_of_nat_small) simp
  with True show ?thesis
    by (simp add: raw_tlv_def hdr_def len_octets_short Tag_byte_not_high word_less_nat_alt)
next
  case False
  obtain k where kdef: "length_len (length bs) - 1 = k" by blast
  let ?f = "0x80 OR of_nat k :: u8"
  have k: "1 \<le> k" "k \<le> 4" "length bs < 256 ^ k"
    using length_len_long [of "length bs" 4] False assms kdef by simp_all
  have f: "unat ?f = 128 + k"
  proof -
    have "unat (of_nat k :: u8) = k" using k(2) by (intro unat_of_nat_small) simp
    then have "unat ((of_nat k :: u8) OR 0x80) = k + 128" using k(2) by (subst unat_or_80) simp_all
    then show ?thesis by (simp add: or.commute)
  qed
  then have "unat (?f AND 0x7F) = k" using k(2) by (simp add: unat_and_7F)
  moreover have "\<not> ?f < 0x80" using f by (simp add: word_less_nat_alt)
  moreover have "foldl (\<lambda>acc b. push_bit 8 acc OR unat b) 0 (be_nat k (length bs)) = length bs"
    using k(3) by (simp add: fold_shift8_be_val be_val_be_nat)
  moreover have "hdr tag (length bs) = Tag_byte tag # ?f # be_nat k (length bs)"
    using False assms kdef by (simp add: hdr_def len_octets_long)
  ultimately show ?thesis
    using k by (simp add: raw_tlv_def Tag_byte_not_high Let_def)
qed

lemma raw_tlv_Inr:
  assumes "raw_tlv inp = Inr ((tag, body), rest)"
  shows "\<exists>first more k len. inp = tag # first # more \<and> body = take len (drop k more)
    \<and> rest = drop len (drop k more)"
proof -
  obtain first more where inp: "inp = tag # first # more"
    using assms by (auto simp: raw_tlv_def sonda_simps Let_def split: list.splits if_splits)
  show ?thesis
  proof (cases "first < 0x80")
    case True
    with assms have "body = take (unat first) (drop 0 more)" "rest = drop (unat first) (drop 0 more)"
      by (auto simp: raw_tlv_def inp split: if_splits)
    with inp show ?thesis by blast
  next
    case False
    let ?k = "unat (first AND 0x7F)"
    let ?len = "foldl (\<lambda>acc b. push_bit 8 acc OR unat b) 0 (take ?k more)"
    from False assms have "body = take ?len (drop ?k more)" "rest = drop ?len (drop ?k more)"
      by (auto simp: raw_tlv_def inp Let_def split: if_splits)
    with inp show ?thesis by blast
  qed
qed

lemma raw_tlv_split:
  assumes "raw_tlv inp = Inr ((tag, body), rest)"
  shows "\<exists>h. inp = h @ body @ rest \<and> 2 \<le> length h \<and> hd h = tag"
proof -
  obtain first more k len where inp: "inp = tag # first # more"
    and r: "body = take len (drop k more)" "rest = drop len (drop k more)"
    using raw_tlv_Inr [OF assms] by blast
  have "more = take k more @ body @ rest" unfolding r by (metis append_take_drop_id)
  with inp have "inp = (tag # first # take k more) @ body @ rest" by simp
  moreover have "2 \<le> length (tag # first # take k more)" by simp
  ultimately show ?thesis by (metis list.sel(1))
qed

lemma raw_tlv_shorter: "raw_tlv inp = Inr ((tag, body), rest) \<Longrightarrow> length rest < length inp"
  using raw_tlv_split [of inp tag body rest] by fastforce

lemma raw_tlv_tlv:
  "length bs < 2 ^ 32 \<Longrightarrow> raw_tlv (tlv tag bs @ rest) = Inr ((Tag_byte tag, bs), rest)"
  using raw_tlv_hdr [of bs tag rest] by (simp add: tlv_def)

lemma expect_tlv: "length bs < 2 ^ 32 \<Longrightarrow> expect tag (tlv tag bs @ rest) = Inr (bs, rest)"
  by (simp only: expect_def raw_tlv_tlv) simp

lemma expect_tlv_end: "length bs < 2 ^ 32 \<Longrightarrow> expect tag (tlv tag bs) = Inr (bs, [])"
  using expect_tlv [of bs tag "[]"] by simp

lemma read_tlv_tlv: "length bs < 2 ^ 32 \<Longrightarrow> read_tlv (tlv tag bs @ rest) = Inr ((tag, bs), rest)"
  by (simp only: read_tlv_def raw_tlv_tlv) simp

lemma raw_tlv_tlv_end: "length bs < 2 ^ 32 \<Longrightarrow> raw_tlv (tlv tag bs) = Inr ((Tag_byte tag, bs), [])"
  using raw_tlv_tlv [of bs tag "[]"] by simp

lemma expect_split: "expect tag inp = Inr (body, rest) \<Longrightarrow> \<exists>h. inp = h @ body @ rest \<and> 2 \<le> length h"
  using raw_tlv_split by (fastforce simp: expect_def sonda_simps split: if_splits)

lemma expect_shorter: "expect tag inp = Inr (body, rest) \<Longrightarrow> length rest < length inp"
  using expect_split by fastforce

lemma write_header_tlv: "write_header out tag (length bs) @ bs = out @ tlv tag bs"
  by (simp add: write_header_eq tlv_def)

section \<open>Integers\<close>

lemma signed_span_loop_bounds: "start \<le> 7 \<Longrightarrow> start \<le> signed_span_loop bs start \<and> signed_span_loop bs start \<le> 7"
proof (induction bs start rule: signed_span_loop.induct)
  case (1 bs start)
  then show ?case by (fastforce simp: signed_span_loop.simps [of bs start] Let_def)
qed

lemma signed_span_loop_redundant:
  assumes "start \<le> i" and "i < signed_span_loop bs start"
  shows "(bs ! i = 0x00 \<and> bs ! (i + 1) AND 0x80 = 0) \<or> (bs ! i = 0xFF \<and> bs ! (i + 1) AND 0x80 \<noteq> 0)"
  using assms
proof (induction bs start rule: signed_span_loop.induct)
  case (1 bs start)
  show ?case
  proof (cases "start = i")
    case True
    with "1.prems" show ?thesis
      by (auto simp: signed_span_loop.simps [of bs i] Let_def split: if_splits)
  next
    case False
    with 1 show ?thesis
      by (auto simp: signed_span_loop.simps [of bs start] Let_def split: if_splits)
  qed
qed

lemma signed_span_loop_fill:
  assumes "i < signed_span_loop bs 0"
  shows "bs ! i = (if bs ! signed_span_loop bs 0 AND 0x80 \<noteq> 0 then 0xFF else 0)"
  using assms
proof (induction "signed_span_loop bs 0 - i" arbitrary: i)
  case (Suc d)
  let ?s = "signed_span_loop bs 0"
  have red: "(bs ! i = 0x00 \<and> bs ! (i + 1) AND 0x80 = 0) \<or> (bs ! i = 0xFF \<and> bs ! (i + 1) AND 0x80 \<noteq> 0)"
    using signed_span_loop_redundant [of 0 i bs] Suc.prems by simp
  show ?case
  proof (cases "i + 1 = ?s")
    case True
    then show ?thesis using red by auto
  next
    case False
    then have "bs ! (i + 1) = (if bs ! ?s AND 0x80 \<noteq> 0 then 0xFF else 0)"
      using Suc.hyps(1) [of "i + 1"] Suc.hyps(2) Suc.prems by simp
    then show ?thesis using red by (auto split: if_splits)
  qed
qed simp

lemma decode_signed_span:
  assumes "signed_span v = (bs, start)"
  shows "start \<le> 7" and "decode_i64 (drop start bs) = Inr v"
proof -
  have bs: "bs = to_be_bytes64 v" and start: "start = signed_span_loop bs 0"
    using assms by (auto simp: signed_span_def Let_def)
  show le: "start \<le> 7" using signed_span_loop_bounds [of 0 bs] start by simp
  have len: "length bs = 8" using bs by simp
  let ?fill = "if bs ! start AND 0x80 \<noteq> 0 then replicate 8 0xFF else replicate 8 (0 :: u8)"
  have "hd (drop start bs) = bs ! start" using le len by (simp add: hd_drop_conv_nth)
  moreover have "take start ?fill = take start bs"
    by (rule nth_equalityI) (use le len signed_span_loop_fill [of _ bs] start in auto)
  ultimately show "decode_i64 (drop start bs) = Inr v"
    using le len bs by (simp add: decode_i64_def Let_def)
qed

definition i64_octets :: "i64 \<Rightarrow> bytes" where
  "i64_octets v = (let (bs, start) = signed_span v in drop start bs)"

lemma signed_span_eq: "signed_span v = (to_be_bytes64 v, snd (signed_span v))"
  by (simp add: signed_span_def Let_def)

lemma length_i64_octets: "1 \<le> length (i64_octets v)" "length (i64_octets v) \<le> 8"
  using decode_signed_span(1) [OF signed_span_eq [of v]]
  by (auto simp: i64_octets_def case_prod_beta signed_span_def Let_def)

lemma decode_i64_octets: "decode_i64 (i64_octets v) = Inr v"
  using decode_signed_span(2) [OF signed_span_eq [of v]]
  by (simp add: i64_octets_def case_prod_beta signed_span_def Let_def)

lemma i64_len_eq: "i64_len v = tlv_len (length (i64_octets v))"
  by (simp add: i64_len_def i64_octets_def signed_span_def Let_def)

lemma write_i64_tlv: "write_i64 out tag v = out @ tlv tag (i64_octets v)"
  by (simp add: write_i64_def write_header_eq tlv_def i64_octets_def signed_span_def Let_def)

lemma length_write_i64 [simp]: "length (write_i64 out tag v) = length out + i64_len v"
  using length_i64_octets [of v] by (simp add: write_i64_tlv i64_len_eq)

lemma read_write_i64: "read_i64 tag (write_i64 [] tag v @ rest) = Inr (v, rest)"
proof -
  have "length (i64_octets v) < 2 ^ 32" using length_i64_octets [of v] by simp
  from expect_tlv [OF this] show ?thesis
    by (simp add: read_i64_def write_i64_tlv decode_i64_octets)
qed

lemma fold_shift8_u64:
  "length bs \<le> 8 \<Longrightarrow> foldl (\<lambda>acc b. push_bit 8 acc OR ucast b) 0 bs = (of_nat (be_val bs) :: u64)"
proof (induction bs rule: rev_induct)
  case (snoc b bs)
  have "length bs \<le> 7" using snoc.prems by simp
  then have "(256 :: nat) ^ length bs \<le> 256 ^ 7" by (intro power_increasing) simp_all
  then have small: "be_val bs < 2 ^ 56" using be_val_less [of bs] by simp
  then have v: "unat (of_nat (be_val bs) :: u64) = be_val bs" by (intro unat_of_nat_small) simp
  have "unat (push_bit 8 (of_nat (be_val bs)) :: u64) = push_bit 8 (be_val bs)"
    using small by (simp only: unsigned_push_bit_eq v) (simp add: push_bit_eq_mult take_bit_eq_mod)
  then have "unat (push_bit 8 (of_nat (be_val bs)) OR ucast b :: u64) = be_val bs * 2 ^ 8 + unat b"
    using or_push_bit_nat [of "unat b" 8 "be_val bs"] unat_u8_less [of b] by (simp only: unsigned_or_eq) simp
  also have "\<dots> = be_val (bs @ [b])" by (simp add: be_val_append be_val_Cons)
  finally have "push_bit 8 (of_nat (be_val bs)) OR ucast b = (of_nat (be_val (bs @ [b])) :: u64)"
    by (metis word_of_nat_unat)
  with snoc show ?case by simp
qed simp

lemma decode_u64_be_val: "bs \<noteq> [] \<Longrightarrow> length bs \<le> 8 \<Longrightarrow> decode_u64 bs = Inr (of_nat (be_val bs))"
  by (cases bs) (auto simp: decode_u64_def Let_def fold_shift8_u64 be_val_Cons simp del: foldl_Cons)

definition u64_octets :: "u64 \<Rightarrow> bytes" where
  "u64_octets v =
     (let bs = to_be_bytes64 v; start = min ((64 - bit_len (unat v)) div 8) 7
      in (if bs ! start AND 0x80 \<noteq> 0 then [0] else []) @ drop start bs)"

lemma write_u64_tlv: "write_u64 out tag v = out @ tlv tag (u64_octets v)"
proof -
  have "Suc (8 - min k 7) = 9 - min k 7" for k :: nat by (simp add: Suc_diff_le)
  then show ?thesis by (simp add: write_u64_def u64_octets_def Let_def write_header_eq tlv_def)
qed

lemma length_u64_octets: "1 \<le> length (u64_octets v)" "length (u64_octets v) \<le> 9"
  by (auto simp: u64_octets_def Let_def)

lemma decode_u64_octets: "decode_u64 (u64_octets v) = Inr v"
proof -
  let ?s = "min ((64 - bit_len (unat v)) div 8) 7"
  let ?d = "drop ?s (to_be_bytes64 v)"
  have s: "?s \<le> 7" by simp
  have "?d = be_nat (8 - ?s) (unat v)"
    using drop_be_nat [of "8 - ?s" 8 "unat v"] s by (simp add: to_be_bytes64_def del: be_nat.simps)
  moreover have "unat v < 256 ^ (8 - ?s)"
  proof -
    have "bit_len (unat v) \<le> 64" using unat_u64_less [of v] by (simp only: bit_len_le_iff)
    then have "bit_len (unat v) \<le> 8 * (8 - ?s)" by (simp add: min_def) presburger
    then have "unat v < 2 ^ (8 * (8 - ?s))" by (simp only: bit_len_le_iff)
    moreover have "(2 :: nat) ^ (8 * n) = 256 ^ n" for n by (simp add: power_mult)
    ultimately show ?thesis by (simp only:)
  qed
  ultimately have val: "be_val ?d = unat v" by (simp add: be_val_be_nat)
  have d: "?d \<noteq> []" "length ?d \<le> 8" using s by (auto simp: less_Suc_eq_le)
  then have "decode_u64 ?d = Inr v" using decode_u64_be_val [OF d] val by simp
  moreover have "decode_u64 (0 # ?d) = Inr v"
    using d val by (simp add: decode_u64_def fold_shift8_u64)
  ultimately show ?thesis by (simp add: u64_octets_def Let_def)
qed

lemma read_write_u64: "read_u64 tag (write_u64 [] tag v @ rest) = Inr (v, rest)"
proof -
  have "length (u64_octets v) < 2 ^ 32" using length_u64_octets [of v] by simp
  from expect_tlv [OF this] show ?thesis
    by (simp add: read_u64_def write_u64_tlv decode_u64_octets)
qed

lemma signed_span_minimal:
  assumes "signed_span v = (bs, start)" and "start < 7"
  shows "\<not> (bs ! start = 0x00 \<and> bs ! (start + 1) AND 0x80 = 0)"
    and "\<not> (bs ! start = 0xFF \<and> bs ! (start + 1) AND 0x80 \<noteq> 0)"
proof -
  have stop: "\<not> ((bs ! start = 0x00 \<and> bs ! (start + 1) AND 0x80 = 0)
      \<or> (bs ! start = 0xFF \<and> bs ! (start + 1) AND 0x80 \<noteq> 0))"
    if "start = signed_span_loop bs i" "start < 7" for i
    using that
  proof (induction bs i rule: signed_span_loop.induct)
    case (1 bs i)
    then show ?case
      by (auto simp: signed_span_loop.simps [of bs i] Let_def split: if_splits)
  qed
  have "start = signed_span_loop bs 0" using assms(1) by (auto simp: signed_span_def Let_def)
  from stop [OF this assms(2)] show "\<not> (bs ! start = 0x00 \<and> bs ! (start + 1) AND 0x80 = 0)"
    and "\<not> (bs ! start = 0xFF \<and> bs ! (start + 1) AND 0x80 \<noteq> 0)" by blast+
qed

section \<open>Codecs\<close>

text \<open>Read exactly \<open>n\<close> values.\<close>

fun read_n :: "'a reader \<Rightarrow> nat \<Rightarrow> 'a list reader" where
  "read_n rd 0 inp = Inr ([], inp)"
| "read_n rd (Suc n) inp = rbind (rd inp) (\<lambda>(x, rest). rbind (read_n rd n rest) (\<lambda>(xs, rest). Inr (x # xs, rest)))"

locale tlv_codec =
  fixes put :: "'a \<Rightarrow> bytes" and rd :: "bytes \<Rightarrow> BerError + ('a \<times> bytes)" and ok :: "'a \<Rightarrow> bool"
  assumes rd_put: "ok x \<Longrightarrow> rd (put x @ rest) = Inr (x, rest)"
begin

lemma prefix_free: "ok x \<Longrightarrow> ok y \<Longrightarrow> put x @ r = put y @ s \<Longrightarrow> x = y \<and> r = s"
  by (metis Pair_inject rd_put sum.inject(2))

lemma put_inj: "ok x \<Longrightarrow> ok y \<Longrightarrow> put x = put y \<longleftrightarrow> x = y"
  using prefix_free [of x y "[]" "[]"] by auto

lemma read_n_put: "list_all ok xs \<Longrightarrow> read_n rd (length xs) (concat (map put xs) @ rest) = Inr (xs, rest)"
  by (induction xs) (simp_all add: rd_put)

end

interpretation i64_codec: tlv_codec "write_i64 [] tag" "read_i64 tag" "\<lambda>_. True" for tag
  by unfold_locales (rule read_write_i64)

interpretation u64_codec: tlv_codec "write_u64 [] tag" "read_u64 tag" "\<lambda>_. True" for tag
  by unfold_locales (rule read_write_u64)

lemma write_octets_tlv: "write_octets out tag bs = out @ tlv tag bs"
  by (simp add: write_octets_def write_header_tlv)

interpretation octets_codec: tlv_codec "write_octets [] tag" "read_octets tag" "\<lambda>bs. length bs < 2 ^ 32" for tag
  by unfold_locales (simp only: write_octets_tlv read_octets_def append.simps expect_tlv)

definition oid_body :: "Oid \<Rightarrow> bytes" where
  "oid_body oid = write_ber_body (oid_arcs oid) []"

definition oid_wire_ok :: "Oid \<Rightarrow> bool" where
  "oid_wire_ok oid \<longleftrightarrow> arcs_foldable (oid_arcs oid) \<and> length (oid_body oid) < 2 ^ 32"

lemma length_oid_body: "length (oid_body oid) = ber_body_len (oid_arcs oid)"
  by (simp add: oid_body_def length_write_ber_body)

lemma subidentifier_len_small: "subidentifier_len v \<le> 10"
proof -
  have "unat v < 128 ^ 10" by (rule less_trans [OF unat_u64_less]) simp
  then show ?thesis by (simp add: subidentifier_len_le del: power_numeral)
qed

lemma oid_body_small: "length (oid_body oid) \<le> 10 + 10 * length (oid_arcs oid)"
proof -
  have "sum_list (map (\<lambda>arc. subidentifier_len (ucast arc)) xs) \<le> 10 * length xs" for xs :: "u32 list"
  proof (induction xs)
    case (Cons a xs)
    then show ?case using subidentifier_len_small [of "ucast a"] by simp
  qed simp
  from this [of "drop 2 (oid_arcs oid)"] show ?thesis
    using subidentifier_len_small [of "first_subidentifier (oid_arcs oid)"]
    by (simp add: length_oid_body ber_body_len_def)
qed

lemma write_ber_body_append: "write_ber_body as out = out @ write_ber_body as []"
  by (simp add: write_ber_body_enc)

lemma write_oid_tlv: "write_oid out oid = out @ tlv Tag_Oid (oid_body oid)"
  unfolding write_oid_def write_header_eq tlv_def length_oid_body
  by (subst write_ber_body_append) (simp add: oid_body_def)

lemma Oid_from_oid_body: "arcs_foldable (oid_arcs oid) \<Longrightarrow> Oid_from_ber_body (oid_body oid) = Some oid"
  by (cases oid) (simp add: oid_body_def Oid_from_ber_body_def decode_ber_body_iff)

lemma decode_oid_body: "arcs_foldable (oid_arcs oid) \<Longrightarrow> decode_ber_body (oid_body oid) = Some (oid_arcs oid)"
  by (simp add: oid_body_def decode_ber_body_iff)

interpretation oid_codec: tlv_codec "write_oid []" read_oid oid_wire_ok
  by unfold_locales
     (simp add: read_oid_def write_oid_tlv Oid_from_oid_body oid_wire_ok_def expect_tlv del: power_numeral)

interpretation null_codec: tlv_codec "\<lambda>_ :: unit. write_null []" read_null "\<lambda>_. True"
  by unfold_locales (simp add: write_null_def read_null_def expect_def raw_tlv_def)

text \<open>A varbind on the wire: a SEQUENCE of an OID and one value TLV.\<close>

definition varbind_octets :: "bytes \<Rightarrow> bytes \<Rightarrow> bytes" where
  "varbind_octets name v = tlv Tag_Sequence (tlv Tag_Oid name @ v)"

lemma write_varbind_octets:
  assumes "length (oid_body oid) < 2 ^ 64"
  shows "write_varbind out oid v = out @ varbind_octets (oid_body oid) v"
proof -
  have "tlv_len (ber_body_len (oid_arcs oid)) + length v = length (tlv Tag_Oid (oid_body oid) @ v)"
    using assms by (simp add: length_oid_body)
  then show ?thesis
    by (simp only: write_varbind_def Let_def write_oid_tlv append_assoc write_header_eq
        varbind_octets_def tlv_def)
qed

lemma tlv_len_less: "n < 2 ^ 30 \<Longrightarrow> tlv_len n < 2 ^ 30 + 6"
  using length_len_long [of n 4] by (cases "n < 0x80") (simp_all add: length_len_def tlv_len_def)

lemma read_one_varbind:
  assumes "length name < 2 ^ 30" and "length v < 2 ^ 30"
  shows "read_one (varbind_octets name (tlv tag v) @ rest)
    = Inr (\<lparr> vb_oid = name, vb_value_tag = Tag_byte tag, vb_value = v \<rparr>, rest)"
proof -
  have len: "length (tlv Tag_Oid name @ tlv tag v) < 2 ^ 32"
    using assms tlv_len_less [OF assms(1)] tlv_len_less [OF assms(2)] by simp
  have small: "length name < 2 ^ 32" "length v < 2 ^ 32" using assms by simp_all
  show ?thesis
    by (simp add: read_one_def varbind_octets_def expect_tlv [OF len] expect_tlv [OF small(1)]
        raw_tlv_tlv_end [OF small(2)])
qed

definition put_varbind :: "Oid \<times> Tag \<times> bytes \<Rightarrow> bytes" where
  "put_varbind = (\<lambda>(oid, tag, v). write_varbind [] oid (write_octets [] tag v))"

definition read_named :: "(Oid \<times> Tag \<times> bytes) reader" where
  "read_named inp = rbind (read_one inp) (\<lambda>(vb, rest).
     rbind (VarBind_name vb) (\<lambda>oid. rbind (Tag_from_byte (vb_value_tag vb)) (\<lambda>tag.
       Inr ((oid, tag, vb_value vb), rest))))"

definition varbind_wire_ok :: "Oid \<times> Tag \<times> bytes \<Rightarrow> bool" where
  "varbind_wire_ok = (\<lambda>(oid, tag, v).
     arcs_foldable (oid_arcs oid) \<and> length (oid_body oid) < 2 ^ 30 \<and> length v < 2 ^ 30)"

interpretation varbind_codec: tlv_codec put_varbind read_named varbind_wire_ok
proof
  fix x rest
  assume ok: "varbind_wire_ok x"
  obtain oid tag v where x: "x = (oid, tag, v)" by (metis prod.exhaust)
  have len: "length (oid_body oid) < 2 ^ 30" "length v < 2 ^ 30"
    and fold: "arcs_foldable (oid_arcs oid)" using ok by (simp_all add: x varbind_wire_ok_def)
  have "length (oid_body oid) < 2 ^ 64" using len(1) by simp
  then have put: "put_varbind x = varbind_octets (oid_body oid) (tlv tag v)"
    by (simp add: x put_varbind_def write_varbind_octets write_octets_tlv del: power_numeral)
  show "read_named (put_varbind x @ rest) = Inr (x, rest)"
    unfolding read_named_def put read_one_varbind [OF len]
    by (simp add: VarBind_name_def Oid_from_oid_body [OF fold] x)
qed

section \<open>Messages\<close>

definition pdu_fields :: "i64 \<Rightarrow> i64 \<Rightarrow> i64 \<Rightarrow> bytes" where
  "pdu_fields rid st ix = tlv Tag_Integer (i64_octets rid) @ tlv Tag_Integer (i64_octets st) @ tlv Tag_Integer (i64_octets ix)"

definition pdu_octets :: "Tag \<Rightarrow> i64 \<Rightarrow> i64 \<Rightarrow> i64 \<Rightarrow> bytes \<Rightarrow> bytes" where
  "pdu_octets pdu rid st ix vbs = tlv pdu (pdu_fields rid st ix @ tlv Tag_Sequence vbs)"

definition message_octets :: "i64 \<Rightarrow> bytes \<Rightarrow> Tag \<Rightarrow> i64 \<Rightarrow> i64 \<Rightarrow> i64 \<Rightarrow> bytes \<Rightarrow> bytes" where
  "message_octets version community pdu rid st ix vbs =
     tlv Tag_Sequence (tlv Tag_Integer (i64_octets version) @ tlv Tag_OctetString community
       @ pdu_octets pdu rid st ix vbs)"

text \<open>Where the varbinds of a message are written: after the headers, their lengths still open.\<close>

definition pdu_prefix :: "bytes \<Rightarrow> Tag \<Rightarrow> i64 \<Rightarrow> i64 \<Rightarrow> i64 \<Rightarrow> bytes" where
  "pdu_prefix out pdu rid st ix = (out @ [Tag_byte pdu, 0] @ pdu_fields rid st ix) @ [Tag_byte Tag_Sequence, 0]"

definition message_prefix :: "bytes \<Rightarrow> i64 \<Rightarrow> bytes \<Rightarrow> Tag \<Rightarrow> i64 \<Rightarrow> i64 \<Rightarrow> i64 \<Rightarrow> bytes" where
  "message_prefix out version community pdu rid st ix =
     pdu_prefix (out @ [Tag_byte Tag_Sequence, 0] @ tlv Tag_Integer (i64_octets version)
       @ tlv Tag_OctetString community) pdu rid st ix"

definition write_pdu_ret :: "bytes \<Rightarrow> Tag \<Rightarrow> i64 \<Rightarrow> i64 \<Rightarrow> i64 \<Rightarrow> (bytes \<Rightarrow> 'r \<times> bytes) \<Rightarrow> 'r \<times> bytes" where
  "write_pdu_ret out pdu rid st ix varbinds =
     write_tlv_ret out pdu (\<lambda>out.
       let out = write_i64 out Tag_Integer rid;
           out = write_i64 out Tag_Integer st;
           out = write_i64 out Tag_Integer ix
       in write_tlv_ret out Tag_Sequence varbinds)"

lemma tlv_len_ge: "n \<le> tlv_len n"
  by (simp add: tlv_len_def)

lemma length_pdu_fields [simp]: "length (pdu_fields rid st ix) = i64_len rid + i64_len st + i64_len ix"
  using length_i64_octets [of rid] length_i64_octets [of st] length_i64_octets [of ix]
  by (simp add: pdu_fields_def i64_len_eq)

lemma i64_len_small: "i64_len v \<le> 10"
  using length_i64_octets [of v] by (simp add: i64_len_eq tlv_len_def length_len_def)

definition pdu_len :: "i64 \<Rightarrow> i64 \<Rightarrow> i64 \<Rightarrow> nat \<Rightarrow> nat" where
  "pdu_len rid st ix n = tlv_len (i64_len rid + i64_len st + i64_len ix + tlv_len n)"

lemma length_pdu_octets:
  "pdu_len rid st ix (length vbs) < 2 ^ 64 \<Longrightarrow> length (pdu_octets pdu rid st ix vbs) = pdu_len rid st ix (length vbs)"
  using tlv_len_ge [of "length vbs"] tlv_len_ge [of "i64_len rid + i64_len st + i64_len ix + tlv_len (length vbs)"]
  by (simp add: pdu_octets_def pdu_len_def)

lemma length_message_octets:
  assumes "message_len version community rid st ix (length vbs) < 2 ^ 64"
  shows "length (message_octets version community pdu rid st ix vbs)
    = message_len version community rid st ix (length vbs)"
proof -
  let ?body = "i64_len version + tlv_len (length community) + pdu_len rid st ix (length vbs)"
  have m: "message_len version community rid st ix (length vbs) = tlv_len ?body"
    by (simp add: message_len_def pdu_len_def Let_def add.assoc)
  have body: "?body < 2 ^ 64" using assms tlv_len_ge [of ?body] by (simp add: m)
  have "length (tlv Tag_Integer (i64_octets version)) = i64_len version"
    using length_i64_octets [of version] by (simp add: i64_len_eq)
  moreover have "length (tlv Tag_OctetString community) = tlv_len (length community)"
    using body tlv_len_ge [of "length community"] by simp
  moreover have "length (pdu_octets pdu rid st ix vbs) = pdu_len rid st ix (length vbs)"
    using body by (intro length_pdu_octets) simp
  ultimately show ?thesis unfolding message_octets_def m by (subst length_tlv) (use body in \<open>simp_all add: add.assoc\<close>)
qed

lemma write_pdu_ret_eq:
  assumes "varbinds (pdu_prefix out pdu rid st ix) = (r, pdu_prefix out pdu rid st ix @ vbs)"
    and "pdu_len rid st ix (length vbs) < 2 ^ 64"
  shows "write_pdu_ret out pdu rid st ix varbinds = (r, out @ pdu_octets pdu rid st ix vbs)"
  unfolding write_pdu_ret_def pdu_octets_def
proof (rule write_tlv_ret_tlv)
  have n: "i64_len rid + i64_len st + i64_len ix + tlv_len (length vbs) < 2 ^ 64"
    using assms(2) tlv_len_ge [of "i64_len rid + i64_len st + i64_len ix + tlv_len (length vbs)"]
    by (simp add: pdu_len_def)
  then have vbs: "length vbs < 2 ^ 64" using tlv_len_ge [of "length vbs"] by simp
  have "write_tlv_ret (out @ [Tag_byte pdu, 0] @ pdu_fields rid st ix) Tag_Sequence varbinds
      = (r, (out @ [Tag_byte pdu, 0] @ pdu_fields rid st ix) @ tlv Tag_Sequence vbs)"
    by (rule write_tlv_ret_tlv) (use assms(1) vbs in \<open>simp_all add: pdu_prefix_def\<close>)
  then show "(let out = write_i64 (out @ [Tag_byte pdu, 0]) Tag_Integer rid;
        out = write_i64 out Tag_Integer st; out = write_i64 out Tag_Integer ix
      in write_tlv_ret out Tag_Sequence varbinds)
    = (r, out @ [Tag_byte pdu, 0] @ pdu_fields rid st ix @ tlv Tag_Sequence vbs)"
    by (simp add: Let_def write_i64_tlv pdu_fields_def)
  show "length (pdu_fields rid st ix @ tlv Tag_Sequence vbs) < 2 ^ 64" using n vbs by simp
qed

lemma write_message_ret_eq:
  assumes "varbinds (message_prefix out version community pdu rid st ix)
      = (r, message_prefix out version community pdu rid st ix @ vbs)"
    and "message_len version community rid st ix (length vbs) < 2 ^ 64"
  shows "write_message_ret out version community pdu rid st ix varbinds
    = (r, out @ message_octets version community pdu rid st ix vbs)"
  unfolding write_message_ret_def message_octets_def
proof (rule write_tlv_ret_tlv)
  let ?o = "out @ [Tag_byte Tag_Sequence, 0] @ tlv Tag_Integer (i64_octets version)
       @ tlv Tag_OctetString community"
  let ?body = "i64_len version + tlv_len (length community) + pdu_len rid st ix (length vbs)"
  have body: "?body < 2 ^ 64"
    using assms(2) tlv_len_ge [of ?body] by (simp add: message_len_def pdu_len_def Let_def add.assoc)
  then have p: "pdu_len rid st ix (length vbs) < 2 ^ 64" by simp
  have "write_pdu_ret ?o pdu rid st ix varbinds = (r, ?o @ pdu_octets pdu rid st ix vbs)"
    by (rule write_pdu_ret_eq [OF _ p]) (use assms(1) in \<open>simp add: message_prefix_def\<close>)
  then show "(let out = write_i64 (out @ [Tag_byte Tag_Sequence, 0]) Tag_Integer version;
          out = write_octets out Tag_OctetString community
      in write_tlv_ret out pdu (\<lambda>out.
          let out = write_i64 out Tag_Integer rid; out = write_i64 out Tag_Integer st;
              out = write_i64 out Tag_Integer ix
          in write_tlv_ret out Tag_Sequence varbinds))
    = (r, out @ [Tag_byte Tag_Sequence, 0] @ tlv Tag_Integer (i64_octets version)
         @ tlv Tag_OctetString community @ pdu_octets pdu rid st ix vbs)"
    by (simp add: Let_def write_i64_tlv write_octets_tlv write_pdu_ret_def)
  have "length (tlv Tag_Integer (i64_octets version)) = i64_len version"
    using length_i64_octets [of version] by (simp add: i64_len_eq)
  moreover have "length (tlv Tag_OctetString community) = tlv_len (length community)"
    using body tlv_len_ge [of "length community"] by simp
  ultimately show "length (tlv Tag_Integer (i64_octets version) @ tlv Tag_OctetString community
      @ pdu_octets pdu rid st ix vbs) < 2 ^ 64"
    using body length_pdu_octets [OF p] by simp
qed

lemma message_len_small:
  assumes "length community < 2 ^ 20" and "n < 2 ^ 20"
  shows "message_len version community rid st ix n < 2 ^ 32"
proof -
  have t: "tlv_len m \<le> m + 6" if "m < 2 ^ 30" for m
    using length_len_long [of m 4] that by (cases "m < 0x80") (simp_all add: length_len_def tlv_len_def)
  have p: "i64_len rid + i64_len st + i64_len ix + tlv_len n \<le> n + 36"
    using t [of n] assms(2) i64_len_small [of rid] i64_len_small [of st] i64_len_small [of ix] by simp
  then have "tlv_len (i64_len rid + i64_len st + i64_len ix + tlv_len n) \<le> n + 42"
    using t [of "i64_len rid + i64_len st + i64_len ix + tlv_len n"] assms(2) by simp
  then have "i64_len version + tlv_len (length community)
      + tlv_len (i64_len rid + i64_len st + i64_len ix + tlv_len n) \<le> length community + n + 58"
    using t [of "length community"] assms(1) i64_len_small [of version] by simp
  then show ?thesis
    using t [of "i64_len version + tlv_len (length community)
      + tlv_len (i64_len rid + i64_len st + i64_len ix + tlv_len n)"] assms
    by (simp add: message_len_def Let_def)
qed

lemma read_i64_tlv: "read_i64 tag (tlv tag (i64_octets v) @ rest) = Inr (v, rest)"
  using read_write_i64 [of tag v rest] by (simp add: write_i64_tlv)

lemma Message_decode_octets:
  assumes "version = 0 \<or> version = 1" and "Tag_is_pdu pdu"
    and "message_len version community rid st ix (length vbs) < 2 ^ 32"
  shows "Message_decode (message_octets version community pdu rid st ix vbs)
    = Inr \<lparr> msg_version = version, msg_community = community, msg_pdu = pdu, msg_request_id = rid,
            msg_error_status = st, msg_error_index = ix, msg_varbinds = vbs \<rparr>"
proof -
  let ?body = "i64_len version + tlv_len (length community) + pdu_len rid st ix (length vbs)"
  have "tlv_len ?body < 2 ^ 32"
    using assms(3) by (simp add: message_len_def pdu_len_def Let_def add.assoc)
  then have body: "?body < 2 ^ 32" using tlv_len_ge [of ?body] by simp
  have pdu: "i64_len rid + i64_len st + i64_len ix + tlv_len (length vbs) < 2 ^ 32"
    using body tlv_len_ge [of "i64_len rid + i64_len st + i64_len ix + tlv_len (length vbs)"]
    by (simp add: pdu_len_def)
  have vbs: "length vbs < 2 ^ 32" using pdu tlv_len_ge [of "length vbs"] by simp
  have com: "length community < 2 ^ 32" using body tlv_len_ge [of "length community"] by simp
  have vlen: "length (tlv Tag_Integer (i64_octets version)) = i64_len version"
    using length_i64_octets [of version] by (simp add: i64_len_eq)
  let ?pb = "pdu_fields rid st ix @ tlv Tag_Sequence vbs"
  have pb: "length ?pb < 2 ^ 32" using pdu vbs by simp
  have po: "length (pdu_octets pdu rid st ix vbs) = pdu_len rid st ix (length vbs)"
    using body by (intro length_pdu_octets) simp
  let ?mb = "tlv Tag_Integer (i64_octets version) @ tlv Tag_OctetString community
       @ pdu_octets pdu rid st ix vbs"
  have mb: "length ?mb < 2 ^ 32" using body vlen po com by simp
  have 1: "expect Tag_Sequence (message_octets version community pdu rid st ix vbs) = Inr (?mb, [])"
    unfolding message_octets_def by (rule expect_tlv_end [OF mb])
  have 2: "expect Tag_OctetString (tlv Tag_OctetString community @ pdu_octets pdu rid st ix vbs)
      = Inr (community, pdu_octets pdu rid st ix vbs)" by (rule expect_tlv [OF com])
  have 3: "read_tlv (pdu_octets pdu rid st ix vbs) = Inr ((pdu, ?pb), [])"
    using read_tlv_tlv [OF pb, of pdu "[]"] by (simp add: pdu_octets_def)
  show ?thesis
    using assms(1,2)
    by (auto simp: Message_decode_def 1 2 3 read_i64_tlv read_octets_def pdu_fields_def
        expect_tlv_end [OF vbs])
qed

section \<open>Properties\<close>

text \<open>
  C9: the back-patching writer equals the reference that writes the header first: for a body that
  appends \<open>bs\<close>, \<open>write_tlv\<close> leaves the tag, the definite length of \<open>bs\<close> and \<open>bs\<close>, in the short and
  in the long form, and \<open>tlv_len\<close> is the number of octets it adds.
\<close>

theorem write_tlv_header:
  assumes "body (out @ [Tag_byte tag, 0]) = out @ [Tag_byte tag, 0] @ bs" and "length bs < 2 ^ 64"
  shows "write_tlv out tag body = write_header out tag (length bs) @ bs
    \<and> length (write_tlv out tag body) = length out + tlv_len (length bs)"
  using write_tlv_tlv [of body out tag bs] assms by (simp add: write_header_tlv)

theorem write_tlv_header_witness:
  "write_tlv [1] Tag_Sequence (\<lambda>out. out @ replicate 200 7)
     = write_header [1] Tag_Sequence (length (replicate 200 (7 :: u8))) @ replicate 200 7
   \<and> length (write_tlv [1] Tag_Sequence (\<lambda>out. out @ replicate 200 7))
     = length [1 :: u8] + tlv_len (length (replicate 200 (7 :: u8)))"
  by (rule write_tlv_header) simp_all

text \<open>
  Integers survive the wire at their full width: every \<open>i64\<close> and every \<open>u64\<close> written under a
  tag is read back under it, whatever follows, and \<open>i64_len\<close> is what \<open>write_i64\<close> adds.
\<close>

theorem integers_roundtrip:
  "read_i64 tag (write_i64 [] tag v @ rest) = Inr (v, rest)
   \<and> read_u64 tag (write_u64 [] tag w @ rest) = Inr (w, rest)
   \<and> length (write_i64 out tag v) = length out + i64_len v"
  by (simp add: i64_codec.rd_put u64_codec.rd_put)

text \<open>
  A list of varbinds, each an OID and a value, is read back from its encoding in order, and
  whatever follows the list is left unread.
\<close>

theorem varbinds_roundtrip:
  assumes "list_all varbind_wire_ok vbs"
  shows "read_n read_named (length vbs) (concat (map put_varbind vbs) @ rest) = Inr (vbs, rest)"
  using assms by (rule varbind_codec.read_n_put)

theorem varbinds_roundtrip_witness:
  "read_n read_named (length [(Oid [1, 3, 6], Tag_Integer, [5 :: u8])])
     (concat (map put_varbind [(Oid [1, 3, 6], Tag_Integer, [5 :: u8])]) @ [9])
   = Inr ([(Oid [1, 3, 6], Tag_Integer, [5 :: u8])], [9])"
proof (rule varbinds_roundtrip)
  have "length (oid_body (Oid [1, 3, 6])) < 2 ^ 30"
    using oid_body_small [of "Oid [1, 3, 6]"] by simp
  then show "list_all varbind_wire_ok [(Oid [1, 3, 6], Tag_Integer, [5 :: u8])]"
    by (simp add: varbind_wire_ok_def)
qed

text \<open>
  C13: an SNMPv1 or SNMPv2c message decodes to the fields it was written with, its varbinds being
  whatever the closure appended, and \<open>message_len\<close> is the number of octets written.
\<close>

theorem message_roundtrip:
  assumes "varbinds (message_prefix [] version community pdu rid st ix)
      = (r, message_prefix [] version community pdu rid st ix @ vbs)"
    and "version = 0 \<or> version = 1" and "Tag_is_pdu pdu"
    and "message_len version community rid st ix (length vbs) < 2 ^ 32"
  shows "case write_message_ret [] version community pdu rid st ix varbinds of (r', out) \<Rightarrow>
     r' = r \<and> length out = message_len version community rid st ix (length vbs)
     \<and> Message_decode out = Inr \<lparr> msg_version = version, msg_community = community, msg_pdu = pdu,
         msg_request_id = rid, msg_error_status = st, msg_error_index = ix, msg_varbinds = vbs \<rparr>"
proof -
  have len: "message_len version community rid st ix (length vbs) < 2 ^ 64" using assms(4) by simp
  show ?thesis
    using write_message_ret_eq [of varbinds "[]" version community pdu rid st ix r vbs, OF assms(1) len]
      length_message_octets [OF len] Message_decode_octets [OF assms(2-4)] by simp
qed

theorem message_roundtrip_witness:
  "case write_message_ret [] 1 [112] Tag_GetRequest 42 0 0 (\<lambda>out. (True, out @ [48, 0])) of (r, out) \<Rightarrow>
     r = True \<and> length out = message_len 1 [112] 42 0 0 (length [48, 0 :: u8])
     \<and> Message_decode out = Inr \<lparr> msg_version = 1, msg_community = [112], msg_pdu = Tag_GetRequest,
         msg_request_id = 42, msg_error_status = 0, msg_error_index = 0, msg_varbinds = [48, 0] \<rparr>"
proof (rule message_roundtrip)
  show "message_len 1 [112] 42 0 0 (length [48, 0 :: u8]) < 2 ^ 32"
    by (rule message_len_small) simp_all
qed (simp_all add: Tag_is_pdu_def)

end
