(* ===== verification/Socket.thy ===== *)
theory Socket
  imports Prelude
begin

text \<open>
  Listen addresses, the free functions of \<open>sonda-core/src/sink/listener_registry.rs\<close>: when two
  listeners contend for one port. An address is its IP and its port; the flow and scope of an
  IPv6 socket address are not modelled. The lemmas show that contention is symmetric and decided
  by the canonical addresses alone.
\<close>

section \<open>Addresses\<close>

type_synonym u16 = "16 word"

datatype IpAddr = V4 u32 | V6 "128 word"

record SocketAddr =
  sa_ip :: IpAddr
  sa_port :: u16

text \<open>\<open>IpAddr::to_canonical\<close>: an IPv4-mapped address, \<open>::ffff:a.b.c.d\<close>, as the IPv4 address.\<close>

fun to_canonical :: "IpAddr \<Rightarrow> IpAddr" where
  "to_canonical (V4 a) = V4 a"
| "to_canonical (V6 a) = (if drop_bit 32 a = 0xFFFF then V4 (ucast a) else V6 a)"

fun is_unspecified :: "IpAddr \<Rightarrow> bool" where
  "is_unspecified (V4 a) \<longleftrightarrow> a = 0"
| "is_unspecified (V6 a) \<longleftrightarrow> a = 0"

fun is_ipv6 :: "IpAddr \<Rightarrow> bool" where
  "is_ipv6 (V4 a) = False"
| "is_ipv6 (V6 a) = True"

definition canonical :: "SocketAddr \<Rightarrow> SocketAddr" where
  "canonical addr = \<lparr> sa_ip = to_canonical (sa_ip addr), sa_port = sa_port addr \<rparr>"

definition covers :: "SocketAddr \<Rightarrow> SocketAddr \<Rightarrow> bool" where
  "covers wild other =
     (let wild = canonical wild; other = canonical other
      in sa_port wild \<noteq> 0 \<and> sa_port wild = sa_port other \<and> is_unspecified (sa_ip wild)
         \<and> (is_ipv6 (sa_ip wild) \<or> \<not> is_ipv6 (sa_ip other)))"

definition listen_overlap :: "SocketAddr \<Rightarrow> SocketAddr \<Rightarrow> bool" where
  "listen_overlap a b =
     (let a = canonical a; b = canonical b
      in if sa_port a = 0 \<or> sa_port a \<noteq> sa_port b then False
         else a = b \<or> covers a b \<or> covers b a)"

lemma to_canonical_idem [simp]: "to_canonical (to_canonical ip) = to_canonical ip"
  by (cases ip) auto

lemma canonical_idem [simp]: "canonical (canonical a) = canonical a"
  by (simp add: canonical_def)

lemma sa_port_canonical [simp]: "sa_port (canonical a) = sa_port a"
  by (simp add: canonical_def)

lemma covers_canonical [simp]: "covers (canonical a) b = covers a b" "covers a (canonical b) = covers a b"
  by (simp_all add: covers_def)

lemma listen_overlap_sym: "listen_overlap a b = listen_overlap b a"
  by (auto simp: listen_overlap_def Let_def)

lemma listen_overlap_refl: "listen_overlap a a \<longleftrightarrow> sa_port a \<noteq> 0"
  by (simp add: listen_overlap_def Let_def)

lemma covers_overlap: "covers a b \<Longrightarrow> listen_overlap a b"
  by (auto simp: listen_overlap_def Let_def) (auto simp: covers_def Let_def)

end
