(* ===== verification/Snmp_Config.thy ===== *)
theory Snmp_Config
  imports Util Ber_Codec Socket "HOL-Library.Multiset"
begin

text \<open>
  The configuration of an SNMP agent, \<open>sonda-core/src/sink/snmp/mod.rs\<close>: the versions, the SNMPv3
  users and their protocols, and \<open>settings\<close>, the one place where a configuration is checked.

  \<open>SocketAddr::from_str\<close> is an argument of \<open>settings\<close>. The lemmas show what every accepted
  configuration satisfies (\<open>settings_ok\<close>), that \<open>serves\<close> is equality of everything but the
  address, and that an engine ID reads back from its hexadecimal text.
\<close>

section \<open>Configuration\<close>

datatype SnmpVersion = Snmp_V1 | Snmp_V2c | Snmp_V3

datatype AuthProtocol = Md5 | Sha1 | Sha224 | Sha256 | Sha384 | Sha512

datatype PrivProtocol = Des | Aes128 | Aes192 | Aes192c | Aes256 | Aes256c

fun AuthProtocol_name :: "AuthProtocol \<Rightarrow> string" where
  "AuthProtocol_name Md5 = ''md5''"
| "AuthProtocol_name Sha1 = ''sha1''"
| "AuthProtocol_name Sha224 = ''sha224''"
| "AuthProtocol_name Sha256 = ''sha256''"
| "AuthProtocol_name Sha384 = ''sha384''"
| "AuthProtocol_name Sha512 = ''sha512''"

definition AuthProtocol_from_name :: "string \<Rightarrow> AuthProtocol option" where
  "AuthProtocol_from_name name =
     (if name = ''md5'' then Some Md5
      else if name = ''sha'' \<or> name = ''sha1'' then Some Sha1
      else if name = ''sha224'' then Some Sha224
      else if name = ''sha256'' then Some Sha256
      else if name = ''sha384'' then Some Sha384
      else if name = ''sha512'' then Some Sha512
      else None)"

fun PrivProtocol_name :: "PrivProtocol \<Rightarrow> string" where
  "PrivProtocol_name Des = ''des''"
| "PrivProtocol_name Aes128 = ''aes128''"
| "PrivProtocol_name Aes192 = ''aes192''"
| "PrivProtocol_name Aes192c = ''aes192c''"
| "PrivProtocol_name Aes256 = ''aes256''"
| "PrivProtocol_name Aes256c = ''aes256c''"

definition PrivProtocol_from_name :: "string \<Rightarrow> PrivProtocol option" where
  "PrivProtocol_from_name name =
     (if name = ''des'' then Some Des
      else if name = ''aes'' \<or> name = ''aes128'' then Some Aes128
      else if name = ''aes192'' then Some Aes192
      else if name = ''aes192c'' then Some Aes192c
      else if name = ''aes256'' then Some Aes256
      else if name = ''aes256c'' then Some Aes256c
      else None)"

fun SnmpVersion_name :: "SnmpVersion \<Rightarrow> string" where
  "SnmpVersion_name Snmp_V1 = ''v1''"
| "SnmpVersion_name Snmp_V2c = ''v2c''"
| "SnmpVersion_name Snmp_V3 = ''v3''"

text \<open>The derived order of \<open>SnmpVersion\<close>: by declaration.\<close>

fun version_rank :: "SnmpVersion \<Rightarrow> nat" where
  "version_rank Snmp_V1 = 0"
| "version_rank Snmp_V2c = 1"
| "version_rank Snmp_V3 = 2"

instantiation SnmpVersion :: linorder
begin

definition less_eq_SnmpVersion :: "SnmpVersion \<Rightarrow> SnmpVersion \<Rightarrow> bool" where
  "less_eq_SnmpVersion a b \<longleftrightarrow> version_rank a \<le> version_rank b"

definition less_SnmpVersion :: "SnmpVersion \<Rightarrow> SnmpVersion \<Rightarrow> bool" where
  "less_SnmpVersion a b \<longleftrightarrow> version_rank a < version_rank b"

instance
proof
  fix a b :: SnmpVersion
  assume "a \<le> b" and "b \<le> a"
  then show "a = b" by (cases a; cases b) (simp_all add: less_eq_SnmpVersion_def)
qed (auto simp: less_eq_SnmpVersion_def less_SnmpVersion_def)

end

record UsmAuth =
  auth_protocol :: AuthProtocol
  auth_password :: string

record UsmPriv =
  priv_protocol :: PrivProtocol
  priv_password :: string

record UsmUser =
  uu_name :: string
  uu_auth :: "UsmAuth option"
  uu_privacy :: "UsmPriv option"

record SystemGroup =
  sg_name :: string
  sg_descr :: string
  sg_contact :: string
  sg_location :: string
  sg_object_id :: string
  sg_services :: u8

record SnmpAgentConfig =
  cfg_listen :: string
  cfg_community :: string
  cfg_max_message_size :: nat
  cfg_system :: SystemGroup
  cfg_versions :: "SnmpVersion list"
  cfg_users :: "UsmUser list"
  cfg_engine_id :: "string option"

record SystemSettings =
  sys_name :: string
  sys_descr :: string
  sys_contact :: string
  sys_location :: string
  sys_object_id :: Oid
  sys_services :: u8

record AgentSettings =
  set_listen :: SocketAddr
  set_community :: string
  set_max_message_size :: nat
  set_system :: SystemSettings
  set_versions :: "SnmpVersion list"
  set_users :: "UsmUser list"
  set_engine_id :: "bytes option"

definition MIN_MAX_MESSAGE_SIZE :: nat where "MIN_MAX_MESSAGE_SIZE = 484"
definition MAX_MAX_MESSAGE_SIZE :: nat where "MAX_MAX_MESSAGE_SIZE = 65507"
definition MAX_SYS_SERVICES :: u8 where "MAX_SYS_SERVICES = 127"
definition MIN_ENGINE_ID :: nat where "MIN_ENGINE_ID = 5"
definition MAX_ENGINE_ID :: nat where "MAX_ENGINE_ID = 32"
definition MAX_USER_NAME :: nat where "MAX_USER_NAME = 32"
definition MIN_PASSWORD :: nat where "MIN_PASSWORD = 8"

section \<open>Settings\<close>

text \<open>Why a configuration is refused: what the message of the \<open>SondaError::Config\<close> names.\<close>

datatype settings_error =
    NotASocketAddress string
  | MaxMessageSize nat
  | SystemObjectId OidParseError
  | SystemServices u8
  | NoVersions
  | VersionTwice SnmpVersion
  | V3WithoutUsers
  | UserName string
  | AuthPassword string
  | PrivWithoutAuth string
  | PrivPassword string
  | UserTwice string
  | EngineIdNotHex string
  | EngineIdLength nat

text \<open>The first pair of neighbours for which \<open>p\<close> holds: \<open>windows(2).find(p)\<close>.\<close>

fun find_pair :: "('a \<Rightarrow> 'a \<Rightarrow> bool) \<Rightarrow> 'a list \<Rightarrow> ('a \<times> 'a) option" where
  "find_pair p (x # y # xs) = (if p x y then Some (x, y) else find_pair p (y # xs))"
| "find_pair p _ = None"

definition check_user :: "UsmUser \<Rightarrow> settings_error option" where
  "check_user user =
     (if uu_name user = [] \<or> length (uu_name user) > MAX_USER_NAME then Some (UserName (uu_name user))
      else case (case uu_auth user of
                   Some auth \<Rightarrow> if length (auth_password auth) < MIN_PASSWORD then Some (AuthPassword (uu_name user)) else None
                 | None \<Rightarrow> None) of
             Some e \<Rightarrow> Some e
           | None \<Rightarrow>
               (case uu_privacy user of
                  Some privacy \<Rightarrow>
                    if uu_auth user = None then Some (PrivWithoutAuth (uu_name user))
                    else if length (priv_password privacy) < MIN_PASSWORD then Some (PrivPassword (uu_name user))
                    else None
                | None \<Rightarrow> None))"

fun check_users :: "UsmUser list \<Rightarrow> settings_error option" where
  "check_users [] = None"
| "check_users (user # users) = (case check_user user of Some e \<Rightarrow> Some e | None \<Rightarrow> check_users users)"

definition resolved_users :: "UsmUser list \<Rightarrow> settings_error + UsmUser list" where
  "resolved_users given =
     (let users = sort_key uu_name given
      in case check_users users of
           Some e \<Rightarrow> Inl e
         | None \<Rightarrow>
             (case find_pair (\<lambda>a b. uu_name a = uu_name b) users of
                Some (a, b) \<Rightarrow> Inl (UserTwice (uu_name a))
              | None \<Rightarrow> Inr users))"

fun hex_pairs :: "string \<Rightarrow> bytes" where
  "hex_pairs (a # b # rest) =
     (let nibble = (\<lambda>c. of_nat (case to_digit16 c of Some d \<Rightarrow> d | None \<Rightarrow> 0) :: u8)
      in (push_bit 4 (nibble a) OR nibble b) # hex_pairs rest)"
| "hex_pairs _ = []"

definition parse_engine_id :: "string \<Rightarrow> settings_error + bytes" where
  "parse_engine_id text =
     (let digits = (case strip_prefix ''0x'' text of
            Some d \<Rightarrow> d
          | None \<Rightarrow> (case strip_prefix ''0X'' text of Some d \<Rightarrow> d | None \<Rightarrow> text))
      in if length digits mod 2 \<noteq> 0 \<or> \<not> list_all is_ascii_hexdigit digits then Inl (EngineIdNotHex text)
         else
           let octets = hex_pairs digits
           in if length octets < MIN_ENGINE_ID \<or> length octets > MAX_ENGINE_ID
              then Inl (EngineIdLength (length octets))
              else Inr octets)"

definition settings :: "(string \<Rightarrow> SocketAddr option) \<Rightarrow> SnmpAgentConfig \<Rightarrow> settings_error + AgentSettings" where
  "settings parse_addr cfg =
     rbind (ok_or (parse_addr (cfg_listen cfg)) (NotASocketAddress (cfg_listen cfg))) (\<lambda>listen.
     if cfg_max_message_size cfg < MIN_MAX_MESSAGE_SIZE \<or> cfg_max_message_size cfg > MAX_MAX_MESSAGE_SIZE
     then Inl (MaxMessageSize (cfg_max_message_size cfg)) else
     let system = cfg_system cfg in
     rbind (map_err SystemObjectId (Oid_parse (sg_object_id system))) (\<lambda>object_id.
     if sg_services system > MAX_SYS_SERVICES then Inl (SystemServices (sg_services system)) else
     let versions = sort (cfg_versions cfg) in
     if versions = [] then Inl NoVersions else
     (case find_pair (=) versions of
        Some (twice, _) \<Rightarrow> Inl (VersionTwice twice)
      | None \<Rightarrow>
          rbind (resolved_users (cfg_users cfg)) (\<lambda>users.
          if Snmp_V3 \<in> set versions \<and> users = [] then Inl V3WithoutUsers else
          let listen = canonical listen in
          rbind (case cfg_engine_id cfg of
                   None \<Rightarrow> Inr None
                 | Some text \<Rightarrow> rbind (parse_engine_id text) (\<lambda>octets. Inr (Some octets))) (\<lambda>engine_id.
          Inr \<lparr> set_listen = listen, set_community = cfg_community cfg,
                set_max_message_size = cfg_max_message_size cfg,
                set_system = \<lparr> sys_name = sg_name system, sys_descr = sg_descr system,
                   sys_contact = sg_contact system, sys_location = sg_location system,
                   sys_object_id = object_id, sys_services = sg_services system \<rparr>,
                set_versions = versions, set_users = users, set_engine_id = engine_id \<rparr>)))))"

definition same_secret :: "('p \<times> string) option \<Rightarrow> ('p \<times> string) option \<Rightarrow> bool" where
  "same_secret a b =
     (case (a, b) of
        (None, None) \<Rightarrow> True
      | (Some (p, pw), Some (q, qw)) \<Rightarrow>
          p = q \<and> constant_time_eq (map (\<lambda>c. of_nat (code c)) pw) (map (\<lambda>c. of_nat (code c)) qw)
      | _ \<Rightarrow> False)"

definition same_users :: "UsmUser list \<Rightarrow> UsmUser list \<Rightarrow> bool" where
  "same_users a b \<longleftrightarrow>
     (let auth = (\<lambda>u. map_option (\<lambda>x. (auth_protocol x, auth_password x)) (uu_auth u));
          privacy = (\<lambda>u. map_option (\<lambda>x. (priv_protocol x, priv_password x)) (uu_privacy u))
      in length a = length b
         \<and> list_all (\<lambda>(a, b). uu_name a = uu_name b \<and> same_secret (auth a) (auth b)
              \<and> same_secret (privacy a) (privacy b)) (zip a b))"

text \<open>The octets of a string: \<open>as_bytes\<close>.\<close>

definition as_bytes :: "string \<Rightarrow> bytes" where
  "as_bytes s = map (\<lambda>c. of_nat (code c)) s"

definition serves :: "AgentSettings \<Rightarrow> AgentSettings \<Rightarrow> bool" where
  "serves self other \<longleftrightarrow>
     constant_time_eq (as_bytes (set_community self)) (as_bytes (set_community other))
     \<and> set_max_message_size self = set_max_message_size other
     \<and> set_system self = set_system other
     \<and> set_versions self = set_versions other
     \<and> set_engine_id self = set_engine_id other
     \<and> same_users (set_users self) (set_users other)"

text \<open>\<open>Hex\<close>'s \<open>Display\<close>: two lower-case digits per octet.\<close>

definition Hex_show :: "bytes \<Rightarrow> string" where
  "Hex_show bs = concat (map (\<lambda>b. [hex_char (unat b div 16), hex_char (unat b mod 16)]) bs)"

section \<open>Lemmas\<close>

lemma AuthProtocol_from_name_name [simp]: "AuthProtocol_from_name (AuthProtocol_name p) = Some p"
  by (cases p) (simp_all add: AuthProtocol_from_name_def)

lemma PrivProtocol_from_name_name [simp]: "PrivProtocol_from_name (PrivProtocol_name p) = Some p"
  by (cases p) (simp_all add: PrivProtocol_from_name_def)

lemma length_as_bytes [simp]: "length (as_bytes s) = length s"
  by (simp add: as_bytes_def)

lemma as_bytes_inj [simp]: "as_bytes s = as_bytes t \<longleftrightarrow> s = t"
proof -
  have "inj (\<lambda>c. of_nat (code c) :: u8)"
  proof (rule injI)
    fix c d :: char
    assume "of_nat (code c) = (of_nat (code d) :: u8)"
    then have "unat (of_nat (code c) :: u8) = unat (of_nat (code d) :: u8)" by simp
    moreover have "code c < 2 ^ 8" "code d < 2 ^ 8" using code_less [of c] code_less [of d] by simp_all
    ultimately show "c = d" by (simp add: code_inj del: code_less)
  qed
  then show ?thesis by (simp add: as_bytes_def inj_map_eq_map)
qed

lemma find_pair_None: "find_pair p xs = None \<longleftrightarrow> (\<forall>i. Suc i < length xs \<longrightarrow> \<not> p (xs ! i) (xs ! Suc i))"
proof (induction p xs rule: find_pair.induct)
  case (1 p x y xs)
  then show ?case by (auto simp: nth_Cons split: nat.splits)
qed simp_all

lemma sorted_find_pair_distinct:
  assumes "sorted (map f xs)" and "find_pair (\<lambda>a b. f a = f b) xs = None"
  shows "distinct (map f xs)"
  using assms
proof (induction xs rule: induct_list012)
  case (3 x y xs)
  then have "f x < f y" "distinct (map f (y # xs))" by (auto split: if_splits)
  moreover have "\<forall>z \<in> set xs. f y \<le> f z" using "3.prems"(1) by auto
  ultimately show ?case by (auto dest: bspec leD)
qed simp_all

lemma distinct_find_pair: "distinct (map f xs) \<Longrightarrow> find_pair (\<lambda>a b. f a = f b) xs = None"
  by (induction xs rule: induct_list012) auto

lemma same_users_eq [simp]: "same_users a b \<longleftrightarrow> a = b"
proof -
  have sec: "same_secret x y \<longleftrightarrow> x = y" for x y :: "('p \<times> string) option"
    by (auto simp: same_secret_def as_bytes_def [symmetric] split: option.splits)
  have inj: "map_option (\<lambda>x. (auth_protocol x, auth_password x)) u = map_option (\<lambda>x. (auth_protocol x, auth_password x)) v \<longleftrightarrow> u = v"
    for u v :: "UsmAuth option" by (cases u; cases v) auto
  have inj2: "map_option (\<lambda>x. (priv_protocol x, priv_password x)) u = map_option (\<lambda>x. (priv_protocol x, priv_password x)) v \<longleftrightarrow> u = v"
    for u v :: "UsmPriv option" by (cases u; cases v) auto
  have "list_all (\<lambda>(a, b). uu_name a = uu_name b \<and> uu_auth a = uu_auth b \<and> uu_privacy a = uu_privacy b) (zip a b) \<longleftrightarrow> a = b"
    if "length a = length b"
    using that by (induction a b rule: list_induct2) auto
  then show ?thesis by (auto simp: same_users_def sec inj inj2 Let_def)
qed

lemma serves_iff: "serves self other \<longleftrightarrow> self = other \<lparr> set_listen := set_listen self \<rparr>"
  by (cases self; cases other) (auto simp: serves_def)

text \<open>What every user of accepted settings satisfies, and the settings themselves.\<close>

definition user_ok :: "UsmUser \<Rightarrow> bool" where
  "user_ok u \<longleftrightarrow> 1 \<le> length (uu_name u) \<and> length (uu_name u) \<le> 32
     \<and> (case uu_auth u of None \<Rightarrow> uu_privacy u = None | Some a \<Rightarrow> 8 \<le> length (auth_password a))
     \<and> (case uu_privacy u of None \<Rightarrow> True | Some p \<Rightarrow> 8 \<le> length (priv_password p))"

definition settings_ok :: "AgentSettings \<Rightarrow> bool" where
  "settings_ok s \<longleftrightarrow>
     484 \<le> set_max_message_size s \<and> set_max_message_size s \<le> 65507
     \<and> oid_ok (sys_object_id (set_system s)) \<and> sys_services (set_system s) \<le> 127
     \<and> set_versions s \<noteq> [] \<and> sorted (set_versions s) \<and> distinct (set_versions s)
     \<and> list_all user_ok (set_users s) \<and> sorted (map uu_name (set_users s))
     \<and> distinct (map uu_name (set_users s))
     \<and> (Snmp_V3 \<in> set (set_versions s) \<longrightarrow> set_users s \<noteq> [])
     \<and> canonical (set_listen s) = set_listen s
     \<and> (case set_engine_id s of None \<Rightarrow> True | Some e \<Rightarrow> 5 \<le> length e \<and> length e \<le> 32)"

lemma check_user_None: "check_user u = None \<longleftrightarrow> user_ok u"
  by (cases "uu_name u")
     (auto simp: check_user_def user_ok_def MAX_USER_NAME_def MIN_PASSWORD_def split: option.splits)

lemma check_users_None: "check_users us = None \<longleftrightarrow> list_all user_ok us"
  by (induction us) (auto simp: check_user_None [symmetric] split: option.splits)

lemma resolved_users_Inr:
  "resolved_users given = Inr users \<longleftrightarrow>
     users = sort_key uu_name given \<and> list_all user_ok given \<and> distinct (map uu_name given)"
proof -
  let ?u = "sort_key uu_name given"
  have ok: "list_all user_ok ?u \<longleftrightarrow> list_all user_ok given" by (simp add: list_all_iff)
  have dist: "distinct (map uu_name ?u) \<longleftrightarrow> distinct (map uu_name given)"
    by (simp add: distinct_map)
  have "sorted (map uu_name ?u)" by simp
  then have fp: "find_pair (\<lambda>a b. uu_name a = uu_name b) ?u = None \<longleftrightarrow> distinct (map uu_name given)"
    using sorted_find_pair_distinct [of uu_name ?u] distinct_find_pair [of uu_name ?u] dist by blast
  have cu: "check_users ?u = None \<longleftrightarrow> list_all user_ok given" using check_users_None ok by simp
  show ?thesis
  proof (cases "check_users ?u")
    case None
    with cu fp show ?thesis
      by (cases "find_pair (\<lambda>a b. uu_name a = uu_name b) ?u") (auto simp: resolved_users_def Let_def)
  next
    case (Some e)
    with cu show ?thesis by (auto simp: resolved_users_def Let_def)
  qed
qed

lemma parse_engine_id_length: "parse_engine_id text = Inr e \<Longrightarrow> 5 \<le> length e \<and> length e \<le> 32"
  by (auto simp: parse_engine_id_def MIN_ENGINE_ID_def MAX_ENGINE_ID_def Let_def split: if_splits)

lemma hex_char_class: "d < 16 \<Longrightarrow> is_ascii_hexdigit (hex_char d) \<and> (d \<noteq> 0 \<longrightarrow> hex_char d \<noteq> CHR ''0'') \<and> hex_char d \<noteq> CHR ''x'' \<and> hex_char d \<noteq> CHR ''X''"
proof -
  assume "d < 16"
  then have d: "d \<in> set [0..<16]" by simp
  have "list_all (\<lambda>d. is_ascii_hexdigit (hex_char d) \<and> (d \<noteq> 0 \<longrightarrow> hex_char d \<noteq> CHR ''0'') \<and> hex_char d \<noteq> CHR ''x'' \<and> hex_char d \<noteq> CHR ''X'') [0..<16]"
    by (simp add: upt_rec hex_char_def is_ascii_hexdigit_def is_ascii_digit_def code_inj [symmetric]) (simp add: code_def)
  with d show ?thesis by (simp add: list_all_iff)
qed

lemma nibbles: "push_bit 4 (of_nat (unat b div 16)) OR of_nat (unat b mod 16) = b" for b :: u8
proof -
  have "unat b div 16 < 16" using unat_u8_less [of b] by (simp add: div_less_iff_less_mult)
  then have "unat (push_bit 4 (of_nat (unat b div 16) :: u8)) = push_bit 4 (unat b div 16)"
    by (simp only: unsigned_push_bit_eq) (simp add: push_bit_eq_mult take_bit_eq_mod)
  then have "unat (push_bit 4 (of_nat (unat b div 16)) OR of_nat (unat b mod 16) :: u8)
      = push_bit 4 (unat b div 16) OR (unat b mod 16)"
    by (simp only: unsigned_or_eq) simp
  also have "\<dots> = unat b div 16 * 2 ^ 4 + unat b mod 16" by (rule or_push_bit_nat) simp
  also have "\<dots> = unat b" by simp
  finally show ?thesis by (simp only: word_unat_eq_iff)
qed

lemma hex_pairs_show [simp]: "hex_pairs (Hex_show bs) = bs"
proof (induction bs)
  case (Cons b bs)
  have "unat b div 16 < 16" using unat_u8_less [of b] by (simp add: div_less_iff_less_mult)
  with Cons show ?case by (simp add: Hex_show_def nibbles)
qed (simp add: Hex_show_def)

lemma Hex_show_digits: "list_all is_ascii_hexdigit (Hex_show bs)" "length (Hex_show bs) = 2 * length bs"
proof -
  have "unat b div 16 < 16" for b :: u8 using unat_u8_less [of b] by (simp add: div_less_iff_less_mult)
  then show "list_all is_ascii_hexdigit (Hex_show bs)"
    by (induction bs) (simp_all add: Hex_show_def hex_char_class)
  show "length (Hex_show bs) = 2 * length bs" by (induction bs) (simp_all add: Hex_show_def)
qed

lemma Hex_show_no_prefix: "strip_prefix ''0x'' (Hex_show bs) = None" "strip_prefix ''0X'' (Hex_show bs) = None"
proof -
  have "Hex_show bs \<noteq> CHR ''0'' # CHR ''x'' # r" "Hex_show bs \<noteq> CHR ''0'' # CHR ''X'' # r" for r
    using hex_char_class [of "unat (hd bs) mod 16"] by (cases bs; auto simp: Hex_show_def)+
  then show "strip_prefix ''0x'' (Hex_show bs) = None" "strip_prefix ''0X'' (Hex_show bs) = None"
    by (simp_all add: strip_prefix_None)
qed

section \<open>Properties\<close>

text \<open>
  C14: settings are accepted only when they are well formed: the message size within 484 to 65507,
  an encodable \<open>sysObjectID\<close>, at least one version and none twice, users with distinct names of 1
  to 32 octets and passwords of at least 8, privacy only with authentication, a user when SNMPv3
  is served, and an engine ID of 5 to 32 octets; the users are the configured ones.
\<close>

theorem settings_sound:
  assumes "settings parse_addr cfg = Inr s"
  shows "settings_ok s \<and> mset (set_users s) = mset (cfg_users cfg)
    \<and> mset (set_versions s) = mset (cfg_versions cfg)
    \<and> (\<exists>a. parse_addr (cfg_listen cfg) = Some a \<and> set_listen s = canonical a)"
proof -
  have dist: "distinct (sort vs)" if "find_pair (=) (sort vs) = None" for vs :: "SnmpVersion list"
    using sorted_find_pair_distinct [of "\<lambda>x. x" "sort vs"] that by simp
  have users: "mset us = mset (cfg_users cfg) \<and> list_all user_ok us \<and> sorted (map uu_name us)
      \<and> distinct (map uu_name us)" if "resolved_users (cfg_users cfg) = Inr us" for us
  proof -
    have us: "us = sort_key uu_name (cfg_users cfg)" "list_all user_ok (cfg_users cfg)"
      "distinct (map uu_name (cfg_users cfg))" using that by (simp_all add: resolved_users_Inr)
    then have m: "mset us = mset (cfg_users cfg)" by simp
    have "distinct (map uu_name us)" using us(3) unfolding us(1) by (simp add: distinct_map)
    with m us show ?thesis by (simp add: list_all_iff)
  qed
  let ?sys = "cfg_system cfg" and ?vs = "sort (cfg_versions cfg)"
  note start = assms [unfolded settings_def Let_def]
  obtain a where a: "parse_addr (cfg_listen cfg) = Some a" using start by (auto simp: sonda_simps)
  note start = start [unfolded a ok_or_simps(2) rbind_simps(2)]
  then have size: "\<not> (cfg_max_message_size cfg < MIN_MAX_MESSAGE_SIZE \<or> cfg_max_message_size cfg > MAX_MAX_MESSAGE_SIZE)"
    by (auto split: if_splits)
  note start = start [unfolded if_not_P [OF size]]
  then obtain object_id where oid: "Oid_parse (sg_object_id ?sys) = Inr object_id"
    by (auto simp: sonda_simps)
  note start = start [unfolded oid map_err_simps(2) rbind_simps(2)]
  then have serv: "\<not> sg_services ?sys > MAX_SYS_SERVICES" by (auto split: if_splits)
  note start = start [unfolded if_not_P [OF serv]]
  then have vs: "?vs \<noteq> []" by (auto split: if_splits)
  note start = start [unfolded if_not_P [OF vs]]
  then have twice: "find_pair (=) ?vs = None" by (auto split: option.splits)
  note start = start [unfolded twice option.case(1)]
  then obtain us where us: "resolved_users (cfg_users cfg) = Inr us" by (auto simp: sonda_simps)
  note start = start [unfolded us rbind_simps(2)]
  then have v3: "\<not> (Snmp_V3 \<in> set ?vs \<and> us = [])" by (auto split: if_splits)
  note start = start [unfolded if_not_P [OF v3]]
  then obtain eid where eid: "(case cfg_engine_id cfg of None \<Rightarrow> Inr None
      | Some text \<Rightarrow> rbind (parse_engine_id text) (\<lambda>octets. Inr (Some octets))) = Inr eid"
    by (rule rbind_InrE)
  note s = start [unfolded eid rbind_simps(2), simplified, symmetric]
  have "case eid of None \<Rightarrow> True | Some e \<Rightarrow> 5 \<le> length e \<and> length e \<le> 32"
    using eid parse_engine_id_length by (auto split: option.splits elim: rbind_InrE)
  then have "settings_ok s"
    unfolding settings_ok_def s
    using size serv vs v3 users [OF us(1)] dist [OF twice] Oid_parse_ok [OF oid]
    by (simp add: MIN_MAX_MESSAGE_SIZE_def MAX_MAX_MESSAGE_SIZE_def MAX_SYS_SERVICES_def not_less)
  then show ?thesis using users [OF us(1)] a by (simp add: s)
qed

definition example_config :: SnmpAgentConfig where
  "example_config = \<lparr> cfg_listen = ''a'', cfg_community = ''public'', cfg_max_message_size = 1472,
     cfg_system = \<lparr> sg_name = [], sg_descr = [], sg_contact = [], sg_location = [],
       sg_object_id = Oid_show (Oid [1, 3, 6, 1]), sg_services = 72 \<rparr>,
     cfg_versions = [Snmp_V2c], cfg_users = [], cfg_engine_id = None \<rparr>"

definition example_addr :: SocketAddr where
  "example_addr = \<lparr> sa_ip = V4 0, sa_port = 1161 \<rparr>"

definition example_settings :: AgentSettings where
  "example_settings = \<lparr> set_listen = example_addr, set_community = ''public'',
     set_max_message_size = 1472,
     set_system = \<lparr> sys_name = [], sys_descr = [], sys_contact = [], sys_location = [],
       sys_object_id = Oid [1, 3, 6, 1], sys_services = 72 \<rparr>,
     set_versions = [Snmp_V2c], set_users = [], set_engine_id = None \<rparr>"

lemma example_settings_accepted:
  "settings (\<lambda>text. if text = ''a'' then Some example_addr else None) example_config = Inr example_settings"
proof -
  have "Oid_parse (Oid_show (Oid [1, 3, 6, 1])) = Inr (Oid [1, 3, 6, 1])"
    by (rule Oid_parse_show_ok) (simp add: oid_ok_def)
  then show ?thesis
    by (simp add: settings_def example_config_def example_settings_def example_addr_def Let_def
        MIN_MAX_MESSAGE_SIZE_def MAX_MAX_MESSAGE_SIZE_def MAX_SYS_SERVICES_def resolved_users_def
        canonical_def)
qed

theorem settings_sound_witness: "settings_ok example_settings \<and> mset (set_users example_settings) = {#}"
  using settings_sound [OF example_settings_accepted] by (simp add: example_config_def)

text \<open>
  An engine ID reads back from its hexadecimal text, with or without the \<open>0x\<close>, exactly when it
  has 5 to 32 octets.
\<close>

theorem engine_id_roundtrip:
  "(parse_engine_id (Hex_show e) = Inr e \<longleftrightarrow> 5 \<le> length e \<and> length e \<le> 32)
   \<and> (parse_engine_id (''0x'' @ Hex_show e) = Inr e \<longleftrightarrow> 5 \<le> length e \<and> length e \<le> 32)"
  using Hex_show_digits [of e]
  by (auto simp: parse_engine_id_def Hex_show_no_prefix MIN_ENGINE_ID_def MAX_ENGINE_ID_def Let_def)

end
