(* ===== verification/Agent.thy ===== *)
theory Agent
  imports Snmp_Config
begin

text \<open>
  The state an SNMP agent serves from, \<open>sonda-core/src/sink/snmp/agent.rs\<close>: the table of published
  instances with their owners and publisher counts, the registered objects, the system group,
  and the request counters.

  Every operation on the table takes its lock for its whole duration, so each is one atomic step.
  The clock is an argument: \<open>millis\<close> is the time since the socket was bound, read once for each
  operation.

  \<open>mib_view\<close> is the abstract MIB: one ordered map from OIDs to encoded varbinds. The lemmas show
  that \<open>lookup\<close> is its \<open>get\<close> and \<open>bulk\<close>, which merges two iterators, is its \<open>after\<close>; so the laws of
  \<open>ordered_map\<close> give that a GETNEXT walk visits every instance once, in OID order. Every table
  operation preserves the table invariant and has the effect on the view that it promises.
\<close>

section \<open>Counters\<close>

datatype Counter =
    Get | GetNext | GetBulk | SetRefused | Malformed | WrongCommunity | TooBig
  | CounterUnsupportedVersion | SendErrors | CounterV1 | CounterV3
  | UsmUnknownEngineIds | UsmUnknownUserNames | UsmUnsupportedSecLevels
  | UsmWrongDigests | UsmNotInTimeWindows | UsmDecryptionErrors

text \<open>The live counters: one \<open>u64\<close> per kind, \<open>fetch_add\<close> wrapping.\<close>

type_synonym Counters = "Counter \<Rightarrow> u64"

definition counters_default :: Counters where
  "counters_default = (\<lambda>_. 0)"

record RequestCounters =
  rc_get :: u64
  rc_get_next :: u64
  rc_get_bulk :: u64
  rc_set_refused :: u64
  rc_malformed :: u64
  rc_wrong_community :: u64
  rc_too_big :: u64
  rc_unsupported_version :: u64
  rc_send_errors :: u64
  rc_v1 :: u64
  rc_v3 :: u64
  rc_usm_unknown_engine_ids :: u64
  rc_usm_unknown_user_names :: u64
  rc_usm_unsupported_sec_levels :: u64
  rc_usm_wrong_digests :: u64
  rc_usm_not_in_time_windows :: u64
  rc_usm_decryption_errors :: u64

definition snapshot_counters :: "Counters \<Rightarrow> RequestCounters" where
  "snapshot_counters c = \<lparr>
     rc_get = c Get, rc_get_next = c GetNext, rc_get_bulk = c GetBulk,
     rc_set_refused = c SetRefused, rc_malformed = c Malformed,
     rc_wrong_community = c WrongCommunity, rc_too_big = c TooBig,
     rc_unsupported_version = c CounterUnsupportedVersion, rc_send_errors = c SendErrors,
     rc_v1 = c CounterV1, rc_v3 = c CounterV3,
     rc_usm_unknown_engine_ids = c UsmUnknownEngineIds,
     rc_usm_unknown_user_names = c UsmUnknownUserNames,
     rc_usm_unsupported_sec_levels = c UsmUnsupportedSecLevels,
     rc_usm_wrong_digests = c UsmWrongDigests,
     rc_usm_not_in_time_windows = c UsmNotInTimeWindows,
     rc_usm_decryption_errors = c UsmDecryptionErrors \<rparr>"

section \<open>The table\<close>

type_synonym Owner = u64

record Slot =
  slot_varbind :: bytes
  slot_owner :: Owner
  slot_publishers :: nat

record MibTable =
  tab_slots :: "(Oid, Slot) btree"
  tab_objects :: "Oid set"

datatype publish_error =
    PublishedByAnother Oid
  | UnderSystemGroup Oid

definition SYSTEM_GROUP :: "u32 list" where
  "SYSTEM_GROUP = [1, 3, 6, 1, 2, 1, 1]"

definition publish :: "Owner \<Rightarrow> Oid \<Rightarrow> bytes \<Rightarrow> bool \<Rightarrow> MibTable \<Rightarrow> publish_error + MibTable" where
  "publish owner oid varbind first table =
     (case btree_get (tab_slots table) oid of
        Some slot \<Rightarrow>
          if slot_owner slot \<noteq> owner then Inl (PublishedByAnother oid)
          else
            let slot = slot \<lparr> slot_varbind := varbind,
                              slot_publishers := slot_publishers slot + (if first then 1 else 0) \<rparr>
            in Inr (table \<lparr> tab_slots := btree_insert oid slot (tab_slots table) \<rparr>)
      | None \<Rightarrow>
          if starts_with (oid_arcs oid) SYSTEM_GROUP then Inl (UnderSystemGroup oid)
          else
            let slot = \<lparr> slot_varbind = varbind, slot_owner = owner, slot_publishers = 1 \<rparr>
            in Inr (table \<lparr> tab_slots := btree_insert oid slot (tab_slots table) \<rparr>))"

definition overwrite :: "Oid \<Rightarrow> bytes \<Rightarrow> MibTable \<Rightarrow> bool \<times> MibTable" where
  "overwrite oid varbind table =
     (case btree_get (tab_slots table) oid of
        Some slot \<Rightarrow>
          (True, table \<lparr> tab_slots := btree_insert oid (slot \<lparr> slot_varbind := varbind \<rparr>) (tab_slots table) \<rparr>)
      | None \<Rightarrow> (False, table))"

definition register_object :: "Oid \<Rightarrow> MibTable \<Rightarrow> MibTable" where
  "register_object object table =
     (if object \<in> tab_objects table then table
      else table \<lparr> tab_objects := insert object (tab_objects table) \<rparr>)"

definition release :: "Owner \<Rightarrow> Oid \<Rightarrow> MibTable \<Rightarrow> MibTable" where
  "release owner oid table =
     (case btree_get (tab_slots table) oid of
        None \<Rightarrow> table
      | Some slot \<Rightarrow>
          if slot_owner slot \<noteq> owner then table
          else
            let publishers = slot_publishers slot - 1
            in if publishers = 0
               then table \<lparr> tab_slots := btree_remove oid (tab_slots table) \<rparr>
               else table \<lparr> tab_slots := btree_insert oid (slot \<lparr> slot_publishers := publishers \<rparr>) (tab_slots table) \<rparr>)"

section \<open>The system group\<close>

record SystemInstance =
  si_oid :: Oid
  si_varbind :: "bytes option"

definition SYS_UP_TIME :: u32 where
  "SYS_UP_TIME = 3"

definition varbind_of :: "Oid \<Rightarrow> bytes \<Rightarrow> bytes" where
  "varbind_of oid v = write_varbind [] oid v"

definition system_values :: "AgentSettings \<Rightarrow> (u32 \<times> bytes option) list" where
  "system_values s =
     (let system = set_system s;
          string = (\<lambda>text. write_string [] (as_bytes text));
          object_id = write_oid [] (sys_object_id system);
          services = write_integer [] (ucast (sys_services system))
      in [(1, Some (string (sys_descr system))),
          (2, Some object_id),
          (SYS_UP_TIME, None),
          (4, Some (string (sys_contact system))),
          (5, Some (string (sys_name system))),
          (6, Some (string (sys_location system))),
          (7, Some services)])"

definition system_instances :: "AgentSettings \<Rightarrow> SystemInstance list" where
  "system_instances s =
     List.map_filter (\<lambda>(arc, v).
       map_option (\<lambda>oid. \<lparr> si_oid = oid, si_varbind = map_option (varbind_of oid) v \<rparr>)
         (Oid_from_arcs (SYSTEM_GROUP @ [arc, 0]))) (system_values s)"

text \<open>\<open>object_of\<close> of \<open>agent.rs\<close>: the instance without its last arc.\<close>

definition system_object_of :: "Oid \<Rightarrow> Oid" where
  "system_object_of instance_oid =
     (let as = oid_arcs instance_oid
      in case Oid_from_arcs (take (length as - 1) as) of Some o' \<Rightarrow> o' | None \<Rightarrow> instance_oid)"

definition uptime_ticks :: "nat \<Rightarrow> u32" where
  "uptime_ticks millis =
     (let centiseconds = millis div 10 in of_nat (centiseconds mod 2 ^ 32))"

definition system_varbind :: "nat \<Rightarrow> SystemInstance \<Rightarrow> bytes" where
  "system_varbind millis inst =
     (case si_varbind inst of
        Some varbind \<Rightarrow> varbind
      | None \<Rightarrow> write_tlv [] Tag_Sequence (\<lambda>out.
          write_timeticks (write_oid out (si_oid inst)) (uptime_ticks millis)))"

section \<open>The agent and its read side\<close>

record LastRequest =
  lr_at :: nat
  lr_peer :: SocketAddr
  lr_version :: "SnmpVersion option"

record SnmpAgent =
  ag_settings :: AgentSettings
  ag_system :: "SystemInstance list"
  ag_table :: MibTable
  ag_counters :: Counters
  ag_last_request :: "LastRequest option"
  ag_too_big_warned :: "nat option"

definition agent_bind :: "AgentSettings \<Rightarrow> SnmpAgent" where
  "agent_bind s =
     (let system = system_instances s
      in \<lparr> ag_settings = s, ag_system = system,
           ag_table = \<lparr> tab_slots = [], tab_objects = set (map (\<lambda>i. system_object_of (si_oid i)) system) \<rparr>,
           ag_counters = counters_default, ag_last_request = None, ag_too_big_warned = None \<rparr>)"

definition count :: "Counter \<Rightarrow> SnmpAgent \<Rightarrow> SnmpAgent" where
  "count c agent = agent \<lparr> ag_counters := (ag_counters agent)(c := ag_counters agent c + 1) \<rparr>"

definition count_and_read :: "Counter \<Rightarrow> SnmpAgent \<Rightarrow> u64 \<times> SnmpAgent" where
  "count_and_read c agent = (ag_counters agent c + 1, count c agent)"

definition note_request :: "nat \<Rightarrow> SocketAddr \<Rightarrow> SnmpVersion option \<Rightarrow> SnmpAgent \<Rightarrow> SnmpAgent" where
  "note_request now peer version agent =
     agent \<lparr> ag_last_request := Some \<lparr> lr_at = now, lr_peer = peer, lr_version = version \<rparr> \<rparr>"

definition WARN_INTERVAL :: nat where
  "WARN_INTERVAL = 60000"

definition warn_due :: "nat option \<Rightarrow> nat \<Rightarrow> bool" where
  "warn_due prev now = (case prev of None \<Rightarrow> True | Some at \<Rightarrow> now - at \<ge> WARN_INTERVAL)"

text \<open>\<open>warn_too_big\<close> but for the log line: when it was last logged.\<close>

definition warn_too_big :: "nat \<Rightarrow> SnmpAgent \<Rightarrow> SnmpAgent" where
  "warn_too_big now agent =
     (if \<not> warn_due (ag_too_big_warned agent) now then agent
      else agent \<lparr> ag_too_big_warned := Some now \<rparr>)"

definition community_required :: "SnmpAgent \<Rightarrow> bool" where
  "community_required agent =
     list_ex (\<lambda>v. v = Snmp_V1 \<or> v = Snmp_V2c) (set_versions (ag_settings agent))"

definition is_counter64 :: "bytes \<Rightarrow> bool" where
  "is_counter64 varbind =
     (case expect Tag_Sequence varbind of
        Inl _ \<Rightarrow> False
      | Inr (body, _) \<Rightarrow>
          (case expect Tag_Oid body of
             Inl _ \<Rightarrow> False
           | Inr (_, tail_fields) \<Rightarrow>
               (case raw_tlv tail_fields of
                  Inr ((tag, _), _) \<Rightarrow> tag = Tag_byte Tag_Counter64
                | Inl _ \<Rightarrow> False)))"

datatype Found = FoundValue bytes | FoundNoSuchInstance | FoundNoSuchObject

definition lookup :: "SnmpAgent \<Rightarrow> nat \<Rightarrow> u32 list \<Rightarrow> Found" where
  "lookup agent millis oid =
     (case List.find (\<lambda>i. oid_arcs (si_oid i) = oid) (ag_system agent) of
        Some inst \<Rightarrow> FoundValue (system_varbind millis inst)
      | None \<Rightarrow>
          let table = ag_table agent
          in case btree_get (tab_slots table) (Oid oid) of
               Some slot \<Rightarrow> FoundValue (slot_varbind slot)
             | None \<Rightarrow>
                 if list_ex (\<lambda>len. Oid (take len oid) \<in> tab_objects table) [2..<length oid + 1]
                 then FoundNoSuchInstance
                 else FoundNoSuchObject)"

text \<open>
  The loop of \<open>bulk\<close>: \<open>emit\<close> is the closure, with the state it updates, and says whether to go on.
\<close>

function (sequential) bulk_loop ::
  "nat \<Rightarrow> nat \<Rightarrow> bool \<Rightarrow> (Oid \<Rightarrow> bytes \<Rightarrow> 's \<Rightarrow> bool \<times> 's) \<Rightarrow> (Oid \<times> Slot) list \<Rightarrow> SystemInstance list \<Rightarrow> nat \<Rightarrow> 's \<Rightarrow> 's" where
  "bulk_loop millis limit skip emit published system emitted s =
     (if \<not> emitted < limit then s
      else if published = [] \<and> system = [] then s
      else
        let from_system =
              (if published \<noteq> [] \<and> system \<noteq> [] then si_oid (hd system) < fst (hd published)
               else system \<noteq> [])
        in if from_system then
             (let (more, s) = emit (si_oid (hd system)) (system_varbind millis (hd system)) s
              in if \<not> more then s
                 else bulk_loop millis limit skip emit published (tl system) (emitted + 1) s)
           else if skip \<and> is_counter64 (slot_varbind (snd (hd published)))
           then bulk_loop millis limit skip emit (tl published) system emitted s
           else
             (let (more, s) = emit (fst (hd published)) (slot_varbind (snd (hd published))) s
              in if \<not> more then s
                 else bulk_loop millis limit skip emit (tl published) system (emitted + 1) s))"
  by pat_completeness auto
termination
  by (relation "measure (\<lambda>(millis, limit, skip, emit, published, system, emitted, s). length published + length system)")
     (auto split: if_splits simp: neq_Nil_conv)

declare bulk_loop.simps [simp del]

definition bulk ::
  "SnmpAgent \<Rightarrow> nat \<Rightarrow> u32 list \<Rightarrow> nat \<Rightarrow> bool \<Rightarrow> (Oid \<Rightarrow> bytes \<Rightarrow> 's \<Rightarrow> bool \<times> 's) \<Rightarrow> 's \<Rightarrow> 's" where
  "bulk agent millis start limit skip emit s =
     bulk_loop millis limit skip emit
       (btree_after (Oid start) (tab_slots (ag_table agent)))
       (dropWhile (\<lambda>i. oid_arcs (si_oid i) \<le> start) (ag_system agent)) 0 s"

section \<open>The abstract MIB\<close>

text \<open>Two sorted lists of entries, in OID order.\<close>

fun merge_entries :: "(Oid \<times> bytes) list \<Rightarrow> (Oid \<times> bytes) list \<Rightarrow> (Oid \<times> bytes) list" where
  "merge_entries [] ss = ss"
| "merge_entries ps [] = ps"
| "merge_entries (p # ps) (s # ss) =
     (if fst s < fst p then s # merge_entries (p # ps) ss else p # merge_entries ps (s # ss))"

definition published_entries :: "(Oid, Slot) btree \<Rightarrow> (Oid \<times> bytes) list" where
  "published_entries slots = map (\<lambda>(oid, slot). (oid, slot_varbind slot)) slots"

definition system_entries :: "nat \<Rightarrow> SystemInstance list \<Rightarrow> (Oid \<times> bytes) list" where
  "system_entries millis system = map (\<lambda>i. (si_oid i, system_varbind millis i)) system"

definition mib_view :: "SnmpAgent \<Rightarrow> nat \<Rightarrow> (Oid, bytes) btree" where
  "mib_view agent millis =
     merge_entries (published_entries (tab_slots (ag_table agent))) (system_entries millis (ag_system agent))"

text \<open>At most \<open>n\<close> of the entries, until the closure says to stop.\<close>

fun run_emit :: "('k \<Rightarrow> 'v \<Rightarrow> 's \<Rightarrow> bool \<times> 's) \<Rightarrow> nat \<Rightarrow> ('k \<times> 'v) list \<Rightarrow> 's \<Rightarrow> 's" where
  "run_emit f (Suc n) ((k, v) # xs) s = (let (more, s) = f k v s in if \<not> more then s else run_emit f n xs s)"
| "run_emit f n xs s = s"

lemma run_emit_0 [simp]: "run_emit f 0 xs s = s"
  by (cases xs) auto

lemma run_emit_Nil [simp]: "run_emit f n [] s = s"
  by (cases n) auto

definition not_counter64 :: "Oid \<times> bytes \<Rightarrow> bool" where
  "not_counter64 e \<longleftrightarrow> \<not> is_counter64 (snd e)"

lemma merge_entries_Nil2 [simp]: "merge_entries ps [] = ps"
  by (cases ps) auto

lemma merge_system_first:
  "\<forall>e \<in> set ps. fst s < fst e \<Longrightarrow> merge_entries ps (s # ss) = s # merge_entries ps ss"
  by (cases ps) auto

lemma merge_published_first:
  "ss = [] \<or> \<not> fst (hd ss) < fst p \<Longrightarrow> merge_entries (p # ps) ss = p # merge_entries ps ss"
  by (cases ss) auto

lemma run_emit_Suc:
  "0 < n \<Longrightarrow> run_emit f n ((k, v) # xs) s = (let (more, s) = f k v s in if \<not> more then s else run_emit f (n - Suc 0) xs s)"
  by (cases n) (auto split: prod.split)

abbreviation kept :: "bool \<Rightarrow> (Oid, Slot) btree \<Rightarrow> (Oid \<times> bytes) list" where
  "kept skip slots \<equiv> filter (\<lambda>e. skip \<longrightarrow> not_counter64 e) (published_entries slots)"

lemma bulk_loop_run:
  "btree_inv published \<Longrightarrow>
   bulk_loop millis limit skip f published system emitted s =
     run_emit f (limit - emitted) (merge_entries (kept skip published) (system_entries millis system)) s"
proof (induction millis limit skip f published system emitted s rule: bulk_loop.induct)
  case (1 millis limit skip f published system emitted s)
  consider (finished) "\<not> emitted < limit \<or> published = [] \<and> system = []"
    | (sys) i sys where "emitted < limit" "system = i # sys" "\<forall>e \<in> set published. si_oid i < fst e"
    | (skipped) p ps where "emitted < limit" "published = p # ps" "system \<noteq> [] \<longrightarrow> \<not> si_oid (hd system) < fst p"
        "skip \<and> is_counter64 (slot_varbind (snd p))"
    | (pub) p ps where "emitted < limit" "published = p # ps" "system \<noteq> [] \<longrightarrow> \<not> si_oid (hd system) < fst p"
        "\<not> (skip \<and> is_counter64 (slot_varbind (snd p)))"
  proof (cases "emitted < limit \<and> (published \<noteq> [] \<or> system \<noteq> [])")
    case True
    show ?thesis
    proof (cases "system \<noteq> [] \<and> (\<forall>e \<in> set published. si_oid (hd system) < fst e)")
      case False
      with True obtain p ps where P: "published = p # ps" by (cases published) auto
      with False "1.prems" have "system \<noteq> [] \<longrightarrow> \<not> si_oid (hd system) < fst p"
        by (cases p) (auto simp: btree_inv_iff_keys simp del: btree_inv_Cons intro: less_trans)
      with True P show ?thesis using skipped pub by blast
    qed (use True sys in \<open>cases system; auto\<close>)
  qed (use finished in blast)
  then show ?case
  proof cases
    case finished
    then show ?thesis by (subst bulk_loop.simps) (auto simp: published_entries_def system_entries_def)
  next
    case sys
    have first: "merge_entries (kept skip published) (system_entries millis system) =
        (si_oid i, system_varbind millis i) # merge_entries (kept skip published) (system_entries millis sys)"
      using sys by (force simp: system_entries_def published_entries_def intro!: merge_system_first)
    obtain more s' where f: "f (si_oid i) (system_varbind millis i) s = (more, s')" by fastforce
    have "bulk_loop millis limit skip f published system emitted s =
        (if more then bulk_loop millis limit skip f published sys (emitted + 1) s' else s')"
      using sys by (subst bulk_loop.simps) (simp add: f)
    then show ?thesis
      using sys(1,2) f "1.IH"(1) [OF _ _ refl _ refl, of more s'] "1.prems" sys(3)
      by (auto simp: first [unfolded sys(2)] run_emit_Suc)
  next
    case skipped
    then show ?thesis
      apply (subst bulk_loop.simps)
      using "1.IH"(2) "1.prems"
      by (cases p) (simp add: published_entries_def not_counter64_def)
  next
    case pub
    have first: "merge_entries (kept skip published) (system_entries millis system) =
        (fst p, slot_varbind (snd p)) # merge_entries (kept skip ps) (system_entries millis system)"
      using pub by (auto simp: system_entries_def published_entries_def not_counter64_def hd_map
          split: prod.splits intro!: merge_published_first)
    obtain more s' where f: "f (fst p) (slot_varbind (snd p)) s = (more, s')" by fastforce
    have "bulk_loop millis limit skip f published system emitted s =
        (if more then bulk_loop millis limit skip f ps system (emitted + 1) s' else s')"
      using pub by (subst bulk_loop.simps) (auto simp: f)
    moreover have "btree_inv ps" using "1.prems" pub(2) by (cases p) simp
    ultimately show ?thesis
      using pub f "1.IH"(3) [OF _ _ refl _ _ refl, of more s']
      by (auto simp: first [unfolded pub(2)] run_emit_Suc)
  qed
qed

section \<open>The invariant\<close>

definition system_oid :: "Oid \<Rightarrow> bool" where
  "system_oid oid \<longleftrightarrow> starts_with (oid_arcs oid) SYSTEM_GROUP"

definition table_inv :: "MibTable \<Rightarrow> bool" where
  "table_inv table \<longleftrightarrow> btree_inv (tab_slots table) \<and>
     (\<forall>oid slot. btree_get (tab_slots table) oid = Some slot \<longrightarrow>
        \<not> system_oid oid \<and> 1 \<le> slot_publishers slot)"

definition agent_inv :: "SnmpAgent \<Rightarrow> bool" where
  "agent_inv agent \<longleftrightarrow> table_inv (ag_table agent) \<and>
     sorted_wrt (<) (map si_oid (ag_system agent)) \<and>
     (\<forall>i \<in> set (ag_system agent). system_oid (si_oid i))"

lemma table_invD:
  "table_inv table \<Longrightarrow> btree_inv (tab_slots table)"
  "table_inv table \<Longrightarrow> btree_get (tab_slots table) oid = Some slot \<Longrightarrow> \<not> system_oid oid \<and> 1 \<le> slot_publishers slot"
  by (auto simp: table_inv_def)

lemma table_inv_insert:
  "table_inv table \<Longrightarrow> \<not> system_oid oid \<Longrightarrow> 1 \<le> slot_publishers slot
    \<Longrightarrow> table_inv (table \<lparr> tab_slots := btree_insert oid slot (tab_slots table) \<rparr>)"
  by (auto simp: table_inv_def bt.get_insert bt.invar_insert split: if_splits)

lemma table_inv_publish:
  "table_inv table \<Longrightarrow> publish owner oid varbind first table = Inr table' \<Longrightarrow> table_inv table'"
  using table_invD(2) [of table oid]
  by (auto simp: publish_def Let_def system_oid_def split: option.splits if_splits
      intro!: table_inv_insert)

lemma table_inv_overwrite: "table_inv table \<Longrightarrow> table_inv (snd (overwrite oid varbind table))"
  using table_invD(2) [of table oid]
  by (auto simp: overwrite_def split: option.splits intro!: table_inv_insert)

lemma table_inv_register: "table_inv table \<Longrightarrow> table_inv (register_object oid table)"
  by (simp add: register_object_def table_inv_def)

lemma table_inv_release: "table_inv table \<Longrightarrow> table_inv (release owner oid table)"
  using table_invD(2) [of table oid]
  by (auto simp: release_def Let_def split: option.splits intro!: table_inv_insert)
     (auto simp: table_inv_def bt.get_remove bt.invar_remove split: if_splits)

section \<open>The view\<close>

lemma merge_entries_set: "set (merge_entries ps ss) = set ps \<union> set ss"
  by (induction ps ss rule: merge_entries.induct) auto

lemma btree_inv_merge:
  "btree_inv ps \<Longrightarrow> btree_inv ss \<Longrightarrow> fst ` set ps \<inter> fst ` set ss = {} \<Longrightarrow> btree_inv (merge_entries ps ss)"
proof (induction ps ss rule: merge_entries.induct)
  case (3 p ps s ss)
  obtain a b c d where ps: "p = (a, b)" "s = (c, d)" by (cases p; cases s)
  show ?case
  proof (cases "c < a")
    case True
    then show ?thesis using 3 ps
      by (auto simp: btree_inv_iff_keys merge_entries_set image_Un simp del: btree_inv_Cons intro: less_trans)
  next
    case False
    with 3 ps have "a < c" by auto
    then show ?thesis using 3 ps
      by (auto simp: btree_inv_iff_keys merge_entries_set image_Un simp del: btree_inv_Cons intro: less_trans)
  qed
qed auto

lemma btree_inv_published [simp]: "btree_inv (published_entries slots) \<longleftrightarrow> btree_inv slots"
  by (simp add: btree_inv_def published_entries_def comp_def case_prod_unfold)

lemma btree_inv_system: "btree_inv (system_entries millis system) \<longleftrightarrow> sorted_wrt (<) (map si_oid system)"
  by (simp add: btree_inv_def system_entries_def comp_def)

lemma btree_inv_filter: "btree_inv m \<Longrightarrow> btree_inv (filter p m)"
  unfolding btree_inv_def by (induction m) auto

lemma published_get:
  "btree_get (published_entries slots) oid = map_option slot_varbind (btree_get slots oid)"
  by (induction slots) (auto simp: btree_get_def published_entries_def)

lemma after_published: "btree_after k (published_entries slots) = published_entries (btree_after k slots)"
  by (simp add: btree_after_def published_entries_def dropWhile_map comp_def case_prod_unfold)

lemma after_system:
  "btree_after (Oid start) (system_entries millis system) =
     system_entries millis (dropWhile (\<lambda>i. oid_arcs (si_oid i) \<le> start) system)"
  by (simp add: btree_after_def system_entries_def dropWhile_map comp_def less_eq_Oid_def)

lemma after_filter: "btree_inv m \<Longrightarrow> btree_after k (filter p m) = filter p (btree_after k m)"
  by (simp add: btree_after_filter btree_inv_filter conj_commute case_prod_unfold)

lemma published_not_system:
  "agent_inv agent \<Longrightarrow> fst ` set (published_entries (tab_slots (ag_table agent)))
     \<inter> fst ` set (system_entries millis (ag_system agent)) = {}"
  by (force simp: agent_inv_def table_inv_def published_entries_def system_entries_def btree_get_iff)

definition bulk_view :: "SnmpAgent \<Rightarrow> nat \<Rightarrow> bool \<Rightarrow> (Oid, bytes) btree" where
  "bulk_view agent millis skip =
     merge_entries (kept skip (tab_slots (ag_table agent))) (system_entries millis (ag_system agent))"

lemma bulk_view_all: "bulk_view agent millis False = mib_view agent millis"
  by (simp add: bulk_view_def mib_view_def)

lemma agent_invD:
  assumes "agent_inv agent"
  shows "btree_inv (tab_slots (ag_table agent))" and "btree_inv (system_entries millis (ag_system agent))"
    and "btree_inv (kept skip (tab_slots (ag_table agent)))"
  using assms by (auto simp: agent_inv_def table_inv_def btree_inv_system btree_inv_filter)

lemma bulk_view_inv: "agent_inv agent \<Longrightarrow> btree_inv (bulk_view agent millis skip)"
  unfolding bulk_view_def
  using published_not_system [of agent millis] by (intro btree_inv_merge agent_invD) auto

lemma merge_after:
  assumes "btree_inv ps" and "btree_inv ss" and "fst ` set ps \<inter> fst ` set ss = {}"
  shows "btree_after k (merge_entries ps ss) = merge_entries (btree_after k ps) (btree_after k ss)"
proof (rule btree_eqI)
  have inv: "btree_inv (merge_entries ps ss)" using assms by (rule btree_inv_merge)
  then show "btree_inv (btree_after k (merge_entries ps ss))"
    by (simp add: btree_after_filter btree_inv_filter)
  show "btree_inv (merge_entries (btree_after k ps) (btree_after k ss))"
    using assms by (intro btree_inv_merge) (auto simp: btree_after_filter btree_inv_filter)
  show "set (btree_after k (merge_entries ps ss)) = set (merge_entries (btree_after k ps) (btree_after k ss))"
    using assms inv by (auto simp: btree_after_filter merge_entries_set)
qed

lemma btree_inv_after: "btree_inv m \<Longrightarrow> btree_inv (btree_after k m)"
  by (simp add: btree_after_filter btree_inv_filter)

lemma bulk_run:
  assumes "agent_inv agent"
  shows "bulk agent millis start limit skip emit s =
    run_emit emit limit (btree_after (Oid start) (bulk_view agent millis skip)) s"
proof -
  let ?slots = "tab_slots (ag_table agent)"
  have "btree_after (Oid start) (bulk_view agent millis skip) =
      merge_entries (btree_after (Oid start) (kept skip ?slots))
        (btree_after (Oid start) (system_entries millis (ag_system agent)))"
    unfolding bulk_view_def using published_not_system [OF assms, of millis]
    by (intro merge_after agent_invD assms) auto
  also have "\<dots> = merge_entries (kept skip (btree_after (Oid start) ?slots))
      (system_entries millis (dropWhile (\<lambda>i. oid_arcs (si_oid i) \<le> start) (ag_system agent)))"
    using agent_invD(1) [OF assms] by (simp add: after_filter after_published after_system)
  finally show ?thesis
    by (simp add: bulk_def bulk_loop_run btree_inv_after agent_invD(1) [OF assms])
qed

lemma find_system:
  "List.find (\<lambda>i. oid_arcs (si_oid i) = oid) system = None \<longleftrightarrow> btree_get (system_entries millis system) (Oid oid) = None"
  "List.find (\<lambda>i. oid_arcs (si_oid i) = oid) system = Some i \<Longrightarrow>
     btree_get (system_entries millis system) (Oid oid) = Some (system_varbind millis i)"
proof -
  have eq: "oid_arcs x = y \<longleftrightarrow> x = Oid y" for x y by (cases x) auto
  show "List.find (\<lambda>i. oid_arcs (si_oid i) = oid) system = None \<longleftrightarrow> btree_get (system_entries millis system) (Oid oid) = None"
    by (induction system) (auto simp: btree_get_def system_entries_def eq)
  show "List.find (\<lambda>i. oid_arcs (si_oid i) = oid) system = Some i \<Longrightarrow>
     btree_get (system_entries millis system) (Oid oid) = Some (system_varbind millis i)"
    by (induction system) (auto simp: btree_get_def system_entries_def eq split: if_splits)
qed

lemma merge_get:
  assumes "btree_inv ps" and "btree_inv ss" and "fst ` set ps \<inter> fst ` set ss = {}"
  shows "btree_get (merge_entries ps ss) k =
    (case btree_get ss k of Some v \<Rightarrow> Some v | None \<Rightarrow> btree_get ps k)"
proof -
  have inv: "btree_inv (merge_entries ps ss)" using assms by (rule btree_inv_merge)
  have "btree_get (merge_entries ps ss) k = Some v \<longleftrightarrow>
      (case btree_get ss k of Some v \<Rightarrow> Some v | None \<Rightarrow> btree_get ps k) = Some v" for v
  proof (cases "btree_get ss k")
    case None
    then have "(k, v) \<notin> set ss" using btree_get_iff [OF assms(2), of k v] by simp
    with None show ?thesis by (simp add: btree_get_iff inv assms merge_entries_set)
  next
    case (Some w)
    then have "(k, w) \<in> set ss" using btree_get_iff [OF assms(2)] by blast
    then have "(k, v) \<notin> set ps" using assms(3) by force
    then show ?thesis using Some btree_get_iff [OF assms(2), of k v]
      by (simp add: btree_get_iff inv merge_entries_set)
  qed
  then show ?thesis by (metis option.exhaust)
qed

lemma registered_prefix:
  "list_ex (\<lambda>len. Oid (take len oid) \<in> objects) [2..<length oid + 1] \<longleftrightarrow>
     (\<exists>object \<in> objects. 2 \<le> length (oid_arcs object) \<and> Oid_is_prefix_of object (Oid oid))"
proof
  assume "list_ex (\<lambda>len. Oid (take len oid) \<in> objects) [2..<length oid + 1]"
  then obtain len where "2 \<le> len" "len \<le> length oid" "Oid (take len oid) \<in> objects"
    by (auto simp: list_ex_iff less_Suc_eq_le)
  then show "\<exists>object \<in> objects. 2 \<le> length (oid_arcs object) \<and> Oid_is_prefix_of object (Oid oid)"
    by (intro bexI [of _ "Oid (take len oid)"]) (simp_all add: Oid_is_prefix_of_def starts_with_def)
next
  assume "\<exists>object \<in> objects. 2 \<le> length (oid_arcs object) \<and> Oid_is_prefix_of object (Oid oid)"
  then obtain as where as: "Oid as \<in> objects" "2 \<le> length as" "take (length as) oid = as"
    by (auto simp: Oid_is_prefix_of_def starts_with_def) (metis Oid.exhaust_sel)
  then have "length as \<le> length oid" by (metis length_take min.cobounded1)
  with as(2) have "length as \<in> set [2..<length oid + 1]"
    unfolding set_upt atLeastLessThan_iff by linarith
  with as show "list_ex (\<lambda>len. Oid (take len oid) \<in> objects) [2..<length oid + 1]"
    unfolding list_ex_iff by metis
qed

text \<open>
  C16. A GET of \<open>oid\<close> finds what the view maps it to; otherwise the answer is noSuchInstance exactly
  when a registered object is a prefix of \<open>oid\<close>, and noSuchObject when none is.
\<close>

theorem lookup_refines:
  assumes "agent_inv agent"
  shows "lookup agent millis oid =
    (case btree_get (mib_view agent millis) (Oid oid) of
       Some varbind \<Rightarrow> FoundValue varbind
     | None \<Rightarrow> if \<exists>object \<in> tab_objects (ag_table agent). 2 \<le> length (oid_arcs object) \<and> Oid_is_prefix_of object (Oid oid)
               then FoundNoSuchInstance else FoundNoSuchObject)"
proof -
  have obj: "list_ex (\<lambda>len. Oid (take len oid) \<in> tab_objects (ag_table agent)) [2..<length oid + 1] \<longleftrightarrow>
      (\<exists>object \<in> tab_objects (ag_table agent). 2 \<le> length (oid_arcs object) \<and> Oid_is_prefix_of object (Oid oid))"
    by (rule registered_prefix)
  have get: "btree_get (mib_view agent millis) (Oid oid) =
      (case btree_get (system_entries millis (ag_system agent)) (Oid oid) of
         Some v \<Rightarrow> Some v
       | None \<Rightarrow> map_option slot_varbind (btree_get (tab_slots (ag_table agent)) (Oid oid)))"
    unfolding mib_view_def published_get [symmetric]
    using agent_invD [OF assms] published_not_system [OF assms] by (intro merge_get) auto
  show ?thesis
  proof (cases "List.find (\<lambda>i. oid_arcs (si_oid i) = oid) (ag_system agent)")
    case None
    then have "btree_get (system_entries millis (ag_system agent)) (Oid oid) = None"
      using find_system(1) [of oid "ag_system agent" millis] by simp
    with None show ?thesis unfolding get lookup_def Let_def obj by (simp split: option.split)
  next
    case (Some i)
    then show ?thesis unfolding get lookup_def Let_def obj
      by (simp add: find_system(2) [of _ _ _ millis])
  qed
qed

section \<open>Effects of the table operations\<close>

lemma publish_get:
  assumes "table_inv table" and "publish owner oid varbind first table = Inr table'"
  shows "\<exists>slot. btree_get (tab_slots table') oid = Some slot \<and> slot_varbind slot = varbind \<and> slot_owner slot = owner
      \<and> slot_publishers slot = (case btree_get (tab_slots table) oid of None \<Rightarrow> 1
          | Some old \<Rightarrow> slot_publishers old + (if first then 1 else 0))"
    and "j \<noteq> oid \<Longrightarrow> btree_get (tab_slots table') j = btree_get (tab_slots table) j"
    and "tab_objects table' = tab_objects table"
  using assms table_invD(1) [OF assms(1)]
  by (auto simp: publish_def Let_def bt.get_insert split: option.splits if_splits)

lemma publish_refused:
  "publish owner oid varbind first table = Inl e \<longleftrightarrow>
     (case btree_get (tab_slots table) oid of
        Some slot \<Rightarrow> slot_owner slot \<noteq> owner \<and> e = PublishedByAnother oid
      | None \<Rightarrow> system_oid oid \<and> e = UnderSystemGroup oid)"
  by (auto simp: publish_def Let_def system_oid_def split: option.splits)

lemma release_get:
  assumes "table_inv table"
  shows "btree_get (tab_slots (release owner oid table)) j =
    (case btree_get (tab_slots table) j of
       None \<Rightarrow> None
     | Some slot \<Rightarrow>
         if j = oid \<and> slot_owner slot = owner
         then (if slot_publishers slot = 1 then None
               else Some (slot \<lparr> slot_publishers := slot_publishers slot - 1 \<rparr>))
         else Some slot)"
    and "tab_objects (release owner oid table) = tab_objects table"
  using table_invD(1) [OF assms] table_invD(2) [OF assms, of oid]
  by (auto simp: release_def Let_def bt.get_insert bt.get_remove split: option.splits)

lemma overwrite_get:
  assumes "table_inv table" and "overwrite oid varbind table = (done_it, table')"
  shows "done_it \<longleftrightarrow> btree_get (tab_slots table) oid \<noteq> None"
    and "btree_get (tab_slots table') j =
      (if j = oid then map_option (\<lambda>slot. slot \<lparr> slot_varbind := varbind \<rparr>) (btree_get (tab_slots table) j)
       else btree_get (tab_slots table) j)"
  using assms(2) table_invD(1) [OF assms(1)]
  by (auto simp: overwrite_def bt.get_insert split: option.splits)

section \<open>Binding an agent\<close>

lemma Oid_from_system: "Oid_from_arcs (SYSTEM_GROUP @ [arc, 0]) = Some (Oid (SYSTEM_GROUP @ [arc, 0]))"
  by (simp add: Oid_from_arcs_def SYSTEM_GROUP_def)

lemma system_instances_oids:
  "map si_oid (system_instances s) = map (\<lambda>arc. Oid (SYSTEM_GROUP @ [arc, 0])) [1, 2, 3, 4, 5, 6, 7]"
  by (simp add: system_instances_def system_values_def Let_def List.map_filter_def Oid_from_system SYS_UP_TIME_def)

lemma agent_bind_inv: "agent_inv (agent_bind s)"
proof -
  have "\<forall>i \<in> set (system_instances s). system_oid (si_oid i)"
  proof
    fix i assume "i \<in> set (system_instances s)"
    then have "si_oid i \<in> set (map si_oid (system_instances s))" by simp
    then show "system_oid (si_oid i)"
      unfolding system_instances_oids by (auto simp: system_oid_def starts_with_def SYSTEM_GROUP_def)
  qed
  then show ?thesis
    by (simp add: agent_inv_def table_inv_def agent_bind_def Let_def system_instances_oids btree_get_def
        less_Oid_def SYSTEM_GROUP_def)
qed

section \<open>A GETNEXT walk\<close>

text \<open>One GETNEXT, and a manager that asks again from each OID it is given, at most \<open>n\<close> times.\<close>

definition next_entry :: "SnmpAgent \<Rightarrow> nat \<Rightarrow> bool \<Rightarrow> u32 list \<Rightarrow> (Oid \<times> bytes) option" where
  "next_entry agent millis skip start =
     bulk agent millis start 1 skip (\<lambda>oid varbind _. (True, Some (oid, varbind))) None"

fun walk :: "SnmpAgent \<Rightarrow> nat \<Rightarrow> bool \<Rightarrow> nat \<Rightarrow> u32 list \<Rightarrow> (Oid \<times> bytes) list" where
  "walk agent millis skip 0 start = []"
| "walk agent millis skip (Suc n) start =
     (case next_entry agent millis skip start of
        None \<Rightarrow> []
      | Some (oid, varbind) \<Rightarrow> (oid, varbind) # walk agent millis skip n (oid_arcs oid))"

lemma next_entry_eq:
  "agent_inv agent \<Longrightarrow> next_entry agent millis skip start =
     (case btree_after (Oid start) (bulk_view agent millis skip) of [] \<Rightarrow> None | e # _ \<Rightarrow> Some e)"
  by (simp add: next_entry_def bulk_run run_emit_Suc split: list.split)

lemma walk_take:
  assumes "agent_inv agent"
  shows "walk agent millis skip n start = take n (btree_after (Oid start) (bulk_view agent millis skip))"
proof (induction n arbitrary: start)
  case (Suc n)
  show ?case
  proof (cases "btree_after (Oid start) (bulk_view agent millis skip)")
    case (Cons e rest)
    obtain oid varbind where e: "e = (oid, varbind)" by (cases e)
    have "btree_after oid (bulk_view agent millis skip) = rest"
      using Cons unfolding e by (rule bt.after_step [OF bulk_view_inv [OF assms]])
    with Cons e Suc [of "oid_arcs oid"] show ?thesis by (simp add: next_entry_eq [OF assms])
  qed (simp add: next_entry_eq [OF assms])
qed simp

text \<open>
  C17. GETNEXT and GETBULK read one ordered map. \<open>bulk\<close> merges the published slots with the
  system group in one pass, filtering Counter64 values for a v1 manager; what it hands to the
  closure is the first \<open>limit\<close> entries past \<open>start\<close> of the view, in OID order, until the closure
  says to stop. \<open>agent_inv\<close> is the invariant every table operation preserves.
\<close>

theorem bulk_refines:
  assumes "agent_inv agent"
  shows "bulk agent millis start limit skip emit s =
    run_emit emit limit (btree_after (Oid start) (bulk_view agent millis skip)) s"
  using assms by (rule bulk_run)

text \<open>
  C18. A manager that walks the MIB, asking GETNEXT from each OID it is given, receives every
  instance past its start exactly once and in increasing OID order, and nothing else.
\<close>

theorem walk_complete:
  assumes "agent_inv agent" and "length (mib_view agent millis) \<le> n"
  shows "set (walk agent millis False n start) =
      {(oid, varbind). Oid start < oid \<and> btree_get (mib_view agent millis) oid = Some varbind}
    \<and> sorted_wrt (<) (map fst (walk agent millis False n start))"
proof -
  have inv: "btree_inv (mib_view agent millis)" using bulk_view_inv [OF assms(1), of millis False] by (simp add: bulk_view_all)
  have "length (btree_after (Oid start) (mib_view agent millis)) \<le> n"
    using assms(2) by (simp add: btree_after_def length_dropWhile_le [THEN le_trans])
  then have "walk agent millis False n start = btree_after (Oid start) (mib_view agent millis)"
    by (simp add: walk_take [OF assms(1)] bulk_view_all)
  then show ?thesis using bt.after_get [OF inv] bt.after_sorted [OF inv] by auto
qed


lemmas bind_simps = mib_view_def agent_bind_def Let_def system_instances_def system_values_def
  List.map_filter_def Oid_from_system SYS_UP_TIME_def published_entries_def system_entries_def
  btree_get_def SYSTEM_GROUP_def system_object_of_def Oid_from_arcs_def

theorem lookup_refines_witness:
  "lookup (agent_bind example_settings) 0 [1, 3, 6, 1, 2, 1, 1, 8, 0] = FoundNoSuchObject
   \<and> lookup (agent_bind example_settings) 0 [1, 3, 6, 1, 2, 1, 1, 7, 1] = FoundNoSuchInstance"
  using lookup_refines [OF agent_bind_inv [of example_settings], of 0]
  by (simp add: bind_simps Oid_is_prefix_of_def starts_with_def)

theorem bulk_refines_witness:
  "bulk (agent_bind example_settings) 0 [1, 3, 6, 1, 2, 1, 1, 5, 0] 5 False
     (\<lambda>oid _ seen. (True, seen @ [oid])) [] = [Oid [1, 3, 6, 1, 2, 1, 1, 6, 0], Oid [1, 3, 6, 1, 2, 1, 1, 7, 0]]"
  using bulk_refines [OF agent_bind_inv [of example_settings], of 0 "[1, 3, 6, 1, 2, 1, 1, 5, 0]" 5 False "\<lambda>oid _ seen. (True, seen @ [oid])" "[]"]
  by (simp add: bulk_view_all bind_simps btree_after_def less_eq_Oid_def run_emit_Suc)

theorem walk_complete_witness:
  "Oid [1, 3, 6, 1, 2, 1, 1, 1, 0] \<in> fst ` set (walk (agent_bind example_settings) 0 False 7 [1, 3])"
  using walk_complete [OF agent_bind_inv [of example_settings], of 0 7 "[1, 3]"]
  by (simp add: bind_simps btree_after_def less_Oid_def image_iff)

end
