(* ===== verification/V3.thy ===== *)
theory V3
  imports Ber_Codec "HOL-Library.Sublist"
begin

text \<open>
  The SNMPv3 message with its USM security parameters as it is read,
  \<open>sonda-core/src/encoder/snmp/v3.rs\<close>: the flags octet, the bounded header fields, the security
  parameters and the scoped PDU.

  A slice borrowed from the datagram is the list of its octets. The one place where the code
  looks at where a slice is, \<open>auth_range\<close>, subtracts addresses; the model counts the octets
  that follow the slice instead. \<open>v3_decode_auth_range\<close> shows that the range is right: the
  datagram is what is before it, the authentication parameter, and what is after it.
\<close>

section \<open>The message\<close>

definition V3_VERSION :: i64 where "V3_VERSION = 3"
definition V3_USM :: i64 where "V3_USM = 3"
definition MIN_MSG_MAX_SIZE :: i64 where "MIN_MSG_MAX_SIZE = 484"
definition MAX_FIELD :: i64 where "MAX_FIELD = 0x7FFFFFFF"
definition MSG_MAX_SIZE :: i64 where "MSG_MAX_SIZE = 65507"
definition AUTH_FLAG :: u8 where "AUTH_FLAG = 0x01"
definition PRIV_FLAG :: u8 where "PRIV_FLAG = 0x02"
definition REPORTABLE_FLAG :: u8 where "REPORTABLE_FLAG = 0x04"

record Flags =
  fl_auth :: bool
  fl_privacy :: bool
  fl_reportable :: bool

definition Flags_from_octet :: "u8 \<Rightarrow> Flags" where
  "Flags_from_octet octet =
     \<lparr> fl_auth = (octet AND AUTH_FLAG \<noteq> 0), fl_privacy = (octet AND PRIV_FLAG \<noteq> 0),
       fl_reportable = (octet AND REPORTABLE_FLAG \<noteq> 0) \<rparr>"

definition Flags_octet :: "Flags \<Rightarrow> u8" where
  "Flags_octet self =
     foldl (\<lambda>octet (_, flag). octet OR flag) 0
       (filter fst [(fl_auth self, AUTH_FLAG), (fl_privacy self, PRIV_FLAG), (fl_reportable self, REPORTABLE_FLAG)])"

record UsmParams =
  up_engine_id :: bytes
  up_boots :: u32
  up_time :: u32
  up_user :: bytes
  up_auth_params :: bytes
  up_priv_params :: bytes

record ScopedPdu =
  sp_context_engine_id :: bytes
  sp_context_name :: bytes
  sp_pdu :: Message

record V3Message =
  v3_msg_id :: i64
  v3_msg_max_size :: nat
  v3_flags :: Flags
  v3_security_model :: i64
  v3_usm :: UsmParams
  v3_auth_range :: "nat \<times> nat"
  v3_scoped :: "ScopedPdu option"
  v3_encrypted :: "bytes option"

section \<open>Decoding\<close>

definition v3_field :: "i64 \<Rightarrow> i64 reader" where
  "v3_field least inp =
     rbind (read_i64 Tag_Integer inp) (\<lambda>(v, rest).
     if \<not> (sint least \<le> sint v \<and> sint v \<le> sint MAX_FIELD) then Inl Overflow else Inr (v, rest))"

definition scoped_pdu :: "bytes \<Rightarrow> BerError + ScopedPdu" where
  "scoped_pdu body =
     rbind (read_octets Tag_OctetString body) (\<lambda>(context_engine_id, scoped).
     rbind (read_octets Tag_OctetString scoped) (\<lambda>(context_name, scoped).
     rbind (read_tlv scoped) (\<lambda>((pdu, pdu_body), scoped).
     if \<not> Tag_is_pdu pdu \<or> scoped \<noteq> []
     then Inl (if Tag_is_pdu pdu then BadLength else BadTag (Tag_byte pdu)) else
     rbind (read_i64 Tag_Integer pdu_body) (\<lambda>(request_id, pdu_fields).
     rbind (read_i64 Tag_Integer pdu_fields) (\<lambda>(error_status, pdu_fields).
     rbind (read_i64 Tag_Integer pdu_fields) (\<lambda>(error_index, pdu_fields).
     rbind (expect Tag_Sequence pdu_fields) (\<lambda>(varbinds, pdu_fields).
     if pdu_fields \<noteq> [] then Inl BadLength else
     Inr \<lparr> sp_context_engine_id = context_engine_id, sp_context_name = context_name,
           sp_pdu = \<lparr> msg_version = V3_VERSION, msg_community = [], msg_pdu = pdu,
             msg_request_id = request_id, msg_error_status = error_status,
             msg_error_index = error_index, msg_varbinds = varbinds \<rparr> \<rparr>)))))))"

definition v3_decode :: "bytes \<Rightarrow> BerError + V3Message" where
  "v3_decode datagram =
     rbind (expect Tag_Sequence datagram) (\<lambda>(body, outer).
     if outer \<noteq> [] then Inl BadLength else
     rbind (read_i64 Tag_Integer body) (\<lambda>(version, message).
     if version \<noteq> V3_VERSION then Inl (UnsupportedVersion version) else
     rbind (expect Tag_Sequence message) (\<lambda>(global, message).
     rbind (v3_field 0 global) (\<lambda>(msg_id, global).
     rbind (v3_field MIN_MSG_MAX_SIZE global) (\<lambda>(msg_max_size, global).
     rbind (read_octets Tag_OctetString global) (\<lambda>(flag_octets, global).
     rbind (case flag_octets of [octet] \<Rightarrow> Inr (Flags_from_octet octet) | _ \<Rightarrow> Inl BadLength) (\<lambda>flags.
     rbind (v3_field 0 global) (\<lambda>(security_model, global).
     if global \<noteq> [] then Inl BadLength else
     rbind (read_octets Tag_OctetString message) (\<lambda>(security, message).
     rbind (expect Tag_Sequence security) (\<lambda>(params, security).
     if security \<noteq> [] then Inl BadLength else
     rbind (read_octets Tag_OctetString params) (\<lambda>(engine_id, params).
     rbind (v3_field 0 params) (\<lambda>(boots, params).
     rbind (v3_field 0 params) (\<lambda>(time, params).
     rbind (read_octets Tag_OctetString params) (\<lambda>(user, params).
     rbind (read_octets Tag_OctetString params) (\<lambda>(auth_params, params).
     let after_auth = length params + length message in
     rbind (read_octets Tag_OctetString params) (\<lambda>(priv_params, params).
     if params \<noteq> [] then Inl BadLength else
     let auth_at = length datagram - after_auth - length auth_params in
     rbind (if fl_privacy flags
            then rbind (read_octets Tag_OctetString message) (\<lambda>(encrypted, message).
                 Inr ((None, Some encrypted), message))
            else rbind (expect Tag_Sequence message) (\<lambda>(scoped_body, message).
                 rbind (scoped_pdu scoped_body) (\<lambda>scoped. Inr ((Some scoped, None), message))))
       (\<lambda>((scoped, encrypted), message).
     if message \<noteq> [] then Inl BadLength else
     Inr \<lparr> v3_msg_id = msg_id, v3_msg_max_size = nat (sint msg_max_size), v3_flags = flags,
           v3_security_model = security_model,
           v3_usm = \<lparr> up_engine_id = engine_id, up_boots = of_int (sint boots), up_time = of_int (sint time),
             up_user = user, up_auth_params = auth_params, up_priv_params = priv_params \<rparr>,
           v3_auth_range = (auth_at, auth_at + length auth_params),
           v3_scoped = scoped, v3_encrypted = encrypted \<rparr>)))))))))))))))))"

definition decode_scoped_pdu :: "bytes \<Rightarrow> nat \<Rightarrow> BerError + ScopedPdu" where
  "decode_scoped_pdu plain padding =
     rbind (expect Tag_Sequence plain) (\<lambda>(body, after_body).
     rbind (scoped_pdu body) (\<lambda>scoped.
     if length after_body > padding then Inl BadLength else Inr scoped))"

section \<open>What a decoded message satisfies\<close>

lemma Flags_octet_roundtrip [simp]: "Flags_from_octet (Flags_octet f) = f"
  by (cases f) (simp add: Flags_from_octet_def Flags_octet_def AUTH_FLAG_def PRIV_FLAG_def REPORTABLE_FLAG_def)

lemma v3_field_bounds: "v3_field least inp = Inr (v, rest) \<Longrightarrow> sint least \<le> sint v \<and> sint v \<le> 0x7FFFFFFF"
  unfolding v3_field_def by (elim run_InrE) (auto simp: MAX_FIELD_def)

definition v3_ok :: "V3Message \<Rightarrow> bool" where
  "v3_ok m \<longleftrightarrow> 0 \<le> sint (v3_msg_id m) \<and> sint (v3_msg_id m) < 2 ^ 31
     \<and> 484 \<le> v3_msg_max_size m \<and> v3_msg_max_size m < 2 ^ 31
     \<and> up_boots (v3_usm m) < 2 ^ 31 \<and> up_time (v3_usm m) < 2 ^ 31
     \<and> (if fl_privacy (v3_flags m) then v3_scoped m = None \<and> v3_encrypted m \<noteq> None
        else v3_encrypted m = None \<and> v3_scoped m \<noteq> None)"


lemma scast_u32_small:
  fixes v :: i64
  assumes "0 \<le> sint v" and "sint v \<le> 0x7FFFFFFF"
  shows "(scast v :: u32) < 0x80000000"
proof -
  have "(scast v :: u32) = word_of_int (sint v)" by simp
  then show ?thesis using assms by (simp only: word_less_alt uint_word_of_int) simp
qed

lemma v3_decode_ok:
  assumes "v3_decode d = Inr m"
  shows "v3_ok m"
  using assms unfolding v3_decode_def Let_def 
  apply (elim run_InrE)
  apply hypsubst
  apply (drule v3_field_bounds)+
  apply (auto simp: v3_ok_def MIN_MSG_MAX_SIZE_def intro!: scast_u32_small elim!: run_InrE split: if_splits)
  done

lemma v3_decode_parts:
  assumes "v3_decode d = Inr m"
  obtains body message global message1 security message2 params p1 p2 p3 p4 p5 engine_id boots time user auth where
    "expect Tag_Sequence d = Inr (body, [])"
    and "read_i64 Tag_Integer body = Inr (V3_VERSION, message)"
    and "expect Tag_Sequence message = Inr (global, message1)"
    and "read_octets Tag_OctetString message1 = Inr (security, message2)"
    and "expect Tag_Sequence security = Inr (params, [])"
    and "read_octets Tag_OctetString params = Inr (engine_id, p1)"
    and "v3_field 0 p1 = Inr (boots, p2)"
    and "v3_field 0 p2 = Inr (time, p3)"
    and "read_octets Tag_OctetString p3 = Inr (user, p4)"
    and "read_octets Tag_OctetString p4 = Inr (auth, p5)"
    and "up_auth_params (v3_usm m) = auth"
    and "v3_auth_range m =
      (length d - (length p5 + length message2) - length auth,
       length d - (length p5 + length message2) - length auth + length auth)"
  using assms unfolding v3_decode_def Let_def
  apply (elim run_InrE)
  apply (simp only: not_not)
  apply (rule that)
  apply assumption+
  by auto

lemma suffix_tail: "suffix (xs @ ys) zs \<Longrightarrow> suffix ys zs"
  by (auto simp: suffix_def)

lemma expect_tail: "expect tag inp = Inr (body, rest) \<Longrightarrow> suffix (body @ rest) inp"
  using expect_split [of tag inp body rest] by (auto simp: suffix_def)

lemma read_i64_tail: "read_i64 tag inp = Inr (v, rest) \<Longrightarrow> suffix rest inp"
  unfolding read_i64_def by (elim run_InrE) (auto dest!: expect_tail intro: suffix_tail)

lemma v3_field_tail: "v3_field least inp = Inr (v, rest) \<Longrightarrow> suffix rest inp"
  unfolding v3_field_def by (elim run_InrE) (auto dest!: read_i64_tail)

lemma v3_decode_auth_range:
  assumes "v3_decode d = Inr m"
  shows "\<exists>before after. d = before @ up_auth_params (v3_usm m) @ after
     \<and> v3_auth_range m = (length before, length before + length (up_auth_params (v3_usm m)))"
  using assms
proof (rule v3_decode_parts)
  fix body message global message1 security message2 params p1 p2 p3 p4 p5 engine_id boots time user auth
  assume p: "expect Tag_Sequence d = Inr (body, [])"
      "read_i64 Tag_Integer body = Inr (V3_VERSION, message)"
      "expect Tag_Sequence message = Inr (global, message1)"
      "read_octets Tag_OctetString message1 = Inr (security, message2)"
      "expect Tag_Sequence security = Inr (params, [])"
      "read_octets Tag_OctetString params = Inr (engine_id, p1)"
      "v3_field 0 p1 = Inr (boots, p2)"
      "v3_field 0 p2 = Inr (time, p3)"
      "read_octets Tag_OctetString p3 = Inr (user, p4)"
      "read_octets Tag_OctetString p4 = Inr (auth, p5)"
    and r: "up_auth_params (v3_usm m) = auth" "v3_auth_range m =
      (length d - (length p5 + length message2) - length auth,
       length d - (length p5 + length message2) - length auth + length auth)"
  have "suffix (auth @ p5) security"
    using p(5,6,9,10) [unfolded read_octets_def, THEN expect_tail] p(7,8) [THEN v3_field_tail]
    by simp (meson suffix_tail suffix_order.trans)
  moreover have "suffix (security @ message2) d"
    using p(1,3,4) [unfolded read_octets_def, THEN expect_tail] p(2) [THEN read_i64_tail]
    by simp (meson suffix_tail suffix_order.trans)
  ultimately obtain before where d: "d = before @ auth @ p5 @ message2"
    by (auto simp: suffix_def)
  with r show ?thesis by (intro exI [of _ before] exI [of _ "p5 @ message2"]) simp
qed


text \<open>
  What \<open>decode\<close> accepts is in range (\<open>msgID\<close>, boots and time below 2^31, \<open>msgMaxSize\<close> 484 to
  2^31 - 1), carries a plaintext scoped PDU exactly when the privacy flag is clear, and \<open>auth_range\<close>
  is where the authentication parameter stands in the datagram.
\<close>

theorem v3_decode_sound:
  assumes "v3_decode d = Inr m"
  shows "v3_ok m \<and> (\<exists>before after. d = before @ up_auth_params (v3_usm m) @ after
    \<and> v3_auth_range m = (length before, length before + length (up_auth_params (v3_usm m))))"
  using v3_decode_ok [OF assms] v3_decode_auth_range [OF assms] by blast

definition discovery :: bytes where
  "discovery = [0x30, 55, 2, 1, 3,
     0x30, 13, 2, 1, 1, 2, 2, 5, 0xDC, 4, 1, 4, 2, 1, 3,
     4, 16, 0x30, 14, 4, 0, 2, 1, 0, 2, 1, 0, 4, 0, 4, 0, 4, 0,
     0x30, 17, 4, 0, 4, 0, 0xA0, 11, 2, 1, 7, 2, 1, 0, 2, 1, 0, 0x30, 0]"

lemma be_zeros: "foldl (\<lambda>acc b. acc * 256 + unat b) 0 (replicate n (0 :: u8)) = 0"
  by (induction n) simp_all

lemmas read_defs = expect_def raw_tlv_def read_i64_def decode_i64_def read_octets_def read_tlv_def Tag_from_byte_def
 from_be_bytes64_def be_val_def be_zeros

lemma discovery_decodes: "\<exists>m. v3_decode discovery = Inr m \<and> v3_auth_range m = (36, 36)
     \<and> v3_msg_max_size m = 1500 \<and> up_engine_id (v3_usm m) = []"
  by (simp add: discovery_def v3_decode_def v3_field_def scoped_pdu_def read_defs V3_VERSION_def MIN_MSG_MAX_SIZE_def MAX_FIELD_def
   Flags_from_octet_def AUTH_FLAG_def PRIV_FLAG_def REPORTABLE_FLAG_def Tag_is_pdu_def Let_def)
  
theorem v3_decode_sound_witness:
  "\<exists>m. v3_decode discovery = Inr m \<and> v3_ok m \<and> v3_auth_range m = (36, 36)"
  using discovery_decodes v3_decode_sound [of discovery] by blast

end
