(* ===== verification/Usm.thy ===== *)
theory Usm
  imports Agent V3
begin

text \<open>
  The User-based Security Model, \<open>sonda-core/src/sink/snmp/usm.rs\<close>: the engine and its clock, the
  salt counters, localized keys and their extension, the ciphers, and \<open>verify\<close>, the checks a
  request passes before it is answered.

  The hash functions, HMAC and the block cipher modes come from third-party crates. They are the
  fields of the record \<open>Crypto\<close>, an argument of every definition that uses them; \<open>crypto_ok\<close> is
  what the code relies on: digests and tags have their algorithm's length, and decrypting what
  was encrypted with the same key and IV gives the plaintext back, at its length.

  The clock is an argument: \<open>secs\<close> is the number of whole seconds since the bind.
\<close>

section \<open>What the crates provide\<close>

datatype AesCipher = AES128 | AES192 | AES256

record Crypto =
  cr_digest :: "AuthProtocol \<Rightarrow> bytes \<Rightarrow> bytes"
  cr_hmac :: "AuthProtocol \<Rightarrow> bytes \<Rightarrow> bytes \<Rightarrow> bytes"
  cr_des_cbc_encrypt :: "bytes \<Rightarrow> bytes \<Rightarrow> bytes list \<Rightarrow> bytes list"
  cr_des_cbc_decrypt :: "bytes \<Rightarrow> bytes \<Rightarrow> bytes list \<Rightarrow> bytes list"
  cr_aes_cfb_encrypt :: "AesCipher \<Rightarrow> bytes \<Rightarrow> bytes \<Rightarrow> bytes \<Rightarrow> bytes"
  cr_aes_cfb_decrypt :: "AesCipher \<Rightarrow> bytes \<Rightarrow> bytes \<Rightarrow> bytes \<Rightarrow> bytes"

section \<open>The engine\<close>

definition MAX_BOOTS_OR_TIME :: u32 where "MAX_BOOTS_OR_TIME = 0x7FFFFFFF"
definition TIME_WINDOW :: u32 where "TIME_WINDOW = 150"
definition MAX_AUTH_PARAMS :: nat where "MAX_AUTH_PARAMS = 48"
definition STRETCHED_PASSWORD :: nat where "STRETCHED_PASSWORD = 1048576"
definition BOOTS :: u32 where "BOOTS = 1"
definition DEFAULT_ENGINE_ID_PREFIX :: bytes where "DEFAULT_ENGINE_ID_PREFIX = [0x80, 0x00, 0x1F, 0x88, 0x05]"
definition DEFAULT_ENGINE_ID_HASH :: nat where "DEFAULT_ENGINE_ID_HASH = 16"
definition PRIV_PARAMS :: nat where "PRIV_PARAMS = 8"
definition DES_BLOCK :: nat where "DES_BLOCK = 8"

record SaltCounter =
  salt_des :: u32
  salt_aes :: u64

definition SaltCounter_starting_at :: "u32 \<Rightarrow> u64 \<Rightarrow> SaltCounter" where
  "SaltCounter_starting_at d a = \<lparr> salt_des = d, salt_aes = a \<rparr>"

definition next_des :: "SaltCounter \<Rightarrow> u32 \<times> SaltCounter" where
  "next_des salts = (salt_des salts, salts \<lparr> salt_des := salt_des salts + 1 \<rparr>)"

definition next_aes :: "SaltCounter \<Rightarrow> u64 \<times> SaltCounter" where
  "next_aes salts = (salt_aes salts, salts \<lparr> salt_aes := salt_aes salts + 1 \<rparr>)"

record Engine =
  en_id :: bytes
  en_boots :: u32
  en_salts :: SaltCounter

record Snapshot =
  sn_id :: bytes
  sn_boots :: u32
  sn_time :: u32

definition Engine_new :: "bytes \<Rightarrow> SaltCounter \<Rightarrow> Engine" where
  "Engine_new eid salts = \<lparr> en_id = eid, en_boots = BOOTS, en_salts = salts \<rparr>"

definition Engine_time :: "nat \<Rightarrow> u32" where
  "Engine_time secs = min (if secs < 2 ^ 32 then of_nat secs else 0xFFFFFFFF) MAX_BOOTS_OR_TIME"

definition abs_diff :: "u32 \<Rightarrow> u32 \<Rightarrow> u32" where
  "abs_diff a b = (if a < b then b - a else a - b)"

definition in_window :: "Engine \<Rightarrow> nat \<Rightarrow> u32 \<Rightarrow> u32 \<Rightarrow> bool" where
  "in_window engine secs boots time \<longleftrightarrow>
     en_boots engine < MAX_BOOTS_OR_TIME \<and> boots = en_boots engine
     \<and> abs_diff time (Engine_time secs) \<le> TIME_WINDOW"

definition Engine_snapshot :: "Engine \<Rightarrow> nat \<Rightarrow> Snapshot" where
  "Engine_snapshot engine secs =
     \<lparr> sn_id = en_id engine, sn_boots = en_boots engine, sn_time = Engine_time secs \<rparr>"

section \<open>Keys\<close>

text \<open>
  One 64-octet block of the stretched password: the \<open>n\<close>-th run of the inner loop over
  \<open>password.iter().cycle()\<close>, which yields nothing when the password is empty.
\<close>

definition stretched_block :: "bytes \<Rightarrow> nat \<Rightarrow> bytes" where
  "stretched_block password n =
     (if password = [] then replicate 64 0
      else map (\<lambda>i. password ! ((64 * n + i) mod length password)) [0..<64])"

text \<open>The \<open>update\<close>s of a digest hash the concatenation of what they are given.\<close>

definition password_to_key :: "Crypto \<Rightarrow> AuthProtocol \<Rightarrow> bytes \<Rightarrow> bytes" where
  "password_to_key cr protocol password =
     cr_digest cr protocol (concat (map (stretched_block password) [0..<STRETCHED_PASSWORD div 64]))"

definition localize :: "Crypto \<Rightarrow> AuthProtocol \<Rightarrow> bytes \<Rightarrow> bytes \<Rightarrow> bytes" where
  "localize cr protocol password engine_id =
     (let key = password_to_key cr protocol password
      in cr_digest cr protocol (key @ engine_id @ key))"

definition default_engine_id :: "Crypto \<Rightarrow> bytes \<Rightarrow> string \<Rightarrow> bytes" where
  "default_engine_id cr hostname bound =
     DEFAULT_ENGINE_ID_PREFIX
     @ take DEFAULT_ENGINE_ID_HASH
         (cr_digest cr Sha256 (as_bytes ''sonda:'' @ hostname @ as_bytes ('':'' @ bound)))"

fun auth_params_len :: "AuthProtocol \<Rightarrow> nat" where
  "auth_params_len Md5 = 12"
| "auth_params_len Sha1 = 12"
| "auth_params_len Sha224 = 16"
| "auth_params_len Sha256 = 24"
| "auth_params_len Sha384 = 32"
| "auth_params_len Sha512 = 48"

text \<open>\<open>out\<close> is the slice the tag is written into: it keeps its octets past the tag's length.\<close>

definition hmac_of :: "Crypto \<Rightarrow> AuthProtocol \<Rightarrow> bytes \<Rightarrow> bytes list \<Rightarrow> bytes \<Rightarrow> bytes" where
  "hmac_of cr protocol key parts out =
     (let tag = cr_hmac cr protocol key (concat parts);
          len = min (length out) (length tag)
      in take len tag @ drop len out)"

definition hmac :: "Crypto \<Rightarrow> AuthProtocol \<Rightarrow> bytes \<Rightarrow> bytes \<Rightarrow> bytes \<Rightarrow> bytes" where
  "hmac cr protocol key message out = hmac_of cr protocol key [message] out"

fun key_len :: "PrivProtocol \<Rightarrow> nat" where
  "key_len Des = 16"
| "key_len Aes128 = 16"
| "key_len Aes192 = 24"
| "key_len Aes192c = 24"
| "key_len Aes256 = 32"
| "key_len Aes256c = 32"

function extend_key_loop ::
  "Crypto \<Rightarrow> PrivProtocol \<Rightarrow> AuthProtocol \<Rightarrow> bytes \<Rightarrow> nat \<Rightarrow> bytes \<Rightarrow> bytes \<Rightarrow> bytes" where
  "extend_key_loop cr protocol auth engine_id needed key previous =
     (if length key < needed \<and> previous \<noteq> [] then
        let previous = (case protocol of
              Aes192 \<Rightarrow> cr_digest cr auth key
            | Aes256 \<Rightarrow> cr_digest cr auth key
            | _ \<Rightarrow> localize cr auth previous engine_id)
        in extend_key_loop cr protocol auth engine_id needed (key @ previous) previous
      else key)"
  by pat_completeness auto
termination
  by (relation "measure (\<lambda>(cr, protocol, auth, engine_id, needed, key, previous).
        2 * (needed - length key) + (if previous = [] then 0 else 1))")
     (auto simp flip: length_greater_0_conv intro: diff_less_mono2)

declare extend_key_loop.simps [simp del]

definition extend_key :: "Crypto \<Rightarrow> PrivProtocol \<Rightarrow> AuthProtocol \<Rightarrow> bytes \<Rightarrow> bytes \<Rightarrow> bytes" where
  "extend_key cr protocol auth kul engine_id =
     (let needed = key_len protocol
      in take needed (extend_key_loop cr protocol auth engine_id needed kul kul))"

record LocalizedUser =
  lu_name :: bytes
  lu_auth :: "(AuthProtocol \<times> bytes) option"
  lu_privacy :: "(PrivProtocol \<times> bytes) option"

definition LocalizedUser_new :: "Crypto \<Rightarrow> UsmUser \<Rightarrow> bytes \<Rightarrow> LocalizedUser" where
  "LocalizedUser_new cr user engine_id =
     (let auth = map_option (\<lambda>auth.
            (auth_protocol auth, localize cr (auth_protocol auth) (as_bytes (auth_password auth)) engine_id))
            (uu_auth user);
          privacy = (case (uu_auth user, uu_privacy user) of
              (Some auth, Some privacy) \<Rightarrow>
                let kul = localize cr (auth_protocol auth) (as_bytes (priv_password privacy)) engine_id
                in Some (priv_protocol privacy,
                     extend_key cr (priv_protocol privacy) (auth_protocol auth) kul engine_id)
            | _ \<Rightarrow> None)
      in \<lparr> lu_name = as_bytes (uu_name user), lu_auth = auth, lu_privacy = privacy \<rparr>)"

record Usm =
  usm_engine :: Engine
  usm_users :: "LocalizedUser list"

text \<open>The host's name, the bound address as it prints and the salts' random start are arguments.\<close>

definition Usm_new :: "Crypto \<Rightarrow> AgentSettings \<Rightarrow> bytes \<Rightarrow> string \<Rightarrow> SaltCounter \<Rightarrow> Usm" where
  "Usm_new cr s hostname local_addr salts =
     (let eid = (case set_engine_id s of Some e \<Rightarrow> e | None \<Rightarrow> default_engine_id cr hostname local_addr)
      in \<lparr> usm_engine = Engine_new eid salts,
           usm_users = map (\<lambda>user. LocalizedUser_new cr user eid) (set_users s) \<rparr>)"

definition usm_user :: "LocalizedUser list \<Rightarrow> bytes \<Rightarrow> LocalizedUser option" where
  "usm_user users name = List.find (\<lambda>user. lu_name user = name) users"

section \<open>Ciphers\<close>

datatype PrivError = NoKey | BadSalt | PrivBadLength | Garbled

definition padded_len :: "PrivProtocol \<Rightarrow> nat \<Rightarrow> nat" where
  "padded_len protocol len =
     (case protocol of Des \<Rightarrow> div_ceil len DES_BLOCK * DES_BLOCK | _ \<Rightarrow> len)"

definition array_of :: "nat \<Rightarrow> bytes \<Rightarrow> bytes" where
  "array_of n bs = take n bs @ replicate (n - length bs) 0"

text \<open>
  \<open>key.get(8..16).unwrap_or_default()\<close> is empty for a key below 16 octets; \<open>zip\<close> stops with
  the shortest of its iterators.
\<close>

definition priv_iv :: "PrivProtocol \<Rightarrow> bytes \<Rightarrow> u32 \<Rightarrow> u32 \<Rightarrow> bytes \<Rightarrow> bytes" where
  "priv_iv protocol key boots time salt =
     (case protocol of
        Des \<Rightarrow>
          let pre_iv = (if length key < 16 then [] else take 8 (drop 8 key));
              xored = map2 (\<lambda>pre s. pre XOR s) pre_iv salt
          in xored @ replicate (16 - length xored) 0
      | _ \<Rightarrow> to_be_bytes32 boots @ to_be_bytes32 time @ salt)"

text \<open>\<open>data.chunks_exact_mut(n)\<close>: the whole chunks; the octets past them stay as they are.\<close>

fun chunks_exact :: "nat \<Rightarrow> 'a list \<Rightarrow> 'a list list" where
  "chunks_exact n xs =
     (if n = 0 \<or> length xs < n then [] else take n xs # chunks_exact n (drop n xs))"

declare chunks_exact.simps [simp del]

definition cbc_run :: "(bytes list \<Rightarrow> bytes list) \<Rightarrow> bytes \<Rightarrow> bytes" where
  "cbc_run f data =
     concat (f (chunks_exact DES_BLOCK data)) @ drop (length data div DES_BLOCK * DES_BLOCK) data"

definition aes_cfb :: "Crypto \<Rightarrow> bytes \<Rightarrow> bytes \<Rightarrow> bytes \<Rightarrow> bool \<Rightarrow> bytes" where
  "aes_cfb cr key iv data enc =
     (let run = (\<lambda>c key. if enc then cr_aes_cfb_encrypt cr c key iv data else cr_aes_cfb_decrypt cr c key iv data)
      in if length key = 32 then run AES256 (array_of 32 key)
         else if length key = 24 then run AES192 (array_of 24 key)
         else run AES128 (array_of 16 key))"

definition crypt ::
  "Crypto \<Rightarrow> PrivProtocol \<Rightarrow> bytes \<Rightarrow> u32 \<Rightarrow> u32 \<Rightarrow> bytes \<Rightarrow> bytes \<Rightarrow> bool \<Rightarrow> bytes" where
  "crypt cr protocol key boots time salt data enc =
     (let iv = priv_iv protocol key boots time salt
      in case protocol of
           Des \<Rightarrow>
             let key = array_of 8 key; iv = array_of 8 iv
             in if enc then cbc_run (cr_des_cbc_encrypt cr key iv) data
                else cbc_run (cr_des_cbc_decrypt cr key iv) data
         | _ \<Rightarrow> aes_cfb cr key iv data enc)"

definition decrypt ::
  "Crypto \<Rightarrow> LocalizedUser \<Rightarrow> u32 \<Rightarrow> u32 \<Rightarrow> bytes \<Rightarrow> bytes \<Rightarrow> PrivError + ScopedPdu" where
  "decrypt cr user boots time priv_params cipher_text =
     rbind (ok_or (lu_privacy user) NoKey) (\<lambda>(protocol, key).
     if length priv_params \<noteq> PRIV_PARAMS then Inl BadSalt else
     if protocol = Des \<and> length cipher_text mod DES_BLOCK \<noteq> 0 then Inl PrivBadLength else
     let out = crypt cr protocol key boots time priv_params cipher_text False;
         padding = (case protocol of Des \<Rightarrow> DES_BLOCK - 1 | _ \<Rightarrow> 0)
     in map_err (\<lambda>_. Garbled) (decode_scoped_pdu out padding))"

text \<open>The ciphertext, the privacy parameter and the counters after it.\<close>

definition encrypt ::
  "Crypto \<Rightarrow> LocalizedUser \<Rightarrow> Snapshot \<Rightarrow> SaltCounter \<Rightarrow> bytes \<Rightarrow> bytes \<Rightarrow> bytes \<times> bytes \<times> SaltCounter" where
  "encrypt cr user engine salts data priv_params =
     (case lu_privacy user of
        None \<Rightarrow> (data, priv_params, salts)
      | Some (protocol, key) \<Rightarrow>
          let (salt, salts) = (case protocol of
                Des \<Rightarrow> let (n, salts) = next_des salts in (to_be_bytes32 (sn_boots engine) @ to_be_bytes32 n, salts)
              | _ \<Rightarrow> let (n, salts) = next_aes salts in (to_be_bytes64 n, salts))
          in (crypt cr protocol key (sn_boots engine) (sn_time engine) salt data True, salt, salts))"

section \<open>The checks\<close>

datatype UsmStat =
    UnknownEngineIds | UnknownUserNames | UnsupportedSecLevels
  | WrongDigests | NotInTimeWindows | DecryptionErrors

fun UsmStat_oid_body :: "UsmStat \<Rightarrow> bytes" where
  "UsmStat_oid_body UnsupportedSecLevels = [0x2B, 6, 1, 6, 3, 15, 1, 1, 1, 0]"
| "UsmStat_oid_body NotInTimeWindows = [0x2B, 6, 1, 6, 3, 15, 1, 1, 2, 0]"
| "UsmStat_oid_body UnknownUserNames = [0x2B, 6, 1, 6, 3, 15, 1, 1, 3, 0]"
| "UsmStat_oid_body UnknownEngineIds = [0x2B, 6, 1, 6, 3, 15, 1, 1, 4, 0]"
| "UsmStat_oid_body WrongDigests = [0x2B, 6, 1, 6, 3, 15, 1, 1, 5, 0]"
| "UsmStat_oid_body DecryptionErrors = [0x2B, 6, 1, 6, 3, 15, 1, 1, 6, 0]"

fun UsmStat_counter :: "UsmStat \<Rightarrow> Counter" where
  "UsmStat_counter UnknownEngineIds = UsmUnknownEngineIds"
| "UsmStat_counter UnknownUserNames = UsmUnknownUserNames"
| "UsmStat_counter UnsupportedSecLevels = UsmUnsupportedSecLevels"
| "UsmStat_counter WrongDigests = UsmWrongDigests"
| "UsmStat_counter NotInTimeWindows = UsmNotInTimeWindows"
| "UsmStat_counter DecryptionErrors = UsmDecryptionErrors"

datatype UsmVerdict =
    UsmAnswer LocalizedUser bool "ScopedPdu option"
  | UsmReport UsmStat bool

definition authentic :: "Crypto \<Rightarrow> AuthProtocol \<Rightarrow> bytes \<Rightarrow> V3Message \<Rightarrow> bytes \<Rightarrow> bool" where
  "authentic cr protocol key msg raw =
     (let len = auth_params_len protocol;
          (from_at, to_at) = v3_auth_range msg
      in if \<not> (from_at \<le> length raw \<and> to_at \<le> length raw) then False
         else if length (up_auth_params (v3_usm msg)) \<noteq> len \<or> to_at - from_at \<noteq> len then False
         else
           let before = take from_at raw; after = drop to_at raw;
               digest = hmac_of cr protocol key [before, replicate len 0, after] (replicate len 0)
           in constant_time_eq digest (up_auth_params (v3_usm msg)))"

definition verify :: "Crypto \<Rightarrow> V3Message \<Rightarrow> bytes \<Rightarrow> Engine \<Rightarrow> nat \<Rightarrow> LocalizedUser list \<Rightarrow> UsmVerdict" where
  "verify cr msg raw engine secs users =
     (let usm = v3_usm msg
      in if up_engine_id usm = [] \<or> up_engine_id usm \<noteq> en_id engine then UsmReport UnknownEngineIds False
         else case usm_user users (up_user usm) of
           None \<Rightarrow> UsmReport UnknownUserNames False
         | Some user \<Rightarrow>
             if (lu_auth user \<noteq> None, lu_privacy user \<noteq> None) \<noteq> (fl_auth (v3_flags msg), fl_privacy (v3_flags msg))
             then UsmReport UnsupportedSecLevels False
             else case lu_auth user of
               None \<Rightarrow> UsmAnswer user False None
             | Some (protocol, key) \<Rightarrow>
                 if \<not> authentic cr protocol key msg raw then UsmReport WrongDigests False
                 else if \<not> in_window engine secs (up_boots usm) (up_time usm) then UsmReport NotInTimeWindows True
                 else case v3_encrypted msg of
                   None \<Rightarrow> UsmAnswer user True None
                 | Some encrypted \<Rightarrow>
                     (case decrypt cr user (up_boots usm) (up_time usm) (up_priv_params usm) encrypted of
                        Inr scoped \<Rightarrow>
                          if sp_context_engine_id scoped = en_id engine then UsmAnswer user True (Some scoped)
                          else UsmReport DecryptionErrors True
                      | Inl _ \<Rightarrow> UsmReport DecryptionErrors True))"

section \<open>What the code relies on\<close>

fun digest_len :: "AuthProtocol \<Rightarrow> nat" where
  "digest_len Md5 = 16"
| "digest_len Sha1 = 20"
| "digest_len Sha224 = 28"
| "digest_len Sha256 = 32"
| "digest_len Sha384 = 48"
| "digest_len Sha512 = 64"

definition whole_blocks :: "bytes list \<Rightarrow> bool" where
  "whole_blocks bs \<longleftrightarrow> list_all (\<lambda>b. length b = DES_BLOCK) bs"

definition crypto_ok :: "Crypto \<Rightarrow> bool" where
  "crypto_ok cr \<longleftrightarrow>
     (\<forall>p d. length (cr_digest cr p d) = digest_len p)
     \<and> (\<forall>p k m. length (cr_hmac cr p k m) = digest_len p)
     \<and> (\<forall>k iv bs. whole_blocks bs \<longrightarrow>
          whole_blocks (cr_des_cbc_encrypt cr k iv bs) \<and> length (cr_des_cbc_encrypt cr k iv bs) = length bs
          \<and> whole_blocks (cr_des_cbc_decrypt cr k iv bs) \<and> length (cr_des_cbc_decrypt cr k iv bs) = length bs
          \<and> cr_des_cbc_decrypt cr k iv (cr_des_cbc_encrypt cr k iv bs) = bs)
     \<and> (\<forall>c k iv d. length (cr_aes_cfb_encrypt cr c k iv d) = length d
          \<and> length (cr_aes_cfb_decrypt cr c k iv d) = length d
          \<and> cr_aes_cfb_decrypt cr c k iv (cr_aes_cfb_encrypt cr c k iv d) = d)"

lemma crypto_okD:
  assumes "crypto_ok cr"
  shows "length (cr_digest cr p d) = digest_len p"
    and "length (cr_hmac cr p k m) = digest_len p"
    and "whole_blocks bs \<Longrightarrow> whole_blocks (cr_des_cbc_encrypt cr k iv bs)"
    and "whole_blocks bs \<Longrightarrow> length (cr_des_cbc_encrypt cr k iv bs) = length bs"
    and "whole_blocks bs \<Longrightarrow> whole_blocks (cr_des_cbc_decrypt cr k iv bs)"
    and "whole_blocks bs \<Longrightarrow> length (cr_des_cbc_decrypt cr k iv bs) = length bs"
    and "whole_blocks bs \<Longrightarrow> cr_des_cbc_decrypt cr k iv (cr_des_cbc_encrypt cr k iv bs) = bs"
    and "length (cr_aes_cfb_encrypt cr c k iv d) = length d"
    and "length (cr_aes_cfb_decrypt cr c k iv d) = length d"
    and "cr_aes_cfb_decrypt cr c k iv (cr_aes_cfb_encrypt cr c k iv d) = d"
  using assms unfolding crypto_ok_def by blast+

section \<open>Ciphers\<close>

lemma chunks_exact_whole: "whole_blocks (chunks_exact DES_BLOCK xs)"
  unfolding whole_blocks_def
proof (induction DES_BLOCK xs rule: chunks_exact.induct)
  case (1 xs)
  then show ?case by (subst chunks_exact.simps) (auto simp: DES_BLOCK_def)
qed

lemma length_chunks_exact: "length (chunks_exact DES_BLOCK xs) = length xs div DES_BLOCK"
proof (induction DES_BLOCK xs rule: chunks_exact.induct)
  case (1 xs)
  then show ?case
    by (subst chunks_exact.simps) (auto simp: DES_BLOCK_def le_div_geq)
qed

lemma concat_chunks_exact: "concat (chunks_exact DES_BLOCK xs) @ drop (length xs div DES_BLOCK * DES_BLOCK) xs = xs"
proof (induction DES_BLOCK xs rule: chunks_exact.induct)
  case (1 xs)
  show ?case
  proof (cases "length xs < DES_BLOCK")
    case True
    then show ?thesis by (subst chunks_exact.simps) simp
  next
    case False
    then have "length xs div DES_BLOCK * DES_BLOCK = DES_BLOCK + (length (drop DES_BLOCK xs) div DES_BLOCK) * DES_BLOCK"
      by (simp add: DES_BLOCK_def le_div_geq)
    with False 1 show ?thesis
      by (subst chunks_exact.simps) (simp add: DES_BLOCK_def add.commute)
  qed
qed

lemma length_concat_whole: "whole_blocks bs \<Longrightarrow> length (concat bs) = length bs * DES_BLOCK"
  by (induction bs) (simp_all add: whole_blocks_def)

lemma chunks_exact_concat:
  "whole_blocks bs \<Longrightarrow> length rest < DES_BLOCK \<Longrightarrow> chunks_exact DES_BLOCK (concat bs @ rest) = bs"
proof (induction bs)
  case Nil
  then show ?case by (subst chunks_exact.simps) simp
next
  case (Cons b bs)
  then show ?case by (subst chunks_exact.simps) (simp add: whole_blocks_def DES_BLOCK_def)
qed

lemma length_cbc_run:
  assumes "\<And>bs. whole_blocks bs \<Longrightarrow> whole_blocks (f bs) \<and> length (f bs) = length bs"
  shows "length (cbc_run f data) = length data"
proof -
  have w: "whole_blocks (f (chunks_exact DES_BLOCK data))"
    "length (f (chunks_exact DES_BLOCK data)) = length data div DES_BLOCK"
    using assms [OF chunks_exact_whole [of data]] by (simp_all add: length_chunks_exact)
  then show ?thesis by (simp add: cbc_run_def length_concat_whole)
qed

lemma cbc_run_inverse:
  assumes "\<And>bs. whole_blocks bs \<Longrightarrow> whole_blocks (f bs) \<and> length (f bs) = length bs \<and> g (f bs) = bs"
  shows "cbc_run g (cbc_run f data) = data"
proof -
  let ?c = "chunks_exact DES_BLOCK data" and ?r = "drop (length data div DES_BLOCK * DES_BLOCK) data"
  have f: "whole_blocks (f ?c)" "g (f ?c) = ?c" "length (f ?c) = length ?c"
    using assms [OF chunks_exact_whole [of data]] by simp_all
  have r: "length ?r < DES_BLOCK"
    by (simp add: DES_BLOCK_def minus_div_mult_eq_mod)
  have len: "length (cbc_run f data) = length data"
    using assms by (intro length_cbc_run) blast
  have cl: "length (concat (f ?c)) = length data div DES_BLOCK * DES_BLOCK"
    by (simp add: length_concat_whole [OF f(1)] f(3) length_chunks_exact)
  have "cbc_run g (cbc_run f data) = concat (g (chunks_exact DES_BLOCK (concat (f ?c) @ ?r)))
      @ drop (length data div DES_BLOCK * DES_BLOCK) (concat (f ?c) @ ?r)"
    by (simp add: cbc_run_def [of g] len) (simp add: cbc_run_def)
  also have "\<dots> = concat ?c @ ?r"
    by (simp only: chunks_exact_concat [OF f(1) r] f(2) drop_append cl) (simp add: cl)
  finally show ?thesis by (simp only: concat_chunks_exact)
qed

lemma crypt_roundtrip:
  assumes "crypto_ok cr"
  shows "crypt cr protocol key boots time salt (crypt cr protocol key boots time salt data True) False = data"
proof (cases "protocol = Des")
  case True
  then show ?thesis
    by (auto simp: crypt_def Let_def crypto_okD [OF assms] intro!: cbc_run_inverse)
next
  case False
  then show ?thesis
    by (cases protocol) (simp_all add: crypt_def aes_cfb_def Let_def crypto_okD [OF assms])
qed

lemma length_crypt:
  assumes "crypto_ok cr"
  shows "length (crypt cr protocol key boots time salt data enc) = length data"
proof (cases "protocol = Des")
  case True
  then show ?thesis
    by (auto simp: crypt_def Let_def crypto_okD [OF assms] intro!: length_cbc_run)
next
  case False
  then show ?thesis
    by (cases protocol) (simp_all add: crypt_def aes_cfb_def Let_def crypto_okD [OF assms])
qed

lemma padded_len_bounds:
  "len \<le> padded_len protocol len"
  "protocol \<noteq> Des \<Longrightarrow> padded_len protocol len = len"
  "padded_len Des len < len + DES_BLOCK" "padded_len Des len mod DES_BLOCK = 0"
proof -
  have d: "div_ceil len DES_BLOCK * DES_BLOCK < len + DES_BLOCK" "len \<le> div_ceil len DES_BLOCK * DES_BLOCK"
    unfolding div_ceil_def DES_BLOCK_def by presburger+
  show "len \<le> padded_len protocol len" "protocol \<noteq> Des \<Longrightarrow> padded_len protocol len = len"
    using d(2) by (cases protocol; simp add: padded_len_def)+
  show "padded_len Des len < len + DES_BLOCK" "padded_len Des len mod DES_BLOCK = 0"
    using d(1) by (simp_all add: padded_len_def)
qed

definition pad :: "PrivProtocol \<Rightarrow> bytes \<Rightarrow> bytes" where
  "pad protocol plain = plain @ replicate (padded_len protocol (length plain) - length plain) 0"

lemma length_pad [simp]: "length (pad protocol plain) = padded_len protocol (length plain)"
  using padded_len_bounds(1) [of "length plain" protocol] by (simp add: pad_def)

lemma decode_scoped_pdu_tlv:
  assumes "scoped_pdu body = Inr sp" and "length body < 2 ^ 32" and "length extra \<le> padding"
  shows "decode_scoped_pdu (tlv Tag_Sequence body @ extra) padding = Inr sp"
  using assms by (simp add: decode_scoped_pdu_def expect_tlv)

lemma length_salt: "encrypt cr user engine salts data pp = (ct, salt, salts') \<Longrightarrow> lu_privacy user \<noteq> None \<Longrightarrow> length salt = PRIV_PARAMS"
  by (auto simp: encrypt_def PRIV_PARAMS_def next_des_def next_aes_def Let_def split: PrivProtocol.splits prod.splits)

lemma privacy_decrypts:
  assumes "crypto_ok cr" and "lu_privacy user = Some (protocol, key)"
    and "scoped_pdu body = Inr sp" and "length body < 2 ^ 32"
    and "encrypt cr user engine salts (pad protocol (tlv Tag_Sequence body)) priv_params = (cipher_text, salt, salts')"
  shows "decrypt cr user (sn_boots engine) (sn_time engine) salt cipher_text = Inr sp"
proof -
  let ?plain = "pad protocol (tlv Tag_Sequence body)"
  have ct: "cipher_text = crypt cr protocol key (sn_boots engine) (sn_time engine) salt ?plain True"
    using assms(2,5) by (auto simp: encrypt_def split: prod.splits)
  have len: "length salt = PRIV_PARAMS" using assms(2,5) by (simp add: length_salt)
  have whole: "protocol = Des \<Longrightarrow> length cipher_text mod DES_BLOCK = 0"
    by (simp add: ct length_crypt [OF assms(1)] padded_len_bounds(4))
  let ?extra = "padded_len protocol (length (tlv Tag_Sequence body)) - length (tlv Tag_Sequence body)"
  have "?extra \<le> (case protocol of Des \<Rightarrow> DES_BLOCK - 1 | _ \<Rightarrow> 0)"
    using padded_len_bounds(2) [of protocol] padded_len_bounds(3) [of "length (tlv Tag_Sequence body)"]
    by (cases protocol) auto
  then have "decode_scoped_pdu ?plain (case protocol of Des \<Rightarrow> DES_BLOCK - 1 | _ \<Rightarrow> 0) = Inr sp"
    unfolding pad_def by (intro decode_scoped_pdu_tlv assms(3,4)) simp
  then show ?thesis
    using assms(2) len whole
    by (auto simp: decrypt_def ct crypt_roundtrip [OF assms(1)] Let_def)
qed

text \<open>
  A scoped PDU that is padded, encrypted for a user with privacy and sent with the salt
  \<open>encrypt\<close> returned decrypts, under the same boots and time, to that scoped PDU, for DES and every
  AES variant.
\<close>

theorem privacy_roundtrip:
  assumes "crypto_ok cr" and "lu_privacy user = Some (protocol, key)"
    and "scoped_pdu body = Inr sp" and "length body < 2 ^ 32"
    and "encrypt cr user engine salts (pad protocol (tlv Tag_Sequence body)) priv_params = (cipher_text, salt, salts')"
  shows "decrypt cr user (sn_boots engine) (sn_time engine) salt cipher_text = Inr sp"
  using assms by (rule privacy_decrypts)

section \<open>Keys\<close>

lemma digest_len_bounds: "16 \<le> digest_len p" "auth_params_len p \<le> digest_len p" "auth_params_len p \<le> MAX_AUTH_PARAMS" "0 < auth_params_len p"
  by (cases p; simp add: MAX_AUTH_PARAMS_def)+

lemma length_localize: "crypto_ok cr \<Longrightarrow> length (localize cr p password engine_id) = digest_len p"
  by (simp add: localize_def Let_def crypto_okD)

lemma extend_key_loop_length:
  assumes "crypto_ok cr" and "previous \<noteq> []"
  shows "needed \<le> length (extend_key_loop cr protocol auth engine_id needed key previous)"
  using assms
proof (induction cr protocol auth engine_id needed key previous rule: extend_key_loop.induct)
  case (1 cr protocol auth engine_id needed key previous)
  have "(case protocol of Aes192 \<Rightarrow> cr_digest cr auth key | Aes256 \<Rightarrow> cr_digest cr auth key
      | _ \<Rightarrow> localize cr auth previous engine_id) \<noteq> []"
    using digest_len_bounds(1) [of auth] length_localize [OF "1.prems"(1)] crypto_okD(1) [OF "1.prems"(1)]
    by (auto split: PrivProtocol.splits simp flip: length_greater_0_conv)
  with 1 show ?case by (subst extend_key_loop.simps) (simp add: Let_def)
qed

lemma length_extend_key:
  "crypto_ok cr \<Longrightarrow> kul \<noteq> [] \<Longrightarrow> length (extend_key cr protocol auth kul engine_id) = key_len protocol"
  using extend_key_loop_length [of cr kul "key_len protocol"] by (simp add: extend_key_def Let_def)

definition keys_ok :: "LocalizedUser \<Rightarrow> bool" where
  "keys_ok u \<longleftrightarrow>
     (case lu_auth u of None \<Rightarrow> lu_privacy u = None | Some (p, key) \<Rightarrow> length key = digest_len p)
     \<and> (case lu_privacy u of None \<Rightarrow> True | Some (p, key) \<Rightarrow> length key = key_len p)"

text \<open>
  An agent bound to accepted settings has, for each configured user in order, a localized user
  of that name with keys exactly where the configuration has passwords: an authentication key of
  the hash's length and a privacy key of the length the cipher takes, so \<open>extend_key\<close> always reaches
  it. Its engine ID is 5 to 32 octets, configured or not.
\<close>

theorem localized_users:
  assumes "crypto_ok cr" and "settings_ok s"
  shows "list_all2 (\<lambda>user u. keys_ok u \<and> lu_name u = as_bytes (uu_name user)
      \<and> (lu_auth u = None \<longleftrightarrow> uu_auth user = None) \<and> (lu_privacy u = None \<longleftrightarrow> uu_privacy user = None))
    (set_users s) (usm_users (Usm_new cr s hostname addr salts))
    \<and> (\<exists>n. 5 \<le> n \<and> n \<le> 32 \<and> length (en_id (usm_engine (Usm_new cr s hostname addr salts))) = n)"
proof -
  have ne: "localize cr p pw e \<noteq> []" for p pw e
    using length_localize [OF assms(1), of p pw e] digest_len_bounds(1) [of p] by auto
  have user: "keys_ok (LocalizedUser_new cr user e) \<and> lu_name (LocalizedUser_new cr user e) = as_bytes (uu_name user)
      \<and> (lu_auth (LocalizedUser_new cr user e) = None \<longleftrightarrow> uu_auth user = None)
      \<and> (lu_privacy (LocalizedUser_new cr user e) = None \<longleftrightarrow> uu_privacy user = None)"
    if "user_ok user" for user e
    using that by (auto simp: LocalizedUser_new_def keys_ok_def user_ok_def Let_def length_localize [OF assms(1)]
        length_extend_key [OF assms(1) ne] split: option.splits)
  have "list_all user_ok (set_users s)" using assms(2) by (simp add: settings_ok_def)
  then have "list_all2 (\<lambda>user u. keys_ok u \<and> lu_name u = as_bytes (uu_name user)
      \<and> (lu_auth u = None \<longleftrightarrow> uu_auth user = None) \<and> (lu_privacy u = None \<longleftrightarrow> uu_privacy user = None))
    (set_users s) (usm_users (Usm_new cr s hostname addr salts))"
    using user by (simp add: Usm_new_def Let_def list_all2_map2 list.rel_refl_strong list_all_iff)
  moreover have "5 \<le> length e \<and> length e \<le> 32" if "set_engine_id s = Some e" for e
    using that assms(2) by (simp add: settings_ok_def)
  then have "\<exists>n. 5 \<le> n \<and> n \<le> 32 \<and> length (en_id (usm_engine (Usm_new cr s hostname addr salts))) = n"
    using crypto_okD(1) [OF assms(1)]
    by (simp add: Usm_new_def Let_def Engine_new_def default_engine_id_def DEFAULT_ENGINE_ID_PREFIX_def
        DEFAULT_ENGINE_ID_HASH_def split: option.split)
  ultimately show ?thesis by blast
qed

section \<open>The clock\<close>

lemma Engine_time_nat: "unat (Engine_time secs) = min secs (2 ^ 31 - 1)"
proof (cases "secs < 2 ^ 32")
  case True
  then have "unat (of_nat secs :: u32) = secs" by (simp add: unat_of_nat_small)
  then show ?thesis using True
    by (auto simp: Engine_time_def MAX_BOOTS_OR_TIME_def min_def word_le_nat_alt)
qed (simp add: Engine_time_def MAX_BOOTS_OR_TIME_def min_def)

lemma uint_abs_diff: "uint (abs_diff a b) = \<bar>uint a - uint b\<bar>"
proof (cases "a < b")
  case True
  then have "uint (b - a) = uint b - uint a"
    by (intro uint_sub_lem [THEN iffD1]) (simp add: word_less_alt)
  with True show ?thesis by (simp add: abs_diff_def word_less_alt)
next
  case False
  then have "uint (a - b) = uint a - uint b"
    by (intro uint_sub_lem [THEN iffD1]) (simp add: word_less_alt not_less)
  with False show ?thesis by (simp add: abs_diff_def word_less_alt)
qed

lemma in_window_iff:
  "in_window engine secs boots time \<longleftrightarrow>
     uint (en_boots engine) < 2 ^ 31 - 1 \<and> boots = en_boots engine
     \<and> \<bar>uint time - int (min secs (2 ^ 31 - 1))\<bar> \<le> 150"
proof -
  have "uint (Engine_time secs) = int (min secs (2 ^ 31 - 1))"
    by (simp only: Engine_time_nat [symmetric] of_nat_unat)
  then show ?thesis
    unfolding in_window_def
    by (simp add: word_le_def word_less_alt uint_abs_diff MAX_BOOTS_OR_TIME_def TIME_WINDOW_def)
qed

section \<open>The checks\<close>

lemma hmac_of_eq:
  "length out \<le> length (cr_hmac cr protocol key (concat parts)) \<Longrightarrow>
     hmac_of cr protocol key parts out = take (length out) (cr_hmac cr protocol key (concat parts))"
  by (simp add: hmac_of_def Let_def min_def)

text \<open>The tag a message carries where it is \<open>before\<close>, the parameter, and \<open>after\<close>.\<close>

definition auth_tag :: "Crypto \<Rightarrow> AuthProtocol \<Rightarrow> bytes \<Rightarrow> bytes \<Rightarrow> bytes \<Rightarrow> bytes" where
  "auth_tag cr protocol key before after =
     take (auth_params_len protocol) (cr_hmac cr protocol key (before @ replicate (auth_params_len protocol) 0 @ after))"

lemma length_auth_tag: "crypto_ok cr \<Longrightarrow> length (auth_tag cr protocol key before after) = auth_params_len protocol"
  using digest_len_bounds(2) [of protocol] by (simp add: auth_tag_def crypto_okD)

lemma authentic_iff:
  assumes "crypto_ok cr" and "raw = before @ up_auth_params (v3_usm msg) @ after"
    and "v3_auth_range msg = (length before, length before + length (up_auth_params (v3_usm msg)))"
  shows "authentic cr protocol key msg raw \<longleftrightarrow>
    up_auth_params (v3_usm msg) = auth_tag cr protocol key before after"
proof -
  have "hmac_of cr protocol key [before, replicate (auth_params_len protocol) 0, after] (replicate (auth_params_len protocol) 0)
      = auth_tag cr protocol key before after"
    using digest_len_bounds(2) [of protocol]
    by (subst hmac_of_eq) (simp_all add: crypto_okD(2) [OF assms(1)] auth_tag_def)
  moreover have "length (auth_tag cr protocol key before after) = auth_params_len protocol"
    using assms(1) by (rule length_auth_tag)
  ultimately show ?thesis
    using assms(2,3) by (auto simp: authentic_def Let_def)
qed

fun first_failure :: "(bool \<times> UsmStat \<times> bool) list \<Rightarrow> (UsmStat \<times> bool) option" where
  "first_failure [] = None"
| "first_failure ((failed, report) # checks) = (if failed then Some report else first_failure checks)"

definition usm_checks ::
  "Crypto \<Rightarrow> V3Message \<Rightarrow> bytes \<Rightarrow> Engine \<Rightarrow> nat \<Rightarrow> LocalizedUser list \<Rightarrow> (bool \<times> UsmStat \<times> bool) list" where
  "usm_checks cr msg raw engine secs users =
     (let usm = v3_usm msg; user = the (usm_user users (up_user usm)); flags = v3_flags msg in
      [(up_engine_id usm = [] \<or> up_engine_id usm \<noteq> en_id engine, UnknownEngineIds, False),
       (usm_user users (up_user usm) = None, UnknownUserNames, False),
       ((lu_auth user \<noteq> None) \<noteq> fl_auth flags \<or> (lu_privacy user \<noteq> None) \<noteq> fl_privacy flags,
          UnsupportedSecLevels, False),
       (fl_auth flags \<and> \<not> authentic cr (fst (the (lu_auth user))) (snd (the (lu_auth user))) msg raw,
          WrongDigests, False),
       (fl_auth flags \<and> \<not> in_window engine secs (up_boots usm) (up_time usm), NotInTimeWindows, True),
       (fl_auth flags \<and> fl_privacy flags \<and>
          (case decrypt cr user (up_boots usm) (up_time usm) (up_priv_params usm) (the (v3_encrypted msg)) of
             Inl _ \<Rightarrow> True | Inr scoped \<Rightarrow> sp_context_engine_id scoped \<noteq> en_id engine),
          DecryptionErrors, True)])"

text \<open>
  C22. \<open>verify\<close> is the documented sequence of checks (RFC 3414, 3.2): the first one that fails decides the
  report and whether it is authenticated, and when none fails the request is answered for its
  user, with the decrypted scoped PDU under the privacy flag.
\<close>

theorem verify_order:
  assumes "v3_decode raw = Inr msg"
  shows "verify cr msg raw engine secs users =
    (case first_failure (usm_checks cr msg raw engine secs users) of
       Some (stat, authenticated) \<Rightarrow> UsmReport stat authenticated
     | None \<Rightarrow>
         let user = the (usm_user users (up_user (v3_usm msg))); flags = v3_flags msg
         in UsmAnswer user (fl_auth flags)
              (if fl_auth flags \<and> fl_privacy flags
               then to_option (decrypt cr user (up_boots (v3_usm msg)) (up_time (v3_usm msg))
                 (up_priv_params (v3_usm msg)) (the (v3_encrypted msg)))
               else None))"
proof -
  have "fl_privacy (v3_flags msg) \<longleftrightarrow> v3_encrypted msg \<noteq> None"
    using v3_decode_ok [OF assms] by (auto simp: v3_ok_def split: if_splits)
  then show ?thesis
    by (auto simp: verify_def usm_checks_def Let_def split: option.splits sum.splits)
qed

text \<open>
  C23. What an answer guarantees: the user is one of the agent's and is the one the request names; if that user
  has an authentication key, the datagram carries the HMAC of itself (with the parameter zeroed)
  under that key, its boots are the engine's and its time is within 150 seconds of the engine's clock;
  and if the user has a privacy key, the scoped PDU answered is a decrypted one. No request is
  answered below its user's security level.
\<close>

theorem verify_sound:
  assumes "crypto_ok cr" and "v3_decode raw = Inr msg"
    and "verify cr msg raw engine secs users = UsmAnswer user authenticated scoped"
  shows "user \<in> set users \<and> lu_name user = up_user (v3_usm msg) \<and> en_id engine = up_engine_id (v3_usm msg)
    \<and> (case lu_auth user of
         None \<Rightarrow> \<not> authenticated
       | Some (protocol, key) \<Rightarrow> authenticated
           \<and> (\<exists>before after. raw = before @ auth_tag cr protocol key before after @ after)
           \<and> up_boots (v3_usm msg) = en_boots engine
           \<and> \<bar>uint (up_time (v3_usm msg)) - int (min secs (2 ^ 31 - 1))\<bar> \<le> 150
           \<and> (lu_privacy user \<noteq> None \<longrightarrow> v3_scoped msg = None \<and> scoped \<noteq> None))"
proof -
  obtain before after where split: "raw = before @ up_auth_params (v3_usm msg) @ after"
      "v3_auth_range msg = (length before, length before + length (up_auth_params (v3_usm msg)))"
    using v3_decode_auth_range [OF assms(2)] by blast
  note auth = authentic_iff [OF assms(1) split]
  have ok: "v3_ok msg" using assms(2) by (rule v3_decode_ok)
  have found: "usm_user users (up_user (v3_usm msg)) = Some user" "en_id engine = up_engine_id (v3_usm msg)"
    using assms(3) by (auto simp: verify_def Let_def split: if_splits option.splits sum.splits)
  then have user: "user \<in> set users \<and> lu_name user = up_user (v3_usm msg)"
    by (auto simp: usm_user_def find_Some_iff)
  show ?thesis
  proof (cases "lu_auth user")
    case None
    then show ?thesis using assms(3) found user
      by (auto simp: verify_def Let_def split: if_splits)
  next
    case (Some pk)
    obtain protocol key where pk: "pk = (protocol, key)" by (cases pk)
    have "authenticated \<and> authentic cr protocol key msg raw
        \<and> in_window engine secs (up_boots (v3_usm msg)) (up_time (v3_usm msg))
        \<and> (lu_privacy user \<noteq> None \<longrightarrow> v3_scoped msg = None \<and> scoped \<noteq> None)"
      using assms(3) found Some pk ok
      by (auto simp: verify_def Let_def v3_ok_def split: if_splits option.splits sum.splits)
    then show ?thesis using user found(2) Some pk split(1) auth by (auto simp: in_window_iff)
  qed
qed

section \<open>Salts\<close>

fun salts_used :: "Crypto \<Rightarrow> LocalizedUser \<Rightarrow> SaltCounter \<Rightarrow> (Snapshot \<times> bytes) list \<Rightarrow> bytes list" where
  "salts_used cr user salts [] = []"
| "salts_used cr user salts ((engine, data) # msgs) =
     (case encrypt cr user engine salts data (replicate PRIV_PARAMS 0) of
        (_, salt, salts) \<Rightarrow> salt # salts_used cr user salts msgs)"

lemma be_nat_inj: "be_nat n a = be_nat n b \<Longrightarrow> a < 256 ^ n \<Longrightarrow> b < 256 ^ n \<Longrightarrow> a = b"
  by (metis be_val_be_nat mod_less)

lemma to_be_bytes32_inj: "to_be_bytes32 a = to_be_bytes32 b \<longleftrightarrow> a = b"
proof
  assume "to_be_bytes32 a = to_be_bytes32 b"
  then have "unat a = unat b"
    unfolding to_be_bytes32_def by (rule be_nat_inj) (simp_all add: unat_u32_less [simplified])
  then show "a = b" by (simp add: word_unat_eq_iff)
qed simp

lemma to_be_bytes64_inj: "to_be_bytes64 a = to_be_bytes64 b \<longleftrightarrow> a = b"
  by (metis from_to_be_bytes64)

definition nth_salt :: "PrivProtocol \<Rightarrow> u32 \<Rightarrow> SaltCounter \<Rightarrow> nat \<Rightarrow> bytes" where
  "nth_salt protocol boots salts i =
     (case protocol of
        Des \<Rightarrow> to_be_bytes32 boots @ to_be_bytes32 (salt_des salts + of_nat i)
      | _ \<Rightarrow> to_be_bytes64 (salt_aes salts + of_nat i))"

lemma encrypt_salt:
  assumes "lu_privacy user = Some (protocol, key)"
    and "encrypt cr user engine salts data pp = (ct, salt, salts')"
  shows "salt = nth_salt protocol (sn_boots engine) salts 0"
    and "nth_salt protocol boots salts' i = nth_salt protocol boots salts (Suc i)"
  using assms by (cases protocol; auto simp: encrypt_def nth_salt_def next_des_def next_aes_def Let_def algebra_simps)+

lemma salts_used_nth:
  assumes "lu_privacy user = Some (protocol, key)" and "list_all (\<lambda>(engine, _). sn_boots engine = boots) msgs"
  shows "salts_used cr user salts msgs = map (nth_salt protocol boots salts) [0..<length msgs]"
  using assms(2)
proof (induction msgs arbitrary: salts)
  case (Cons m msgs)
  obtain engine data where m: "m = (engine, data)" by (cases m)
  obtain ct salt salts' where e: "encrypt cr user engine salts data (replicate PRIV_PARAMS 0) = (ct, salt, salts')"
    by (metis prod_cases3)
  note salt = encrypt_salt [OF assms(1) e]
  have "salts_used cr user salts (m # msgs) = salt # map (nth_salt protocol boots salts') [0..<length msgs]"
    using Cons m e by simp
  also have "\<dots> = nth_salt protocol boots salts 0 # map (nth_salt protocol boots salts) (map Suc [0..<length msgs])"
    using Cons.prems m by (simp add: salt comp_def)
  also have "\<dots> = map (nth_salt protocol boots salts) [0..<length (m # msgs)]"
    by (simp add: map_Suc_upt upt_conv_Cons del: upt_Suc)
  finally show ?case .
qed simp

lemma nth_salt_inj:
  assumes "i < 2 ^ 32" and "j < 2 ^ 32" and "nth_salt protocol boots salts i = nth_salt protocol boots salts j"
  shows "i = j"
proof -
  have "(of_nat i :: u32) = of_nat j \<Longrightarrow> i = j" "(of_nat i :: u64) = of_nat j \<Longrightarrow> i = j"
    using assms(1,2) by (simp_all add: word_unat_eq_iff)
  then show ?thesis using assms(3)
    by (cases protocol) (simp_all add: nth_salt_def to_be_bytes32_inj to_be_bytes64_inj)
qed

text \<open>
  C24. No privacy salt repeats within a boot: up to 2^32 messages encrypted for a user, whatever value its
  counters started from and even across a wrap, carry pairwise distinct salts.
\<close>

theorem salts_distinct:
  assumes "lu_privacy user \<noteq> None" and "list_all (\<lambda>(engine, _). sn_boots engine = boots) msgs"
    and "length msgs \<le> 2 ^ 32"
  shows "distinct (salts_used cr user salts msgs)"
proof -
  obtain protocol key where "lu_privacy user = Some (protocol, key)" using assms(1) by auto
  then show ?thesis
    using assms(3) nth_salt_inj [of _ _ protocol boots salts]
    by (auto simp: salts_used_nth [OF _ assms(2)] distinct_map inj_on_def)
qed

section \<open>Concrete runs\<close>

text \<open>A stand-in for the crates that satisfies \<open>crypto_ok\<close>.\<close>

definition example_crypto :: Crypto where
  "example_crypto = \<lparr> cr_digest = (\<lambda>p _. replicate (digest_len p) 0), cr_hmac = (\<lambda>p _ _. replicate (digest_len p) 0),
     cr_des_cbc_encrypt = (\<lambda>_ _ bs. map (map NOT) bs), cr_des_cbc_decrypt = (\<lambda>_ _ bs. map (map NOT) bs),
     cr_aes_cfb_encrypt = (\<lambda>_ _ _ d. map NOT d), cr_aes_cfb_decrypt = (\<lambda>_ _ _ d. map NOT d) \<rparr>"

lemma example_crypto_ok: "crypto_ok example_crypto"
  by (auto simp: crypto_ok_def example_crypto_def whole_blocks_def comp_def list_all_iff)

definition example_user :: UsmUser where
  "example_user = \<lparr> uu_name = ''ops'', uu_auth = Some \<lparr> auth_protocol = Md5, auth_password = ''maplesyrup'' \<rparr>,
     uu_privacy = Some \<lparr> priv_protocol = Aes256, priv_password = ''maplesyrup'' \<rparr> \<rparr>"

definition example_v3_settings :: AgentSettings where
  "example_v3_settings = example_settings \<lparr> set_users := [example_user], set_versions := [Snmp_V3] \<rparr>"

definition example_engine_id :: bytes where
  "example_engine_id = [0x80, 0, 31, 136, 5]"

definition example_localized :: LocalizedUser where
  "example_localized = \<lparr> lu_name = [111, 112, 115], lu_auth = Some (Md5, replicate 16 0), lu_privacy = None \<rparr>"

definition example_private :: LocalizedUser where
  "example_private = example_localized \<lparr> lu_privacy := Some (Des, replicate 16 0) \<rparr>"

definition example_scoped_body :: bytes where
  "example_scoped_body = [4, 5, 128, 0, 31, 136, 5, 4, 0, 160, 11, 2, 1, 7, 2, 1, 0, 2, 1, 0, 48, 0]"

definition authenticated_get :: bytes where
  "authenticated_get = [48, 80, 2, 1, 3, 48, 13, 2, 1, 1, 2, 2, 5, 220, 4, 1, 5, 2, 1, 3, 4, 36, 48, 34, 4, 5, 128, 0, 31, 136, 5, 2, 1, 1, 2, 1, 0, 4, 3, 111, 112, 115, 4, 12, 0, 0, 0, 0, 0, 0, 0, 0, 0, 0, 0, 0, 4, 0, 48, 22, 4, 5, 128, 0, 31, 136, 5, 4, 0, 160, 11, 2, 1, 7, 2, 1, 0, 2, 1, 0, 48, 0]"

theorem localized_users_witness:
  "list_all keys_ok (usm_users (Usm_new example_crypto example_v3_settings [] [] (SaltCounter_starting_at 0 0)))"
  using localized_users [OF example_crypto_ok, of example_v3_settings "[]" "[]" "SaltCounter_starting_at 0 0"]
  by (auto simp: settings_ok_def example_v3_settings_def example_settings_def example_user_def user_ok_def
      oid_ok_def example_addr_def canonical_def list_all2_Cons1)

lemma example_scoped: "\<exists>sp. scoped_pdu example_scoped_body = Inr sp"
  by (simp add: example_scoped_body_def scoped_pdu_def read_defs Tag_is_pdu_def)

theorem privacy_roundtrip_witness:
  "\<exists>sp ct salt salts. scoped_pdu example_scoped_body = Inr sp
     \<and> encrypt example_crypto example_private \<lparr> sn_id = example_engine_id, sn_boots = 1, sn_time = 7 \<rparr>
         (SaltCounter_starting_at 3 4) (pad Des (tlv Tag_Sequence example_scoped_body)) [] = (ct, salt, salts)
     \<and> decrypt example_crypto example_private 1 7 salt ct = Inr sp"
proof -
  let ?engine = "\<lparr> sn_id = example_engine_id, sn_boots = 1, sn_time = 7 \<rparr>"
  obtain sp where sp: "scoped_pdu example_scoped_body = Inr sp" using example_scoped by blast
  obtain ct salt salts where e: "encrypt example_crypto example_private ?engine
      (SaltCounter_starting_at 3 4) (pad Des (tlv Tag_Sequence example_scoped_body)) [] = (ct, salt, salts)"
    by (metis prod_cases3)
  have "decrypt example_crypto example_private (sn_boots ?engine) (sn_time ?engine) salt ct = Inr sp"
    using e by (intro privacy_roundtrip [OF example_crypto_ok _ sp])
      (simp_all add: example_private_def example_scoped_body_def)
  with sp e show ?thesis by auto
qed

definition example_engine :: Engine where
  "example_engine = Engine_new example_engine_id (SaltCounter_starting_at 0 0)"

lemma authenticated_get_decodes:
  "\<exists>msg. v3_decode authenticated_get = Inr msg \<and> v3_auth_range msg = (44, 56)
     \<and> v3_usm msg = \<lparr> up_engine_id = example_engine_id, up_boots = 1, up_time = 0, up_user = [111, 112, 115],
          up_auth_params = [0, 0, 0, 0, 0, 0, 0, 0, 0, 0, 0, 0], up_priv_params = [] \<rparr>
     \<and> v3_flags msg = \<lparr> fl_auth = True, fl_privacy = False, fl_reportable = True \<rparr> \<and> v3_encrypted msg = None"
  by (simp add: authenticated_get_def v3_decode_def v3_field_def scoped_pdu_def read_defs V3_VERSION_def
      MIN_MSG_MAX_SIZE_def MAX_FIELD_def Flags_from_octet_def AUTH_FLAG_def PRIV_FLAG_def REPORTABLE_FLAG_def
      Tag_is_pdu_def Let_def example_engine_id_def )

theorem verify_order_witness:
  "\<exists>msg. v3_decode discovery = Inr msg
     \<and> verify example_crypto msg discovery example_engine 0 [example_localized] = UsmReport UnknownEngineIds False"
proof -
  obtain msg where msg: "v3_decode discovery = Inr msg" "up_engine_id (v3_usm msg) = []"
    using discovery_decodes by blast
  then have "verify example_crypto msg discovery example_engine 0 [example_localized] = UsmReport UnknownEngineIds False"
    using verify_order [OF msg(1), of example_crypto example_engine 0 "[example_localized]"]
    by (simp add: usm_checks_def Let_def)
  with msg(1) show ?thesis by blast
qed

theorem verify_sound_witness:
  "\<exists>msg. v3_decode authenticated_get = Inr msg
     \<and> verify example_crypto msg authenticated_get example_engine 90 [example_localized] = UsmAnswer example_localized True None
     \<and> (\<exists>before after. authenticated_get = before @ auth_tag example_crypto Md5 (replicate 16 0) before after @ after)"
proof -
  obtain msg where msg: "v3_decode authenticated_get = Inr msg" "v3_auth_range msg = (44, 56)"
      "v3_usm msg = \<lparr> up_engine_id = example_engine_id, up_boots = 1, up_time = 0, up_user = [111, 112, 115],
          up_auth_params = [0, 0, 0, 0, 0, 0, 0, 0, 0, 0, 0, 0], up_priv_params = [] \<rparr>"
      "v3_flags msg = \<lparr> fl_auth = True, fl_privacy = False, fl_reportable = True \<rparr>" "v3_encrypted msg = None"
    using authenticated_get_decodes by blast
  have len: "length authenticated_get = 82" by (simp add: authenticated_get_def)
  have zeros: "replicate 12 0 = [0, 0, 0, 0, 0, 0, 0, 0, 0, 0, 0, 0 :: u8]" by (simp add: numeral_eq_Suc)
  have auth: "authentic example_crypto Md5 (replicate 16 0) msg authenticated_get"
    using msg len by (simp add: authentic_def hmac_of_def example_crypto_def Let_def zeros [symmetric])
  have v: "verify example_crypto msg authenticated_get example_engine 90 [example_localized] = UsmAnswer example_localized True None"
    using msg auth by (simp add: verify_def usm_user_def example_localized_def example_engine_def Engine_new_def
        example_engine_id_def BOOTS_def in_window_def MAX_BOOTS_OR_TIME_def Engine_time_def abs_diff_def TIME_WINDOW_def Let_def)
  then show ?thesis
    using msg(1) verify_sound [OF example_crypto_ok msg(1) v] by (simp add: example_localized_def)
qed

theorem salts_distinct_witness:
  "distinct (salts_used example_crypto example_private (SaltCounter_starting_at 0xFFFFFFFF 0)
     [(\<lparr> sn_id = [], sn_boots = 1, sn_time = 0 \<rparr>, []), (\<lparr> sn_id = [], sn_boots = 1, sn_time = 9 \<rparr>, [])])"
  by (rule salts_distinct [where boots = 1]) (simp_all add: example_private_def)

end
