(* ===== verification/V3_Write.thy ===== *)
theory V3_Write
  imports Usm
begin

text \<open>
  The SNMPv3 messages the agent writes, \<open>sonda-core/src/encoder/snmp/v3.rs\<close>: responses at the
  request's security level and reports. The authentication and privacy parameters are first
  written zeroed, then replaced in place, once the outer length is known, by the salt and by the
  HMAC of the whole message; the encrypted scoped PDU replaces the plaintext at the end of the
  buffer.

  \<open>v3_octets\<close> is the message as one nested TLV expression. The lemmas show that the in-place
  writer produces it, that \<open>message_len\<close> is its length, and that reading it back gives the
  fields, a valid digest and the scoped PDU.
\<close>

section \<open>Lengths\<close>

definition auth_len :: "LocalizedUser option \<Rightarrow> nat" where
  "auth_len user =
     (case Option.bind user lu_auth of None \<Rightarrow> 0 | Some (protocol, _) \<Rightarrow> auth_params_len protocol)"

definition privacy_of :: "LocalizedUser option \<Rightarrow> bool \<Rightarrow> PrivProtocol option" where
  "privacy_of user private =
     (case Option.bind user lu_privacy of
        Some (protocol, _) \<Rightarrow> if private then Some protocol else None
      | None \<Rightarrow> None)"

definition usm_body_len :: "Snapshot \<Rightarrow> bytes \<Rightarrow> nat \<Rightarrow> nat \<Rightarrow> nat" where
  "usm_body_len engine user auth priv =
     tlv_len (length (sn_id engine)) + i64_len (ucast (sn_boots engine)) + i64_len (ucast (sn_time engine))
     + tlv_len (length user) + tlv_len auth + tlv_len priv"

definition v3_message_len :: "V3Message \<Rightarrow> Snapshot \<Rightarrow> LocalizedUser option \<Rightarrow> bool \<Rightarrow> nat \<Rightarrow> nat" where
  "v3_message_len req engine user private pdu =
     (let privacy = privacy_of user private;
          priv_len = (if privacy \<noteq> None then PRIV_PARAMS else 0);
          global = tlv_len (i64_len (v3_msg_id req) + i64_len MSG_MAX_SIZE + tlv_len 1 + i64_len V3_USM);
          security = tlv_len (tlv_len (usm_body_len engine (up_user (v3_usm req)) (auth_len user) priv_len));
          scoped = tlv_len (tlv_len (length (sn_id engine)) + tlv_len 0 + pdu);
          data = (case privacy of Some protocol \<Rightarrow> tlv_len (padded_len protocol scoped) | None \<Rightarrow> scoped)
      in tlv_len (i64_len V3_VERSION + global + security + data))"

definition response_len :: "V3Message \<Rightarrow> Snapshot \<Rightarrow> LocalizedUser option \<Rightarrow> nat \<Rightarrow> nat" where
  "response_len req engine user pdu = v3_message_len req engine user False pdu"

definition private_response_len :: "V3Message \<Rightarrow> Snapshot \<Rightarrow> LocalizedUser \<Rightarrow> nat \<Rightarrow> nat" where
  "private_response_len req engine user pdu = v3_message_len req engine (Some user) True pdu"

section \<open>Writing\<close>

definition body_start :: "bytes \<Rightarrow> nat \<Rightarrow> nat" where
  "body_start out start =
     (if start + 1 < length out \<and> out ! (start + 1) AND 0x80 \<noteq> 0
      then start + 2 + unat (out ! (start + 1) AND 0x7F) else start + 2)"

text \<open>\<open>Vec::resize(len, 0)\<close>.\<close>

definition resize :: "bytes \<Rightarrow> nat \<Rightarrow> bytes" where
  "resize out len = take len out @ replicate (len - length out) 0"

text \<open>\<open>out[at..at + n].copy_from_slice(bs)\<close> for \<open>n\<close> octets of \<open>bs\<close>, which panics out of range.\<close>

definition splice :: "bytes \<Rightarrow> nat \<Rightarrow> bytes \<Rightarrow> bytes" where
  "splice out at bs = take at out @ bs @ drop (at + length bs) out"

text \<open>
  The closure \<open>scoped_pdu\<close> appends the PDU, and may set a variable of its caller (\<open>'r\<close>).
  \<open>write_v3_body\<close> is the closure of the outer SEQUENCE: it also sets where the parameters are and
  how long the plaintext is. \<open>write_v3_lead\<close> is its first part, up to the privacy parameter.
\<close>

definition write_scoped :: "Snapshot \<Rightarrow> (bytes \<Rightarrow> 'r \<times> bytes) \<Rightarrow> bytes \<Rightarrow> 'r \<times> bytes" where
  "write_scoped engine pdu out =
     write_tlv_ret out Tag_Sequence (\<lambda>out.
       let out = write_octets out Tag_OctetString (sn_id engine);
           out = write_octets out Tag_OctetString []
       in pdu out)"

definition write_v3_lead ::
  "V3Message \<Rightarrow> Snapshot \<Rightarrow> nat \<Rightarrow> nat \<Rightarrow> Flags \<Rightarrow> bytes \<Rightarrow> nat \<times> nat \<times> bytes" where
  "write_v3_lead req engine alen priv_len flags out =
     (let body = length out;
          out = write_i64 out Tag_Integer V3_VERSION;
          out = write_tlv out Tag_Sequence (\<lambda>out.
            let out = write_i64 out Tag_Integer (v3_msg_id req);
                out = write_i64 out Tag_Integer MSG_MAX_SIZE;
                out = write_octets out Tag_OctetString [Flags_octet flags]
            in write_i64 out Tag_Integer V3_USM);
          params = usm_body_len engine (up_user (v3_usm req)) alen priv_len;
          out = write_header out Tag_OctetString (tlv_len params);
          out = write_header out Tag_Sequence params;
          out = write_octets out Tag_OctetString (sn_id engine);
          out = write_i64 out Tag_Integer (ucast (sn_boots engine));
          out = write_i64 out Tag_Integer (ucast (sn_time engine));
          out = write_octets out Tag_OctetString (up_user (v3_usm req));
          out = write_header out Tag_OctetString alen;
          auth_at = length out - body;
          out = resize out (length out + alen);
          out = write_header out Tag_OctetString priv_len;
          priv_at = length out - body;
          out = resize out (length out + priv_len)
      in (auth_at, priv_at, out))"

definition write_v3_body ::
  "V3Message \<Rightarrow> Snapshot \<Rightarrow> nat \<Rightarrow> PrivProtocol option \<Rightarrow> nat \<Rightarrow> Flags \<Rightarrow> (bytes \<Rightarrow> 'r \<times> bytes) \<Rightarrow>
     bytes \<Rightarrow> ('r \<times> nat \<times> nat \<times> nat) \<times> bytes" where
  "write_v3_body req engine alen privacy priv_len flags pdu out =
     (let (auth_at, priv_at, out) = write_v3_lead req engine alen priv_len flags out
      in case privacy of
           Some protocol \<Rightarrow>
             (let ((r, plain_len), out) = write_tlv_ret out Tag_OctetString (\<lambda>out.
                    let at = length out;
                        (r, out) = write_scoped engine pdu out;
                        plain_len = padded_len protocol (length out - at)
                    in ((r, plain_len), resize out (at + plain_len)))
              in ((r, auth_at, priv_at, plain_len), out))
         | None \<Rightarrow> (let (r, out) = write_scoped engine pdu out in ((r, auth_at, priv_at, 0), out)))"

definition v3_write_message ::
  "Crypto \<Rightarrow> bytes \<Rightarrow> V3Message \<Rightarrow> Snapshot \<Rightarrow> LocalizedUser option \<Rightarrow> SaltCounter option \<Rightarrow>
     (bytes \<Rightarrow> 'r \<times> bytes) \<Rightarrow> 'r \<times> SaltCounter option \<times> bytes" where
  "v3_write_message cr out req engine user salts pdu =
     (let start = length out;
          alen = auth_len user;
          privacy = privacy_of user (salts \<noteq> None);
          priv_len = (if privacy \<noteq> None then PRIV_PARAMS else 0);
          flags = \<lparr> fl_auth = (alen > 0), fl_privacy = (privacy \<noteq> None), fl_reportable = False \<rparr>;
          ((r, auth_at, priv_at, plain_len), out) =
            write_tlv_ret out Tag_Sequence (write_v3_body req engine alen privacy priv_len flags pdu);
          body = body_start out start;
          (salts, out) =
            (case (privacy, user, salts) of
               (Some _, Some user, Some salts) \<Rightarrow>
                 (let plain = length out - plain_len;
                      (cipher_text, salt, salts) = encrypt cr user engine salts (drop plain out) (replicate PRIV_PARAMS 0);
                      out = take plain out @ cipher_text
                  in (Some salts, splice out (body + priv_at) salt))
             | _ \<Rightarrow> (salts, out))
      in case Option.bind user lu_auth of
           None \<Rightarrow> (r, salts, out)
         | Some (protocol, key) \<Rightarrow>
             (let at = body + auth_at;
                  digest = hmac cr protocol key (drop start out) (replicate alen 0)
              in (r, salts, splice out at digest)))"

definition v3_write_response ::
  "Crypto \<Rightarrow> bytes \<Rightarrow> V3Message \<Rightarrow> Snapshot \<Rightarrow> LocalizedUser option \<Rightarrow> (bytes \<Rightarrow> 'r \<times> bytes) \<Rightarrow> 'r \<times> bytes" where
  "v3_write_response cr out req engine user pdu =
     (let (r, _, out) = v3_write_message cr out req engine user None pdu in (r, out))"

definition v3_write_private_response ::
  "Crypto \<Rightarrow> bytes \<Rightarrow> V3Message \<Rightarrow> Snapshot \<Rightarrow> LocalizedUser \<Rightarrow> SaltCounter \<Rightarrow> (bytes \<Rightarrow> 'r \<times> bytes) \<Rightarrow>
     'r \<times> SaltCounter option \<times> bytes" where
  "v3_write_private_response cr out req engine user salts pdu =
     v3_write_message cr out req engine (Some user) (Some salts) pdu"

definition write_report ::
  "Crypto \<Rightarrow> bytes \<Rightarrow> V3Message \<Rightarrow> Snapshot \<Rightarrow> UsmStat \<Rightarrow> u32 \<Rightarrow> LocalizedUser option \<Rightarrow> bytes" where
  "write_report cr out req engine stat v user =
     (let request_id = (case v3_scoped req of Some scoped \<Rightarrow> msg_request_id (sp_pdu scoped) | None \<Rightarrow> 0)
      in snd (v3_write_response cr out req engine user (\<lambda>out.
           ((), write_tlv out Tag_Report (\<lambda>out.
             let out = write_i64 out Tag_Integer request_id;
                 out = write_i64 out Tag_Integer 0;
                 out = write_i64 out Tag_Integer 0
             in write_tlv out Tag_Sequence (\<lambda>out.
                  write_tlv out Tag_Sequence (\<lambda>out.
                    write_counter32 (write_octets out Tag_Oid (UsmStat_oid_body stat)) v)))))))"

section \<open>The message as one expression\<close>

definition int_tlv :: "i64 \<Rightarrow> bytes" where
  "int_tlv v = tlv Tag_Integer (i64_octets v)"

definition v3_global :: "V3Message \<Rightarrow> Flags \<Rightarrow> bytes" where
  "v3_global req flags = int_tlv (v3_msg_id req) @ int_tlv MSG_MAX_SIZE
     @ tlv Tag_OctetString [Flags_octet flags] @ int_tlv V3_USM"

definition v3_params_head :: "V3Message \<Rightarrow> Snapshot \<Rightarrow> bytes" where
  "v3_params_head req engine = tlv Tag_OctetString (sn_id engine) @ int_tlv (ucast (sn_boots engine))
     @ int_tlv (ucast (sn_time engine)) @ tlv Tag_OctetString (up_user (v3_usm req))"

definition v3_params :: "V3Message \<Rightarrow> Snapshot \<Rightarrow> bytes \<Rightarrow> bytes \<Rightarrow> bytes" where
  "v3_params req engine auth salt = v3_params_head req engine @ tlv Tag_OctetString auth @ tlv Tag_OctetString salt"

definition v3_scoped_body :: "Snapshot \<Rightarrow> bytes \<Rightarrow> bytes" where
  "v3_scoped_body engine pdu = tlv Tag_OctetString (sn_id engine) @ tlv Tag_OctetString [] @ pdu"

definition v3_body :: "V3Message \<Rightarrow> Snapshot \<Rightarrow> Flags \<Rightarrow> bytes \<Rightarrow> bytes \<Rightarrow> bytes \<Rightarrow> bytes" where
  "v3_body req engine flags auth salt data =
     int_tlv V3_VERSION @ tlv Tag_Sequence (v3_global req flags)
     @ tlv Tag_OctetString (tlv Tag_Sequence (v3_params req engine auth salt)) @ data"

definition v3_octets :: "V3Message \<Rightarrow> Snapshot \<Rightarrow> Flags \<Rightarrow> bytes \<Rightarrow> bytes \<Rightarrow> bytes \<Rightarrow> bytes" where
  "v3_octets req engine flags auth salt data = tlv Tag_Sequence (v3_body req engine flags auth salt data)"

definition v3_sizes :: "V3Message \<Rightarrow> Snapshot \<Rightarrow> nat \<Rightarrow> bool" where
  "v3_sizes req engine pdu \<longleftrightarrow>
     length (sn_id engine) < 2 ^ 16 \<and> length (up_user (v3_usm req)) < 2 ^ 16 \<and> pdu < 2 ^ 24"

lemma tlv_len_le: "n < 2 ^ 30 \<Longrightarrow> tlv_len n \<le> n + 6"
  using length_len_long [of n 4] by (cases "n < 0x80") (simp_all add: length_len_def tlv_len_def)

lemma length_int_tlv [simp]: "length (int_tlv v) = i64_len v"
  using length_i64_octets [of v] by (simp add: int_tlv_def i64_len_eq)

lemma length_global [simp]:
  "length (v3_global req flags) = i64_len (v3_msg_id req) + i64_len MSG_MAX_SIZE + tlv_len 1 + i64_len V3_USM"
  by (simp add: v3_global_def)

lemma global_small: "length (v3_global req flags) < 100"
  using i64_len_small [of "v3_msg_id req"] i64_len_small [of MSG_MAX_SIZE] i64_len_small [of V3_USM] tlv_len_le [of 1]
  by simp

lemma length_params:
  assumes "v3_sizes req engine n" and "length auth \<le> 64" and "length salt \<le> 64"
  shows "length (v3_params req engine auth salt) =
      usm_body_len engine (up_user (v3_usm req)) (length auth) (length salt)"
    and "usm_body_len engine (up_user (v3_usm req)) (length auth) (length salt) < 2 ^ 18"
proof -
  have id: "length (sn_id engine) < 2 ^ 16" and user: "length (up_user (v3_usm req)) < 2 ^ 16"
    using assms(1) by (simp_all add: v3_sizes_def)
  show "length (v3_params req engine auth salt) =
      usm_body_len engine (up_user (v3_usm req)) (length auth) (length salt)"
    using id user assms(2,3) by (simp add: v3_params_def v3_params_head_def usm_body_len_def)
  show "usm_body_len engine (up_user (v3_usm req)) (length auth) (length salt) < 2 ^ 18"
    using tlv_len_le [of "length (sn_id engine)"] tlv_len_le [of "length (up_user (v3_usm req))"]
      tlv_len_le [of "length auth"] tlv_len_le [of "length salt"]
      i64_len_small [of "ucast (sn_boots engine)"] i64_len_small [of "ucast (sn_time engine)"] id user assms(2,3)
    by (simp add: usm_body_len_def)
qed

text \<open>The body up to its authentication parameter.\<close>

definition v3_lead :: "V3Message \<Rightarrow> Snapshot \<Rightarrow> Flags \<Rightarrow> nat \<Rightarrow> nat \<Rightarrow> bytes" where
  "v3_lead req engine flags alen plen =
     (let params = usm_body_len engine (up_user (v3_usm req)) alen plen
      in int_tlv V3_VERSION @ tlv Tag_Sequence (v3_global req flags) @ hdr Tag_OctetString (tlv_len params)
         @ hdr Tag_Sequence params @ v3_params_head req engine @ hdr Tag_OctetString alen)"

lemma v3_body_split:
  assumes "v3_sizes req engine n" and "length auth \<le> 64" and "length salt \<le> 64"
  shows "v3_body req engine flags auth salt data =
    v3_lead req engine flags (length auth) (length salt) @ auth @ hdr Tag_OctetString (length salt) @ salt @ data"
proof -
  note len = length_params [OF assms]
  have "length (tlv Tag_Sequence (v3_params req engine auth salt)) =
      tlv_len (usm_body_len engine (up_user (v3_usm req)) (length auth) (length salt))"
    using len by simp
  then have "tlv Tag_OctetString (tlv Tag_Sequence (v3_params req engine auth salt)) =
      hdr Tag_OctetString (tlv_len (usm_body_len engine (up_user (v3_usm req)) (length auth) (length salt)))
      @ hdr Tag_Sequence (usm_body_len engine (up_user (v3_usm req)) (length auth) (length salt))
      @ v3_params req engine auth salt"
    using len(1) by (simp add: tlv_def)
  then show ?thesis
    by (simp add: v3_body_def v3_lead_def v3_params_def tlv_def [of _ auth] tlv_def [of _ salt] Let_def)
qed

text \<open>Where the PDU is appended.\<close>

definition v3_prefix :: "bytes \<Rightarrow> V3Message \<Rightarrow> Snapshot \<Rightarrow> Flags \<Rightarrow> nat \<Rightarrow> nat \<Rightarrow> bool \<Rightarrow> bytes" where
  "v3_prefix out req engine flags alen plen private =
     out @ v3_lead req engine flags alen plen @ replicate alen 0 @ hdr Tag_OctetString plen @ replicate plen 0
     @ (if private then [Tag_byte Tag_OctetString, 0] else []) @ [Tag_byte Tag_Sequence, 0]
     @ tlv Tag_OctetString (sn_id engine) @ tlv Tag_OctetString []"

lemma length_scoped_body:
  "v3_sizes req engine (length pdu) \<Longrightarrow> length (v3_scoped_body engine pdu) = tlv_len (length (sn_id engine)) + tlv_len 0 + length pdu
    \<and> length (v3_scoped_body engine pdu) < 2 ^ 25"
  using tlv_len_le [of "length (sn_id engine)"] tlv_len_le [of 0] by (simp add: v3_scoped_body_def v3_sizes_def)

lemma write_scoped_eq:
  assumes "pdu (out @ [Tag_byte Tag_Sequence, 0] @ tlv Tag_OctetString (sn_id engine) @ tlv Tag_OctetString [])
      = (r, out @ [Tag_byte Tag_Sequence, 0] @ v3_scoped_body engine bs)"
    and "length (v3_scoped_body engine bs) < 2 ^ 32"
  shows "write_scoped engine pdu out = (r, out @ tlv Tag_Sequence (v3_scoped_body engine bs))"
  unfolding write_scoped_def using assms
  by (intro write_tlv_ret_tlv) (simp_all add: Let_def write_octets_tlv)

lemma resize_more: "resize out (length out + n) = out @ replicate n 0"
  by (simp add: resize_def)


lemma write_v3_lead_eq:
  "write_v3_lead req engine alen plen flags out =
    (length (v3_lead req engine flags alen plen),
     length (v3_lead req engine flags alen plen) + alen + length (hdr Tag_OctetString plen),
     out @ v3_lead req engine flags alen plen @ replicate alen 0 @ hdr Tag_OctetString plen @ replicate plen 0)"
proof -
  have g: "write_tlv (out @ int_tlv V3_VERSION) Tag_Sequence (\<lambda>out.
            let out = write_i64 out Tag_Integer (v3_msg_id req);
                out = write_i64 out Tag_Integer MSG_MAX_SIZE;
                out = write_octets out Tag_OctetString [Flags_octet flags]
            in write_i64 out Tag_Integer V3_USM) = out @ int_tlv V3_VERSION @ tlv Tag_Sequence (v3_global req flags)"
    using global_small [of req flags]
    by (subst write_tlv_tlv [where bs = "v3_global req flags"])
       (simp_all add: Let_def write_i64_tlv write_octets_tlv v3_global_def int_tlv_def)
  have lead: "write_header (write_octets (write_i64 (write_i64 (write_octets (write_header (write_header
        (out @ int_tlv V3_VERSION @ tlv Tag_Sequence (v3_global req flags)) Tag_OctetString (tlv_len params)) Tag_Sequence params)
        Tag_OctetString (sn_id engine)) Tag_Integer (ucast (sn_boots engine))) Tag_Integer (ucast (sn_time engine)))
        Tag_OctetString (up_user (v3_usm req))) Tag_OctetString alen = out @ v3_lead req engine flags alen plen"
    if "params = usm_body_len engine (up_user (v3_usm req)) alen plen" for params
    by (simp add: write_header_eq write_octets_tlv write_i64_tlv v3_lead_def v3_params_head_def Let_def that int_tlv_def)
  have i: "write_i64 out Tag_Integer V3_VERSION = out @ int_tlv V3_VERSION"
    by (simp add: write_i64_tlv int_tlv_def)
  show ?thesis
    unfolding write_v3_lead_def i
    by (simp only: Let_def [of "out @ int_tlv V3_VERSION"] g Let_def [of "usm_body_len _ _ _ _"])
       (simp only: Let_def lead [OF refl] resize_more, simp add: write_header_eq)
qed

text \<open>The body of the outer SEQUENCE as it is first written: the parameters zeroed, the data in plaintext.\<close>

definition v3_plain :: "PrivProtocol option \<Rightarrow> Snapshot \<Rightarrow> bytes \<Rightarrow> bytes" where
  "v3_plain privacy engine bs =
     (case privacy of
        Some protocol \<Rightarrow> tlv Tag_OctetString (pad protocol (tlv Tag_Sequence (v3_scoped_body engine bs)))
      | None \<Rightarrow> tlv Tag_Sequence (v3_scoped_body engine bs))"

definition v3_plain_len :: "PrivProtocol option \<Rightarrow> Snapshot \<Rightarrow> bytes \<Rightarrow> nat" where
  "v3_plain_len privacy engine bs =
     (case privacy of
        Some protocol \<Rightarrow> padded_len protocol (length (tlv Tag_Sequence (v3_scoped_body engine bs)))
      | None \<Rightarrow> 0)"

lemma resize_pad: "length (pad protocol bs) = n \<Longrightarrow> resize (out @ bs) (length out + n) = out @ pad protocol bs"
  using padded_len_bounds(1) [of "length bs" protocol] by (auto simp: resize_def pad_def)

lemma length_scoped_tlv:
  assumes "v3_sizes req engine (length bs)"
  shows "length (tlv Tag_Sequence (v3_scoped_body engine bs)) = tlv_len (tlv_len (length (sn_id engine)) + tlv_len 0 + length bs)"
    and "length (tlv Tag_Sequence (v3_scoped_body engine bs)) < 2 ^ 26"
    and "padded_len protocol (length (tlv Tag_Sequence (v3_scoped_body engine bs))) < 2 ^ 27"
proof -
  note len = length_scoped_body [OF assms]
  show l: "length (tlv Tag_Sequence (v3_scoped_body engine bs)) = tlv_len (tlv_len (length (sn_id engine)) + tlv_len 0 + length bs)"
    using len by simp
  show "length (tlv Tag_Sequence (v3_scoped_body engine bs)) < 2 ^ 26"
    using len tlv_len_le [of "length (v3_scoped_body engine bs)"] by simp
  then show "padded_len protocol (length (tlv Tag_Sequence (v3_scoped_body engine bs))) < 2 ^ 27"
    using padded_len_bounds(2) [of protocol "length (tlv Tag_Sequence (v3_scoped_body engine bs))"]
      padded_len_bounds(3) [of "length (tlv Tag_Sequence (v3_scoped_body engine bs))"]
    by (cases "protocol = Des") (simp_all add: DES_BLOCK_def)
qed

lemma write_v3_body_eq:
  assumes "v3_sizes req engine (length bs)"
    and "pdu (v3_prefix out req engine flags alen plen (privacy \<noteq> None))
      = (r, v3_prefix out req engine flags alen plen (privacy \<noteq> None) @ bs)"
  shows "write_v3_body req engine alen privacy plen flags pdu out =
    ((r, length (v3_lead req engine flags alen plen),
      length (v3_lead req engine flags alen plen) + alen + length (hdr Tag_OctetString plen), v3_plain_len privacy engine bs),
     out @ v3_lead req engine flags alen plen @ replicate alen 0 @ hdr Tag_OctetString plen @ replicate plen 0
       @ v3_plain privacy engine bs)"
proof (cases privacy)
  case None
  let ?out = "out @ v3_lead req engine flags alen plen @ replicate alen 0 @ hdr Tag_OctetString plen @ replicate plen 0"
  have "write_scoped engine pdu ?out = (r, ?out @ tlv Tag_Sequence (v3_scoped_body engine bs))"
    using assms(2) None length_scoped_body [OF assms(1)]
    by (intro write_scoped_eq) (simp_all add: v3_prefix_def v3_scoped_body_def)
  with None show ?thesis
    by (simp add: write_v3_body_def write_v3_lead_eq v3_plain_def v3_plain_len_def)
next
  case (Some protocol)
  let ?out = "out @ v3_lead req engine flags alen plen @ replicate alen 0 @ hdr Tag_OctetString plen @ replicate plen 0"
  let ?in = "?out @ [Tag_byte Tag_OctetString, 0]"
  let ?s = "tlv Tag_Sequence (v3_scoped_body engine bs)"
  have sc: "write_scoped engine pdu ?in = (r, ?in @ ?s)"
    using assms(2) Some length_scoped_body [OF assms(1)]
    by (intro write_scoped_eq) (simp_all add: v3_prefix_def v3_scoped_body_def)
  have "write_tlv_ret ?out Tag_OctetString (\<lambda>out.
      let at = length out; (r, out) = write_scoped engine pdu out; plain_len = padded_len protocol (length out - at)
      in ((r, plain_len), resize out (at + plain_len))) =
    ((r, padded_len protocol (length ?s)), ?out @ tlv Tag_OctetString (pad protocol ?s))"
  proof (rule write_tlv_ret_tlv)
    have "resize (?in @ ?s) (length ?in + padded_len protocol (length ?s)) = ?in @ pad protocol ?s"
      by (rule resize_pad) simp
    then show "(let at = length ?in; (r, out) = write_scoped engine pdu ?in; plain_len = padded_len protocol (length out - at)
      in ((r, plain_len), resize out (at + plain_len))) =
      ((r, padded_len protocol (length ?s)), ?out @ [Tag_byte Tag_OctetString, 0] @ pad protocol ?s)"
      by (simp only: sc Let_def prod.case) simp
    show "length (pad protocol ?s) < 2 ^ 64" using length_scoped_tlv(3) [OF assms(1), of protocol] by simp
  qed
  with Some show ?thesis
    by (simp add: write_v3_body_def write_v3_lead_eq v3_plain_def v3_plain_len_def)
qed

lemma len_octets_head:
  assumes "n < 2 ^ 32"
  shows "\<exists>b rest. len_octets n = b # rest \<and> (if b AND 0x80 \<noteq> 0 then length rest = unat (b AND 0x7F) else rest = [])"
proof (cases "n < 0x80")
  case True
  then have "(of_nat n :: u8) AND 0x80 = 0" by (simp add: hi_bit_iff unat_of_nat)
  with True show ?thesis by (simp add: len_octets_short)
next
  case False
  then have k: "length_len n - 1 \<le> 4" and l: "len_octets n = (0x80 OR of_nat (length_len n - 1)) # be_nat (length_len n - 1) n"
    using length_len_long [of n 4] assms by (simp_all add: len_octets_long)
  let ?k = "length_len n - 1"
  have "?k \<in> set [0..<5]" using k by simp
  moreover have "list_all (\<lambda>k. (0x80 OR of_nat k :: u8) AND 0x80 \<noteq> 0 \<and> unat ((0x80 OR of_nat k :: u8) AND 0x7F) = k) [0..<5]"
    by (simp add: upt_rec)
  ultimately show ?thesis unfolding l by (auto simp: list_all_iff)
qed

lemma body_start_tlv:
  assumes "length bs < 2 ^ 32"
  shows "body_start (out @ tlv tag bs) (length out) = length out + length (hdr tag (length bs))"
proof -
  obtain b rest where b: "len_octets (length bs) = b # rest"
      "if b AND 0x80 \<noteq> 0 then length rest = unat (b AND 0x7F) else rest = []"
    using len_octets_head [OF assms] by blast
  then show ?thesis by (auto simp: body_start_def tlv_def hdr_def nth_append split: if_splits)
qed

lemma splice_mid: "length a = at \<Longrightarrow> length old = length bs \<Longrightarrow> splice (a @ old @ c) at bs = a @ bs @ c"
  by (simp add: splice_def)

definition v3_flags_for :: "LocalizedUser option \<Rightarrow> SaltCounter option \<Rightarrow> Flags" where
  "v3_flags_for user salts =
     \<lparr> fl_auth = (auth_len user > 0), fl_privacy = (privacy_of user (salts \<noteq> None) \<noteq> None), fl_reportable = False \<rparr>"

definition v3_seal :: "Crypto \<Rightarrow> Snapshot \<Rightarrow> LocalizedUser option \<Rightarrow> SaltCounter option \<Rightarrow> bytes \<Rightarrow>
    bytes \<times> bytes \<times> SaltCounter option" where
  "v3_seal cr engine user salts bs =
     (let scoped = tlv Tag_Sequence (v3_scoped_body engine bs)
      in case (privacy_of user (salts \<noteq> None), user, salts) of
           (Some protocol, Some user, Some salts) \<Rightarrow>
             (let (cipher_text, salt, salts) = encrypt cr user engine salts (pad protocol scoped) (replicate PRIV_PARAMS 0)
              in (tlv Tag_OctetString cipher_text, salt, Some salts))
         | _ \<Rightarrow> (scoped, [], salts))"

definition v3_sign :: "Crypto \<Rightarrow> LocalizedUser option \<Rightarrow> (bytes \<Rightarrow> bytes) \<Rightarrow> bytes" where
  "v3_sign cr user message =
     (case Option.bind user lu_auth of
        None \<Rightarrow> []
      | Some (protocol, key) \<Rightarrow>
          take (auth_params_len protocol) (cr_hmac cr protocol key (message (replicate (auth_params_len protocol) 0))))"

definition v3_message_octets ::
  "Crypto \<Rightarrow> V3Message \<Rightarrow> Snapshot \<Rightarrow> LocalizedUser option \<Rightarrow> SaltCounter option \<Rightarrow> bytes \<Rightarrow> bytes" where
  "v3_message_octets cr req engine user salts bs =
     (let (data, salt, _) = v3_seal cr engine user salts bs;
          message = (\<lambda>auth. v3_octets req engine (v3_flags_for user salts) auth salt data)
      in message (v3_sign cr user message))"

lemma auth_len_eq: "auth_len user = (case Option.bind user lu_auth of None \<Rightarrow> 0 | Some (protocol, _) \<Rightarrow> auth_params_len protocol)"
  by (simp add: auth_len_def)

lemma auth_len_small: "auth_len user \<le> 48"
proof -
  have "auth_params_len p \<le> 48" for p by (cases p) simp_all
  then show ?thesis by (auto simp: auth_len_def split: option.split)
qed

lemma length_v3_sign: "crypto_ok cr \<Longrightarrow> length (v3_sign cr user message) = auth_len user"
  using digest_len_bounds(2)
  by (auto simp: v3_sign_def auth_len_def crypto_okD split: option.splits)

lemma v3_seal_cases:
  assumes "crypto_ok cr" and "v3_sizes req engine (length bs)" and "v3_seal cr engine user salts bs = (data, salt, salts')"
  shows "length data = length (v3_plain (privacy_of user (salts \<noteq> None)) engine bs)"
    and "length salt = (if privacy_of user (salts \<noteq> None) \<noteq> None then PRIV_PARAMS else 0)"
    and "length data < 2 ^ 28"
proof -
  let ?s = "tlv Tag_Sequence (v3_scoped_body engine bs)"
  note len = length_scoped_tlv [OF assms(2)]
  have "length data = length (v3_plain (privacy_of user (salts \<noteq> None)) engine bs)
      \<and> length salt = (if privacy_of user (salts \<noteq> None) \<noteq> None then PRIV_PARAMS else 0)
      \<and> length data < 2 ^ 28"
  proof (cases "privacy_of user (salts \<noteq> None)")
    case None
    then show ?thesis using assms(3) len(2) by (auto simp: v3_seal_def v3_plain_def Let_def)
  next
    case (Some protocol)
    then obtain u s key where u: "user = Some u" "salts = Some s" "lu_privacy u = Some (protocol, key)"
      by (auto simp: privacy_of_def bind_eq_Some_conv split: option.splits if_splits)
    obtain ct sa s' where e: "encrypt cr u engine s (pad protocol ?s) (replicate PRIV_PARAMS 0) = (ct, sa, s')"
      by (metis prod_cases3)
    have "length ct = padded_len protocol (length ?s)"
      using e u(3) by (auto simp: encrypt_def length_crypt [OF assms(1)] split: prod.splits)
    moreover have "length sa = PRIV_PARAMS" using e u(3) by (simp add: length_salt)
    moreover have "data = tlv Tag_OctetString ct" "salt = sa"
      using assms(3) Some u e by (simp_all add: v3_seal_def Let_def)
    ultimately show ?thesis
      using Some len(3) [of protocol] tlv_len_le [of "padded_len protocol (length ?s)"] by (simp add: v3_plain_def)
  qed
  then show "length data = length (v3_plain (privacy_of user (salts \<noteq> None)) engine bs)"
    and "length salt = (if privacy_of user (salts \<noteq> None) \<noteq> None then PRIV_PARAMS else 0)"
    and "length data < 2 ^ 28"
    by blast+
qed

lemma length_lead:
  assumes "v3_sizes req engine n" and "alen \<le> 64" and "plen \<le> 64"
  shows "length (v3_lead req engine flags alen plen @ replicate alen 0 @ hdr Tag_OctetString plen @ replicate plen (0 :: u8)) =
      i64_len V3_VERSION + tlv_len (length (v3_global req flags)) + tlv_len (tlv_len (usm_body_len engine (up_user (v3_usm req)) alen plen))"
    and "i64_len V3_VERSION + tlv_len (length (v3_global req flags)) + tlv_len (tlv_len (usm_body_len engine (up_user (v3_usm req)) alen plen)) < 2 ^ 19"
proof -
  let ?a = "replicate alen (0 :: u8)" and ?p = "replicate plen (0 :: u8)"
  note len = length_params [OF assms(1), of ?a ?p]
  have l2: "tlv_len (usm_body_len engine (up_user (v3_usm req)) alen plen) < 2 ^ 18 + 6"
    using len(2) tlv_len_le [of "usm_body_len engine (up_user (v3_usm req)) alen plen"] assms(2,3) by simp
  have "length (v3_body req engine flags ?a ?p []) =
      i64_len V3_VERSION + tlv_len (length (v3_global req flags)) + tlv_len (tlv_len (usm_body_len engine (up_user (v3_usm req)) alen plen))"
    using len l2 assms(2,3) global_small [of req flags] by (simp add: v3_body_def)
  then show "length (v3_lead req engine flags alen plen @ ?a @ hdr Tag_OctetString plen @ ?p) =
      i64_len V3_VERSION + tlv_len (length (v3_global req flags)) + tlv_len (tlv_len (usm_body_len engine (up_user (v3_usm req)) alen plen))"
    using v3_body_split [OF assms(1), of ?a ?p flags "[]"] assms(2,3) by simp
  show "i64_len V3_VERSION + tlv_len (length (v3_global req flags)) + tlv_len (tlv_len (usm_body_len engine (up_user (v3_usm req)) alen plen)) < 2 ^ 19"
    using i64_len_small [of V3_VERSION] global_small [of req flags] tlv_len_le [of "length (v3_global req flags)"]
      tlv_len_le [of "tlv_len (usm_body_len engine (up_user (v3_usm req)) alen plen)"] l2 by simp
qed

text \<open>Encrypting the plaintext at the end and splicing in the salt.\<close>

definition v3_encrypt_in_place ::
  "Crypto \<Rightarrow> Snapshot \<Rightarrow> LocalizedUser option \<Rightarrow> SaltCounter option \<Rightarrow> nat \<Rightarrow> nat \<Rightarrow> bytes \<Rightarrow> SaltCounter option \<times> bytes" where
  "v3_encrypt_in_place cr engine user salts at plain_len out =
     (case (privacy_of user (salts \<noteq> None), user, salts) of
        (Some _, Some user, Some salts) \<Rightarrow>
          (let plain = length out - plain_len;
               (cipher_text, salt, salts) = encrypt cr user engine salts (drop plain out) (replicate PRIV_PARAMS 0);
               out = take plain out @ cipher_text
           in (Some salts, splice out at salt))
      | _ \<Rightarrow> (salts, out))"

lemma v3_encrypt_in_place_eq:
  assumes "crypto_ok cr" and "v3_sizes req engine (length bs)" and "v3_seal cr engine user salts bs = (data, salt, salts')"
    and "privacy = privacy_of user (salts \<noteq> None)"
    and "plen = (if privacy \<noteq> None then PRIV_PARAMS else 0)" and "at = length lead"
  shows "v3_encrypt_in_place cr engine user salts at (v3_plain_len privacy engine bs)
      (lead @ replicate plen 0 @ v3_plain privacy engine bs) = (salts', lead @ salt @ data)"
proof (cases privacy)
  case None
  then show ?thesis using assms(3-6) by (auto simp: v3_seal_def v3_encrypt_in_place_def v3_plain_def Let_def)
next
  case (Some protocol)
  let ?pad = "pad protocol (tlv Tag_Sequence (v3_scoped_body engine bs))"
  from Some obtain u s key where u: "user = Some u" "salts = Some s" "lu_privacy u = Some (protocol, key)"
    using assms(4) by (auto simp: privacy_of_def bind_eq_Some_conv split: option.splits if_splits)
  have pl: "v3_plain privacy engine bs = hdr Tag_OctetString (length ?pad) @ ?pad" "v3_plain_len privacy engine bs = length ?pad"
    using Some by (simp_all add: v3_plain_def v3_plain_len_def tlv_def [of _ ?pad])
  have po: "privacy_of (Some u) True = Some protocol" using Some assms(4) u by simp
  obtain ct sa s' where e: "encrypt cr u engine s ?pad (replicate PRIV_PARAMS 0) = (ct, sa, s')"
    by (metis prod_cases3)
  have ct: "length ct = length ?pad"
    using e u(3) by (auto simp: encrypt_def length_crypt [OF assms(1)] split: prod.splits)
  have sa: "length sa = PRIV_PARAMS" using e u(3) by (simp add: length_salt)
  have d: "data = hdr Tag_OctetString (length ?pad) @ ct" "salt = sa" "salts' = Some s'"
    using assms(3) u po e ct by (auto simp: v3_seal_def Let_def tlv_def [of _ ct])
  have plen: "plen = PRIV_PARAMS" using assms(5) Some by simp
  let ?front = "lead @ replicate PRIV_PARAMS 0 @ hdr Tag_OctetString (length ?pad)"
  have out: "lead @ replicate plen 0 @ v3_plain privacy engine bs = ?front @ ?pad"
    by (simp add: pl(1) plen)
  have cut: "length (?front @ ?pad) - length ?pad = length ?front" by simp
  have "v3_encrypt_in_place cr engine user salts at (length ?pad) (?front @ ?pad) =
      (Some s', splice (?front @ ct) at sa)"
    unfolding v3_encrypt_in_place_def u(1,2) Let_def cut by (simp add: po e)
  also have "splice (?front @ ct) at sa = lead @ sa @ hdr Tag_OctetString (length ?pad) @ ct"
    using splice_mid [of lead at "replicate PRIV_PARAMS 0" sa "hdr Tag_OctetString (length ?pad) @ ct"] sa assms(6) by simp
  finally show ?thesis unfolding out pl(2) d by simp
qed

lemma v3_write_message_in_place:
  "v3_write_message cr out req engine user salts pdu =
     (let ((r, auth_at, priv_at, plain_len), out') =
            write_tlv_ret out Tag_Sequence (write_v3_body req engine (auth_len user) (privacy_of user (salts \<noteq> None))
              (if privacy_of user (salts \<noteq> None) \<noteq> None then PRIV_PARAMS else 0) (v3_flags_for user salts) pdu);
          body = body_start out' (length out);
          (salts', out') = v3_encrypt_in_place cr engine user salts (body + priv_at) plain_len out'
      in case Option.bind user lu_auth of
           None \<Rightarrow> (r, salts', out')
         | Some (protocol, key) \<Rightarrow>
             (r, salts', splice out' (body + auth_at)
               (hmac cr protocol key (drop (length out) out') (replicate (auth_len user) 0))))"
  unfolding v3_write_message_def v3_encrypt_in_place_def v3_flags_for_def Let_def
  by (rule refl)

lemma v3_octets_split:
  assumes "v3_sizes req engine n" and "length auth \<le> 64" and "length salt \<le> 64"
  shows "v3_octets req engine flags auth salt data =
    hdr Tag_Sequence (length (v3_body req engine flags auth salt data))
      @ v3_lead req engine flags (length auth) (length salt) @ auth @ hdr Tag_OctetString (length salt) @ salt @ data"
  by (simp add: v3_octets_def tlv_def v3_body_split [OF assms])

lemma length_v3_body:
  assumes "v3_sizes req engine n" and "length auth \<le> 64" and "length salt \<le> 64" and "length data < 2 ^ 28"
  shows "length (v3_body req engine flags auth salt data) =
      i64_len V3_VERSION + tlv_len (length (v3_global req flags))
        + tlv_len (tlv_len (usm_body_len engine (up_user (v3_usm req)) (length auth) (length salt))) + length data"
    and "length (v3_body req engine flags auth salt data) < 2 ^ 29"
  using length_lead [OF assms(1-3), of flags] v3_body_split [OF assms(1-3), of flags data] assms(4)
  by (simp_all del: length_hdr length_global)

lemma v3_sign_in_place:
  assumes "crypto_ok cr" and "v3_sizes req engine n" and "length salt \<le> 64" and "length data < 2 ^ 28"
    and alen: "alen = auth_len user"
    and msg: "msg = v3_octets req engine flags (replicate alen 0) salt data"
    and at: "at = length (out @ hdr Tag_Sequence (length (v3_body req engine flags (replicate alen 0) salt data)))
      + length (v3_lead req engine flags alen (length salt))"
  shows "(case Option.bind user lu_auth of
      None \<Rightarrow> (r, salts, out @ msg)
    | Some (protocol, key) \<Rightarrow>
        (r, salts, splice (out @ msg) at (hmac cr protocol key msg (replicate alen 0)))) =
      (r, salts, out @ v3_octets req engine flags (v3_sign cr user (\<lambda>auth. v3_octets req engine flags auth salt data)) salt data)"
proof (cases "Option.bind user lu_auth")
  case None
  then show ?thesis by (simp add: v3_sign_def alen msg auth_len_def)
next
  case (Some pk)
  obtain protocol key where pk: "pk = (protocol, key)" by (cases pk)
  have al: "alen = auth_params_len protocol" using Some pk by (simp add: alen auth_len_def)
  have small: "alen \<le> 64" using auth_len_small [of user] by (simp add: alen)
  let ?tag = "take alen (cr_hmac cr protocol key msg)" and ?za = "replicate alen (0 :: u8)"
  let ?h = "hdr Tag_Sequence (length (v3_body req engine flags ?za salt data))"
    and ?lead = "v3_lead req engine flags alen (length salt)" and ?after = "hdr Tag_OctetString (length salt) @ salt @ data"
  have tag: "hmac cr protocol key msg ?za = ?tag" and len: "length ?tag = alen"
    using digest_len_bounds(2) [of protocol] al by (simp_all add: hmac_def hmac_of_eq crypto_okD(2) [OF assms(1)])
  have octets: "v3_octets req engine flags auth salt data = ?h @ ?lead @ auth @ ?after" if "length auth = alen" for auth
    using that small assms(3) v3_octets_split [OF assms(2), of auth salt flags data]
      length_v3_body(1) [OF assms(2) _ assms(3,4), of auth flags] length_v3_body(1) [OF assms(2) _ assms(3,4), of ?za flags]
    by simp
  have "splice (out @ ?h @ ?lead @ ?za @ ?after) at ?tag = out @ ?h @ ?lead @ ?tag @ ?after"
    using splice_mid [of "out @ ?h @ ?lead" at ?za ?tag ?after] len by (simp add: at del: length_hdr)
  then have "splice (out @ msg) at ?tag = out @ v3_octets req engine flags ?tag salt data"
    using octets [of ?za] octets [OF len] by (simp only: msg length_replicate)
  then show ?thesis using Some pk tag al msg by (simp add: v3_sign_def)
qed

lemma v3_write_message_eq:
  assumes "crypto_ok cr" and "v3_sizes req engine (length bs)"
    and "pdu (v3_prefix (out @ [Tag_byte Tag_Sequence, 0]) req engine (v3_flags_for user salts) (auth_len user)
           (if privacy_of user (salts \<noteq> None) \<noteq> None then PRIV_PARAMS else 0) (privacy_of user (salts \<noteq> None) \<noteq> None))
      = (r, v3_prefix (out @ [Tag_byte Tag_Sequence, 0]) req engine (v3_flags_for user salts) (auth_len user)
           (if privacy_of user (salts \<noteq> None) \<noteq> None then PRIV_PARAMS else 0) (privacy_of user (salts \<noteq> None) \<noteq> None) @ bs)"
  shows "v3_write_message cr out req engine user salts pdu =
    (r, snd (snd (v3_seal cr engine user salts bs)), out @ v3_message_octets cr req engine user salts bs)"
proof -
  define privacy where "privacy = privacy_of user (salts \<noteq> None)"
  define plen where "plen = (if privacy \<noteq> None then PRIV_PARAMS else 0)"
  define alen where "alen = auth_len user"
  define flags where "flags = v3_flags_for user salts"
  obtain data salt salts' where seal: "v3_seal cr engine user salts bs = (data, salt, salts')"
    by (metis prod_cases3)
  have small: "alen \<le> 64" "plen \<le> 64"
    using auth_len_small [of user] by (simp_all add: alen_def plen_def PRIV_PARAMS_def)
  note sealed = v3_seal_cases [OF assms(1,2) seal]
  have salt: "length salt = plen" and data: "length data = length (v3_plain privacy engine bs)" "length data < 2 ^ 28"
    using sealed by (simp_all add: plen_def privacy_def)
  let ?za = "replicate alen (0 :: u8)" and ?zp = "replicate plen (0 :: u8)"
  let ?lead = "v3_lead req engine flags alen plen" and ?h = "hdr Tag_OctetString plen"
  let ?body = "?lead @ ?za @ ?h @ ?zp @ v3_plain privacy engine bs"
  have body: "?body = v3_body req engine flags ?za ?zp (v3_plain privacy engine bs)"
    using v3_body_split [OF assms(2), of ?za ?zp] small by simp
  have n: "length ?body < 2 ^ 29"
    unfolding body using length_v3_body(2) [OF assms(2), of ?za ?zp "v3_plain privacy engine bs" flags] small data by simp
  have w: "write_tlv_ret out Tag_Sequence (write_v3_body req engine alen privacy plen flags pdu) =
      ((r, length ?lead, length ?lead + alen + length ?h, v3_plain_len privacy engine bs), out @ tlv Tag_Sequence ?body)"
  proof (rule write_tlv_ret_tlv)
    have "pdu (v3_prefix (out @ [Tag_byte Tag_Sequence, 0]) req engine flags alen plen (privacy \<noteq> None))
        = (r, v3_prefix (out @ [Tag_byte Tag_Sequence, 0]) req engine flags alen plen (privacy \<noteq> None) @ bs)"
      using assms(3) by (simp only: privacy_def plen_def alen_def flags_def)
    then show "write_v3_body req engine alen privacy plen flags pdu (out @ [Tag_byte Tag_Sequence, 0]) =
        ((r, length ?lead, length ?lead + alen + length ?h, v3_plain_len privacy engine bs), out @ [Tag_byte Tag_Sequence, 0] @ ?body)"
      by (simp only: write_v3_body_eq [OF assms(2)] append_assoc)
  qed (rule less_trans [OF n], simp)
  have n32: "length ?body < 2 ^ 32" by (rule less_trans [OF n]) simp
  have start: "body_start (out @ tlv Tag_Sequence ?body) (length out) = length (out @ hdr Tag_Sequence (length ?body))"
    by (simp only: body_start_tlv [OF n32] length_append)
  let ?front = "out @ hdr Tag_Sequence (length ?body) @ ?lead @ ?za @ ?h"
  have enc: "v3_encrypt_in_place cr engine user salts (length (out @ hdr Tag_Sequence (length ?body)) + (length ?lead + alen + length ?h))
      (v3_plain_len privacy engine bs) (out @ tlv Tag_Sequence ?body) = (salts', ?front @ salt @ data)"
    using v3_encrypt_in_place_eq [OF assms(1,2) seal privacy_def plen_def, of _ ?front]
    by (simp add: tlv_def add.assoc del: length_hdr)
  have same: "length ?body = length (v3_body req engine flags ?za salt data)"
    unfolding body using small salt data
    by (simp add: length_v3_body(1) [OF assms(2), of ?za ?zp "v3_plain privacy engine bs"] length_v3_body(1) [OF assms(2), of ?za salt data])
  have out': "?front @ salt @ data = out @ v3_octets req engine flags ?za salt data"
    using small salt v3_octets_split [OF assms(2), of ?za salt flags data] same by simp
  have sign: "(case Option.bind user lu_auth of
           None \<Rightarrow> (r, salts', out @ v3_octets req engine flags ?za salt data)
         | Some (protocol, key) \<Rightarrow>
             (r, salts', splice (out @ v3_octets req engine flags ?za salt data)
               (length (out @ hdr Tag_Sequence (length ?body)) + length ?lead)
               (hmac cr protocol key (v3_octets req engine flags ?za salt data) (replicate alen 0)))) =
      (r, salts', out @ v3_octets req engine flags (v3_sign cr user (\<lambda>auth. v3_octets req engine flags auth salt data)) salt data)"
    by (rule v3_sign_in_place [OF assms(1,2) _ data(2) alen_def refl]) (use small salt same in simp_all)
  have dr: "drop (length out) (out @ x) = x" for x :: bytes by simp
  show ?thesis
    unfolding v3_write_message_in_place privacy_def [symmetric] plen_def [symmetric] alen_def [symmetric] flags_def [symmetric]
      w Let_def prod.case start enc out' dr sign
    by (simp add: v3_message_octets_def seal flags_def [symmetric])
qed

lemma length_v3_message_octets:
  assumes "crypto_ok cr" and "v3_sizes req engine (length bs)"
  shows "length (v3_message_octets cr req engine user salts bs) = v3_message_len req engine user (salts \<noteq> None) (length bs)"
proof -
  define privacy where "privacy = privacy_of user (salts \<noteq> None)"
  define plen where "plen = (if privacy \<noteq> None then PRIV_PARAMS else 0)"
  obtain data salt salts' where seal: "v3_seal cr engine user salts bs = (data, salt, salts')"
    by (metis prod_cases3)
  note sealed = v3_seal_cases [OF assms seal]
  have salt: "length salt = plen" using sealed(2) by (simp add: plen_def privacy_def)
  let ?msg = "\<lambda>auth. v3_octets req engine (v3_flags_for user salts) auth salt data"
  let ?auth = "v3_sign cr user ?msg"
  have auth: "length ?auth = auth_len user" using assms(1) by (rule length_v3_sign)
  have small: "length ?auth \<le> 64" "length salt \<le> 64"
    using auth auth_len_small [of user] salt by (simp_all add: plen_def PRIV_PARAMS_def)
  note body = length_v3_body [OF assms(2) small sealed(3), of "v3_flags_for user salts"]
  have d: "length data = (case privacy of
       Some protocol \<Rightarrow> tlv_len (padded_len protocol (tlv_len (tlv_len (length (sn_id engine)) + tlv_len 0 + length bs)))
     | None \<Rightarrow> tlv_len (tlv_len (length (sn_id engine)) + tlv_len 0 + length bs))"
    using length_scoped_tlv(1) [OF assms(2)] length_scoped_tlv(3) [OF assms(2), of "the privacy"] sealed(1) [folded privacy_def]
    by (cases privacy) (simp_all add: v3_plain_def)
  have "length (v3_message_octets cr req engine user salts bs) = tlv_len (length (v3_body req engine (v3_flags_for user salts) ?auth salt data))"
    using body(2) by (simp add: v3_message_octets_def seal v3_octets_def)
  also have "\<dots> = v3_message_len req engine user (salts \<noteq> None) (length bs)"
    unfolding body(1) d auth salt v3_message_len_def Let_def privacy_def [symmetric] plen_def [symmetric] by simp
  finally show ?thesis .
qed

section \<open>Reading a message back\<close>

lemma read_int_tlv: "read_i64 Tag_Integer (int_tlv v @ rest) = Inr (v, rest)"
  using read_write_i64 [of Tag_Integer v rest] by (simp add: write_i64_tlv int_tlv_def)

lemma v3_field_int_tlv:
  "sint least \<le> sint v \<Longrightarrow> sint v < 2 ^ 31 \<Longrightarrow> v3_field least (int_tlv v @ rest) = Inr (v, rest)"
  by (simp add: v3_field_def read_int_tlv MAX_FIELD_def)

lemma v3_field_int_tlv_end:
  "sint least \<le> sint v \<Longrightarrow> sint v < 2 ^ 31 \<Longrightarrow> v3_field least (int_tlv v) = Inr (v, [])"
  using v3_field_int_tlv [of least v "[]"] by simp

lemma sint_ucast_u32: "sint (ucast (w :: u32) :: i64) = uint w"
proof -
  have "uint w < 2 ^ 32" using uint_bounded [of w] by simp
  then show ?thesis
    by (simp add: sint_uint unsigned_ucast_eq take_bit_int_eq_self signed_take_bit_eq_if_positive bit_take_bit_iff bit_uint_iff)
qed

lemma scast_ucast_u32: "(scast (ucast (w :: u32) :: i64) :: u32) = w"
proof -
  have "(scast (ucast w :: i64) :: u32) = word_of_int (sint (ucast w :: i64))" by simp
  then show ?thesis by (simp only: sint_ucast_u32 word_of_int_uint)
qed

definition v3_read ::
  "V3Message \<Rightarrow> Snapshot \<Rightarrow> Flags \<Rightarrow> bytes \<Rightarrow> bytes \<Rightarrow> nat \<Rightarrow> ScopedPdu option \<times> bytes option \<Rightarrow> V3Message" where
  "v3_read req engine flags auth salt at data =
     \<lparr> v3_msg_id = v3_msg_id req, v3_msg_max_size = 65507, v3_flags = flags, v3_security_model = V3_USM,
       v3_usm = \<lparr> up_engine_id = sn_id engine, up_boots = sn_boots engine, up_time = sn_time engine,
         up_user = up_user (v3_usm req), up_auth_params = auth, up_priv_params = salt \<rparr>,
       v3_auth_range = (at, at + length auth), v3_scoped = fst data, v3_encrypted = snd data \<rparr>"

lemma v3_decode_octets:
  assumes "v3_sizes req engine n" and "length auth \<le> 64" and "length salt \<le> 64" and "length data < 2 ^ 28"
    and "0 \<le> sint (v3_msg_id req)" and "sint (v3_msg_id req) < 2 ^ 31"
    and "sn_boots engine < 2 ^ 31" and "sn_time engine < 2 ^ 31"
    and "(if fl_privacy flags
            then rbind (read_octets Tag_OctetString data) (\<lambda>(encrypted, message). Inr ((None, Some encrypted), message))
            else rbind (expect Tag_Sequence data) (\<lambda>(scoped_body, message).
                 rbind (scoped_pdu scoped_body) (\<lambda>scoped. Inr ((Some scoped, None), message)))) = Inr (content, [])"
  shows "v3_decode (v3_octets req engine flags auth salt data) = Inr (v3_read req engine flags auth salt
    (length (hdr Tag_Sequence (length (v3_body req engine flags auth salt data)) @ v3_lead req engine flags (length auth) (length salt))) content)"
proof -
  note params = length_params [OF assms(1-3)]
  have id: "length (sn_id engine) < 2 ^ 32" and user: "length (up_user (v3_usm req)) < 2 ^ 32"
    using assms(1) by (simp_all add: v3_sizes_def)
  have p: "length (v3_params req engine auth salt) < 2 ^ 32"
    "length (tlv Tag_Sequence (v3_params req engine auth salt)) < 2 ^ 32"
    using params tlv_len_le [of "length (v3_params req engine auth salt)"] by simp_all
  have body: "length (v3_body req engine flags auth salt data) < 2 ^ 32"
    using length_v3_body(2) [OF assms(1-4)] by (rule less_trans) simp
  have g: "length (v3_global req flags) < 2 ^ 32" using global_small [of req flags] by simp
  have small: "length auth < 2 ^ 32" "length salt < 2 ^ 32" using assms(2,3) by simp_all
  have words: "uint (sn_boots engine) < 2 ^ 31" "uint (sn_time engine) < 2 ^ 31"
    using assms(7,8) by (simp_all add: word_less_alt)
  have at: "length (v3_octets req engine flags auth salt data) - (length (tlv Tag_OctetString salt) + length data) - length auth =
      length (hdr Tag_Sequence (length (v3_body req engine flags auth salt data)) @ v3_lead req engine flags (length auth) (length salt))"
    unfolding v3_octets_split [OF assms(1-3)] by (simp add: tlv_def del: length_hdr)
  have b: "expect Tag_Sequence (v3_octets req engine flags auth salt data) = Inr (v3_body req engine flags auth salt data, [])"
    unfolding v3_octets_def by (rule expect_tlv_end [OF body])
  have m: "read_i64 Tag_Integer (v3_body req engine flags auth salt data) = Inr (V3_VERSION,
      tlv Tag_Sequence (v3_global req flags) @ tlv Tag_OctetString (tlv Tag_Sequence (v3_params req engine auth salt)) @ data)"
    by (simp add: v3_body_def read_int_tlv)
  have g1: "v3_field 0 (v3_global req flags) = Inr (v3_msg_id req,
      int_tlv MSG_MAX_SIZE @ tlv Tag_OctetString [Flags_octet flags] @ int_tlv V3_USM)"
    using assms(5,6) by (simp add: v3_global_def v3_field_int_tlv)
  have g2: "v3_field MIN_MSG_MAX_SIZE (int_tlv MSG_MAX_SIZE @ rest) = Inr (MSG_MAX_SIZE, rest)" for rest
    by (rule v3_field_int_tlv) (simp_all add: MIN_MSG_MAX_SIZE_def MSG_MAX_SIZE_def)
  have g3: "v3_field 0 (int_tlv V3_USM) = Inr (V3_USM, [])"
    by (rule v3_field_int_tlv_end) (simp_all add: V3_USM_def)
  have p1: "read_octets Tag_OctetString (v3_params req engine auth salt) = Inr (sn_id engine,
      int_tlv (ucast (sn_boots engine)) @ int_tlv (ucast (sn_time engine)) @ tlv Tag_OctetString (up_user (v3_usm req))
      @ tlv Tag_OctetString auth @ tlv Tag_OctetString salt)"
    using expect_tlv [OF id] by (simp add: v3_params_def v3_params_head_def read_octets_def)
  have p2: "v3_field 0 (int_tlv (ucast (sn_boots engine)) @ rest) = Inr (ucast (sn_boots engine), rest)"
      "v3_field 0 (int_tlv (ucast (sn_time engine)) @ rest) = Inr (ucast (sn_time engine), rest)" for rest
    using words by (auto intro!: v3_field_int_tlv simp: sint_ucast_u32)
  have sz: "nat (sint MSG_MAX_SIZE) = 65507" by (simp add: MSG_MAX_SIZE_def)
  show ?thesis
    unfolding v3_decode_def b
    using assms(9) at
    by (cases content) (simp add: Let_def m expect_tlv [OF g] g1 g2 g3 read_octets_def expect_tlv expect_tlv [OF p(2)] expect_tlv_end [OF p(1)]
        p1 [unfolded read_octets_def] p2 expect_tlv [OF user] expect_tlv [OF small(1)] expect_tlv_end [OF small(2)]
        v3_read_def scast_ucast_u32 sz)
qed

definition scoped_of :: "Snapshot \<Rightarrow> Tag \<Rightarrow> i64 \<Rightarrow> i64 \<Rightarrow> i64 \<Rightarrow> bytes \<Rightarrow> ScopedPdu" where
  "scoped_of engine pdu rid st ix vbs =
     \<lparr> sp_context_engine_id = sn_id engine, sp_context_name = [],
       sp_pdu = \<lparr> msg_version = V3_VERSION, msg_community = [], msg_pdu = pdu, msg_request_id = rid,
         msg_error_status = st, msg_error_index = ix, msg_varbinds = vbs \<rparr> \<rparr>"

lemma scoped_pdu_octets:
  assumes "length (sn_id engine) < 2 ^ 32" and "pdu_len rid st ix (length vbs) < 2 ^ 32" and "Tag_is_pdu pdu"
  shows "scoped_pdu (v3_scoped_body engine (pdu_octets pdu rid st ix vbs)) = Inr (scoped_of engine pdu rid st ix vbs)"
proof -
  let ?fields = "pdu_fields rid st ix @ tlv Tag_Sequence vbs"
  have n: "i64_len rid + i64_len st + i64_len ix + tlv_len (length vbs) < 2 ^ 32"
    using assms(2) tlv_len_ge [of "i64_len rid + i64_len st + i64_len ix + tlv_len (length vbs)"]
    by (simp add: pdu_len_def)
  then have vbs: "length vbs < 2 ^ 32" using tlv_len_ge [of "length vbs"] by simp
  have f: "length ?fields < 2 ^ 32" using n vbs by simp
  have fl: "?fields = int_tlv rid @ int_tlv st @ int_tlv ix @ tlv Tag_Sequence vbs"
    by (simp add: pdu_fields_def int_tlv_def)
  have 1: "read_octets Tag_OctetString (v3_scoped_body engine bs) = Inr (sn_id engine, tlv Tag_OctetString [] @ bs)" for bs
    using expect_tlv [OF assms(1)] by (simp add: v3_scoped_body_def read_octets_def)
  have 2: "read_octets Tag_OctetString (tlv Tag_OctetString [] @ bs) = Inr ([], bs)" for bs
    using expect_tlv [of "[]" Tag_OctetString bs] by (simp add: read_octets_def)
  have 3: "read_tlv (pdu_octets pdu rid st ix vbs) = Inr ((pdu, ?fields), [])"
    using read_tlv_tlv [OF f, of pdu "[]"] by (simp add: pdu_octets_def)
  show ?thesis
    using assms(3) by (simp add: scoped_pdu_def 1 2 3 fl read_int_tlv expect_tlv_end [OF vbs] scoped_of_def)
qed

lemma v3_seal_content:
  assumes "crypto_ok cr" and "v3_sizes req engine (length bs)" and "v3_seal cr engine user salts bs = (data, salt, salts')"
    and "scoped_pdu (v3_scoped_body engine bs) = Inr sp"
  obtains content where "(if fl_privacy (v3_flags_for user salts)
        then rbind (read_octets Tag_OctetString data) (\<lambda>(encrypted, message). Inr ((None, Some encrypted), message))
        else rbind (expect Tag_Sequence data) (\<lambda>(scoped_body, message).
             rbind (scoped_pdu scoped_body) (\<lambda>scoped. Inr ((Some scoped, None), message)))) = Inr (content, [])"
    and "case snd content of
        None \<Rightarrow> fst content = Some sp
      | Some cipher_text \<Rightarrow> decrypt cr (the user) (sn_boots engine) (sn_time engine) salt cipher_text = Inr sp"
proof (cases "privacy_of user (salts \<noteq> None)")
  case None
  have "length (v3_scoped_body engine bs) < 2 ^ 32" using length_scoped_body [OF assms(2)] by simp
  moreover have "data = tlv Tag_Sequence (v3_scoped_body engine bs)"
    using assms(3) None by (simp add: v3_seal_def Let_def)
  ultimately show thesis
    using that [of "(Some sp, None)"] assms(4) None by (simp add: v3_flags_for_def expect_tlv_end)
next
  case (Some protocol)
  let ?pad = "pad protocol (tlv Tag_Sequence (v3_scoped_body engine bs))"
  obtain u s key where u: "user = Some u" "salts = Some s" "lu_privacy u = Some (protocol, key)"
    using Some by (auto simp: privacy_of_def bind_eq_Some_conv split: option.splits if_splits)
  obtain ct sa s' where e: "encrypt cr u engine s ?pad (replicate PRIV_PARAMS 0) = (ct, sa, s')"
    by (metis prod_cases3)
  have len: "length (v3_scoped_body engine bs) < 2 ^ 32" using length_scoped_body [OF assms(2)] by simp
  have d: "data = tlv Tag_OctetString ct" "salt = sa" using assms(3) Some u e by (simp_all add: v3_seal_def Let_def)
  have "length ct < 2 ^ 32"
    using e u(3) length_scoped_tlv(3) [OF assms(2), of protocol]
    by (auto simp: encrypt_def length_crypt [OF assms(1)] split: prod.splits)
  moreover have "decrypt cr u (sn_boots engine) (sn_time engine) sa ct = Inr sp"
    by (rule privacy_decrypts [OF assms(1) u(3) assms(4) len e])
  ultimately show thesis
    using that [of "(None, Some ct)"] Some u d by (simp add: v3_flags_for_def read_octets_def expect_tlv_end)
qed

lemma v3_sign_authentic:
  assumes "crypto_ok cr" and "v3_sizes req engine n" and "length salt \<le> 64" and "length data < 2 ^ 28"
    and "Option.bind user lu_auth = Some (protocol, key)"
    and auth: "auth = v3_sign cr user (\<lambda>auth. v3_octets req engine flags auth salt data)"
    and usm: "up_auth_params (v3_usm msg) = auth"
    and range: "v3_auth_range msg = (at, at + length auth)"
    and at: "at = length (hdr Tag_Sequence (length (v3_body req engine flags auth salt data)) @ v3_lead req engine flags (length auth) (length salt))"
  shows "authentic cr protocol key msg (v3_octets req engine flags auth salt data)"
proof -
  let ?alen = "auth_params_len protocol"
  have alen: "length auth = ?alen" "?alen \<le> 64"
    using length_v3_sign [OF assms(1), of user] auth assms(5) auth_len_small [of user] by (simp_all add: auth_len_def)
  let ?za = "replicate ?alen (0 :: u8)"
  define before where "before = hdr Tag_Sequence (length (v3_body req engine flags auth salt data)) @ v3_lead req engine flags (length auth) (length salt)"
  define after where "after = hdr Tag_OctetString (length salt) @ salt @ data"
  have raw: "v3_octets req engine flags auth salt data = before @ auth @ after"
    unfolding before_def after_def using v3_octets_split [OF assms(2) _ assms(3), of auth flags data] alen by simp
  have "length (v3_body req engine flags ?za salt data) = length (v3_body req engine flags auth salt data)"
    using length_v3_body(1) [OF assms(2) _ assms(3,4), of auth flags] length_v3_body(1) [OF assms(2) _ assms(3,4), of ?za flags] alen
    by simp
  then have zeros: "v3_octets req engine flags ?za salt data = before @ ?za @ after"
    unfolding before_def after_def using v3_octets_split [OF assms(2) _ assms(3), of ?za flags data] alen by simp
  have "auth = auth_tag cr protocol key before after"
    using auth assms(5) zeros by (simp add: v3_sign_def auth_tag_def)
  then show ?thesis
    using authentic_iff [OF assms(1), of _ before msg after protocol key] raw usm range at by (simp add: before_def)
qed

text \<open>
  C25. The SNMPv3 messages the agent writes are readable as it means them: the octets written, through
  the zeroed parameters, the encryption and the splicing in place, have the length \<open>message_len\<close>
  predicts, and a manager decodes them to the request's \<open>msgID\<close> and user name and to the engine's ID,
  boots and time, at the user's security level, with an authentication parameter that verifies under the
  user's key and a scoped PDU that is, once decrypted when it is encrypted, the one that was written.
\<close>

theorem v3_message_roundtrip:
  assumes "crypto_ok cr"
    and "v3_sizes req engine (length (pdu_octets pdu rid st ix vbs))" and "Tag_is_pdu pdu"
    and "pdu_len rid st ix (length vbs) < 2 ^ 32"
    and "0 \<le> sint (v3_msg_id req)" and "sint (v3_msg_id req) < 2 ^ 31"
    and "sn_boots engine < 2 ^ 31" and "sn_time engine < 2 ^ 31"
    and "v3_write_message cr [] req engine user salts (\<lambda>out. ((), out @ pdu_octets pdu rid st ix vbs)) = ((), salts', raw)"
  shows "length raw = v3_message_len req engine user (salts \<noteq> None) (length (pdu_octets pdu rid st ix vbs)) \<and>
    (\<exists>msg. v3_decode raw = Inr msg \<and> v3_msg_id msg = v3_msg_id req \<and> v3_flags msg = v3_flags_for user salts
      \<and> up_engine_id (v3_usm msg) = sn_id engine \<and> up_boots (v3_usm msg) = sn_boots engine
      \<and> up_time (v3_usm msg) = sn_time engine \<and> up_user (v3_usm msg) = up_user (v3_usm req)
      \<and> (case Option.bind user lu_auth of
           None \<Rightarrow> up_auth_params (v3_usm msg) = []
         | Some (protocol, key) \<Rightarrow> authentic cr protocol key msg raw)
      \<and> (case v3_encrypted msg of
           None \<Rightarrow> v3_scoped msg = Some (scoped_of engine pdu rid st ix vbs)
         | Some cipher_text \<Rightarrow>
             decrypt cr (the user) (sn_boots engine) (sn_time engine) (up_priv_params (v3_usm msg)) cipher_text
               = Inr (scoped_of engine pdu rid st ix vbs)))"
proof -
  define bs where "bs = pdu_octets pdu rid st ix vbs"
  have sizes: "v3_sizes req engine (length bs)" using assms(2) by (simp add: bs_def)
  obtain data salt s' where seal: "v3_seal cr engine user salts bs = (data, salt, s')"
    by (metis prod_cases3)
  define flags where "flags = v3_flags_for user salts"
  let ?msg = "\<lambda>auth. v3_octets req engine flags auth salt data"
  define auth where "auth = v3_sign cr user ?msg"
  have raw: "raw = ?msg auth"
    using assms(9) v3_write_message_eq [OF assms(1) sizes, of "\<lambda>out. ((), out @ bs)" "[]" user salts "()"]
    by (simp add: v3_message_octets_def seal flags_def auth_def bs_def [symmetric])
  have len: "length raw = v3_message_len req engine user (salts \<noteq> None) (length bs)"
    using length_v3_message_octets [OF assms(1) sizes, of user salts] raw
    by (simp add: v3_message_octets_def seal flags_def auth_def)
  note sealed = v3_seal_cases [OF assms(1) sizes seal]
  have alen: "length auth = auth_len user" unfolding auth_def by (rule length_v3_sign [OF assms(1)])
  have small: "length auth \<le> 64" "length salt \<le> 64"
    using alen auth_len_small [of user] sealed(2) by (auto simp: PRIV_PARAMS_def)
  have sp: "scoped_pdu (v3_scoped_body engine bs) = Inr (scoped_of engine pdu rid st ix vbs)"
    unfolding bs_def using assms(2-4) by (intro scoped_pdu_octets) (simp_all add: v3_sizes_def)
  obtain content where content: "(if fl_privacy flags
        then rbind (read_octets Tag_OctetString data) (\<lambda>(encrypted, message). Inr ((None, Some encrypted), message))
        else rbind (expect Tag_Sequence data) (\<lambda>(scoped_body, message).
             rbind (scoped_pdu scoped_body) (\<lambda>scoped. Inr ((Some scoped, None), message)))) = Inr (content, [])"
    and holds: "case snd content of
        None \<Rightarrow> fst content = Some (scoped_of engine pdu rid st ix vbs)
      | Some cipher_text \<Rightarrow> decrypt cr (the user) (sn_boots engine) (sn_time engine) salt cipher_text = Inr (scoped_of engine pdu rid st ix vbs)"
    unfolding flags_def by (rule v3_seal_content [OF assms(1) sizes seal sp])
  define at where "at = length (hdr Tag_Sequence (length (v3_body req engine flags auth salt data)) @ v3_lead req engine flags (length auth) (length salt))"
  define m where "m = v3_read req engine flags auth salt at content"
  have decode: "v3_decode raw = Inr m"
    unfolding raw m_def at_def by (rule v3_decode_octets [OF sizes small sealed(3) assms(5-8) content])
  have signed: "case Option.bind user lu_auth of
      None \<Rightarrow> up_auth_params (v3_usm m) = [] | Some (protocol, key) \<Rightarrow> authentic cr protocol key m raw"
  proof (cases "Option.bind user lu_auth")
    case None
    then show ?thesis by (simp add: m_def v3_read_def auth_def v3_sign_def)
  next
    case (Some pk)
    then show ?thesis unfolding raw
      by (cases pk) (auto intro!: v3_sign_authentic [OF assms(1) sizes small(2) sealed(3) _ auth_def _ _ at_def] simp: m_def v3_read_def)
  qed
  have fields: "v3_msg_id m = v3_msg_id req" "v3_flags m = flags" "up_engine_id (v3_usm m) = sn_id engine"
      "up_boots (v3_usm m) = sn_boots engine" "up_time (v3_usm m) = sn_time engine"
      "up_user (v3_usm m) = up_user (v3_usm req)" "up_priv_params (v3_usm m) = salt"
      "v3_encrypted m = snd content" "v3_scoped m = fst content"
    by (simp_all add: m_def v3_read_def)
  have opened: "case v3_encrypted m of
      None \<Rightarrow> v3_scoped m = Some (scoped_of engine pdu rid st ix vbs)
    | Some cipher_text \<Rightarrow> decrypt cr (the user) (sn_boots engine) (sn_time engine) (up_priv_params (v3_usm m)) cipher_text
        = Inr (scoped_of engine pdu rid st ix vbs)"
    using holds by (simp only: fields)
  show ?thesis
    using len decode signed opened fields(1-6) flags_def unfolding bs_def by blast
qed

section \<open>A concrete response\<close>

definition example_request :: V3Message where
  "example_request = \<lparr> v3_msg_id = 1, v3_msg_max_size = 1500,
     v3_flags = \<lparr> fl_auth = True, fl_privacy = True, fl_reportable = True \<rparr>, v3_security_model = V3_USM,
     v3_usm = \<lparr> up_engine_id = example_engine_id, up_boots = 1, up_time = 0, up_user = [111, 112, 115],
       up_auth_params = [], up_priv_params = [] \<rparr>,
     v3_auth_range = (0, 0), v3_scoped = None, v3_encrypted = None \<rparr>"

definition example_snapshot :: Snapshot where
  "example_snapshot = \<lparr> sn_id = example_engine_id, sn_boots = 1, sn_time = 7 \<rparr>"

lemma pdu_len_small: "n < 2 ^ 20 \<Longrightarrow> pdu_len rid st ix n < 2 ^ 21"
  using tlv_len_le [of n] tlv_len_le [of "i64_len rid + i64_len st + i64_len ix + tlv_len n"]
    i64_len_small [of rid] i64_len_small [of st] i64_len_small [of ix]
  by (simp add: pdu_len_def)

theorem v3_message_roundtrip_witness:
  "\<exists>salts raw msg. v3_write_message example_crypto [] example_request example_snapshot (Some example_private)
       (Some (SaltCounter_starting_at 3 4)) (\<lambda>out. ((), out @ pdu_octets Tag_Response 7 0 0 [])) = ((), salts, raw)
     \<and> v3_decode raw = Inr msg \<and> authentic example_crypto Md5 (replicate 16 0) msg raw
     \<and> decrypt example_crypto example_private 1 7 (up_priv_params (v3_usm msg)) (the (v3_encrypted msg))
         = Inr (scoped_of example_snapshot Tag_Response 7 0 0 [])"
proof -
  let ?W = "v3_write_message example_crypto [] example_request example_snapshot (Some example_private)
       (Some (SaltCounter_starting_at 3 4)) (\<lambda>out. ((), out @ pdu_octets Tag_Response 7 0 0 []))"
  obtain u salts raw where "?W = (u, salts, raw)" by (rule prod_cases3)
  then have w: "?W = ((), salts, raw)" by simp
  have n: "pdu_len 7 0 0 (length ([] :: bytes)) < 2 ^ 21" by (rule pdu_len_small) simp
  then have len: "length (pdu_octets Tag_Response 7 0 0 []) < 2 ^ 21"
    using length_pdu_octets [of 7 0 0 "[]" Tag_Response] by simp
  have sizes: "v3_sizes example_request example_snapshot (length (pdu_octets Tag_Response 7 0 0 []))"
    using len by (simp add: v3_sizes_def example_request_def example_snapshot_def example_engine_id_def)
  have at: "sn_boots example_snapshot = 1" "sn_time example_snapshot = 7"
      "sint (v3_msg_id example_request) = 1" "Option.bind (Some example_private) lu_auth = Some (Md5, replicate 16 0)"
    by (simp_all add: example_snapshot_def example_request_def example_private_def example_localized_def)
  have pdu: "Tag_is_pdu Tag_Response" by (simp add: Tag_is_pdu_def)
  note rt = v3_message_roundtrip [OF example_crypto_ok sizes pdu _ _ _ _ _ w, unfolded at option.case prod.case option.sel]
  have "pdu_len 7 0 0 (length ([] :: bytes)) < 2 ^ 32" using n by (rule less_trans) simp
  from rt [OF this] obtain msg where m: "v3_decode raw = Inr msg"
      "v3_flags msg = v3_flags_for (Some example_private) (Some (SaltCounter_starting_at 3 4))"
      "authentic example_crypto Md5 (replicate 16 0) msg raw"
      "case v3_encrypted msg of
           None \<Rightarrow> v3_scoped msg = Some (scoped_of example_snapshot Tag_Response 7 0 0 [])
         | Some cipher_text \<Rightarrow> decrypt example_crypto example_private 1 7 (up_priv_params (v3_usm msg)) cipher_text
             = Inr (scoped_of example_snapshot Tag_Response 7 0 0 [])"
    by auto
  have "fl_privacy (v3_flags msg)"
    by (simp add: m(2) v3_flags_for_def privacy_of_def example_private_def)
  then have "v3_encrypted msg \<noteq> None" using v3_decode_ok [OF m(1)] by (simp add: v3_ok_def)
  with w m show ?thesis by (auto split: option.splits)
qed

end
