(* ===== verification/Responder.thy ===== *)
theory Responder
  imports V3_Write "HOL-Library.AList"
begin

text \<open>
  The responder, \<open>sonda-core/src/sink/snmp/responder.rs\<close>: a datagram is decoded, checked against
  the agent's versions, community or users, and answered from the table into a buffer, within a
  budget of octets.

  One request is answered in one step: the table, the objects and the clock (\<open>millis\<close>, milliseconds
  since the bind, and so \<open>millis div 1000\<close> seconds) are those of one instant, where the code takes
  the read lock and reads the clock once for each name. The buffers of \<open>Scratch\<close> only save
  allocations and have no counterpart. A slice of the response (\<open>Cursor\<close>, \<open>Name::Response\<close>) is a
  range of the buffer, as in the code.

  The lemmas show that whatever is sent fits the budget, that \<open>column\<close>, the fast path of GETBULK for
  one repeater, writes what the rounds would, and what each PDU is answered with.
\<close>

section \<open>Requests\<close>

definition TOO_BIG :: i64 where "TOO_BIG = 1"
definition NO_SUCH_NAME :: i64 where "NO_SUCH_NAME = 2"
definition NOT_WRITABLE :: i64 where "NOT_WRITABLE = 17"
definition V1 :: i64 where "V1 = 0"
definition V2C :: i64 where "V2C = 1"
definition WARNED_PEERS :: nat where "WARNED_PEERS = 1024"

datatype Version = Version_V1 | Version_V2c

fun Version_field :: "Version \<Rightarrow> i64" where
  "Version_field Version_V1 = V1"
| "Version_field Version_V2c = V2C"

fun Version_configured :: "Version \<Rightarrow> SnmpVersion" where
  "Version_configured Version_V1 = Snmp_V1"
| "Version_configured Version_V2c = Snmp_V2c"

text \<open>The iterator over a varbind list: every entry, up to and with the first that is malformed.\<close>

function (sequential) varbinds :: "bytes \<Rightarrow> (BerError + VarBind) list" where
  "varbinds inp =
     (case VarBinds_next inp of
        None \<Rightarrow> []
      | Some (Inl e) \<Rightarrow> [Inl e]
      | Some (Inr (vb, rest)) \<Rightarrow> Inr vb # varbinds rest)"
  by pat_completeness auto
termination
proof (relation "measure length")
  fix inp x2 b a rest
  assume "VarBinds_next inp = Some x2" "x2 = Inr b" "(a, rest) = b"
  then have "read_one inp = Inr (a, rest)" by (auto simp: VarBinds_next_def split: if_splits)
  then show "(rest, inp) \<in> measure length"
    unfolding read_one_def by (elim run_InrE) (auto dest: expect_shorter)
qed simp

declare varbinds.simps [simp del]

record VarList =
  vl_message :: Message
  vl_len :: nat

fun count_varbinds :: "(BerError + VarBind) list \<Rightarrow> BerError + nat" where
  "count_varbinds [] = Inr 0"
| "count_varbinds (Inl e # vars) = Inl e"
| "count_varbinds (Inr _ # vars) = rbind (count_varbinds vars) (\<lambda>n. Inr (n + 1))"

definition VarList_of :: "Message \<Rightarrow> BerError + VarList" where
  "VarList_of message =
     rbind (count_varbinds (varbinds (msg_varbinds message))) (\<lambda>len.
       Inr \<lparr> vl_message = message, vl_len = len \<rparr>)"

fun map_while_ok :: "('e + 'a) list \<Rightarrow> 'a list" where
  "map_while_ok (Inr x # xs) = x # map_while_ok xs"
| "map_while_ok _ = []"

definition VarList_iter :: "VarList \<Rightarrow> VarBind list" where
  "VarList_iter vars = map_while_ok (varbinds (msg_varbinds (vl_message vars)))"

definition VarList_body :: "VarList \<Rightarrow> bytes" where
  "VarList_body vars = msg_varbinds (vl_message vars)"

datatype Pdu =
    Pdu_Get i32 VarList
  | Pdu_GetNext i32 VarList
  | Pdu_GetBulk i32 u32 u32 VarList
  | Pdu_Set i32 VarList
  | Pdu_Other Tag

record Request =
  rq_version :: Version
  rq_community :: bytes
  rq_pdu :: Pdu

text \<open>\<open>i32::try_from\<close>, and \<open>u32::try_from(v.max(0)).unwrap_or(u32::MAX)\<close>.\<close>

definition i32_try_from :: "i64 \<Rightarrow> BerError + i32" where
  "i32_try_from v = (if - (2 ^ 31) \<le> sint v \<and> sint v < 2 ^ 31 then Inr (of_int (sint v)) else Inl Overflow)"

definition count_of :: "i64 \<Rightarrow> u32" where
  "count_of v = (if sint v \<le> 0 then 0 else if sint v < 2 ^ 32 then of_int (sint v) else 0xFFFFFFFF)"

definition classify :: "Message \<Rightarrow> BerError + Pdu" where
  "classify message =
     (let rid = i32_try_from (msg_request_id message); vars = VarList_of message
      in case msg_pdu message of
           Tag_GetRequest \<Rightarrow> rbind rid (\<lambda>i. rbind vars (\<lambda>v. Inr (Pdu_Get i v)))
         | Tag_GetNextRequest \<Rightarrow> rbind rid (\<lambda>i. rbind vars (\<lambda>v. Inr (Pdu_GetNext i v)))
         | Tag_GetBulkRequest \<Rightarrow> rbind rid (\<lambda>i. rbind vars (\<lambda>v.
             Inr (Pdu_GetBulk i (count_of (msg_error_status message)) (count_of (msg_error_index message)) v)))
         | Tag_SetRequest \<Rightarrow> rbind rid (\<lambda>i. rbind vars (\<lambda>v. Inr (Pdu_Set i v)))
         | other \<Rightarrow> Inr (Pdu_Other other))"

definition decode :: "bytes \<Rightarrow> BerError + Request" where
  "decode datagram =
     rbind (Message_decode datagram) (\<lambda>message.
       let version = (if msg_version message = V2C then Version_V2c else Version_V1)
       in if version = Version_V1 \<and> msg_pdu message = Tag_GetBulkRequest
          then Inl (BadTag (Tag_byte Tag_GetBulkRequest))
          else rbind (classify message) (\<lambda>pdu.
            Inr \<lparr> rq_version = version, rq_community = msg_community message, rq_pdu = pdu \<rparr>))"

datatype Outcome = Sent | DroppedWrongCommunity | DroppedUnsupportedVersion | DroppedOther

section \<open>The envelope and the budget\<close>

datatype Written = Complete | Full | NoSuchName nat

datatype Envelope =
    Community i64 bytes
  | EnvelopeV3 V3Message Snapshot "LocalizedUser option" "SaltCounter option"

fun is_v1 :: "Envelope \<Rightarrow> bool" where
  "is_v1 (Community version _) \<longleftrightarrow> version = V1"
| "is_v1 _ \<longleftrightarrow> False"

fun Envelope_len :: "Envelope \<Rightarrow> i64 \<Rightarrow> i64 \<Rightarrow> i64 \<Rightarrow> nat \<Rightarrow> nat" where
  "Envelope_len (Community version community) rid status index n =
     message_len version community rid status index n"
| "Envelope_len (EnvelopeV3 request engine user salts) rid status index n =
     (let pdu = tlv_len (i64_len rid + i64_len status + i64_len index + tlv_len n)
      in case (user, salts) of
           (Some user, Some _) \<Rightarrow> private_response_len request engine user pdu
         | _ \<Rightarrow> response_len request engine user pdu)"

text \<open>The response, and the envelope with its salt counters after it.\<close>

fun Envelope_write ::
  "Crypto \<Rightarrow> Envelope \<Rightarrow> bytes \<Rightarrow> i64 \<Rightarrow> i64 \<Rightarrow> i64 \<Rightarrow> (bytes \<Rightarrow> 'r \<times> bytes) \<Rightarrow> 'r \<times> Envelope \<times> bytes" where
  "Envelope_write cr (Community version community) out rid status index vbs =
     (let (r, out) = write_message_ret out version community Tag_Response rid status index vbs
      in (r, Community version community, out))"
| "Envelope_write cr (EnvelopeV3 request engine user salts) out rid status index vbs =
     (let pdu = (\<lambda>out. write_tlv_ret out Tag_Response (\<lambda>out.
            let out = write_i64 out Tag_Integer rid;
                out = write_i64 out Tag_Integer status;
                out = write_i64 out Tag_Integer index
            in write_tlv_ret out Tag_Sequence vbs))
      in case (user, salts) of
           (Some user, Some salts) \<Rightarrow>
             (let (r, salts, out) = v3_write_private_response cr out request engine user salts pdu
              in (r, EnvelopeV3 request engine (Some user) salts, out))
         | _ \<Rightarrow>
             (let (r, out) = v3_write_response cr out request engine user pdu
              in (r, EnvelopeV3 request engine user salts, out)))"

record Reply =
  rp_envelope :: Envelope
  rp_id :: i64
  rp_budget :: nat

text \<open>\<open>List\<close>: where the varbind list being written starts in the response.\<close>

record VarbindList =
  ls_start :: nat
  ls_reply :: Reply

definition fits :: "VarbindList \<Rightarrow> bytes \<Rightarrow> nat \<Rightarrow> bool" where
  "fits list out extra \<longleftrightarrow>
     (let r = ls_reply list; n = length out - ls_start list + extra
      in Envelope_len (rp_envelope r) (rp_id r) 0 0 n \<le> rp_budget r)"

section \<open>Writing varbinds\<close>

datatype Name = InRequest bytes | InResponse "nat \<times> nat"

fun Name_len :: "Name \<Rightarrow> nat" where
  "Name_len (InRequest body) = length body"
| "Name_len (InResponse (a, b)) = b - a"

definition exception_len :: "nat \<Rightarrow> nat" where
  "exception_len name_len = tlv_len (tlv_len name_len + 2)"

fun Name_octets :: "Name \<Rightarrow> bytes \<Rightarrow> bytes" where
  "Name_octets (InRequest body) out = body"
| "Name_octets (InResponse (a, b)) out = take (b - a) (drop a out)"

definition write_exception :: "bytes \<Rightarrow> Name \<Rightarrow> Tag \<Rightarrow> bytes" where
  "write_exception out name tag =
     (let out = write_header out Tag_Sequence (tlv_len (Name_len name) + 2);
          out = write_header out Tag_Oid (Name_len name);
          out = out @ Name_octets name out
      in write_octets out tag [])"

datatype Step = StepFound | StepEnded | StepFull

definition end_of_mib_view :: "Name \<Rightarrow> VarbindList \<Rightarrow> bytes \<Rightarrow> Step \<times> bytes" where
  "end_of_mib_view name list out =
     (if \<not> fits list out (exception_len (Name_len name)) then (StepFull, out)
      else (StepEnded, write_exception out name Tag_EndOfMibView))"

definition next_varbind :: "SnmpAgent \<Rightarrow> nat \<Rightarrow> u32 list \<Rightarrow> Name \<Rightarrow> VarbindList \<Rightarrow> bytes \<Rightarrow> Step \<times> bytes" where
  "next_varbind agent millis arcs name list out =
     (let (step, out) = bulk agent millis arcs 1 False (\<lambda>_ varbind (step, out).
            if fits list out (length varbind) then (False, (StepFound, out @ varbind))
            else (False, (StepFull, out))) (StepEnded, out)
      in if step = StepEnded then end_of_mib_view name list out else (step, out))"

text \<open>The range of \<open>out\<close> with the name of the varbind that starts at \<open>at\<close>.\<close>

definition name_in :: "bytes \<Rightarrow> nat \<Rightarrow> BerError + (nat \<times> nat)" where
  "name_in out at =
     rbind (expect Tag_Sequence (drop at out)) (\<lambda>(body, after_body).
     rbind (expect Tag_Oid body) (\<lambda>(name, after_name).
       let start = length out - length after_body - length after_name - length name
       in Inr (start, start + length name)))"

fun get :: "SnmpAgent \<Rightarrow> nat \<Rightarrow> VarBind list \<Rightarrow> VarbindList \<Rightarrow> bytes \<Rightarrow> (BerError + Written) \<times> bytes" where
  "get agent millis [] list out = (Inr Complete, out)"
| "get agent millis (var # vars) list out =
     (case VarBind_name_into var of
        Inl e \<Rightarrow> (Inl e, out)
      | Inr name \<Rightarrow>
          (case lookup agent millis name of
             FoundValue varbind \<Rightarrow>
               if \<not> fits list out (length varbind) then (Inr Full, out)
               else get agent millis vars list (out @ varbind)
           | found \<Rightarrow>
               let tag = (if found = FoundNoSuchInstance then Tag_NoSuchInstance else Tag_NoSuchObject)
               in if \<not> fits list out (exception_len (length (vb_oid var))) then (Inr Full, out)
                  else get agent millis vars list (write_exception out (InRequest (vb_oid var)) tag)))"

fun get_v1_loop ::
  "SnmpAgent \<Rightarrow> nat \<Rightarrow> nat \<Rightarrow> bool \<Rightarrow> VarBind list \<Rightarrow> VarbindList \<Rightarrow> bytes \<Rightarrow> (BerError + Written) \<times> bytes" where
  "get_v1_loop agent millis index full [] list out = (Inr (if full then Full else Complete), out)"
| "get_v1_loop agent millis index full (var # vars) list out =
     (case VarBind_name_into var of
        Inl e \<Rightarrow> (Inl e, out)
      | Inr name \<Rightarrow>
          (case lookup agent millis name of
             FoundValue varbind \<Rightarrow>
               if \<not> is_counter64 varbind then
                 (if \<not> full \<and> fits list out (length varbind)
                  then get_v1_loop agent millis (index + 1) full vars list (out @ varbind)
                  else get_v1_loop agent millis (index + 1) True vars list out)
               else (Inr (NoSuchName (index + 1)), out)
           | _ \<Rightarrow> (Inr (NoSuchName (index + 1)), out)))"

definition get_v1 :: "SnmpAgent \<Rightarrow> nat \<Rightarrow> VarBind list \<Rightarrow> VarbindList \<Rightarrow> bytes \<Rightarrow> (BerError + Written) \<times> bytes" where
  "get_v1 agent millis vars list out = get_v1_loop agent millis 0 False vars list out"

fun get_next_v1_loop ::
  "SnmpAgent \<Rightarrow> nat \<Rightarrow> nat \<Rightarrow> bool \<Rightarrow> VarBind list \<Rightarrow> VarbindList \<Rightarrow> bytes \<Rightarrow> (BerError + Written) \<times> bytes" where
  "get_next_v1_loop agent millis index full [] list out = (Inr (if full then Full else Complete), out)"
| "get_next_v1_loop agent millis index full (var # vars) list out =
     (case VarBind_name_into var of
        Inl e \<Rightarrow> (Inl e, out)
      | Inr name \<Rightarrow>
          (let (found, full, out) = bulk agent millis name 1 True (\<lambda>_ varbind (found, full, out).
                 if \<not> full \<and> fits list out (length varbind) then (False, (True, full, out @ varbind))
                 else (False, (True, True, out))) (False, full, out)
           in if \<not> found then (Inr (NoSuchName (index + 1)), out)
              else get_next_v1_loop agent millis (index + 1) full vars list out))"

definition get_next_v1 :: "SnmpAgent \<Rightarrow> nat \<Rightarrow> VarBind list \<Rightarrow> VarbindList \<Rightarrow> bytes \<Rightarrow> (BerError + Written) \<times> bytes" where
  "get_next_v1 agent millis vars list out = get_next_v1_loop agent millis 0 False vars list out"

fun get_next :: "SnmpAgent \<Rightarrow> nat \<Rightarrow> VarBind list \<Rightarrow> VarbindList \<Rightarrow> bytes \<Rightarrow> (BerError + Written) \<times> bytes" where
  "get_next agent millis [] list out = (Inr Complete, out)"
| "get_next agent millis (var # vars) list out =
     (case VarBind_name_into var of
        Inl e \<Rightarrow> (Inl e, out)
      | Inr name \<Rightarrow>
          (let (step, out) = next_varbind agent millis name (InRequest (vb_oid var)) list out
           in if step = StepFull then (Inr Full, out) else get_next agent millis vars list out))"

section \<open>GETBULK\<close>

record Cursor =
  cu_name :: "nat \<times> nat"
  cu_ended :: bool

text \<open>
  The three loops of \<open>get_bulk\<close>. Each stops the whole list with a result, \<open>Inl\<close>, or goes on,
  \<open>Inr\<close>, with what it has built.
\<close>

type_synonym 'a bulk_result = "((BerError + Written) + 'a) \<times> bytes"

fun bulk_non_repeaters :: "SnmpAgent \<Rightarrow> nat \<Rightarrow> VarBind list \<Rightarrow> VarbindList \<Rightarrow> bytes \<Rightarrow> unit bulk_result" where
  "bulk_non_repeaters agent millis [] list out = (Inr (), out)"
| "bulk_non_repeaters agent millis (var # vars) list out =
     (case VarBind_name_into var of
        Inl e \<Rightarrow> (Inl (Inl e), out)
      | Inr name \<Rightarrow>
          (let (step, out) = next_varbind agent millis name (InRequest (vb_oid var)) list out
           in if step = StepFull then (Inl (Inr Complete), out) else bulk_non_repeaters agent millis vars list out))"

fun bulk_first_round ::
  "SnmpAgent \<Rightarrow> nat \<Rightarrow> VarBind list \<Rightarrow> Cursor list \<Rightarrow> VarbindList \<Rightarrow> bytes \<Rightarrow> Cursor list bulk_result" where
  "bulk_first_round agent millis [] cursors list out = (Inr cursors, out)"
| "bulk_first_round agent millis (var # vars) cursors list out =
     (case VarBind_name_into var of
        Inl e \<Rightarrow> (Inl (Inl e), out)
      | Inr name \<Rightarrow>
          (let at = length out;
               (step, out) = next_varbind agent millis name (InRequest (vb_oid var)) list out
           in if step = StepFull then (Inl (Inr Complete), out)
              else (case name_in out at of
                      Inl e \<Rightarrow> (Inl (Inl e), out)
                    | Inr rng \<Rightarrow> bulk_first_round agent millis vars
                        (cursors @ [\<lparr> cu_name = rng, cu_ended = (step = StepEnded) \<rparr>]) list out)))"

fun bulk_round ::
  "SnmpAgent \<Rightarrow> nat \<Rightarrow> Cursor list \<Rightarrow> Cursor list \<Rightarrow> VarbindList \<Rightarrow> bytes \<Rightarrow> Cursor list bulk_result" where
  "bulk_round agent millis [] moved list out = (Inr moved, out)"
| "bulk_round agent millis (cursor # cursors) moved list out =
     (let at = length out;
          (a, b) = cu_name cursor
      in case (if cu_ended cursor then Inr (end_of_mib_view (InResponse (cu_name cursor)) list out)
               else rbind (ok_or (decode_ber_body (take (b - a) (drop a out))) BadOid) (\<lambda>name.
                 Inr (next_varbind agent millis name (InResponse (cu_name cursor)) list out))) of
           Inl e \<Rightarrow> (Inl (Inl e), out)
         | Inr (step, out) \<Rightarrow>
             if step = StepFull then (Inl (Inr Complete), out)
             else (case name_in out at of
                     Inl e \<Rightarrow> (Inl (Inl e), out)
                   | Inr rng \<Rightarrow> bulk_round agent millis cursors
                       (moved @ [\<lparr> cu_name = rng, cu_ended = (step = StepEnded) \<rparr>]) list out))"

fun bulk_rounds ::
  "SnmpAgent \<Rightarrow> nat \<Rightarrow> nat \<Rightarrow> Cursor list \<Rightarrow> VarbindList \<Rightarrow> bytes \<Rightarrow> (BerError + Written) \<times> bytes" where
  "bulk_rounds agent millis 0 cursors list out = (Inr Complete, out)"
| "bulk_rounds agent millis (Suc rounds) cursors list out =
     (if list_all cu_ended cursors then (Inr Complete, out)
      else case bulk_round agent millis cursors [] list out of
             (Inl r, out) \<Rightarrow> (r, out)
           | (Inr cursors, out) \<Rightarrow> bulk_rounds agent millis rounds cursors list out)"

text \<open>What the closure of \<open>column\<close> updates.\<close>

record Column =
  co_emitted :: nat
  co_full :: bool
  co_last :: "nat option"
  co_out :: bytes

definition column_emit :: "VarbindList \<Rightarrow> Oid \<Rightarrow> bytes \<Rightarrow> Column \<Rightarrow> bool \<times> Column" where
  "column_emit list oid varbind c =
     (if \<not> fits list (co_out c) (length varbind) then (False, c \<lparr> co_full := True \<rparr>)
      else (True, c \<lparr> co_last := Some (length (co_out c)), co_out := co_out c @ varbind,
                      co_emitted := co_emitted c + 1 \<rparr>))"

definition column :: "SnmpAgent \<Rightarrow> nat \<Rightarrow> Cursor \<Rightarrow> nat \<Rightarrow> VarbindList \<Rightarrow> bytes \<Rightarrow> (BerError + Written) \<times> bytes" where
  "column agent millis first rounds list out =
     (if cu_ended first \<or> rounds = 0 then (Inr Complete, out)
      else
        let (a, b) = cu_name first
        in case decode_ber_body (take (b - a) (drop a out)) of
             None \<Rightarrow> (Inl BadOid, out)
           | Some name \<Rightarrow>
               (let c = bulk agent millis name rounds False (column_emit list)
                          \<lparr> co_emitted = 0, co_full = False, co_last = None, co_out = out \<rparr>;
                    out = co_out c
                in if co_full c \<or> co_emitted c = rounds then (Inr Complete, out)
                   else (case (case co_last c of Some at \<Rightarrow> name_in out at | None \<Rightarrow> Inr (cu_name first)) of
                           Inl e \<Rightarrow> (Inl e, out)
                         | Inr name \<Rightarrow> (Inr Complete, snd (end_of_mib_view (InResponse name) list out)))))"

definition get_bulk ::
  "SnmpAgent \<Rightarrow> nat \<Rightarrow> VarList \<Rightarrow> u32 \<Rightarrow> u32 \<Rightarrow> VarbindList \<Rightarrow> bytes \<Rightarrow> (BerError + Written) \<times> bytes" where
  "get_bulk agent millis vars non_repeaters max_repetitions list out =
     (let n = min (vl_len vars) (unat non_repeaters);
          vars = VarList_iter vars
      in case bulk_non_repeaters agent millis (take n vars) list out of
           (Inl r, out) \<Rightarrow> (r, out)
         | (Inr _, out) \<Rightarrow>
             if max_repetitions = 0 then (Inr Complete, out)
             else
               (case bulk_first_round agent millis (drop n vars) [] list out of
                  (Inl r, out) \<Rightarrow> (r, out)
                | (Inr cursors, out) \<Rightarrow>
                    if length cursors = 1
                    then column agent millis (hd cursors) (unat max_repetitions - 1) list out
                    else bulk_rounds agent millis (unat max_repetitions - 1) cursors list out))"

definition echo :: "VarList \<Rightarrow> VarbindList \<Rightarrow> bytes \<Rightarrow> (BerError + Written) \<times> bytes" where
  "echo vars list out =
     (let body = VarList_body vars
      in if \<not> fits list out (length body) then (Inr Full, out) else (Inr Complete, out @ body))"

section \<open>Error responses\<close>

text \<open>Each returns what became of the request, the envelope with its salts, and the buffer.\<close>

definition error_response ::
  "Crypto \<Rightarrow> Reply \<Rightarrow> i64 \<Rightarrow> i64 \<Rightarrow> bytes \<Rightarrow> bytes \<Rightarrow> Outcome \<times> Envelope \<times> bytes" where
  "error_response cr reply status index vbs out =
     (let len = Envelope_len (rp_envelope reply) (rp_id reply) status index (length vbs)
      in if len > rp_budget reply then (DroppedOther, rp_envelope reply, out)
         else
           let (_, envelope, out) =
             Envelope_write cr (rp_envelope reply) out (rp_id reply) status index (\<lambda>out. ((), out @ vbs))
           in (Sent, envelope, out))"

definition too_big ::
  "Crypto \<Rightarrow> nat \<Rightarrow> Reply \<Rightarrow> VarList \<Rightarrow> SnmpAgent \<Rightarrow> Outcome \<times> Envelope \<times> SnmpAgent \<times> bytes" where
  "too_big cr millis reply vars agent =
     (let agent = count TooBig agent;
          agent = warn_too_big millis agent;
          echoed = (if is_v1 (rp_envelope reply) then VarList_body vars else []);
          (outcome, envelope, out) = error_response cr reply TOO_BIG 0 echoed []
      in (outcome, envelope, agent, out))"

definition no_such_name ::
  "Crypto \<Rightarrow> nat \<Rightarrow> Reply \<Rightarrow> VarList \<Rightarrow> nat \<Rightarrow> SnmpAgent \<Rightarrow> Outcome \<times> Envelope \<times> SnmpAgent \<times> bytes" where
  "no_such_name cr millis reply vars index agent =
     (let index = (if index < 2 ^ 63 then of_nat index else 0x7FFFFFFFFFFFFFFF);
          (outcome, envelope, out) = error_response cr reply NO_SUCH_NAME index (VarList_body vars) []
      in case outcome of
           Sent \<Rightarrow> (Sent, envelope, agent, out)
         | _ \<Rightarrow> too_big cr millis reply vars agent)"

section \<open>Answering\<close>

definition write_varbinds ::
  "SnmpAgent \<Rightarrow> nat \<Rightarrow> Pdu \<Rightarrow> bool \<Rightarrow> VarList \<Rightarrow> Reply \<Rightarrow> bytes \<Rightarrow> (BerError + Written) \<times> bytes" where
  "write_varbinds agent millis pdu v1 vars reply out =
     (let list = \<lparr> ls_start = length out, ls_reply = reply \<rparr>
      in case pdu of
           Pdu_Get _ _ \<Rightarrow> (if v1 then get_v1 else get) agent millis (VarList_iter vars) list out
         | Pdu_GetNext _ _ \<Rightarrow> (if v1 then get_next_v1 else get_next) agent millis (VarList_iter vars) list out
         | Pdu_GetBulk _ non_repeaters max_repetitions _ \<Rightarrow>
             get_bulk agent millis vars non_repeaters max_repetitions list out
         | Pdu_Set _ _ \<Rightarrow> echo vars list out
         | Pdu_Other _ \<Rightarrow> (Inr Complete, out))"

fun pdu_parts :: "Pdu \<Rightarrow> (Counter \<times> i32 \<times> VarList) option" where
  "pdu_parts (Pdu_Get i vars) = Some (Get, i, vars)"
| "pdu_parts (Pdu_GetNext i vars) = Some (GetNext, i, vars)"
| "pdu_parts (Pdu_GetBulk i _ _ vars) = Some (GetBulk, i, vars)"
| "pdu_parts (Pdu_Set i vars) = Some (SetRefused, i, vars)"
| "pdu_parts (Pdu_Other _) = None"

fun pdu_status :: "Pdu \<Rightarrow> bool \<Rightarrow> i64 \<times> i64" where
  "pdu_status (Pdu_Set _ vars) v1 =
     (if vl_len vars \<noteq> 0 \<and> v1 then (NO_SUCH_NAME, 1)
      else if vl_len vars \<noteq> 0 then (NOT_WRITABLE, 1) else (0, 0))"
| "pdu_status _ v1 = (0, 0)"

definition answer_pdu ::
  "Crypto \<Rightarrow> nat \<Rightarrow> Pdu \<Rightarrow> Envelope \<Rightarrow> nat \<Rightarrow> SnmpAgent \<Rightarrow> Outcome \<times> Envelope \<times> SnmpAgent \<times> bytes" where
  "answer_pdu cr millis pdu envelope budget agent =
     (case pdu_parts pdu of
        None \<Rightarrow> (DroppedOther, envelope, count Malformed agent, [])
      | Some (counter, rid, vars) \<Rightarrow>
          let v1 = is_v1 envelope;
              reply = \<lparr> rp_envelope = envelope, rp_id = scast rid, rp_budget = budget \<rparr>;
              (status, index) = pdu_status pdu v1;
              (written, envelope, out) =
                Envelope_write cr envelope [] (scast rid) status index (write_varbinds agent millis pdu v1 vars reply);
              reply = reply \<lparr> rp_envelope := envelope \<rparr>
          in case (case written of
                     Inr Complete \<Rightarrow> Some (Sent, envelope, agent, out)
                   | Inr Full \<Rightarrow> Some (too_big cr millis reply vars agent)
                   | Inr (NoSuchName index) \<Rightarrow> Some (no_such_name cr millis reply vars index agent)
                   | Inl _ \<Rightarrow> None) of
               None \<Rightarrow> (DroppedOther, envelope, count Malformed agent, [])
             | Some (outcome, envelope, agent, out) \<Rightarrow>
                 let agent = count counter agent;
                     agent = (case envelope of
                         Community _ _ \<Rightarrow> if v1 then count CounterV1 agent else agent
                       | EnvelopeV3 _ _ _ _ \<Rightarrow> count CounterV3 agent)
                 in (outcome, envelope, agent, out))"

definition answer :: "Crypto \<Rightarrow> nat \<Rightarrow> Request \<Rightarrow> nat \<Rightarrow> SnmpAgent \<Rightarrow> Outcome \<times> SnmpAgent \<times> bytes" where
  "answer cr millis req budget agent =
     (if Version_configured (rq_version req) \<notin> set (set_versions (ag_settings agent))
      then (DroppedUnsupportedVersion, count CounterUnsupportedVersion agent, [])
      else
        let community = as_bytes (set_community (ag_settings agent))
        in if \<not> constant_time_eq (rq_community req) community
           then (DroppedWrongCommunity, count WrongCommunity agent, [])
           else
             let envelope = Community (Version_field (rq_version req)) community;
                 (outcome, _, agent, out) = answer_pdu cr millis (rq_pdu req) envelope budget agent
             in (outcome, agent, out))"

datatype Refusal = RefusedCommunity Request | RefusedUser bytes | RefusedDigest bytes

text \<open>An agent serving SNMPv3 has its engine and users besides its table.\<close>

record Serving =
  sv_agent :: SnmpAgent
  sv_usm :: Usm

definition with_salts :: "SaltCounter option \<Rightarrow> Usm \<Rightarrow> Usm" where
  "with_salts salts usm =
     (case salts of
        None \<Rightarrow> usm
      | Some salts \<Rightarrow> usm \<lparr> usm_engine := usm_engine usm \<lparr> en_salts := salts \<rparr> \<rparr>)"

definition Envelope_salts :: "Envelope \<Rightarrow> SaltCounter option" where
  "Envelope_salts envelope = (case envelope of EnvelopeV3 _ _ _ salts \<Rightarrow> salts | Community _ _ \<Rightarrow> None)"

definition answer_v3 ::
  "Crypto \<Rightarrow> nat \<Rightarrow> bytes \<Rightarrow> nat \<Rightarrow> Serving \<Rightarrow> Outcome \<times> Refusal option \<times> Serving \<times> bytes" where
  "answer_v3 cr millis datagram budget serving =
     (let malformed = (DroppedOther, None, serving \<lparr> sv_agent := count Malformed (sv_agent serving) \<rparr>, [])
      in case v3_decode datagram of
           Inl _ \<Rightarrow> malformed
         | Inr request \<Rightarrow>
             if v3_security_model request \<noteq> V3_USM then malformed
             else
               let usm = sv_usm serving;
                   secs = millis div 1000
               in case verify cr request datagram (usm_engine usm) secs (usm_users usm) of
                    UsmReport stat authenticated \<Rightarrow>
                      (let (n, agent) = count_and_read (UsmStat_counter stat) (sv_agent serving);
                           v = (ucast n :: u32);
                           refused = (case stat of
                               UnknownUserNames \<Rightarrow> Some (RefusedUser (up_user (v3_usm request)))
                             | WrongDigests \<Rightarrow> Some (RefusedDigest (up_user (v3_usm request)))
                             | _ \<Rightarrow> None);
                           serving = serving \<lparr> sv_agent := agent \<rparr>
                       in if fl_reportable (v3_flags request)
                          then
                            let user = (if authenticated then usm_user (usm_users usm) (up_user (v3_usm request)) else None);
                                engine = Engine_snapshot (usm_engine usm) secs
                            in (Sent, refused, serving, write_report cr [] request engine stat v user)
                          else (DroppedOther, refused, serving, []))
                  | UsmAnswer user authenticated scoped \<Rightarrow>
                      (case Option.bind (case scoped of Some s \<Rightarrow> Some s | None \<Rightarrow> v3_scoped request)
                              (\<lambda>scoped. to_option (classify (sp_pdu scoped))) of
                         None \<Rightarrow> malformed
                       | Some pdu \<Rightarrow>
                           let envelope = EnvelopeV3 request (Engine_snapshot (usm_engine usm) secs)
                                 (if authenticated then Some user else None)
                                 (if fl_privacy (v3_flags request) then Some (en_salts (usm_engine usm)) else None);
                               (outcome, envelope, agent, out) =
                                 answer_pdu cr millis pdu envelope (min budget (v3_msg_max_size request)) (sv_agent serving)
                           in (outcome, None,
                               serving \<lparr> sv_agent := agent, sv_usm := with_salts (Envelope_salts envelope) usm \<rparr>, out)))"

definition undecodable :: "BerError \<Rightarrow> SnmpAgent \<Rightarrow> Outcome \<times> SnmpAgent" where
  "undecodable e agent =
     (if e = UnsupportedVersion V3_VERSION
      then (DroppedUnsupportedVersion, count CounterUnsupportedVersion agent)
      else (DroppedOther, count Malformed agent))"

definition respond_noting ::
  "Crypto \<Rightarrow> nat \<Rightarrow> bytes \<Rightarrow> nat \<Rightarrow> Serving \<Rightarrow> Outcome \<times> Refusal option \<times> Serving \<times> bytes" where
  "respond_noting cr millis datagram budget serving =
     (case decode datagram of
        Inr request \<Rightarrow>
          (let (outcome, agent, out) = answer cr millis request budget (sv_agent serving)
           in (outcome, if outcome = DroppedWrongCommunity then Some (RefusedCommunity request) else None,
               serving \<lparr> sv_agent := agent \<rparr>, out))
      | Inl e \<Rightarrow>
          if e = UnsupportedVersion V3_VERSION \<and> Snmp_V3 \<in> set (set_versions (ag_settings (sv_agent serving)))
          then answer_v3 cr millis datagram budget serving
          else
            let (outcome, agent) = undecodable e (sv_agent serving)
            in (outcome, None, serving \<lparr> sv_agent := agent \<rparr>, []))"

definition message_version :: "bytes \<Rightarrow> SnmpVersion option" where
  "message_version datagram =
     (case expect Tag_Sequence datagram of
        Inl _ \<Rightarrow> None
      | Inr (body, outer) \<Rightarrow>
          if outer \<noteq> [] then None
          else
            (case read_i64 Tag_Integer body of
               Inl _ \<Rightarrow> None
             | Inr (v, _) \<Rightarrow>
                 if v = V1 then Some Snmp_V1
                 else if v = V2C then Some Snmp_V2c
                 else if v = V3_VERSION then Some Snmp_V3 else None))"

section \<open>The serving task\<close>

text \<open>\<open>PeerWarnings\<close>: one entry for each peer.\<close>

type_synonym PeerWarnings = "(IpAddr \<times> nat) list"

definition due :: "IpAddr \<Rightarrow> nat \<Rightarrow> PeerWarnings \<Rightarrow> bool \<times> PeerWarnings" where
  "due peer now warned =
     (if \<not> warn_due (map_of warned peer) now then (False, warned)
      else
        let known = map_of warned peer \<noteq> None;
            full = length warned \<ge> WARNED_PEERS \<and> \<not> known;
            warned = (if full then filter (\<lambda>(_, at). \<not> warn_due (Some at) now) warned else warned)
        in if full \<and> length warned \<ge> WARNED_PEERS then (False, warned)
           else (True, AList.update peer now warned))"

record Server =
  sr_serving :: Serving
  sr_warned :: PeerWarnings
  sr_warned_user :: PeerWarnings
  sr_warned_digest :: PeerWarnings

text \<open>
  One turn of the loop of \<open>serve\<close>: a datagram from \<open>peer\<close> at \<open>now\<close>. \<open>send_ok\<close> is whether the socket
  sends the response. The result is the datagram to send and whether a warning is logged.
\<close>

definition serve_one ::
  "Crypto \<Rightarrow> nat \<Rightarrow> SocketAddr \<Rightarrow> bytes \<Rightarrow> bool \<Rightarrow> Server \<Rightarrow> bytes option \<times> bool \<times> Server" where
  "serve_one cr now peer datagram send_ok server =
     (let serving = sr_serving server;
          serving = serving \<lparr> sv_agent := note_request now peer (message_version datagram) (sv_agent serving) \<rparr>;
          budget = set_max_message_size (ag_settings (sv_agent serving));
          (outcome, refused, serving, out) = respond_noting cr now datagram budget serving;
          (logged, server) = (case refused of
              None \<Rightarrow> (False, server)
            | Some (RefusedCommunity _) \<Rightarrow>
                (let (l, w) = due (sa_ip peer) now (sr_warned server) in (l, server \<lparr> sr_warned := w \<rparr>))
            | Some (RefusedUser _) \<Rightarrow>
                (let (l, w) = due (sa_ip peer) now (sr_warned_user server) in (l, server \<lparr> sr_warned_user := w \<rparr>))
            | Some (RefusedDigest _) \<Rightarrow>
                (let (l, w) = due (sa_ip peer) now (sr_warned_digest server) in (l, server \<lparr> sr_warned_digest := w \<rparr>)));
          serving = (if outcome = Sent \<and> \<not> send_ok
            then serving \<lparr> sv_agent := count SendErrors (sv_agent serving) \<rparr> else serving)
      in (if outcome = Sent then Some out else None, logged, server \<lparr> sr_serving := serving \<rparr>))"

end
