(* ===== verification/Responder_Size.thy ===== *)
theory Responder_Size
  imports Responder
begin

text \<open>
  What a response weighs. Every writer of \<open>responder.rs\<close> only appends to the buffer and appends a varbind
  only while the message it makes still fits, so the message that is sent is within its budget
  (\<open>List::fits\<close>, \<open>Envelope::len\<close>).
\<close>

section \<open>What is written fits\<close>

lemma run_emit_invariant:
  "P s \<Longrightarrow> (\<And>oid vb s. P s \<Longrightarrow> P (snd (emit oid vb s))) \<Longrightarrow> P (run_emit emit n xs s)"
proof (induction emit n xs s rule: run_emit.induct)
  case (1 f n k v xs s)
  obtain more s' where f: "f k v s = (more, s')" by fastforce
  then have "P s'" using 1(2,3) by (metis snd_conv)
  with 1 f show ?case by simp
qed auto

lemma bulk_invariant:
  "agent_inv agent \<Longrightarrow> P s \<Longrightarrow> (\<And>oid vb s. P s \<Longrightarrow> P (snd (emit oid vb s)))
    \<Longrightarrow> P (bulk agent millis start limit skip emit s)"
  by (simp add: bulk_run run_emit_invariant)

text \<open>The buffer has grown from \<open>out\<close> to \<open>out'\<close>, and the list it holds still fits.\<close>

definition grows :: "VarbindList \<Rightarrow> bytes \<Rightarrow> bytes \<Rightarrow> bool" where
  "grows list out out' \<longleftrightarrow> ls_start list \<le> length out \<and> (\<exists>ys. out' = out @ ys \<and> (ys = [] \<or> fits list out' 0))"

lemma grows_refl: "ls_start list \<le> length out \<Longrightarrow> grows list out out"
  by (simp add: grows_def)

lemma grows_trans: "grows list a b \<Longrightarrow> grows list b c \<Longrightarrow> grows list a c"
  by (auto simp: grows_def)

lemma growsD: "grows list a b \<Longrightarrow> ls_start list \<le> length b" "grows list a b \<Longrightarrow> length a \<le> length b"
  by (auto simp: grows_def)

lemma grows_append:
  assumes "ls_start list \<le> length out" and "fits list out (length xs)"
  shows "grows list out (out @ xs)"
proof -
  have "length (out @ xs) - ls_start list + 0 = length out - ls_start list + length xs" using assms(1) by simp
  then have "fits list (out @ xs) 0" using assms(2) unfolding fits_def Let_def by simp
  then show ?thesis using assms(1) by (simp add: grows_def)
qed

lemma grows_more: "grows list a b \<Longrightarrow> fits list b (length xs) \<Longrightarrow> grows list a (b @ xs)"
  using grows_append [of list b xs] growsD(1) [of list a b] grows_trans by blast

definition name_ok :: "Name \<Rightarrow> bytes \<Rightarrow> bool" where
  "name_ok name out \<longleftrightarrow> Name_len name < 2 ^ 32 \<and>
     (case name of InRequest _ \<Rightarrow> True | InResponse (a, b) \<Rightarrow> a \<le> b \<and> b \<le> length out)"

lemma write_exception_eq:
  assumes "name_ok name out" 
  shows "write_exception out name tag =
    out @ tlv Tag_Sequence (tlv Tag_Oid (Name_octets name out) @ tlv tag [])"
    and "length (write_exception out name tag) = length out + exception_len (Name_len name)"
proof -
  have n: "length (Name_octets name out) = Name_len name" and small: "Name_len name < 2 ^ 32"
    using assms by (auto simp: name_ok_def split: Name.splits prod.splits)
  have same: "Name_octets name (out @ xs) = Name_octets name out" for xs
    using assms by (auto simp: name_ok_def split: Name.splits prod.splits)
  have e: "length (tlv tag []) = 2" by (simp add: tlv_len_def length_len_def)
  have l: "length (tlv Tag_Oid (Name_octets name out) @ tlv tag []) = tlv_len (Name_len name) + 2"
    using small n e by simp
  have "write_exception out name tag = out @ hdr Tag_Sequence (tlv_len (Name_len name) + 2)
      @ hdr Tag_Oid (Name_len name) @ Name_octets name out @ tlv tag []"
    by (simp add: write_exception_def Let_def write_header_eq write_octets_tlv same [of "hdr _ _ @ hdr _ _", simplified])
  then show eq: "write_exception out name tag = out @ tlv Tag_Sequence (tlv Tag_Oid (Name_octets name out) @ tlv tag [])"
    using l n by (simp add: tlv_def [of Tag_Sequence] tlv_def [of Tag_Oid])
  have "tlv_len (Name_len name) + 2 < 2 ^ 64" using small length_len_long [of "Name_len name" 4]
    by (cases "Name_len name < 0x80") (simp_all add: tlv_len_def length_len_def)
  then show "length (write_exception out name tag) = length out + exception_len (Name_len name)"
    unfolding eq length_append using l by (simp add: exception_len_def)
qed

lemma grows_exception:
  assumes "ls_start list \<le> length out" and "fits list out (exception_len (Name_len name))" and "name_ok name out"
  shows "grows list out (write_exception out name tag)"
proof -
  let ?xs = "tlv Tag_Sequence (tlv Tag_Oid (Name_octets name out) @ tlv tag [])"
  have "length ?xs = exception_len (Name_len name)"
    using write_exception_eq [OF assms(3), of tag] by simp
  then show ?thesis using assms(1,2) write_exception_eq(1) [OF assms(3), of tag] grows_append [of list out ?xs] by simp
qed

lemma end_of_mib_view_grows:
  assumes "ls_start list \<le> length out" and "name_ok name out"
  shows "grows list out (snd (end_of_mib_view name list out))"
  using assms by (auto simp: end_of_mib_view_def grows_refl grows_exception)

lemma next_varbind_grows:
  assumes "agent_inv agent" and "ls_start list \<le> length out" and "name_ok name out"
  shows "grows list out (snd (next_varbind agent millis arcs name list out))"
proof -
  let ?emit = "\<lambda>_ varbind (step, out). if fits list out (length varbind) then (False, (StepFound, out @ varbind))
            else (False, (StepFull, out))"
  have "(\<lambda>(step, out'). grows list out out' \<and> (step = StepEnded \<longrightarrow> out' = out)) (bulk agent millis arcs 1 False ?emit (StepEnded, out))"
    by (rule bulk_invariant [OF assms(1)])
       (auto simp: grows_refl assms(2) split: if_splits intro: grows_more grows_append [OF assms(2)])
  then show ?thesis
    using end_of_mib_view_grows [OF assms(2,3)]
    by (auto simp: next_varbind_def split: prod.splits)
qed


definition vars_ok :: "VarBind list \<Rightarrow> bool" where
  "vars_ok vars \<longleftrightarrow> list_all (\<lambda>var. length (vb_oid var) < 2 ^ 32) vars"

lemma vars_okD:
  "vars_ok (var # vars) \<Longrightarrow> name_ok (InRequest (vb_oid var)) out"
  "vars_ok (var # vars) \<Longrightarrow> vars_ok vars"
  by (simp_all add: vars_ok_def name_ok_def)

lemma get_grows:
  "ls_start list \<le> length out \<Longrightarrow> vars_ok vars \<Longrightarrow> grows list out (snd (get agent millis vars list out))"
proof (induction agent millis vars list out rule: get.induct)
  case (2 agent millis var vars list out)
  have nok: "name_ok (InRequest (vb_oid var)) out" and vok: "vars_ok vars" using "2.prems" vars_okD by blast+
  show ?case
  proof (cases "VarBind_name_into var")
    case (Inl e)
    then show ?thesis using "2.prems" by (simp add: grows_refl)
  next
    case (Inr name)
    show ?thesis
    proof (cases "lookup agent millis name")
      case (FoundValue varbind)
      then show ?thesis
        using "2.IH"(1) [OF Inr FoundValue _ _ vok] grows_append [OF "2.prems"(1), of varbind] "2.prems"(1) Inr
        by (auto simp: grows_refl intro: grows_trans)
    next
      case FoundNoSuchInstance
      let ?out = "write_exception out (InRequest (vb_oid var)) Tag_NoSuchInstance"
      show ?thesis
        using "2.IH"(2) [OF Inr FoundNoSuchInstance refl _ _ vok] grows_exception [OF "2.prems"(1) _ nok, of Tag_NoSuchInstance] "2.prems"(1) Inr
         FoundNoSuchInstance
        by (auto simp: grows_refl Let_def intro: grows_trans dest: growsD)
    next
      case FoundNoSuchObject
      show ?thesis
        using "2.IH"(3) [OF Inr FoundNoSuchObject refl _ _ vok] grows_exception [OF "2.prems"(1) _ nok, of Tag_NoSuchObject] "2.prems"(1) Inr
         FoundNoSuchObject
        by (auto simp: grows_refl Let_def intro: grows_trans dest: growsD)
    qed
  qed
qed (simp add: grows_refl)

lemma get_v1_loop_grows:
  "ls_start list \<le> length out \<Longrightarrow> grows list out (snd (get_v1_loop agent millis index full vars list out))"
proof (induction agent millis index full vars list out rule: get_v1_loop.induct)
  case (2 agent millis index full var vars list out)
  then show ?case
    by (auto simp: grows_refl split: sum.splits Found.splits intro: grows_trans grows_append)
qed (simp add: grows_refl)

lemma get_next_v1_loop_grows:
  assumes "agent_inv agent"
  shows "ls_start list \<le> length out \<Longrightarrow> grows list out (snd (get_next_v1_loop agent millis index full vars list out))"
proof (induction vars arbitrary: index full out)
  case (Cons var vars)
  show ?case
  proof (cases "VarBind_name_into var")
    case (Inr name)
    let ?emit = "\<lambda>_ varbind (found, full, out).
                 if \<not> full \<and> fits list out (length varbind) then (False, (True, full, out @ varbind))
                 else (False, (True, True, out))"
    obtain found full' out' where b: "bulk agent millis name 1 True ?emit (False, full, out) = (found, full', out')"
      by (rule prod_cases3)
    have "(\<lambda>(found, full, out'). grows list out out') (bulk agent millis name 1 True ?emit (False, full, out))"
      by (rule bulk_invariant [OF assms])
         (auto simp: grows_refl Cons.prems split: if_splits intro: grows_more)
    with b have "grows list out out'" by simp
    then show ?thesis using Inr b Cons.IH [of out'] by (auto intro: grows_trans dest: growsD)
  qed (simp add: grows_refl Cons.prems)
qed (simp add: grows_refl)

lemma get_next_grows:
  assumes "agent_inv agent"
  shows "ls_start list \<le> length out \<Longrightarrow> vars_ok vars \<Longrightarrow> grows list out (snd (get_next agent millis vars list out))"
proof (induction vars arbitrary: out)
  case (Cons var vars)
  show ?case
  proof (cases "VarBind_name_into var")
    case (Inr name)
    obtain step out' where n: "next_varbind agent millis name (InRequest (vb_oid var)) list out = (step, out')" by fastforce
    have "grows list out out'"
      using next_varbind_grows [OF assms Cons.prems(1), of "InRequest (vb_oid var)" millis name]
        vars_okD(1) [OF Cons.prems(2)] n by simp
    then show ?thesis using Inr n Cons.IH [of out'] vars_okD(2) [OF Cons.prems(2)] by (auto intro: grows_trans dest: growsD)
  qed (simp add: grows_refl Cons.prems)
qed (simp add: grows_refl)

lemma raw_tlv_body_small:
  assumes "raw_tlv inp = Inr ((tag, body), rest)"
  shows "length body < 2 ^ 32"
proof -
  have fold: "foldl (\<lambda>acc b. push_bit 8 acc OR unat b) 0 (take n bs) < 2 ^ 32" if "n \<le> 4" for n and bs :: bytes
  proof -
    have "be_val (take n bs) < 256 ^ length (take n bs)" by (rule be_val_less)
    also have "\<dots> \<le> 256 ^ 4" using that by (intro power_increasing) auto
    finally show ?thesis by (simp add: fold_shift8_be_val)
  qed
  have short: "unat b < 2 ^ 32" for b :: u8 using unat_u8_less [of b] by simp
  show ?thesis
    using assms fold short
    by (fastforce simp: raw_tlv_def Let_def sonda_simps not_less split: list.splits if_splits)
qed

lemma expect_body_small: "expect tag inp = Inr (body, rest) \<Longrightarrow> length body < 2 ^ 32"
  unfolding expect_def by (elim run_InrE) (auto dest: raw_tlv_body_small split: if_splits)

lemma read_one_oid_small: "read_one inp = Inr (var, rest) \<Longrightarrow> length (vb_oid var) < 2 ^ 32"
  unfolding read_one_def by (elim run_InrE) (auto dest: expect_body_small)

lemma varbinds_ok: "vars_ok (map_while_ok (varbinds inp))"
proof (induction inp rule: varbinds.induct)
  case (1 inp)
  show ?case
  proof (cases "VarBinds_next inp")
    case None
    then show ?thesis by (subst varbinds.simps) (simp add: vars_ok_def)
  next
    case (Some r)
    show ?thesis
    proof (cases r)
      case (Inl e)
      with Some show ?thesis by (subst varbinds.simps) (simp add: vars_ok_def)
    next
      case (Inr p)
      obtain var rest where p: "p = (var, rest)" by (cases p)
      have "read_one inp = Inr (var, rest)" using Some Inr p by (auto simp: VarBinds_next_def split: if_splits)
      with 1 [OF Some Inr p [symmetric]] Some Inr p show ?thesis
        by (subst varbinds.simps) (auto simp: vars_ok_def dest: read_one_oid_small)
    qed
  qed
qed

lemma vars_ok_take_drop: "vars_ok vars \<Longrightarrow> vars_ok (take n vars)" "vars_ok vars \<Longrightarrow> vars_ok (drop n vars)"
  by (auto simp: vars_ok_def list_all_iff dest: in_set_takeD in_set_dropD)

lemma name_in_ok:
  assumes "name_in out at = Inr (a, b)"
  shows "name_ok (InResponse (a, b)) out"
proof -
  obtain body after_body name after_name where e: "expect Tag_Sequence (drop at out) = Inr (body, after_body)"
      "expect Tag_Oid body = Inr (name, after_name)"
      "a = length out - length after_body - length after_name - length name" "b = a + length name"
    using assms unfolding name_in_def Let_def by (elim run_InrE) auto
  obtain h1 h2 where "drop at out = h1 @ body @ after_body" "body = h2 @ name @ after_name"
    using expect_split [OF e(1)] expect_split [OF e(2)] by blast
  then have "length name + length after_name + length after_body \<le> length (drop at out)" by simp
  then show ?thesis
    using e(3,4) expect_body_small [OF e(2)] by (simp add: name_ok_def)
qed

lemma name_ok_grows: "name_ok name out \<Longrightarrow> grows list out out' \<Longrightarrow> name_ok name out'"
  using growsD(2) [of list out out'] by (fastforce simp: name_ok_def split: Name.splits)

definition cursors_ok :: "Cursor list \<Rightarrow> bytes \<Rightarrow> bool" where
  "cursors_ok cursors out \<longleftrightarrow> list_all (\<lambda>c. name_ok (InResponse (cu_name c)) out) cursors"

lemma cursors_ok_grows: "cursors_ok cursors out \<Longrightarrow> grows list out out' \<Longrightarrow> cursors_ok cursors out'"
  using name_ok_grows by (fastforce simp: cursors_ok_def list_all_iff)

lemma bulk_non_repeaters_grows:
  assumes "agent_inv agent"
  shows "ls_start list \<le> length out \<Longrightarrow> vars_ok vars \<Longrightarrow> grows list out (snd (bulk_non_repeaters agent millis vars list out))"
proof (induction vars arbitrary: out)
  case (Cons var vars)
  show ?case
  proof (cases "VarBind_name_into var")
    case (Inr name)
    obtain step out' where n: "next_varbind agent millis name (InRequest (vb_oid var)) list out = (step, out')" by fastforce
    have "grows list out out'"
      using next_varbind_grows [OF assms Cons.prems(1), of "InRequest (vb_oid var)" millis name]
        vars_okD(1) [OF Cons.prems(2)] n by simp
    then show ?thesis using Inr n Cons.IH [of out'] vars_okD(2) [OF Cons.prems(2)] by (auto intro: grows_trans dest: growsD)
  qed (simp add: grows_refl Cons.prems)
qed (simp add: grows_refl)

lemma bulk_first_round_grows:
  assumes "agent_inv agent"
  shows "ls_start list \<le> length out \<Longrightarrow> vars_ok vars \<Longrightarrow> cursors_ok cursors out \<Longrightarrow>
    bulk_first_round agent millis vars cursors list out = (r, out') \<Longrightarrow>
    grows list out out' \<and> (\<forall>cs. r = Inr cs \<longrightarrow> cursors_ok cs out')"
proof (induction vars arbitrary: cursors out)
  case (Cons var vars)
  show ?case
  proof (cases "VarBind_name_into var")
    case (Inr name)
    obtain step out1 where n: "next_varbind agent millis name (InRequest (vb_oid var)) list out = (step, out1)" by fastforce
    have g: "grows list out out1"
      using next_varbind_grows [OF assms Cons.prems(1), of "InRequest (vb_oid var)" millis name]
        vars_okD(1) [OF Cons.prems(2)] n by simp
    show ?thesis
    proof (cases "step = StepFull")
      case True
      then show ?thesis using Inr n g Cons.prems(4) by (auto split: if_splits)
    next
      case False
      show ?thesis
      proof (cases "name_in out1 (length out)")
        case (Inl e)
        then show ?thesis using Inr False n g Cons.prems(4) by (auto split: if_splits)
      next
        case rng: (Inr rng)
        let ?cs = "cursors @ [\<lparr> cu_name = rng, cu_ended = (step = StepEnded) \<rparr>]"
        have cs: "cursors_ok ?cs out1"
          using cursors_ok_grows [OF Cons.prems(3) g] name_in_ok [of out1 "length out"] rng
          by (cases rng) (simp add: cursors_ok_def)
        have "bulk_first_round agent millis vars ?cs list out1 = (r, out')"
          using Inr False n rng Cons.prems(4) by simp
        then show ?thesis
          using Cons.IH [OF _ _ cs] g growsD(1) [OF g] vars_okD(2) [OF Cons.prems(2)] by (auto intro: grows_trans)
      qed
    qed
  qed (use Cons.prems in \<open>auto simp: grows_refl\<close>)
qed (auto simp: grows_refl)

lemma bulk_round_grows:
  assumes "agent_inv agent"
  shows "ls_start list \<le> length out \<Longrightarrow> cursors_ok cursors out \<Longrightarrow> cursors_ok moved out \<Longrightarrow>
    bulk_round agent millis cursors moved list out = (r, out') \<Longrightarrow>
    grows list out out' \<and> (\<forall>cs. r = Inr cs \<longrightarrow> cursors_ok cs out')"
proof (induction cursors arbitrary: moved out)
  case (Cons cursor cursors)
  obtain a b where ab: "cu_name cursor = (a, b)" by fastforce
  have nok: "name_ok (InResponse (cu_name cursor)) out" and cok: "cursors_ok cursors out"
    using Cons.prems(2) by (simp_all add: cursors_ok_def)
  let ?step = "if cu_ended cursor then Inr (end_of_mib_view (InResponse (cu_name cursor)) list out)
     else rbind (ok_or (decode_ber_body (take (b - a) (drop a out))) BadOid) (\<lambda>name.
       Inr (next_varbind agent millis name (InResponse (cu_name cursor)) list out))"
  have grows: "grows list out out1" if "?step = Inr (step, out1)" for step out1
    using that end_of_mib_view_grows [OF Cons.prems(1) nok] next_varbind_grows [OF assms Cons.prems(1) nok, of millis]
    by (auto simp: sonda_simps split: if_splits) (metis snd_conv)+
  show ?case
  proof (cases ?step)
    case (Inl e)
    then show ?thesis using Cons.prems ab by (auto simp: grows_refl Let_def)
  next
    case (Inr so)
    obtain step out1 where so: "so = (step, out1)" by (cases so)
    have g: "grows list out out1" using grows Inr so by blast
    show ?thesis
    proof (cases "step = StepFull")
      case True
      then show ?thesis using Inr so g Cons.prems(4) ab by (auto simp: Let_def)
    next
      case False
      show ?thesis
      proof (cases "name_in out1 (length out)")
        case (Inl e)
        then show ?thesis using Inr so False g Cons.prems(4) ab by (auto simp: Let_def)
      next
        case rng: (Inr rng)
        let ?m = "moved @ [\<lparr> cu_name = rng, cu_ended = (step = StepEnded) \<rparr>]"
        have m: "cursors_ok ?m out1"
          using cursors_ok_grows [OF Cons.prems(3) g] name_in_ok [of out1 "length out"] rng
          by (cases rng) (simp add: cursors_ok_def)
        have "bulk_round agent millis cursors ?m list out1 = (r, out')"
          using Inr so False rng Cons.prems(4) ab by (simp add: Let_def)
        then show ?thesis
          using Cons.IH [OF growsD(1) [OF g] cursors_ok_grows [OF cok g] m] g by (auto intro: grows_trans)
      qed
    qed
  qed
qed (auto simp: grows_refl)

lemma bulk_rounds_grows:
  assumes "agent_inv agent"
  shows "ls_start list \<le> length out \<Longrightarrow> cursors_ok cursors out \<Longrightarrow>
    grows list out (snd (bulk_rounds agent millis rounds cursors list out))"
proof (induction rounds arbitrary: cursors out)
  case (Suc rounds)
  obtain r out1 where b: "bulk_round agent millis cursors [] list out = (r, out1)" by fastforce
  have "grows list out out1 \<and> (\<forall>cs. r = Inr cs \<longrightarrow> cursors_ok cs out1)"
    using bulk_round_grows [OF assms Suc.prems _ b] by (simp add: cursors_ok_def)
  then show ?case
    using Suc b by (auto simp: grows_refl split: sum.splits intro: grows_trans dest: growsD)
qed (simp add: grows_refl)

lemma column_grows:
  assumes "agent_inv agent" and "ls_start list \<le> length out" and "name_ok (InResponse (cu_name first)) out"
  shows "grows list out (snd (column agent millis first rounds list out))"
proof -
  obtain a b where ab: "cu_name first = (a, b)" by fastforce
  show ?thesis
  proof (cases "cu_ended first \<or> rounds = 0 \<or> decode_ber_body (take (b - a) (drop a out)) = None")
    case True
    then show ?thesis using ab assms(2) by (auto simp: column_def grows_refl)
  next
    case False
    then obtain name where name: "decode_ber_body (take (b - a) (drop a out)) = Some name" by auto
    define c where "c = bulk agent millis name rounds False (column_emit list)
                          \<lparr> co_emitted = 0, co_full = False, co_last = None, co_out = out \<rparr>"
    have "grows list out (co_out c)"
      unfolding c_def
      by (rule bulk_invariant [OF assms(1), where P = "\<lambda>c. grows list out (co_out c)"])
         (auto simp: column_emit_def grows_refl assms(2) intro: grows_more)
    moreover from this have "ls_start list \<le> length (co_out c)" by (rule growsD)
    moreover have "name_ok (InResponse n) (co_out c)"
      if "(case co_last c of Some at \<Rightarrow> name_in (co_out c) at | None \<Rightarrow> Inr (cu_name first)) = Inr n" for n
      using that name_ok_grows [OF assms(3) calculation(1)] name_in_ok [of "co_out c"]
      by (cases n) (auto split: option.splits)
    ultimately show ?thesis
      using False ab name end_of_mib_view_grows [of list "co_out c"]
      by (auto simp: column_def c_def [symmetric] Let_def split: sum.splits intro: grows_trans)
  qed
qed

lemma get_bulk_grows:
  assumes "agent_inv agent" and "ls_start list \<le> length out"
  shows "grows list out (snd (get_bulk agent millis vars non_repeaters max_repetitions list out))"
proof -
  let ?n = "min (vl_len vars) (unat non_repeaters)" and ?vars = "VarList_iter vars"
  have vok: "vars_ok ?vars" unfolding VarList_iter_def by (rule varbinds_ok)
  obtain r out1 where b1: "bulk_non_repeaters agent millis (take ?n ?vars) list out = (r, out1)" by fastforce
  have g1: "grows list out out1"
    using bulk_non_repeaters_grows [OF assms vars_ok_take_drop(1) [OF vok, of ?n], of millis] b1 by simp
  obtain r2 out2 where b2: "bulk_first_round agent millis (drop ?n ?vars) [] list out1 = (r2, out2)" by fastforce
  have g2: "grows list out1 out2 \<and> (\<forall>cs. r2 = Inr cs \<longrightarrow> cursors_ok cs out2)"
    using bulk_first_round_grows [OF assms(1) growsD(1) [OF g1] vars_ok_take_drop(2) [OF vok] _ b2] by (simp add: cursors_ok_def)
  then have g: "grows list out out2" using g1 grows_trans by blast
  have "grows list out2 (snd (column agent millis (hd cs) m list out2))" if "r2 = Inr cs" "length cs = 1" for cs m
    using column_grows [OF assms(1) growsD(1) [OF g], of "hd cs"] g2 that by (cases cs) (auto simp: cursors_ok_def)
  moreover have "grows list out2 (snd (bulk_rounds agent millis m cs list out2))" if "r2 = Inr cs" for cs m
    using bulk_rounds_grows [OF assms(1) growsD(1) [OF g]] g2 that by blast
  ultimately show ?thesis
    using g g1 b1 b2 by (auto simp: get_bulk_def Let_def split: sum.splits intro: grows_trans)
qed

lemma write_varbinds_grows:
  assumes "agent_inv agent"
  shows "grows \<lparr> ls_start = length out, ls_reply = reply \<rparr> out (snd (write_varbinds agent millis pdu v1 vars reply out))"
proof -
  have vok: "vars_ok (VarList_iter vars)" unfolding VarList_iter_def by (rule varbinds_ok)
  show ?thesis
    using assms vok
    by (cases pdu) (auto simp: write_varbinds_def Let_def get_v1_def get_next_v1_def echo_def get_grows
      get_v1_loop_grows get_next_grows get_next_v1_loop_grows get_bulk_grows grows_refl grows_append)
qed

section \<open>The response\<close>

lemma nth_be_nat: "i < n \<Longrightarrow> be_nat n k ! i = of_nat (k div 256 ^ (n - 1 - i))"
  by (induction n arbitrary: i) (auto simp: nth_Cons split: nat.split)

lemma i64_len_small_value:
  assumes "unat v < 128"
  shows "i64_len v = 3"
proof -
  obtain bs start where s: "signed_span v = (bs, start)" by (cases "signed_span v")
  then have bs: "bs = be_nat 8 (unat v)" by (simp add: signed_span_def Let_def to_be_bytes64_def)
  have zero: "bs ! i = 0" if "i < 7" for i
  proof -
    have "(256 :: nat) ^ 1 \<le> 256 ^ (7 - i)" using that by (intro power_increasing) auto
    then have "unat v div 256 ^ (7 - i) = 0" using assms by simp
    then show ?thesis using that by (simp add: bs nth_be_nat)
  qed
  have last: "bs ! i AND 0x80 = 0" if "i < 8" for i
  proof (cases "i = 7")
    case True
    have "unat (of_nat (unat v) :: u8) = unat v" using assms by (simp add: unsigned_ucast_eq take_bit_nat_eq_self)
    then show ?thesis using assms True hi_bit_iff [of "of_nat (unat v)"] by (simp add: bs nth_be_nat)
  qed (use zero that in simp)
  have "start \<le> 7" using decode_signed_span(1) [OF s] by simp
  moreover have "\<not> start < 7"
    using signed_span_minimal(1) [OF s] zero [of start] last [of "start + 1"] by auto
  ultimately show ?thesis using s by (simp add: i64_len_def tlv_len_def length_len_def)
qed

lemma v3_message_len_ge:
  "length (sn_id engine) + length (up_user (v3_usm req)) + pdu \<le> v3_message_len req engine user private pdu"
proof -
  let ?n = "length (sn_id engine)"
  let ?plen = "if privacy_of user private \<noteq> None then PRIV_PARAMS else 0"
  define scoped where "scoped = tlv_len (tlv_len ?n + tlv_len 0 + pdu)"
  define data where "data = (case privacy_of user private of Some protocol \<Rightarrow> tlv_len (padded_len protocol scoped) | None \<Rightarrow> scoped)"
  let ?body = "usm_body_len engine (up_user (v3_usm req)) (auth_len user) ?plen"
  have "?n + pdu \<le> scoped"
    using tlv_len_ge [of ?n] tlv_len_ge [of "tlv_len ?n + tlv_len 0 + pdu"] by (simp add: scoped_def)
  moreover have "scoped \<le> data"
    using padded_len_bounds(1) tlv_len_ge by (auto simp: data_def split: option.splits intro: order.trans)
  moreover have "length (up_user (v3_usm req)) \<le> ?body"
    using tlv_len_ge [of "length (up_user (v3_usm req))"] by (simp add: usm_body_len_def)
  then have "length (up_user (v3_usm req)) \<le> tlv_len (tlv_len ?body)" using tlv_len_ge order.trans by metis
  ultimately have "?n + length (up_user (v3_usm req)) + pdu \<le> i64_len V3_VERSION
     + tlv_len (i64_len (v3_msg_id req) + i64_len MSG_MAX_SIZE + tlv_len 1 + i64_len V3_USM) + tlv_len (tlv_len ?body) + data"
    by linarith
  also have "\<dots> \<le> v3_message_len req engine user private pdu"
    unfolding v3_message_len_def Let_def data_def scoped_def by (rule tlv_len_ge)
  finally show ?thesis .
qed

text \<open>The envelope with other salts: what writing a response leaves of it.\<close>

fun same_envelope :: "Envelope \<Rightarrow> Envelope \<Rightarrow> bool" where
  "same_envelope (Community v c) (Community v' c') \<longleftrightarrow> v = v' \<and> c = c'"
| "same_envelope (EnvelopeV3 r e u s) (EnvelopeV3 r' e' u' s') \<longleftrightarrow>
     r = r' \<and> e = e' \<and> u = u' \<and> (s = None \<longleftrightarrow> s' = None)"
| "same_envelope _ _ \<longleftrightarrow> False"

lemma same_envelope_refl [simp]: "same_envelope env env"
  by (cases env) simp_all

lemma same_envelope_len: "same_envelope a b \<Longrightarrow> Envelope_len a = Envelope_len b"
  by (cases "(a, b)" rule: same_envelope.cases) (auto simp: fun_eq_iff Let_def split: option.splits)

lemma Envelope_len_V3: "Envelope_len (EnvelopeV3 req engine user salts) rid st ix n
     = v3_message_len req engine user (salts \<noteq> None) (pdu_len rid st ix n)"
  by (auto simp: Let_def pdu_len_def private_response_len_def response_len_def v3_message_len_def privacy_of_def split: option.splits)

lemma seal_salts: "snd (snd (v3_seal cr engine user salts bs)) = None \<longleftrightarrow> salts = None"
  by (auto simp: v3_seal_def Let_def split: option.splits prod.splits)

lemma Envelope_write_V3:
  "Envelope_write cr (EnvelopeV3 req engine user salts) out rid st ix w =
     (let (r, salts', out) = v3_write_message cr out req engine user (if user = None then None else salts)
            (\<lambda>out. write_pdu_ret out Tag_Response rid st ix w)
      in (r, EnvelopeV3 req engine user (if user = None \<or> salts = None then salts else salts'), out))"
  by (auto simp: Let_def v3_write_private_response_def v3_write_response_def write_pdu_ret_def split: option.splits prod.splits)

lemma Envelope_write_len:
  assumes "crypto_ok cr" and "b < 2 ^ 16"
    and grow: "\<And>p. \<exists>ys. snd (w p) = p @ ys \<and> Envelope_len env rid st ix (length ys) \<le> b"
    and wr: "Envelope_write cr env [] rid st ix w = (r, env', out)"
  shows "length out \<le> b \<and> same_envelope env env'"
proof (cases env)
  case (Community version community)
  let ?p = "message_prefix [] version community Tag_Response rid st ix"
  obtain ys where ys: "w ?p = (fst (w ?p), ?p @ ys)" "Envelope_len env rid st ix (length ys) \<le> b"
    using grow [of ?p] by (metis prod.collapse)
  then have m: "message_len version community rid st ix (length ys) < 2 ^ 64"
    using assms(2) by (simp add: Community)
  note message = write_message_ret_eq [where varbinds = w, OF ys(1) m]
  show ?thesis
    using wr message ys(2) [unfolded Community Envelope_len.simps] length_message_octets [OF m, of Tag_Response]
    by (auto simp: Community Let_def)
next
  case (EnvelopeV3 req engine user salts)
  define salts0 where "salts0 = (if user = None then None else salts)"
  let ?v = "v3_prefix ([] @ [Tag_byte Tag_Sequence, 0]) req engine (v3_flags_for user salts0) (auth_len user)
     (if privacy_of user (salts0 \<noteq> None) \<noteq> None then PRIV_PARAMS else 0) (privacy_of user (salts0 \<noteq> None) \<noteq> None)"
  let ?p = "pdu_prefix ?v Tag_Response rid st ix"
  obtain ys where ys: "w ?p = (fst (w ?p), ?p @ ys)" "Envelope_len env rid st ix (length ys) \<le> b"
    using grow [of ?p] by (metis prod.collapse)
  have len: "v3_message_len req engine user (salts0 \<noteq> None) (pdu_len rid st ix (length ys)) \<le> b"
    using ys(2) unfolding EnvelopeV3 Envelope_len_V3 salts0_def
    by (cases user) (simp_all add: v3_message_len_def privacy_of_def)
  note ge = v3_message_len_ge [of engine req "pdu_len rid st ix (length ys)" user "salts0 \<noteq> None"]
  have pl: "pdu_len rid st ix (length ys) < 2 ^ 64" using ge len assms(2) by simp
  note pdu = write_pdu_ret_eq [where varbinds = w, OF ys(1) pl] and plen = length_pdu_octets [OF pl]
  have "v3_sizes req engine (length (pdu_octets Tag_Response rid st ix ys))"
    using ge len assms(2) by (simp add: v3_sizes_def plen)
  note message = v3_write_message_eq [where pdu = "\<lambda>out. write_pdu_ret out Tag_Response rid st ix w", OF assms(1) this pdu]
    and mlen = length_v3_message_octets [OF assms(1) this, of user salts0]
  show ?thesis
    using wr message mlen len seal_salts [of cr engine user salts0 "pdu_octets Tag_Response rid st ix ys"]
    unfolding EnvelopeV3 Envelope_write_V3 by (auto simp: Let_def plen salts0_def split: if_splits)
qed

lemma error_response_len:
  assumes "crypto_ok cr" and "rp_budget reply < 2 ^ 16"
    and "error_response cr reply status index vbs [] = (Sent, env', out)"
  shows "length out \<le> rp_budget reply \<and> same_envelope (rp_envelope reply) env'"
proof -
  obtain u where "Envelope_write cr (rp_envelope reply) [] (rp_id reply) status index (\<lambda>out. ((), out @ vbs)) = (u, env', out)"
    "Envelope_len (rp_envelope reply) (rp_id reply) status index (length vbs) \<le> rp_budget reply"
    using assms(3) by (auto simp: error_response_def Let_def split: if_splits prod.splits)
  then show ?thesis
    by (intro Envelope_write_len [OF assms(1,2), of "\<lambda>out. ((), out @ vbs)" "rp_envelope reply" "rp_id reply" status index u])
      auto
qed

lemma too_big_len:
  assumes "crypto_ok cr" and "rp_budget reply < 2 ^ 16"
    and "too_big cr millis reply vars agent = (Sent, env', agent', out)"
  shows "length out \<le> rp_budget reply"
  using assms error_response_len [OF assms(1,2)] by (auto simp: too_big_def Let_def split: prod.splits)

lemma no_such_name_len:
  assumes "crypto_ok cr" and "rp_budget reply < 2 ^ 16"
    and "no_such_name cr millis reply vars index agent = (Sent, env', agent', out)"
  shows "length out \<le> rp_budget reply"
  using assms error_response_len [OF assms(1,2)] too_big_len [OF assms(1,2)]
  by (fastforce simp: no_such_name_def Let_def split: prod.splits Outcome.splits)

lemma pdu_status_len:
  assumes "pdu_status pdu v1 = (status, index)"
  shows "i64_len status = i64_len 0" "i64_len index = i64_len 0"
proof -
  have "i64_len 0 = 3" "i64_len 1 = 3" "i64_len NO_SUCH_NAME = 3" "i64_len NOT_WRITABLE = 3"
    by (rule i64_len_small_value, simp add: NO_SUCH_NAME_def NOT_WRITABLE_def)+
  then show "i64_len status = i64_len 0" "i64_len index = i64_len 0"
    using assms by (cases "(pdu, v1)" rule: pdu_status.cases; auto split: if_splits)+
qed

lemma Envelope_len_status:
  "i64_len st = i64_len st' \<Longrightarrow> i64_len ix = i64_len ix' \<Longrightarrow> Envelope_len env rid st ix n = Envelope_len env rid st' ix' n"
  by (cases env) (simp_all add: message_len_def)

lemma answer_pdu_len:
  assumes "crypto_ok cr" and "agent_inv agent" and "budget < 2 ^ 16"
    and "\<And>counter rid vars. pdu_parts pdu = Some (counter, rid, vars) \<Longrightarrow> Envelope_len env (scast rid) 0 0 0 \<le> budget"
    and ans: "answer_pdu cr millis pdu env budget agent = (Sent, env', agent', out)"
  shows "length out \<le> budget"
proof -
  obtain counter rid vars where parts: "pdu_parts pdu = Some (counter, rid, vars)"
    using ans by (auto simp: answer_pdu_def Let_def split: option.splits)
  obtain status index where status: "pdu_status pdu (is_v1 env) = (status, index)" by (cases "pdu_status pdu (is_v1 env)")
  define reply where "reply = \<lparr> rp_envelope = env, rp_id = scast rid, rp_budget = budget \<rparr>"
  let ?w = "write_varbinds agent millis pdu (is_v1 env) vars reply"
  have grow: "\<exists>ys. snd (?w p) = p @ ys \<and> Envelope_len env (scast rid) status index (length ys) \<le> budget" for p
  proof -
    have g: "grows \<lparr> ls_start = length p, ls_reply = reply \<rparr> p (snd (?w p))"
      by (rule write_varbinds_grows [OF assms(2)])
    then obtain ys where "snd (?w p) = p @ ys" "ys = [] \<or> Envelope_len env (scast rid) 0 0 (length ys) \<le> budget"
      by (auto simp: grows_def fits_def reply_def)
    then show ?thesis
      using assms(4) [OF parts] Envelope_len_status [OF pdu_status_len [OF status], of env "scast rid"] by auto
  qed
  obtain r env1 out1 where wr: "Envelope_write cr env [] (scast rid) status index ?w = (r, env1, out1)"
    by (rule prod_cases3)
  note len = Envelope_write_len [OF assms(1,3) grow wr]
  let ?reply = "reply \<lparr> rp_envelope := env1 \<rparr>"
  have b: "rp_budget ?reply < 2 ^ 16" using assms(3) by (simp add: reply_def)
  consider "r = Inr Complete" "out = out1" 
    | env2 agent2 where "too_big cr millis ?reply vars agent = (Sent, env2, agent2, out)" 
    | index env2 agent2 where "no_such_name cr millis ?reply vars index agent = (Sent, env2, agent2, out)" 
    using ans parts status wr unfolding answer_pdu_def reply_def [symmetric] by (auto simp: Let_def reply_def [symmetric] split: sum.splits Written.splits prod.splits)
  then show ?thesis
    using len too_big_len [OF assms(1) b] no_such_name_len [OF assms(1) b]
    by cases (auto simp: reply_def)
qed

section \<open>Sizes of empty responses and reports\<close>

lemma message_len_bound:
  assumes "length c < 2 ^ 16" and "n \<le> 10"
  shows "message_len version c rid st ix n \<le> length c + 84"
proof -
  let ?pdu = "pdu_len rid st ix n"
  have "?pdu \<le> 52"
    using assms(2) i64_len_small [of rid] i64_len_small [of st] i64_len_small [of ix] tlv_len_le [of n]
      tlv_len_le [of "i64_len rid + i64_len st + i64_len ix + tlv_len n"] by (simp add: pdu_len_def)
  then show ?thesis
    using assms(1) i64_len_small [of version] tlv_len_le [of "length c"]
      tlv_len_le [of "i64_len version + tlv_len (length c) + ?pdu"]
    by (simp add: message_len_def pdu_len_def Let_def)
qed

lemma v3_message_len_bound:
  assumes "length (sn_id engine) \<le> 32" and "length (up_user (v3_usm req)) \<le> 32" and "pdu \<le> 100"
  shows "v3_message_len req engine user private pdu \<le> 484"
proof -
  let ?n = "length (sn_id engine)"
  let ?plen = "if privacy_of user private \<noteq> None then PRIV_PARAMS else 0"
  define scoped where "scoped = tlv_len (tlv_len ?n + tlv_len 0 + pdu)"
  define data where "data = (case privacy_of user private of Some protocol \<Rightarrow> tlv_len (padded_len protocol scoped) | None \<Rightarrow> scoped)"
  define body where "body = usm_body_len engine (up_user (v3_usm req)) (auth_len user) ?plen"
  define global where "global = tlv_len (i64_len (v3_msg_id req) + i64_len MSG_MAX_SIZE + tlv_len 1 + i64_len V3_USM)"
  have small: "tlv_len n = n + 2" if "n \<le> 127" for n
    using that by (simp add: tlv_len_def length_len_def)
  have "scoped \<le> 150"
    using assms small [of ?n] small [of 0] tlv_len_le [of "tlv_len ?n + tlv_len 0 + pdu"] by (simp add: scoped_def)
  then have "tlv_len (padded_len protocol scoped) \<le> 163" for protocol
    using padded_len_bounds(2) [of protocol scoped] padded_len_bounds(3) [of scoped] tlv_len_le [of "padded_len protocol scoped"]
    by (cases "protocol = Des") (auto simp: DES_BLOCK_def)
  then have "data \<le> 163"
    using \<open>scoped \<le> 150\<close> by (auto simp: data_def split: option.splits)
  moreover have "body \<le> 150"
  proof -
    have "?plen \<le> 8" by (simp add: PRIV_PARAMS_def)
    moreover have "auth_len user \<le> 48" by (rule auth_len_small)
    ultimately show ?thesis
      using assms small [of ?n] small [of "length (up_user (v3_usm req))"] small [of "auth_len user"] small [of ?plen]
        i64_len_small [of "ucast (sn_boots engine)"] i64_len_small [of "ucast (sn_time engine)"]
      by (simp add: body_def usm_body_len_def)
  qed
  then have "tlv_len (tlv_len body) \<le> 162"
    using tlv_len_le [of body] tlv_len_le [of "tlv_len body"] by simp
  moreover have "global \<le> 39"
    using i64_len_small [of "v3_msg_id req"] i64_len_small [of MSG_MAX_SIZE] i64_len_small [of V3_USM] small [of 1]
      tlv_len_le [of "i64_len (v3_msg_id req) + i64_len MSG_MAX_SIZE + tlv_len 1 + i64_len V3_USM"] by (simp add: global_def)
  ultimately have "i64_len V3_VERSION + global + tlv_len (tlv_len body) + data \<le> 374"
    using i64_len_small [of V3_VERSION] by simp
  then have "tlv_len (i64_len V3_VERSION + global + tlv_len (tlv_len body) + data) \<le> 484"
    using tlv_len_le [of "i64_len V3_VERSION + global + tlv_len (tlv_len body) + data"] by simp
  then show ?thesis
    unfolding v3_message_len_def Let_def data_def scoped_def body_def global_def .
qed

definition report_varbinds :: "UsmStat \<Rightarrow> u32 \<Rightarrow> bytes" where
  "report_varbinds stat v = tlv Tag_Sequence (tlv Tag_Oid (UsmStat_oid_body stat) @ tlv Tag_Counter32 (u64_octets (ucast v)))"

definition report_id :: "V3Message \<Rightarrow> i64" where
  "report_id req = (case v3_scoped req of Some scoped \<Rightarrow> msg_request_id (sp_pdu scoped) | None \<Rightarrow> 0)"

lemma length_stat_oid [simp]: "length (UsmStat_oid_body stat) = 10"
  by (cases stat) simp_all

lemma length_report_varbinds: "length (report_varbinds stat v) \<le> 31"
proof -
  have small: "tlv_len n = n + 2" if "n \<le> 127" for n
    using that by (simp add: tlv_len_def length_len_def)
  show ?thesis
    using length_u64_octets [of "ucast v"] by (simp add: report_varbinds_def small)
qed

lemma unit_snd: "((), snd p) = p"
  by (cases p) simp

lemma write_report_eq:
  assumes "crypto_ok cr" and "length (sn_id engine) < 2 ^ 16" and "length (up_user (v3_usm req)) < 2 ^ 16"
  shows "write_report cr out req engine stat v user
    = out @ v3_message_octets cr req engine user None (pdu_octets Tag_Report (report_id req) 0 0 (report_varbinds stat v))"
proof -
  let ?rid = "report_id req"
  let ?w = "\<lambda>out. ((), write_tlv out Tag_Sequence (\<lambda>out. write_counter32 (write_octets out Tag_Oid (UsmStat_oid_body stat)) v))"
  let ?pdu = "\<lambda>out. write_pdu_ret out Tag_Report ?rid 0 0 ?w"
  have w: "?w p = ((), p @ report_varbinds stat v)" for p
    using length_u64_octets [of "ucast v"]
    by (simp add: report_varbinds_def write_counter32_def write_u64_tlv write_octets_tlv write_tlv_tlv
       tlv_len_def length_len_def)
  have n: "pdu_len ?rid 0 0 (length (report_varbinds stat v)) < 2 ^ 21"
    using length_report_varbinds [of stat v] by (intro pdu_len_small) simp
  then have n64: "pdu_len ?rid 0 0 (length (report_varbinds stat v)) < 2 ^ 64" by simp
  note pdu = write_pdu_ret_eq [where varbinds = ?w, OF w n64]
  have sz: "v3_sizes req engine (length (pdu_octets Tag_Report ?rid 0 0 (report_varbinds stat v)))"
    using n assms by (simp add: v3_sizes_def length_pdu_octets [OF n64])
  have u: "(\<lambda>out. ((), write_tlv out Tag_Report (\<lambda>out. write_tlv (write_i64 (write_i64 (write_i64 out Tag_Integer ?rid) Tag_Integer 0) Tag_Integer 0) Tag_Sequence
                (\<lambda>out. write_tlv out Tag_Sequence (\<lambda>out. write_counter32 (write_octets out Tag_Oid (UsmStat_oid_body stat)) v)))))
      = ?pdu"
    by (simp add: write_pdu_ret_def write_tlv_def Let_def unit_snd)
  show ?thesis
    unfolding write_report_def v3_write_response_def report_id_def [symmetric] Let_def u
      v3_write_message_eq [where pdu = ?pdu, OF assms(1) sz pdu] by simp
qed

end
