(* ===== verification/Responder_Answer.thy ===== *)
theory Responder_Answer
  imports Responder_Size
begin

text \<open>
  What a manager receives for GET and GETNEXT: the names of a request are answered one by one, in order,
  from the agent's ordered view; when the whole response does not fit the budget the manager receives
  \<open>tooBig\<close> with no varbinds.
\<close>

section \<open>What GET and GETNEXT answer\<close>

lemma div_ceil_mono: "0 < d \<Longrightarrow> a \<le> b \<Longrightarrow> div_ceil a d \<le> div_ceil b d"
  by (meson div_ceil_le_iff order.refl order.trans)

lemma length_len_mono: "n \<le> m \<Longrightarrow> length_len n \<le> length_len m"
proof -
  assume "n \<le> m"
  moreover have "bit_len n \<le> bit_len m" if "n \<le> m" using that by (meson bit_len_le_iff order.refl order.strict_trans1)
  ultimately show ?thesis by (auto simp: length_len_def div_ceil_mono)
qed

lemma tlv_len_mono: "n \<le> m \<Longrightarrow> tlv_len n \<le> tlv_len m"
  using length_len_mono [of n m] by (simp add: tlv_len_def)

lemma message_len_mono: "n \<le> m \<Longrightarrow> message_len v c rid st ix n \<le> message_len v c rid st ix m"
  by (simp add: message_len_def Let_def tlv_len_mono)

lemma padded_len_mono: "n \<le> m \<Longrightarrow> padded_len p n \<le> padded_len p m"
  by (cases p) (simp_all add: padded_len_def div_ceil_mono DES_BLOCK_def)

lemma Envelope_len_mono: "n \<le> m \<Longrightarrow> Envelope_len env rid st ix n \<le> Envelope_len env rid st ix m"
  by (cases env) (simp_all only: Envelope_len_V3 Envelope_len.simps(1) message_len_mono,
    auto simp: v3_message_len_def Let_def pdu_len_def split: option.split intro!: tlv_len_mono padded_len_mono)

lemma fits_mono: "fits list out n \<Longrightarrow> m \<le> n \<Longrightarrow> fits list out m"
  unfolding fits_def Let_def by (meson Envelope_len_mono add_left_mono order.trans)

lemma fits_append: "ls_start list \<le> length out \<Longrightarrow> fits list (out @ xs) n \<longleftrightarrow> fits list out (length xs + n)"
  by (simp add: fits_def Let_def add.assoc)

text \<open>What the agent answers for one name of a v2c or v3 request.\<close>

definition exception_varbind :: "bytes \<Rightarrow> Tag \<Rightarrow> bytes" where
  "exception_varbind name tag = tlv Tag_Sequence (tlv Tag_Oid name @ tlv tag [])"

definition get_varbind :: "SnmpAgent \<Rightarrow> nat \<Rightarrow> VarBind \<Rightarrow> bytes" where
  "get_varbind agent millis var =
     (case VarBind_name_into var of
        Inr name \<Rightarrow> (case lookup agent millis name of
            FoundValue varbind \<Rightarrow> varbind
          | FoundNoSuchInstance \<Rightarrow> exception_varbind (vb_oid var) Tag_NoSuchInstance
          | FoundNoSuchObject \<Rightarrow> exception_varbind (vb_oid var) Tag_NoSuchObject)
      | Inl _ \<Rightarrow> [])"

definition get_next_varbind :: "SnmpAgent \<Rightarrow> nat \<Rightarrow> VarBind \<Rightarrow> bytes" where
  "get_next_varbind agent millis var =
     (case VarBind_name_into var of
        Inr name \<Rightarrow> (case btree_after (Oid name) (bulk_view agent millis False) of
            (_, varbind) # _ \<Rightarrow> varbind
          | [] \<Rightarrow> exception_varbind (vb_oid var) Tag_EndOfMibView)
      | Inl _ \<Rightarrow> [])"

definition name_decodes :: "VarBind \<Rightarrow> bool" where
  "name_decodes var \<longleftrightarrow> length (vb_oid var) < 2 ^ 32 \<and> to_option (VarBind_name_into var) \<noteq> None"

lemma name_decodesD: "name_decodes var \<Longrightarrow> \<exists>name. VarBind_name_into var = Inr name \<and> length (vb_oid var) < 2 ^ 32"
  by (cases "VarBind_name_into var") (simp_all add: name_decodes_def)

lemma exception_written:
  assumes "length name < 2 ^ 32"
  shows "write_exception out (InRequest name) tag = out @ exception_varbind name tag"
    and "exception_len (length name) = length (exception_varbind name tag)"
proof -
  have ok: "name_ok (InRequest name) out" using assms by (simp add: name_ok_def)
  show w: "write_exception out (InRequest name) tag = out @ exception_varbind name tag"
    using write_exception_eq(1) [OF ok] by (simp add: exception_varbind_def)
  show "exception_len (length name) = length (exception_varbind name tag)"
    using write_exception_eq(2) [OF ok, of tag] by (simp add: w)
qed

text \<open>
  The writers that answer the names of a request one by one and stop at the first varbind that does not
  fit: such a writer answers every name, or reports the list full.
\<close>

locale varbind_writer =
  fixes w :: "VarbindList \<Rightarrow> VarBind list \<Rightarrow> bytes \<Rightarrow> (BerError + Written) \<times> bytes"
    and f :: "VarBind \<Rightarrow> bytes"
    and P :: "VarBind \<Rightarrow> bool"
  assumes nil: "w list [] out = (Inr Complete, out)"
    and cons: "P var \<Longrightarrow> w list (var # vars) out
      = (if fits list out (length (f var)) then w list vars (out @ f var) else (Inr Full, out))"
begin

definition written :: "VarBind list \<Rightarrow> bytes" where
  "written vars = concat (map f vars)"

lemma writes_all:
  assumes "list_all P vars" and "ls_start list \<le> length out" and "fits list out (length (written vars))"
  shows "w list vars out = (Inr Complete, out @ written vars)"
  using assms
proof (induction vars arbitrary: out)
  case (Cons var vars)
  have "fits list out (length (f var))"
    using Cons.prems(3) by (rule fits_mono) (simp add: written_def)
  moreover have "fits list (out @ f var) (length (written vars))"
    using Cons.prems(2,3) by (simp add: fits_append written_def)
  ultimately show ?case
    using Cons.IH [of "out @ f var"] Cons.prems(1,2) by (simp add: cons written_def)
qed (simp add: nil written_def)

lemma reports_full:
  assumes "list_all P vars" and "ls_start list \<le> length out" and "vars \<noteq> [] \<or> fits list out 0"
    and "\<not> fits list out (length (written vars))"
  shows "fst (w list vars out) = Inr Full"
  using assms
proof (induction vars arbitrary: out)
  case (Cons var vars)
  show ?case
  proof (cases "fits list out (length (f var))")
    case True
    then have "fits list (out @ f var) 0" using Cons.prems(2) by (simp add: fits_append)
    with True show ?thesis
      using Cons.IH [of "out @ f var"] Cons.prems by (simp add: cons fits_append written_def)
  qed (use Cons.prems(1) in \<open>simp add: cons\<close>)
qed (simp add: written_def)

end

lemma get_Cons:
  assumes "name_decodes var"
  shows "get agent millis (var # vars) list out = (if fits list out (length (get_varbind agent millis var))
     then get agent millis vars list (out @ get_varbind agent millis var) else (Inr Full, out))"
proof -
  obtain name where name: "VarBind_name_into var = Inr name" and oid: "length (vb_oid var) < 2 ^ 32"
    using name_decodesD [OF assms] by blast
  note exc = exception_written [OF oid]
  show ?thesis
    by (cases "lookup agent millis name") (simp_all add: name get_varbind_def exc(1) exc(2) [symmetric] Let_def)
qed

lemma next_varbind_all:
  assumes "agent_inv agent" and "VarBind_name_into var = Inr name" and "length (vb_oid var) < 2 ^ 32"
    and "x = get_next_varbind agent millis var"
  shows "\<exists>step. next_varbind agent millis name (InRequest (vb_oid var)) list out
    = (if fits list out (length x) then (step, out @ x) else (StepFull, out)) \<and> step \<noteq> StepFull"
proof -
  note exc = exception_written [OF assms(3)]
  show ?thesis
    using assms(1,2)
    by (cases "btree_after (Oid name) (bulk_view agent millis False)")
      (auto simp: next_varbind_def bulk_run run_emit_Suc assms(4) get_next_varbind_def end_of_mib_view_def exc(1)
        exc(2) [symmetric] Let_def split: prod.splits)
qed

lemma get_next_Cons:
  assumes "agent_inv agent" and "name_decodes var"
  shows "get_next agent millis (var # vars) list out = (if fits list out (length (get_next_varbind agent millis var))
     then get_next agent millis vars list (out @ get_next_varbind agent millis var) else (Inr Full, out))"
proof -
  obtain name where name: "VarBind_name_into var = Inr name" and oid: "length (vb_oid var) < 2 ^ 32"
    using name_decodesD [OF assms(2)] by blast
  show ?thesis
    using next_varbind_all [OF assms(1) name oid refl, of millis list out] by (auto simp: name split: if_splits)
qed

interpretation get_writer: varbind_writer "\<lambda>list vars. get agent millis vars list" "get_varbind agent millis" name_decodes
  for agent millis
  by unfold_locales (simp, rule get_Cons)

interpretation get_next_writer: varbind_writer "\<lambda>list vars. get_next agent millis vars list" "get_next_varbind agent millis"
  "\<lambda>var. agent_inv agent \<and> name_decodes var" for agent millis
  by unfold_locales (simp, simp only: get_next_Cons)

definition answered_varbinds :: "SnmpAgent \<Rightarrow> nat \<Rightarrow> Pdu \<Rightarrow> bytes" where
  "answered_varbinds agent millis pdu =
     (case pdu of
        Pdu_Get _ vars \<Rightarrow> concat (map (get_varbind agent millis) (VarList_iter vars))
      | Pdu_GetNext _ vars \<Rightarrow> concat (map (get_next_varbind agent millis) (VarList_iter vars))
      | _ \<Rightarrow> [])"

definition response_message :: "bytes \<Rightarrow> i64 \<Rightarrow> i64 \<Rightarrow> bytes \<Rightarrow> Message" where
  "response_message community rid status vbs =
     \<lparr> msg_version = V2C, msg_community = community, msg_pdu = Tag_Response, msg_request_id = rid,
       msg_error_status = status, msg_error_index = 0, msg_varbinds = vbs \<rparr>"

definition reads :: "Pdu \<Rightarrow> Counter \<Rightarrow> i32 \<Rightarrow> VarList \<Rightarrow> bool" where
  "reads pdu counter rid vars \<longleftrightarrow> (pdu = Pdu_Get rid vars \<and> counter = Get \<or> pdu = Pdu_GetNext rid vars \<and> counter = GetNext)
     \<and> list_all name_decodes (VarList_iter vars)"

lemma write_varbinds_reads:
  assumes "agent_inv agent" and "reads pdu counter rid vars" and "list = \<lparr> ls_start = length out, ls_reply = reply \<rparr>"
    and "VarList_iter vars \<noteq> [] \<or> fits list out 0"
  shows "fits list out (length (answered_varbinds agent millis pdu)) \<Longrightarrow>
      write_varbinds agent millis pdu False vars reply out = (Inr Complete, out @ answered_varbinds agent millis pdu)"
    and "\<not> fits list out (length (answered_varbinds agent millis pdu)) \<Longrightarrow>
      fst (write_varbinds agent millis pdu False vars reply out) = Inr Full"
proof -
  have s: "ls_start list \<le> length out" using assms(3) by simp
  have P: "list_all (\<lambda>var. agent_inv agent \<and> name_decodes var) (VarList_iter vars)" "list_all name_decodes (VarList_iter vars)"
    using assms(1,2) by (simp_all add: reads_def list_all_iff)
  note g = get_writer.writes_all [OF P(2) s, of agent millis] get_next_writer.writes_all [OF P(1) s, of millis]
    and gf = get_writer.reports_full [OF P(2) s assms(4), of agent millis] get_next_writer.reports_full [OF P(1) s assms(4), of millis]
  show "fits list out (length (answered_varbinds agent millis pdu)) \<Longrightarrow>
      write_varbinds agent millis pdu False vars reply out = (Inr Complete, out @ answered_varbinds agent millis pdu)"
    using assms(2,3) g [unfolded get_writer.written_def get_next_writer.written_def]
    by (auto simp: reads_def write_varbinds_def answered_varbinds_def)
  show "\<not> fits list out (length (answered_varbinds agent millis pdu)) \<Longrightarrow>
      fst (write_varbinds agent millis pdu False vars reply out) = Inr Full"
    using assms(2,3) gf [unfolded get_writer.written_def get_next_writer.written_def]
    by (auto simp: reads_def write_varbinds_def answered_varbinds_def)
qed

lemma fst_write_tlv_ret: "fst (write_tlv_ret out tag body) = fst (body (out @ [Tag_byte tag, 0]))"
  by (simp add: write_tlv_ret_def Let_def split: prod.split)

lemma fst_write_message_ret:
  "fst (write_message_ret out v c tag rid st ix w) = fst (w (message_prefix out v c tag rid st ix))"
  by (simp add: write_message_ret_def fst_write_tlv_ret message_prefix_def Let_def write_i64_tlv write_octets_tlv write_string_def pdu_prefix_def pdu_fields_def)

lemma message_len_too_big: "message_len V2C c rid TOO_BIG 0 n = message_len V2C c rid 0 0 n"
  using i64_len_small_value [of TOO_BIG] i64_len_small_value [of 0] by (simp add: message_len_def pdu_len_def TOO_BIG_def)

lemma too_big_v2c:
  assumes "length c < 2 ^ 16" and "reply = \<lparr> rp_envelope = Community V2C c, rp_id = rid, rp_budget = budget \<rparr>"
  shows "too_big cr millis reply vars agent =
    (if message_len V2C c rid 0 0 0 \<le> budget
     then (Sent, Community V2C c, warn_too_big millis (count TooBig agent), message_octets V2C c Tag_Response rid TOO_BIG 0 [])
     else (DroppedOther, Community V2C c, warn_too_big millis (count TooBig agent), []))"
proof -
  have b: "message_len V2C c rid TOO_BIG 0 (length ([] :: bytes)) < 2 ^ 64"
    using message_len_bound [OF assms(1), of 0 V2C rid TOO_BIG 0] assms(1) by simp
  have w: "write_message_ret [] V2C c Tag_Response rid TOO_BIG 0 (\<lambda>out. ((), out)) = ((), message_octets V2C c Tag_Response rid TOO_BIG 0 [])"
    using write_message_ret_eq [where varbinds = "\<lambda>out. ((), out)" and vbs = "[]" and out = "[]"] b by simp
  show ?thesis
    using w message_len_too_big [of c rid 0]
    by (simp add: too_big_def error_response_def Let_def assms(2) V1_def V2C_def [symmetric] not_le [symmetric])
      (simp add: V2C_def V1_def)
qed

lemma response_decodes:
  assumes "message_len V2C c rid st 0 (length vbs) < 2 ^ 32"
  shows "Message_decode (message_octets V2C c Tag_Response rid st 0 vbs) = Inr (response_message c rid st vbs)"
  using Message_decode_octets [OF _ _ assms, of Tag_Response] by (simp add: V2C_def Tag_is_pdu_def response_message_def)

lemma answer_pdu_reads:
  assumes "agent_inv agent" and "length c < 2 ^ 16" and "budget < 2 ^ 16"
    and r: "reads pdu counter rid vars" and vbs_def: "vbs = answered_varbinds agent millis pdu"
  shows "\<exists>outcome agent' out. answer_pdu cr millis pdu (Community V2C c) budget agent = (outcome, Community V2C c, agent', out)
    \<and> (if message_len V2C c (scast rid) 0 0 (length vbs) \<le> budget
       then outcome = Sent \<and> Message_decode out = Inr (response_message c (scast rid) 0 vbs)
       else if message_len V2C c (scast rid) 0 0 0 \<le> budget
       then outcome = Sent \<and> Message_decode out = Inr (response_message c (scast rid) TOO_BIG [])
       else if VarList_iter vars \<noteq> [] then outcome = DroppedOther
       else outcome = Sent \<and> Message_decode out = Inr (response_message c (scast rid) 0 []) \<and> budget < length out)"
proof -
  let ?rid = "scast rid :: i64" and ?env = "Community V2C c"
  let ?reply = "\<lparr> rp_envelope = ?env, rp_id = ?rid, rp_budget = budget \<rparr>"
  let ?w = "write_varbinds agent millis pdu False vars ?reply"
  let ?p = "message_prefix [] V2C c Tag_Response ?rid 0 0"
  let ?list = "\<lambda>p. \<lparr> ls_start = length p, ls_reply = ?reply \<rparr>"
  have fits: "fits (?list p) p n \<longleftrightarrow> message_len V2C c ?rid 0 0 n \<le> budget" for n p
    by (simp add: fits_def)
  have parts: "pdu_parts pdu = Some (counter, rid, vars)" "pdu_status pdu False = (0, 0)"
    using r by (auto simp: reads_def)
  have v1: "V2C \<noteq> V1" by (simp add: V1_def V2C_def)
  have empty: "message_len V2C c ?rid 0 0 0 < 2 ^ 32" "message_len V2C c ?rid 0 0 0 < 2 ^ 64"
    using message_len_bound [OF assms(2), of 0 V2C ?rid 0 0] assms(2) by simp_all
  note sent = write_message_ret_eq [where varbinds = ?w and vbs = vbs and out = "[]"]
  show ?thesis
  proof (cases "message_len V2C c ?rid 0 0 (length vbs) \<le> budget")
    case True
    then have len: "message_len V2C c ?rid 0 0 (length vbs) < 2 ^ 64" "message_len V2C c ?rid 0 0 (length vbs) < 2 ^ 32"
      using assms(3) by simp_all
    have "fits (?list ?p) ?p 0"
      using True fits fits_mono [of "?list ?p" ?p "length vbs" 0] by simp
    then have "?w ?p = (Inr Complete, ?p @ vbs)"
      using write_varbinds_reads(1) [OF assms(1) r refl] True fits by (simp add: vbs_def)
    then show ?thesis
      using sent len(1) response_decodes [OF len(2)] True parts by (simp add: answer_pdu_def v1 Let_def)
  next
    case False
    show ?thesis
    proof (cases "VarList_iter vars = [] \<and> \<not> message_len V2C c ?rid 0 0 0 \<le> budget")
      case True
      then have "vbs = []" using r by (auto simp: vbs_def answered_varbinds_def reads_def)
      moreover have "?w ?p = (Inr Complete, ?p)" using True r by (auto simp: write_varbinds_def reads_def)
      ultimately show ?thesis
        using sent empty response_decodes [of c ?rid 0 "[]"] True parts length_message_octets [of V2C c ?rid 0 0 "[]" Tag_Response]
        by (simp add: answer_pdu_def v1 Let_def)
    next
      case room: False
      then have "fst (?w ?p) = Inr Full"
        using write_varbinds_reads(2) [OF assms(1) r refl, of ?p ?reply millis] False fits by (auto simp: vbs_def)
      then obtain out where "write_message_ret [] V2C c Tag_Response ?rid 0 0 ?w = (Inr Full, out)"
        using fst_write_message_ret [of "[]" V2C c Tag_Response ?rid 0 0 ?w] by (metis prod.collapse)
      then show ?thesis
        using too_big_v2c [OF assms(2) refl, of cr millis ?rid budget vars agent] False room parts empty(1)
          response_decodes [of c ?rid TOO_BIG "[]"] message_len_too_big [of c ?rid 0]
        by (auto simp: answer_pdu_def v1 Let_def)
    qed
  qed
qed

text \<open>
  C26. What becomes of a v2c GET or GETNEXT with the agent's community, at an agent that serves v2c, when every name of the
  request decodes. If the whole answer is within the budget, the manager decodes from the response one varbind for each name,
  in order; if not, but a response without varbinds is, it decodes \<open>tooBig\<close> with none. A community so long that not even
  that one is within the budget leaves the request without an answer, unless it asks for nothing: then the response is sent
  and is longer than the budget.
\<close>

theorem reads_answered:
  assumes "agent_inv agent" and "length (set_community (ag_settings agent)) < 2 ^ 16" and "budget < 2 ^ 16"
    and "Snmp_V2c \<in> set (set_versions (ag_settings agent))"
    and "rq_version request = Version_V2c" and "rq_community request = as_bytes (set_community (ag_settings agent))"
    and "reads (rq_pdu request) counter rid vars"
  shows "\<exists>outcome agent' out. answer cr millis request budget agent = (outcome, agent', out)
    \<and> (let len = message_len V2C (rq_community request) (scast rid) 0 0; vbs = answered_varbinds agent millis (rq_pdu request)
       in if len (length vbs) \<le> budget
          then outcome = Sent \<and> Message_decode out = Inr (response_message (rq_community request) (scast rid) 0 vbs)
          else if len 0 \<le> budget
          then outcome = Sent \<and> Message_decode out = Inr (response_message (rq_community request) (scast rid) TOO_BIG [])
          else if VarList_iter vars \<noteq> [] then outcome = DroppedOther
          else outcome = Sent \<and> Message_decode out = Inr (response_message (rq_community request) (scast rid) 0 [])
            \<and> budget < length out)"
proof -
  have c: "length (rq_community request) < 2 ^ 16" using assms(2,6) by simp
  have a: "answer cr millis request budget agent = (outcome, agent', out)"
    if "answer_pdu cr millis (rq_pdu request) (Community V2C (rq_community request)) budget agent
      = (outcome, Community V2C (rq_community request), agent', out)" for outcome agent' out
    using that assms(4-6) by (simp add: answer_def constant_time_eq_iff)
  from answer_pdu_reads [OF assms(1) c assms(3,7) refl, of cr millis] a show ?thesis unfolding Let_def by blast
qed

definition example_get :: Request where
  "example_get = \<lparr> rq_version = Version_V2c, rq_community = [112, 117, 98, 108, 105, 99],
     rq_pdu = Pdu_Get 7 \<lparr> vl_message = response_message [] 7 0 [48, 12, 6, 8, 43, 6, 1, 2, 1, 1, 7, 0, 5, 0], vl_len = 1 \<rparr> \<rparr>"

lemma example_get_reads: "reads (rq_pdu example_get) Get 7 \<lparr> vl_message = response_message [] 7 0 [48, 12, 6, 8, 43, 6, 1, 2, 1, 1, 7, 0, 5, 0], vl_len = 1 \<rparr>"
proof -
  have "read_one [48, 12, 6, 8, 43, 6, 1, 2, 1, 1, 7, 0, 5, 0]
      = Inr (\<lparr> vb_oid = [43, 6, 1, 2, 1, 1, 7, 0], vb_value_tag = 5, vb_value = [] \<rparr>, [])"
    by (simp add: read_one_def read_defs)
  then have "varbinds [48, 12, 6, 8, 43, 6, 1, 2, 1, 1, 7, 0, 5, 0]
      = [Inr \<lparr> vb_oid = [43, 6, 1, 2, 1, 1, 7, 0], vb_value_tag = 5, vb_value = [] \<rparr>]"
    by (simp add: varbinds.simps VarBinds_next_def)
  then show ?thesis
    by (simp add: reads_def example_get_def VarList_iter_def response_message_def name_decodes_def VarBind_name_into_def
      decode_ber_body_def u32_try_from_def)
qed

theorem reads_answered_witness:
  "\<exists>agent' out status vbs. answer example_crypto 0 example_get 1472 (agent_bind example_settings) = (Sent, agent', out)
     \<and> Message_decode out = Inr (response_message [112, 117, 98, 108, 105, 99] 7 status vbs)"
proof -
  have settings: "ag_settings (agent_bind example_settings) = example_settings" by (simp add: agent_bind_def Let_def)
  have community: "as_bytes (set_community example_settings) = [112, 117, 98, 108, 105, 99]"
    by (simp add: example_settings_def as_bytes_def code_def)
  have room: "message_len V2C (rq_community example_get) (scast (7 :: i32)) 0 0 0 \<le> 1472"
    using message_len_bound [of "rq_community example_get" 0 V2C "scast (7 :: i32)" 0 0] by (simp add: example_get_def)
  have "rq_version example_get = Version_V2c" "rq_community example_get = as_bytes (set_community example_settings)"
    "Snmp_V2c \<in> set (set_versions example_settings)" "length (set_community example_settings) < 2 ^ 16"
    using community by (simp_all add: example_get_def example_settings_def)
  with reads_answered [OF agent_bind_inv [of example_settings] _ _ _ _ _ example_get_reads, of 1472 example_crypto 0,
      unfolded settings Let_def] room
  obtain agent' out status vbs where
    "answer example_crypto 0 example_get 1472 (agent_bind example_settings) = (Sent, agent', out)"
    "Message_decode out = Inr (response_message (rq_community example_get) (scast (7 :: i32)) status vbs)"
    by (fastforce split: if_splits)
  then show ?thesis by (auto simp: example_get_def)
qed

end
