(* ===== verification/Serving.thy ===== *)
theory Serving
  imports Responder_Answer
begin

text \<open>
  The agent as a whole: the task that answers datagrams (\<open>serve\<close>, \<open>respond_noting\<close>) and the sinks that change
  the table, as one step relation. What every reachable state satisfies, what every datagram sent weighs,
  and what every datagram received adds to the counters.
\<close>

section \<open>What answering leaves unchanged\<close>

definition same_mib :: "SnmpAgent \<Rightarrow> SnmpAgent \<Rightarrow> bool" where
  "same_mib a b \<longleftrightarrow> ag_table a = ag_table b \<and> ag_system a = ag_system b \<and> ag_settings a = ag_settings b"

lemma same_mib_refl [simp]: "same_mib a a"
  by (simp add: same_mib_def)

lemma same_mib_count [simp]: "same_mib a (count c b) \<longleftrightarrow> same_mib a b"
  by (simp add: same_mib_def count_def)

lemma same_mib_warn [simp]: "same_mib a (warn_too_big now b) \<longleftrightarrow> same_mib a b"
  by (simp add: same_mib_def warn_too_big_def)

lemma same_mib_note [simp]: "same_mib (note_request now peer v a) b \<longleftrightarrow> same_mib a b"
  by (simp add: same_mib_def note_request_def)

lemma same_mib_inv: "same_mib a b \<Longrightarrow> agent_inv a \<longleftrightarrow> agent_inv b"
  by (simp add: same_mib_def agent_inv_def)

lemma too_big_mib: "too_big cr millis reply vars agent = (outcome, env, agent', out) \<Longrightarrow> same_mib agent agent'"
  by (auto simp: too_big_def Let_def split: prod.splits)

lemma no_such_name_mib:
  "no_such_name cr millis reply vars index agent = (outcome, env, agent', out) \<Longrightarrow> same_mib agent agent'"
  using too_big_mib by (fastforce simp: no_such_name_def Let_def split: prod.splits Outcome.splits)

lemma answer_pdu_mib:
  "answer_pdu cr millis pdu env budget agent = (outcome, env', agent', out) \<Longrightarrow> same_mib agent agent'"
  by (auto simp: answer_pdu_def Let_def split: option.splits prod.splits sum.splits Written.splits Envelope.splits if_splits
      dest: too_big_mib no_such_name_mib)

lemma answer_mib: "answer cr millis request budget agent = (outcome, agent', out) \<Longrightarrow> same_mib agent agent'"
  by (auto simp: answer_def Let_def split: prod.splits if_splits dest: answer_pdu_mib)

text \<open>The engine and its users, apart from the salts.\<close>

definition same_usm :: "Usm \<Rightarrow> Usm \<Rightarrow> bool" where
  "same_usm a b \<longleftrightarrow> usm_users a = usm_users b \<and> en_id (usm_engine a) = en_id (usm_engine b)
     \<and> en_boots (usm_engine a) = en_boots (usm_engine b)"

lemma same_usm_with_salts [simp]: "same_usm usm (with_salts salts usm)"
  by (simp add: same_usm_def with_salts_def split: option.split)

definition same_serving :: "Serving \<Rightarrow> Serving \<Rightarrow> bool" where
  "same_serving a b \<longleftrightarrow> same_mib (sv_agent a) (sv_agent b) \<and> same_usm (sv_usm a) (sv_usm b)"

lemma answer_v3_same:
  "answer_v3 cr millis datagram budget serving = (outcome, refused, serving', out) \<Longrightarrow> same_serving serving serving'"
  by (auto simp: answer_v3_def same_serving_def Let_def same_usm_def count_and_read_def with_salts_def
      split: sum.splits UsmVerdict.splits option.splits prod.splits if_splits dest!: answer_pdu_mib)

lemma respond_noting_same:
  "respond_noting cr millis datagram budget serving = (outcome, refused, serving', out) \<Longrightarrow> same_serving serving serving'"
  by (auto simp: respond_noting_def undecodable_def same_serving_def same_usm_def Let_def
      split: sum.splits prod.splits if_splits dest: answer_mib answer_v3_same [unfolded same_serving_def same_usm_def])

definition serving_ok :: "Serving \<Rightarrow> bool" where
  "serving_ok serving \<longleftrightarrow> agent_inv (sv_agent serving) \<and> settings_ok (ag_settings (sv_agent serving))
     \<and> length (en_id (usm_engine (sv_usm serving))) \<le> 32
     \<and> (\<forall>user \<in> set (usm_users (sv_usm serving)). length (lu_name user) \<le> 32)"

lemma serving_ok_same: "same_serving a b \<Longrightarrow> serving_ok a \<longleftrightarrow> serving_ok b"
  using same_mib_inv [of "sv_agent a" "sv_agent b"]
  by (simp add: serving_ok_def same_serving_def same_usm_def same_mib_def)

lemma serving_ok_bind:
  assumes "crypto_ok cr" and "settings_ok s"
  shows "serving_ok \<lparr> sv_agent = agent_bind s, sv_usm = Usm_new cr s hostname local_addr salts \<rparr>"
  using assms agent_bind_inv [of s]
  by (auto simp: serving_ok_def settings_ok_def agent_bind_def Usm_new_def Engine_new_def LocalizedUser_new_def
    default_engine_id_def DEFAULT_ENGINE_ID_PREFIX_def DEFAULT_ENGINE_ID_HASH_def Let_def list_all_iff user_ok_def split: option.splits)

lemma serve_one_same:
  "serve_one cr now peer datagram send_ok server = (sent, logged, server') \<Longrightarrow> same_serving (sr_serving server) (sr_serving server')"
  by (auto simp: serve_one_def Let_def same_serving_def split: prod.splits option.splits Refusal.splits if_splits
      dest!: respond_noting_same)

lemma verify_user:
  assumes "verify cr msg raw engine secs users = UsmAnswer user authenticated scoped"
  shows "user \<in> set users \<and> lu_name user = up_user (v3_usm msg)"
proof -
  have "usm_user users (up_user (v3_usm msg)) = Some user"
    using assms by (auto simp: verify_def Let_def split: if_splits option.splits sum.splits prod.splits)
  then show ?thesis by (auto simp: usm_user_def find_Some_iff)
qed

lemma pdu_len_0: "pdu_len rid st ix 0 \<le> 100"
  using i64_len_small [of rid] i64_len_small [of st] i64_len_small [of ix] 
      tlv_len_le [of "i64_len rid + i64_len st + i64_len ix + tlv_len 0"] tlv_len_le [of 0] by (simp add: pdu_len_def)

lemma report_len:
  assumes "crypto_ok cr" and "length (sn_id engine) \<le> 32" and "length (up_user (v3_usm req)) \<le> 32"
  shows "length (write_report cr [] req engine stat v user) \<le> 484"
proof -
  let ?pdu = "pdu_octets Tag_Report (report_id req) 0 0 (report_varbinds stat v)"
  let ?n = "pdu_len (report_id req) 0 0 (length (report_varbinds stat v))"
  have n: "?n \<le> 100"
    using i64_len_small [of "report_id req"] i64_len_small [of 0] length_report_varbinds [of stat v]
      tlv_len_le [of "length (report_varbinds stat v)"]
      tlv_len_le [of "i64_len (report_id req) + i64_len 0 + i64_len 0 + tlv_len (length (report_varbinds stat v))"]
    by (simp add: pdu_len_def)
  then have len: "length ?pdu = ?n" by (simp add: length_pdu_octets)
  have "v3_sizes req engine (length ?pdu)" using assms(2,3) n by (simp add: v3_sizes_def len)
  then show ?thesis
    using assms n write_report_eq [OF assms(1), of engine req "[]" stat v user]
    by (simp add: length_v3_message_octets len v3_message_len_bound)
qed

lemma answer_len:
  assumes "crypto_ok cr" and "agent_inv agent" and "budget < 2 ^ 16" and "484 \<le> budget"
    and "length (set_community (ag_settings agent)) + 84 \<le> budget"
    and "answer cr millis request budget agent = (Sent, agent', out)"
  shows "length out \<le> budget"
proof -
  let ?env = "Community (Version_field (rq_version request)) (as_bytes (set_community (ag_settings agent)))"
  obtain env' where "answer_pdu cr millis (rq_pdu request) ?env budget agent = (Sent, env', agent', out)"
    using assms(6) by (auto simp: answer_def Let_def split: if_splits prod.splits)
  moreover have "Envelope_len ?env rid 0 0 0 \<le> budget" for rid
    using message_len_bound [of "as_bytes (set_community (ag_settings agent))" 0 "Version_field (rq_version request)" rid 0 0]
      assms(3,5) by simp
  ultimately show ?thesis using answer_pdu_len [OF assms(1-3)] by blast
qed

lemma answer_v3_len:
  assumes "crypto_ok cr" and "serving_ok serving" and "budget < 2 ^ 16" and "484 \<le> budget"
    and req: "v3_decode datagram = Inr request" and short: "length (up_user (v3_usm request)) \<le> 32"
    and ans: "answer_v3 cr millis datagram budget serving = (Sent, refused, serving', out)"
  shows "length out \<le> min budget (v3_msg_max_size request)"
proof -
  let ?usm = "sv_usm serving" and ?secs = "millis div 1000"
  let ?engine = "Engine_snapshot (usm_engine ?usm) ?secs"
  let ?b = "min budget (v3_msg_max_size request)"
  have b: "484 \<le> ?b" "?b < 2 ^ 16" using assms(3,4) v3_decode_ok [OF req] by (simp_all add: v3_ok_def)
  have eid: "length (sn_id ?engine) \<le> 32" using assms(2) by (simp add: serving_ok_def Engine_snapshot_def)
  have inv: "agent_inv (sv_agent serving)" using assms(2) by (simp add: serving_ok_def)
  show ?thesis
  proof (cases "verify cr request datagram (usm_engine ?usm) ?secs (usm_users ?usm)")
    case (UsmReport stat authenticated)
    then obtain v user where "out = write_report cr [] request ?engine stat v user"
      using ans by (auto simp: answer_v3_def req Let_def split: if_splits prod.splits)
    then show ?thesis using report_len [OF assms(1) eid short] b(1) order.trans by blast
  next
    case (UsmAnswer user authenticated scoped)
    then obtain pdu env' agent' where
      "answer_pdu cr millis pdu (EnvelopeV3 request ?engine (if authenticated then Some user else None)
         (if fl_privacy (v3_flags request) then Some (en_salts (usm_engine ?usm)) else None)) ?b (sv_agent serving)
       = (Sent, env', agent', out)"
      using ans by (auto simp: answer_v3_def req Let_def split: if_splits prod.splits option.splits)
    then show ?thesis
      by (rule answer_pdu_len [OF assms(1) inv b(2), rotated])
        (simp only: Envelope_len_V3 order.trans [OF v3_message_len_bound [OF eid short pdu_len_0] b(1)])
  qed
qed

lemma respond_noting_len:
  assumes "crypto_ok cr" and "serving_ok serving"
    and "length (set_community (ag_settings (sv_agent serving))) + 84 \<le> set_max_message_size (ag_settings (sv_agent serving))"
    and short: "\<And>request. v3_decode datagram = Inr request \<Longrightarrow> length (up_user (v3_usm request)) \<le> 32"
    and res: "respond_noting cr millis datagram (set_max_message_size (ag_settings (sv_agent serving))) serving
      = (Sent, refused, serving', out)"
  shows "length out \<le> set_max_message_size (ag_settings (sv_agent serving))"
    and "decode datagram = Inl (UnsupportedVersion V3_VERSION) \<Longrightarrow>
      \<exists>request. v3_decode datagram = Inr request \<and> length out \<le> v3_msg_max_size request"
proof -
  let ?b = "set_max_message_size (ag_settings (sv_agent serving))"
  have b: "484 \<le> ?b" "?b < 2 ^ 16" and inv: "agent_inv (sv_agent serving)"
    using assms(2) by (auto simp: serving_ok_def settings_ok_def)
  have v3: "\<exists>request. v3_decode datagram = Inr request \<and> length out \<le> min ?b (v3_msg_max_size request)"
    if e: "decode datagram = Inl e" for e
  proof -
    have ans: "answer_v3 cr millis datagram ?b serving = (Sent, refused, serving', out)"
      using res e by (auto simp: respond_noting_def undecodable_def Let_def split: if_splits)
    then obtain request where req: "v3_decode datagram = Inr request"
      by (auto simp: answer_v3_def Let_def split: sum.splits)
    then show ?thesis using answer_v3_len [OF assms(1,2) b(2,1) req short [OF req] ans] by blast
  qed
  then show "decode datagram = Inl (UnsupportedVersion V3_VERSION) \<Longrightarrow>
      \<exists>request. v3_decode datagram = Inr request \<and> length out \<le> v3_msg_max_size request" by fastforce
  show "length out \<le> ?b"
  proof (cases "decode datagram")
    case (Inl e)
    then show ?thesis using v3 by fastforce
  next
    case (Inr request)
    then obtain agent' where "answer cr millis request ?b (sv_agent serving) = (Sent, agent', out)"
      using res by (auto simp: respond_noting_def split: prod.splits)
    then show ?thesis using answer_len [OF assms(1) inv b(2,1) assms(3)] by blast
  qed
qed

section \<open>The agent as a state machine\<close>

text \<open>
  The responder task and the sinks of running scenarios share one agent: the task answers datagrams, the
  sinks change its table. Each holds the table's lock for one operation, so any run is an interleaving of
  whole operations. A step that answered a datagram is labelled with the datagram and its response.
\<close>

definition server_new :: "Crypto \<Rightarrow> AgentSettings \<Rightarrow> bytes \<Rightarrow> string \<Rightarrow> SaltCounter \<Rightarrow> Server" where
  "server_new cr s hostname local_addr salts =
     \<lparr> sr_serving = \<lparr> sv_agent = agent_bind s, sv_usm = Usm_new cr s hostname local_addr salts \<rparr>,
       sr_warned = [], sr_warned_user = [], sr_warned_digest = [] \<rparr>"

definition server_table :: "Server \<Rightarrow> MibTable" where
  "server_table server = ag_table (sv_agent (sr_serving server))"

definition with_table :: "MibTable \<Rightarrow> Server \<Rightarrow> Server" where
  "with_table table server = server \<lparr> sr_serving := (sr_serving server)
     \<lparr> sv_agent := (sv_agent (sr_serving server)) \<lparr> ag_table := table \<rparr> \<rparr> \<rparr>"

inductive agent_step :: "Crypto \<Rightarrow> Server \<Rightarrow> (bytes \<times> bytes) option \<Rightarrow> Server \<Rightarrow> bool" for cr where
  step_serve: "serve_one cr now peer datagram send_ok server = (sent, logged, server')
     \<Longrightarrow> agent_step cr server (map_option (\<lambda>out. (datagram, out)) sent) server'"
| step_publish: "publish owner oid varbind first (server_table server) = Inr table
     \<Longrightarrow> agent_step cr server None (with_table table server)"
| step_overwrite: "agent_step cr server None (with_table (snd (overwrite oid varbind (server_table server))) server)"
| step_register: "agent_step cr server None (with_table (register_object object (server_table server)) server)"
| step_release: "agent_step cr server None (with_table (release owner oid (server_table server)) server)"

inductive_cases agent_stepE: "agent_step cr server label server'"

inductive agent_runs :: "Crypto \<Rightarrow> Server \<Rightarrow> (bytes \<times> bytes) list \<Rightarrow> Server \<Rightarrow> bool" for cr start where
  runs_start: "agent_runs cr start [] start"
| runs_step: "agent_runs cr start trace server \<Longrightarrow> agent_step cr server label server'
     \<Longrightarrow> agent_runs cr start (trace @ (case label of None \<Rightarrow> [] | Some answered \<Rightarrow> [answered])) server'"

lemma serving_ok_with_table:
  "serving_ok (sr_serving server) \<Longrightarrow> table_inv table \<Longrightarrow> serving_ok (sr_serving (with_table table server))"
  by (simp add: serving_ok_def with_table_def agent_inv_def)

lemma serving_ok_table: "serving_ok (sr_serving server) \<Longrightarrow> table_inv (server_table server)"
  by (simp add: serving_ok_def server_table_def agent_inv_def)

definition server_settings :: "Server \<Rightarrow> AgentSettings" where
  "server_settings server = ag_settings (sv_agent (sr_serving server))"

lemma server_settings_with_table [simp]: "server_settings (with_table table server) = server_settings server"
  by (simp add: server_settings_def with_table_def)

lemma server_settings_new [simp]: "server_settings (server_new cr s hostname local_addr salts) = s"
  by (simp add: server_settings_def server_new_def agent_bind_def Let_def)

lemma agent_step_keeps:
  assumes "agent_step cr server label server'" and "serving_ok (sr_serving server)"
  shows "serving_ok (sr_serving server') \<and> server_settings server' = server_settings server"
  using assms
proof cases
  case (step_serve now peer datagram send_ok sent logged)
  then have "same_serving (sr_serving server) (sr_serving server')" by (blast dest: serve_one_same)
  then show ?thesis
    using assms(2) serving_ok_same by (auto simp: same_serving_def same_mib_def server_settings_def)
qed (auto intro!: serving_ok_with_table dest: serving_ok_table
     intro: table_inv_publish table_inv_overwrite table_inv_register table_inv_release)

lemma agent_runs_keeps:
  assumes "agent_runs cr start trace server" and "serving_ok (sr_serving start)"
  shows "serving_ok (sr_serving server) \<and> server_settings server = server_settings start"
  using assms by (induction) (auto dest: agent_step_keeps)

lemma serving_ok_new: "crypto_ok cr \<Longrightarrow> settings_ok s \<Longrightarrow> serving_ok (sr_serving (server_new cr s hostname local_addr salts))"
  by (simp add: server_new_def serving_ok_bind)

definition short_user :: "bytes \<Rightarrow> bool" where
  "short_user datagram \<longleftrightarrow> (case v3_decode datagram of Inr request \<Rightarrow> length (up_user (v3_usm request)) \<le> 32 | Inl _ \<Rightarrow> True)"

lemma serve_one_len:
  assumes "crypto_ok cr" and "serving_ok (sr_serving server)"
    and "length (set_community (server_settings server)) + 84 \<le> set_max_message_size (server_settings server)" and "short_user datagram"
    and "serve_one cr now peer datagram send_ok server = (Some out, logged, server')"
  shows "length out \<le> set_max_message_size (server_settings server)"
proof -
  let ?sv = "(sr_serving server) \<lparr> sv_agent := note_request now peer (message_version datagram) (sv_agent (sr_serving server)) \<rparr>"
  have same: "same_serving (sr_serving server) ?sv" by (simp add: same_serving_def same_usm_def same_mib_def note_request_def)
  then have ok: "serving_ok ?sv" using assms(2) serving_ok_same by blast
  have set: "ag_settings (sv_agent ?sv) = server_settings server" by (simp add: note_request_def server_settings_def)
  obtain refused serving' where
    r: "respond_noting cr now datagram (set_max_message_size (server_settings server)) ?sv = (Sent, refused, serving', out)"
    using assms(5) unfolding serve_one_def Let_def set by (auto split: prod.splits if_splits)
  have "length (up_user (v3_usm request)) \<le> 32" if "v3_decode datagram = Inr request" for request
    using assms(4) that by (simp add: short_user_def)
  then show ?thesis using respond_noting_len(1) [OF assms(1) ok, unfolded set, OF assms(3) _ r] by blast
qed

lemma agent_runs_len:
  assumes "agent_runs cr start trace server" and "crypto_ok cr" and "serving_ok (sr_serving start)"
    and "length (set_community (server_settings start)) + 84 \<le> set_max_message_size (server_settings start)" and "(datagram, out) \<in> set trace" and "short_user datagram"
  shows "length out \<le> set_max_message_size (server_settings start)"
  using assms(1,5)
proof induction
  case (runs_step trace server label server')
  note keeps = agent_runs_keeps [OF runs_step.hyps(1) assms(3)]
  show ?case
  proof (cases "(datagram, out) \<in> set trace")
    case False
    then have label: "label = Some (datagram, out)" using runs_step.prems by (auto split: option.splits)
    show ?thesis
      using runs_step.hyps(2) unfolding label
    proof cases
      case (step_serve now peer d send_ok sent logged)
      then show ?thesis
        using serve_one_len [OF assms(2), of server datagram now peer send_ok out logged server'] keeps assms(4,6) by (cases sent) auto
    qed
  qed (rule runs_step.IH)
qed simp

section \<open>Counters\<close>

text \<open>The counters of what became of a datagram; the others qualify one of these.\<close>

definition request_counter :: "Counter \<Rightarrow> bool" where
  "request_counter c \<longleftrightarrow> c \<notin> {TooBig, SendErrors, CounterV1, CounterV3}"

definition request_counts :: "SnmpAgent \<Rightarrow> Counter \<Rightarrow> u64" where
  "request_counts agent = (\<lambda>c. if request_counter c then ag_counters agent c else 0)"

definition counted_once :: "SnmpAgent \<Rightarrow> SnmpAgent \<Rightarrow> bool" where
  "counted_once a b \<longleftrightarrow> (\<exists>c. request_counter c \<and> request_counts b = (request_counts a)(c := request_counts a c + 1))"

lemma counts_count: "request_counts (count c agent)
    = (if request_counter c then (request_counts agent)(c := request_counts agent c + 1) else request_counts agent)"
  by (auto simp: request_counts_def count_def fun_eq_iff)

lemma counts_warn [simp]: "request_counts (warn_too_big now agent) = request_counts agent"
  by (auto simp: request_counts_def warn_too_big_def fun_eq_iff)

lemma counts_note [simp]: "request_counts (note_request now peer v agent) = request_counts agent"
  by (auto simp: request_counts_def note_request_def fun_eq_iff)

lemma counted_once_cong: "request_counts a = request_counts a' \<Longrightarrow> request_counts b = request_counts b' \<Longrightarrow>
    counted_once a b \<longleftrightarrow> counted_once a' b'"
  by (simp add: counted_once_def)

lemma counted_once_count: "request_counter c \<Longrightarrow> request_counts a = request_counts b \<Longrightarrow> counted_once a (count c b)"
  by (auto simp: counted_once_def counts_count)

lemma not_request_counter [simp]: "\<not> request_counter TooBig" "\<not> request_counter SendErrors"
    "\<not> request_counter CounterV1" "\<not> request_counter CounterV3"
  by (simp_all add: request_counter_def)

lemma too_big_counts: "too_big cr millis reply vars agent = (outcome, env, agent', out) \<Longrightarrow> request_counts agent' = request_counts agent"
  by (auto simp: too_big_def Let_def counts_count split: prod.splits)

lemma no_such_name_counts:
  "no_such_name cr millis reply vars index agent = (outcome, env, agent', out) \<Longrightarrow> request_counts agent' = request_counts agent"
  using too_big_counts by (fastforce simp: no_such_name_def Let_def split: prod.splits Outcome.splits)

lemma pdu_parts_counter: "pdu_parts pdu = Some (counter, rid, vars) \<Longrightarrow> request_counter counter"
  by (cases pdu) (auto simp: request_counter_def)

lemma answer_pdu_counts:
  assumes "answer_pdu cr millis pdu env budget agent = (outcome, env', agent', out)"
  shows "counted_once agent agent'"
proof (cases "pdu_parts pdu")
  case None
  then show ?thesis using assms by (auto simp: answer_pdu_def request_counter_def intro: counted_once_count)
next
  case (Some p)
  obtain counter rid vars where p: "p = (counter, rid, vars)" by (rule prod_cases3)
  have m: "request_counter Malformed" by (simp add: request_counter_def)
  consider "agent' = count Malformed agent"
    | agent1 where "request_counts agent1 = request_counts agent"
        "agent' = count counter agent1 \<or> agent' = count CounterV1 (count counter agent1) \<or> agent' = count CounterV3 (count counter agent1)"
    using assms unfolding answer_pdu_def Some p
    by (auto simp: Let_def split: sum.splits Written.splits prod.splits Envelope.splits if_splits
        dest: too_big_counts no_such_name_counts)
  then show ?thesis
    using pdu_parts_counter [OF Some [unfolded p]] m
    by cases (auto simp: counts_count counted_once_def)
qed

lemma respond_noting_counts:
  assumes "respond_noting cr millis datagram budget serving = (outcome, refused, serving', out)"
  shows "counted_once (sv_agent serving) (sv_agent serving')"
proof -
  have rc: "request_counter Malformed" "request_counter WrongCommunity" "request_counter CounterUnsupportedVersion"
    by (simp_all add: request_counter_def)
  have stat: "request_counter (UsmStat_counter stat)" for stat by (cases stat) (simp_all add: request_counter_def)
  have "counted_once agent agent'" if "answer cr millis request b agent = (o1, agent', out1)" for request b agent o1 agent' out1
    using that rc by (auto simp: answer_def Let_def split: if_splits prod.splits intro: counted_once_count answer_pdu_counts)
  moreover have "counted_once (sv_agent s) (sv_agent s')" if "answer_v3 cr millis datagram b s = (o1, r1, s', out1)" for b s o1 r1 s' out1
    using that rc stat
    by (auto simp: answer_v3_def Let_def count_and_read_def split: sum.splits if_splits prod.splits UsmVerdict.splits option.splits
      intro!: counted_once_count intro: answer_pdu_counts)
  ultimately show ?thesis
    using assms rc by (auto simp: respond_noting_def undecodable_def Let_def split: sum.splits if_splits prod.splits intro: counted_once_count)
qed

lemma serve_one_counts:
  assumes "serve_one cr now peer datagram send_ok server = (sent, logged, server')"
  shows "counted_once (sv_agent (sr_serving server)) (sv_agent (sr_serving server'))"
proof -
  let ?sv = "(sr_serving server) \<lparr> sv_agent := note_request now peer (message_version datagram) (sv_agent (sr_serving server)) \<rparr>"
  obtain outcome refused serving out where
    r: "respond_noting cr now datagram (set_max_message_size (ag_settings (sv_agent ?sv))) ?sv = (outcome, refused, serving, out)"
    by (rule prod_cases4)
  have eq: "request_counts (sv_agent (sr_serving server')) = request_counts (sv_agent serving)"
    using assms r by (auto simp: serve_one_def Let_def counts_count split: prod.splits option.splits Refusal.splits if_splits)
  have "request_counts (sv_agent (sr_serving server)) = request_counts (sv_agent ?sv)" by simp
  then show ?thesis
    using respond_noting_counts [OF r] counted_once_cong [OF _ eq] by blast
qed

section \<open>Reports\<close>

text \<open>A discovery request: no engine, no security, a user name of any length.\<close>

definition discovery_snapshot :: Snapshot where
  "discovery_snapshot = \<lparr> sn_id = [], sn_boots = 0, sn_time = 0 \<rparr>"

definition discovery_of :: "bytes \<Rightarrow> V3Message" where
  "discovery_of user = \<lparr> v3_msg_id = 1, v3_msg_max_size = 65507,
     v3_flags = \<lparr> fl_auth = False, fl_privacy = False, fl_reportable = True \<rparr>, v3_security_model = V3_USM,
     v3_usm = \<lparr> up_engine_id = [], up_boots = 0, up_time = 0, up_user = user, up_auth_params = [], up_priv_params = [] \<rparr>,
     v3_auth_range = (0, 0), v3_scoped = None, v3_encrypted = None \<rparr>"

definition discovery_datagram :: "bytes \<Rightarrow> bytes" where
  "discovery_datagram user = v3_octets (discovery_of user) discovery_snapshot
     \<lparr> fl_auth = False, fl_privacy = False, fl_reportable = True \<rparr> [] []
     (tlv Tag_Sequence (v3_scoped_body discovery_snapshot (pdu_octets Tag_GetRequest 1 0 0 [])))"

lemma discovery_datagram_decodes:
  assumes "length user < 2 ^ 16"
  shows "\<exists>request. v3_decode (discovery_datagram user) = Inr request \<and> up_user (v3_usm request) = user
    \<and> up_engine_id (v3_usm request) = [] \<and> v3_security_model request = V3_USM \<and> fl_reportable (v3_flags request)"
proof -
  let ?scoped = "v3_scoped_body discovery_snapshot (pdu_octets Tag_GetRequest 1 0 0 [])"
  have n: "pdu_len 1 0 0 (length ([] :: bytes)) < 2 ^ 21" by (rule pdu_len_small) simp
  have sc: "scoped_pdu ?scoped = Inr (scoped_of discovery_snapshot Tag_GetRequest 1 0 0 [])"
    using n by (intro scoped_pdu_octets) (simp_all add: discovery_snapshot_def Tag_is_pdu_def)
  have len: "length ?scoped < 2 ^ 22"
    using n length_pdu_octets [of 1 0 0 "[]" Tag_GetRequest]
    by (simp add: v3_scoped_body_def discovery_snapshot_def tlv_len_def length_len_def)
  have "length (tlv Tag_Sequence ?scoped) < 2 ^ 28" using len tlv_len_le [of "length ?scoped"] by simp
  moreover have "v3_sizes (discovery_of user) discovery_snapshot 0"
    using assms by (simp add: v3_sizes_def discovery_snapshot_def discovery_of_def)
  ultimately show ?thesis
    using len sc expect_tlv_end [of ?scoped Tag_Sequence]
      v3_decode_octets [where req = "discovery_of user" and engine = discovery_snapshot and auth = "[]" and salt = "[]"
        and flags = "\<lparr> fl_auth = False, fl_privacy = False, fl_reportable = True \<rparr>" and data = "tlv Tag_Sequence ?scoped"
        and n = 0 and content = "(Some (scoped_of discovery_snapshot Tag_GetRequest 1 0 0 []), None)"]
    by (simp add: discovery_datagram_def v3_read_def discovery_of_def discovery_snapshot_def)
qed

lemma v3_decode_not_community: "v3_decode datagram = Inr request \<Longrightarrow> decode datagram = Inl (UnsupportedVersion V3_VERSION)"
  unfolding v3_decode_def decode_def Message_decode_def
  by (elim run_InrE) (auto simp: V3_VERSION_def)

lemma report_len_ge:
  assumes "crypto_ok cr" and "length (sn_id engine) < 2 ^ 16" and "length (up_user (v3_usm req)) < 2 ^ 16"
  shows "length (up_user (v3_usm req)) \<le> length (write_report cr [] req engine stat v user)"
proof -
  let ?pdu = "pdu_octets Tag_Report (report_id req) 0 0 (report_varbinds stat v)"
  have n: "pdu_len (report_id req) 0 0 (length (report_varbinds stat v)) < 2 ^ 21"
    using length_report_varbinds [of stat v] by (intro pdu_len_small) simp
  then have "v3_sizes req engine (length ?pdu)" using assms by (simp add: v3_sizes_def length_pdu_octets)
  then show ?thesis
    using v3_message_len_ge [of engine req "length ?pdu" user False]
    by (simp add: write_report_eq [OF assms] length_v3_message_octets [OF assms(1)])
qed

lemma discovery_answered:
  assumes "crypto_ok cr" and "Snmp_V3 \<in> set (set_versions (ag_settings (sv_agent serving)))"
    and "length (en_id (usm_engine (sv_usm serving))) < 2 ^ 16" and "length user < 2 ^ 16"
  shows "\<exists>serving' out. respond_noting cr millis (discovery_datagram user) budget serving = (Sent, None, serving', out)
    \<and> length user \<le> length out"
proof -
  obtain request where r: "v3_decode (discovery_datagram user) = Inr request" "up_user (v3_usm request) = user"
    "up_engine_id (v3_usm request) = []" "v3_security_model request = V3_USM" "fl_reportable (v3_flags request)"
    using discovery_datagram_decodes [OF assms(4)] by blast
  let ?engine = "Engine_snapshot (usm_engine (sv_usm serving)) (millis div 1000)"
  have "length user \<le> length (write_report cr [] request ?engine stat v None)" for stat v
    using report_len_ge [OF assms(1), of ?engine request stat v None] assms(3,4) by (simp add: r(2) Engine_snapshot_def)
  then show ?thesis
    using assms(2) r v3_decode_not_community [OF r(1)]
    by (simp add: respond_noting_def answer_v3_def verify_def Let_def count_and_read_def)
qed

section \<open>Properties\<close>

text \<open>
  C27. Whatever datagrams arrive and whatever the sinks publish, overwrite, register and release, in any
  order, from a freshly bound agent: its table stays ordered with no instance under the system group and
  a publisher for every instance, and its settings never change.
\<close>

theorem agent_invariant:
  assumes "agent_runs cr (server_new cr s hostname local_addr salts) trace server"
    and "crypto_ok cr" and "settings_ok s"
  shows "agent_inv (sv_agent (sr_serving server)) \<and> server_settings server = s"
  using agent_runs_keeps [OF assms(1) serving_ok_new [OF assms(2,3)]] by (simp add: serving_ok_def)

text \<open>
  C28. Every datagram the agent sends, in any run from accepted settings, is at most \<open>max_message_size\<close>
  octets, when the community leaves 84 octets of them for the rest of an empty response, which the configuration does not
  check, and for a request whose user name, if it is SNMPv3, has the at most 32 octets RFC 3414 gives it.
\<close>

theorem responses_within_budget:
  assumes "agent_runs cr (server_new cr s hostname local_addr salts) trace server"
    and "crypto_ok cr" and "settings_ok s" and "length (set_community s) + 84 \<le> set_max_message_size s"
    and "(datagram, out) \<in> set trace" and "short_user datagram"
  shows "length out \<le> set_max_message_size s"
  using agent_runs_len [OF assms(1,2) serving_ok_new [OF assms(2,3)] _ assms(5,6)] assms(4) by simp

text \<open>
  C29. A report is not held to the budget: a discovery request with a user name longer than
  \<open>max_message_size\<close> is answered with a datagram longer than \<open>max_message_size\<close>.
\<close>

theorem report_exceeds_budget:
  assumes "crypto_ok cr" and "settings_ok s" and "Snmp_V3 \<in> set (set_versions s)"
    and "length user < 2 ^ 16" and "set_max_message_size s < length user"
  shows "\<exists>serving' out.
    respond_noting cr millis (discovery_datagram user) (set_max_message_size s)
      (sr_serving (server_new cr s hostname local_addr salts)) = (Sent, None, serving', out)
    \<and> set_max_message_size s < length out"
proof -
  let ?sv = "sr_serving (server_new cr s hostname local_addr salts)"
  have "ag_settings (sv_agent ?sv) = s" by (simp add: server_new_def agent_bind_def Let_def)
  moreover have "length (en_id (usm_engine (sv_usm ?sv))) < 2 ^ 16"
    using serving_ok_new [OF assms(1,2), of hostname local_addr salts] by (simp add: serving_ok_def)
  ultimately obtain serving' out where
    "respond_noting cr millis (discovery_datagram user) (set_max_message_size s) ?sv = (Sent, None, serving', out)"
    "length user \<le> length out"
    using discovery_answered [OF assms(1), of ?sv user millis "set_max_message_size s"] assms(3,4) by auto
  then show ?thesis using assms(5) by auto
qed

text \<open>
  Every datagram received adds one to exactly one of the counters that say what became of it, and
  leaves the others of them as they are.
\<close>

theorem datagram_counted_once:
  "counted_once (sv_agent (sr_serving server))
     (sv_agent (sr_serving (snd (snd (serve_one cr now peer datagram send_ok server)))))"
  by (rule serve_one_counts [of cr now peer datagram send_ok server
        "fst (serve_one cr now peer datagram send_ok server)" "fst (snd (serve_one cr now peer datagram send_ok server))"]) simp

definition example_salts :: SaltCounter where
  "example_salts = SaltCounter_starting_at 0 0"

definition example_server :: Server where
  "example_server = server_new example_crypto example_v3_settings [] [] example_salts"

lemma example_v3_settings_ok: "settings_ok example_v3_settings"
  by (simp add: settings_ok_def example_v3_settings_def example_settings_def example_user_def user_ok_def oid_ok_def
    example_addr_def canonical_def)

lemma discovery_short: "length user \<le> 32 \<Longrightarrow> short_user (discovery_datagram user)"
  using discovery_datagram_decodes [of user] by (auto simp: short_user_def)

lemma example_run:
  "\<exists>out server. agent_runs example_crypto example_server [(discovery_datagram [], out)] server"
proof -
  let ?sv = "(sr_serving example_server) \<lparr> sv_agent := note_request 0 example_addr (message_version (discovery_datagram []))
     (sv_agent (sr_serving example_server)) \<rparr>"
  have set: "ag_settings (sv_agent ?sv) = example_v3_settings"
    by (simp add: note_request_def example_server_def server_new_def agent_bind_def Let_def)
  have id: "length (en_id (usm_engine (sv_usm ?sv))) < 2 ^ 16"
    using serving_ok_new [OF example_crypto_ok example_v3_settings_ok, of "[]" "[]" example_salts]
    by (simp add: serving_ok_def example_server_def)
  have v3: "Snmp_V3 \<in> set (set_versions (ag_settings (sv_agent ?sv)))"
    unfolding set by (simp add: example_v3_settings_def)
  have n: "length ([] :: bytes) < 2 ^ 16" by simp
  obtain serving' out where
    r: "respond_noting example_crypto 0 (discovery_datagram []) (set_max_message_size example_v3_settings) ?sv
      = (Sent, None, serving', out)"
    using discovery_answered [OF example_crypto_ok v3 id n, of 0 "set_max_message_size example_v3_settings"] by blast
  then have "serve_one example_crypto 0 example_addr (discovery_datagram []) True example_server
      = (Some out, False, example_server \<lparr> sr_serving := serving' \<rparr>)"
    unfolding serve_one_def Let_def set by simp
  then show ?thesis using runs_step [OF runs_start step_serve] by fastforce
qed

theorem agent_invariant_witness:
  "\<exists>out server. agent_runs example_crypto example_server [(discovery_datagram [], out)] server
     \<and> agent_inv (sv_agent (sr_serving server)) \<and> server_settings server = example_v3_settings"
  using example_run agent_invariant [OF _ example_crypto_ok example_v3_settings_ok] unfolding example_server_def by blast

theorem responses_within_budget_witness:
  "\<exists>out server. agent_runs example_crypto example_server [(discovery_datagram [], out)] server \<and> length out \<le> 1472"
proof -
  obtain out server where run: "agent_runs example_crypto example_server [(discovery_datagram [], out)] server"
    using example_run by blast
  have short: "short_user (discovery_datagram [])" by (rule discovery_short) simp
  have "length out \<le> set_max_message_size example_v3_settings"
    by (rule responses_within_budget [OF run [unfolded example_server_def] example_crypto_ok example_v3_settings_ok _ _ short])
      (simp_all add: example_v3_settings_def example_settings_def)
  then show ?thesis using run by (auto simp: example_v3_settings_def example_settings_def)
qed

theorem report_exceeds_budget_witness:
  "\<exists>serving' out. respond_noting example_crypto 0 (discovery_datagram (replicate 2000 0)) 1472 (sr_serving example_server)
     = (Sent, None, serving', out) \<and> 1472 < length out"
  using report_exceeds_budget [OF example_crypto_ok example_v3_settings_ok, of "replicate 2000 0" 0 "[]" "[]" example_salts]
  by (simp add: example_v3_settings_def example_settings_def example_server_def)

end
