(* ===== verification/Snmp_Record.thy ===== *)
theory Snmp_Record
  imports Ber_Codec
begin

text \<open>
  The publish record the snmp encoder hands to the \<open>snmp_agent\<close> sink (\<open>encoder/snmp/mod.rs\<close>): the number
  of index arcs, the number of companion records, the instance's \<open>VarBind\<close>, then each companion.
  Errors as values of \<open>record_error\<close>, one for each \<open>not_a_record\<close>.
\<close>

section \<open>Splitting a record\<close>

datatype record_error =
    RecordEmpty
  | RecordNoCompanionCount
  | RecordBer BerError
  | RecordFewerCompanions u8
  | RecordTrailingBytes
  | RecordNoObject u8 Oid

text \<open>The SEQUENCE at the start of the input, headers included, and what follows it.\<close>

definition split_varbind :: "bytes \<Rightarrow> BerError + (bytes \<times> bytes)" where
  "split_varbind inp =
     rbind (expect Tag_Sequence inp) (\<lambda>(body, rest).
       let e = length inp - length rest in Inr (take e inp, drop e inp))"

record Companions =
  cs_rest :: bytes
  cs_left :: u8

record Companion =
  cp_index_arcs :: u8
  cp_varbind :: bytes

definition Companions_next :: "Companions \<Rightarrow> (Companion \<times> Companions) option" where
  "Companions_next cs =
     (if cs_left cs = 0 then None
      else case cs_rest cs of
             [] \<Rightarrow> None
           | n_arcs # rest \<Rightarrow>
               (case split_varbind rest of
                  Inl _ \<Rightarrow> None
                | Inr (varbind, rest) \<Rightarrow>
                    Some (\<lparr> cp_index_arcs = n_arcs, cp_varbind = varbind \<rparr>,
                          \<lparr> cs_rest = rest, cs_left = cs_left cs - 1 \<rparr>)))"

definition Companions_len :: "Companions \<Rightarrow> nat" where
  "Companions_len cs = unat (cs_left cs)"

lemma split_varbind_shorter: "split_varbind inp = Inr (varbind, rest) \<Longrightarrow> length rest < length inp"
  by (auto simp: split_varbind_def Let_def dest: expect_shorter split: sum.splits prod.splits elim!: rbind_InrE)

text \<open>\<open>for companion in companions\<close>: the items the iterator yields.\<close>

function companions_list :: "Companions \<Rightarrow> Companion list" where
  "companions_list cs =
     (case Companions_next cs of None \<Rightarrow> [] | Some (c, cs) \<Rightarrow> c # companions_list cs)"
  by pat_completeness auto
termination
  by (relation "measure (\<lambda>cs. length (cs_rest cs))")
     (auto simp: Companions_next_def split: if_splits list.splits sum.splits dest: split_varbind_shorter)

declare companions_list.simps [simp del]

record Record =
  rec_index_arcs :: u8
  rec_varbind :: bytes
  rec_companions :: Companions

fun skip_companions :: "u8 \<Rightarrow> nat \<Rightarrow> bytes \<Rightarrow> record_error + bytes" where
  "skip_companions count 0 rest = Inr rest"
| "skip_companions count (Suc n) rest =
     (case rest of
        [] \<Rightarrow> Inl (RecordFewerCompanions count)
      | _ # after \<Rightarrow>
          rbind (map_err RecordBer (split_varbind after)) (\<lambda>(_, rest). skip_companions count n rest))"

definition split_record :: "bytes \<Rightarrow> record_error + Record" where
  "split_record encoded =
     (case encoded of
        [] \<Rightarrow> Inl RecordEmpty
      | [_] \<Rightarrow> Inl RecordNoCompanionCount
      | n_arcs # count # rest \<Rightarrow>
          rbind (map_err RecordBer (split_varbind rest)) (\<lambda>(varbind, companions).
          rbind (skip_companions count (unat count) companions) (\<lambda>rest.
            if rest \<noteq> [] then Inl RecordTrailingBytes
            else Inr \<lparr> rec_index_arcs = n_arcs, rec_varbind = varbind,
                       rec_companions = \<lparr> cs_rest = companions, cs_left = count \<rparr> \<rparr>)))"

section \<open>A record as it is written\<close>

definition companion_octets :: "Companion \<Rightarrow> bytes" where
  "companion_octets c = cp_index_arcs c # cp_varbind c"

definition record_octets :: "u8 \<Rightarrow> bytes \<Rightarrow> Companion list \<Rightarrow> bytes" where
  "record_octets n_arcs varbind cs =
     [n_arcs, of_nat (length cs)] @ varbind @ concat (map companion_octets cs)"

text \<open>A whole SEQUENCE, as every varbind is.\<close>

definition is_sequence :: "bytes \<Rightarrow> bool" where
  "is_sequence varbind \<longleftrightarrow> (\<exists>body. varbind = tlv Tag_Sequence body \<and> length body < 2 ^ 32)"

lemma split_varbind_tlv: "is_sequence varbind \<Longrightarrow> split_varbind (varbind @ rest) = Inr (varbind, rest)"
  by (auto simp: is_sequence_def split_varbind_def expect_tlv Let_def)

lemma skip_companions_octets:
  "list_all (\<lambda>c. is_sequence (cp_varbind c)) cs \<Longrightarrow>
   skip_companions count (length cs) (concat (map companion_octets cs) @ rest) = Inr rest"
  by (induction cs) (simp_all add: companion_octets_def split_varbind_tlv)

lemma companions_list_octets:
  assumes "list_all (\<lambda>c. is_sequence (cp_varbind c)) cs" and "length cs < 256"
  shows "companions_list \<lparr> cs_rest = concat (map companion_octets cs), cs_left = of_nat (length cs) \<rparr> = cs"
  using assms
proof (induction cs)
  case (Cons c cs)
  have "(of_nat (length (c # cs)) :: u8) \<noteq> 0"
  proof
    assume "(of_nat (length (c # cs)) :: u8) = 0"
    then have "unat (of_nat (length (c # cs)) :: u8) = 0" by simp
    then show False using Cons.prems(2) by (simp only: unat_of_nat) simp
  qed
  then show ?case
    using Cons by (simp add: companions_list.simps [of "\<lparr> cs_rest = _ , cs_left = _ \<rparr>"] Companions_next_def
        companion_octets_def split_varbind_tlv)
qed (simp add: companions_list.simps Companions_next_def)

lemma split_record_octets:
  assumes "is_sequence varbind" and "list_all (\<lambda>c. is_sequence (cp_varbind c)) cs" and "length cs < 256"
  shows "\<exists>r. split_record (record_octets n_arcs varbind cs) = Inr r \<and> rec_index_arcs r = n_arcs
    \<and> rec_varbind r = varbind \<and> companions_list (rec_companions r) = cs"
proof -
  have "unat (of_nat (length cs) :: u8) = length cs" using assms(3) by (simp add: unat_of_nat)
  then show ?thesis
    using assms skip_companions_octets [OF assms(2), of "of_nat (length cs)" "[]"] companions_list_octets [OF assms(2,3)]
    by (simp add: split_record_def record_octets_def split_varbind_tlv)
qed

end
