(* ===== verification/Snmp_Sink.thy ===== *)
theory Snmp_Sink
  imports Snmp_Record Agent
begin

text \<open>
  The \<open>snmp_agent\<close> sink (\<open>sink/snmp/mod.rs\<close>): a scenario's sink publishes the records of its series into the
  table of an agent it shares with other sinks, and releases what it published when it is dropped. The
  agent's table is passed explicitly; each operation is what one call does to the sink and to the table.
\<close>

section \<open>The sink\<close>

text \<open>\<open>PublishBuffers\<close>: what the two buffers hold between publishes, and which is next.\<close>

record PublishBuffers =
  pb_buffers :: "bytes \<times> bytes"
  pb_next :: bool

definition PublishBuffers_default :: PublishBuffers where
  "PublishBuffers_default = \<lparr> pb_buffers = ([], []), pb_next = False \<rparr>"

definition frozen :: "bytes \<Rightarrow> PublishBuffers \<Rightarrow> bytes \<times> PublishBuffers" where
  "frozen varbind pb =
     (if pb_next pb
      then (snd (pb_buffers pb) @ varbind, \<lparr> pb_buffers = (fst (pb_buffers pb), []), pb_next = False \<rparr>)
      else (fst (pb_buffers pb) @ varbind, \<lparr> pb_buffers = ([], snd (pb_buffers pb)), pb_next = True \<rparr>))"

record Publication =
  pub_oid :: Oid
  pub_buffers :: PublishBuffers
  pub_companions :: "Oid list"

record SnmpAgentSink =
  sk_owner :: Owner
  sk_owned :: "MetricKey \<rightharpoonup> nat"
  sk_published :: "Publication list"
  sk_instances :: "Oid \<rightharpoonup> nat"
  sk_last_delivered :: bool
  sk_joined :: bool

definition from_agent :: "Owner \<Rightarrow> SnmpAgentSink" where
  "from_agent owner = \<lparr> sk_owner = owner, sk_owned = Map.empty, sk_published = [], sk_instances = Map.empty,
     sk_last_delivered = False, sk_joined = False \<rparr>"

definition join_sink :: "Owner \<Rightarrow> SnmpAgentSink" where
  "join_sink owner = from_agent owner \<lparr> sk_joined := True \<rparr>"

datatype sink_error =
    NotServing
  | NotARecord record_error
  | PublishRefused publish_error
  | NotServed Oid
  | RawBytes

definition instance_oid :: "bytes \<Rightarrow> sink_error + Oid" where
  "instance_oid varbind =
     map_err (\<lambda>e. NotARecord (RecordBer e))
       (rbind (expect Tag_Sequence varbind) (\<lambda>(body, _). rbind (read_oid body) (\<lambda>(oid, _). Inr oid)))"

definition object_of :: "Oid \<Rightarrow> u8 \<Rightarrow> sink_error + Oid" where
  "object_of oid n_arcs =
     (let arcs = oid_arcs oid;
          refused = Inl (NotARecord (RecordNoObject n_arcs oid))
      in if length arcs < unat n_arcs then refused
         else case Oid_from_arcs (take (length arcs - unat n_arcs) arcs) of
                Some object \<Rightarrow> Inr object
              | None \<Rightarrow> refused)"

text \<open>\<open>Sink::write\<close> takes raw bytes, which this sink always refuses.\<close>

definition sink_write :: "bytes \<Rightarrow> sink_error + unit" where
  "sink_write data = Inl RawBytes"

definition push_companion :: "nat \<Rightarrow> Oid \<Rightarrow> SnmpAgentSink \<Rightarrow> SnmpAgentSink" where
  "push_companion entry oid sink =
     (let p = sk_published sink ! entry
      in sink \<lparr> sk_published := (sk_published sink)[entry := p \<lparr> pub_companions := pub_companions p @ [oid] \<rparr>] \<rparr>)"

fun publish_companions ::
  "nat \<Rightarrow> Companion list \<Rightarrow> SnmpAgentSink \<Rightarrow> MibTable \<Rightarrow> (sink_error + unit) \<times> SnmpAgentSink \<times> MibTable" where
  "publish_companions entry [] sink table = (Inr (), sink, table)"
| "publish_companions entry (c # cs) sink table =
     (case instance_oid (cp_varbind c) of
        Inl e \<Rightarrow> (Inl e, sink, table)
      | Inr oid \<Rightarrow>
          let first = oid \<notin> set (pub_companions (sk_published sink ! entry))
          in case (if first then rbind (object_of oid (cp_index_arcs c)) (\<lambda>object. Inr (Some object))
                   else Inr None) of
               Inl e \<Rightarrow> (Inl e, sink, table)
             | Inr object \<Rightarrow>
                 (case publish (sk_owner sink) oid (cp_varbind c) first table of
                    Inl e \<Rightarrow> (Inl (PublishRefused e), sink, table)
                  | Inr table \<Rightarrow>
                      (case object of
                         Some object \<Rightarrow>
                           publish_companions entry cs (push_companion entry oid sink) (register_object object table)
                       | None \<Rightarrow> publish_companions entry cs sink table)))"

fun overwrite_companions :: "Companion list \<Rightarrow> MibTable \<Rightarrow> (sink_error + unit) \<times> MibTable" where
  "overwrite_companions [] table = (Inr (), table)"
| "overwrite_companions (c # cs) table =
     (case instance_oid (cp_varbind c) of
        Inl e \<Rightarrow> (Inl e, table)
      | Inr oid \<Rightarrow> overwrite_companions cs (snd (overwrite oid (cp_varbind c) table)))"

text \<open>The branches of \<open>write_metric_event\<close>: a joined sink, the first event of an instance, a later event.\<close>

definition write_joined :: "Record \<Rightarrow> SnmpAgentSink \<Rightarrow> MibTable \<Rightarrow> (sink_error + unit) \<times> SnmpAgentSink \<times> MibTable" where
  "write_joined record sink table =
     (case instance_oid (rec_varbind record) of
        Inl e \<Rightarrow> (Inl e, sink, table)
      | Inr oid \<Rightarrow>
          (let (present, table) = overwrite oid (rec_varbind record) table
           in if \<not> present then (Inl (NotServed oid), sink, table)
              else
                let sink = sink \<lparr> sk_last_delivered := True \<rparr>;
                    (r, table) = overwrite_companions (companions_list (rec_companions record)) table
                in (r, sink, table)))"

definition write_first ::
  "MetricKey \<Rightarrow> Oid \<Rightarrow> Record \<Rightarrow> SnmpAgentSink \<Rightarrow> MibTable \<Rightarrow> (sink_error + unit) \<times> SnmpAgentSink \<times> MibTable" where
  "write_first key oid record sink table =
     (case object_of oid (rec_index_arcs record) of
        Inl e \<Rightarrow> (Inl e, sink, table)
      | Inr object \<Rightarrow>
          (let (stored, buffers) = frozen (rec_varbind record) PublishBuffers_default
           in case publish (sk_owner sink) oid stored True table of
                Inl e \<Rightarrow> (Inl (PublishRefused e), sink, table)
              | Inr table \<Rightarrow>
                  let table = register_object object table;
                      entry = length (sk_published sink);
                      sink = sink \<lparr>
                        sk_published := sk_published sink
                          @ [\<lparr> pub_oid = oid, pub_buffers = buffers, pub_companions = [] \<rparr>],
                        sk_instances := (sk_instances sink)(oid \<mapsto> entry),
                        sk_owned := (sk_owned sink)(key \<mapsto> entry),
                        sk_last_delivered := True \<rparr>
                  in publish_companions entry (companions_list (rec_companions record)) sink table))"

definition write_again ::
  "nat \<Rightarrow> Record \<Rightarrow> SnmpAgentSink \<Rightarrow> MibTable \<Rightarrow> (sink_error + unit) \<times> SnmpAgentSink \<times> MibTable" where
  "write_again entry record sink table =
     (let p = sk_published sink ! entry;
          (stored, buffers) = frozen (rec_varbind record) (pub_buffers p);
          sink = sink \<lparr> sk_published := (sk_published sink)[entry := p \<lparr> pub_buffers := buffers \<rparr>] \<rparr>
      in case publish (sk_owner sink) (pub_oid p) stored False table of
           Inl e \<Rightarrow> (Inl (PublishRefused e), sink, table)
         | Inr table \<Rightarrow>
             let sink = sink \<lparr> sk_last_delivered := True \<rparr>
             in if Companions_len (rec_companions record) > 0
                then publish_companions entry (companions_list (rec_companions record)) sink table
                else (Inr (), sink, table))"

text \<open>\<open>serving\<close> is whether the agent's responder task still runs.\<close>

definition write_metric_event ::
  "bool \<Rightarrow> MetricEvent \<Rightarrow> bytes \<Rightarrow> SnmpAgentSink \<Rightarrow> MibTable \<Rightarrow> (sink_error + unit) \<times> SnmpAgentSink \<times> MibTable" where
  "write_metric_event serving event encoded sink table =
     (let sink = sink \<lparr> sk_last_delivered := False \<rparr>
      in if \<not> serving then (Inl NotServing, sink, table)
         else case split_record encoded of
           Inl e \<Rightarrow> (Inl (NotARecord e), sink, table)
         | Inr record \<Rightarrow>
             if sk_joined sink then write_joined record sink table
             else
               let key = (ev_name event, ev_labels event)
               in case sk_owned sink key of
                    Some entry \<Rightarrow> write_again entry record sink table
                  | None \<Rightarrow>
                      (case instance_oid (rec_varbind record) of
                         Inl e \<Rightarrow> (Inl e, sink, table)
                       | Inr oid \<Rightarrow>
                           (case sk_instances sink oid of
                              Some entry \<Rightarrow>
                                write_again entry record (sink \<lparr> sk_owned := (sk_owned sink)(key \<mapsto> entry) \<rparr>) table
                            | None \<Rightarrow> write_first key oid record sink table)))"

definition release_publication :: "Owner \<Rightarrow> Publication \<Rightarrow> MibTable \<Rightarrow> MibTable" where
  "release_publication owner p table =
     fold (release owner) (pub_companions p) (release owner (pub_oid p) table)"

definition drop_sink :: "SnmpAgentSink \<Rightarrow> MibTable \<Rightarrow> MibTable" where
  "drop_sink sink table = fold (release_publication (sk_owner sink)) (sk_published sink) table"

section \<open>Claims\<close>

text \<open>How often a publication, and a sink, claims an instance.\<close>

definition pub_claims :: "Oid \<Rightarrow> Publication \<Rightarrow> nat" where
  "pub_claims oid p = (if pub_oid p = oid then 1 else 0) + count_list (pub_companions p) oid"

definition sink_claims :: "Oid \<Rightarrow> SnmpAgentSink \<Rightarrow> nat" where
  "sink_claims oid sink = sum_list (map (pub_claims oid) (sk_published sink))"

type_synonym claims = "Owner \<Rightarrow> Oid \<Rightarrow> nat"

definition claim :: "Owner \<Rightarrow> Oid \<Rightarrow> claims \<Rightarrow> claims" where
  "claim owner oid f = (\<lambda>o' i. f o' i + (if o' = owner \<and> i = oid then 1 else 0))"

definition with_pubs :: "Owner \<Rightarrow> Publication list \<Rightarrow> claims \<Rightarrow> claims" where
  "with_pubs owner ps f = (\<lambda>o' i. f o' i + (if o' = owner then sum_list (map (pub_claims i) ps) else 0))"

definition with_sink :: "SnmpAgentSink \<Rightarrow> claims \<Rightarrow> claims" where
  "with_sink sink = with_pubs (sk_owner sink) (sk_published sink)"

definition sinks_claims :: "SnmpAgentSink list \<Rightarrow> claims" where
  "sinks_claims sinks = (\<lambda>o' i. sum_list (map (\<lambda>s. if sk_owner s = o' then sink_claims i s else 0) sinks))"

text \<open>A table holds exactly the instances that are claimed, under the launch that claims them.\<close>

definition balanced :: "claims \<Rightarrow> MibTable \<Rightarrow> bool" where
  "balanced f table \<longleftrightarrow> table_inv table
     \<and> (\<forall>oid slot. btree_get (tab_slots table) oid = Some slot \<longrightarrow> slot_publishers slot = f (slot_owner slot) oid)
     \<and> (\<forall>oid slot o'. btree_get (tab_slots table) oid = Some slot \<longrightarrow> o' \<noteq> slot_owner slot \<longrightarrow> f o' oid = 0)
     \<and> (\<forall>oid o'. btree_get (tab_slots table) oid = None \<longrightarrow> f o' oid = 0)"

lemma balancedD:
  assumes "balanced f table"
  shows "table_inv table"
    and "btree_get (tab_slots table) oid = Some slot \<Longrightarrow> slot_publishers slot = f (slot_owner slot) oid"
    and "btree_get (tab_slots table) oid = Some slot \<Longrightarrow> o' \<noteq> slot_owner slot \<Longrightarrow> f o' oid = 0"
    and "btree_get (tab_slots table) oid = None \<Longrightarrow> f o' oid = 0"
  using assms unfolding balanced_def by blast+

lemma balancedI:
  assumes "table_inv table"
    and "\<And>oid slot. btree_get (tab_slots table) oid = Some slot \<Longrightarrow> slot_publishers slot = f (slot_owner slot) oid"
    and "\<And>oid slot o'. btree_get (tab_slots table) oid = Some slot \<Longrightarrow> o' \<noteq> slot_owner slot \<Longrightarrow> f o' oid = 0"
    and "\<And>oid o'. btree_get (tab_slots table) oid = None \<Longrightarrow> f o' oid = 0"
  shows "balanced f table"
  using assms unfolding balanced_def by blast

lemma balanced_owner:
  assumes "balanced f table" and "1 \<le> f owner oid"
  shows "\<exists>slot. btree_get (tab_slots table) oid = Some slot \<and> slot_owner slot = owner"
  using balancedD(3) [OF assms(1), of oid _ owner] balancedD(4) [OF assms(1), of oid owner] assms(2)
  by (cases "btree_get (tab_slots table) oid") auto

lemma balanced_publish_first:
  assumes "balanced f table" and p: "publish owner oid varbind True table = Inr table'"
  shows "balanced (claim owner oid f) table'"
proof -
  note inv = balancedD(1) [OF assms(1)] and b = balancedD(2-) [OF assms(1)]
  obtain slot where slot: "btree_get (tab_slots table') oid = Some slot" "slot_owner slot = owner"
    "slot_publishers slot = (case btree_get (tab_slots table) oid of None \<Rightarrow> 1 | Some old \<Rightarrow> slot_publishers old + 1)"
    using publish_get(1) [OF inv p] by auto
  have own: "slot_owner old = owner" if "btree_get (tab_slots table) oid = Some old" for old
    using p that by (auto simp: publish_def split: if_splits)
  have fo: "f o' oid = 0" if "o' \<noteq> owner" for o'
    using b(2,3) [of oid] own that by (cases "btree_get (tab_slots table) oid") auto
  have pubs: "slot_publishers slot = f owner oid + 1"
    using slot(3) own b(1,3) [of oid] by (cases "btree_get (tab_slots table) oid") fastforce+
  note other = publish_get(2) [OF inv p]
  show ?thesis
  proof (rule balancedI)
    fix i s assume s: "btree_get (tab_slots table') i = Some s"
    show "slot_publishers s = claim owner oid f (slot_owner s) i"
      using s slot pubs other b(1) by (cases "i = oid") (auto simp: claim_def)
  next
    fix i s o' assume s: "btree_get (tab_slots table') i = Some s" "o' \<noteq> slot_owner s"
    show "claim owner oid f o' i = 0"
      using s slot fo other b(2) by (cases "i = oid") (auto simp: claim_def)
  next
    fix i o' assume s: "btree_get (tab_slots table') i = None"
    show "claim owner oid f o' i = 0"
      using s slot other b(3) by (cases "i = oid") (auto simp: claim_def)
  qed (rule table_inv_publish [OF inv p])
qed

lemma balanced_slots:
  assumes "balanced f table" and "table_inv table'"
    and "\<And>i. map_option (\<lambda>s. (slot_owner s, slot_publishers s)) (btree_get (tab_slots table') i)
       = map_option (\<lambda>s. (slot_owner s, slot_publishers s)) (btree_get (tab_slots table) i)"
  shows "balanced f table'"
proof (rule balancedI [OF assms(2)])
  fix i s assume "btree_get (tab_slots table') i = Some s"
  moreover from this obtain s0 where "btree_get (tab_slots table) i = Some s0" "slot_owner s0 = slot_owner s"
    "slot_publishers s0 = slot_publishers s" using assms(3) [of i] by (cases "btree_get (tab_slots table) i") auto
  ultimately show "slot_publishers s = f (slot_owner s) i" "\<And>o'. o' \<noteq> slot_owner s \<Longrightarrow> f o' i = 0"
    using balancedD(2,3) [OF assms(1), of i s0] by auto
next
  fix i o' assume "btree_get (tab_slots table') i = None"
  then show "f o' i = 0" using assms(3) [of i] balancedD(4) [OF assms(1), of i o'] by simp
qed

lemma balanced_publish_again:
  assumes "balanced f table" and "1 \<le> f owner oid" and p: "publish owner oid varbind False table = Inr table'"
  shows "balanced f table'"
proof (rule balanced_slots [OF assms(1) table_inv_publish [OF balancedD(1) [OF assms(1)] p]])
  fix i
  obtain slot where "btree_get (tab_slots table) oid = Some slot" "slot_owner slot = owner"
    using balanced_owner [OF assms(1,2)] by blast
  then show "map_option (\<lambda>s. (slot_owner s, slot_publishers s)) (btree_get (tab_slots table') i)
       = map_option (\<lambda>s. (slot_owner s, slot_publishers s)) (btree_get (tab_slots table) i)"
    using publish_get(1,2) [OF balancedD(1) [OF assms(1)] p] by (cases "i = oid") auto
qed

lemma balanced_overwrite: "balanced f table \<Longrightarrow> balanced f (snd (overwrite oid varbind table))"
  by (rule balanced_slots, assumption, rule table_inv_overwrite, erule balancedD(1))
    (cases "overwrite oid varbind table", auto simp: overwrite_get(2) [OF balancedD(1)] option.map_comp comp_def)

lemma balanced_register: "balanced f table \<Longrightarrow> balanced f (register_object object table)"
  by (rule balanced_slots, assumption, rule table_inv_register, erule balancedD(1)) (simp add: register_object_def)

lemma balanced_release:
  assumes "balanced (claim owner oid f) table"
  shows "balanced f (release owner oid table)"
proof -
  note inv = balancedD(1) [OF assms] and get = release_get(1) [OF balancedD(1) [OF assms]]
  obtain slot where slot: "btree_get (tab_slots table) oid = Some slot" "slot_owner slot = owner"
    using balanced_owner [OF assms, of owner oid] by (auto simp: claim_def)
  have pubs: "slot_publishers slot = f owner oid + 1"
    using balancedD(2) [OF assms slot(1)] slot(2) by (simp add: claim_def)
  have fo: "f o' oid = 0" if "o' \<noteq> owner" for o'
    using balancedD(3) [OF assms slot(1)] slot(2) that by (simp add: claim_def)
  have b: "btree_get (tab_slots table) i = Some s \<Longrightarrow> slot_publishers s = f (slot_owner s) i"
    "btree_get (tab_slots table) i = Some s \<Longrightarrow> o' \<noteq> slot_owner s \<Longrightarrow> f o' i = 0"
    "btree_get (tab_slots table) i = None \<Longrightarrow> f o' i = 0" if "i \<noteq> oid" for i s o'
    using that balancedD(2) [OF assms, of i s] balancedD(3) [OF assms, of i s o'] balancedD(4) [OF assms, of i o']
    by (simp_all add: claim_def)
  show ?thesis
  proof (rule balancedI)
    fix i s assume s: "btree_get (tab_slots (release owner oid table)) i = Some s"
    show "slot_publishers s = f (slot_owner s) i"
      using s slot pubs b(1) by (cases "i = oid") (auto simp: get split: if_splits option.splits)
  next
    fix i s o' assume s: "btree_get (tab_slots (release owner oid table)) i = Some s" "o' \<noteq> slot_owner s"
    show "f o' i = 0"
      using s slot fo b(2) by (cases "i = oid") (auto simp: get split: if_splits option.splits)
  next
    fix i o' assume s: "btree_get (tab_slots (release owner oid table)) i = None"
    show "f o' i = 0"
      using s slot pubs fo b(3) by (cases "i = oid"; cases "o' = owner") (auto simp: get split: if_splits option.splits)
  qed (rule table_inv_release [OF inv])
qed

section \<open>The sink's invariant\<close>

definition sink_ok :: "SnmpAgentSink \<Rightarrow> bool" where
  "sink_ok sink \<longleftrightarrow>
     (\<forall>key entry. sk_owned sink key = Some entry \<longrightarrow> entry < length (sk_published sink))
     \<and> (\<forall>oid entry. sk_instances sink oid = Some entry \<longrightarrow> entry < length (sk_published sink) \<and> pub_oid (sk_published sink ! entry) = oid)
     \<and> (\<forall>entry < length (sk_published sink). sk_instances sink (pub_oid (sk_published sink ! entry)) = Some entry)
     \<and> (sk_joined sink \<longrightarrow> sk_published sink = [])
     \<and> list_all (\<lambda>p. pb_buffers (pub_buffers p) = ([], [])) (sk_published sink)"

text \<open>What an operation leaves as it is: the owner, and whether the sink joined.\<close>

definition same_sink :: "SnmpAgentSink \<Rightarrow> SnmpAgentSink \<Rightarrow> bool" where
  "same_sink a b \<longleftrightarrow> sk_owner a = sk_owner b \<and> sk_joined a = sk_joined b"

lemma frozen_eq: "pb_buffers pb = ([], []) \<Longrightarrow> fst (frozen varbind pb) = varbind \<and> pb_buffers (snd (frozen varbind pb)) = ([], [])"
  by (simp add: frozen_def)

lemma sink_ok_from_agent [simp]: "sink_ok (from_agent owner)" "sink_ok (join_sink owner)"
  by (simp_all add: sink_ok_def from_agent_def join_sink_def)

lemma sink_ok_delivered [simp]: "sink_ok (sink \<lparr> sk_last_delivered := d \<rparr>) \<longleftrightarrow> sink_ok sink"
  by (simp add: sink_ok_def)

lemma with_sink_delivered [simp]: "with_sink (sink \<lparr> sk_last_delivered := d \<rparr>) = with_sink sink"
    "with_sink (sink \<lparr> sk_owned := m \<rparr>) = with_sink sink"
  by (simp_all add: with_sink_def)

lemma sink_ok_same_pubs:
  assumes "sink_ok sink" and "map pub_oid ps = map pub_oid (sk_published sink)"
    and "list_all (\<lambda>p. pb_buffers (pub_buffers p) = ([], [])) ps"
  shows "sink_ok (sink \<lparr> sk_published := ps \<rparr>)"
proof -
  have len: "length ps = length (sk_published sink)" using assms(2) by (metis length_map)
  have "pub_oid (ps ! e) = pub_oid (sk_published sink ! e)" if "e < length ps" for e
    using that assms(2) len by (metis nth_map)
  then show ?thesis using assms(1,3) len by (auto simp: sink_ok_def)
qed

lemma with_pubs_update:
  assumes "entry < length ps" and "\<And>i. pub_claims i p = pub_claims i (ps ! entry) + (if i \<in> A then 1 else 0)"
  shows "with_pubs owner (ps[entry := p]) f = (\<lambda>o' i. with_pubs owner ps f o' i + (if o' = owner \<and> i \<in> A then 1 else 0))"
proof -
  have "sum_list (map (pub_claims i) (ps[entry := p])) = sum_list (map (pub_claims i) ps) + (if i \<in> A then 1 else 0)" for i
    using assms(1) elem_le_sum_list [of entry "map (pub_claims i) ps"]
    by (simp add: map_update sum_list_update assms(2))
  then show ?thesis by (auto simp: with_pubs_def fun_eq_iff)
qed

lemma with_sink_push:
  assumes "entry < length (sk_published sink)" 
  shows "with_sink (push_companion entry oid sink) f = claim (sk_owner sink) oid (with_sink sink f)"
proof -
  let ?p = "sk_published sink ! entry"
  have "pub_claims i (?p \<lparr> pub_companions := pub_companions ?p @ [oid] \<rparr>) = pub_claims i ?p + (if i \<in> {oid} then 1 else 0)" for i
    by (simp add: pub_claims_def)
  from with_pubs_update [OF assms this] show ?thesis
    by (auto simp: with_sink_def push_companion_def Let_def claim_def fun_eq_iff)
qed

lemma sink_ok_push:
  assumes "sink_ok sink" and "entry < length (sk_published sink)"
  shows "sink_ok (push_companion entry oid sink)"
  unfolding push_companion_def Let_def
proof (rule sink_ok_same_pubs [OF assms(1)])
  have "pb_buffers (pub_buffers (sk_published sink ! entry)) = ([], [])"
    using assms by (simp add: sink_ok_def list_all_length)
  then show "list_all (\<lambda>p. pb_buffers (pub_buffers p) = ([], []))
     ((sk_published sink)[entry := (sk_published sink ! entry) \<lparr> pub_companions := pub_companions (sk_published sink ! entry) @ [oid] \<rparr>])"
    using assms by (auto simp: sink_ok_def list_all_length nth_list_update)
qed (simp add: map_update list_update_same_conv assms(2))

lemma push_companion_simps [simp]:
  "length (sk_published (push_companion entry oid sink)) = length (sk_published sink)"
  "sk_owner (push_companion entry oid sink) = sk_owner sink" "sk_joined (push_companion entry oid sink) = sk_joined sink"
  by (simp_all add: push_companion_def Let_def)

lemma claimed_companion:
  assumes "entry < length (sk_published sink)" and "oid \<in> set (pub_companions (sk_published sink ! entry))"
  shows "1 \<le> with_sink sink f (sk_owner sink) oid"
proof -
  have "1 \<le> pub_claims oid (sk_published sink ! entry)"
    using assms(2) count_list_0_iff [of "pub_companions (sk_published sink ! entry)" oid] by (simp add: pub_claims_def)
  also have "\<dots> \<le> sum_list (map (pub_claims oid) (sk_published sink))"
    using elem_le_sum_list [of entry "map (pub_claims oid) (sk_published sink)"] assms(1) by simp
  finally show ?thesis by (simp add: with_sink_def with_pubs_def)
qed

lemma claimed_instance:
  assumes "entry < length (sk_published sink)"
  shows "1 \<le> with_sink sink f (sk_owner sink) (pub_oid (sk_published sink ! entry))"
proof -
  have "1 \<le> pub_claims (pub_oid (sk_published sink ! entry)) (sk_published sink ! entry)" by (simp add: pub_claims_def)
  also have "\<dots> \<le> sum_list (map (pub_claims (pub_oid (sk_published sink ! entry))) (sk_published sink))"
    using elem_le_sum_list [of entry "map (pub_claims (pub_oid (sk_published sink ! entry))) (sk_published sink)"] assms by simp
  finally show ?thesis by (simp add: with_sink_def with_pubs_def)
qed

text \<open>What one operation of a sink keeps, whatever the other sinks claim.\<close>

definition keeps :: "claims \<Rightarrow> SnmpAgentSink \<Rightarrow> SnmpAgentSink \<times> MibTable \<Rightarrow> bool" where
  "keeps f sink after \<longleftrightarrow> balanced (with_sink (fst after) f) (snd after) \<and> sink_ok (fst after) \<and> same_sink sink (fst after)"

lemma keeps_same: "keeps f a x \<Longrightarrow> same_sink b a \<Longrightarrow> keeps f b x"
  by (simp add: keeps_def same_sink_def)

lemma publish_companions_keeps:
  assumes "balanced (with_sink sink f) table" and "sink_ok sink" and "entry < length (sk_published sink)"
  shows "keeps f sink (snd (publish_companions entry cs sink table))"
  using assms
proof (induction entry cs sink table rule: publish_companions.induct)
  case (2 entry c cs sink table)
  have stop: "keeps f sink (sink, table)" using "2.prems" by (simp add: keeps_def same_sink_def)
  show ?case
  proof (cases "instance_oid (cp_varbind c)")
    case (Inr oid)
    let ?first = "oid \<notin> set (pub_companions (sk_published sink ! entry))"
    show ?thesis
    proof (cases "publish (sk_owner sink) oid (cp_varbind c) ?first table")
      case (Inl e)
      then show ?thesis using stop Inr by (auto simp: Let_def split: sum.split)
    next
      case p: (Inr table')
      show ?thesis
      proof (cases ?first)
        case True
        show ?thesis
        proof (cases "object_of oid (cp_index_arcs c)")
          case (Inl e)
          then show ?thesis using stop Inr True by (simp add: Let_def)
        next
          case object: (Inr object)
          let ?sink = "push_companion entry oid sink"
          have "balanced (with_sink ?sink f) (register_object object table')"
            using balanced_publish_first [OF "2.prems"(1), of "sk_owner sink" oid "cp_varbind c" table'] p True
            by (simp add: with_sink_push [OF "2.prems"(3)] balanced_register)
          moreover have "sink_ok ?sink" using sink_ok_push [OF "2.prems"(2,3)] .
          ultimately have "keeps f ?sink (snd (publish_companions entry cs ?sink (register_object object table')))"
            using "2.IH"(2) [OF Inr refl _ p refl] "2.prems"(3) True object by simp
          then have "keeps f sink (snd (publish_companions entry cs ?sink (register_object object table')))"
            by (rule keeps_same) (simp add: same_sink_def)
          then show ?thesis using Inr p True object by (simp add: Let_def)
        qed
      next
        case False
        have "balanced (with_sink sink f) table'"
          using balanced_publish_again [OF "2.prems"(1) claimed_companion [OF "2.prems"(3), of oid f]] p False by simp
        then show ?thesis
          using "2.IH"(1) [OF Inr refl _ p refl] "2.prems"(2,3) Inr p False by (simp add: Let_def)
      qed
    qed
  qed (use stop in simp)
qed (simp add: keeps_def same_sink_def)

lemma overwrite_companions_balanced: "balanced f table \<Longrightarrow> balanced f (snd (overwrite_companions cs table))"
  by (induction cs arbitrary: table) (auto simp: balanced_overwrite split: sum.split)

lemma write_joined_keeps:
  assumes "balanced (with_sink sink f) table" and "sink_ok sink"
  shows "keeps f sink (snd (write_joined record sink table))"
  using assms balanced_overwrite [OF assms(1)]
    overwrite_companions_balanced [OF balanced_overwrite [OF assms(1)]]
  by (auto simp: write_joined_def keeps_def same_sink_def Let_def split: sum.split prod.split) (metis snd_conv)+

lemma write_first_keeps:
  assumes "balanced (with_sink sink f) table" and "sink_ok sink" and "\<not> sk_joined sink" and "sk_instances sink oid = None"
  shows "keeps f sink (snd (write_first key oid record sink table))"
proof -
  have stop: "keeps f sink (sink, table)" using assms(1,2) by (simp add: keeps_def same_sink_def)
  obtain stored buffers where fr: "frozen (rec_varbind record) PublishBuffers_default = (stored, buffers)"
    by (cases "frozen (rec_varbind record) PublishBuffers_default")
  have buf: "pb_buffers buffers = ([], [])"
    using frozen_eq [of PublishBuffers_default "rec_varbind record"] fr by (simp add: PublishBuffers_default_def)
  show ?thesis
  proof (cases "object_of oid (rec_index_arcs record)")
    case (Inl e)
    then show ?thesis using stop by (simp add: write_first_def)
  next
    case (Inr object)
    show ?thesis
    proof (cases "publish (sk_owner sink) oid stored True table")
      case (Inl e)
      then show ?thesis using stop Inr fr by (simp add: write_first_def)
    next
      case p: (Inr table')
      let ?n = "length (sk_published sink)"
      let ?p = "\<lparr> pub_oid = oid, pub_buffers = buffers, pub_companions = [] \<rparr>"
      let ?sink = "sink \<lparr> sk_published := sk_published sink @ [?p], sk_instances := (sk_instances sink)(oid \<mapsto> ?n),
         sk_owned := (sk_owned sink)(key \<mapsto> ?n), sk_last_delivered := True \<rparr>"
      have "with_sink ?sink f = claim (sk_owner sink) oid (with_sink sink f)"
        by (auto simp: with_sink_def with_pubs_def claim_def pub_claims_def fun_eq_iff)
      then have "balanced (with_sink ?sink f) (register_object object table')"
        using balanced_register [OF balanced_publish_first [OF assms(1) p]] by simp
      moreover have "sink_ok ?sink"
        using assms(2-4) buf unfolding sink_ok_def by (auto simp: nth_append less_Suc_eq)
      ultimately have "keeps f ?sink (snd (publish_companions ?n (companions_list (rec_companions record)) ?sink (register_object object table')))"
        by (rule publish_companions_keeps) simp
      then have "keeps f sink (snd (publish_companions ?n (companions_list (rec_companions record)) ?sink (register_object object table')))"
        by (rule keeps_same) (simp add: same_sink_def)
      then show ?thesis using Inr fr p by (simp add: write_first_def Let_def)
    qed
  qed
qed

lemma write_again_keeps:
  assumes "balanced (with_sink sink f) table" and "sink_ok sink" and "entry < length (sk_published sink)"
  shows "keeps f sink (snd (write_again entry record sink table))"
proof -
  let ?p = "sk_published sink ! entry"
  obtain stored buffers where fr: "frozen (rec_varbind record) (pub_buffers ?p) = (stored, buffers)"
    by (cases "frozen (rec_varbind record) (pub_buffers ?p)")
  have buf: "pb_buffers buffers = ([], [])"
    using frozen_eq [of "pub_buffers ?p" "rec_varbind record"] fr assms(2,3) by (simp add: sink_ok_def list_all_length)
  define sink1 where "sink1 = sink \<lparr> sk_published := (sk_published sink)[entry := ?p \<lparr> pub_buffers := buffers \<rparr>] \<rparr>"
  have ok: "sink_ok sink1"
    unfolding sink1_def
  proof (rule sink_ok_same_pubs [OF assms(2)])
    show "list_all (\<lambda>p. pb_buffers (pub_buffers p) = ([], [])) ((sk_published sink)[entry := ?p \<lparr> pub_buffers := buffers \<rparr>])"
      using assms(2,3) buf by (auto simp: sink_ok_def list_all_length nth_list_update)
  qed (simp add: map_update list_update_same_conv assms(3))
  have "with_pubs (sk_owner sink) ((sk_published sink)[entry := ?p \<lparr> pub_buffers := buffers \<rparr>]) f = with_pubs (sk_owner sink) (sk_published sink) f"
    using with_pubs_update [OF assms(3), of "?p \<lparr> pub_buffers := buffers \<rparr>" "{}" "sk_owner sink" f] by (simp add: pub_claims_def)
  then have w: "with_sink sink1 f = with_sink sink f" by (simp add: with_sink_def sink1_def)
  have s: "same_sink sink sink1" "sk_owner sink1 = sk_owner sink" "length (sk_published sink1) = length (sk_published sink)"
    by (simp_all add: same_sink_def sink1_def)
  have eq: "write_again entry record sink table =
    (case publish (sk_owner sink1) (pub_oid ?p) stored False table of
           Inl e \<Rightarrow> (Inl (PublishRefused e), sink1, table)
         | Inr table \<Rightarrow>
             let sink = sink1 \<lparr> sk_last_delivered := True \<rparr>
             in if Companions_len (rec_companions record) > 0
                then publish_companions entry (companions_list (rec_companions record)) sink table
                else (Inr (), sink, table))"
    unfolding write_again_def fr Let_def prod.case sink1_def by (auto split: sum.split)
  show ?thesis
  proof (cases "publish (sk_owner sink1) (pub_oid ?p) stored False table")
    case (Inl e)
    then show ?thesis using eq assms(1) ok w s by (simp add: keeps_def)
  next
    case (Inr table')
    have b: "balanced (with_sink sink f) table'"
      using balanced_publish_again [OF assms(1) claimed_instance [OF assms(3)]] Inr s(2) by simp
    have "keeps f (sink1 \<lparr> sk_last_delivered := True \<rparr>)
       (snd (publish_companions entry (companions_list (rec_companions record)) (sink1 \<lparr> sk_last_delivered := True \<rparr>) table'))"
      using b ok w s(3) assms(3) by (intro publish_companions_keeps) simp_all
    then have "keeps f sink
       (snd (publish_companions entry (companions_list (rec_companions record)) (sink1 \<lparr> sk_last_delivered := True \<rparr>) table'))"
      by (rule keeps_same) (use s(1) in \<open>simp add: same_sink_def\<close>)
    then show ?thesis using eq Inr b ok w s by (simp add: Let_def keeps_def same_sink_def)
  qed
qed

lemma write_metric_event_keeps:
  assumes "balanced (with_sink sink f) table" and "sink_ok sink"
  shows "keeps f sink (snd (write_metric_event serving event encoded sink table))"
proof -
  define sink1 where "sink1 = sink \<lparr> sk_last_delivered := False \<rparr>"
  have b: "balanced (with_sink sink1 f) table" and ok: "sink_ok sink1" and s: "same_sink sink sink1"
    using assms by (simp_all add: sink1_def same_sink_def)
  have stop: "keeps f sink1 (sink1, table)" using b ok by (simp add: keeps_def same_sink_def)
  have owned: "entry < length (sk_published sink1)" if "sk_owned sink1 key = Some entry" for key entry
    using ok that unfolding sink_ok_def by blast
  have again: "keeps f sink1 (snd (write_again entry rcd (sink1 \<lparr> sk_owned := (sk_owned sink1)(key \<mapsto> entry) \<rparr>) table))"
    if "sk_instances sink1 oid = Some entry" for oid entry rcd key
  proof -
    let ?sink = "sink1 \<lparr> sk_owned := (sk_owned sink1)(key \<mapsto> entry) \<rparr>"
    have "sink_ok ?sink" "entry < length (sk_published ?sink)" using ok that by (auto simp: sink_ok_def)
    then have "keeps f ?sink (snd (write_again entry rcd ?sink table))" using b by (intro write_again_keeps) simp_all
    then show ?thesis by (rule keeps_same) (simp add: same_sink_def)
  qed
  have "keeps f sink1 (snd (write_metric_event serving event encoded sink table))"
    unfolding write_metric_event_def sink1_def [symmetric] Let_def
    using stop write_joined_keeps [OF b ok] write_again_keeps [OF b ok] write_first_keeps [OF b ok] owned again
    by (auto split: sum.split option.split)
  then show ?thesis using s by (rule keeps_same)
qed

lemma release_companions_balanced:
  "balanced (\<lambda>o' i. f o' i + (if o' = owner then count_list oids i else 0)) table \<Longrightarrow> balanced f (fold (release owner) oids table)"
proof (induction oids arbitrary: table)
  case (Cons oid oids)
  let ?g = "\<lambda>o' i. f o' i + (if o' = owner then count_list oids i else 0)"
  have "(\<lambda>o' i. f o' i + (if o' = owner then count_list (oid # oids) i else 0)) = claim owner oid ?g"
    by (auto simp: claim_def fun_eq_iff)
  then show ?case using Cons.IH [of "release owner oid table"] Cons.prems balanced_release [of owner oid ?g table] by simp
qed (simp cong: if_cong)

lemma drop_sink_balanced:
  assumes "balanced (with_sink sink f) table"
  shows "balanced f (drop_sink sink table)"
proof -
  have "balanced (with_pubs owner ps f) table \<Longrightarrow> balanced f (fold (release_publication owner) ps table)" for owner ps table
  proof (induction ps arbitrary: table)
    case (Cons p ps)
    let ?g = "with_pubs owner ps f"
    have "with_pubs owner (p # ps) f = claim owner (pub_oid p) (\<lambda>o' i. ?g o' i + (if o' = owner then count_list (pub_companions p) i else 0))"
      by (auto simp: with_pubs_def claim_def pub_claims_def fun_eq_iff)
    then have "balanced ?g (release_publication owner p table)"
      using Cons.prems release_companions_balanced [OF balanced_release] by (simp add: release_publication_def)
    then show ?case using Cons.IH by simp
  qed (simp add: with_pubs_def cong: if_cong)
  then show ?thesis using assms by (simp add: drop_sink_def with_sink_def)
qed

end
