(* ===== verification/Snmp_World.thy ===== *)
theory Snmp_World
  imports Snmp_Sink
begin

text \<open>
  Sinks of several launches sharing one agent, as a step relation: opened, joined, written and dropped in
  any order. What the table holds in every reachable state, and what an event that was written leaves in it.
\<close>

section \<open>Sinks sharing an agent\<close>

record World =
  w_sinks :: "SnmpAgentSink list"
  w_table :: MibTable

text \<open>
  A scenario opens a sink of its launch, or joins the running agent; a sink writes an event; a sink is
  dropped. Any number of sinks, of any launches, in any order. A step is a whole call: the code takes the
  lock of the table for each operation of the call, so that calls of two sinks can also interleave inside,
  which this relation does not show.
\<close>

inductive sinks_step :: "World \<Rightarrow> World \<Rightarrow> bool" where
  sink_open: "sinks_step w (w \<lparr> w_sinks := w_sinks w @ [from_agent owner] \<rparr>)"
| sink_join: "sinks_step w (w \<lparr> w_sinks := w_sinks w @ [join_sink owner] \<rparr>)"
| sink_event: "n < length (w_sinks w) \<Longrightarrow>
     write_metric_event serving event encoded (w_sinks w ! n) (w_table w) = (r, sink, table) \<Longrightarrow>
     sinks_step w \<lparr> w_sinks = (w_sinks w)[n := sink], w_table = table \<rparr>"
| sink_dropped: "n < length (w_sinks w) \<Longrightarrow>
     sinks_step w \<lparr> w_sinks = take n (w_sinks w) @ drop (Suc n) (w_sinks w), w_table = drop_sink (w_sinks w ! n) (w_table w) \<rparr>"

inductive sinks_reach :: "MibTable \<Rightarrow> World \<Rightarrow> bool" for table where
  reach_start: "sinks_reach table \<lparr> w_sinks = [], w_table = table \<rparr>"
| reach_step: "sinks_reach table w \<Longrightarrow> sinks_step w w' \<Longrightarrow> sinks_reach table w'"

definition world_inv :: "World \<Rightarrow> bool" where
  "world_inv w \<longleftrightarrow> balanced (sinks_claims (w_sinks w)) (w_table w) \<and> list_all sink_ok (w_sinks w)"

lemma with_sink_claims: "with_sink s f o' i = f o' i + (if sk_owner s = o' then sink_claims i s else 0)"
  by (auto simp: with_sink_def with_pubs_def sink_claims_def)

lemma sinks_claims_nth:
  assumes "n < length sinks"
  shows "sinks_claims (sinks[n := s]) = with_sink s (sinks_claims (take n sinks @ drop (Suc n) sinks))"
  by (auto simp: fun_eq_iff with_sink_claims sinks_claims_def upd_conv_take_nth_drop [OF assms])

lemma sinks_claims_at:
  assumes "n < length sinks"
  shows "sinks_claims sinks = with_sink (sinks ! n) (sinks_claims (take n sinks @ drop (Suc n) sinks))"
  using sinks_claims_nth [OF assms, of "sinks ! n"] by simp

lemma sinks_claims_new [simp]:
  "sinks_claims (sinks @ [from_agent owner]) = sinks_claims sinks" "sinks_claims (sinks @ [join_sink owner]) = sinks_claims sinks"
  by (auto simp: sinks_claims_def sink_claims_def from_agent_def join_sink_def fun_eq_iff)

lemma sinks_step_inv:
  assumes "sinks_step w w'" and "world_inv w"
  shows "world_inv w'"
  using assms
proof cases
  case (sink_event n serving event encoded r sink table)
  let ?f = "sinks_claims (take n (w_sinks w) @ drop (Suc n) (w_sinks w))"
  have "balanced (with_sink (w_sinks w ! n) ?f) (w_table w)" "sink_ok (w_sinks w ! n)"
    using assms(2) sinks_claims_at [OF sink_event(2)] sink_event(2) by (simp_all add: world_inv_def list_all_length)
  then have "keeps ?f (w_sinks w ! n) (sink, table)"
    using write_metric_event_keeps [of "w_sinks w ! n" ?f "w_table w" serving event encoded] sink_event(3) by simp
  then show ?thesis
    using assms(2) sink_event(1,2) sinks_claims_nth [OF sink_event(2), of sink]
    by (auto simp: world_inv_def keeps_def list_all_length nth_list_update)
next
  case (sink_dropped n)
  then show ?thesis
    using assms(2) drop_sink_balanced [of "w_sinks w ! n" "sinks_claims (take n (w_sinks w) @ drop (Suc n) (w_sinks w))" "w_table w"]
      sinks_claims_at [OF sink_dropped(2)]
    by (auto simp: world_inv_def list_all_iff dest: in_set_takeD in_set_dropD)
qed (simp_all add: world_inv_def)

lemma sinks_reach_inv:
  assumes "sinks_reach table w" and "table_inv table" and "tab_slots table = []"
  shows "world_inv w"
  using assms(1)
proof induction
  case reach_start
  then show ?case using assms(2,3) by (auto simp: world_inv_def balanced_def sinks_claims_def btree_get_def)
qed (rule sinks_step_inv)

text \<open>The instances a sink holds: its series' and the label columns' published with them.\<close>

definition sink_oids :: "SnmpAgentSink \<Rightarrow> Oid set" where
  "sink_oids sink = (\<Union>p \<in> set (sk_published sink). insert (pub_oid p) (set (pub_companions p)))"

lemma sink_claims_pos: "1 \<le> sink_claims oid sink \<longleftrightarrow> oid \<in> sink_oids sink"
proof -
  have "(\<exists>p \<in> set ps. 1 \<le> pub_claims oid p) \<longleftrightarrow> 1 \<le> sum_list (map (pub_claims oid) ps)" for ps
    by (induction ps) auto
  moreover have "1 \<le> pub_claims oid p \<longleftrightarrow> oid \<in> insert (pub_oid p) (set (pub_companions p))" for p
    using count_list_0_iff [of "pub_companions p" oid] by (auto simp: pub_claims_def)
  ultimately show ?thesis by (auto simp: sink_claims_def sink_oids_def)
qed

lemma sinks_claims_pos: "1 \<le> sinks_claims sinks owner oid \<longleftrightarrow> (\<exists>s \<in> set sinks. sk_owner s = owner \<and> oid \<in> sink_oids s)"
  by (induction sinks) (auto simp: sinks_claims_def sink_claims_pos [symmetric])

lemma balanced_served:
  assumes "balanced (sinks_claims sinks) table"
  shows "(\<exists>slot. btree_get (tab_slots table) oid = Some slot \<and> slot_owner slot = owner)
     \<longleftrightarrow> (\<exists>s \<in> set sinks. sk_owner s = owner \<and> oid \<in> sink_oids s)"
  unfolding sinks_claims_pos [symmetric]
proof
  assume "\<exists>slot. btree_get (tab_slots table) oid = Some slot \<and> slot_owner slot = owner"
  then obtain slot where "btree_get (tab_slots table) oid = Some slot" "slot_owner slot = owner" by blast
  then show "1 \<le> sinks_claims sinks owner oid"
    using balancedD(2) [OF assms] table_invD(2) [OF balancedD(1) [OF assms], of oid slot] by fastforce
qed (rule balanced_owner [OF assms])

section \<open>What is served after a write\<close>

definition companion_oids :: "Companion list \<Rightarrow> Oid set" where
  "companion_oids cs = {oid. \<exists>c \<in> set cs. instance_oid (cp_varbind c) = Inr oid}"

lemma register_object_slots [simp]: "tab_slots (register_object object table) = tab_slots table"
  by (simp add: register_object_def)

lemma publish_companions_frame:
  assumes "table_inv table" and "entry < length (sk_published sink)"
    and "publish_companions entry cs sink table = (r, sink', table')"
  shows "sk_owned sink' = sk_owned sink \<and> map pub_oid (sk_published sink') = map pub_oid (sk_published sink)
    \<and> (\<forall>i. i \<notin> companion_oids cs \<longrightarrow> btree_get (tab_slots table') i = btree_get (tab_slots table) i)"
  using assms
proof (induction entry cs sink table arbitrary: rule: publish_companions.induct)
  case (2 entry c cs sink table)
  have sub: "companion_oids cs \<subseteq> companion_oids (c # cs)" by (auto simp: companion_oids_def)
  show ?case
  proof (cases "instance_oid (cp_varbind c)")
    case (Inr oid)
    have c: "oid \<in> companion_oids (c # cs)" using Inr by (simp add: companion_oids_def)
    let ?first = "oid \<notin> set (pub_companions (sk_published sink ! entry))"
    show ?thesis
    proof (cases "publish (sk_owner sink) oid (cp_varbind c) ?first table")
      case (Inl e)
      then show ?thesis using "2.prems" Inr by (auto simp: Let_def split: sum.splits if_splits)
    next
      case p: (Inr table1)
      note inv = table_inv_publish [OF "2.prems"(1) p] 
      have step: "btree_get (tab_slots table1) i = btree_get (tab_slots table) i" if "i \<notin> companion_oids (c # cs)" for i
        using publish_get(2) [OF "2.prems"(1) p, of i] c that by (cases "i = oid") simp_all
      show ?thesis
      proof (cases ?first)
        case True
        show ?thesis
        proof (cases "object_of oid (cp_index_arcs c)")
          case (Inl e)
          then show ?thesis using "2.prems" Inr True by (simp add: Let_def)
        next
          case object: (Inr object)
          have "sk_owned sink' = sk_owned (push_companion entry oid sink)
            \<and> map pub_oid (sk_published sink') = map pub_oid (sk_published (push_companion entry oid sink))
            \<and> (\<forall>i. i \<notin> companion_oids cs \<longrightarrow> btree_get (tab_slots table') i = btree_get (tab_slots table1) i)"
            using "2.IH"(2) [OF Inr refl _ p refl] "2.prems"(2,3) inv Inr True object p by (simp add: Let_def table_inv_register)
          then show ?thesis
            using sub step "2.prems"(2) by (auto simp: push_companion_def Let_def map_update list_update_same_conv)
        qed
      next
        case False
        then have "sk_owned sink' = sk_owned sink \<and> map pub_oid (sk_published sink') = map pub_oid (sk_published sink)
            \<and> (\<forall>i. i \<notin> companion_oids cs \<longrightarrow> btree_get (tab_slots table') i = btree_get (tab_slots table1) i)"
          using "2.IH"(1) [OF Inr refl _ p refl] "2.prems"(2,3) inv Inr p by (simp add: Let_def)
        then show ?thesis using sub step by auto
      qed
    qed
  qed (use "2.prems" in simp)
qed simp

text \<open>The instance of a series holds the varbind, under the sink's launch.\<close>

definition serves_series :: "SnmpAgentSink \<Rightarrow> MetricKey \<Rightarrow> bytes \<Rightarrow> MibTable \<Rightarrow> bool" where
  "serves_series sink key varbind table \<longleftrightarrow>
     (\<exists>entry slot. sk_owned sink key = Some entry \<and> entry < length (sk_published sink)
        \<and> btree_get (tab_slots table) (pub_oid (sk_published sink ! entry)) = Some slot
        \<and> slot_owner slot = sk_owner sink \<and> slot_varbind slot = varbind)"

lemma publish_companions_serves:
  assumes "table_inv table" and "entry < length (sk_published sink)" and "sk_owned sink key = Some entry"
    and "publish_companions entry cs sink table = (r, sink', table')"
    and "btree_get (tab_slots table) (pub_oid (sk_published sink ! entry)) = Some slot"
    and "slot_owner slot = sk_owner sink" and "sk_owner sink' = sk_owner sink"
    and "pub_oid (sk_published sink ! entry) \<notin> companion_oids cs"
  shows "serves_series sink' key (slot_varbind slot) table'"
proof -
  note frame = publish_companions_frame [OF assms(1,2,4)]
  then have len: "length (sk_published sink') = length (sk_published sink)" by (metis length_map)
  then have "pub_oid (sk_published sink' ! entry) = pub_oid (sk_published sink ! entry)"
    using frame assms(2) by (metis nth_map)
  then show ?thesis using frame len assms by (auto simp: serves_series_def)
qed

lemma write_again_serves:
  assumes b: "balanced (with_sink sink f) table" and ok: "sink_ok sink" and e: "entry < length (sk_published sink)"
    and key: "sk_owned sink key = Some entry"
    and apart: "pub_oid (sk_published sink ! entry) \<notin> companion_oids (companions_list (rec_companions rcd))"
    and w: "write_again entry rcd sink table = (r, sink', table')"
  shows "serves_series sink' key (rec_varbind rcd) table'
    \<and> (Companions_len (rec_companions rcd) = 0 \<longrightarrow> r = Inr ())"
proof -
  let ?p = "sk_published sink ! entry"
  obtain buffers where fr: "frozen (rec_varbind rcd) (pub_buffers ?p) = (rec_varbind rcd, buffers)"
    using frozen_eq [of "pub_buffers ?p" "rec_varbind rcd"] ok e
    by (cases "frozen (rec_varbind rcd) (pub_buffers ?p)") (simp add: sink_ok_def list_all_length)
  define sink1 where "sink1 = sink \<lparr> sk_published := (sk_published sink)[entry := ?p \<lparr> pub_buffers := buffers \<rparr>], sk_last_delivered := True \<rparr>"
  obtain slot0 where slot0: "btree_get (tab_slots table) (pub_oid ?p) = Some slot0" "slot_owner slot0 = sk_owner sink"
    using balanced_owner [OF b claimed_instance [OF e]] by blast
  then obtain table1 where p: "publish (sk_owner sink) (pub_oid ?p) (rec_varbind rcd) False table = Inr table1"
    by (simp add: publish_def Let_def)
  note inv = balancedD(1) [OF b]
  obtain slot where slot: "btree_get (tab_slots table1) (pub_oid ?p) = Some slot" "slot_varbind slot = rec_varbind rcd"
    "slot_owner slot = sk_owner sink"
    using publish_get(1) [OF inv p] by blast
  have s1: "sk_owner sink1 = sk_owner sink" "sk_owned sink1 key = Some entry" "entry < length (sk_published sink1)"
    "pub_oid (sk_published sink1 ! entry) = pub_oid ?p"
    using key e by (simp_all add: sink1_def)
  have w1: "(if Companions_len (rec_companions rcd) > 0
      then publish_companions entry (companions_list (rec_companions rcd)) sink1 table1 else (Inr (), sink1, table1)) = (r, sink', table')"
    using w p unfolding write_again_def by (simp add: fr Let_def sink1_def split: if_splits)
  have "sk_owner sink' = sk_owner sink"
    using write_again_keeps [OF b ok e, of rcd] w by (simp add: keeps_def same_sink_def)
  then have "serves_series sink' key (rec_varbind rcd) table'"
    using publish_companions_serves [OF table_inv_publish [OF inv p] s1(3,2), of "companions_list (rec_companions rcd)" r sink' table' slot]
      w1 slot s1 apart by (auto simp: serves_series_def split: if_splits)
  then show ?thesis using w1 by (auto split: if_splits)
qed

lemma write_first_serves:
  assumes b: "balanced (with_sink sink f) table" and ok: "sink_ok sink" and "\<not> sk_joined sink" and "sk_instances sink oid = None"
    and apart: "oid \<notin> companion_oids (companions_list (rec_companions rcd))"
    and w: "write_first key oid rcd sink table = (Inr (), sink', table')"
  shows "serves_series sink' key (rec_varbind rcd) table'"
proof -
  obtain buffers where fr: "frozen (rec_varbind rcd) PublishBuffers_default = (rec_varbind rcd, buffers)"
    by (simp add: frozen_def PublishBuffers_default_def)
  obtain object table1 where o: "object_of oid (rec_index_arcs rcd) = Inr object"
    and p: "publish (sk_owner sink) oid (rec_varbind rcd) True table = Inr table1"
    using w by (auto simp: write_first_def fr split: sum.splits)
  note inv = balancedD(1) [OF b]
  obtain slot where slot: "btree_get (tab_slots table1) oid = Some slot" "slot_varbind slot = rec_varbind rcd"
    "slot_owner slot = sk_owner sink"
    using publish_get(1) [OF inv p] by blast
  let ?n = "length (sk_published sink)"
  define sink1 where "sink1 = sink \<lparr> sk_published := sk_published sink @ [\<lparr> pub_oid = oid, pub_buffers = buffers, pub_companions = [] \<rparr>],
     sk_instances := (sk_instances sink)(oid \<mapsto> ?n), sk_owned := (sk_owned sink)(key \<mapsto> ?n), sk_last_delivered := True \<rparr>"
  have w1: "publish_companions ?n (companions_list (rec_companions rcd)) sink1 (register_object object table1) = (Inr (), sink', table')"
    using w p o by (simp add: write_first_def fr Let_def sink1_def)
  have owner: "sk_owner sink' = sk_owner sink"
    using write_first_keeps [OF b ok assms(3,4), of key rcd] w by (simp add: keeps_def same_sink_def)
  show ?thesis
    using publish_companions_serves [OF table_inv_register [OF table_inv_publish [OF inv p]] _ _ w1, of key slot] slot apart owner
    by (simp add: sink1_def)
qed

text \<open>No companion of the record names an instance of a series.\<close>

definition companions_apart :: "SnmpAgentSink \<Rightarrow> Record \<Rightarrow> bool" where
  "companions_apart sink rcd \<longleftrightarrow>
     (\<forall>oid \<in> companion_oids (companions_list (rec_companions rcd)).
        oid \<notin> pub_oid ` set (sk_published sink) \<and> instance_oid (rec_varbind rcd) \<noteq> Inr oid)"

lemma write_metric_event_serves:
  assumes b: "balanced (with_sink sink f) table" and ok: "sink_ok sink" and "\<not> sk_joined sink"
    and s: "split_record encoded = Inr rcd" and apart: "companions_apart sink rcd"
    and w: "write_metric_event serving event encoded sink table = (Inr (), sink', table')"
  shows "serves_series sink' (ev_name event, ev_labels event) (rec_varbind rcd) table'"
proof -
  define sink1 where "sink1 = sink \<lparr> sk_last_delivered := False \<rparr>"
  let ?key = "(ev_name event, ev_labels event)"
  have b1: "balanced (with_sink sink1 f) table" and ok1: "sink_ok sink1" and j1: "\<not> sk_joined sink1"
    using assms(1-3) by (simp_all add: sink1_def)
  have pubs: "pub_oid (sk_published sink1 ! entry) \<notin> companion_oids (companions_list (rec_companions rcd))"
    if "entry < length (sk_published sink1)" for entry
  proof -
    have "pub_oid (sk_published sink1 ! entry) \<in> pub_oid ` set (sk_published sink)" using that by (simp add: sink1_def)
    then show ?thesis using apart by (auto simp: companions_apart_def)
  qed
  have w1: "(case sk_owned sink1 ?key of
       Some entry \<Rightarrow> write_again entry rcd sink1 table
     | None \<Rightarrow> (case instance_oid (rec_varbind rcd) of
           Inl e \<Rightarrow> (Inl e, sink1, table)
         | Inr oid \<Rightarrow> (case sk_instances sink1 oid of
             Some entry \<Rightarrow> write_again entry rcd (sink1 \<lparr> sk_owned := (sk_owned sink1)(?key \<mapsto> entry) \<rparr>) table
           | None \<Rightarrow> write_first ?key oid rcd sink1 table))) = (Inr (), sink', table')"
    using w s j1 unfolding write_metric_event_def sink1_def [symmetric] Let_def by (auto split: if_splits)
  show ?thesis
  proof (cases "sk_owned sink1 ?key")
    case (Some entry)
    then have "entry < length (sk_published sink1)" using ok1 unfolding sink_ok_def by blast
    then show ?thesis
      using write_again_serves [OF b1 ok1 _ Some pubs] w1 Some by fastforce
  next
    case None
    then obtain oid where oid: "instance_oid (rec_varbind rcd) = Inr oid" using w1 by (auto split: sum.splits)
    show ?thesis
    proof (cases "sk_instances sink1 oid")
      case inst: None
      then show ?thesis
        using write_first_serves [OF b1 ok1 j1 inst, of rcd ?key sink' table'] w1 None oid apart
        by (auto simp: companions_apart_def)
    next
      case (Some entry)
      let ?sink = "sink1 \<lparr> sk_owned := (sk_owned sink1)(?key \<mapsto> entry) \<rparr>"
      have e: "entry < length (sk_published sink1)" using ok1 Some unfolding sink_ok_def by blast
      then have "sink_ok ?sink" using ok1 by (auto simp: sink_ok_def)
      then show ?thesis
        using write_again_serves [of ?sink f table entry ?key rcd "Inr ()" sink' table'] b1 e pubs [OF e] w1 None oid Some by simp
    qed
  qed
qed

section \<open>Properties\<close>

text \<open>
  C31. An instance is in the agent's table, under a launch, exactly while a live sink of that launch holds
  it: as the instance of one of its series, or of a label column published with one. So no two launches
  hold one instance, an instance outlives every sink but its last, and nothing of a launch is left when
  its last sink is dropped, whatever writes failed in between.
\<close>

theorem served_while_published:
  assumes "sinks_reach table w" and "table_inv table" and "tab_slots table = []"
  shows "(\<exists>slot. btree_get (tab_slots (w_table w)) oid = Some slot \<and> slot_owner slot = owner)
     \<longleftrightarrow> (\<exists>sink \<in> set (w_sinks w). sk_owner sink = owner \<and> oid \<in> sink_oids sink)"
  using sinks_reach_inv [OF assms] unfolding world_inv_def by (intro balanced_served) blast

text \<open>
  After an event is written without an error by a sink that did not join, the instance of its series
  holds exactly the varbind of the record, under the sink's launch, provided no companion of the record
  names an instance of a series of the sink.
\<close>

lemma delivered_is_served:
  assumes "sinks_reach table w" and "table_inv table" and "tab_slots table = []"
    and "n < length (w_sinks w)" and "\<not> sk_joined (w_sinks w ! n)"
    and "split_record encoded = Inr rcd" and "companions_apart (w_sinks w ! n) rcd"
    and "write_metric_event serving event encoded (w_sinks w ! n) (w_table w) = (Inr (), sink', table')"
  shows "serves_series sink' (ev_name event, ev_labels event) (rec_varbind rcd) table'"
proof -
  have inv: "world_inv w" by (rule sinks_reach_inv [OF assms(1-3)])
  then have "balanced (with_sink (w_sinks w ! n) (sinks_claims (take n (w_sinks w) @ drop (Suc n) (w_sinks w)))) (w_table w)"
    "sink_ok (w_sinks w ! n)"
    using sinks_claims_at [OF assms(4)] assms(4) by (simp_all add: world_inv_def list_all_length)
  then show ?thesis using assms(5-8) by (rule write_metric_event_serves)
qed

definition example_event :: MetricEvent where
  "example_event = \<lparr> ev_name = ''up'', ev_value = 0, ev_labels = [], ev_timestamp = 0 \<rparr>"

definition example_record :: bytes where
  "example_record = [1, 0, 48, 11, 6, 6, 43, 6, 1, 4, 1, 9, 66, 1, 5]"

definition example_table :: MibTable where
  "example_table = \<lparr> tab_slots = [], tab_objects = {} \<rparr>"

lemma example_table_ok: "table_inv example_table" "tab_slots example_table = []"
  by (simp_all add: example_table_def table_inv_def btree_get_def)

lemma example_split: "split_record example_record = Inr \<lparr> rec_index_arcs = 1, rec_varbind = drop 2 example_record,
    rec_companions = \<lparr> cs_rest = [], cs_left = 0 \<rparr> \<rparr>"
  by (simp add: example_record_def split_record_def split_varbind_def expect_def raw_tlv_def Tag_from_byte_def Let_def)

lemma example_oid: "instance_oid (drop 2 example_record) = Inr (Oid [1, 3, 6, 1, 4, 1, 9])"
  by (simp add: instance_oid_def example_record_def expect_def raw_tlv_def Tag_from_byte_def read_oid_def Oid_from_ber_body_def
     decode_ber_body_def u32_try_from_def Oid_from_arcs_def)

lemma no_companions: "companions_list \<lparr> cs_rest = [], cs_left = 0 \<rparr> = []"
  by (simp add: companions_list.simps Companions_next_def)

lemma example_write:
  "\<exists>sink table. write_metric_event True example_event example_record (from_agent 1) example_table = (Inr (), sink, table)
     \<and> sk_owner sink = 1 \<and> sink_oids sink = {Oid [1, 3, 6, 1, 4, 1, 9]}"
  by (simp add: write_metric_event_def example_split Let_def example_oid write_first_def frozen_def PublishBuffers_default_def
      from_agent_def object_of_def Oid_from_arcs_def publish_def example_table_def btree_get_def SYSTEM_GROUP_def starts_with_def
      no_companions sink_oids_def)

lemma example_world: "sinks_reach example_table \<lparr> w_sinks = [from_agent 1], w_table = example_table \<rparr>"
  using reach_step [OF reach_start sink_open [of "\<lparr> w_sinks = [], w_table = example_table \<rparr>" 1]] by simp

theorem served_while_published_witness:
  "\<exists>w slot. sinks_reach example_table w \<and> btree_get (tab_slots (w_table w)) (Oid [1, 3, 6, 1, 4, 1, 9]) = Some slot
     \<and> slot_owner slot = 1"
proof -
  obtain sink table where w: "write_metric_event True example_event example_record (from_agent 1) example_table = (Inr (), sink, table)"
    "sk_owner sink = 1" "sink_oids sink = {Oid [1, 3, 6, 1, 4, 1, 9]}"
    using example_write by blast
  have r: "sinks_reach example_table \<lparr> w_sinks = [sink], w_table = table \<rparr>"
    using reach_step [OF example_world sink_event [of 0 _ True example_event example_record "Inr ()" sink table]] w(1) by simp
  show ?thesis
    using r served_while_published [OF r example_table_ok, of "Oid [1, 3, 6, 1, 4, 1, 9]" 1] w(2,3) by auto
qed

lemma delivered_is_served_witness:
  "\<exists>sink table. write_metric_event True example_event example_record (from_agent 1) example_table = (Inr (), sink, table)
     \<and> serves_series sink (''up'', []) (drop 2 example_record) table"
proof -
  obtain sink table where w: "write_metric_event True example_event example_record (from_agent 1) example_table = (Inr (), sink, table)"
    using example_write by blast
  show ?thesis
    using delivered_is_served [OF example_world example_table_ok _ _ example_split, of 0 True example_event sink table] w
    by (auto simp: from_agent_def companions_apart_def companion_oids_def no_companions example_event_def)
qed

end
