(* ===== verification/Listener.thy ===== *)
theory Listener
  imports Socket
begin

text \<open>
  The listener registry (\<open>sink/listener_registry.rs\<close>): a map from the address a target listens on to the
  target, shared by every sink that names the address. A target is an element of a heap: how many handles
  to it exist, whether its task runs, and whether its socket is open. \<open>acquire\<close> awaits several times, so it
  is a step relation: any number of acquires run at once, handles drop, tasks end and sockets close between
  their steps. The settings of a target and \<open>serves\<close> are parameters, as in the trait \<open>ListenerTarget\<close>.
\<close>

section \<open>Targets and entries\<close>

record 'cfg Target =
  tg_addr :: SocketAddr
  tg_cfg :: 'cfg
  tg_handles :: nat
  tg_running :: bool
  tg_open :: bool

text \<open>An entry holds a weak handle and the state of the target's socket, both by the target's place in the heap.\<close>

record Entry =
  le_target :: nat
  le_socket :: nat

type_synonym 'cfg heap = "'cfg Target list"
type_synonym registry = "(SocketAddr \<times> Entry) list"

definition target_live :: "'cfg heap \<Rightarrow> nat \<Rightarrow> bool" where
  "target_live heap t \<longleftrightarrow> t < length heap \<and> 0 < tg_handles (heap ! t) \<and> tg_running (heap ! t)"

definition entry_live :: "'cfg heap \<Rightarrow> Entry \<Rightarrow> nat option" where
  "entry_live heap e = (if target_live heap (le_target e) then Some (le_target e) else None)"

definition socket_open :: "'cfg heap \<Rightarrow> nat \<Rightarrow> bool" where
  "socket_open heap s \<longleftrightarrow> s < length heap \<and> tg_open (heap ! s)"

definition entry_releasing :: "'cfg heap \<Rightarrow> Entry \<Rightarrow> bool" where
  "entry_releasing heap e \<longleftrightarrow> entry_live heap e = None \<and> socket_open heap (le_socket e)"

section \<open>Operations on the map\<close>

datatype registry_error =
    OtherSettings SocketAddr
  | Contended SocketAddr SocketAddr
  | NoListener SocketAddr
  | BindFailed

definition registry_live :: "'cfg heap \<Rightarrow> registry \<Rightarrow> SocketAddr \<Rightarrow> nat option" where
  "registry_live heap reg addr = Option.bind (map_of reg addr) (entry_live heap)"

definition registry_serving :: "'cfg heap \<Rightarrow> registry \<Rightarrow> SocketAddr \<Rightarrow> nat option" where
  "registry_serving heap reg addr =
     (case registry_live heap reg addr of
        Some t \<Rightarrow> Some t
      | None \<Rightarrow>
          (case List.map_filter (\<lambda>(wild, e). if covers wild addr then entry_live heap e else None) reg of
             t # _ \<Rightarrow> Some t
           | [] \<Rightarrow> None))"

definition contending :: "'cfg heap \<Rightarrow> registry \<Rightarrow> SocketAddr \<Rightarrow> SocketAddr option" where
  "contending heap reg addr =
     map_option fst (List.find (\<lambda>(other, e). other \<noteq> addr \<and> listen_overlap other addr \<and> entry_live heap e \<noteq> None) reg)"

definition check_contending :: "'cfg heap \<Rightarrow> registry \<Rightarrow> SocketAddr \<Rightarrow> registry_error + unit" where
  "check_contending heap reg listen =
     (case contending heap reg listen of Some running \<Rightarrow> Inl (Contended listen running) | None \<Rightarrow> Inr ())"

definition registry_releasing :: "'cfg heap \<Rightarrow> registry \<Rightarrow> SocketAddr \<Rightarrow> bool" where
  "registry_releasing heap reg listen \<longleftrightarrow> list_ex (\<lambda>(addr, e). listen_overlap addr listen \<and> entry_releasing heap e) reg"

definition check_settings :: "('cfg \<Rightarrow> 'cfg \<Rightarrow> bool) \<Rightarrow> 'cfg heap \<Rightarrow> nat \<Rightarrow> 'cfg \<Rightarrow> registry_error + nat" where
  "check_settings serves heap t wanted =
     (if serves (tg_cfg (heap ! t)) wanted then Inr t else Inl (OtherSettings (tg_addr (heap ! t))))"

definition registry_check ::
  "('cfg \<Rightarrow> 'cfg \<Rightarrow> bool) \<Rightarrow> 'cfg heap \<Rightarrow> registry \<Rightarrow> 'cfg \<Rightarrow> SocketAddr \<Rightarrow> registry_error + unit" where
  "registry_check serves heap reg cfg listen =
     (if sa_port listen = 0 then Inr ()
      else case registry_live heap reg listen of
             Some t \<Rightarrow> rbind (check_settings serves heap t cfg) (\<lambda>_. Inr ())
           | None \<Rightarrow> check_contending heap reg listen)"

definition registry_join ::
  "('cfg \<Rightarrow> 'cfg \<Rightarrow> bool) \<Rightarrow> 'cfg heap \<Rightarrow> registry \<Rightarrow> SocketAddr \<Rightarrow> ('cfg Target \<Rightarrow> 'cfg) \<Rightarrow> registry_error + nat" where
  "registry_join serves heap reg listen wanted =
     (case (if sa_port listen \<noteq> 0 then registry_serving heap reg listen else None) of
        None \<Rightarrow> Inl (NoListener listen)
      | Some t \<Rightarrow> check_settings serves heap t (wanted (heap ! t)))"

definition registry_len :: "'cfg heap \<Rightarrow> registry \<Rightarrow> nat" where
  "registry_len heap reg = length (filter (\<lambda>(_, e). entry_live heap e \<noteq> None) reg)"

definition registry_is_empty :: "'cfg heap \<Rightarrow> registry \<Rightarrow> bool" where
  "registry_is_empty heap reg \<longleftrightarrow> registry_len heap reg = 0"

text \<open>The sockets \<open>released\<close> waits for.\<close>

definition releasing_sockets :: "'cfg heap \<Rightarrow> registry \<Rightarrow> SocketAddr \<Rightarrow> nat list" where
  "releasing_sockets heap reg listen =
     map (\<lambda>(_, e). le_socket e) (filter (\<lambda>(addr, e). listen_overlap addr listen \<and> entry_releasing heap e) reg)"

text \<open>After a bind: stale entries are pruned and the target is entered under the address it bound.\<close>

definition register_target :: "'cfg heap \<Rightarrow> nat \<Rightarrow> registry \<Rightarrow> registry" where
  "register_target heap t reg =
     (tg_addr (heap ! t), \<lparr> le_target = t, le_socket = t \<rparr>)
       # filter (\<lambda>(addr, e). addr \<noteq> tg_addr (heap ! t) \<and> (entry_live heap e \<noteq> None \<or> entry_releasing heap e)) reg"

section \<open>Acquires\<close>

text \<open>
  Where an acquire is: waiting for sockets to close, for the bind lock, then under the lock before each look
  at the map (\<open>live\<close>, \<open>check_contending\<close>, \<open>releasing\<close>), binding, and returned.
\<close>

datatype acquire_at =
    AtReleased "nat list" | AtLock | AtLive | AtContending | AtReleasing | AtBind

datatype 'cfg acquire =
    Acquiring 'cfg SocketAddr nat acquire_at
  | Acquired 'cfg SocketAddr "registry_error + nat"

definition RELEASE_TIMEOUT :: nat where "RELEASE_TIMEOUT = 2000"

record 'cfg Registry =
  rg_heap :: "'cfg heap"
  rg_map :: registry
  rg_binding :: "nat option"
  rg_acquires :: "nat \<rightharpoonup> 'cfg acquire"
  rg_now :: nat

definition holds_lock :: "acquire_at \<Rightarrow> bool" where
  "holds_lock at \<longleftrightarrow> at \<in> {AtLive, AtContending, AtReleasing, AtBind}"

definition moved :: "nat \<Rightarrow> 'cfg acquire \<Rightarrow> 'cfg Registry \<Rightarrow> 'cfg Registry" where
  "moved a acq s = s \<lparr> rg_acquires := (rg_acquires s)(a \<mapsto> acq) \<rparr>"

definition cloned :: "nat \<Rightarrow> 'cfg heap \<Rightarrow> 'cfg heap" where
  "cloned t heap = heap[t := (heap ! t) \<lparr> tg_handles := tg_handles (heap ! t) + 1 \<rparr>]"

definition unlocked :: "'cfg Registry \<Rightarrow> 'cfg Registry" where
  "unlocked s = s \<lparr> rg_binding := None \<rparr>"

text \<open>One step of the acquire \<open>a\<close> under the bind lock, up to the bind.\<close>

definition under_lock ::
  "('cfg \<Rightarrow> 'cfg \<Rightarrow> bool) \<Rightarrow> nat \<Rightarrow> 'cfg \<Rightarrow> SocketAddr \<Rightarrow> nat \<Rightarrow> acquire_at \<Rightarrow> 'cfg Registry \<Rightarrow> 'cfg Registry" where
  "under_lock serves a cfg listen deadline at s =
     (case at of
        AtLive \<Rightarrow>
          if sa_port listen = 0 then moved a (Acquiring cfg listen deadline AtBind) s
          else (case registry_live (rg_heap s) (rg_map s) listen of
                  Some t \<Rightarrow>
                    let r = check_settings serves (rg_heap s) t cfg;
                        heap = (case r of Inr t \<Rightarrow> cloned t (rg_heap s) | Inl _ \<Rightarrow> rg_heap s)
                    in moved a (Acquired cfg listen r) (unlocked (s \<lparr> rg_heap := heap \<rparr>))
                | None \<Rightarrow> moved a (Acquiring cfg listen deadline AtContending) s)
      | AtContending \<Rightarrow>
          (case check_contending (rg_heap s) (rg_map s) listen of
             Inl e \<Rightarrow> moved a (Acquired cfg listen (Inl e)) (unlocked s)
           | Inr _ \<Rightarrow> moved a (Acquiring cfg listen deadline AtReleasing) s)
      | AtReleasing \<Rightarrow>
          if registry_releasing (rg_heap s) (rg_map s) listen \<and> rg_now s < deadline
          then moved a (Acquiring cfg listen deadline
                 (AtReleased (releasing_sockets (rg_heap s) (rg_map s) listen))) (unlocked s)
          else moved a (Acquiring cfg listen deadline AtBind) s
      | _ \<Rightarrow> s)"

text \<open>
  What binding gives: \<open>addr\<close> is the listen address, or, for port 0, an address the system chose, which
  overlaps no open socket.
\<close>

definition bound_addr :: "'cfg heap \<Rightarrow> SocketAddr \<Rightarrow> SocketAddr \<Rightarrow> bool" where
  "bound_addr heap listen addr \<longleftrightarrow>
     (if sa_port listen \<noteq> 0 then addr = listen
      else sa_ip addr = sa_ip listen \<and> sa_port addr \<noteq> 0
        \<and> list_all (\<lambda>t. tg_open t \<longrightarrow> \<not> listen_overlap (tg_addr t) addr) heap)"

definition bind_target :: "nat \<Rightarrow> 'cfg \<Rightarrow> SocketAddr \<Rightarrow> SocketAddr \<Rightarrow> 'cfg Registry \<Rightarrow> 'cfg Registry" where
  "bind_target a cfg listen addr s =
     (let t = length (rg_heap s);
          heap = rg_heap s @ [\<lparr> tg_addr = addr, tg_cfg = cfg, tg_handles = 1, tg_running = True, tg_open = True \<rparr>];
          s = s \<lparr> rg_heap := heap, rg_map := register_target heap t (rg_map s) \<rparr>
      in moved a (Acquired cfg listen (Inr t)) (unlocked s))"

inductive registry_step :: "('cfg \<Rightarrow> 'cfg \<Rightarrow> bool) \<Rightarrow> 'cfg Registry \<Rightarrow> 'cfg Registry \<Rightarrow> bool" for serves where
  acquire_starts: "rg_acquires s a = None \<Longrightarrow>
     sockets = (if sa_port listen = 0 then [] else releasing_sockets (rg_heap s) (rg_map s) listen) \<Longrightarrow>
     registry_step serves s (moved a (Acquiring cfg listen (rg_now s + RELEASE_TIMEOUT) (AtReleased sockets)) s)"
| acquire_released: "rg_acquires s a = Some (Acquiring cfg listen deadline (AtReleased sockets)) \<Longrightarrow>
     list_all (\<lambda>t. \<not> socket_open (rg_heap s) t) sockets \<or> deadline \<le> rg_now s \<Longrightarrow>
     registry_step serves s (moved a (Acquiring cfg listen deadline AtLock) s)"
| acquire_locks: "rg_acquires s a = Some (Acquiring cfg listen deadline AtLock) \<Longrightarrow> rg_binding s = None \<Longrightarrow>
     registry_step serves s (moved a (Acquiring cfg listen deadline AtLive) (s \<lparr> rg_binding := Some a \<rparr>))"
| acquire_looks: "rg_acquires s a = Some (Acquiring cfg listen deadline at) \<Longrightarrow> at \<in> {AtLive, AtContending, AtReleasing} \<Longrightarrow>
     registry_step serves s (under_lock serves a cfg listen deadline at s)"
| acquire_bind_fails: "rg_acquires s a = Some (Acquiring cfg listen deadline AtBind) \<Longrightarrow>
     registry_step serves s (moved a (Acquired cfg listen (Inl BindFailed)) (unlocked s))"
| acquire_binds: "rg_acquires s a = Some (Acquiring cfg listen deadline AtBind) \<Longrightarrow> bound_addr (rg_heap s) listen addr \<Longrightarrow>
     registry_step serves s (bind_target a cfg listen addr s)"
| handle_cloned: "t < length (rg_heap s) \<Longrightarrow> 0 < tg_handles (rg_heap s ! t) \<Longrightarrow>
     registry_step serves s (s \<lparr> rg_heap := cloned t (rg_heap s) \<rparr>)"
| handle_dropped: "t < length (rg_heap s) \<Longrightarrow> 0 < tg_handles (rg_heap s ! t) \<Longrightarrow>
     registry_step serves s (s \<lparr> rg_heap := (rg_heap s)[t := (rg_heap s ! t) \<lparr> tg_handles := tg_handles (rg_heap s ! t) - 1 \<rparr>] \<rparr>)"
| task_ends: "t < length (rg_heap s) \<Longrightarrow>
     registry_step serves s (s \<lparr> rg_heap := (rg_heap s)[t := (rg_heap s ! t) \<lparr> tg_running := False \<rparr>] \<rparr>)"
| socket_closes: "t < length (rg_heap s) \<Longrightarrow> \<not> tg_running (rg_heap s ! t) \<Longrightarrow>
     registry_step serves s (s \<lparr> rg_heap := (rg_heap s)[t := (rg_heap s ! t) \<lparr> tg_open := False \<rparr>] \<rparr>)"
| time_passes: "registry_step serves s (s \<lparr> rg_now := rg_now s + 1 \<rparr>)"

definition Registry_new :: "'cfg Registry" where
  "Registry_new = \<lparr> rg_heap = [], rg_map = [], rg_binding = None, rg_acquires = Map.empty, rg_now = 0 \<rparr>"

inductive registry_reach :: "('cfg \<Rightarrow> 'cfg \<Rightarrow> bool) \<Rightarrow> 'cfg Registry \<Rightarrow> bool" for serves where
  reach_new: "registry_reach serves Registry_new"
| reach_next: "registry_reach serves s \<Longrightarrow> registry_step serves s s' \<Longrightarrow> registry_reach serves s'"

section \<open>The invariant\<close>

definition live_apart :: "'cfg heap \<Rightarrow> bool" where
  "live_apart heap \<longleftrightarrow> (\<forall>t u. t \<noteq> u \<longrightarrow> target_live heap t \<longrightarrow> target_live heap u \<longrightarrow>
     \<not> listen_overlap (tg_addr (heap ! t)) (tg_addr (heap ! u)))"

definition live_entered :: "'cfg heap \<Rightarrow> registry \<Rightarrow> bool" where
  "live_entered heap reg \<longleftrightarrow> distinct (map fst reg)
     \<and> (\<forall>k e. (k, e) \<in> set reg \<longrightarrow> le_target e < length heap \<and> tg_addr (heap ! le_target e) = k)
     \<and> (\<forall>t. target_live heap t \<longrightarrow> map_of reg (tg_addr (heap ! t)) = Some \<lparr> le_target = t, le_socket = t \<rparr>)"

definition none_overlaps :: "'cfg heap \<Rightarrow> SocketAddr \<Rightarrow> bool" where
  "none_overlaps heap listen \<longleftrightarrow> (\<forall>t. target_live heap t \<longrightarrow> \<not> listen_overlap (tg_addr (heap ! t)) listen)"

text \<open>What an acquire knows where it is, and what its result is.\<close>

fun acquire_ok :: "('cfg \<Rightarrow> 'cfg \<Rightarrow> bool) \<Rightarrow> 'cfg heap \<Rightarrow> 'cfg acquire \<Rightarrow> bool" where
  "acquire_ok serves heap (Acquiring cfg listen deadline at) \<longleftrightarrow>
     (at = AtContending \<longrightarrow> (\<forall>t. target_live heap t \<longrightarrow> tg_addr (heap ! t) \<noteq> listen))
     \<and> (at \<in> {AtReleasing, AtBind} \<longrightarrow> sa_port listen \<noteq> 0 \<longrightarrow> none_overlaps heap listen)"
| "acquire_ok serves heap (Acquired cfg listen (Inr t)) \<longleftrightarrow>
     t < length heap \<and> (tg_cfg (heap ! t) = cfg \<or> serves (tg_cfg (heap ! t)) cfg)
     \<and> (sa_port listen \<noteq> 0 \<longrightarrow> tg_addr (heap ! t) = listen)"
| "acquire_ok serves heap (Acquired cfg listen (Inl e)) \<longleftrightarrow> True"

definition lock_ok :: "nat option \<Rightarrow> nat \<Rightarrow> 'cfg acquire \<Rightarrow> bool" where
  "lock_ok binding a acq \<longleftrightarrow> (\<forall>cfg listen deadline at. acq = Acquiring cfg listen deadline at \<longrightarrow> holds_lock at \<longrightarrow> binding = Some a)"

definition registry_inv :: "('cfg \<Rightarrow> 'cfg \<Rightarrow> bool) \<Rightarrow> 'cfg Registry \<Rightarrow> bool" where
  "registry_inv serves s \<longleftrightarrow> live_apart (rg_heap s) \<and> live_entered (rg_heap s) (rg_map s)
     \<and> (\<forall>t < length (rg_heap s). tg_running (rg_heap s ! t) \<longrightarrow> tg_open (rg_heap s ! t))
     \<and> (\<forall>a acq. rg_acquires s a = Some acq \<longrightarrow> acquire_ok serves (rg_heap s) acq \<and> lock_ok (rg_binding s) a acq)"

text \<open>A heap in which targets only stopped being live.\<close>

definition calmer :: "'cfg heap \<Rightarrow> 'cfg heap \<Rightarrow> bool" where
  "calmer heap heap' \<longleftrightarrow> length heap' = length heap
     \<and> (\<forall>t < length heap. tg_addr (heap' ! t) = tg_addr (heap ! t) \<and> tg_cfg (heap' ! t) = tg_cfg (heap ! t)
          \<and> (tg_running (heap' ! t) \<longrightarrow> tg_open (heap' ! t) \<or> \<not> tg_open (heap ! t)))
     \<and> (\<forall>t. target_live heap' t \<longrightarrow> target_live heap t)"

lemma acquire_ok_calmer:
  assumes "acquire_ok serves heap acq" and "calmer heap heap'"
  shows "acquire_ok serves heap' acq"
proof -
  have "none_overlaps heap' listen" if "none_overlaps heap listen" for listen
    using that assms(2) by (auto simp: none_overlaps_def calmer_def target_live_def)
  then show ?thesis
    using assms by (cases "(serves, heap, acq)" rule: acquire_ok.cases) (auto simp: calmer_def target_live_def)
qed

lemma live_addr: "calmer heap heap' \<Longrightarrow> target_live heap' t \<Longrightarrow> target_live heap t \<and> tg_addr (heap' ! t) = tg_addr (heap ! t)"
  by (auto simp: calmer_def target_live_def)

lemma calmer_inv:
  assumes "registry_inv serves s" and "calmer (rg_heap s) heap'"
    and "\<forall>t < length (rg_heap s). tg_running (heap' ! t) \<longrightarrow> tg_running (rg_heap s ! t)"
  shows "registry_inv serves (s \<lparr> rg_heap := heap' \<rparr>)"
proof -
  have "live_apart heap'" using assms(1) live_addr [OF assms(2)] by (auto simp: registry_inv_def live_apart_def)
  moreover have "live_entered heap' (rg_map s)"
    using assms(1,2) live_addr [OF assms(2)] by (fastforce simp: registry_inv_def live_entered_def calmer_def)
  ultimately show ?thesis
    using assms acquire_ok_calmer [OF _ assms(2)] by (auto simp: registry_inv_def calmer_def)
qed

lemma moved_inv:
  assumes "registry_inv serves s" and "acquire_ok serves (rg_heap s) acq" and "lock_ok binding a acq"
    and "\<And>b acq. rg_acquires s b = Some acq \<Longrightarrow> b \<noteq> a \<Longrightarrow> lock_ok binding b acq"
  shows "registry_inv serves (moved a acq (s \<lparr> rg_binding := binding \<rparr>))"
  using assms by (auto simp: registry_inv_def moved_def)

lemma lock_ok_other:
  assumes "registry_inv serves s" and "rg_acquires s a = Some (Acquiring cfg listen deadline at)" and "holds_lock at"
    and "rg_acquires s b = Some acq" and "b \<noteq> a"
  shows "lock_ok binding b acq"
proof -
  have "lock_ok (rg_binding s) a (Acquiring cfg listen deadline at)" "lock_ok (rg_binding s) b acq"
    using assms(1,2,4) unfolding registry_inv_def by blast+
  then show ?thesis using assms(3,5) by (cases acq) (auto simp: lock_ok_def)
qed

lemma registry_live_None:
  assumes "live_entered heap reg" and "registry_live heap reg listen = None" and "target_live heap t"
  shows "tg_addr (heap ! t) \<noteq> listen"
  using assms by (fastforce simp: live_entered_def registry_live_def entry_live_def)

lemma registry_live_Some:
  assumes "live_entered heap reg" and "registry_live heap reg listen = Some t"
  shows "target_live heap t \<and> tg_addr (heap ! t) = listen"
  using assms by (auto simp: live_entered_def registry_live_def entry_live_def bind_eq_Some_conv split: if_splits dest: map_of_SomeD)

lemma not_contending:
  assumes "live_entered heap reg" and "contending heap reg listen = None"
    and "\<And>t. target_live heap t \<Longrightarrow> tg_addr (heap ! t) \<noteq> listen"
  shows "none_overlaps heap listen"
  unfolding none_overlaps_def
proof (intro allI impI)
  fix t assume t: "target_live heap t"
  then have "(tg_addr (heap ! t), \<lparr> le_target = t, le_socket = t \<rparr>) \<in> set reg"
    using assms(1) by (auto simp: live_entered_def dest: map_of_SomeD)
  then show "\<not> listen_overlap (tg_addr (heap ! t)) listen"
    using assms(2) assms(3) [OF t] t
    by (force simp: contending_def find_None_iff entry_live_def split: prod.splits)
qed

lemma map_of_filter:
  assumes "distinct (map fst m)" and "map_of m k = Some v" and "P (k, v)"
  shows "map_of (filter P m) k = Some v"
  using assms by (auto simp: distinct_map_filter)

lemma cloned_running: "tg_running (cloned t heap ! u) = tg_running (heap ! u)"
  by (cases "t < length heap"; cases "u = t") (auto simp: cloned_def list_update_beyond)

lemma calmer_cloned:
  assumes "0 < tg_handles (heap ! t)"
  shows "calmer heap (cloned t heap)"
  using assms by (cases "t < length heap") (auto simp: calmer_def cloned_def target_live_def nth_list_update)

lemma bind_target_inv:
  assumes inv: "registry_inv serves s" and a: "rg_acquires s a = Some (Acquiring cfg listen deadline AtBind)"
    and addr: "bound_addr (rg_heap s) listen addr"
  shows "registry_inv serves (bind_target a cfg listen addr s)"
proof -
  let ?n = "length (rg_heap s)"
  let ?new = "\<lparr> tg_addr = addr, tg_cfg = cfg, tg_handles = 1, tg_running = True, tg_open = True \<rparr>"
  define heap where "heap = rg_heap s @ [?new]"
  have new: "tg_addr (heap ! ?n) = addr" "tg_cfg (heap ! ?n) = cfg" "length heap = Suc ?n"
    by (simp_all add: heap_def)
  have lock: "holds_lock AtBind" by (simp add: holds_lock_def)
  have i: "live_apart (rg_heap s)" "live_entered (rg_heap s) (rg_map s)" "acquire_ok serves (rg_heap s) (Acquiring cfg listen deadline AtBind)"
    "\<forall>t < length (rg_heap s). tg_running (rg_heap s ! t) \<longrightarrow> tg_open (rg_heap s ! t)"
    using inv a unfolding registry_inv_def by blast+
  have free: "none_overlaps (rg_heap s) addr"
    using addr i(3,4) by (auto simp: bound_addr_def none_overlaps_def target_live_def list_all_length split: if_splits)
  have port: "sa_port addr \<noteq> 0 \<or> sa_port listen \<noteq> 0 \<and> addr = listen"
    using addr by (auto simp: bound_addr_def split: if_splits)
  then have refl: "listen_overlap addr addr" by (auto simp: listen_overlap_refl)
  have live: "target_live heap t \<longleftrightarrow> target_live (rg_heap s) t \<or> t = ?n" for t
    by (auto simp: target_live_def heap_def nth_append less_Suc_eq)
  have nth: "heap ! t = rg_heap s ! t" if "target_live (rg_heap s) t" for t
    using that by (simp add: target_live_def heap_def nth_append)
  have apart: "live_apart heap"
    using i(1) free listen_overlap_sym
    by (auto simp: live_apart_def live nth new none_overlaps_def)
  have entered: "live_entered heap (register_target heap ?n (rg_map s))"
  proof -
    let ?P = "\<lambda>(k, e). k \<noteq> addr \<and> (entry_live heap e \<noteq> None \<or> entry_releasing heap e)"
    have "map_of (filter ?P (rg_map s)) (tg_addr (rg_heap s ! t)) = Some \<lparr> le_target = t, le_socket = t \<rparr>"
      "tg_addr (rg_heap s ! t) \<noteq> addr" if t: "target_live (rg_heap s) t" for t
    proof -
      show ne: "tg_addr (rg_heap s ! t) \<noteq> addr" using free refl t by (auto simp: none_overlaps_def)
      then have "?P (tg_addr (rg_heap s ! t), \<lparr> le_target = t, le_socket = t \<rparr>)"
        using t by (simp add: entry_live_def live)
      then show "map_of (filter ?P (rg_map s)) (tg_addr (rg_heap s ! t)) = Some \<lparr> le_target = t, le_socket = t \<rparr>"
        using i(2) t by (intro map_of_filter) (auto simp: live_entered_def)
    qed
    moreover have "distinct (map fst (filter ?P (rg_map s)))"
      using i(2) by (simp add: live_entered_def distinct_map_filter)
    moreover have "le_target e < length heap \<and> tg_addr (heap ! le_target e) = k" if "(k, e) \<in> set (rg_map s)" for k e
      using i(2) that by (fastforce simp: live_entered_def heap_def nth_append)
    ultimately show ?thesis
      by (auto simp: live_entered_def register_target_def live nth new)
  qed
  have ok: "acquire_ok serves heap acq" if "rg_acquires s b = Some acq" "b \<noteq> a" for b acq
  proof -
    have "acquire_ok serves (rg_heap s) acq" "lock_ok None b acq"
      using inv lock_ok_other [OF inv a lock that] that unfolding registry_inv_def by blast+
    then show ?thesis
      by (cases "(serves, rg_heap s, acq)" rule: acquire_ok.cases) (auto simp: lock_ok_def holds_lock_def heap_def nth_append)
  qed
  have run: "\<forall>t < length heap. tg_running (heap ! t) \<longrightarrow> tg_open (heap ! t)"
    using i(4) by (auto simp: heap_def nth_append less_Suc_eq)
  have mine: "acquire_ok serves heap (Acquired cfg listen (Inr ?n))"
    using addr by (simp add: new bound_addr_def split: if_splits)
  show ?thesis
    using apart entered run ok mine lock_ok_other [OF inv a lock, of _ _ None]
    by (auto simp: registry_inv_def bind_target_def moved_def unlocked_def Let_def heap_def [symmetric, simplified] heap_def [symmetric] lock_ok_def [of None a])
qed

lemma under_lock_inv:
  assumes inv: "registry_inv serves s" and a: "rg_acquires s a = Some (Acquiring cfg listen deadline at)"
    and at: "at \<in> {AtLive, AtContending, AtReleasing}"
  shows "registry_inv serves (under_lock serves a cfg listen deadline at s)"
proof -
  have lock: "holds_lock at" using at by (auto simp: holds_lock_def)
  note other = lock_ok_other [OF inv a lock]
  have i: "live_entered (rg_heap s) (rg_map s)" "acquire_ok serves (rg_heap s) (Acquiring cfg listen deadline at)"
    "lock_ok (rg_binding s) a (Acquiring cfg listen deadline at)"
    using inv a unfolding registry_inv_def by blast+
  have held: "rg_binding s = Some a" using i(3) lock by (auto simp: lock_ok_def)
  have same: "s \<lparr> rg_binding := Some a \<rparr> = s" using held by (cases s) simp
  have stay: "registry_inv serves (moved a (Acquiring cfg listen deadline at') s)"
    if "acquire_ok serves (rg_heap s) (Acquiring cfg listen deadline at')" for at'
    using moved_inv [OF inv that, of "Some a" a] other [of _ _ "Some a"] unfolding same by (simp add: lock_ok_def)
  have leave: "registry_inv serves (moved a acq (unlocked s))"
    if "acquire_ok serves (rg_heap s) acq" "lock_ok None a acq" for acq
    using moved_inv [OF inv that] other [of _ _ None] by (simp add: unlocked_def)
  have found: "registry_inv serves (moved a (Acquired cfg listen (Inr t)) (unlocked (s \<lparr> rg_heap := cloned t (rg_heap s) \<rparr>)))"
    if t: "registry_live (rg_heap s) (rg_map s) listen = Some t" and "serves (tg_cfg (rg_heap s ! t)) cfg" for t
  proof -
    have live: "target_live (rg_heap s) t" "tg_addr (rg_heap s ! t) = listen" using registry_live_Some [OF i(1) t] by blast+
    have c: "calmer (rg_heap s) (cloned t (rg_heap s))" using live(1) by (intro calmer_cloned) (simp add: target_live_def)
    have r: "\<forall>u < length (rg_heap s). tg_running (cloned t (rg_heap s) ! u) \<longrightarrow> tg_running (rg_heap s ! u)"
      by (simp add: cloned_running)
    have "registry_inv serves (s \<lparr> rg_heap := cloned t (rg_heap s) \<rparr>)" by (rule calmer_inv [OF inv c r])
    moreover have "acquire_ok serves (cloned t (rg_heap s)) (Acquired cfg listen (Inr t))"
      using live that(2) by (simp add: cloned_def target_live_def)
    ultimately show ?thesis
      using moved_inv [of serves "s \<lparr> rg_heap := cloned t (rg_heap s) \<rparr>" "Acquired cfg listen (Inr t)" None a] other [of _ _ None]
      by (simp add: unlocked_def lock_ok_def)
  qed
  have none: "none_overlaps (rg_heap s) listen"
    if "check_contending (rg_heap s) (rg_map s) listen = Inr ()" "at = AtContending"
    using not_contending [OF i(1)] i(2) that by (auto simp: check_contending_def split: option.splits)
  consider "at = AtLive" | "at = AtContending" | "at = AtReleasing" using at by blast
  then show ?thesis
  proof cases
    case 1
    then show ?thesis
      using stay leave found registry_live_None [OF i(1)]
      by (auto simp: under_lock_def check_settings_def Let_def lock_ok_def split: option.splits)
  next
    case 2
    then show ?thesis using stay leave none by (auto simp: under_lock_def lock_ok_def split: sum.splits)
  next
    case 3
    then show ?thesis using stay leave i(2) by (auto simp: under_lock_def lock_ok_def holds_lock_def)
  qed
qed

lemma registry_step_inv:
  assumes "registry_step serves s s'" and "registry_inv serves s"
  shows "registry_inv serves s'"
  using assms(1)
proof cases
  case (acquire_starts a sockets listen cfg)
  then show ?thesis
    using assms(2) moved_inv [OF assms(2), of "Acquiring cfg listen (rg_now s + RELEASE_TIMEOUT) (AtReleased sockets)" "rg_binding s" a]
    by (auto simp: lock_ok_def holds_lock_def registry_inv_def)
next
  case (acquire_released a cfg listen deadline sockets)
  then show ?thesis
    using assms(2) moved_inv [OF assms(2), of "Acquiring cfg listen deadline AtLock" "rg_binding s" a]
    by (auto simp: lock_ok_def holds_lock_def registry_inv_def)
next
  case (acquire_locks a cfg listen deadline)
  have "lock_ok None b acq" if "rg_acquires s b = Some acq" for b acq
    using assms(2) acquire_locks(3) that by (auto simp: registry_inv_def)
  then have "lock_ok (Some a) b acq" if "rg_acquires s b = Some acq" for b acq
    using that by (fastforce simp: lock_ok_def)
  then show ?thesis
    using acquire_locks moved_inv [OF assms(2), of "Acquiring cfg listen deadline AtLive" "Some a" a] by (auto simp: lock_ok_def)
next
  case (acquire_looks a cfg listen deadline at)
  then show ?thesis using under_lock_inv [OF assms(2)] by blast
next
  case (acquire_bind_fails a cfg listen deadline)
  then show ?thesis
    using moved_inv [OF assms(2), of "Acquired cfg listen (Inl BindFailed)" None a] lock_ok_other [OF assms(2)]
    by (auto simp: unlocked_def lock_ok_def [of None a] holds_lock_def)
next
  case (acquire_binds a cfg listen deadline addr)
  then show ?thesis using bind_target_inv [OF assms(2)] by blast
next
  case (handle_cloned t)
  then show ?thesis
    using calmer_inv [OF assms(2) calmer_cloned] by (simp add: cloned_running)
next
  case (handle_dropped t)
  then show ?thesis
    by (auto intro!: calmer_inv [OF assms(2)] simp: calmer_def target_live_def nth_list_update split: if_splits)
next
  case (task_ends t)
  then show ?thesis
    by (auto intro!: calmer_inv [OF assms(2)] simp: calmer_def target_live_def nth_list_update split: if_splits)
next
  case (socket_closes t)
  then show ?thesis
    by (auto intro!: calmer_inv [OF assms(2)] simp: calmer_def target_live_def nth_list_update split: if_splits)
next
  case time_passes
  then show ?thesis using assms(2) by (simp add: registry_inv_def)
qed

lemma registry_reach_inv: "registry_reach serves s \<Longrightarrow> registry_inv serves s"
proof (induction rule: registry_reach.induct)
  case reach_new
  then show ?case by (simp add: registry_inv_def Registry_new_def live_apart_def live_entered_def target_live_def)
qed (rule registry_step_inv)

section \<open>What a target promises\<close>

text \<open>The trait \<open>ListenerTarget\<close>: a target serves the settings it was bound with.\<close>

locale listener_target =
  fixes serves :: "'cfg \<Rightarrow> 'cfg \<Rightarrow> bool"
  assumes serves_refl: "serves cfg cfg"
begin

lemma acquired_serves:
  assumes "registry_reach serves s" and "rg_acquires s a = Some (Acquired cfg listen (Inr t))"
  shows "serves (tg_cfg (rg_heap s ! t)) cfg"
proof -
  have "acquire_ok serves (rg_heap s) (Acquired cfg listen (Inr t))"
    using registry_reach_inv [OF assms(1)] assms(2) unfolding registry_inv_def by blast
  then show ?thesis using serves_refl by auto
qed

lemma join_serves: "registry_join serves heap reg listen wanted = Inr t \<Longrightarrow> serves (tg_cfg (heap ! t)) (wanted (heap ! t))"
  by (auto simp: registry_join_def check_settings_def split: option.splits if_splits)

end

section \<open>Properties\<close>

text \<open>
  C33. In every reachable state, whatever acquires run at once and whatever handles drop, tasks end and
  sockets close between their steps: no two live targets contend for a port, so every acquire of an address
  that returned a live target returned the same one, and it listens on that address with settings that
  serve what was asked.
\<close>

theorem listeners_exclusive:
  assumes "registry_reach serves s" and "target_live (rg_heap s) t" and "target_live (rg_heap s) u"
    and "listen_overlap (tg_addr (rg_heap s ! t)) (tg_addr (rg_heap s ! u))"
  shows "t = u \<and> registry_live (rg_heap s) (rg_map s) (tg_addr (rg_heap s ! t)) = Some t"
  using registry_reach_inv [OF assms(1)] assms(2-)
  by (auto simp: registry_inv_def live_apart_def live_entered_def registry_live_def entry_live_def)

text \<open>
  An acquire of an address with a port that returned, returned a target on that address whose settings
  are the ones asked for or serve them; two acquires of one address that both hold live targets hold the
  same one.
\<close>

theorem acquire_shares:
  assumes "registry_reach serves s" and "sa_port listen \<noteq> 0"
    and "rg_acquires s a = Some (Acquired cfg listen (Inr t))" and "rg_acquires s b = Some (Acquired cfg' listen (Inr u))"
  shows "tg_addr (rg_heap s ! t) = listen \<and> (tg_cfg (rg_heap s ! t) = cfg \<or> serves (tg_cfg (rg_heap s ! t)) cfg)
    \<and> (t = u \<or> \<not> target_live (rg_heap s) t \<or> \<not> target_live (rg_heap s) u)"
proof -
  have inv: "registry_inv serves s" by (rule registry_reach_inv [OF assms(1)])
  then have "acquire_ok serves (rg_heap s) (Acquired cfg listen (Inr t))" "acquire_ok serves (rg_heap s) (Acquired cfg' listen (Inr u))"
    using assms(3,4) unfolding registry_inv_def by blast+
  moreover have "listen_overlap listen listen" using assms(2) by (simp add: listen_overlap_refl)
  moreover have "\<not> listen_overlap (tg_addr (rg_heap s ! t)) (tg_addr (rg_heap s ! u))"
    if "target_live (rg_heap s) t" "target_live (rg_heap s) u" "t \<noteq> u"
    using inv that unfolding registry_inv_def live_apart_def by blast
  ultimately show ?thesis using assms(2) by auto
qed

definition example_listen :: SocketAddr where
  "example_listen = \<lparr> sa_ip = V4 0, sa_port = 1161 \<rparr>"

lemma example_acquired:
  "\<exists>s. registry_reach serves s \<and> rg_acquires s 0 = Some (Acquired cfg example_listen (Inr 0))
     \<and> target_live (rg_heap s) 0 \<and> tg_addr (rg_heap s ! 0) = example_listen \<and> tg_cfg (rg_heap s ! 0) = cfg
     \<and> rg_map s = [(example_listen, \<lparr> le_target = 0, le_socket = 0 \<rparr>)]"
proof -
  let ?at = "\<lambda>at. moved 0 (Acquiring cfg example_listen RELEASE_TIMEOUT at) Registry_new"
  let ?locked = "\<lambda>at. (?at at) \<lparr> rg_binding := Some 0 \<rparr>"
  have s1: "registry_reach serves (?at (AtReleased []))"
    using reach_next [OF reach_new acquire_starts [of Registry_new 0 "[]" example_listen serves cfg]]
    by (simp add: Registry_new_def releasing_sockets_def)
  have s2: "registry_reach serves (?at AtLock)"
    using reach_next [OF s1 acquire_released [of _ 0 cfg example_listen RELEASE_TIMEOUT "[]"]] by (simp add: moved_def)
  have s3: "registry_reach serves (?locked AtLive)"
    using reach_next [OF s2 acquire_locks [of _ 0 cfg example_listen RELEASE_TIMEOUT]] by (simp add: moved_def Registry_new_def)
  have s4: "registry_reach serves (?locked AtContending)"
    using reach_next [OF s3 acquire_looks [of _ 0 cfg example_listen RELEASE_TIMEOUT AtLive]]
    by (simp add: under_lock_def moved_def Registry_new_def registry_live_def example_listen_def)
  have s5: "registry_reach serves (?locked AtReleasing)"
    using reach_next [OF s4 acquire_looks [of _ 0 cfg example_listen RELEASE_TIMEOUT AtContending]]
    by (simp add: under_lock_def moved_def Registry_new_def check_contending_def contending_def)
  have s6: "registry_reach serves (?locked AtBind)"
    using reach_next [OF s5 acquire_looks [of _ 0 cfg example_listen RELEASE_TIMEOUT AtReleasing]]
    by (simp add: under_lock_def moved_def Registry_new_def registry_releasing_def)
  have "registry_reach serves (bind_target 0 cfg example_listen example_listen (?locked AtBind))"
    using reach_next [OF s6 acquire_binds [of _ 0 cfg example_listen RELEASE_TIMEOUT example_listen]]
    by (simp add: moved_def bound_addr_def example_listen_def)
  then show ?thesis
    by (intro exI conjI) (assumption, simp_all add: bind_target_def moved_def unlocked_def Let_def target_live_def Registry_new_def register_target_def)
qed

theorem listeners_exclusive_witness:
  "\<exists>s :: unit Registry. registry_reach (\<lambda>_ _. True) s \<and> target_live (rg_heap s) 0
     \<and> registry_live (rg_heap s) (rg_map s) example_listen = Some 0"
proof -
  obtain s :: "unit Registry" where s: "registry_reach (\<lambda>_ _. True) s" "target_live (rg_heap s) 0" "tg_addr (rg_heap s ! 0) = example_listen"
    using example_acquired [of "\<lambda>_ _. True" "()"] by blast
  have "listen_overlap example_listen example_listen" by (simp add: listen_overlap_refl example_listen_def)
  then show ?thesis using listeners_exclusive [OF s(1,2,2)] s by auto
qed

theorem acquire_shares_witness:
  "\<exists>s :: unit Registry. rg_acquires s 0 = Some (Acquired () example_listen (Inr 0)) \<and> tg_addr (rg_heap s ! 0) = example_listen"
proof -
  obtain s :: "unit Registry" where s: "registry_reach (\<lambda>_ _. True) s" "rg_acquires s 0 = Some (Acquired () example_listen (Inr 0))"
    using example_acquired [of "\<lambda>_ _. True" "()"] by blast
  then show ?thesis using acquire_shares [OF s(1) _ s(2,2)] by (auto simp: example_listen_def)
qed

end
