(* ===== verification/Snmp_Registry.thy ===== *)
theory Snmp_Registry
  imports Listener Snmp_Config
begin

text \<open>
  The registry of SNMP agents (\<open>SnmpAgentRegistry\<close> in \<open>sink/snmp/mod.rs\<close>): the listener registry with an
  agent's settings and what they serve. A configuration is resolved first, so an invalid one is refused
  before the registry is looked at.
\<close>

datatype agent_registry_error = InvalidConfig settings_error | Registry_error registry_error

definition snmp_acquire ::
  "(string \<Rightarrow> SocketAddr option) \<Rightarrow> SnmpAgentConfig \<Rightarrow> agent_registry_error + (AgentSettings \<times> SocketAddr)" where
  "snmp_acquire parse_addr cfg =
     rbind (map_err InvalidConfig (settings parse_addr cfg)) (\<lambda>s. Inr (s, set_listen s))"

definition snmp_check ::
  "(string \<Rightarrow> SocketAddr option) \<Rightarrow> AgentSettings heap \<Rightarrow> registry \<Rightarrow> SnmpAgentConfig \<Rightarrow> agent_registry_error + unit" where
  "snmp_check parse_addr heap reg cfg =
     rbind (map_err InvalidConfig (settings parse_addr cfg)) (\<lambda>s.
       map_err Registry_error (registry_check serves heap reg s (set_listen s)))"

definition snmp_join ::
  "(string \<Rightarrow> SocketAddr option) \<Rightarrow> AgentSettings heap \<Rightarrow> registry \<Rightarrow> SnmpAgentConfig \<Rightarrow> agent_registry_error + nat" where
  "snmp_join parse_addr heap reg cfg =
     rbind (map_err InvalidConfig (settings parse_addr cfg)) (\<lambda>s.
       map_err Registry_error (registry_join serves heap reg (set_listen s)
         (\<lambda>agent. (tg_cfg agent) \<lparr> set_community := set_community s \<rparr>)))"

interpretation snmp_target: listener_target serves
  by unfold_locales (simp add: serves_iff)

lemma settings_parts:
  assumes "settings parse_addr cfg = Inr st"
  shows "\<exists>addr. parse_addr (cfg_listen cfg) = Some addr \<and> set_listen st = canonical addr \<and> set_community st = cfg_community cfg"
  using assms unfolding settings_def Let_def
  by (elim run_InrE) (auto split: option.splits if_splits elim!: run_InrE simp: ok_or_def)

lemma registry_serving_live:
  assumes "live_entered heap reg" and "registry_serving heap reg addr = Some t"
  shows "target_live heap t \<and> (tg_addr (heap ! t) = addr \<or> covers (tg_addr (heap ! t)) addr)"
proof (cases "registry_live heap reg addr")
  case None
  then obtain rest where "List.map_filter (\<lambda>(wild, e). if covers wild addr then entry_live heap e else None) reg = t # rest"
    using assms(2) by (auto simp: registry_serving_def split: list.splits)
  then have "t \<in> set (List.map_filter (\<lambda>(wild, e). if covers wild addr then entry_live heap e else None) reg)" by simp
  then obtain p where p: "p \<in> set reg" "(case p of (wild, e) \<Rightarrow> if covers wild addr then entry_live heap e else None) = Some t"
    unfolding map_filter_def by fastforce
  obtain wild e where pe: "p = (wild, e)" by (rule prod.exhaust)
  have "(wild, e) \<in> set reg" "covers wild addr" "entry_live heap e = Some t"
    using p by (auto simp: pe split: if_splits)
  then show ?thesis using assms(1) by (auto simp: live_entered_def entry_live_def split: if_splits)
next
  case (Some u)
  then show ?thesis using assms registry_live_Some by (fastforce simp: registry_serving_def)
qed

text \<open>
  Joining never binds: it finds a live agent, on the address asked for or on a wildcard address that
  covers it, and refuses one with another community; no other setting is compared.
\<close>

theorem join_finds_live_agent:
  assumes "registry_reach serves s" and "snmp_join parse_addr (rg_heap s) (rg_map s) cfg = Inr t"
  shows "\<exists>addr. parse_addr (cfg_listen cfg) = Some addr \<and> target_live (rg_heap s) t
    \<and> set_community (tg_cfg (rg_heap s ! t)) = cfg_community cfg
    \<and> (tg_addr (rg_heap s ! t) = canonical addr \<or> covers (tg_addr (rg_heap s ! t)) addr)"
proof -
  obtain st where st: "settings parse_addr cfg = Inr st"
    and join: "registry_join serves (rg_heap s) (rg_map s) (set_listen st) (\<lambda>agent. (tg_cfg agent) \<lparr> set_community := set_community st \<rparr>) = Inr t"
    using assms(2) by (auto simp: snmp_join_def map_err_def split: sum.splits elim!: rbind_InrE)
  have "serves (tg_cfg (rg_heap s ! t)) ((tg_cfg (rg_heap s ! t)) \<lparr> set_community := set_community st \<rparr>)"
    using snmp_target.join_serves [OF join] .
  then have "set_community (tg_cfg (rg_heap s ! t)) = set_community st"
    unfolding serves_iff by (metis AgentSettings.select_convs(2) AgentSettings.surjective AgentSettings.update_convs(1,2))
  moreover have "registry_serving (rg_heap s) (rg_map s) (set_listen st) = Some t"
    using join by (auto simp: registry_join_def check_settings_def split: option.splits if_splits)
  then have "target_live (rg_heap s) t \<and> (tg_addr (rg_heap s ! t) = set_listen st \<or> covers (tg_addr (rg_heap s ! t)) (set_listen st))"
    using registry_reach_inv [OF assms(1)] by (intro registry_serving_live) (auto simp: registry_inv_def)
  ultimately show ?thesis using settings_parts [OF st] by auto
qed

theorem join_finds_live_agent_witness:
  "\<exists>s. registry_reach serves s \<and> target_live (rg_heap s) 0 \<and> set_community (tg_cfg (rg_heap s ! 0)) = ''public''"
proof -
  let ?parse = "\<lambda>text. if text = ''a'' then Some example_addr else None"
  obtain s where s: "registry_reach serves s" "target_live (rg_heap s) 0" "tg_cfg (rg_heap s ! 0) = example_settings"
    "rg_map s = [(example_listen, \<lparr> le_target = 0, le_socket = 0 \<rparr>)]"
    using example_acquired [of serves example_settings] by blast
  have "snmp_join ?parse (rg_heap s) (rg_map s) example_config = Inr 0"
    using s(2-4) by (simp add: snmp_join_def example_settings_accepted map_err_def registry_join_def registry_serving_def
      registry_live_def entry_live_def check_settings_def serves_iff example_settings_def example_addr_def example_listen_def)
  then show ?thesis using join_finds_live_agent [OF s(1)] s by (fastforce simp: example_config_def)
qed

end
