(* ===== verification/Gate_Channel.thy ===== *)
theory Gate_Channel
  imports Prelude
begin

text \<open>
  The single-slot edge channels of \<open>schedule/gate_bus.rs\<close>: a sender overwrites the pending edge, the receiver
  takes it, and a sender that is gone shows as one \<open>UpstreamGone\<close>. The slots shared by senders and receivers are
  the elements of a heap, a sender is the index of its slot, and a slot counts the clones of its sender.

  The second half is \<open>wait_for_change\<close> against senders on other threads, one atomic operation at a time. The
  \<open>Notify\<close> of the channel is code of another package: its operations are parameters, and what the code relies on
  is that a future created before a \<open>notify_waiters\<close> is ready after it, polled or not.
\<close>

section \<open>Edges\<close>

datatype GateEdge = AfterFired | WhileOpen | WhileClose | UpstreamGone

definition EDGE_EMPTY :: u8 where
  "EDGE_EMPTY = 0"

definition EDGE_AFTER_FIRED :: u8 where
  "EDGE_AFTER_FIRED = 1"

definition EDGE_WHILE_OPEN :: u8 where
  "EDGE_WHILE_OPEN = 2"

definition EDGE_WHILE_CLOSE :: u8 where
  "EDGE_WHILE_CLOSE = 3"

definition EDGE_UPSTREAM_GONE :: u8 where
  "EDGE_UPSTREAM_GONE = 4"

lemmas edge_codes = EDGE_EMPTY_def EDGE_AFTER_FIRED_def EDGE_WHILE_OPEN_def EDGE_WHILE_CLOSE_def
  EDGE_UPSTREAM_GONE_def

fun encode_edge :: "GateEdge \<Rightarrow> u8" where
  "encode_edge AfterFired = EDGE_AFTER_FIRED"
| "encode_edge WhileOpen = EDGE_WHILE_OPEN"
| "encode_edge WhileClose = EDGE_WHILE_CLOSE"
| "encode_edge UpstreamGone = EDGE_UPSTREAM_GONE"

definition decode_edge :: "u8 \<Rightarrow> GateEdge option" where
  "decode_edge raw =
     (if raw = EDGE_AFTER_FIRED then Some AfterFired
      else if raw = EDGE_WHILE_OPEN then Some WhileOpen
      else if raw = EDGE_WHILE_CLOSE then Some WhileClose
      else if raw = EDGE_UPSTREAM_GONE then Some UpstreamGone
      else None)"

lemma decode_encode [simp]: "decode_edge (encode_edge e) = Some e"
  by (cases e) (simp_all add: decode_edge_def edge_codes)

lemma decode_empty [simp]: "decode_edge EDGE_EMPTY = None"
  by (simp add: decode_edge_def edge_codes)

lemma encode_not_empty [simp]: "encode_edge e \<noteq> EDGE_EMPTY"
  by (cases e) (simp_all add: edge_codes)

section \<open>Slots, senders and receivers\<close>

text \<open>A slot, with the number of handles that share its \<open>SenderShared\<close>.\<close>

record EdgeSlot =
  es_edge :: u8
  es_sender_dropped :: bool
  es_senders :: nat

type_synonym slots = "EdgeSlot list"
type_synonym GateEdgeSender = nat

definition EdgeSlot_new :: EdgeSlot where
  "EdgeSlot_new = \<lparr> es_edge = EDGE_EMPTY, es_sender_dropped = False, es_senders = 1 \<rparr>"

text \<open>The store of \<open>send\<close>; the \<open>notify_waiters\<close> that follows it is part of the steps below.\<close>

definition send :: "GateEdgeSender \<Rightarrow> GateEdge \<Rightarrow> slots \<Rightarrow> slots" where
  "send tx edge slots = slots[tx := (slots ! tx) \<lparr> es_edge := encode_edge edge \<rparr>]"

definition sender_clone :: "GateEdgeSender \<Rightarrow> slots \<Rightarrow> slots" where
  "sender_clone tx slots = slots[tx := (slots ! tx) \<lparr> es_senders := es_senders (slots ! tx) + 1 \<rparr>]"

text \<open>Dropping the last handle runs the drop of \<open>SenderShared\<close>.\<close>

definition sender_drop :: "GateEdgeSender \<Rightarrow> slots \<Rightarrow> slots" where
  "sender_drop tx slots =
     (let slot = slots ! tx; left = es_senders slot - 1
      in slots[tx := slot \<lparr> es_senders := left, es_sender_dropped := es_sender_dropped slot \<or> left = 0 \<rparr>])"

record EdgeReceiver =
  er_slot :: nat
  er_drained :: bool

definition EdgeReceiver_try_recv :: "EdgeReceiver \<Rightarrow> slots \<Rightarrow> GateEdge option \<times> EdgeReceiver \<times> slots" where
  "EdgeReceiver_try_recv rx slots =
     (let slot = slots ! er_slot rx;
          slots = slots[er_slot rx := slot \<lparr> es_edge := EDGE_EMPTY \<rparr>];
          sender_gone = es_sender_dropped slot
      in case decode_edge (es_edge slot) of
           Some edge \<Rightarrow> (Some edge, if sender_gone then rx \<lparr> er_drained := True \<rparr> else rx, slots)
         | None \<Rightarrow>
             if er_drained rx then (None, rx, slots)
             else if sender_gone then (Some UpstreamGone, rx \<lparr> er_drained := True \<rparr>, slots)
             else (None, rx, slots))"

definition gate_edge_channel :: "slots \<Rightarrow> GateEdgeSender \<times> EdgeReceiver \<times> slots" where
  "gate_edge_channel slots =
     (length slots, \<lparr> er_slot = length slots, er_drained = False \<rparr>, slots @ [EdgeSlot_new])"

record GateReceiver =
  gr_after_rx :: "EdgeReceiver option"
  gr_while_rx :: "EdgeReceiver option"

definition GateReceiver_from_while_rx :: "EdgeReceiver \<Rightarrow> GateReceiver" where
  "GateReceiver_from_while_rx rx = \<lparr> gr_after_rx = None, gr_while_rx = Some rx \<rparr>"

definition poll_after :: "GateReceiver \<Rightarrow> slots \<Rightarrow> GateEdge option \<times> GateReceiver \<times> slots" where
  "poll_after rx slots =
     (case gr_after_rx rx of
        None \<Rightarrow> (None, rx, slots)
      | Some slot \<Rightarrow>
          (case EdgeReceiver_try_recv slot slots of
             (edge, slot, slots) \<Rightarrow> (edge, rx \<lparr> gr_after_rx := Some slot \<rparr>, slots)))"

definition poll_while :: "GateReceiver \<Rightarrow> slots \<Rightarrow> GateEdge option \<times> GateReceiver \<times> slots" where
  "poll_while rx slots =
     (case gr_while_rx rx of
        None \<Rightarrow> (None, rx, slots)
      | Some slot \<Rightarrow>
          (case EdgeReceiver_try_recv slot slots of
             (edge, slot, slots) \<Rightarrow> (edge, rx \<lparr> gr_while_rx := Some slot \<rparr>, slots)))"

definition GateReceiver_try_recv :: "GateReceiver \<Rightarrow> slots \<Rightarrow> GateEdge option \<times> GateReceiver \<times> slots" where
  "GateReceiver_try_recv rx slots =
     (case poll_after rx slots of
        (Some edge, rx, slots) \<Rightarrow> (Some edge, rx, slots)
      | (None, rx, slots) \<Rightarrow> poll_while rx slots)"

section \<open>What a slot gives back\<close>

lemma length_send [simp]: "length (send tx e slots) = length slots"
  by (simp add: send_def)

lemma nth_send: "send tx e slots ! i =
    (if i = tx \<and> tx < length slots then (slots ! tx) \<lparr> es_edge := encode_edge e \<rparr> else slots ! i)"
  by (simp add: send_def nth_update_eq)

lemma length_try_recv [simp]: "EdgeReceiver_try_recv rx slots = (e, rx', slots') \<Longrightarrow> length slots' = length slots"
  by (auto simp: EdgeReceiver_try_recv_def Let_def split: option.splits if_splits)

text \<open>The latest edge wins: whatever was pending, the edge sent last is the one received, and then nothing is pending.\<close>

lemma recv_send:
  assumes "er_slot rx < length slots"
  shows "fst (EdgeReceiver_try_recv rx (send (er_slot rx) e slots)) = Some e"
  using assms by (simp add: EdgeReceiver_try_recv_def nth_send Let_def split: option.split)

text \<open>A channel whose senders are gone gives one edge more: the pending one, or else \<open>UpstreamGone\<close>; then nothing.\<close>

lemma recv_dropped:
  assumes "er_slot rx < length slots" and "es_sender_dropped (slots ! er_slot rx)"
    and "EdgeReceiver_try_recv rx slots = (e, rx', slots')"
  shows "EdgeReceiver_try_recv rx' slots' = (None, rx', slots')"
    and "\<not> er_drained rx \<Longrightarrow> fst (EdgeReceiver_try_recv rx slots) \<noteq> None"
proof -
  show "EdgeReceiver_try_recv rx' slots' = (None, rx', slots')"
    using assms unfolding EdgeReceiver_try_recv_def Let_def
    by (cases "decode_edge (es_edge (slots ! er_slot rx))"; cases "er_drained rx") auto
  show "\<not> er_drained rx \<Longrightarrow> fst (EdgeReceiver_try_recv rx slots) \<noteq> None"
    using assms(2) by (simp add: EdgeReceiver_try_recv_def Let_def split: option.split)
qed

section \<open>Waiting for an edge\<close>

text \<open>
  Where the receiver is in \<open>wait_for_change\<close>: not in it, past the creation of the future, past the check of the
  edge, at the await, and out of it again.
\<close>

datatype 't waiter = Outside | Created 't | EdgeChecked 't | Parked 't

record ('n, 't) Channel =
  ch_slots :: slots
  ch_rx :: EdgeReceiver
  ch_notify :: 'n
  ch_owed :: nat
  ch_waiter :: "'t waiter"

abbreviation ch_slot :: "('n, 't) Channel \<Rightarrow> EdgeSlot" where
  "ch_slot c \<equiv> ch_slots c ! er_slot (ch_rx c)"

definition channel_start :: "'n \<Rightarrow> ('n, 't) Channel" where
  "channel_start n =
     (case gate_edge_channel [] of
        (tx, rx, slots) \<Rightarrow>
          \<lparr> ch_slots = slots, ch_rx = rx, ch_notify = n, ch_owed = 0, ch_waiter = Outside \<rparr>)"

text \<open>
  Any thread that holds a handle stores an edge, clones the handle or drops it, and each store owes a
  \<open>notify_waiters\<close>, which comes as a step of its own. The receiver polls and waits, one operation a step.
\<close>

inductive channel_step ::
  "('n \<Rightarrow> 't \<times> 'n) \<Rightarrow> ('n \<Rightarrow> 'n) \<Rightarrow> ('n \<Rightarrow> 't \<Rightarrow> bool) \<Rightarrow> ('n, 't) Channel \<Rightarrow> ('n, 't) Channel \<Rightarrow> bool"
  for notified notify_waiters ready where
  store_edge: "0 < es_senders (ch_slot c) \<Longrightarrow>
    channel_step notified notify_waiters ready c
      (c \<lparr> ch_slots := send (er_slot (ch_rx c)) edge (ch_slots c), ch_owed := ch_owed c + 1 \<rparr>)"
| clone_handle: "0 < es_senders (ch_slot c) \<Longrightarrow>
    channel_step notified notify_waiters ready c (c \<lparr> ch_slots := sender_clone (er_slot (ch_rx c)) (ch_slots c) \<rparr>)"
| drop_handle: "0 < es_senders (ch_slot c) \<Longrightarrow>
    channel_step notified notify_waiters ready c
      (c \<lparr> ch_slots := sender_drop (er_slot (ch_rx c)) (ch_slots c),
           ch_owed := ch_owed c + (if es_senders (ch_slot c) = 1 then 1 else 0) \<rparr>)"
| notify: "0 < ch_owed c \<Longrightarrow>
    channel_step notified notify_waiters ready c
      (c \<lparr> ch_notify := notify_waiters (ch_notify c), ch_owed := ch_owed c - 1 \<rparr>)"
| poll: "ch_waiter c = Outside \<Longrightarrow> EdgeReceiver_try_recv (ch_rx c) (ch_slots c) = (edge_taken, rx, slots) \<Longrightarrow>
    channel_step notified notify_waiters ready c (c \<lparr> ch_slots := slots, ch_rx := rx \<rparr>)"
| create_future: "ch_waiter c = Outside \<Longrightarrow> notified (ch_notify c) = (t, n) \<Longrightarrow>
    channel_step notified notify_waiters ready c (c \<lparr> ch_notify := n, ch_waiter := Created t \<rparr>)"
| check_edge: "ch_waiter c = Created t \<Longrightarrow>
    channel_step notified notify_waiters ready c
      (c \<lparr> ch_waiter := if es_edge (ch_slot c) \<noteq> EDGE_EMPTY then Outside else EdgeChecked t \<rparr>)"
| check_dropped: "ch_waiter c = EdgeChecked t \<Longrightarrow>
    channel_step notified notify_waiters ready c
      (c \<lparr> ch_waiter := if es_sender_dropped (ch_slot c) then Outside else Parked t \<rparr>)"
| wake: "ch_waiter c = Parked t \<Longrightarrow> ready (ch_notify c) t \<Longrightarrow>
    channel_step notified notify_waiters ready c (c \<lparr> ch_waiter := Outside \<rparr>)"

inductive channel_reach ::
  "('n \<Rightarrow> 't \<times> 'n) \<Rightarrow> ('n \<Rightarrow> 'n) \<Rightarrow> ('n \<Rightarrow> 't \<Rightarrow> bool) \<Rightarrow> ('n, 't) Channel \<Rightarrow> bool"
  for notified notify_waiters ready where
  start: "channel_reach notified notify_waiters ready (channel_start n)"
| step: "channel_reach notified notify_waiters ready c \<Longrightarrow> channel_step notified notify_waiters ready c c' \<Longrightarrow>
    channel_reach notified notify_waiters ready c'"

text \<open>
  What \<open>wait_for_change\<close> relies on: a future created before a \<open>notify_waiters\<close> is ready after it, and stays so.
\<close>

definition notify_ok :: "('n \<Rightarrow> 't \<times> 'n) \<Rightarrow> ('n \<Rightarrow> 'n) \<Rightarrow> ('n \<Rightarrow> 't \<Rightarrow> bool) \<Rightarrow> bool" where
  "notify_ok notified notify_waiters ready \<longleftrightarrow>
     (\<forall>n k. ready ((notify_waiters ^^ Suc k) (snd (notified n))) (fst (notified n)))"

text \<open>
  The invariant: the waiter's future has seen some number of notifications, and an edge or a drop that came after
  the check of it has been notified or still owes its notification.
\<close>

definition future_age :: "('n \<Rightarrow> 't \<times> 'n) \<Rightarrow> ('n \<Rightarrow> 'n) \<Rightarrow> 't \<Rightarrow> 'n \<Rightarrow> nat \<Rightarrow> bool" where
  "future_age notified notify_waiters t n k \<longleftrightarrow>
     (\<exists>n0. t = fst (notified n0) \<and> n = (notify_waiters ^^ k) (snd (notified n0)))"

definition waiter_inv :: "('n \<Rightarrow> 't \<times> 'n) \<Rightarrow> ('n \<Rightarrow> 'n) \<Rightarrow> ('n, 't) Channel \<Rightarrow> bool" where
  "waiter_inv notified notify_waiters c \<longleftrightarrow>
     (case ch_waiter c of
        Outside \<Rightarrow> True
      | Created t \<Rightarrow> (\<exists>k. future_age notified notify_waiters t (ch_notify c) k)
      | EdgeChecked t \<Rightarrow>
          (\<exists>k. future_age notified notify_waiters t (ch_notify c) k \<and>
               (es_edge (ch_slot c) \<noteq> EDGE_EMPTY \<longrightarrow> 0 < k + ch_owed c))
      | Parked t \<Rightarrow>
          (\<exists>k. future_age notified notify_waiters t (ch_notify c) k \<and>
               (es_edge (ch_slot c) \<noteq> EDGE_EMPTY \<or> es_sender_dropped (ch_slot c) \<longrightarrow> 0 < k + ch_owed c)))"

definition channel_inv :: "('n \<Rightarrow> 't \<times> 'n) \<Rightarrow> ('n \<Rightarrow> 'n) \<Rightarrow> ('n, 't) Channel \<Rightarrow> bool" where
  "channel_inv notified notify_waiters c \<longleftrightarrow>
     er_slot (ch_rx c) < length (ch_slots c) \<and> waiter_inv notified notify_waiters c"

lemma future_age_created: "notified n = (t, n') \<Longrightarrow> future_age notified notify_waiters t n' 0"
  unfolding future_age_def by (rule exI [of _ n]) simp

lemma future_age_notify:
  "future_age notified notify_waiters t n k \<Longrightarrow> future_age notified notify_waiters t (notify_waiters n) (Suc k)"
  by (auto simp: future_age_def)

lemma future_age_ready:
  assumes "notify_ok notified notify_waiters ready" and "future_age notified notify_waiters t n k" and "0 < k + j"
  shows "ready ((notify_waiters ^^ j) n) t"
proof -
  obtain n0 where t: "t = fst (notified n0)" "n = (notify_waiters ^^ k) (snd (notified n0))"
    using assms(2) by (auto simp: future_age_def)
  obtain i where "j + k = Suc i" using assms(3) by (cases "j + k") auto
  then have "(notify_waiters ^^ j) n = (notify_waiters ^^ Suc i) (snd (notified n0))"
    by (metis t(2) comp_apply funpow_add)
  then show ?thesis using assms(1) by (simp add: notify_ok_def t(1) del: funpow.simps)
qed

lemma channel_step_inv:
  assumes "channel_step notified notify_waiters ready c c'" and "channel_inv notified notify_waiters c"
  shows "channel_inv notified notify_waiters c'"
  using assms
proof (cases rule: channel_step.cases)
  case (notify)
  then show ?thesis
    using assms(2) future_age_notify [of notified notify_waiters _ "ch_notify c"]
    by (fastforce simp: channel_inv_def waiter_inv_def split: waiter.splits)
next
  case (poll edge_taken rx slots)
  then show ?thesis using assms(2)
    by (auto simp: channel_inv_def waiter_inv_def EdgeReceiver_try_recv_def Let_def split: option.splits if_splits)
next
  case (create_future t n)
  then show ?thesis using assms(2) future_age_created [of notified "ch_notify c" t n notify_waiters]
    by (auto simp: channel_inv_def waiter_inv_def)
qed (use assms(2) in \<open>auto simp: channel_inv_def waiter_inv_def nth_send sender_clone_def sender_drop_def Let_def
       split: waiter.splits\<close>)

lemma channel_reach_inv:
  assumes "channel_reach notified notify_waiters ready c"
  shows "channel_inv notified notify_waiters c"
  using assms
proof induction
  case (start n)
  show ?case by (simp add: channel_inv_def waiter_inv_def channel_start_def gate_edge_channel_def)
next
  case (step c c')
  then show ?case by (blast intro: channel_step_inv)
qed


section \<open>No wake-up is lost\<close>

text \<open>
  C36. However senders and the receiver interleave, a receiver parked in \<open>wait_for_change\<close> while an edge is
  pending, or after the last sender is gone, wakes: its future is ready as soon as the stores made so far have made
  the \<open>notify_waiters\<close> call that follows each of them, at once when none is outstanding. The hypothesis on the
  \<open>Notify\<close> is that a future created before a \<open>notify_waiters\<close> is ready after it.
\<close>

theorem no_lost_wakeup:
  assumes "notify_ok notified notify_waiters ready"
    and "channel_reach notified notify_waiters ready c"
    and "ch_waiter c = Parked t"
    and "es_edge (ch_slot c) \<noteq> EDGE_EMPTY \<or> es_sender_dropped (ch_slot c)"
  shows "ready ((notify_waiters ^^ ch_owed c) (ch_notify c)) t"
proof -
  obtain k where "future_age notified notify_waiters t (ch_notify c) k" and "0 < k + ch_owed c"
    using channel_reach_inv [OF assms(2)] assms(3, 4) by (auto simp: channel_inv_def waiter_inv_def)
  then show ?thesis by (rule future_age_ready [OF assms(1)])
qed

text \<open>A counter as the \<open>Notify\<close>: a future is the count at its creation, ready once the count is beyond it.\<close>

definition count_notified :: "nat \<Rightarrow> nat \<times> nat" where
  "count_notified n = (n, n)"

definition count_ready :: "nat \<Rightarrow> nat \<Rightarrow> bool" where
  "count_ready n t \<longleftrightarrow> t < n"

lemma count_notify_ok: "notify_ok count_notified Suc count_ready"
proof -
  have "(Suc ^^ k) n = n + k" for k n by (induction k) simp_all
  then show ?thesis by (simp add: notify_ok_def count_notified_def count_ready_def)
qed

definition parked_channel :: "(nat, nat) Channel" where
  "parked_channel =
     \<lparr> ch_slots = [EdgeSlot_new \<lparr> es_edge := EDGE_WHILE_OPEN \<rparr>], ch_rx = \<lparr> er_slot = 0, er_drained = False \<rparr>,
       ch_notify = 0, ch_owed = 1, ch_waiter = Parked 0 \<rparr>"

lemma parked_channel_reached: "channel_reach count_notified Suc count_ready parked_channel"
proof -
  let ?reach = "channel_reach count_notified Suc count_ready"
  let ?c = "channel_start 0 :: (nat, nat) Channel"
  have "?reach (?c \<lparr> ch_notify := 0, ch_waiter := Created 0 \<rparr>)"
    by (rule channel_reach.step [OF channel_reach.start [of _ _ _ 0] channel_step.create_future])
      (simp_all add: channel_start_def gate_edge_channel_def count_notified_def)
  from channel_reach.step [OF this channel_step.check_edge [of _ 0]]
  have "?reach (?c \<lparr> ch_notify := 0, ch_waiter := EdgeChecked 0 \<rparr>)"
    by (simp add: channel_start_def gate_edge_channel_def EdgeSlot_new_def)
  from channel_reach.step [OF this channel_step.check_dropped [of _ 0]]
  have "?reach (?c \<lparr> ch_notify := 0, ch_waiter := Parked 0 \<rparr>)"
    by (simp add: channel_start_def gate_edge_channel_def EdgeSlot_new_def)
  from channel_reach.step [OF this channel_step.store_edge [of _ _ _ _ WhileOpen]]
  show ?thesis
    by (simp add: channel_start_def gate_edge_channel_def EdgeSlot_new_def send_def parked_channel_def)
qed

theorem no_lost_wakeup_witness: "count_ready ((Suc ^^ ch_owed parked_channel) (ch_notify parked_channel)) 0"
  by (rule no_lost_wakeup [OF count_notify_ok parked_channel_reached])
    (simp_all add: parked_channel_def edge_codes)

end
