(* ===== verification/Gate_Bus.thy ===== *)
theory Gate_Bus
  imports Gate_Channel Float64
begin

text \<open>
  The gate bus of \<open>schedule/gate_bus.rs\<close>: one upstream value, any number of subscriptions, each with an \<open>after\<close>
  and a \<open>while\<close> channel. \<open>tick\<close> holds the bus's lock and sends at most one edge on each channel, so that a poll that
  runs beside it comes before or after the edge of its channel; a tick is therefore one step here.
\<close>

section \<open>Specifications and the bus\<close>

datatype WhileOp = WhileLessThan | WhileGreaterThan

datatype AfterOpDir = AfterLessThan | AfterGreaterThan

record AfterSpec =
  as_op :: AfterOpDir
  as_threshold :: f64

record WhileSpec =
  ws_op :: WhileOp
  ws_threshold :: f64

record SubscriptionSpec =
  sp_after :: "AfterSpec option"
  sp_while :: "WhileSpec option"

record InitialState =
  is_after_already_fired :: bool
  is_while_gate_open :: "bool option"
  is_current_value :: f64

definition strict_eval :: "f64 \<Rightarrow> WhileOp \<Rightarrow> f64 \<Rightarrow> bool" where
  "strict_eval v op threshold \<longleftrightarrow>
     (if f64_is_nan v then False
      else case op of
             WhileLessThan \<Rightarrow> f64_lt v threshold
           | WhileGreaterThan \<Rightarrow> f64_lt threshold v)"

definition after_eval :: "f64 \<Rightarrow> AfterOpDir \<Rightarrow> f64 \<Rightarrow> bool" where
  "after_eval v op threshold \<longleftrightarrow>
     (if f64_is_nan v then False
      else case op of
             AfterLessThan \<Rightarrow> f64_lt v threshold
           | AfterGreaterThan \<Rightarrow> f64_lt threshold v)"

record Subscription =
  sub_spec :: SubscriptionSpec
  sub_after_tx :: "GateEdgeSender option"
  sub_while_tx :: "GateEdgeSender option"
  sub_after_fired :: bool
  sub_prev_while_open :: "bool option"

record GateBus =
  gb_subs :: "Subscription list"
  gb_last_value :: f64
  gb_has_value :: bool

definition GateBus_new :: GateBus where
  "GateBus_new = \<lparr> gb_subs = [], gb_last_value = f64_nan, gb_has_value = False \<rparr>"

definition send_to :: "GateEdgeSender option \<Rightarrow> GateEdge \<Rightarrow> slots \<Rightarrow> slots" where
  "send_to tx edge slots = (case tx of None \<Rightarrow> slots | Some tx \<Rightarrow> send tx edge slots)"

text \<open>The channel of a clause, when the specification has the clause.\<close>

definition channel_for :: "bool \<Rightarrow> slots \<Rightarrow> GateEdgeSender option \<times> EdgeReceiver option \<times> slots" where
  "channel_for wanted slots =
     (if wanted then (case gate_edge_channel slots of (tx, rx, slots) \<Rightarrow> (Some tx, Some rx, slots))
      else (None, None, slots))"

definition subscribe :: "SubscriptionSpec \<Rightarrow> GateBus \<Rightarrow> slots \<Rightarrow> (GateReceiver \<times> InitialState) \<times> GateBus \<times> slots" where
  "subscribe spec bus slots =
     (let current_value = (if gb_has_value bus then gb_last_value bus else f64_nan);
          (after_tx, after_rx, slots) = channel_for (sp_after spec \<noteq> None) slots;
          (while_tx, while_rx, slots) = channel_for (sp_while spec \<noteq> None) slots;
          after_already_fired =
            (case sp_after spec of None \<Rightarrow> False | Some a \<Rightarrow> after_eval current_value (as_op a) (as_threshold a));
          while_gate_open = map_option (\<lambda>w. strict_eval current_value (ws_op w) (ws_threshold w)) (sp_while spec);
          sub = \<lparr> sub_spec = spec, sub_after_tx = after_tx, sub_while_tx = while_tx,
                  sub_after_fired = after_already_fired, sub_prev_while_open = while_gate_open \<rparr>;
          slots = (if after_already_fired then send_to (sub_after_tx sub) AfterFired slots else slots)
      in ((\<lparr> gr_after_rx = after_rx, gr_while_rx = while_rx \<rparr>,
           \<lparr> is_after_already_fired = after_already_fired, is_while_gate_open = while_gate_open,
             is_current_value = current_value \<rparr>),
          bus \<lparr> gb_subs := gb_subs bus @ [sub] \<rparr>, slots))"

definition while_edge :: "bool \<Rightarrow> GateEdge" where
  "while_edge open = (if open then WhileOpen else WhileClose)"

definition subscribe_with_while_sender ::
  "WhileSpec \<Rightarrow> GateEdgeSender \<Rightarrow> GateBus \<Rightarrow> slots \<Rightarrow> InitialState \<times> GateBus \<times> slots" where
  "subscribe_with_while_sender spec while_tx bus slots =
     (let (current_value, while_gate_open, slots) =
            (if gb_has_value bus then
               (let v = gb_last_value bus; open = strict_eval v (ws_op spec) (ws_threshold spec)
                in (v, Some open, send while_tx (while_edge open) slots))
             else (f64_nan, None, slots));
          sub = \<lparr> sub_spec = \<lparr> sp_after = None, sp_while = Some spec \<rparr>, sub_after_tx = None,
                  sub_while_tx = Some while_tx, sub_after_fired = False, sub_prev_while_open = while_gate_open \<rparr>
      in (\<lparr> is_after_already_fired = False, is_while_gate_open = while_gate_open, is_current_value = current_value \<rparr>,
          bus \<lparr> gb_subs := gb_subs bus @ [sub] \<rparr>, slots))"

definition tick_after :: "f64 \<Rightarrow> Subscription \<Rightarrow> slots \<Rightarrow> Subscription \<times> slots" where
  "tick_after cur sub slots =
     (case sp_after (sub_spec sub) of
        None \<Rightarrow> (sub, slots)
      | Some a \<Rightarrow>
          if \<not> sub_after_fired sub \<and> after_eval cur (as_op a) (as_threshold a)
          then (sub \<lparr> sub_after_fired := True \<rparr>, send_to (sub_after_tx sub) AfterFired slots)
          else (sub, slots))"

definition tick_while :: "f64 \<Rightarrow> Subscription \<Rightarrow> slots \<Rightarrow> Subscription \<times> slots" where
  "tick_while cur sub slots =
     (case sp_while (sub_spec sub) of
        None \<Rightarrow> (sub, slots)
      | Some w \<Rightarrow>
          let now_open = strict_eval cur (ws_op w) (ws_threshold w)
          in if sub_prev_while_open sub \<noteq> Some now_open
             then (sub \<lparr> sub_prev_while_open := Some now_open \<rparr>,
                   send_to (sub_while_tx sub) (while_edge now_open) slots)
             else (sub, slots))"

definition tick_sub :: "f64 \<Rightarrow> Subscription \<Rightarrow> slots \<Rightarrow> Subscription \<times> slots" where
  "tick_sub cur sub slots = (case tick_after cur sub slots of (sub, slots) \<Rightarrow> tick_while cur sub slots)"

fun tick_subs :: "f64 \<Rightarrow> Subscription list \<Rightarrow> slots \<Rightarrow> Subscription list \<times> slots" where
  "tick_subs cur [] slots = ([], slots)"
| "tick_subs cur (sub # subs) slots =
     (case tick_sub cur sub slots of (sub, slots) \<Rightarrow>
        case tick_subs cur subs slots of (subs, slots) \<Rightarrow> (sub # subs, slots))"

definition tick :: "f64 \<Rightarrow> GateBus \<Rightarrow> slots \<Rightarrow> GateBus \<times> slots" where
  "tick cur bus slots =
     (let unchanged = gb_has_value bus \<and> f64_bit_eq (gb_last_value bus) cur;
          bus = bus \<lparr> gb_last_value := cur, gb_has_value := True \<rparr>
      in if unchanged then (bus, slots)
         else (case tick_subs cur (gb_subs bus) slots of (subs, slots) \<Rightarrow> (bus \<lparr> gb_subs := subs \<rparr>, slots)))"

fun broadcast_loop :: "Subscription list \<Rightarrow> slots \<Rightarrow> slots" where
  "broadcast_loop [] slots = slots"
| "broadcast_loop (sub # subs) slots =
     broadcast_loop subs (send_to (sub_after_tx sub) UpstreamGone (send_to (sub_while_tx sub) UpstreamGone slots))"

definition broadcast_upstream_gone :: "GateBus \<Rightarrow> slots \<Rightarrow> slots" where
  "broadcast_upstream_gone bus slots = broadcast_loop (gb_subs bus) slots"

section \<open>Subscribers at work\<close>

text \<open>
  A subscriber with what it has learnt: the gate's state it was given when it subscribed, the edges it has received
  since, and, for the statements below, the values published since.
\<close>

record Observer =
  ob_rx :: GateReceiver
  ob_init :: "bool option"
  ob_seen :: "GateEdge list"
  ob_values :: "f64 list"

record GateWorld =
  gw_slots :: slots
  gw_bus :: GateBus
  gw_obs :: "Observer list"

definition gate_world :: GateWorld where
  "gate_world = \<lparr> gw_slots = [], gw_bus = GateBus_new, gw_obs = [] \<rparr>"

definition known_values :: "GateBus \<Rightarrow> f64 list" where
  "known_values bus = (if gb_has_value bus then [gb_last_value bus] else [])"

definition new_observer :: "GateReceiver \<Rightarrow> InitialState \<Rightarrow> GateBus \<Rightarrow> Observer" where
  "new_observer rx init bus =
     \<lparr> ob_rx = rx, ob_init = is_while_gate_open init, ob_seen = [], ob_values = known_values bus \<rparr>"

definition gate_subscribe :: "SubscriptionSpec \<Rightarrow> GateWorld \<Rightarrow> GateWorld" where
  "gate_subscribe spec w =
     (case subscribe spec (gw_bus w) (gw_slots w) of
        ((rx, init), bus, slots) \<Rightarrow>
          \<lparr> gw_slots = slots, gw_bus = bus, gw_obs = gw_obs w @ [new_observer rx init (gw_bus w)] \<rparr>)"

text \<open>A channel of the subscriber's own, attached to the bus.\<close>

definition gate_attach :: "WhileSpec \<Rightarrow> GateWorld \<Rightarrow> GateWorld" where
  "gate_attach spec w =
     (case gate_edge_channel (gw_slots w) of
        (tx, rx, slots) \<Rightarrow>
          (case subscribe_with_while_sender spec tx (gw_bus w) slots of
             (init, bus, slots) \<Rightarrow>
               \<lparr> gw_slots = slots, gw_bus = bus,
                 gw_obs = gw_obs w @ [new_observer (GateReceiver_from_while_rx rx) init (gw_bus w)] \<rparr>))"

definition gate_tick :: "f64 \<Rightarrow> GateWorld \<Rightarrow> GateWorld" where
  "gate_tick cur w =
     (case tick cur (gw_bus w) (gw_slots w) of
        (bus, slots) \<Rightarrow>
          \<lparr> gw_slots = slots, gw_bus = bus,
            gw_obs = map (\<lambda>ob. ob \<lparr> ob_values := ob_values ob @ [cur] \<rparr>) (gw_obs w) \<rparr>)"

definition observe :: "GateEdge option \<Rightarrow> GateReceiver \<Rightarrow> Observer \<Rightarrow> Observer" where
  "observe edge rx ob = ob \<lparr> ob_rx := rx, ob_seen := ob_seen ob @ (case edge of None \<Rightarrow> [] | Some e \<Rightarrow> [e]) \<rparr>"

definition gate_poll :: "nat \<Rightarrow> GateWorld \<Rightarrow> GateEdge option \<times> GateWorld" where
  "gate_poll i w =
     (case GateReceiver_try_recv (ob_rx (gw_obs w ! i)) (gw_slots w) of
        (edge, rx, slots) \<Rightarrow>
          (edge, w \<lparr> gw_slots := slots, gw_obs := (gw_obs w)[i := observe edge rx (gw_obs w ! i)] \<rparr>))"

inductive gate_reach :: "GateWorld \<Rightarrow> bool" where
  start: "gate_reach gate_world"
| subscribe: "gate_reach w \<Longrightarrow> gate_reach (gate_subscribe spec w)"
| attach: "gate_reach w \<Longrightarrow> gate_reach (gate_attach wspec w)"
| tick: "gate_reach w \<Longrightarrow> gate_reach (gate_tick cur w)"
| poll: "gate_reach w \<Longrightarrow> i < length (gw_obs w) \<Longrightarrow> gate_reach (snd (gate_poll i w))"

text \<open>The state of the gate as the subscriber knows it.\<close>

definition learn :: "GateEdge \<Rightarrow> bool option \<Rightarrow> bool option" where
  "learn edge view = (case edge of WhileOpen \<Rightarrow> Some True | WhileClose \<Rightarrow> Some False | _ \<Rightarrow> view)"

definition while_view :: "Observer \<Rightarrow> bool option" where
  "while_view ob = fold learn (ob_seen ob) (ob_init ob)"

end
