(* ===== verification/Gate_View.thy ===== *)
theory Gate_View
  imports Gate_Bus
begin

text \<open>
  What a subscriber of a gate bus knows (\<open>schedule/gate_bus.rs\<close>). The invariant ties each subscriber to its
  subscription: its receivers and the subscription's senders share live slots, no slot serves two clauses, the
  pending edge brings the subscriber's view to the state the bus last compared with, and that state is the
  comparison of the value published last. It is kept by subscribing, attaching a sender, ticking and polling, in any order.
\<close>

section \<open>The invariant\<close>

text \<open>A receiver and a sender of one live channel, present when the clause is.\<close>

definition linked :: "bool \<Rightarrow> EdgeReceiver option \<Rightarrow> GateEdgeSender option \<Rightarrow> slots \<Rightarrow> bool" where
  "linked wanted rx tx slots \<longleftrightarrow>
     (if wanted
      then (\<exists>r t. rx = Some r \<and> tx = Some t \<and> er_slot r = t \<and> \<not> er_drained r \<and> t < length slots
              \<and> \<not> es_sender_dropped (slots ! t))
      else rx = None \<and> tx = None)"

definition pending :: "GateEdgeSender option \<Rightarrow> slots \<Rightarrow> GateEdge option" where
  "pending tx slots = (case tx of None \<Rightarrow> None | Some tx \<Rightarrow> decode_edge (es_edge (slots ! tx)))"

definition after_ok :: "slots \<Rightarrow> Observer \<Rightarrow> Subscription \<Rightarrow> bool" where
  "after_ok slots ob sub \<longleftrightarrow>
     linked (sp_after (sub_spec sub) \<noteq> None) (gr_after_rx (ob_rx ob)) (sub_after_tx sub) slots
     \<and> pending (sub_after_tx sub) slots \<in> {None, Some AfterFired}
     \<and> (\<forall>a. sp_after (sub_spec sub) = Some a \<longrightarrow>
          sub_after_fired sub = (\<exists>v \<in> set (ob_values ob). after_eval v (as_op a) (as_threshold a)))
     \<and> count_list (ob_seen ob) AfterFired + (if pending (sub_after_tx sub) slots = None then 0 else 1)
         = (if sub_after_fired sub then 1 else 0)"

definition learn_pending :: "GateEdge option \<Rightarrow> bool option \<Rightarrow> bool option" where
  "learn_pending edge view = (case edge of None \<Rightarrow> view | Some e \<Rightarrow> learn e view)"

lemma learn_pending_simps [simp]: "learn_pending None v = v" "learn_pending (Some e) v = learn e v"
  by (simp_all add: learn_pending_def)

definition while_ok :: "GateBus \<Rightarrow> slots \<Rightarrow> Observer \<Rightarrow> Subscription \<Rightarrow> bool" where
  "while_ok bus slots ob sub \<longleftrightarrow>
     linked (sp_while (sub_spec sub) \<noteq> None) (gr_while_rx (ob_rx ob)) (sub_while_tx sub) slots
     \<and> pending (sub_while_tx sub) slots \<in> {None, Some WhileOpen, Some WhileClose}
     \<and> (\<forall>s. sp_while (sub_spec sub) = Some s \<longrightarrow>
          learn_pending (pending (sub_while_tx sub) slots) (while_view ob)
            = sub_prev_while_open sub
          \<and> sub_prev_while_open sub
            = (if gb_has_value bus then Some (strict_eval (gb_last_value bus) (ws_op s) (ws_threshold s)) else ob_init ob))"

definition observer_ok :: "GateBus \<Rightarrow> slots \<Rightarrow> Observer \<Rightarrow> Subscription \<Rightarrow> bool" where
  "observer_ok bus slots ob sub \<longleftrightarrow>
     after_ok slots ob sub \<and> while_ok bus slots ob sub
     \<and> (gb_has_value bus \<longrightarrow> gb_last_value bus \<in> set (ob_values ob))"

definition sub_slots :: "Subscription \<Rightarrow> nat list" where
  "sub_slots sub =
     (case sub_after_tx sub of None \<Rightarrow> [] | Some tx \<Rightarrow> [tx]) @ (case sub_while_tx sub of None \<Rightarrow> [] | Some tx \<Rightarrow> [tx])"

definition gate_inv :: "GateWorld \<Rightarrow> bool" where
  "gate_inv w \<longleftrightarrow>
     list_all2 (observer_ok (gw_bus w) (gw_slots w)) (gw_obs w) (gb_subs (gw_bus w))
     \<and> distinct (concat (map sub_slots (gb_subs (gw_bus w))))"

lemmas observer_defs = observer_ok_def after_ok_def while_ok_def linked_def pending_def

lemma observer_ok_slots:
  assumes "observer_ok bus slots ob sub" and "tx \<in> set (sub_slots sub)"
  shows "tx < length slots"
  using assms by (auto simp: observer_defs sub_slots_def split: if_splits option.splits)

text \<open>Only its own slots matter to a subscription.\<close>

lemma observer_ok_frame:
  assumes "observer_ok bus slots ob sub" and "length slots \<le> length slots'"
    and "\<And>tx. tx \<in> set (sub_slots sub) \<Longrightarrow> slots' ! tx = slots ! tx"
    and "gb_has_value bus' = gb_has_value bus" and "gb_last_value bus' = gb_last_value bus"
  shows "observer_ok bus' slots' ob sub"
proof -
  have "pending (sub_after_tx sub) slots' = pending (sub_after_tx sub) slots"
    and "pending (sub_while_tx sub) slots' = pending (sub_while_tx sub) slots"
    using assms(3) by (auto simp: pending_def sub_slots_def split: option.split)
  moreover have "linked wanted rx tx slots \<Longrightarrow> set_option tx \<subseteq> set (sub_slots sub) \<Longrightarrow> linked wanted rx tx slots'"
    for wanted rx tx
    using assms(2, 3) by (auto simp: linked_def split: if_splits)
  moreover have "set_option (sub_after_tx sub) \<subseteq> set (sub_slots sub)" "set_option (sub_while_tx sub) \<subseteq> set (sub_slots sub)"
    by (auto simp: sub_slots_def split: option.split)
  ultimately show ?thesis
    using assms(1, 4, 5) unfolding observer_ok_def after_ok_def while_ok_def by simp
qed

section \<open>A tick\<close>

definition moved :: "nat list \<Rightarrow> slots \<Rightarrow> slots \<Rightarrow> bool" where
  "moved txs slots slots' \<longleftrightarrow> length slots' = length slots \<and> (\<forall>i. i \<notin> set txs \<longrightarrow> slots' ! i = slots ! i)"

lemma moved_refl [simp]: "moved txs slots slots"
  by (simp add: moved_def)

lemma moved_trans: "moved txs a b \<Longrightarrow> moved txs' b c \<Longrightarrow> moved (txs @ txs') a c"
  by (simp add: moved_def)

lemma moved_send_to: "moved (case tx of None \<Rightarrow> [] | Some tx \<Rightarrow> [tx]) slots (send_to tx e slots)"
  by (auto simp: moved_def send_to_def nth_send split: option.split)

lemma tick_after_moves:
  "tick_after cur sub slots = (sub', slots') \<Longrightarrow>
   moved (case sub_after_tx sub of None \<Rightarrow> [] | Some tx \<Rightarrow> [tx]) slots slots'
   \<and> sub_slots sub' = sub_slots sub \<and> sub_spec sub' = sub_spec sub \<and> sub_while_tx sub' = sub_while_tx sub
   \<and> sub_after_tx sub' = sub_after_tx sub \<and> sub_prev_while_open sub' = sub_prev_while_open sub"
  using moved_send_to [of "sub_after_tx sub" slots AfterFired]
  by (auto simp: tick_after_def sub_slots_def split: option.splits if_splits)

lemma tick_while_moves:
  "tick_while cur sub slots = (sub', slots') \<Longrightarrow>
   moved (case sub_while_tx sub of None \<Rightarrow> [] | Some tx \<Rightarrow> [tx]) slots slots'
   \<and> sub_slots sub' = sub_slots sub \<and> sub_spec sub' = sub_spec sub \<and> sub_after_tx sub' = sub_after_tx sub
   \<and> sub_while_tx sub' = sub_while_tx sub \<and> sub_after_fired sub' = sub_after_fired sub"
  using moved_send_to [of "sub_while_tx sub" slots]
  by (auto simp: tick_while_def sub_slots_def Let_def split: option.splits if_splits)

lemma pending_send_to: "linked True rx tx slots \<Longrightarrow> pending tx (send_to tx e slots) = Some e"
  by (auto simp: linked_def pending_def send_to_def nth_send)

lemma linked_send_to: "linked wanted rx tx slots \<Longrightarrow> linked wanted rx tx (send_to tx' e slots)"
  by (auto simp: linked_def send_to_def nth_send split: option.split if_splits)

lemma tick_after_ok:
  assumes "after_ok slots ob sub" and "tick_after cur sub slots = (sub', slots')"
  shows "after_ok slots' (ob \<lparr> ob_values := ob_values ob @ [cur] \<rparr>) sub'"
proof (cases "sp_after (sub_spec sub)")
  case None
  with assms show ?thesis by (simp add: after_ok_def tick_after_def)
next
  case (Some a)
  note link = assms(1) [unfolded after_ok_def, THEN conjunct1]
  show ?thesis
  proof (cases "\<not> sub_after_fired sub \<and> after_eval cur (as_op a) (as_threshold a)")
    case True
    with assms(2) Some have t: "sub' = sub \<lparr> sub_after_fired := True \<rparr>" "slots' = send_to (sub_after_tx sub) AfterFired slots"
      by (simp_all add: tick_after_def)
    have "pending (sub_after_tx sub) slots' = Some AfterFired"
      unfolding t by (rule pending_send_to) (use link Some in simp)
    then show ?thesis
      using assms(1) True Some linked_send_to [OF link, of "sub_after_tx sub" AfterFired]
      unfolding after_ok_def t by simp
  next
    case False
    with assms(2) Some have "sub' = sub" "slots' = slots" by (simp_all add: tick_after_def)
    with assms(1) False Some show ?thesis unfolding after_ok_def by auto
  qed
qed

lemma while_view_values [simp]: "while_view (ob \<lparr> ob_values := vs \<rparr>) = while_view ob"
  by (simp add: while_view_def)

lemma learn_while_edge [simp]: "learn (while_edge b) v = Some b"
  by (simp add: learn_def while_edge_def)

lemma while_edge_kinds [simp]: "Some (while_edge b) \<in> {None, Some WhileOpen, Some WhileClose}"
  by (simp add: while_edge_def)

lemma tick_while_ok:
  assumes "while_ok bus slots ob sub" and "tick_while cur sub slots = (sub', slots')"
  shows "while_ok (bus \<lparr> gb_last_value := cur, gb_has_value := True \<rparr>) slots'
           (ob \<lparr> ob_values := vs \<rparr>) sub'"
proof (cases "sp_while (sub_spec sub)")
  case None
  with assms show ?thesis by (simp add: while_ok_def tick_while_def)
next
  case (Some s)
  let ?open = "strict_eval cur (ws_op s) (ws_threshold s)"
  note link = assms(1) [unfolded while_ok_def, THEN conjunct1]
  show ?thesis
  proof (cases "sub_prev_while_open sub = Some ?open")
    case True
    with assms(2) Some have "sub' = sub" "slots' = slots" by (simp_all add: tick_while_def Let_def)
    with assms(1) True Some show ?thesis unfolding while_ok_def by simp
  next
    case False
    with assms(2) Some have t: "sub' = sub \<lparr> sub_prev_while_open := Some ?open \<rparr>"
        "slots' = send_to (sub_while_tx sub) (while_edge ?open) slots"
      by (simp_all add: tick_while_def Let_def)
    have "pending (sub_while_tx sub) slots' = Some (while_edge ?open)"
      unfolding t by (rule pending_send_to) (use link Some in simp)
    then show ?thesis
      using Some linked_send_to [OF link, of "sub_while_tx sub" "while_edge ?open"] while_edge_kinds [of ?open]
      unfolding while_ok_def t by simp
  qed
qed


abbreviation ticked :: "f64 \<Rightarrow> GateBus \<Rightarrow> GateBus" where
  "ticked cur bus \<equiv> bus \<lparr> gb_last_value := cur, gb_has_value := True \<rparr>"

abbreviation heard :: "f64 \<Rightarrow> Observer \<Rightarrow> Observer" where
  "heard cur ob \<equiv> ob \<lparr> ob_values := ob_values ob @ [cur] \<rparr>"

lemma after_ok_moved:
  assumes "after_ok slots ob sub" and "moved txs slots slots'" and "set_option (sub_after_tx sub) \<inter> set txs = {}"
    and "sub_spec sub' = sub_spec sub" "sub_after_tx sub' = sub_after_tx sub" "sub_after_fired sub' = sub_after_fired sub"
  shows "after_ok slots' ob sub'"
proof -
  have "pending (sub_after_tx sub) slots' = pending (sub_after_tx sub) slots"
    using assms(2, 3) by (auto simp: pending_def moved_def split: option.split)
  moreover have "linked wanted rx (sub_after_tx sub) slots \<Longrightarrow> linked wanted rx (sub_after_tx sub) slots'" for wanted rx
    using assms(2, 3) by (auto simp: linked_def moved_def split: if_splits)
  ultimately show ?thesis using assms(1, 4-) by (simp add: after_ok_def)
qed

lemma while_ok_moved:
  assumes "while_ok bus slots ob sub" and "moved txs slots slots'" and "set_option (sub_while_tx sub) \<inter> set txs = {}"
    and "sub_spec sub' = sub_spec sub" "sub_while_tx sub' = sub_while_tx sub"
        "sub_prev_while_open sub' = sub_prev_while_open sub"
  shows "while_ok bus slots' ob sub'"
proof -
  have "pending (sub_while_tx sub) slots' = pending (sub_while_tx sub) slots"
    using assms(2, 3) by (auto simp: pending_def moved_def split: option.split)
  moreover have "linked wanted rx (sub_while_tx sub) slots \<Longrightarrow> linked wanted rx (sub_while_tx sub) slots'" for wanted rx
    using assms(2, 3) by (auto simp: linked_def moved_def split: if_splits)
  ultimately show ?thesis using assms(1, 4-) by (simp add: while_ok_def)
qed

lemma sub_slots_disjoint:
  assumes "distinct (sub_slots sub)"
  shows "set_option (sub_while_tx sub) \<inter> set (case sub_after_tx sub of None \<Rightarrow> [] | Some tx \<Rightarrow> [tx]) = {}"
    and "set_option (sub_after_tx sub) \<inter> set (case sub_while_tx sub of None \<Rightarrow> [] | Some tx \<Rightarrow> [tx]) = {}"
  using assms by (auto simp: sub_slots_def split: option.splits)

lemma tick_sub_ok:
  assumes ok: "observer_ok bus slots ob sub" and dist: "distinct (sub_slots sub)"
    and tick: "tick_sub cur sub slots = (sub', slots')"
  shows "observer_ok (ticked cur bus) slots' (heard cur ob) sub'"
    and "sub_slots sub' = sub_slots sub" and "moved (sub_slots sub) slots slots'"
proof -
  obtain sub1 slots1 where a: "tick_after cur sub slots = (sub1, slots1)"
      and w: "tick_while cur sub1 slots1 = (sub', slots')"
    using tick by (auto simp: tick_sub_def split: prod.splits)
  note am = tick_after_moves [OF a] and wm = tick_while_moves [OF w]
  note disj = sub_slots_disjoint [OF dist]
  have a1: "after_ok slots1 (heard cur ob) sub1"
    using ok a by (auto simp: observer_ok_def intro: tick_after_ok)
  have "set_option (sub_after_tx sub1) \<inter> set (case sub_while_tx sub1 of None \<Rightarrow> [] | Some tx \<Rightarrow> [tx]) = {}"
    using am disj(2) by simp
  with wm have "after_ok slots' (heard cur ob) sub'" by (blast intro: after_ok_moved [OF a1])
  moreover have "while_ok bus slots1 ob sub1"
    using ok am disj(1) unfolding observer_ok_def by (blast intro: while_ok_moved)
  then have "while_ok (ticked cur bus) slots' (heard cur ob) sub'"
    by (rule tick_while_ok [OF _ w])
  ultimately show "observer_ok (ticked cur bus) slots' (heard cur ob) sub'" by (simp add: observer_ok_def)
  show "sub_slots sub' = sub_slots sub" using am wm by simp
  have "moved ((case sub_after_tx sub of None \<Rightarrow> [] | Some tx \<Rightarrow> [tx]) @
               (case sub_while_tx sub1 of None \<Rightarrow> [] | Some tx \<Rightarrow> [tx])) slots slots'"
    using am wm by (blast intro: moved_trans)
  then show "moved (sub_slots sub) slots slots'" using am by (simp add: sub_slots_def)
qed

lemma observer_ok_moved:
  assumes "observer_ok bus slots ob sub" and "moved txs slots slots'" and "set (sub_slots sub) \<inter> set txs = {}"
  shows "observer_ok bus slots' ob sub"
  using assms(2, 3) by (intro observer_ok_frame [OF assms(1)]) (auto simp: moved_def)

lemma tick_subs_ok:
  assumes "list_all2 (observer_ok bus slots) obs subs" and "distinct (concat (map sub_slots subs))"
    and "tick_subs cur subs slots = (subs', slots')"
  shows "list_all2 (observer_ok (ticked cur bus) slots') (map (heard cur) obs) subs'
    \<and> map sub_slots subs' = map sub_slots subs \<and> moved (concat (map sub_slots subs)) slots slots'"
  using assms
proof (induction subs arbitrary: obs slots subs' slots' rule: list.induct)
  case Nil
  have "obs = []" using Nil.prems(1) by (cases obs) simp_all
  with Nil.prems(3) show ?case by simp
next
  case (Cons sub subs)
  obtain ob obs' where obs: "obs = ob # obs'" and ok: "observer_ok bus slots ob sub"
      and oks: "list_all2 (observer_ok bus slots) obs' subs"
    using Cons.prems(1) by (cases obs) auto
  obtain sub1 slots1 subs1 where t: "tick_sub cur sub slots = (sub1, slots1)"
      and ts: "tick_subs cur subs slots1 = (subs1, slots')" and subs': "subs' = sub1 # subs1"
    using Cons.prems(3) by (auto split: prod.splits)
  have dist: "distinct (sub_slots sub)" "distinct (concat (map sub_slots subs))"
      and apart: "set (sub_slots sub) \<inter> set (concat (map sub_slots subs)) = {}"
    using Cons.prems(2) by auto
  note one = tick_sub_ok [OF ok dist(1) t]
  have "list_all2 (observer_ok bus slots1) obs' subs"
    using oks
  proof (rule list.rel_mono_strong)
    fix o' s assume "s \<in> set subs" "observer_ok bus slots o' s"
    then show "observer_ok bus slots1 o' s" using apart by (intro observer_ok_moved [OF _ one(3)]) auto
  qed
  note rest = Cons.IH [OF this dist(2) ts]
  have "observer_ok (ticked cur bus) slots' (heard cur ob) sub1"
    using rest apart one(2) by (intro observer_ok_moved [OF one(1)]) auto
  moreover have "moved (sub_slots sub @ concat (map sub_slots subs)) slots slots'"
    using one(3) rest by (blast intro: moved_trans)
  ultimately show ?case using rest one(2) by (simp add: obs subs')
qed


lemma after_ok_values:
  "set vs = set (ob_values ob) \<Longrightarrow> after_ok slots (ob \<lparr> ob_values := vs \<rparr>) sub = after_ok slots ob sub"
  by (simp add: after_ok_def)

lemma gate_tick_inv:
  assumes "gate_inv w"
  shows "gate_inv (gate_tick cur w)"
proof (cases "gb_has_value (gw_bus w) \<and> gb_last_value (gw_bus w) = cur")
  case True
  have "observer_ok (ticked cur (gw_bus w)) slots (heard cur ob) sub" if "observer_ok (gw_bus w) slots ob sub" for slots ob sub
  proof -
    have "set (ob_values ob @ [cur]) = set (ob_values ob)" using that True by (auto simp: observer_ok_def)
    from after_ok_values [OF this] that True show ?thesis by (simp add: observer_ok_def while_ok_def)
  qed
  then have "list_all2 (observer_ok (ticked cur (gw_bus w)) (gw_slots w)) (map (heard cur) (gw_obs w)) (gb_subs (gw_bus w))"
    using assms unfolding gate_inv_def list.rel_map by (auto intro: list.rel_mono_strong)
  with assms True show ?thesis
    by (simp add: gate_inv_def gate_tick_def tick_def f64_bit_eq_def Let_def)
next
  case False
  obtain subs slots where t: "tick_subs cur (gb_subs (gw_bus w)) (gw_slots w) = (subs, slots)" by fastforce
  have w: "gate_tick cur w = \<lparr> gw_slots = slots, gw_bus = (ticked cur (gw_bus w)) \<lparr> gb_subs := subs \<rparr>,
      gw_obs = map (heard cur) (gw_obs w) \<rparr>"
    using False t by (auto simp: gate_tick_def tick_def f64_bit_eq_def Let_def)
  from assms have inv: "list_all2 (observer_ok (gw_bus w) (gw_slots w)) (gw_obs w) (gb_subs (gw_bus w))"
      "distinct (concat (map sub_slots (gb_subs (gw_bus w))))"
    by (simp_all add: gate_inv_def)
  note ok = tick_subs_ok [OF inv t]
  have "list_all2 (observer_ok ((ticked cur (gw_bus w)) \<lparr> gb_subs := subs \<rparr>) slots) (map (heard cur) (gw_obs w)) subs"
    by (rule list.rel_mono_strong [OF ok [THEN conjunct1]]) (auto intro: observer_ok_frame)
  then show ?thesis using ok inv(2) by (simp add: gate_inv_def w)
qed

section \<open>A new subscription\<close>

lemma gate_inv_append:
  assumes "gate_inv w" and "observer_ok bus slots ob sub" and "gb_subs bus = gb_subs (gw_bus w) @ [sub]"
    and "gb_has_value bus = gb_has_value (gw_bus w)" and "gb_last_value bus = gb_last_value (gw_bus w)"
    and "length (gw_slots w) \<le> length slots" and "\<And>i. i < length (gw_slots w) \<Longrightarrow> slots ! i = gw_slots w ! i"
    and "distinct (sub_slots sub)" and "\<And>tx. tx \<in> set (sub_slots sub) \<Longrightarrow> length (gw_slots w) \<le> tx"
  shows "gate_inv \<lparr> gw_slots = slots, gw_bus = bus, gw_obs = gw_obs w @ [ob] \<rparr>"
proof -
  have old: "list_all2 (observer_ok (gw_bus w) (gw_slots w)) (gw_obs w) (gb_subs (gw_bus w))"
    using assms(1) by (simp add: gate_inv_def)
  have below: "tx < length (gw_slots w)" if "tx \<in> set (concat (map sub_slots (gb_subs (gw_bus w))))" for tx
    using that old observer_ok_slots
    by (fastforce simp: list_all2_conv_all_nth in_set_conv_nth [of _ "gb_subs (gw_bus w)"])
  have "list_all2 (observer_ok bus slots) (gw_obs w) (gb_subs (gw_bus w))"
    using old
  proof (rule list.rel_mono_strong)
    fix o' s assume "observer_ok (gw_bus w) (gw_slots w) o' s"
    then show "observer_ok bus slots o' s"
      using assms(4-7) observer_ok_slots by (blast intro: observer_ok_frame)
  qed
  moreover have "set (sub_slots sub) \<inter> set (concat (map sub_slots (gb_subs (gw_bus w)))) = {}"
    using below assms(9) by (meson disjoint_iff linorder_not_le)
  ultimately show ?thesis
    using assms(1, 2, 3, 8) by (auto simp: gate_inv_def intro: list_all2_appendI)
qed

lemma nth_channel [simp]:
  "i < length slots \<Longrightarrow> (slots @ [s]) ! i = slots ! i" "i < length slots \<Longrightarrow> (slots @ [s, t]) ! i = slots ! i"
  "(slots @ [s, t]) ! Suc (length slots) = t" "(slots @ [s, t]) ! length slots = s"
  by (simp_all add: nth_append)

lemma eval_nan [simp]: "\<not> after_eval f64_nan op t" "\<not> strict_eval f64_nan wop t"
  by (simp_all add: after_eval_def strict_eval_def)

text \<open>The subscription and the slots \<open>subscribe\<close> makes, in closed form.\<close>

definition fresh_slot :: "GateEdge option \<Rightarrow> EdgeSlot" where
  "fresh_slot edge = EdgeSlot_new \<lparr> es_edge := (case edge of None \<Rightarrow> EDGE_EMPTY | Some e \<Rightarrow> encode_edge e) \<rparr>"

lemma fresh_slot_simps [simp]:
  "decode_edge (es_edge (fresh_slot edge)) = edge" "\<not> es_sender_dropped (fresh_slot edge)"
  by (auto simp: fresh_slot_def EdgeSlot_new_def split: option.split)

lemma fresh_slot_new: "EdgeSlot_new = fresh_slot None" "EdgeSlot_new \<lparr> es_edge := encode_edge e \<rparr> = fresh_slot (Some e)"
  by (simp_all add: fresh_slot_def EdgeSlot_new_def)

abbreviation current_value :: "GateBus \<Rightarrow> f64" where
  "current_value bus \<equiv> if gb_has_value bus then gb_last_value bus else f64_nan"

definition fires :: "SubscriptionSpec \<Rightarrow> f64 \<Rightarrow> bool" where
  "fires spec v \<longleftrightarrow> (case sp_after spec of None \<Rightarrow> False | Some a \<Rightarrow> after_eval v (as_op a) (as_threshold a))"

definition opens :: "SubscriptionSpec \<Rightarrow> f64 \<Rightarrow> bool option" where
  "opens spec v = map_option (\<lambda>w. strict_eval v (ws_op w) (ws_threshold w)) (sp_while spec)"

definition subscribed :: "SubscriptionSpec \<Rightarrow> f64 \<Rightarrow> nat \<Rightarrow> Subscription" where
  "subscribed spec v n =
     \<lparr> sub_spec = spec, sub_after_tx = map_option (\<lambda>_. n) (sp_after spec),
       sub_while_tx = map_option (\<lambda>_. if sp_after spec = None then n else Suc n) (sp_while spec),
       sub_after_fired = fires spec v, sub_prev_while_open = opens spec v \<rparr>"

definition subscribed_slots :: "SubscriptionSpec \<Rightarrow> f64 \<Rightarrow> slots" where
  "subscribed_slots spec v =
     (if sp_after spec = None then [] else [fresh_slot (if fires spec v then Some AfterFired else None)])
     @ (if sp_while spec = None then [] else [fresh_slot None])"

definition receiver_of :: "nat \<Rightarrow> EdgeReceiver" where
  "receiver_of n = \<lparr> er_slot = n, er_drained = False \<rparr>"

lemma subscribe_eq:
  "subscribe spec bus slots =
     (let v = current_value bus; sub = subscribed spec v (length slots)
      in ((\<lparr> gr_after_rx = map_option receiver_of (sub_after_tx sub), gr_while_rx = map_option receiver_of (sub_while_tx sub) \<rparr>,
           \<lparr> is_after_already_fired = fires spec v, is_while_gate_open = opens spec v, is_current_value = v \<rparr>),
          bus \<lparr> gb_subs := gb_subs bus @ [sub] \<rparr>, slots @ subscribed_slots spec v))"
proof -
  have "send (length slots) e (slots @ [EdgeSlot_new]) = slots @ [fresh_slot (Some e)]"
    "send (length slots) e (slots @ [EdgeSlot_new, s]) = slots @ [fresh_slot (Some e), s]" for e s
    by (simp_all add: send_def fresh_slot_new(2) [symmetric] nth_append)
  then show ?thesis
    by (cases "sp_after spec"; cases "sp_while spec";
        simp add: subscribe_def channel_for_def gate_edge_channel_def subscribed_def subscribed_slots_def fires_def
          opens_def receiver_of_def send_to_def fresh_slot_new(1) Let_def split del: if_split cong: if_cong; simp)
qed


lemma linked_append:
  "n < length xs \<Longrightarrow> linked True (Some (receiver_of (length slots + n))) (Some (length slots + n)) (slots @ xs)
     \<longleftrightarrow> \<not> es_sender_dropped (xs ! n)"
  by (simp add: linked_def receiver_of_def)

lemma pending_append: "pending (Some (length slots + n)) (slots @ xs) = decode_edge (es_edge (xs ! n))"
  by (simp add: pending_def)

lemmas new_link = linked_append [of 0, simplified] linked_append [of 1, simplified]
  pending_append [of _ 0, simplified] pending_append [of _ 1, simplified]

lemma gate_subscribe_inv:
  assumes "gate_inv w"
  shows "gate_inv (gate_subscribe spec w)"
proof -
  let ?v = "current_value (gw_bus w)" and ?n = "length (gw_slots w)"
  let ?sub = "subscribed spec ?v ?n" and ?slots = "gw_slots w @ subscribed_slots spec ?v"
  let ?bus = "(gw_bus w) \<lparr> gb_subs := gb_subs (gw_bus w) @ [?sub] \<rparr>"
  let ?rx = "\<lparr> gr_after_rx = map_option receiver_of (sub_after_tx ?sub), gr_while_rx = map_option receiver_of (sub_while_tx ?sub) \<rparr>"
  let ?init = "\<lparr> is_after_already_fired = fires spec ?v, is_while_gate_open = opens spec ?v, is_current_value = ?v \<rparr>"
  let ?ob = "new_observer ?rx ?init (gw_bus w)"
  have "after_ok ?slots ?ob ?sub"
    by (cases "sp_after spec"; cases "fires spec ?v"; cases "gb_has_value (gw_bus w)")
      (simp_all add: after_ok_def new_observer_def subscribed_def subscribed_slots_def new_link fires_def known_values_def
        linked_def pending_def receiver_of_def)
  moreover have "while_ok ?bus ?slots ?ob ?sub"
    by (cases "sp_after spec"; cases "sp_while spec"; cases "gb_has_value (gw_bus w)")
      (simp_all add: while_ok_def new_observer_def subscribed_def subscribed_slots_def new_link opens_def while_view_def
        linked_def pending_def receiver_of_def nth_append)
  ultimately have "observer_ok ?bus ?slots ?ob ?sub"
    by (simp add: observer_ok_def new_observer_def known_values_def)
  moreover have "distinct (sub_slots ?sub)" "\<And>tx. tx \<in> set (sub_slots ?sub) \<Longrightarrow> ?n \<le> tx"
    by (auto simp: sub_slots_def subscribed_def split: option.splits if_splits)
  ultimately show ?thesis
    unfolding gate_subscribe_def subscribe_eq Let_def prod.case by (intro gate_inv_append [OF assms]) (auto simp: nth_append)
qed

lemma gate_attach_inv:
  assumes "gate_inv w"
  shows "gate_inv (gate_attach spec w)"
proof -
  let ?v = "gb_last_value (gw_bus w)" and ?n = "length (gw_slots w)"
  let ?open = "if gb_has_value (gw_bus w) then Some (strict_eval ?v (ws_op spec) (ws_threshold spec)) else None"
  let ?sub = "\<lparr> sub_spec = \<lparr> sp_after = None, sp_while = Some spec \<rparr>, sub_after_tx = None,
                sub_while_tx = Some ?n, sub_after_fired = False, sub_prev_while_open = ?open \<rparr>"
  let ?slots = "gw_slots w @ [fresh_slot (map_option while_edge ?open)]"
  let ?bus = "(gw_bus w) \<lparr> gb_subs := gb_subs (gw_bus w) @ [?sub] \<rparr>"
  let ?init = "\<lparr> is_after_already_fired = False, is_while_gate_open = ?open, is_current_value = current_value (gw_bus w) \<rparr>"
  let ?ob = "new_observer (GateReceiver_from_while_rx (receiver_of ?n)) ?init (gw_bus w)"
  have eq: "gate_attach spec w = \<lparr> gw_slots = ?slots, gw_bus = ?bus, gw_obs = gw_obs w @ [?ob] \<rparr>"
    by (simp add: gate_attach_def gate_edge_channel_def subscribe_with_while_sender_def send_def receiver_of_def
        fresh_slot_new [symmetric] Let_def)
  have "observer_ok ?bus ?slots ?ob ?sub"
    by (cases "gb_has_value (gw_bus w)")
      (simp_all add: observer_ok_def after_ok_def while_ok_def new_link new_observer_def GateReceiver_from_while_rx_def
        while_view_def known_values_def, simp_all add: linked_def pending_def receiver_of_def while_edge_def)
  then show ?thesis
    unfolding eq by (intro gate_inv_append [OF assms]) (auto simp: nth_append sub_slots_def)
qed

section \<open>A poll\<close>

definition cleared :: "GateEdgeSender option \<Rightarrow> slots \<Rightarrow> slots" where
  "cleared tx slots = (case tx of None \<Rightarrow> slots | Some tx \<Rightarrow> slots[tx := (slots ! tx) \<lparr> es_edge := EDGE_EMPTY \<rparr>])"

lemma pending_cleared:
  "tx' \<noteq> tx \<or> tx = None \<Longrightarrow> pending tx (cleared tx' slots) = pending tx slots"
  "linked wanted rx tx slots \<Longrightarrow> pending tx (cleared tx slots) = None"
  by (auto simp: pending_def cleared_def linked_def nth_update_eq split: option.splits if_splits)

lemma linked_cleared: "linked wanted rx tx slots \<Longrightarrow> linked wanted rx tx (cleared tx' slots)"
  by (auto simp: linked_def cleared_def nth_update_eq split: if_splits option.split)

lemma moved_cleared: "moved (case tx of None \<Rightarrow> [] | Some tx \<Rightarrow> [tx]) slots (cleared tx slots)"
  by (auto simp: moved_def cleared_def split: option.split)

lemma try_recv_linked:
  "linked wanted (Some r) tx slots \<Longrightarrow> EdgeReceiver_try_recv r slots = (pending tx slots, r, cleared tx slots)"
  by (auto simp: linked_def EdgeReceiver_try_recv_def pending_def cleared_def Let_def split: option.split if_splits)

lemma poll_after_linked:
  assumes "linked wanted (gr_after_rx rx) tx slots"
  shows "poll_after rx slots = (pending tx slots, rx, cleared tx slots)"
proof (cases "gr_after_rx rx")
  case None
  with assms show ?thesis by (simp add: poll_after_def linked_def pending_def cleared_def split: if_splits)
next
  case (Some r)
  with assms try_recv_linked [of wanted r tx slots] show ?thesis by (cases rx) (simp add: poll_after_def)
qed

lemma poll_while_linked:
  assumes "linked wanted (gr_while_rx rx) tx slots"
  shows "poll_while rx slots = (pending tx slots, rx, cleared tx slots)"
proof (cases "gr_while_rx rx")
  case None
  with assms show ?thesis by (simp add: poll_while_def linked_def pending_def cleared_def split: if_splits)
next
  case (Some r)
  with assms try_recv_linked [of wanted r tx slots] show ?thesis by (cases rx) (simp add: poll_while_def)
qed

definition polled :: "Subscription \<Rightarrow> slots \<Rightarrow> GateEdge option \<times> slots" where
  "polled sub slots =
     (case pending (sub_after_tx sub) slots of
        Some e \<Rightarrow> (Some e, cleared (sub_after_tx sub) slots)
      | None \<Rightarrow> (pending (sub_while_tx sub) slots, cleared (sub_while_tx sub) (cleared (sub_after_tx sub) slots)))"

lemma sub_slots_neq: "distinct (sub_slots sub) \<Longrightarrow> sub_after_tx sub \<noteq> sub_while_tx sub \<or> sub_while_tx sub = None"
  by (cases "sub_while_tx sub") (auto simp: sub_slots_def)

lemma try_recv_polled:
  assumes "observer_ok bus slots ob sub" and "distinct (sub_slots sub)"
  shows "GateReceiver_try_recv (ob_rx ob) slots = (fst (polled sub slots), ob_rx ob, snd (polled sub slots))"
proof -
  from assms(1) have a: "linked (sp_after (sub_spec sub) \<noteq> None) (gr_after_rx (ob_rx ob)) (sub_after_tx sub) slots"
      and w: "linked (sp_while (sub_spec sub) \<noteq> None) (gr_while_rx (ob_rx ob)) (sub_while_tx sub) slots"
    by (simp_all add: observer_ok_def after_ok_def while_ok_def)
  show ?thesis
    using poll_while_linked [OF linked_cleared [OF w, of "sub_after_tx sub"]] pending_cleared(1) [OF sub_slots_neq [OF assms(2)]]
    by (auto simp: GateReceiver_try_recv_def poll_after_linked [OF a] polled_def split: option.split)
qed

lemma learn_after [simp]: "learn AfterFired v = v"
  by (simp add: learn_def)

lemma observe_simps [simp]:
  "ob_rx (observe e rx ob) = rx" "ob_values (observe e rx ob) = ob_values ob" "ob_init (observe e rx ob) = ob_init ob"
  "ob_seen (observe e rx ob) = ob_seen ob @ (case e of None \<Rightarrow> [] | Some e \<Rightarrow> [e])"
  "while_view (observe e rx ob) = learn_pending e (while_view ob)"
  by (auto simp: observe_def while_view_def split: option.split)

lemma polled_ok:
  assumes ok: "observer_ok bus slots ob sub" and dist: "distinct (sub_slots sub)"
  shows "observer_ok bus (snd (polled sub slots)) (observe (fst (polled sub slots)) (ob_rx ob) ob) sub"
    and "moved (sub_slots sub) slots (snd (polled sub slots))"
proof -
  let ?a = "sub_after_tx sub" and ?w = "sub_while_tx sub"
  note ns = sub_slots_neq [OF dist]
  from ok have a: "after_ok slots ob sub" and w: "while_ok bus slots ob sub" by (simp_all add: observer_ok_def)
  note la = a [unfolded after_ok_def, THEN conjunct1] and lw = w [unfolded while_ok_def, THEN conjunct1]
  have pa: "pending ?a (cleared ?a slots) = None" using la by (rule pending_cleared(2))
  have pw: "pending ?w (cleared ?a slots) = pending ?w slots" using ns by (rule pending_cleared(1))
  show "observer_ok bus (snd (polled sub slots)) (observe (fst (polled sub slots)) (ob_rx ob) ob) sub"
  proof (cases "pending ?a slots")
    case (Some e)
    then have e: "e = AfterFired" using a by (simp add: after_ok_def)
    show ?thesis
      using ok Some la lw pa pw linked_cleared [OF la, of ?a] linked_cleared [OF lw, of ?a]
      by (simp add: observer_ok_def after_ok_def while_ok_def polled_def e)
  next
    case None
    have na: "?w \<noteq> ?a \<or> ?a = None" using ns by (cases ?a) auto
    have "pending ?a (cleared ?w (cleared ?a slots)) = None"
      using pending_cleared(1) [OF na, of "cleared ?a slots"] pa by simp
    moreover have "pending ?w (cleared ?w (cleared ?a slots)) = None"
      by (rule pending_cleared(2) [OF linked_cleared [OF lw]])
    moreover have "count_list (case pending ?w slots of None \<Rightarrow> [] | Some e \<Rightarrow> [e]) AfterFired = 0"
      using w by (auto simp: while_ok_def split: option.split)
    ultimately show ?thesis
      using ok None linked_cleared [OF linked_cleared [OF la]] linked_cleared [OF linked_cleared [OF lw]]
      by (simp add: observer_ok_def after_ok_def while_ok_def polled_def)
  qed
  show "moved (sub_slots sub) slots (snd (polled sub slots))"
    using moved_cleared [of ?a slots] moved_trans [OF moved_cleared [of ?a slots] moved_cleared [of ?w]]
    by (auto simp: polled_def sub_slots_def moved_def split: option.splits)
qed

lemma gate_invD:
  assumes "gate_inv w" and "i < length (gw_obs w)"
  shows "i < length (gb_subs (gw_bus w))" and "distinct (sub_slots (gb_subs (gw_bus w) ! i))"
    and "observer_ok (gw_bus w) (gw_slots w) (gw_obs w ! i) (gb_subs (gw_bus w) ! i)"
  using assms by (auto simp: gate_inv_def list_all2_conv_all_nth distinct_concat_iff)

lemma gate_poll_eq:
  assumes "gate_inv w" and "i < length (gw_obs w)"
  shows "gate_poll i w =
    (let ob = gw_obs w ! i; (edge, slots) = polled (gb_subs (gw_bus w) ! i) (gw_slots w)
     in (edge, w \<lparr> gw_slots := slots, gw_obs := (gw_obs w)[i := observe edge (ob_rx ob) ob] \<rparr>))"
  using try_recv_polled [OF gate_invD(3, 2) [OF assms]] by (simp add: gate_poll_def Let_def split: prod.split)

lemma gate_poll_inv:
  assumes "gate_inv w" and "i < length (gw_obs w)"
  shows "gate_inv (snd (gate_poll i w))"
proof -
  let ?subs = "gb_subs (gw_bus w)" and ?p = "polled (gb_subs (gw_bus w) ! i) (gw_slots w)"
  have inv: "list_all2 (observer_ok (gw_bus w) (gw_slots w)) (gw_obs w) ?subs" "distinct (concat (map sub_slots ?subs))"
    using assms(1) by (simp_all add: gate_inv_def)
  note i = gate_invD [OF assms]
  note new = polled_ok [OF i(3, 2)]
  have "observer_ok (gw_bus w) (snd ?p) (gw_obs w ! j) (?subs ! j)" if "j < length (gw_obs w)" "j \<noteq> i" for j
    using distinct_concat_disjoint [OF inv(2), of j i] that i(1) gate_invD [OF assms(1) that(1)]
    by (intro observer_ok_moved [OF gate_invD(3) [OF assms(1) that(1)] new(2)]) simp
  with new(1) inv show ?thesis
    unfolding gate_poll_eq [OF assms]
    using assms(2) by (auto simp: gate_inv_def list_all2_conv_all_nth nth_update_eq Let_def split: prod.split)
qed

lemma gate_reach_inv: "gate_reach w \<Longrightarrow> gate_inv w"
proof (induction rule: gate_reach.induct)
  case start
  show ?case by (simp add: gate_inv_def gate_world_def GateBus_new_def)
qed (auto intro: gate_subscribe_inv gate_attach_inv gate_tick_inv gate_poll_inv)

text \<open>A poll that returns nothing found both channels empty; after two polls the next one does.\<close>

lemma polled_None:
  assumes "fst (polled sub slots) = None"
  shows "pending (sub_after_tx sub) slots = None" and "pending (sub_while_tx sub) slots = None"
  using assms by (auto simp: polled_def split: option.splits)

lemma polled_thrice:
  assumes "observer_ok bus slots ob sub" and "distinct (sub_slots sub)"
  shows "fst (polled sub slots) = None \<or> fst (polled sub (snd (polled sub slots))) = None
    \<or> fst (polled sub (snd (polled sub (snd (polled sub slots))))) = None"
proof -
  let ?a = "sub_after_tx sub" and ?w = "sub_while_tx sub"
  from assms(1) have la: "linked (sp_after (sub_spec sub) \<noteq> None) (gr_after_rx (ob_rx ob)) ?a slots"
      and lw: "linked (sp_while (sub_spec sub) \<noteq> None) (gr_while_rx (ob_rx ob)) ?w slots"
    by (simp_all add: observer_ok_def after_ok_def while_ok_def)
  note ns = sub_slots_neq [OF assms(2)]
  have na: "?w \<noteq> ?a \<or> ?a = None" using ns by (cases ?a) auto
  note [simp] = pending_cleared(1) [OF ns] pending_cleared(1) [OF na] pending_cleared(2) [OF la]
    pending_cleared(2) [OF lw] pending_cleared(2) [OF linked_cleared [OF la]] pending_cleared(2) [OF linked_cleared [OF lw]]
    pending_cleared(2) [OF linked_cleared [OF linked_cleared [OF lw]]]
  show ?thesis
    by (cases "pending ?a slots"; cases "pending ?w slots") (simp_all add: polled_def)
qed


lemma gate_polls_empty:
  assumes "gate_inv w" and "i < length (gw_obs w)"
  shows "\<exists>k \<le> 2. fst (gate_poll i (((\<lambda>w. snd (gate_poll i w)) ^^ k) w)) = None"
proof -
  let ?next = "\<lambda>w. snd (gate_poll i w)" and ?sub = "gb_subs (gw_bus w) ! i"
  have len: "length (gw_obs (?next v)) = length (gw_obs v)" "gw_bus (?next v) = gw_bus v" for v
    by (simp_all add: gate_poll_def split: prod.split)
  have fst: "fst (gate_poll i v) = fst (polled (gb_subs (gw_bus v) ! i) (gw_slots v))"
      "gw_slots (?next v) = snd (polled (gb_subs (gw_bus v) ! i) (gw_slots v))"
    if "gate_inv v" "i < length (gw_obs v)" for v
    by (simp_all add: gate_poll_eq [OF that] Let_def split: prod.split)
  have inv1: "gate_inv (?next w)" "i < length (gw_obs (?next w))"
    using gate_poll_inv [OF assms] assms(2) by (simp_all add: len)
  have inv2: "gate_inv (?next (?next w))" "i < length (gw_obs (?next (?next w)))"
    using gate_poll_inv [OF inv1] assms(2) by (simp_all add: len)
  from polled_thrice [OF gate_invD(3, 2) [OF assms]]
  have "fst (gate_poll i ((?next ^^ 0) w)) = None \<or> fst (gate_poll i ((?next ^^ 1) w)) = None
      \<or> fst (gate_poll i ((?next ^^ 2) w)) = None"
    using fst [OF assms] fst [OF inv1] fst [OF inv2] by (simp add: len numeral_2_eq_2)
  then show ?thesis by (metis le_numeral_extra(3) one_le_numeral zero_le le_refl)
qed

text \<open>
  C37. A subscriber polls until nothing is left, at most three times. What it then knows of its \<open>while\<close> gate, from the
  state it subscribed with and the edges it has received, is the comparison applied to the value published last,
  however many edges the single slot has overwritten, whichever ticks took the path of an unchanged value, and
  whenever it subscribed; before any value was published it is the state it subscribed with.
\<close>

theorem gate_view_current:
  assumes "gate_reach w" and "i < length (gw_obs w)"
    and "sp_while (sub_spec (gb_subs (gw_bus w) ! i)) = Some s"
  shows "(fst (gate_poll i w) = None \<longrightarrow>
      while_view (gw_obs w ! i) =
        (if gb_has_value (gw_bus w) then Some (strict_eval (gb_last_value (gw_bus w)) (ws_op s) (ws_threshold s))
         else ob_init (gw_obs w ! i)))
    \<and> (\<exists>k \<le> 2. fst (gate_poll i (((\<lambda>w. snd (gate_poll i w)) ^^ k) w)) = None)"
proof (intro conjI impI)
  note inv = gate_reach_inv [OF assms(1)]
  note i = gate_invD [OF inv assms(2)]
  show "while_view (gw_obs w ! i) =
      (if gb_has_value (gw_bus w) then Some (strict_eval (gb_last_value (gw_bus w)) (ws_op s) (ws_threshold s))
       else ob_init (gw_obs w ! i))" if "fst (gate_poll i w) = None"
    using polled_None(2) [of "gb_subs (gw_bus w) ! i" "gw_slots w"] that i(3) assms(3)
    by (simp add: gate_poll_eq [OF inv assms(2)] Let_def observer_ok_def while_ok_def split: prod.splits)
  show "\<exists>k \<le> 2. fst (gate_poll i (((\<lambda>w. snd (gate_poll i w)) ^^ k) w)) = None"
    using gate_polls_empty [OF inv assms(2)] by blast
qed

text \<open>
  An \<open>after\<close> clause fires exactly once, when a value published since the subscription, or the one cached at it, is
  beyond the threshold: a subscriber that has polled until nothing is left has received one \<open>AfterFired\<close> if there was such
  a value and none otherwise, and at no moment has it received two.
\<close>

theorem after_fires_once:
  assumes "gate_reach w" and "i < length (gw_obs w)"
    and "sp_after (sub_spec (gb_subs (gw_bus w) ! i)) = Some a"
  shows "(fst (gate_poll i w) = None \<longrightarrow>
      count_list (ob_seen (gw_obs w ! i)) AfterFired =
        (if \<exists>v \<in> set (ob_values (gw_obs w ! i)). after_eval v (as_op a) (as_threshold a) then 1 else 0))
    \<and> count_list (ob_seen (gw_obs w ! i)) AfterFired \<le> 1"
proof (intro conjI impI)
  note inv = gate_reach_inv [OF assms(1)]
  note i = gate_invD [OF inv assms(2)]
  have ok: "after_ok (gw_slots w) (gw_obs w ! i) (gb_subs (gw_bus w) ! i)" using i(3) by (simp add: observer_ok_def)
  show "count_list (ob_seen (gw_obs w ! i)) AfterFired =
      (if \<exists>v \<in> set (ob_values (gw_obs w ! i)). after_eval v (as_op a) (as_threshold a) then 1 else 0)"
    if "fst (gate_poll i w) = None"
    using polled_None(1) [of "gb_subs (gw_bus w) ! i" "gw_slots w"] that ok assms(3)
    by (simp add: gate_poll_eq [OF inv assms(2)] Let_def after_ok_def split: prod.splits)
  show "count_list (ob_seen (gw_obs w ! i)) AfterFired \<le> 1"
    using ok by (simp add: after_ok_def split: if_splits)
qed


text \<open>
  A subscriber of \<open>while > 0\<close> and \<open>after > 1\<close>; the values 1, 2 and 2 are published, and it polls twice.
\<close>

definition gate_example :: GateWorld where
  "gate_example =
     (let spec = \<lparr> sp_after = Some \<lparr> as_op = AfterGreaterThan, as_threshold = 0x3FF0000000000000 \<rparr>,
                   sp_while = Some \<lparr> ws_op = WhileGreaterThan, ws_threshold = 0 \<rparr> \<rparr>;
          w = gate_tick 0x4000000000000000 (gate_tick 0x4000000000000000 (gate_tick 0x3FF0000000000000
                (gate_subscribe spec gate_world)))
      in snd (gate_poll 0 (snd (gate_poll 0 w))))"

lemma gate_poll_obs: "length (gw_obs (snd (gate_poll i w))) = length (gw_obs w)"
  by (simp add: gate_poll_def split: prod.split)

lemma gate_example_reached: "gate_reach gate_example"
proof -
  have "length (gw_obs (gate_subscribe spec gate_world)) = 1" for spec
    by (simp add: gate_subscribe_def gate_world_def split: prod.split)
  moreover have "length (gw_obs (gate_tick v w)) = length (gw_obs w)" for v w
    by (simp add: gate_tick_def split: prod.split)
  ultimately show ?thesis
    unfolding gate_example_def Let_def by (intro gate_reach.intros) (simp_all add: gate_poll_obs)
qed

lemma example_evals:
  "\<not> after_eval 0x3FF0000000000000 AfterGreaterThan 0x3FF0000000000000"
  "after_eval 0x4000000000000000 AfterGreaterThan 0x3FF0000000000000"
  "strict_eval 0x3FF0000000000000 WhileGreaterThan 0"
  "strict_eval 0x4000000000000000 WhileGreaterThan 0"
  by (simp_all add: after_eval_def strict_eval_def f64_evals)

definition example_state :: "GateEdge option \<Rightarrow> GateEdge option \<Rightarrow> bool \<Rightarrow> bool \<Rightarrow> GateEdge list \<Rightarrow> f64 list \<Rightarrow> GateWorld" where
  "example_state a w fired opened seen values =
     \<lparr> gw_slots = [fresh_slot a, fresh_slot w],
       gw_bus = \<lparr> gb_subs = [\<lparr> sub_spec = \<lparr> sp_after = Some \<lparr> as_op = AfterGreaterThan, as_threshold = 0x3FF0000000000000 \<rparr>,
                                            sp_while = Some \<lparr> ws_op = WhileGreaterThan, ws_threshold = 0 \<rparr> \<rparr>,
                            sub_after_tx = Some 0, sub_while_tx = Some 1, sub_after_fired = fired,
                            sub_prev_while_open = Some opened \<rparr>],
                  gb_last_value = last (f64_nan # values), gb_has_value = values \<noteq> [] \<rparr>,
       gw_obs = [\<lparr> ob_rx = \<lparr> gr_after_rx = Some (receiver_of 0), gr_while_rx = Some (receiver_of 1) \<rparr>,
                   ob_init = Some False, ob_seen = seen, ob_values = values \<rparr>] \<rparr>"

lemma example_subscribed:
  "gate_subscribe \<lparr> sp_after = Some \<lparr> as_op = AfterGreaterThan, as_threshold = 0x3FF0000000000000 \<rparr>,
                    sp_while = Some \<lparr> ws_op = WhileGreaterThan, ws_threshold = 0 \<rparr> \<rparr> gate_world
   = example_state None None False False [] []"
  by (simp add: gate_world_def GateBus_new_def gate_subscribe_def subscribe_eq subscribed_def subscribed_slots_def
      fires_def opens_def new_observer_def known_values_def example_state_def Let_def)

lemma fresh_slot_update [simp]: "(fresh_slot e) \<lparr> es_edge := encode_edge e' \<rparr> = fresh_slot (Some e')"
  "(fresh_slot e) \<lparr> es_edge := EDGE_EMPTY \<rparr> = fresh_slot None"
  "(fresh_slot e) \<lparr> es_edge := EDGE_AFTER_FIRED \<rparr> = fresh_slot (Some AfterFired)"
  by (simp_all add: fresh_slot_def EdgeSlot_new_def)

lemma example_tick:
  "values = [] \<or> last values \<noteq> v \<Longrightarrow>
   gate_tick v (example_state a w fired opened seen values) =
     (let fire = \<not> fired \<and> after_eval v AfterGreaterThan 0x3FF0000000000000; now = strict_eval v WhileGreaterThan 0
      in example_state (if fire then Some AfterFired else a) (if opened \<noteq> now then Some (while_edge now) else w)
           (fired \<or> fire) now seen (values @ [v]))"
  by (auto simp: example_state_def gate_tick_def tick_def tick_sub_def tick_after_def tick_while_def f64_bit_eq_def
      send_to_def send_def Let_def)

lemma example_tick_same:
  "values \<noteq> [] \<Longrightarrow>
   gate_tick (last values) (example_state a w fired opened seen values) = example_state a w fired opened seen (values @ [last values])"
  by (simp add: example_state_def gate_tick_def tick_def f64_bit_eq_def Let_def)

lemma example_poll:
  "gate_poll 0 (example_state a w fired opened seen values) =
     (case a of Some e \<Rightarrow> (Some e, example_state None w fired opened (seen @ [e]) values)
      | None \<Rightarrow> (w, example_state None None fired opened (seen @ (case w of None \<Rightarrow> [] | Some e \<Rightarrow> [e])) values))"
  by (cases a; cases w) (simp_all add: example_state_def gate_poll_def GateReceiver_try_recv_def poll_after_def poll_while_def
      EdgeReceiver_try_recv_def receiver_of_def observe_def Let_def)

lemma gate_example_eq:
  "gate_example = example_state None None True True [AfterFired, WhileOpen]
     [0x3FF0000000000000, 0x4000000000000000, 0x4000000000000000]"
  using example_tick_same [of "[0x3FF0000000000000, 0x4000000000000000]"]
  by (simp add: gate_example_def example_subscribed example_tick example_poll example_evals while_edge_def Let_def)

lemma gate_example_facts:
  "length (gw_obs gate_example) = 1" "fst (gate_poll 0 gate_example) = None" "gb_has_value (gw_bus gate_example)"
  "gb_last_value (gw_bus gate_example) = 0x4000000000000000"
  "sp_while (sub_spec (gb_subs (gw_bus gate_example) ! 0)) = Some \<lparr> ws_op = WhileGreaterThan, ws_threshold = 0 \<rparr>"
  "sp_after (sub_spec (gb_subs (gw_bus gate_example) ! 0))
     = Some \<lparr> as_op = AfterGreaterThan, as_threshold = 0x3FF0000000000000 \<rparr>"
  "0x4000000000000000 \<in> set (ob_values (gw_obs gate_example ! 0))"
  unfolding gate_example_eq by (simp_all add: example_poll) (simp_all add: example_state_def)

theorem gate_view_current_witness: "while_view (gw_obs gate_example ! 0) = Some True"
  using gate_view_current [OF gate_example_reached _ gate_example_facts(5)] example_evals(4)
  by (simp add: gate_example_facts)

theorem after_fires_once_witness: "count_list (ob_seen (gw_obs gate_example ! 0)) AfterFired = 1"
proof -
  have "\<exists>v \<in> set (ob_values (gw_obs gate_example ! 0)). after_eval v AfterGreaterThan 0x3FF0000000000000"
    using gate_example_facts(7) example_evals(2) by (rule rev_bexI)
  then show ?thesis
    using after_fires_once [OF gate_example_reached _ gate_example_facts(6)] by (simp add: gate_example_facts)
qed

end
