(* ===== verification/Gate_Registry.thy ===== *)
theory Gate_Registry
  imports Gate_View "HOL-Library.AList"
begin

text \<open>
  The registry of gate buses of the HTTP server (\<open>sonda-server/src/gate_registry.rs\<close>): which bus an entry of a running
  scenario publishes on, who is subscribed to it from another request, and who still waits for an upstream that has
  not registered. A \<open>HashMap\<close> is an association list whose order stands for the order of iteration, which no
  statement fixes; buses, statistics and channel slots are elements of heaps. The operations take the registry's
  locks for their whole duration; \<open>unregister_entries\<close> and \<open>rename_handle\<close> take two of them in turn and are the
  composition of their two halves.
\<close>

section \<open>Statistics, waiters and the registry\<close>

datatype ScenarioState = StPending | StRunning | StPaused | StHeld | StUnresolved | StFinished

datatype UnresolvedBehavior = UnresolvedOpen | UnresolvedClosed | UnresolvedPending

text \<open>The fields of \<open>ScenarioStats\<close> the registry touches, with the number of strong handles to the statistics.\<close>

record StatsCell =
  st_strong :: nat
  st_state :: ScenarioState
  st_transition_at :: "nat option"
  st_resolution_attempts :: u64

definition transition_state :: "nat \<Rightarrow> ScenarioState \<Rightarrow> StatsCell \<Rightarrow> StatsCell" where
  "transition_state now new_state s = s \<lparr> st_state := new_state, st_transition_at := Some now \<rparr>"

type_synonym BusKey = "string \<times> string"

record PendingResolution =
  pr_handle_id :: string
  pr_stats :: nat
  pr_edge_sender :: GateEdgeSender
  pr_scenario_name :: string
  pr_entry_id :: string
  pr_if_unresolved :: UnresolvedBehavior
  pr_registered_at :: nat
  pr_attempts :: u64
  pr_spec :: WhileSpec

record SubscriberRef =
  sr_handle_id :: string
  sr_stats :: nat
  sr_sender :: GateEdgeSender
  sr_spec :: WhileSpec
  sr_if_unresolved :: UnresolvedBehavior
  sr_registered_at :: nat
  sr_attempts :: u64

definition SubscriberRef_from_pending :: "PendingResolution \<Rightarrow> BusKey \<times> SubscriberRef" where
  "SubscriberRef_from_pending p =
     ((pr_scenario_name p, pr_entry_id p),
      \<lparr> sr_handle_id = pr_handle_id p, sr_stats = pr_stats p, sr_sender = pr_edge_sender p, sr_spec = pr_spec p,
        sr_if_unresolved = pr_if_unresolved p, sr_registered_at = pr_registered_at p, sr_attempts = pr_attempts p \<rparr>)"

definition SubscriberRef_into_pending :: "SubscriberRef \<Rightarrow> string \<Rightarrow> string \<Rightarrow> PendingResolution" where
  "SubscriberRef_into_pending r scenario_name entry_id =
     \<lparr> pr_handle_id = sr_handle_id r, pr_stats = sr_stats r, pr_edge_sender = sr_sender r,
       pr_scenario_name = scenario_name, pr_entry_id = entry_id, pr_if_unresolved = sr_if_unresolved r,
       pr_registered_at = sr_registered_at r, pr_attempts = sr_attempts r, pr_spec = sr_spec r \<rparr>"

record GateServer =
  gs_slots :: slots
  gs_heap :: "GateBus list"
  gs_stats :: "StatsCell list"
  gs_buses :: "(BusKey \<times> nat) list"
  gs_subscribers :: "(BusKey \<times> SubscriberRef list) list"
  gs_pending :: "(string \<times> PendingResolution) list"

datatype RegistryError = DuplicateScenarioName string | UpstreamCancelled string string

definition saturating_succ :: "u64 \<Rightarrow> u64" where
  "saturating_succ n = (if n = - 1 then n else n + 1)"

definition stats_alive :: "GateServer \<Rightarrow> nat \<Rightarrow> bool" where
  "stats_alive s i \<longleftrightarrow> 0 < st_strong (gs_stats s ! i)"

definition update_stats :: "nat \<Rightarrow> (StatsCell \<Rightarrow> StatsCell) \<Rightarrow> GateServer \<Rightarrow> GateServer" where
  "update_stats i f s = (if stats_alive s i then s \<lparr> gs_stats := (gs_stats s)[i := f (gs_stats s ! i)] \<rparr> else s)"

section \<open>Operations\<close>

definition register :: "string \<Rightarrow> string \<Rightarrow> nat \<Rightarrow> GateServer \<Rightarrow> RegistryError + GateServer" where
  "register scenario_name entry_id bus s =
     (let key = (scenario_name, entry_id)
      in if map_of (gs_buses s) key \<noteq> None then Inl (DuplicateScenarioName scenario_name)
         else Inr (s \<lparr> gs_buses := AList.update key bus (gs_buses s) \<rparr>))"

definition lookup_bus :: "string \<Rightarrow> string \<Rightarrow> GateServer \<Rightarrow> nat option" where
  "lookup_bus scenario_name entry_id s = map_of (gs_buses s) (scenario_name, entry_id)"

fun retire_loop :: "BusKey list \<Rightarrow> (BusKey \<times> nat) list \<Rightarrow> BusKey list \<times> nat list \<times> (BusKey \<times> nat) list" where
  "retire_loop [] buses = ([], [], buses)"
| "retire_loop (key # keys) buses =
     (case map_of buses key of
        None \<Rightarrow> retire_loop keys buses
      | Some bus \<Rightarrow>
          (case retire_loop keys (AList.delete key buses) of
             (removed, retired, buses) \<Rightarrow> (key # removed, bus # retired, buses)))"

definition retire_buses :: "string \<Rightarrow> string list \<Rightarrow> GateServer \<Rightarrow> BusKey list \<times> GateServer" where
  "retire_buses scenario_name entry_ids s =
     (let keys = filter (\<lambda>(name, entry_id). name = scenario_name \<and> entry_id \<in> set entry_ids) (map fst (gs_buses s))
      in case retire_loop keys (gs_buses s) of
           (removed, retired, buses) \<Rightarrow>
             (removed,
              s \<lparr> gs_buses := buses,
                  gs_slots := fold (\<lambda>bus. broadcast_upstream_gone (gs_heap s ! bus)) retired (gs_slots s) \<rparr>))"

text \<open>Inserting drops the entry it replaces, and with it a handle of that entry's sender.\<close>

definition insert_pending :: "PendingResolution \<Rightarrow> GateServer \<Rightarrow> GateServer" where
  "insert_pending p s =
     (let slots = (case map_of (gs_pending s) (pr_handle_id p) of
                     None \<Rightarrow> gs_slots s
                   | Some old \<Rightarrow> sender_drop (pr_edge_sender old) (gs_slots s))
      in s \<lparr> gs_pending := AList.update (pr_handle_id p) p (gs_pending s), gs_slots := slots \<rparr>)"

fun requeue_refs :: "BusKey \<Rightarrow> SubscriberRef list \<Rightarrow> GateServer \<Rightarrow> GateServer" where
  "requeue_refs key [] s = s"
| "requeue_refs key (r # refs) s =
     (if \<not> stats_alive s (sr_stats r)
      then requeue_refs key refs (s \<lparr> gs_slots := sender_drop (sr_sender r) (gs_slots s) \<rparr>)
      else requeue_refs key refs
             (insert_pending (SubscriberRef_into_pending r (fst key) (snd key))
               (s \<lparr> gs_slots := send (sr_sender r) UpstreamGone (gs_slots s) \<rparr>)))"

fun requeue_subscribers :: "BusKey list \<Rightarrow> GateServer \<Rightarrow> GateServer" where
  "requeue_subscribers [] s = s"
| "requeue_subscribers (key # keys) s =
     (case map_of (gs_subscribers s) key of
        None \<Rightarrow> requeue_subscribers keys s
      | Some refs \<Rightarrow>
          requeue_subscribers keys (requeue_refs key refs (s \<lparr> gs_subscribers := AList.delete key (gs_subscribers s) \<rparr>)))"

definition unregister_entries :: "string \<Rightarrow> string list \<Rightarrow> GateServer \<Rightarrow> GateServer" where
  "unregister_entries scenario_name entry_ids s =
     (case retire_buses scenario_name entry_ids s of (removed, s) \<Rightarrow> requeue_subscribers removed s)"

definition track_subscriber :: "PendingResolution \<Rightarrow> GateServer \<Rightarrow> GateServer" where
  "track_subscriber p s =
     (case SubscriberRef_from_pending p of
        (key, r) \<Rightarrow>
          let refs = (case map_of (gs_subscribers s) key of None \<Rightarrow> [] | Some refs \<Rightarrow> refs)
          in s \<lparr> gs_subscribers := AList.update key (refs @ [r]) (gs_subscribers s) \<rparr>)"

text \<open>One waiter whose upstream has registered: it is counted, subscribed with a clone of its sender, and tracked.\<close>

definition promote :: "string \<Rightarrow> PendingResolution \<Rightarrow> nat \<Rightarrow> GateServer \<Rightarrow> GateServer" where
  "promote handle_id p bus s =
     (let s = s \<lparr> gs_pending := AList.delete handle_id (gs_pending s) \<rparr>;
          p = p \<lparr> pr_attempts := saturating_succ (pr_attempts p) \<rparr>;
          s = update_stats (pr_stats p)
                (\<lambda>c. c \<lparr> st_resolution_attempts := saturating_succ (st_resolution_attempts c) \<rparr>) s
      in case subscribe_with_while_sender (pr_spec p) (pr_edge_sender p) (gs_heap s ! bus)
                (sender_clone (pr_edge_sender p) (gs_slots s)) of
           (init, gate_bus, slots) \<Rightarrow>
             track_subscriber p (s \<lparr> gs_heap := (gs_heap s)[bus := gate_bus], gs_slots := slots \<rparr>))"

fun sweep_loop :: "string list \<Rightarrow> GateServer \<Rightarrow> nat \<times> GateServer" where
  "sweep_loop [] s = (0, s)"
| "sweep_loop (handle_id # keys) s =
     (case map_of (gs_pending s) handle_id of
        None \<Rightarrow> sweep_loop keys s
      | Some p \<Rightarrow>
          if \<not> stats_alive s (pr_stats p)
          then sweep_loop keys (s \<lparr> gs_pending := AList.delete handle_id (gs_pending s),
                                    gs_slots := sender_drop (pr_edge_sender p) (gs_slots s) \<rparr>)
          else (case map_of (gs_buses s) (pr_scenario_name p, pr_entry_id p) of
                  None \<Rightarrow> sweep_loop keys s
                | Some bus \<Rightarrow>
                    (case sweep_loop keys (promote handle_id p bus s) of (promoted, s) \<Rightarrow> (promoted + 1, s))))"

definition sweep_pending :: "GateServer \<Rightarrow> nat \<times> GateServer" where
  "sweep_pending s = sweep_loop (map fst (gs_pending s)) s"

definition scenario_name_in_use :: "string \<Rightarrow> GateServer \<Rightarrow> bool" where
  "scenario_name_in_use scenario_name s \<longleftrightarrow> list_ex (\<lambda>((name, entry_id), bus). name = scenario_name) (gs_buses s)"

record PendingRef =
  pf_scenario_name :: string
  pf_entry_id :: string
  pf_if_unresolved :: UnresolvedBehavior
  pf_registered_at :: nat
  pf_attempts :: u64

text \<open>The wall-clock time of the registration, the epoch when the clock reads earlier than the time that has passed.\<close>

definition PendingRef_from_pending :: "PendingResolution \<Rightarrow> nat \<Rightarrow> nat \<Rightarrow> PendingRef" where
  "PendingRef_from_pending p instant now =
     (let elapsed = instant - pr_registered_at p
      in \<lparr> pf_scenario_name = pr_scenario_name p, pf_entry_id = pr_entry_id p, pf_if_unresolved = pr_if_unresolved p,
           pf_registered_at = (if elapsed \<le> now then now - elapsed else 0), pf_attempts = pr_attempts p \<rparr>)"

definition pending_for_handle :: "string \<Rightarrow> nat \<Rightarrow> nat \<Rightarrow> GateServer \<Rightarrow> PendingRef option" where
  "pending_for_handle handle_id instant now s =
     map_option (\<lambda>p. PendingRef_from_pending p instant now) (map_of (gs_pending s) handle_id)"

fun cancel_loop :: "nat \<Rightarrow> string list \<Rightarrow> GateServer \<Rightarrow> RegistryError list \<times> GateServer" where
  "cancel_loop now [] s = ([], s)"
| "cancel_loop now (handle_id # matching) s =
     (case map_of (gs_pending s) handle_id of
        None \<Rightarrow> cancel_loop now matching s
      | Some p \<Rightarrow>
          let s = s \<lparr> gs_pending := AList.delete handle_id (gs_pending s),
                      gs_slots := send (pr_edge_sender p) UpstreamGone (gs_slots s) \<rparr>;
              s = update_stats (pr_stats p)
                    (\<lambda>c. if st_state c \<noteq> StFinished then transition_state now StUnresolved c else c) s;
              s = s \<lparr> gs_slots := sender_drop (pr_edge_sender p) (gs_slots s) \<rparr>
          in case cancel_loop now matching s of
               (errors, s) \<Rightarrow> (UpstreamCancelled (pr_scenario_name p) (pr_entry_id p) # errors, s))"

definition cancel_pending_for_upstream :: "nat \<Rightarrow> string \<Rightarrow> string \<Rightarrow> GateServer \<Rightarrow> RegistryError list \<times> GateServer" where
  "cancel_pending_for_upstream now scenario_name entry_id s =
     cancel_loop now
       (map fst (filter (\<lambda>(_, p). pr_scenario_name p = scenario_name \<and> pr_entry_id p = entry_id) (gs_pending s))) s"

definition rename_ref :: "string \<Rightarrow> string \<Rightarrow> SubscriberRef \<Rightarrow> SubscriberRef" where
  "rename_ref old_id new_id r = (if sr_handle_id r = old_id then r \<lparr> sr_handle_id := new_id \<rparr> else r)"

definition rename_handle :: "string \<Rightarrow> string \<Rightarrow> GateServer \<Rightarrow> GateServer" where
  "rename_handle old_id new_id s =
     (if old_id = new_id then s
      else
        let s = (case map_of (gs_pending s) old_id of
                   None \<Rightarrow> s
                 | Some p \<Rightarrow>
                     insert_pending (p \<lparr> pr_handle_id := new_id \<rparr>)
                       (s \<lparr> gs_pending := AList.delete old_id (gs_pending s) \<rparr>))
        in s \<lparr> gs_subscribers := map (\<lambda>(key, refs). (key, map (rename_ref old_id new_id) refs)) (gs_subscribers s) \<rparr>)"

section \<open>Requeueing\<close>

lemma stats_alive_simps [simp]:
  "stats_alive (s \<lparr> gs_slots := x \<rparr>) i = stats_alive s i" "stats_alive (s \<lparr> gs_pending := y \<rparr>) i = stats_alive s i"
  "stats_alive (s \<lparr> gs_subscribers := z \<rparr>) i = stats_alive s i" "stats_alive (s \<lparr> gs_buses := b \<rparr>) i = stats_alive s i"
  "stats_alive (s \<lparr> gs_heap := h \<rparr>) i = stats_alive s i"
  by (simp_all add: stats_alive_def)

lemma insert_pending_simps [simp]:
  "gs_buses (insert_pending p s) = gs_buses s" "gs_heap (insert_pending p s) = gs_heap s"
  "gs_stats (insert_pending p s) = gs_stats s" "gs_subscribers (insert_pending p s) = gs_subscribers s"
  "map_of (gs_pending (insert_pending p s)) = (map_of (gs_pending s))(pr_handle_id p \<mapsto> p)"
  "stats_alive (insert_pending p s) i = stats_alive s i"
  by (simp_all add: insert_pending_def AList.update_conv' Let_def)

lemma stats_alive_cong: "gs_stats s = gs_stats t \<Longrightarrow> stats_alive s i = stats_alive t i"
  by (simp add: stats_alive_def)

lemma distinct_insert_pending: "distinct (map fst (gs_pending s)) \<Longrightarrow> distinct (map fst (gs_pending (insert_pending p s)))"
  by (simp add: insert_pending_def AList.distinct_update Let_def)

lemma requeue_refs_keeps:
  "gs_buses (requeue_refs key refs s) = gs_buses s \<and> gs_heap (requeue_refs key refs s) = gs_heap s
   \<and> gs_stats (requeue_refs key refs s) = gs_stats s \<and> gs_subscribers (requeue_refs key refs s) = gs_subscribers s
   \<and> (distinct (map fst (gs_pending s)) \<longrightarrow> distinct (map fst (gs_pending (requeue_refs key refs s))))"
  by (induction refs arbitrary: s) (simp_all add: distinct_insert_pending)

lemma into_pending_handle [simp]: "pr_handle_id (SubscriberRef_into_pending r n e) = sr_handle_id r"
  by (simp add: SubscriberRef_into_pending_def)

lemma requeue_refs_other:
  "h \<notin> sr_handle_id ` set refs \<Longrightarrow> map_of (gs_pending (requeue_refs key refs s)) h = map_of (gs_pending s) h"
  by (induction refs arbitrary: s) simp_all

lemma requeue_refs_queued:
  "\<forall>q \<in> set refs. sr_handle_id q = sr_handle_id r \<longrightarrow> q = r \<Longrightarrow> r \<in> set refs \<Longrightarrow> stats_alive s (sr_stats r) \<Longrightarrow>
   map_of (gs_pending (requeue_refs key refs s)) (sr_handle_id r) = Some (SubscriberRef_into_pending r (fst key) (snd key))"
proof (induction refs arbitrary: s)
  case (Cons q refs)
  show ?case
  proof (cases "r \<in> set refs")
    case True
    note IH = Cons.IH [OF _ True]
    show ?thesis using Cons.prems(1, 3) by (simp add: IH)
  next
    case False
    with Cons.prems have "sr_handle_id r \<notin> sr_handle_id ` set refs" by force
    from requeue_refs_other [OF this] False Cons.prems(2, 3) show ?thesis by simp
  qed
qed simp

text \<open>The handles of the subscribers tracked under a key.\<close>

definition key_handles :: "(BusKey \<times> SubscriberRef list) list \<Rightarrow> BusKey \<Rightarrow> string set" where
  "key_handles subs key = (case map_of subs key of None \<Rightarrow> {} | Some refs \<Rightarrow> sr_handle_id ` set refs)"

text \<open>No other tracked subscriber has the handle identifier of \<open>r\<close>, which is tracked under \<open>key\<close>.\<close>

definition own_handle :: "(BusKey \<times> SubscriberRef list) list \<Rightarrow> BusKey \<Rightarrow> SubscriberRef \<Rightarrow> bool" where
  "own_handle subs key r \<longleftrightarrow>
     (\<forall>key' refs. map_of subs key' = Some refs \<longrightarrow>
        (\<forall>q \<in> set refs. sr_handle_id q = sr_handle_id r \<longrightarrow> key' = key \<and> q = r))"

lemma key_handles_delete:
  "key_handles (AList.delete key subs) key' = (if key' = key then {} else key_handles subs key')"
  by (simp add: key_handles_def AList.delete_conv')

lemma own_handle_delete: "own_handle subs key r \<Longrightarrow> own_handle (AList.delete k subs) key r"
  by (simp add: own_handle_def AList.delete_conv')

lemma requeue_subscribers_keeps:
  "gs_buses (requeue_subscribers keys s) = gs_buses s \<and> gs_heap (requeue_subscribers keys s) = gs_heap s
   \<and> gs_stats (requeue_subscribers keys s) = gs_stats s
   \<and> (distinct (map fst (gs_pending s)) \<longrightarrow> distinct (map fst (gs_pending (requeue_subscribers keys s))))"
  by (induction keys arbitrary: s) (auto simp: requeue_refs_keeps split: option.split)

lemma requeue_subscribers_other:
  "(\<And>key. key \<in> set keys \<Longrightarrow> h \<notin> key_handles (gs_subscribers s) key) \<Longrightarrow>
   map_of (gs_pending (requeue_subscribers keys s)) h = map_of (gs_pending s) h"
proof (induction keys arbitrary: s)
  case (Cons key keys)
  show ?case
  proof (cases "map_of (gs_subscribers s) key")
    case None
    with Cons show ?thesis by simp
  next
    case (Some refs)
    then have "h \<notin> sr_handle_id ` set refs" using Cons.prems [of key] by (simp add: key_handles_def)
    note other = requeue_refs_other [OF this]
    have "h \<notin> key_handles (AList.delete key (gs_subscribers s)) k" if "k \<in> set keys" for k
      using Cons.prems [of k] that by (simp add: key_handles_delete)
    then show ?thesis using Some by (simp add: Cons.IH requeue_refs_keeps other)
  qed
qed simp

lemma requeue_subscribers_queued:
  assumes "own_handle (gs_subscribers s) key r" and "key \<in> set keys"
    and "map_of (gs_subscribers s) key = Some refs" and "r \<in> set refs" and "stats_alive s (sr_stats r)"
  shows "map_of (gs_pending (requeue_subscribers keys s)) (sr_handle_id r) =
    Some (SubscriberRef_into_pending r (fst key) (snd key))"
  using assms
proof (induction keys arbitrary: s)
  case (Cons k keys)
  show ?case
  proof (cases "k = key")
    case True
    let ?s = "requeue_refs key refs (s \<lparr> gs_subscribers := AList.delete key (gs_subscribers s) \<rparr>)"
    have dist: "\<forall>q \<in> set refs. sr_handle_id q = sr_handle_id r \<longrightarrow> q = r"
      using Cons.prems(1, 3) unfolding own_handle_def by blast
    have "sr_handle_id r \<notin> key_handles (AList.delete key (gs_subscribers s)) k'" for k'
    proof
      assume "sr_handle_id r \<in> key_handles (AList.delete key (gs_subscribers s)) k'"
      then obtain refs' q where "k' \<noteq> key" "map_of (gs_subscribers s) k' = Some refs'" "q \<in> set refs'"
        "sr_handle_id q = sr_handle_id r"
        by (auto simp: key_handles_def AList.delete_conv' split: if_splits option.splits)
      then show False using Cons.prems(1) unfolding own_handle_def by blast
    qed
    then have "map_of (gs_pending (requeue_subscribers keys ?s)) (sr_handle_id r) = map_of (gs_pending ?s) (sr_handle_id r)"
      by (intro requeue_subscribers_other) (simp add: requeue_refs_keeps)
    then show ?thesis
      using True Cons.prems(3) requeue_refs_queued [OF dist Cons.prems(4), of "s \<lparr> gs_subscribers := AList.delete key (gs_subscribers s) \<rparr>" key]
        Cons.prems(5) by simp
  next
    case False
    then have key: "key \<in> set keys" using Cons.prems(2) by simp
    show ?thesis
    proof (cases "map_of (gs_subscribers s) k")
      case None
      with Cons key show ?thesis by simp
    next
      case (Some refs')
      let ?s = "requeue_refs k refs' (s \<lparr> gs_subscribers := AList.delete k (gs_subscribers s) \<rparr>)"
      have "stats_alive ?s (sr_stats r) = stats_alive s (sr_stats r)"
        by (rule stats_alive_cong) (simp add: requeue_refs_keeps)
      then have "map_of (gs_pending (requeue_subscribers keys ?s)) (sr_handle_id r) =
          Some (SubscriberRef_into_pending r (fst key) (snd key))"
        using Cons.prems False key
        by (intro Cons.IH) (simp_all add: requeue_refs_keeps own_handle_delete AList.delete_conv')
      with Some show ?thesis by simp
    qed
  qed
qed simp

section \<open>Retiring\<close>

lemma retire_loop_keys:
  assumes "distinct keys"
  shows "fst (retire_loop keys buses) = filter (\<lambda>k. map_of buses k \<noteq> None) keys"
    and "map_of (snd (snd (retire_loop keys buses))) = (\<lambda>k. if k \<in> set keys then None else map_of buses k)"
  using assms
proof (induction keys arbitrary: buses)
  case (Cons k keys)
  { case 1
    have "map_of (AList.delete k buses) j \<noteq> None \<longleftrightarrow> map_of buses j \<noteq> None" if "j \<in> set keys" for j
      using that 1 by (auto simp: AList.delete_conv')
    then have "filter (\<lambda>j. map_of (AList.delete k buses) j \<noteq> None) keys = filter (\<lambda>j. map_of buses j \<noteq> None) keys"
      by (rule filter_cong [OF refl])
    with 1 Cons.IH(1) [of buses] Cons.IH(1) [of "AList.delete k buses"] show ?case
      by (auto split: option.split prod.split)
  next
    case 2
    with Cons.IH(2) [of buses] Cons.IH(2) [of "AList.delete k buses"] show ?case
      by (auto simp: fun_eq_iff AList.delete_conv' split: option.split prod.split)
  }
qed simp_all

lemma retire_buses_keeps:
  assumes "retire_buses name ids s = (removed, t)" and "distinct (map fst (gs_buses s))"
  shows "gs_heap t = gs_heap s" "gs_stats t = gs_stats s" "gs_subscribers t = gs_subscribers s" "gs_pending t = gs_pending s"
    and "map_of (gs_buses t) = (\<lambda>(n, e). if n = name \<and> e \<in> set ids then None else map_of (gs_buses s) (n, e))"
    and "set removed = {(n, e). n = name \<and> e \<in> set ids \<and> map_of (gs_buses s) (n, e) \<noteq> None}"
proof -
  let ?keys = "filter (\<lambda>(n, e). n = name \<and> e \<in> set ids) (map fst (gs_buses s))"
  have dist: "distinct ?keys" using assms(2) by simp
  obtain rs bs where r: "retire_loop ?keys (gs_buses s) = (removed, rs, bs)"
      and t: "t = s \<lparr> gs_buses := bs, gs_slots := fold (\<lambda>bus. broadcast_upstream_gone (gs_heap s ! bus)) rs (gs_slots s) \<rparr>"
    using assms(1) by (auto simp: retire_buses_def Let_def split: prod.splits)
  show "gs_heap t = gs_heap s" "gs_stats t = gs_stats s" "gs_subscribers t = gs_subscribers s" "gs_pending t = gs_pending s"
    by (simp_all add: t)
  have some: "k \<in> fst ` set (gs_buses s) \<longleftrightarrow> map_of (gs_buses s) k \<noteq> None" for k
    by (simp add: map_of_eq_None_iff)
  show "map_of (gs_buses t) = (\<lambda>(n, e). if n = name \<and> e \<in> set ids then None else map_of (gs_buses s) (n, e))"
    using retire_loop_keys(2) [OF dist, of "gs_buses s"] some unfolding r t by (fastforce simp: fun_eq_iff)
  show "set removed = {(n, e). n = name \<and> e \<in> set ids \<and> map_of (gs_buses s) (n, e) \<noteq> None}"
    using retire_loop_keys(1) [OF dist, of "gs_buses s"] some unfolding r by auto
qed

section \<open>Sweeping\<close>

text \<open>What a sweep leaves as it was: buses and their values, earlier subscriptions and tracked subscribers.\<close>

definition grown :: "GateServer \<Rightarrow> GateServer \<Rightarrow> bool" where
  "grown s t \<longleftrightarrow>
     gs_buses t = gs_buses s \<and> (\<forall>i. stats_alive t i = stats_alive s i) \<and> length (gs_heap t) = length (gs_heap s)
     \<and> (\<forall>b < length (gs_heap s). set (gb_subs (gs_heap s ! b)) \<subseteq> set (gb_subs (gs_heap t ! b))
          \<and> gb_has_value (gs_heap t ! b) = gb_has_value (gs_heap s ! b)
          \<and> gb_last_value (gs_heap t ! b) = gb_last_value (gs_heap s ! b))
     \<and> (\<forall>key refs. map_of (gs_subscribers s) key = Some refs \<longrightarrow>
          (\<exists>refs'. map_of (gs_subscribers t) key = Some refs' \<and> set refs \<subseteq> set refs'))"

lemma grown_refl [simp]: "grown s s"
  by (simp add: grown_def)

lemma grown_trans:
  assumes "grown s t" and "grown t u"
  shows "grown s u"
proof -
  have "\<exists>refs'. map_of (gs_subscribers u) key = Some refs' \<and> set refs \<subseteq> set refs'"
    if "map_of (gs_subscribers s) key = Some refs" for key refs
    using assms that unfolding grown_def by (meson order_trans)
  moreover have "set (gb_subs (gs_heap s ! b)) \<subseteq> set (gb_subs (gs_heap u ! b))" if "b < length (gs_heap s)" for b
    using assms that unfolding grown_def by (metis order_trans)
  ultimately show ?thesis using assms unfolding grown_def by simp
qed

lemma update_stats_simps [simp]:
  "gs_buses (update_stats i f s) = gs_buses s" "gs_heap (update_stats i f s) = gs_heap s"
  "gs_subscribers (update_stats i f s) = gs_subscribers s" "gs_pending (update_stats i f s) = gs_pending s"
  "gs_slots (update_stats i f s) = gs_slots s"
  by (simp_all add: update_stats_def)

lemma stats_alive_update [simp]:
  "(\<And>c. st_strong (f c) = st_strong c) \<Longrightarrow> stats_alive (update_stats i f s) j = stats_alive s j"
  by (cases "i < length (gs_stats s)"; cases "j = i") (simp_all add: update_stats_def stats_alive_def list_update_beyond)

lemma track_subscriber_simps [simp]:
  "gs_buses (track_subscriber p s) = gs_buses s" "gs_heap (track_subscriber p s) = gs_heap s"
  "gs_pending (track_subscriber p s) = gs_pending s" "stats_alive (track_subscriber p s) i = stats_alive s i"
  "gs_slots (track_subscriber p s) = gs_slots s" "gs_stats (track_subscriber p s) = gs_stats s"
  by (simp_all add: track_subscriber_def SubscriberRef_from_pending_def Let_def)

lemma track_subscriber_tracked:
  "\<exists>refs. map_of (gs_subscribers (track_subscriber p s)) (pr_scenario_name p, pr_entry_id p) = Some refs
     \<and> snd (SubscriberRef_from_pending p) \<in> set refs"
  by (simp add: track_subscriber_def SubscriberRef_from_pending_def AList.update_conv' Let_def)

lemma track_subscriber_subscribers:
  "map_of (gs_subscribers s) key = Some refs \<Longrightarrow>
   \<exists>refs'. map_of (gs_subscribers (track_subscriber p s)) key = Some refs' \<and> set refs \<subseteq> set refs'"
  by (auto simp: track_subscriber_def SubscriberRef_from_pending_def AList.update_conv' Let_def)

lemma grown_track: "grown s (track_subscriber p s)"
  unfolding grown_def by (simp add: track_subscriber_subscribers del: split_paired_All)

text \<open>The subscription a promoted waiter gets.\<close>

definition waiter_sub :: "PendingResolution \<Rightarrow> GateBus \<Rightarrow> Subscription" where
  "waiter_sub p bus =
     \<lparr> sub_spec = \<lparr> sp_after = None, sp_while = Some (pr_spec p) \<rparr>, sub_after_tx = None,
       sub_while_tx = Some (pr_edge_sender p), sub_after_fired = False,
       sub_prev_while_open =
         (if gb_has_value bus then Some (strict_eval (gb_last_value bus) (ws_op (pr_spec p)) (ws_threshold (pr_spec p)))
          else None) \<rparr>"

lemma subscribe_waiter:
  "fst (snd (subscribe_with_while_sender (pr_spec p) (pr_edge_sender p) bus slots)) =
     bus \<lparr> gb_subs := gb_subs bus @ [waiter_sub p bus] \<rparr>"
  by (simp add: subscribe_with_while_sender_def waiter_sub_def Let_def)

lemma promote_simps:
  "gs_pending (promote h p b s) = AList.delete h (gs_pending s)" "gs_buses (promote h p b s) = gs_buses s"
  "gs_heap (promote h p b s) =
     (gs_heap s)[b := (gs_heap s ! b) \<lparr> gb_subs := gb_subs (gs_heap s ! b) @ [waiter_sub p (gs_heap s ! b)] \<rparr>]"
  "stats_alive (promote h p b s) i = stats_alive s i"
proof -
  let ?q = "p \<lparr> pr_attempts := saturating_succ (pr_attempts p) \<rparr>"
  have q: "waiter_sub ?q bus = waiter_sub p bus" for bus by (simp add: waiter_sub_def)
  show "gs_pending (promote h p b s) = AList.delete h (gs_pending s)" "gs_buses (promote h p b s) = gs_buses s"
    "stats_alive (promote h p b s) i = stats_alive s i"
    by (simp_all add: promote_def Let_def split: prod.split)
  show "gs_heap (promote h p b s) =
     (gs_heap s)[b := (gs_heap s ! b) \<lparr> gb_subs := gb_subs (gs_heap s ! b) @ [waiter_sub p (gs_heap s ! b)] \<rparr>]"
    using subscribe_waiter [of p "gs_heap s ! b" "sender_clone (pr_edge_sender p) (gs_slots s)"]
    by (auto simp: promote_def q Let_def split: prod.split)
qed

lemma promote_tracked:
  "\<exists>refs. map_of (gs_subscribers (promote h p b s)) (pr_scenario_name p, pr_entry_id p) = Some refs
     \<and> snd (SubscriberRef_from_pending (p \<lparr> pr_attempts := saturating_succ (pr_attempts p) \<rparr>)) \<in> set refs"
  using track_subscriber_tracked [of "p \<lparr> pr_attempts := saturating_succ (pr_attempts p) \<rparr>"]
  by (simp add: promote_def Let_def split: prod.split)

lemma grown_subscribe:
  assumes "gs_buses t = gs_buses s" "\<And>i. stats_alive t i = stats_alive s i" "gs_subscribers t = gs_subscribers s"
    "gs_heap t = (gs_heap s)[b := (gs_heap s ! b) \<lparr> gb_subs := gb_subs (gs_heap s ! b) @ [sub] \<rparr>]"
  shows "grown s t"
  using assms by (auto simp: grown_def nth_update_eq)

lemma grown_promote: "grown s (promote h p b s)"
proof -
  let ?q = "p \<lparr> pr_attempts := saturating_succ (pr_attempts p) \<rparr>"
  obtain t where p: "promote h p b s = track_subscriber ?q t" "gs_subscribers t = gs_subscribers s"
    by (cases "subscribe_with_while_sender (pr_spec p) (pr_edge_sender p) (gs_heap s ! b)
          (sender_clone (pr_edge_sender p) (gs_slots s))") (auto simp: promote_def Let_def)
  have "grown s t"
    using promote_simps [of h p b s] p by (intro grown_subscribe [of t s b "waiter_sub p (gs_heap s ! b)"]) simp_all
  then show ?thesis unfolding p(1) by (rule grown_trans [OF _ grown_track])
qed

text \<open>The turn of one waiter.\<close>

definition sweep_one :: "string \<Rightarrow> GateServer \<Rightarrow> GateServer" where
  "sweep_one h s =
     (case map_of (gs_pending s) h of
        None \<Rightarrow> s
      | Some p \<Rightarrow>
          if \<not> stats_alive s (pr_stats p)
          then s \<lparr> gs_pending := AList.delete h (gs_pending s),
                   gs_slots := sender_drop (pr_edge_sender p) (gs_slots s) \<rparr>
          else (case map_of (gs_buses s) (pr_scenario_name p, pr_entry_id p) of
                  None \<Rightarrow> s
                | Some bus \<Rightarrow> promote h p bus s))"

lemma sweep_Cons: "snd (sweep_loop (h # keys) s) = snd (sweep_loop keys (sweep_one h s))"
  by (auto simp: sweep_one_def split: option.split prod.split)

lemma grown_sweep_one: "grown s (sweep_one h s)"
proof -
  have "grown s (s \<lparr> gs_pending := ps, gs_slots := slots \<rparr>)" for ps slots by (simp add: grown_def)
  then show ?thesis by (simp add: sweep_one_def grown_promote split: option.split)
qed

lemma sweep_grown: "grown s (snd (sweep_loop keys s))"
proof (induction keys arbitrary: s)
  case (Cons h keys)
  show ?case unfolding sweep_Cons by (rule grown_trans [OF grown_sweep_one Cons.IH])
qed simp

lemma sweep_one_pending:
  "k \<noteq> h \<Longrightarrow> map_of (gs_pending (sweep_one h s)) k = map_of (gs_pending s) k"
  "set (gs_pending (sweep_one h s)) \<subseteq> set (gs_pending s)"
proof -
  show "k \<noteq> h \<Longrightarrow> map_of (gs_pending (sweep_one h s)) k = map_of (gs_pending s) k"
    by (simp add: sweep_one_def promote_simps AList.delete_conv' split: option.split)
  show "set (gs_pending (sweep_one h s)) \<subseteq> set (gs_pending s)"
    by (auto simp: sweep_one_def promote_simps AList.delete_eq split: option.split)
qed

lemma sweep_other: "h \<notin> set keys \<Longrightarrow> map_of (gs_pending (snd (sweep_loop keys s))) h = map_of (gs_pending s) h"
proof (induction keys arbitrary: s)
  case (Cons k keys)
  then show ?case unfolding sweep_Cons by (simp add: sweep_one_pending)
qed simp

text \<open>Only waiters are subscribed.\<close>

lemma sweep_one_subs:
  assumes "sub \<in> set (gb_subs (gs_heap (sweep_one h s) ! b))"
  shows "sub \<in> set (gb_subs (gs_heap s ! b)) \<or> (\<exists>(k, q) \<in> set (gs_pending s). sub_while_tx sub = Some (pr_edge_sender q))"
proof (cases "map_of (gs_pending s) h")
  case None
  with assms show ?thesis by (simp add: sweep_one_def)
next
  case (Some p)
  then have "(h, p) \<in> set (gs_pending s)" by (rule map_of_SomeD)
  with assms Some show ?thesis
    by (auto simp: sweep_one_def promote_simps nth_update_eq waiter_sub_def split: if_splits option.splits)
qed

lemma sweep_subs:
  "sub \<in> set (gb_subs (gs_heap (snd (sweep_loop keys s)) ! b)) \<Longrightarrow>
   sub \<in> set (gb_subs (gs_heap s ! b)) \<or> (\<exists>(k, q) \<in> set (gs_pending s). sub_while_tx sub = Some (pr_edge_sender q))"
proof (induction keys arbitrary: s)
  case (Cons h keys)
  from Cons.IH [OF Cons.prems [unfolded sweep_Cons]] sweep_one_subs [of sub h s b] sweep_one_pending(2) [of h s]
  show ?case by blast
qed simp

text \<open>A waiter whose upstream is registered is subscribed to it and tracked.\<close>

lemma sweep_one_promoted:
  assumes "map_of (gs_pending s) h = Some p" and "stats_alive s (pr_stats p)"
    and "map_of (gs_buses s) (pr_scenario_name p, pr_entry_id p) = Some b" and "b < length (gs_heap s)"
  shows "map_of (gs_pending (sweep_one h s)) h = None"
    and "\<exists>refs. map_of (gs_subscribers (sweep_one h s)) (pr_scenario_name p, pr_entry_id p) = Some refs
           \<and> snd (SubscriberRef_from_pending (p \<lparr> pr_attempts := saturating_succ (pr_attempts p) \<rparr>)) \<in> set refs"
    and "waiter_sub p (gs_heap s ! b) \<in> set (gb_subs (gs_heap (sweep_one h s) ! b))"
proof -
  have one: "sweep_one h s = promote h p b s" using assms by (simp add: sweep_one_def)
  show "map_of (gs_pending (sweep_one h s)) h = None" by (simp add: one promote_simps AList.delete_conv')
  show "\<exists>refs. map_of (gs_subscribers (sweep_one h s)) (pr_scenario_name p, pr_entry_id p) = Some refs
      \<and> snd (SubscriberRef_from_pending (p \<lparr> pr_attempts := saturating_succ (pr_attempts p) \<rparr>)) \<in> set refs"
    unfolding one by (rule promote_tracked)
  show "waiter_sub p (gs_heap s ! b) \<in> set (gb_subs (gs_heap (sweep_one h s) ! b))"
    using assms(4) by (simp add: one promote_simps)
qed

lemma grownD:
  assumes "grown s t"
  shows "map_of (gs_subscribers s) key = Some refs \<Longrightarrow>
      \<exists>refs'. map_of (gs_subscribers t) key = Some refs' \<and> set refs \<subseteq> set refs'"
    and "b < length (gs_heap s) \<Longrightarrow> set (gb_subs (gs_heap s ! b)) \<subseteq> set (gb_subs (gs_heap t ! b))"
    and "b < length (gs_heap s) \<Longrightarrow> waiter_sub p (gs_heap t ! b) = waiter_sub p (gs_heap s ! b)"
    and "gs_buses t = gs_buses s" "stats_alive t i = stats_alive s i" "length (gs_heap t) = length (gs_heap s)"
  using assms unfolding grown_def waiter_sub_def by (blast, simp_all del: split_paired_All split_paired_Ex)

lemma sweep_promoted:
  assumes "distinct keys" and "h \<in> set keys" and "map_of (gs_pending s) h = Some p" and "stats_alive s (pr_stats p)"
    and "map_of (gs_buses s) (pr_scenario_name p, pr_entry_id p) = Some b" and "b < length (gs_heap s)"
  shows "map_of (gs_pending (snd (sweep_loop keys s))) h = None
    \<and> (\<exists>refs. map_of (gs_subscribers (snd (sweep_loop keys s))) (pr_scenario_name p, pr_entry_id p) = Some refs
         \<and> snd (SubscriberRef_from_pending (p \<lparr> pr_attempts := saturating_succ (pr_attempts p) \<rparr>)) \<in> set refs)
    \<and> waiter_sub p (gs_heap s ! b) \<in> set (gb_subs (gs_heap (snd (sweep_loop keys s)) ! b))"
  using assms
proof (induction keys arbitrary: s)
  case (Cons k keys)
  note one = grownD [OF grown_sweep_one [of s k]] and rest = grownD [OF sweep_grown [of "sweep_one k s" keys]]
  show ?case
  proof (cases "k = h")
    case True
    note pr = sweep_one_promoted [OF Cons.prems(3-)]
    from pr(2) obtain refs where refs: "map_of (gs_subscribers (sweep_one h s)) (pr_scenario_name p, pr_entry_id p) = Some refs"
        "snd (SubscriberRef_from_pending (p \<lparr> pr_attempts := saturating_succ (pr_attempts p) \<rparr>)) \<in> set refs" by blast
    with rest(1) [of "(pr_scenario_name p, pr_entry_id p)" refs] True pr(1, 3) rest(2) [of b] one(6) Cons.prems(1, 6)
    show ?thesis unfolding sweep_Cons by (auto simp: sweep_other)
  next
    case False
    then have "h \<in> set keys" "distinct keys" using Cons.prems(1, 2) by auto
    from Cons.IH [OF this(2, 1), of "sweep_one k s"] False Cons.prems(3-) one(3) [of b p] one(4-6)
    show ?thesis unfolding sweep_Cons by (simp add: sweep_one_pending)
  qed
qed simp

section \<open>The resolver as its clients see it\<close>

text \<open>
  The laws of a \<open>GateBusResolver\<close> (\<open>schedule/gate_bus.rs\<close>) that a launch relies on: a free key is registered and
  found, a taken one is refused, and unregistering frees exactly the entries named.
\<close>

locale bus_resolver =
  fixes register_bus :: "string \<Rightarrow> string \<Rightarrow> nat \<Rightarrow> 's \<Rightarrow> 'e + 's"
    and find_bus :: "string \<Rightarrow> string \<Rightarrow> 's \<Rightarrow> nat option"
    and unregister_buses :: "string \<Rightarrow> string list \<Rightarrow> 's \<Rightarrow> 's"
    and consistent :: "'s \<Rightarrow> bool"
  assumes register_free: "find_bus n e s = None \<Longrightarrow>
      \<exists>s'. register_bus n e b s = Inr s' \<and> (\<forall>n' e'. find_bus n' e' s' = (if n' = n \<and> e' = e then Some b else find_bus n' e' s))"
    and register_taken: "find_bus n e s \<noteq> None \<Longrightarrow> \<exists>err. register_bus n e b s = Inl err"
    and unregister_frees: "consistent s \<Longrightarrow>
      find_bus n e (unregister_buses name ids s) = (if n = name \<and> e \<in> set ids then None else find_bus n e s)"
begin

lemma freed: "consistent s \<Longrightarrow> e \<in> set ids \<Longrightarrow> find_bus name e (unregister_buses name ids s) = None"
  by (simp add: unregister_frees)

lemma register_iff: "(\<exists>s'. register_bus n e b s = Inr s') \<longleftrightarrow> find_bus n e s = None"
  using register_free [of n e s b] register_taken [of n e s b] by fastforce

lemma registers_again:
  assumes "consistent s" and "e \<in> set ids"
  shows "\<exists>s'. register_bus name e b (unregister_buses name ids s) = Inr s' \<and> find_bus name e s' = Some b
    \<and> (\<forall>e'. e' \<notin> set ids \<longrightarrow> find_bus name e' s' = find_bus name e' s)"
  using register_free [OF freed [OF assms, where name = name], where b = b] assms by (auto simp: unregister_frees)

end

lemma lookup_unregister:
  assumes "distinct (map fst (gs_buses s))"
  shows "lookup_bus n e (unregister_entries name ids s) = (if n = name \<and> e \<in> set ids then None else lookup_bus n e s)"
proof -
  obtain removed t where r: "retire_buses name ids s = (removed, t)" by fastforce
  show ?thesis
    using retire_buses_keeps(5) [OF r assms] requeue_subscribers_keeps [of removed t]
    by (simp add: lookup_bus_def unregister_entries_def r)
qed

interpretation registry: bus_resolver register lookup_bus unregister_entries "\<lambda>s. distinct (map fst (gs_buses s))"
  by unfold_locales
    (simp_all add: lookup_unregister, auto simp: register_def lookup_bus_def AList.update_conv' Let_def)

section \<open>An upstream that comes back\<close>

text \<open>The maps of the registry have one entry for each key.\<close>

definition server_ok :: "GateServer \<Rightarrow> bool" where
  "server_ok s \<longleftrightarrow> distinct (map fst (gs_buses s)) \<and> distinct (map fst (gs_pending s))"

lemma unregister_keeps:
  assumes "distinct (map fst (gs_buses s))"
  shows "gs_heap (unregister_entries name ids s) = gs_heap s"
    and "gs_stats (unregister_entries name ids s) = gs_stats s"
    and "distinct (map fst (gs_pending s)) \<Longrightarrow> distinct (map fst (gs_pending (unregister_entries name ids s)))"
proof -
  obtain removed t where r: "retire_buses name ids s = (removed, t)" by fastforce
  note keep = retire_buses_keeps [OF r assms] and req = requeue_subscribers_keeps [of removed t]
  show "gs_heap (unregister_entries name ids s) = gs_heap s" "gs_stats (unregister_entries name ids s) = gs_stats s"
    "distinct (map fst (gs_pending s)) \<Longrightarrow> distinct (map fst (gs_pending (unregister_entries name ids s)))"
    using keep req by (simp_all add: unregister_entries_def r)
qed

lemma unregister_queued:
  assumes "server_ok s" and "map_of (gs_buses s) (name, e) \<noteq> None" and "e \<in> set ids"
    and "map_of (gs_subscribers s) (name, e) = Some refs" and "r \<in> set refs" and "stats_alive s (sr_stats r)"
    and "own_handle (gs_subscribers s) (name, e) r"
  shows "map_of (gs_pending (unregister_entries name ids s)) (sr_handle_id r) = Some (SubscriberRef_into_pending r name e)"
proof -
  obtain removed t where r: "retire_buses name ids s = (removed, t)" by fastforce
  have buses: "distinct (map fst (gs_buses s))" using assms(1) by (simp add: server_ok_def)
  note keep = retire_buses_keeps [OF r buses]
  have "stats_alive t (sr_stats r)" using assms(6) stats_alive_cong [OF keep(2)] by simp
  moreover have "(name, e) \<in> set removed" using assms(2, 3) keep(6) by simp
  ultimately show ?thesis
    using requeue_subscribers_queued [of t "(name, e)" r removed refs] assms(4, 5, 7) keep(3)
    by (simp add: unregister_entries_def r server_ok_def)
qed

text \<open>
  C39. An upstream is unregistered and its entry registers again with another bus. A subscriber that was tracked under
  the entry when it was unregistered, whose scenario still lives and whose handle identifier no other tracked subscriber has,
  is after the next sweep subscribed to the new bus through the sender it had, with the comparison of the new bus's value as
  the state of its gate, is tracked again with one more attempt, and waits no longer.
\<close>

theorem requeued_resubscribed:
  assumes "server_ok s" and "map_of (gs_buses s) (name, e) \<noteq> None" and "e \<in> set ids"
    and "map_of (gs_subscribers s) (name, e) = Some refs" and "r \<in> set refs" and "stats_alive s (sr_stats r)"
    and "own_handle (gs_subscribers s) (name, e) r" and "b < length (gs_heap s)"
  shows "\<exists>s' t promoted refs' sub.
     register name e b (unregister_entries name ids s) = Inr s' \<and> sweep_pending s' = (promoted, t)
     \<and> map_of (gs_pending t) (sr_handle_id r) = None
     \<and> map_of (gs_subscribers t) (name, e) = Some refs'
     \<and> r \<lparr> sr_attempts := saturating_succ (sr_attempts r) \<rparr> \<in> set refs'
     \<and> sub \<in> set (gb_subs (gs_heap t ! b))
     \<and> sub_while_tx sub = Some (sr_sender r) \<and> sp_while (sub_spec sub) = Some (sr_spec r)
     \<and> sub_prev_while_open sub =
         (if gb_has_value (gs_heap s ! b)
          then Some (strict_eval (gb_last_value (gs_heap s ! b)) (ws_op (sr_spec r)) (ws_threshold (sr_spec r))) else None)"
proof -
  let ?u = "unregister_entries name ids s" and ?p = "SubscriberRef_into_pending r name e"
  have ok: "distinct (map fst (gs_buses s))" "distinct (map fst (gs_pending s))" using assms(1) by (simp_all add: server_ok_def)
  note un = unregister_keeps [OF ok(1), where name = name and ids = ids]
  define s' where "s' = ?u \<lparr> gs_buses := AList.update (name, e) b (gs_buses ?u) \<rparr>"
  have reg: "register name e b ?u = Inr s'" using registry.freed [OF ok(1) assms(3)] by (simp add: register_def lookup_bus_def s'_def)
  have p: "map_of (gs_pending s') (sr_handle_id r) = Some ?p"
    using unregister_queued [OF assms(1-7)] by (simp add: s'_def)
  have bus: "map_of (gs_buses s') (pr_scenario_name ?p, pr_entry_id ?p) = Some b"
    by (simp add: s'_def AList.update_conv' SubscriberRef_into_pending_def)
  have alive: "stats_alive s' (pr_stats ?p)"
    using assms(6) stats_alive_cong [OF un(2)] by (simp add: s'_def SubscriberRef_into_pending_def)
  have heap: "b < length (gs_heap s')" "gs_heap s' = gs_heap s" using assms(8) un(1) by (simp_all add: s'_def)
  have keys: "distinct (map fst (gs_pending s'))" using un(3) [OF ok(2)] by (simp add: s'_def)
  have mem: "sr_handle_id r \<in> set (map fst (gs_pending s'))" using p by (force dest: map_of_SomeD)
  have restored: "snd (SubscriberRef_from_pending (?p \<lparr> pr_attempts := saturating_succ (pr_attempts ?p) \<rparr>))
      = r \<lparr> sr_attempts := saturating_succ (sr_attempts r) \<rparr>"
    by (simp add: SubscriberRef_from_pending_def SubscriberRef_into_pending_def)
  from sweep_promoted [OF keys mem p alive bus heap(1)] obtain refs' where
    "map_of (gs_pending (snd (sweep_pending s'))) (sr_handle_id r) = None"
    "map_of (gs_subscribers (snd (sweep_pending s'))) (name, e) = Some refs'"
    "r \<lparr> sr_attempts := saturating_succ (sr_attempts r) \<rparr> \<in> set refs'"
    "waiter_sub ?p (gs_heap s ! b) \<in> set (gb_subs (gs_heap (snd (sweep_pending s')) ! b))"
    unfolding restored by (auto simp: sweep_pending_def heap(2) SubscriberRef_into_pending_def)
  then show ?thesis
    using reg by (intro exI [of _ s'] exI [of _ "snd (sweep_pending s')"] exI [of _ "fst (sweep_pending s')"] exI [of _ refs']
        exI [of _ "waiter_sub ?p (gs_heap s ! b)"]) (simp add: waiter_sub_def SubscriberRef_into_pending_def)
qed

text \<open>
  C40. A launch subscribes to the upstream's bus first and records the subscriber only after the scenario has started, so an
  upstream can be unregistered in between. A subscriber recorded then is not found when the entry registers again:
  it is tracked, but nothing waits for it, and the next sweep subscribes it to nothing.
\<close>

theorem late_subscriber_not_resubscribed:
  assumes "server_ok s" and "e \<in> set ids" and "pr_scenario_name p = name" and "pr_entry_id p = e"
    and "b < length (gs_heap s)" and "gb_subs (gs_heap s ! b) = []"
    and "map_of (gs_pending (unregister_entries name ids s)) (pr_handle_id p) = None"
    and "\<forall>(h, q) \<in> set (gs_pending (unregister_entries name ids s)). pr_edge_sender q \<noteq> pr_edge_sender p"
  shows "\<exists>s' t promoted.
     register name e b (track_subscriber p (unregister_entries name ids s)) = Inr s' \<and> sweep_pending s' = (promoted, t)
     \<and> (\<exists>refs. map_of (gs_subscribers t) (name, e) = Some refs \<and> snd (SubscriberRef_from_pending p) \<in> set refs)
     \<and> map_of (gs_pending t) (pr_handle_id p) = None
     \<and> (\<forall>sub \<in> set (gb_subs (gs_heap t ! b)). sub_while_tx sub \<noteq> Some (pr_edge_sender p))"
proof -
  let ?u = "unregister_entries name ids s"
  let ?v = "track_subscriber p ?u"
  have ok: "distinct (map fst (gs_buses s))" using assms(1) by (simp add: server_ok_def)
  note un = unregister_keeps [OF ok, where name = name and ids = ids]
  define s' where "s' = ?v \<lparr> gs_buses := AList.update (name, e) b (gs_buses ?v) \<rparr>"
  have reg: "register name e b ?v = Inr s'" using registry.freed [OF ok assms(2)] by (simp add: register_def lookup_bus_def s'_def)
  let ?t = "snd (sweep_pending s')"
  obtain refs where refs: "map_of (gs_subscribers s') (name, e) = Some refs" "snd (SubscriberRef_from_pending p) \<in> set refs"
    using track_subscriber_tracked [of p ?u] assms(3, 4) by (auto simp: s'_def)
  have grown: "grown s' ?t" unfolding sweep_pending_def by (rule sweep_grown)
  have tracked: "\<exists>refs. map_of (gs_subscribers ?t) (name, e) = Some refs \<and> snd (SubscriberRef_from_pending p) \<in> set refs"
    using grownD(1) [OF grown refs(1)] refs(2) by blast
  have none: "map_of (gs_pending s') (pr_handle_id p) = None" using assms(7) by (simp add: s'_def)
  then have "pr_handle_id p \<notin> set (map fst (gs_pending s'))" by (simp add: map_of_eq_None_iff)
  from sweep_other [OF this, of s'] none have waits: "map_of (gs_pending ?t) (pr_handle_id p) = None"
    by (simp add: sweep_pending_def)
  have "sub_while_tx sub \<noteq> Some (pr_edge_sender p)" if "sub \<in> set (gb_subs (gs_heap ?t ! b))" for sub
    using sweep_subs [OF that [unfolded sweep_pending_def]] assms(6, 8) un(1) by (auto simp: s'_def)
  with reg tracked waits show ?thesis
    by (intro exI [of _ s'] exI [of _ ?t] exI [of _ "fst (sweep_pending s')"]) simp
qed

text \<open>
  A handle has its entry's identifier, or \<open>multi-\<close> with its index, until the server renames it after the launch. Two
  launches that wait at that moment under one identifier share one place among the waiters: the first is replaced, its
  sender dropped, and no sweep will find it.
\<close>

lemma same_handle_replaced:
  assumes "pr_handle_id q = pr_handle_id p" and "distinct (map fst (gs_pending s))" and "p \<noteq> q"
    and "\<forall>(h, w) \<in> set (gs_pending s). w \<noteq> p"
  shows "p \<notin> snd ` set (gs_pending (insert_pending q (insert_pending p s)))"
proof
  assume "p \<in> snd ` set (gs_pending (insert_pending q (insert_pending p s)))"
  then obtain h where "(h, p) \<in> set (gs_pending (insert_pending q (insert_pending p s)))" by force
  then have "map_of (gs_pending (insert_pending q (insert_pending p s))) h = Some p"
    using distinct_insert_pending [OF distinct_insert_pending [OF assms(2)]] map_of_is_SomeI by metis
  then have "h \<noteq> pr_handle_id p" "map_of (gs_pending s) h = Some p" using assms(1, 3) by (auto split: if_splits)
  with assms(4) show False by (auto dest: map_of_SomeD)
qed

text \<open>A running upstream with one subscriber, and the fresh bus that will replace its own.\<close>

definition example_ref :: SubscriberRef where
  "example_ref =
     \<lparr> sr_handle_id = ''down'', sr_stats = 0, sr_sender = 0, sr_spec = \<lparr> ws_op = WhileGreaterThan, ws_threshold = 0 \<rparr>,
       sr_if_unresolved = UnresolvedPending, sr_registered_at = 0, sr_attempts = 0 \<rparr>"

definition example_server :: "(BusKey \<times> SubscriberRef list) list \<Rightarrow> GateServer" where
  "example_server subscribers =
     \<lparr> gs_slots = [EdgeSlot_new], gs_heap = [GateBus_new, GateBus_new],
       gs_stats = [\<lparr> st_strong = 1, st_state = StRunning, st_transition_at = None, st_resolution_attempts = 0 \<rparr>],
       gs_buses = [((''up'', ''m''), 0)], gs_subscribers = subscribers, gs_pending = [] \<rparr>"

theorem requeued_resubscribed_witness:
  "\<exists>s' t promoted.
     register ''up'' ''m'' 1 (unregister_entries ''up'' [''m''] (example_server [((''up'', ''m''), [example_ref])])) = Inr s'
     \<and> sweep_pending s' = (promoted, t)
     \<and> (\<exists>sub \<in> set (gb_subs (gs_heap t ! 1)). sub_while_tx sub = Some 0)"
proof -
  let ?s = "example_server [((''up'', ''m''), [example_ref])]"
  have "server_ok ?s" "stats_alive ?s (sr_stats example_ref)" "own_handle (gs_subscribers ?s) (''up'', ''m'') example_ref"
    by (auto simp: server_ok_def example_server_def own_handle_def stats_alive_def example_ref_def split: if_splits)
  with requeued_resubscribed [of ?s "''up''" "''m''" "[''m'']" "[example_ref]" example_ref 1]
  show ?thesis by (fastforce simp: example_server_def example_ref_def)
qed

theorem late_subscriber_not_resubscribed_witness:
  "\<exists>s' t promoted.
     register ''up'' ''m'' 1 (track_subscriber (SubscriberRef_into_pending example_ref ''up'' ''m'')
       (unregister_entries ''up'' [''m''] (example_server []))) = Inr s'
     \<and> sweep_pending s' = (promoted, t)
     \<and> map_of (gs_pending t) ''down'' = None \<and> (\<forall>sub \<in> set (gb_subs (gs_heap t ! 1)). sub_while_tx sub \<noteq> Some 0)"
proof -
  let ?s = "example_server []" and ?p = "SubscriberRef_into_pending example_ref ''up'' ''m''"
  have "server_ok ?s" by (simp add: server_ok_def example_server_def)
  moreover have "gs_pending (unregister_entries ''up'' [''m''] ?s) = []"
    by (simp add: unregister_entries_def retire_buses_def example_server_def Let_def)
  ultimately show ?thesis
    using late_subscriber_not_resubscribed [of ?s "''m''" "[''m'']" ?p "''up''" 1]
    by (simp add: example_server_def example_ref_def SubscriberRef_into_pending_def GateBus_new_def) blast
qed

end
