(* ===== verification/Float64_Arith.thy ===== *)
theory Float64_Arith
  imports Float64
begin

text \<open>
  Arithmetic of \<open>f64\<close> as IEEE 754 and Rust define it: sums, products and quotients are the exact value rounded to the
  nearest representable number, ties to even; remainders and roundings to whole numbers are exact; conversions to
  integers truncate and saturate. Exact values are ratios of naturals, in units of two to the minus 1074.
\<close>

section \<open>Rounding\<close>

definition round_half_even :: "nat \<Rightarrow> nat \<Rightarrow> nat" where
  "round_half_even num den =
     (let q = num div den; r = num mod den
      in if 2 * r < den then q else if 2 * r > den then q + 1 else if even q then q else q + 1)"

definition F64_INF :: nat where
  "F64_INF = 2047 * 2 ^ 52"

text \<open>
  The magnitude nearest to \<open>num / den\<close> units: with 53 significant bits above the exponent \<open>e\<close>, the bits are those of the
  significand added to the exponent, so that a carry of the rounding moves to the next exponent by itself.
\<close>

definition f64_nearest :: "nat \<Rightarrow> nat \<Rightarrow> nat" where
  "f64_nearest num den =
     (let e = bit_len (num div den) - 53
      in min (e * 2 ^ 52 + round_half_even num (den * 2 ^ e)) F64_INF)"

definition f64_make :: "bool \<Rightarrow> nat \<Rightarrow> f64" where
  "f64_make neg m = (if neg then set_bit 63 (of_nat m) else of_nat m)"

definition f64_round :: "bool \<Rightarrow> nat \<Rightarrow> nat \<Rightarrow> f64" where
  "f64_round neg num den = f64_make neg (f64_nearest num den)"

definition F64_ONE :: nat where
  "F64_ONE = 2 ^ 1074"

section \<open>Operations\<close>

definition f64_is_infinite :: "f64 \<Rightarrow> bool" where
  "f64_is_infinite x \<longleftrightarrow> f64_magnitude x = F64_INF"

definition f64_abs_units :: "f64 \<Rightarrow> nat" where
  "f64_abs_units x = units_of (f64_magnitude x)"

definition f64_inf :: "bool \<Rightarrow> f64" where
  "f64_inf neg = f64_make neg F64_INF"

definition f64_neg :: "f64 \<Rightarrow> f64" where
  "f64_neg x = flip_bit 63 x"

definition f64_abs :: "f64 \<Rightarrow> f64" where
  "f64_abs x = unset_bit 63 x"

definition f64_add :: "f64 \<Rightarrow> f64 \<Rightarrow> f64" where
  "f64_add a b =
     (if f64_is_nan a \<or> f64_is_nan b then f64_nan
      else if f64_is_infinite a then (if f64_is_infinite b \<and> f64_sign a \<noteq> f64_sign b then f64_nan else a)
      else if f64_is_infinite b then b
      else
        let s = f64_units a + f64_units b
        in if s = 0 then f64_make (f64_sign a \<and> f64_sign b) 0 else f64_round (s < 0) (nat \<bar>s\<bar>) 1)"

definition f64_sub :: "f64 \<Rightarrow> f64 \<Rightarrow> f64" where
  "f64_sub a b = (if f64_is_nan b then f64_nan else f64_add a (f64_neg b))"

definition f64_mul :: "f64 \<Rightarrow> f64 \<Rightarrow> f64" where
  "f64_mul a b =
     (let neg = (f64_sign a \<noteq> f64_sign b)
      in if f64_is_nan a \<or> f64_is_nan b then f64_nan
         else if f64_is_infinite a \<or> f64_is_infinite b
         then (if f64_magnitude a = 0 \<or> f64_magnitude b = 0 then f64_nan else f64_inf neg)
         else f64_round neg (f64_abs_units a * f64_abs_units b) F64_ONE)"

definition f64_div :: "f64 \<Rightarrow> f64 \<Rightarrow> f64" where
  "f64_div a b =
     (let neg = (f64_sign a \<noteq> f64_sign b)
      in if f64_is_nan a \<or> f64_is_nan b then f64_nan
         else if f64_is_infinite a then (if f64_is_infinite b then f64_nan else f64_inf neg)
         else if f64_is_infinite b then f64_make neg 0
         else if f64_magnitude b = 0 then (if f64_magnitude a = 0 then f64_nan else f64_inf neg)
         else f64_round neg (f64_abs_units a * F64_ONE) (f64_abs_units b))"

text \<open>The operator \<open>%\<close>: the exact remainder of truncated division, with the sign of the dividend.\<close>

definition f64_rem :: "f64 \<Rightarrow> f64 \<Rightarrow> f64" where
  "f64_rem a b =
     (if f64_is_nan a \<or> f64_is_nan b \<or> f64_is_infinite a \<or> f64_magnitude b = 0 then f64_nan
      else if f64_is_infinite b then a
      else f64_round (f64_sign a) (f64_abs_units a mod f64_abs_units b) 1)"

definition f64_le :: "f64 \<Rightarrow> f64 \<Rightarrow> bool" where
  "f64_le a b \<longleftrightarrow> \<not> f64_is_nan a \<and> \<not> f64_is_nan b \<and> f64_key a \<le> f64_key b"

definition f64_eq :: "f64 \<Rightarrow> f64 \<Rightarrow> bool" where
  "f64_eq a b \<longleftrightarrow> \<not> f64_is_nan a \<and> \<not> f64_is_nan b \<and> f64_key a = f64_key b"

definition f64_rem_euclid :: "f64 \<Rightarrow> f64 \<Rightarrow> f64" where
  "f64_rem_euclid a b =
     (let r = f64_rem a b in if f64_lt r 0 then f64_add r (f64_abs b) else r)"

definition f64_min :: "f64 \<Rightarrow> f64 \<Rightarrow> f64" where
  "f64_min a b = (if f64_is_nan a then b else if f64_is_nan b then a else if f64_lt b a then b else a)"

definition f64_max :: "f64 \<Rightarrow> f64 \<Rightarrow> f64" where
  "f64_max a b = (if f64_is_nan a then b else if f64_is_nan b then a else if f64_lt a b then b else a)"

text \<open>\<open>ceil\<close>, \<open>round\<close> (half away from zero) and \<open>trunc\<close> keep NaN, infinities and the sign.\<close>

definition f64_whole :: "(bool \<Rightarrow> nat \<Rightarrow> nat) \<Rightarrow> f64 \<Rightarrow> f64" where
  "f64_whole f x =
     (if f64_is_nan x \<or> f64_is_infinite x then x
      else f64_round (f64_sign x) (f (f64_sign x) (f64_abs_units x) * F64_ONE) 1)"

definition f64_trunc :: "f64 \<Rightarrow> f64" where
  "f64_trunc = f64_whole (\<lambda>neg u. u div F64_ONE)"

definition f64_ceil :: "f64 \<Rightarrow> f64" where
  "f64_ceil = f64_whole (\<lambda>neg u. if neg then u div F64_ONE else div_ceil u F64_ONE)"

definition f64_round_away :: "f64 \<Rightarrow> f64" where
  "f64_round_away = f64_whole (\<lambda>neg u. (2 * u + F64_ONE) div (2 * F64_ONE))"

definition f64_of_nat :: "nat \<Rightarrow> f64" where
  "f64_of_nat n = f64_round False (n * F64_ONE) 1"

definition f64_of_int :: "int \<Rightarrow> f64" where
  "f64_of_int i = f64_round (i < 0) (nat \<bar>i\<bar> * F64_ONE) 1"

text \<open>The casts \<open>as u64\<close> and \<open>as i64\<close>: NaN is zero, values beyond the range saturate.\<close>

definition f64_to_u64 :: "f64 \<Rightarrow> u64" where
  "f64_to_u64 x =
     (if f64_is_nan x \<or> f64_sign x then 0 else of_nat (min (f64_abs_units x div F64_ONE) (2 ^ 64 - 1)))"

definition f64_to_i64 :: "f64 \<Rightarrow> i64" where
  "f64_to_i64 x =
     (let m = f64_abs_units x div F64_ONE
      in if f64_is_nan x then 0
         else if f64_sign x then of_int (- int (min m (2 ^ 63)))
         else of_nat (min m (2 ^ 63 - 1)))"

section \<open>Making a number and taking it apart\<close>

lemma f64_make_parts:
  assumes "m < 2 ^ 63"
  shows "f64_magnitude (f64_make neg m) = m" and "f64_sign (f64_make neg m) = neg"
proof -
  have m: "unat (of_nat m :: f64) = m" using assms by simp
  have "\<not> bit m 63" using assms by (simp add: bit_iff_odd)
  then have nb: "\<not> bit (of_nat m :: f64) 63"
    using bit_unsigned_iff [of "of_nat m :: f64" 63, where 'a = nat] m by simp
  show "f64_sign (f64_make neg m) = neg"
    using nb by (simp add: f64_sign_def f64_make_def bit_set_bit_iff)
  have "take_bit 63 (set_bit 63 (of_nat m) :: f64) = take_bit 63 (of_nat m)"
    by (rule bit_eqI) (auto simp: bit_take_bit_iff bit_set_bit_iff)
  moreover have "unat (take_bit 63 (of_nat m :: f64)) = m"
    using assms m by (simp add: unsigned_take_bit_eq take_bit_nat_eq_self)
  ultimately show "f64_magnitude (f64_make neg m) = m"
    by (simp add: f64_magnitude_def f64_make_def)
qed

section \<open>Exact values\<close>

lemma round_half_even_dvd: "0 < den \<Longrightarrow> round_half_even (q * den) den = q"
  by (simp add: round_half_even_def)

lemma round_half_even_scale:
  assumes "0 < k"
  shows "round_half_even (num * k) (den * k) = round_half_even num den"
  using assms by (simp add: round_half_even_def mult_mod_left [symmetric] Let_def flip: mult.assoc)

lemma f64_nearest_scale: "0 < k \<Longrightarrow> f64_nearest (num * k) (den * k) = f64_nearest num den"
proof -
  assume k: "0 < k"
  have "round_half_even (num * k) (den * k * 2 ^ e) = round_half_even num (den * 2 ^ e)" for e
    using round_half_even_scale [OF k, of num "den * 2 ^ e"] by (simp add: ac_simps)
  with k show ?thesis by (simp add: f64_nearest_def Let_def)
qed

lemma bit_len_between: "0 < n \<Longrightarrow> 2 ^ (bit_len n - 1) \<le> n" "n < 2 ^ bit_len n"
proof -
  show "n < 2 ^ bit_len n" using bit_len_le_iff [of n "bit_len n"] by simp
  assume "0 < n"
  then show "2 ^ (bit_len n - 1) \<le> n" using bit_len_pos [of n] less_bit_len_iff [of "bit_len n - 1" n] by simp
qed

text \<open>A number with no more than 53 significant bits, within the range, is its own nearest.\<close>

lemma div_eq_1: "d \<le> n \<Longrightarrow> n < 2 * d \<Longrightarrow> n div d = 1" for n d :: nat
  by (subst div_if) auto

lemma mod_minus: "d \<le> n \<Longrightarrow> n < 2 * d \<Longrightarrow> n mod d = n - d" for n d :: nat
  by (simp add: mod_if)

lemma f64_nearest_exact:
  assumes "2 ^ (bit_len u - 53) dvd u" and "u < 2 ^ 2098"
  shows "units_of (f64_nearest u 1) = u" and "f64_nearest u 1 < F64_INF"
proof -
  define e where "e = bit_len u - 53"
  obtain q where q: "u = q * 2 ^ e" using assms(1) by (auto simp: e_def dvd_def mult.commute)
  have len: "bit_len u \<le> 2098" using assms(2) by (simp add: bit_len_le_iff)
  have qlt: "q < 2 ^ 53"
  proof -
    have "u < 2 ^ (53 + e)"
      using bit_len_between(2) [of u] by (rule less_le_trans) (auto intro!: power_increasing simp: e_def)
    then have "q * 2 ^ e < 2 ^ (53 + e)" by (simp only: q [symmetric])
    then show ?thesis by (simp add: power_add)
  qed
  have qge: "2 ^ 52 \<le> q" if "0 < e"
  proof -
    have "0 < u" using that by (cases u) (simp_all add: e_def)
    from bit_len_between(1) [OF this] have "2 ^ (52 + e) \<le> u" using that by (simp add: e_def)
    then have "2 ^ (52 + e) \<le> q * 2 ^ e" by (simp only: q [symmetric])
    then show ?thesis by (simp add: power_add)
  qed
  have near: "f64_nearest u 1 = min (e * 2 ^ 52 + q) F64_INF"
    using round_half_even_dvd [of "2 ^ e" q] by (simp add: f64_nearest_def Let_def q [symmetric] flip: e_def)
  have "e \<le> 2045" using len by (simp add: e_def)
  then have small: "e * 2 ^ 52 + q < F64_INF" using qlt by (simp add: F64_INF_def)
  then have m: "f64_nearest u 1 = e * 2 ^ 52 + q" unfolding near by simp
  show "f64_nearest u 1 < F64_INF" using small m by simp
  show "units_of (f64_nearest u 1) = u"
  proof (cases "e = 0")
    case True
    have "units_of q = q"
    proof (cases "q < 2 ^ 52")
      case False
      then have "q div 2 ^ 52 = 1" "q mod 2 ^ 52 = q - 2 ^ 52" using qlt by (simp_all add: div_eq_1 mod_minus)
      with False show ?thesis unfolding units_of_def by simp
    qed (simp add: units_of_def)
    with True show ?thesis unfolding m by (simp add: q)
  next
    case False
    then have "q div 2 ^ 52 = 1" "q mod 2 ^ 52 = q - 2 ^ 52" using qge qlt by (simp_all add: div_eq_1 mod_minus)
    then have "(e * 2 ^ 52 + q) div 2 ^ 52 = Suc e" "(e * 2 ^ 52 + q) mod 2 ^ 52 = q - 2 ^ 52" by simp_all
    then show ?thesis using qge False unfolding m units_of_def by (simp add: q)
  qed
qed

section \<open>Whole numbers\<close>

lemma F64_ONE_pos [simp]: "0 < F64_ONE"
  by (simp add: F64_ONE_def)

lemma F64_INF_less: "F64_INF < 2 ^ 63"
  by (simp add: F64_INF_def)

lemma f64_nearest_le: "f64_nearest num den \<le> F64_INF"
  by (simp add: f64_nearest_def Let_def)

lemma f64_round_parts [simp]:
  "f64_magnitude (f64_round neg num den) = f64_nearest num den" "f64_sign (f64_round neg num den) = neg"
  using f64_make_parts [of "f64_nearest num den" neg] f64_nearest_le [of num den] F64_INF_less
  by (simp_all add: f64_round_def)

lemma not_nan_le:
  assumes "f64_magnitude x \<le> F64_INF"
  shows "\<not> f64_is_nan x"
proof
  assume nan: "f64_is_nan x"
  then have "f64_magnitude x div 2 ^ 52 = 2047" "f64_magnitude x mod 2 ^ 52 \<noteq> 0"
    by (simp_all add: f64_is_nan_def f64_exponent_def f64_fraction_def)
  then have "2047 * 2 ^ 52 < f64_magnitude x"
    by (metis div_mult_mod_eq less_add_same_cancel1 bot_nat_0.not_eq_extremum)
  with assms show False by (simp add: F64_INF_def)
qed

lemma f64_round_not_nan [simp]: "\<not> f64_is_nan (f64_round neg num den)"
  by (rule not_nan_le) (simp add: f64_nearest_le)

definition small_nat :: "nat \<Rightarrow> bool" where
  "small_nat n \<longleftrightarrow> n \<le> 2 ^ 53"

lemma bit_len_shift: "0 < n \<Longrightarrow> bit_len (n * 2 ^ k) = bit_len n + k"
proof -
  assume n: "0 < n"
  have "bit_len (n * 2 ^ k) \<le> j \<longleftrightarrow> bit_len n + k \<le> j" for j
  proof (cases "k \<le> j")
    case True
    have "n * 2 ^ k < 2 ^ j \<longleftrightarrow> n < 2 ^ (j - k)"
      using True by (metis le_add_diff_inverse2 mult_less_cancel2 power_add zero_less_numeral zero_less_power)
    with True show ?thesis by (simp add: bit_len_le_iff) (metis bit_len_le_iff le_diff_conv2)
  next
    case False
    then have "(2 :: nat) ^ j < 2 ^ k" by simp
    also have "\<dots> \<le> n * 2 ^ k" using n by simp
    finally show ?thesis using False by (simp add: bit_len_le_iff)
  qed
  then show ?thesis by (meson le_antisym order_refl)
qed

lemma small_nat_dvd: "small_nat n \<Longrightarrow> 2 ^ (bit_len (n * 2 ^ k) - 53) dvd n * 2 ^ k"
proof (cases "n = 2 ^ 53")
  case True
  have "bit_len (2 ^ (53 + k)) \<le> 54 + k" unfolding bit_len_le_iff by simp
  then have "2 ^ (bit_len (2 ^ (53 + k)) - 53) dvd (2 ^ (53 + k) :: nat)" by (intro le_imp_power_dvd) simp
  with True show ?thesis by (simp only: power_add)
next
  case False
  assume "small_nat n"
  with False have len: "bit_len n \<le> 53" by (simp add: bit_len_le_iff small_nat_def)
  show ?thesis
  proof (cases "n = 0")
    case False
    have "2 ^ (bit_len n + k - 53) dvd (2 ^ k :: nat)" using len by (intro le_imp_power_dvd) simp
    then show ?thesis using False by (simp add: bit_len_shift dvd_mult)
  qed simp
qed

lemma shifted_nat_exact:
  assumes "small_nat n" and "k \<le> 900"
  shows "f64_abs_units (f64_of_nat (n * 2 ^ k)) = n * 2 ^ k * F64_ONE" and "f64_magnitude (f64_of_nat (n * 2 ^ k)) < F64_INF"
proof -
  have eq: "n * 2 ^ k * F64_ONE = n * 2 ^ (k + 1074)" by (simp add: F64_ONE_def power_add)
  have lt: "n * 2 ^ (k + 1074) < 2 ^ 2098"
  proof -
    have "n * 2 ^ (k + 1074) \<le> 2 ^ 53 * 2 ^ (k + 1074)" using assms by (intro mult_le_mono1) (simp add: small_nat_def)
    also have "\<dots> = (2 :: nat) ^ (53 + (k + 1074))" by (simp only: power_add)
    also have "\<dots> < 2 ^ 2098" using assms(2) by (intro power_strict_increasing) simp_all
    finally show ?thesis .
  qed
  note exact = f64_nearest_exact [OF small_nat_dvd [OF assms(1)] lt, folded eq]
  show "f64_abs_units (f64_of_nat (n * 2 ^ k)) = n * 2 ^ k * F64_ONE" "f64_magnitude (f64_of_nat (n * 2 ^ k)) < F64_INF"
    unfolding f64_abs_units_def f64_of_nat_def f64_round_parts by (rule exact)+
qed

lemma small_nat_exact:
  assumes "small_nat n"
  shows "f64_abs_units (f64_of_nat n) = n * F64_ONE" and "f64_magnitude (f64_of_nat n) < F64_INF"
  using shifted_nat_exact [OF assms, of 0] by simp_all

lemma small_nat_finite [simp]:
  assumes "small_nat n"
  shows "\<not> f64_is_nan (f64_of_nat n)" "\<not> f64_is_infinite (f64_of_nat n)" "\<not> f64_sign (f64_of_nat n)"
  using small_nat_exact(2) [OF assms] by (simp_all add: f64_of_nat_def f64_is_infinite_def)

lemma small_nat_key: "small_nat n \<Longrightarrow> f64_units (f64_of_nat n) = int (n * F64_ONE)"
  using small_nat_exact(1) [of n] by (simp add: f64_units_def f64_abs_units_def)

lemma small_nat_lt: "small_nat m \<Longrightarrow> small_nat n \<Longrightarrow> f64_lt (f64_of_nat m) (f64_of_nat n) \<longleftrightarrow> m < n"
  by (simp add: f64_lt_value small_nat_key)

lemma f64_of_nat_0: "f64_of_nat 0 = 0"
  by (simp add: f64_of_nat_def f64_round_def f64_make_def f64_nearest_def round_half_even_def)

text \<open>Every finite number is the nearest one to its value.\<close>

lemma bit_len_eqI: "2 ^ k \<le> n \<Longrightarrow> n < 2 ^ Suc k \<Longrightarrow> bit_len n = Suc k"
  using bit_len_le_iff [of n "Suc k"] less_bit_len_iff [of k n] by simp

lemma f64_nearest_units:
  assumes "m < F64_INF"
  shows "f64_nearest (units_of m) 1 = m"
proof (cases "m div 2 ^ 52 = 0")
  case True
  then have u: "units_of m = m" "m < 2 ^ 52" by (simp_all add: units_of_def)
  then have "bit_len m \<le> 52" unfolding bit_len_le_iff by simp
  with u assms show ?thesis
    using round_half_even_dvd [of 1 m] by (simp add: f64_nearest_def)
next
  case False
  define e f where "e = m div 2 ^ 52 - 1" and "f = m mod 2 ^ 52"
  have m: "m = (e + 1) * 2 ^ 52 + f"
    using div_mult_mod_eq [of m "2 ^ 52"] False unfolding e_def f_def by (simp del: div_mult_mod_eq)
  have u: "units_of m = (2 ^ 52 + f) * 2 ^ e" unfolding units_of_def e_def f_def using False by simp
  have "f < 2 ^ 52" by (simp add: f_def)
  then have "bit_len (2 ^ 52 + f) = Suc 52" by (intro bit_len_eqI) simp_all
  then have "bit_len (units_of m) = e + 53" unfolding u by (subst bit_len_shift) simp_all
  then have "f64_nearest (units_of m) 1 = min (e * 2 ^ 52 + (2 ^ 52 + f)) F64_INF"
    using round_half_even_dvd [of "2 ^ e" "2 ^ 52 + f"] unfolding f64_nearest_def u by (simp add: Let_def)
  also have "\<dots> = m" using assms unfolding m by (simp add: min_def)
  finally show ?thesis .
qed

lemma f64_nearest_at:
  assumes "2 ^ 52 * (d * 2 ^ e) \<le> num" and "num < 2 ^ 53 * (d * 2 ^ e)"
  shows "f64_nearest num d = min (e * 2 ^ 52 + round_half_even num (d * 2 ^ e)) F64_INF"
proof -
  have d: "0 < d" using assms(2) by (cases d) simp_all
  have "2 ^ (52 + e) * d \<le> num" "num < 2 ^ Suc (52 + e) * d"
    using assms by (simp_all add: power_add ac_simps)
  then have "bit_len (num div d) = Suc (52 + e)"
    using d by (intro bit_len_eqI) (simp_all only: less_eq_div_iff_mult_less_eq div_less_iff_less_mult)
  then show ?thesis by (simp add: f64_nearest_def Let_def)
qed

text \<open>How a normal number is evaluated: \<open>j\<close> is the shift that leaves 53 significant bits.\<close>

lemma f64_nearest_normal:
  assumes "2 ^ 52 * d \<le> n * 2 ^ j" and "n * 2 ^ j < 2 ^ 53 * d" and "j \<le> 1074"
  shows "f64_nearest (n * F64_ONE) d = min ((1074 - j) * 2 ^ 52 + round_half_even (n * 2 ^ j) d) F64_INF"
proof -
  define i where "i = 1074 - j"
  have one: "n * F64_ONE = n * 2 ^ j * 2 ^ i" using assms(3) by (simp add: F64_ONE_def i_def flip: power_add)
  have "2 ^ 52 * d * 2 ^ i \<le> n * 2 ^ j * 2 ^ i" "n * 2 ^ j * 2 ^ i < 2 ^ 53 * d * 2 ^ i"
    using assms(1,2) by (simp_all only: mult_le_mono1 mult_less_cancel2) simp_all
  then have "f64_nearest (n * F64_ONE) d = min (i * 2 ^ 52 + round_half_even (n * 2 ^ j * 2 ^ i) (d * 2 ^ i)) F64_INF"
    unfolding one by (intro f64_nearest_at) (simp_all only: mult.assoc)
  then show ?thesis using round_half_even_scale [of "2 ^ i" "n * 2 ^ j" d] by (simp add: i_def)
qed

lemma f64_zero_parts: "f64_magnitude 0 = 0" "\<not> f64_sign 0"
  by (simp_all add: f64_magnitude_def f64_sign_def)

lemma f64_zero_add: "f64_add 0 0 = 0"
  by (simp add: f64_add_def f64_is_nan_def f64_exponent_def f64_is_infinite_def f64_zero_parts F64_INF_def f64_units_def
      units_of_def f64_make_def)

lemma small_nat_mul:
  assumes "small_nat m" and "small_nat n"
  shows "f64_mul (f64_of_nat m) (f64_of_nat n) = f64_of_nat (m * n)"
proof -
  have "f64_nearest (m * F64_ONE * (n * F64_ONE)) F64_ONE = f64_nearest (m * n * F64_ONE) 1"
    using f64_nearest_scale [OF F64_ONE_pos, of "m * n * F64_ONE" 1] by (simp add: ac_simps)
  with assms show ?thesis
    by (simp add: f64_mul_def small_nat_exact f64_of_nat_def [of "m * n"] f64_round_def Let_def)
qed

lemma small_nat_add:
  assumes "small_nat m" and "small_nat n"
  shows "f64_add (f64_of_nat m) (f64_of_nat n) = f64_of_nat (m + n)"
proof (cases "m + n = 0")
  case True
  then have "m = 0" "n = 0" by simp_all
  then show ?thesis by (simp add: f64_of_nat_0 f64_zero_add)
next
  case False
  define k where "k = (m + n) * F64_ONE"
  have "f64_units (f64_of_nat m) + f64_units (f64_of_nat n) = int k"
    using assms by (simp add: small_nat_key k_def algebra_simps)
  moreover have "0 < k" using False by (simp add: k_def)
  moreover have "f64_of_nat (m + n) = f64_round False k 1" by (simp only: f64_of_nat_def k_def)
  ultimately show ?thesis using assms by (simp add: f64_add_def)
qed

lemma small_nat_to_u64: "small_nat n \<Longrightarrow> unat (f64_to_u64 (f64_of_nat n)) = n"
proof -
  assume n: "small_nat n"
  then have "n < 2 ^ 64 - 1" by (simp add: small_nat_def)
  with n show ?thesis by (simp add: f64_to_u64_def small_nat_exact)
qed

section \<open>Dyadic values\<close>

text \<open>A finite number at or above zero whose value is \<open>n / 2 ^ j\<close>; the rules compute with such numbers.\<close>

definition dyadic :: "f64 \<Rightarrow> nat \<Rightarrow> nat \<Rightarrow> bool" where
  "dyadic x n j \<longleftrightarrow> \<not> f64_sign x \<and> f64_magnitude x < F64_INF \<and> f64_abs_units x * 2 ^ j = n * F64_ONE"

lemma dyadic_of_nat: "small_nat n \<Longrightarrow> dyadic (f64_of_nat n) n 0"
  by (simp add: dyadic_def small_nat_exact)

lemma dyadic_of_shifted: "small_nat n \<Longrightarrow> k \<le> 900 \<Longrightarrow> dyadic (f64_of_nat (n * 2 ^ k)) (n * 2 ^ k) 0"
  using shifted_nat_exact [of n k] by (simp add: dyadic_def f64_of_nat_def)

lemma dyadic_parts:
  assumes "dyadic x n j"
  shows "\<not> f64_is_nan x" "\<not> f64_is_infinite x" "\<not> f64_sign x"
  using assms not_nan_le [of x] by (simp_all add: dyadic_def f64_is_infinite_def)

lemma dyadic_round:
  assumes "2 ^ 52 * d \<le> n * 2 ^ j" and "n * 2 ^ j < 2 ^ 53 * d" and "0 < j" and "j \<le> 1074"
    and q: "round_half_even (n * 2 ^ j) d = q" "2 ^ 52 \<le> q" "q < 2 ^ 53"
  shows "dyadic (f64_round False (n * F64_ONE) d) q j"
proof -
  define i where "i = 1074 - j"
  define m where "m = i * 2 ^ 52 + q"
  have "i < 1074" using assms(3,4) by (simp add: i_def)
  then have small: "m < F64_INF" using q by (simp add: m_def F64_INF_def)
  have near: "f64_nearest (n * F64_ONE) d = m"
    using f64_nearest_normal [OF assms(1,2,4)] small q by (simp add: m_def i_def)
  have "q div 2 ^ 52 = 1" "q mod 2 ^ 52 = q - 2 ^ 52" using q by (simp_all add: div_eq_1 mod_minus)
  then have "m div 2 ^ 52 = Suc i" "m mod 2 ^ 52 = q - 2 ^ 52" by (simp_all add: m_def)
  then have "units_of m = q * 2 ^ i" using q unfolding units_of_def by simp
  moreover have "F64_ONE = 2 ^ i * 2 ^ j" using assms(4) by (simp add: F64_ONE_def i_def flip: power_add)
  ultimately show ?thesis using near small by (simp add: dyadic_def f64_abs_units_def ac_simps)
qed

lemma dyadic_mul:
  assumes "dyadic a n i" and "dyadic b m j"
  shows "f64_mul a b = f64_round False (n * m * F64_ONE) (2 ^ (i + j))"
proof -
  define u v where "u = f64_abs_units a" and "v = f64_abs_units b"
  have uv: "u * 2 ^ i = n * F64_ONE" "v * 2 ^ j = m * F64_ONE" using assms by (simp_all add: dyadic_def u_def v_def)
  have "f64_nearest (u * v) F64_ONE = f64_nearest (u * v * 2 ^ (i + j)) (F64_ONE * 2 ^ (i + j))"
    by (rule f64_nearest_scale [symmetric]) simp
  also have "u * v * 2 ^ (i + j) = (u * 2 ^ i) * (v * 2 ^ j)" by (simp add: power_add)
  also have "\<dots> = n * m * F64_ONE * F64_ONE" by (simp add: uv)
  also have "f64_nearest (n * m * F64_ONE * F64_ONE) (F64_ONE * 2 ^ (i + j))
      = f64_nearest (n * m * F64_ONE) (2 ^ (i + j))"
    using f64_nearest_scale [OF F64_ONE_pos, of "n * m * F64_ONE" "2 ^ (i + j)"] by (simp add: ac_simps)
  finally show ?thesis
    using dyadic_parts [OF assms(1)] dyadic_parts [OF assms(2)]
    by (simp add: f64_mul_def f64_round_def u_def v_def)
qed

lemma dyadic_div:
  assumes "dyadic a n i" and "dyadic b m j" and "0 < m"
  shows "f64_div a b = f64_round False (n * 2 ^ j * F64_ONE) (m * 2 ^ i)"
proof -
  define u v where "u = f64_abs_units a" and "v = f64_abs_units b"
  have uv: "u * 2 ^ i = n * F64_ONE" "v * 2 ^ j = m * F64_ONE" using assms by (simp_all add: dyadic_def u_def v_def)
  have v: "f64_magnitude b \<noteq> 0"
  proof
    assume "f64_magnitude b = 0"
    then have "units_of (f64_magnitude b) = 0" by (simp only: units_of_0)
    with uv(2) assms(3) F64_ONE_pos show False by (simp add: v_def f64_abs_units_def)
  qed
  have "f64_nearest (u * F64_ONE) v = f64_nearest (u * F64_ONE * 2 ^ (i + j)) (v * 2 ^ (i + j))"
    by (rule f64_nearest_scale [symmetric]) simp
  also have "u * F64_ONE * 2 ^ (i + j) = (u * 2 ^ i) * 2 ^ j * F64_ONE" by (simp add: power_add)
  also have "\<dots> = n * 2 ^ j * F64_ONE * F64_ONE" by (simp add: uv)
  also have "v * 2 ^ (i + j) = m * 2 ^ i * F64_ONE" by (simp add: power_add uv(2) [symmetric])
  also have "f64_nearest (n * 2 ^ j * F64_ONE * F64_ONE) (m * 2 ^ i * F64_ONE) = f64_nearest (n * 2 ^ j * F64_ONE) (m * 2 ^ i)"
    by (rule f64_nearest_scale) simp
  finally show ?thesis
    using dyadic_parts [OF assms(1)] dyadic_parts [OF assms(2)] v
    by (simp add: f64_div_def f64_round_def u_def v_def)
qed

lemma dyadic_whole:
  assumes "dyadic x n j"
  shows "f64_abs_units x div F64_ONE = n div 2 ^ j"
proof -
  have "f64_abs_units x div F64_ONE = f64_abs_units x * 2 ^ j div (F64_ONE * 2 ^ j)" by simp
  also have "\<dots> = n * F64_ONE div (F64_ONE * 2 ^ j)" using assms by (simp add: dyadic_def)
  also have "\<dots> = n div 2 ^ j" using div_mult_mult1 [of F64_ONE n "2 ^ j"] by (simp add: ac_simps)
  finally show ?thesis .
qed

lemma dyadic_to_u64:
  assumes "dyadic x n j"
  shows "f64_to_u64 x = of_nat (min (n div 2 ^ j) (2 ^ 64 - 1))"
  using dyadic_parts [OF assms] dyadic_whole [OF assms] by (simp add: f64_to_u64_def)

lemma dyadic_lt:
  assumes "dyadic a n i" and "dyadic b m j"
  shows "f64_lt a b \<longleftrightarrow> n * 2 ^ j < m * 2 ^ i"
proof -
  define u v where "u = f64_abs_units a" and "v = f64_abs_units b"
  have uv: "u * 2 ^ i = n * F64_ONE" "v * 2 ^ j = m * F64_ONE" using assms by (simp_all add: dyadic_def u_def v_def)
  have "f64_lt a b \<longleftrightarrow> u < v"
    using dyadic_parts [OF assms(1)] dyadic_parts [OF assms(2)]
    by (simp add: f64_lt_value f64_units_def u_def v_def f64_abs_units_def)
  also have "\<dots> \<longleftrightarrow> u * 2 ^ i * 2 ^ j < v * 2 ^ j * 2 ^ i" by simp
  also have "\<dots> \<longleftrightarrow> n * 2 ^ j * F64_ONE < m * 2 ^ i * F64_ONE" by (simp only: uv) (simp add: ac_simps)
  also have "\<dots> \<longleftrightarrow> n * 2 ^ j < m * 2 ^ i" by simp
  finally show ?thesis .
qed

lemma dyadic_round_away:
  assumes "dyadic x n j"
  shows "f64_round_away x = f64_of_nat ((2 * n + 2 ^ j) div (2 * 2 ^ j))"
proof -
  define u where "u = f64_abs_units x"
  have u: "u * 2 ^ j = n * F64_ONE" using assms by (simp add: dyadic_def u_def)
  have "(2 * u + F64_ONE) div (2 * F64_ONE) = (2 * u + F64_ONE) * 2 ^ j div (2 * F64_ONE * 2 ^ j)"
    by (rule div_mult_mult2 [symmetric]) simp
  also have "(2 * u + F64_ONE) * 2 ^ j = F64_ONE * (2 * n + 2 ^ j)" by (simp add: u algebra_simps)
  also have "F64_ONE * (2 * n + 2 ^ j) div (2 * F64_ONE * 2 ^ j) = (2 * n + 2 ^ j) div (2 * 2 ^ j)"
    using div_mult_mult1 [of F64_ONE "2 * n + 2 ^ j" "2 * 2 ^ j"] by (simp add: ac_simps)
  finally show ?thesis
    using dyadic_parts [OF assms] by (simp add: f64_round_away_def f64_whole_def f64_of_nat_def u_def)
qed

lemma dyadic_0: "dyadic 0 0 0"
  using dyadic_of_nat [of 0] by (simp add: f64_of_nat_0 small_nat_def)

lemma f64_le_iff: "\<not> f64_is_nan a \<Longrightarrow> \<not> f64_is_nan b \<Longrightarrow> f64_le a b \<longleftrightarrow> \<not> f64_lt b a"
  by (auto simp: f64_le_def f64_lt_def)

lemma f64_eq_iff: "f64_eq a b \<longleftrightarrow> f64_le a b \<and> f64_le b a"
  by (auto simp: f64_eq_def f64_le_def)

lemma dyadic_le:
  assumes "dyadic a n i" and "dyadic b m j"
  shows "f64_le a b \<longleftrightarrow> n * 2 ^ j \<le> m * 2 ^ i"
  using dyadic_parts(1) [OF assms(1)] dyadic_parts(1) [OF assms(2)] dyadic_lt [OF assms(2,1)]
  by (auto simp: f64_le_iff not_less)

text \<open>\<open>u64::MAX as f64\<close> is two to the 64.\<close>

lemma dyadic_u64_max: "dyadic (f64_of_nat (2 ^ 64 - 1)) (2 ^ 64) 0"
proof -
  have one: "F64_ONE * 2 ^ 11 = 2 ^ 1085" by (simp only: F64_ONE_def flip: power_add) simp
  have "2 ^ 52 * (1 * 2 ^ 1085) \<le> (2 ^ 64 - 1) * F64_ONE"
  proof -
    have "2 ^ 52 * (1 * 2 ^ 1085) = 2 ^ 63 * F64_ONE" unfolding one [symmetric] by simp
    also have "\<dots> \<le> (2 ^ 64 - 1) * F64_ONE" by (rule mult_le_mono1) simp
    finally show ?thesis .
  qed
  moreover have "(2 ^ 64 - 1) * F64_ONE < 2 ^ 53 * (1 * 2 ^ 1085)"
  proof -
    have "(2 ^ 64 - 1) * F64_ONE < 2 ^ 64 * F64_ONE" by simp
    also have "\<dots> = 2 ^ 53 * (1 * 2 ^ 1085)" unfolding one [symmetric] by simp
    finally show ?thesis .
  qed
  ultimately have near: "f64_nearest ((2 ^ 64 - 1) * F64_ONE) 1
      = min (1085 * 2 ^ 52 + round_half_even ((2 ^ 64 - 1) * F64_ONE) (1 * 2 ^ 1085)) F64_INF"
    by (rule f64_nearest_at)
  have "round_half_even ((2 ^ 64 - 1) * F64_ONE) (1 * 2 ^ 1085) = round_half_even ((2 ^ 64 - 1) * F64_ONE) (2 ^ 11 * F64_ONE)"
    by (simp only: one [symmetric] mult.commute mult_1)
  also have "\<dots> = round_half_even (2 ^ 64 - 1) (2 ^ 11)"
    by (rule round_half_even_scale) simp
  also have "\<dots> = 2 ^ 53" by (simp add: round_half_even_def)
  finally have "f64_nearest ((2 ^ 64 - 1) * F64_ONE) 1 = 1087 * 2 ^ 52"
    unfolding near by (simp only:) (simp add: F64_INF_def)
  moreover have "units_of (1087 * 2 ^ 52) = 2 ^ 64 * F64_ONE"
  proof -
    have "units_of (1087 * 2 ^ 52) = 2 ^ 52 * 2 ^ (1075 + 11)" by (simp add: units_of_def)
    also have "\<dots> = 2 ^ (52 + 12 + 1074)" by (simp only: flip: power_add) simp
    also have "\<dots> = 2 ^ 64 * F64_ONE" by (simp only: power_add F64_ONE_def) simp
    finally show ?thesis .
  qed
  ultimately show ?thesis by (simp add: dyadic_def f64_of_nat_def f64_abs_units_def F64_INF_def)
qed

lemma f64_neg_parts:
  "f64_sign (f64_neg x) \<longleftrightarrow> \<not> f64_sign x" "f64_magnitude (f64_neg x) = f64_magnitude x"
  "f64_is_nan (f64_neg x) = f64_is_nan x" "f64_is_infinite (f64_neg x) = f64_is_infinite x"
  "f64_units (f64_neg x) = - f64_units x"
proof -
  show s: "f64_sign (f64_neg x) \<longleftrightarrow> \<not> f64_sign x" by (simp add: f64_sign_def f64_neg_def bit_flip_bit_iff)
  have "take_bit 63 (flip_bit 63 x) = take_bit 63 x"
    by (rule bit_eqI) (auto simp: bit_take_bit_iff bit_flip_bit_iff)
  then show m: "f64_magnitude (f64_neg x) = f64_magnitude x" by (simp add: f64_magnitude_def f64_neg_def)
  show "f64_is_nan (f64_neg x) = f64_is_nan x" "f64_is_infinite (f64_neg x) = f64_is_infinite x"
    "f64_units (f64_neg x) = - f64_units x"
    using s m by (simp_all add: f64_is_nan_def f64_exponent_def f64_fraction_def f64_is_infinite_def f64_units_def)
qed

lemma small_nat_magnitude: "small_nat k \<Longrightarrow> 0 < k \<Longrightarrow> f64_magnitude (f64_of_nat k) \<noteq> 0"
proof
  assume k: "small_nat k" "0 < k" and "f64_magnitude (f64_of_nat k) = 0"
  then have "f64_abs_units (f64_of_nat k) = 0" by (simp add: f64_abs_units_def units_of_def)
  with small_nat_exact(1) [OF k(1)] k(2) F64_ONE_pos show False by simp
qed

section \<open>Rounding is monotone\<close>

lemma round_half_even_between:
  assumes "0 < den"
  shows "num div den \<le> round_half_even num den" and "round_half_even num den \<le> num div den + 1"
  by (auto simp: round_half_even_def Let_def)

lemma round_half_even_mono:
  assumes "0 < den" and "m \<le> n"
  shows "round_half_even m den \<le> round_half_even n den"
proof (cases "m div den = n div den")
  case True
  then have "m mod den \<le> n mod den" using assms(2) by (metis div_mult_mod_eq nat_add_left_cancel_le)
  then show ?thesis using True by (auto simp: round_half_even_def Let_def)
next
  case False
  then have "m div den + 1 \<le> n div den" using div_le_mono [OF assms(2), of den] by linarith
  then show ?thesis
    using round_half_even_between [OF assms(1), of m] round_half_even_between [OF assms(1), of n] by linarith
qed

lemma bit_len_mono: "m \<le> n \<Longrightarrow> bit_len m \<le> bit_len n"
  using bit_len_le_iff [of m "bit_len n"] bit_len_le_iff [of n "bit_len n"] by simp

lemma significand_upper:
  assumes "0 < den" and "bit_len (num div den) - 53 \<le> e"
  shows "round_half_even num (den * 2 ^ e) \<le> 2 ^ 53"
proof -
  have "num div den < 2 ^ (53 + e)" 
    unfolding bit_len_le_iff [symmetric] using assms(2) by linarith
  then have "num div (den * 2 ^ e) < 2 ^ 53"
    by (simp add: div_mult2_eq less_mult_imp_div_less power_add mult.commute)
  then show ?thesis using round_half_even_between(2) [of "den * 2 ^ e" num] assms(1) by (simp del: power_numeral)
qed

lemma significand_lower:
  assumes "0 < den" and "e = bit_len (num div den) - 53" and "0 < e"
  shows "2 ^ 52 \<le> round_half_even num (den * 2 ^ e)"
proof -
  have "2 ^ (52 + e) \<le> num div den" using assms(2,3) less_bit_len_iff [of "52 + e" "num div den"] by simp
  then have "2 ^ 52 * 2 ^ e \<le> num div den" by (simp add: power_add del: power_numeral)
  then have "2 ^ 52 \<le> num div (den * 2 ^ e)"
    by (simp add: div_mult2_eq less_eq_div_iff_mult_less_eq del: power_numeral)
  then show ?thesis using round_half_even_between(1) [of "den * 2 ^ e" num] assms(1) by (simp del: power_numeral)
qed

lemma f64_nearest_mono:
  assumes "0 < den" and "m \<le> n"
  shows "f64_nearest m den \<le> f64_nearest n den"
proof -
  let ?e = "bit_len (m div den) - 53" and ?f = "bit_len (n div den) - 53"
  have ef: "?e \<le> ?f" using bit_len_mono [OF div_le_mono [OF assms(2), of den]] by simp
  have "?e * 2 ^ 52 + round_half_even m (den * 2 ^ ?e) \<le> ?f * 2 ^ 52 + round_half_even n (den * 2 ^ ?f)"
  proof (cases "?e = ?f")
    case True
    then show ?thesis using round_half_even_mono [of "den * 2 ^ ?f" m n] assms by (simp del: power_numeral)
  next
    case False
    then have lt: "?e + 1 \<le> ?f" using ef by simp
    have "?e * 2 ^ 52 + round_half_even m (den * 2 ^ ?e) \<le> (?e + 1) * 2 ^ 52 + 2 ^ 52"
      using significand_upper [OF assms(1) order_refl, of m] by simp
    also have "\<dots> \<le> ?f * 2 ^ 52 + 2 ^ 52" using mult_le_mono1 [OF lt, of "2 ^ 52"] by simp
    also have "\<dots> \<le> ?f * 2 ^ 52 + round_half_even n (den * 2 ^ ?f)"
      using significand_lower [OF assms(1) refl, of n] lt by (simp del: power_numeral)
    finally show ?thesis .
  qed
  then show ?thesis unfolding f64_nearest_def Let_def by (rule min.mono [OF _ order_refl])
qed

lemma units_of_mono: "m \<le> n \<Longrightarrow> units_of m \<le> units_of n"
  by (simp add: not_less [symmetric])

lemma f64_round_key: "f64_key (f64_round False num den) = int (f64_nearest num den)"
  by (simp add: f64_key_def)

lemma f64_of_nat_mono: "m \<le> n \<Longrightarrow> f64_magnitude (f64_of_nat m) \<le> f64_magnitude (f64_of_nat n)"
  by (simp add: f64_of_nat_def f64_nearest_mono)

text \<open>A product with a number that is not negative grows with the whole number it is taken of.\<close>

lemma f64_mul_of_nat_mono:
  assumes "\<not> f64_sign s" and "f64_is_finite s" and "n < 2 ^ 64" and "m \<le> n"
  shows "f64_le (f64_mul (f64_of_nat m) s) (f64_mul (f64_of_nat n) s)"
proof -
  have top: "f64_magnitude (f64_of_nat k) < F64_INF" if "k \<le> n" for k
    using f64_of_nat_mono [of k "2 ^ 64 - 1"] that assms(3) dyadic_u64_max by (simp add: dyadic_def)
  have fin: "\<not> f64_is_nan s" "\<not> f64_is_infinite s"
    using assms(2) by (auto simp: f64_is_finite_def f64_is_nan_def f64_is_infinite_def f64_exponent_def F64_INF_def)
  have mul: "f64_mul (f64_of_nat k) s = f64_round False (f64_abs_units (f64_of_nat k) * f64_abs_units s) F64_ONE"
    if "k \<le> n" for k
    using top [OF that] fin assms(1) by (simp add: f64_mul_def Let_def not_nan_le f64_is_infinite_def f64_of_nat_def)
  have "f64_abs_units (f64_of_nat m) * f64_abs_units s \<le> f64_abs_units (f64_of_nat n) * f64_abs_units s"
    using f64_of_nat_mono [OF assms(4)] by (simp add: f64_abs_units_def units_of_mono)
  then show ?thesis
    using mul [of m] mul [of n] assms(4) by (simp add: f64_le_def f64_round_key f64_nearest_mono)
qed

end
