(* ===== verification/Float64_Text.thy ===== *)
theory Float64_Text
  imports Float64_Arith Text
begin

text \<open>
  Decimal text of \<open>f64\<close>: \<open>f64::from_str\<close> rounds the decimal correctly, and \<open>Display\<close> writes the shortest decimal that
  reads back, without an exponent. Every number that is not NaN is read back from its text.
\<close>

section \<open>Decimals\<close>

text \<open>The decimal \<open>c\<close> times ten to the \<open>p\<close>, rounded.\<close>

definition f64_of_dec :: "bool \<Rightarrow> nat \<Rightarrow> int \<Rightarrow> f64" where
  "f64_of_dec neg c p = f64_round neg (c * 10 ^ nat p * F64_ONE) (10 ^ nat (- p))"

definition to_ascii_lowercase :: "char \<Rightarrow> char" where
  "to_ascii_lowercase c = (if 65 \<le> code c \<and> code c \<le> 90 then char_of (code c + 32) else c)"

definition split_digits :: "string \<Rightarrow> string \<times> string" where
  "split_digits s = (takeWhile is_ascii_digit s, dropWhile is_ascii_digit s)"

definition split_sign :: "string \<Rightarrow> bool \<times> string" where
  "split_sign s =
     (case s of
        c # cs \<Rightarrow> if c = CHR ''-'' then (True, cs) else if c = CHR ''+'' then (False, cs) else (False, s)
      | [] \<Rightarrow> (False, s))"

definition parse_exponent :: "string \<Rightarrow> int option" where
  "parse_exponent s =
     (case split_sign s of
        (neg, d) \<Rightarrow>
          if d \<noteq> [] \<and> list_all is_ascii_digit d
          then Some (if neg then - int (read_digits d) else int (read_digits d)) else None)"

definition parse_decimal :: "string \<Rightarrow> (nat \<times> int) option" where
  "parse_decimal s =
     (case split_digits s of
        (whole, rest) \<Rightarrow>
          case (case rest of
                  c # cs \<Rightarrow> if c = CHR ''.'' then split_digits cs else ([], rest)
                | [] \<Rightarrow> ([], rest)) of
            (frac, rest) \<Rightarrow>
              if whole = [] \<and> frac = [] then None
              else
                case rest of
                  [] \<Rightarrow> Some (read_digits (whole @ frac), - int (length frac))
                | c # cs \<Rightarrow>
                    if to_ascii_lowercase c = CHR ''e''
                    then map_option (\<lambda>x. (read_digits (whole @ frac), x - int (length frac))) (parse_exponent cs)
                    else None)"

definition f64_from_str :: "string \<Rightarrow> f64 option" where
  "f64_from_str s =
     (case split_sign s of
        (neg, body) \<Rightarrow>
          case parse_decimal body of
            Some (c, p) \<Rightarrow> Some (f64_of_dec neg c p)
          | None \<Rightarrow>
              let w = map to_ascii_lowercase body
              in if w = ''inf'' \<or> w = ''infinity'' then Some (f64_inf neg)
                 else if w = ''nan'' then Some f64_nan else None)"

section \<open>The shortest decimal\<close>

text \<open>How many zeros follow the point of a ratio below one.\<close>

function leading_zeros :: "nat \<Rightarrow> nat \<Rightarrow> nat" where
  "leading_zeros n d = (if n = 0 \<or> d \<le> 10 * n then 0 else Suc (leading_zeros (10 * n) d))"
  by pat_completeness auto
termination
  by (relation "measure (\<lambda>(n, d). d - n)") auto

declare leading_zeros.simps [simp del]

text \<open>The position of the point before the first digit of \<open>u\<close> units.\<close>

definition dec_exponent :: "nat \<Rightarrow> int" where
  "dec_exponent u =
     (if F64_ONE \<le> u then int (length (show_nat (u div F64_ONE))) else - int (leading_zeros u F64_ONE))"

text \<open>
  The decimals of a given last position around \<open>u\<close> units: the nearer one that rounds to the same number is taken, the
  upper one when they are equally near.
\<close>

definition dec_candidate :: "nat \<Rightarrow> int \<Rightarrow> nat option" where
  "dec_candidate u p =
     (let num = u * 10 ^ nat (- p); den = 10 ^ nat p * F64_ONE;
          lo = num div den; r = num mod den;
          reads = (\<lambda>c. f64_nearest (c * 10 ^ nat p * F64_ONE) (10 ^ nat (- p)) = f64_nearest u 1)
      in if reads lo \<and> (2 * r < den \<or> \<not> reads (lo + 1)) then Some lo
         else if reads (lo + 1) then Some (lo + 1) else None)"

fun dec_search :: "nat \<Rightarrow> int \<Rightarrow> nat \<Rightarrow> (nat \<times> int) option" where
  "dec_search u p 0 = None"
| "dec_search u p (Suc n) =
     (case dec_candidate u p of Some c \<Rightarrow> Some (c, p) | None \<Rightarrow> dec_search u (p - 1) n)"

text \<open>Seventeen digits are enough; the exact expansion stands for the case that they are not.\<close>

definition dec_shortest :: "nat \<Rightarrow> nat \<times> int" where
  "dec_shortest u =
     (case dec_search u (dec_exponent u - 1) 17 of Some d \<Rightarrow> d | None \<Rightarrow> (u * 5 ^ 1074, -1074))"

function strip_zeros :: "nat \<times> int \<Rightarrow> nat \<times> int" where
  "strip_zeros (c, p) = (if 0 < c \<and> c mod 10 = 0 then strip_zeros (c div 10, p + 1) else (c, p))"
  by pat_completeness auto
termination
  by (relation "measure (\<lambda>(c, p). c)") auto

declare strip_zeros.simps [simp del]

definition show_decimal :: "nat \<times> int \<Rightarrow> string" where
  "show_decimal d =
     (case d of
        (c, p) \<Rightarrow>
          let ds = show_nat c; k = nat (- p)
          in if 0 \<le> p then ds @ replicate (nat p) (CHR ''0'')
             else if k < length ds then take (length ds - k) ds @ ''.'' @ drop (length ds - k) ds
             else ''0.'' @ replicate (k - length ds) (CHR ''0'') @ ds)"

definition f64_display :: "f64 \<Rightarrow> string" where
  "f64_display x =
     (if f64_is_nan x then ''NaN''
      else
        (if f64_sign x then ''-'' else '''')
        @ (if f64_is_infinite x then ''inf''
           else if f64_abs_units x = 0 then ''0''
           else show_decimal (strip_zeros (dec_shortest (f64_abs_units x)))))"

section \<open>Reading what was written\<close>

lemma f64_of_dec_shift: "f64_of_dec neg (c * 10) p = f64_of_dec neg c (p + 1)"
proof (cases "0 \<le> p")
  case True
  then show ?thesis by (simp add: f64_of_dec_def nat_add_distrib ac_simps)
next
  case False
  define k where "k = nat (- 1 - p)"
  have "nat (- p) = Suc k" using False by (simp add: k_def)
  moreover have "f64_nearest (c * F64_ONE * 10) (10 ^ k * 10) = f64_nearest (c * F64_ONE) (10 ^ k)"
    by (rule f64_nearest_scale) simp
  ultimately show ?thesis
    using False by (simp add: f64_of_dec_def f64_round_def ac_simps flip: k_def)
qed

lemma f64_of_dec_shifts: "f64_of_dec neg (c * 10 ^ n) p = f64_of_dec neg c (p + int n)"
proof (induction n arbitrary: p)
  case (Suc n)
  then show ?case
    using f64_of_dec_shift [of neg "c * 10 ^ n" p] by (simp add: ac_simps)
qed simp

lemma strip_zeros_value: "strip_zeros (c, p) = (c', p') \<Longrightarrow> f64_of_dec neg c' p' = f64_of_dec neg c p"
proof (induction "(c, p)" arbitrary: c p rule: strip_zeros.induct)
  case (1 c p)
  show ?case
  proof (cases "0 < c \<and> c mod 10 = 0")
    case True
    then have "c = c div 10 * 10" by auto
    moreover from True 1 have "f64_of_dec neg c' p' = f64_of_dec neg (c div 10) (p + 1)"
      by (subst (asm) (2) strip_zeros.simps) simp
    ultimately show ?thesis using f64_of_dec_shift [of neg "c div 10" p] by simp
  next
    case False
    with "1.prems" show ?thesis by (subst (asm) strip_zeros.simps) auto
  qed
qed

lemma strip_zeros_pos: "strip_zeros (c, p) = (c', p') \<Longrightarrow> 0 < c \<Longrightarrow> 0 < c'"
proof (induction "(c, p)" arbitrary: c p rule: strip_zeros.induct)
  case (1 c p)
  show ?case
  proof (cases "c mod 10 = 0")
    case True
    then have "0 < c div 10" using "1.prems"(2) by (auto simp: div_greater_zero_iff)
    with True 1 show ?thesis by (subst (asm) (2) strip_zeros.simps) simp
  next
    case False
    with "1.prems" show ?thesis by (subst (asm) strip_zeros.simps) auto
  qed
qed

lemma dec_candidate_value:
  "dec_candidate u p = Some c \<Longrightarrow> f64_of_dec neg c p = f64_round neg u 1"
  by (auto simp: dec_candidate_def f64_of_dec_def f64_round_def Let_def split: if_splits)

lemma dec_search_value: "dec_search u p n = Some (c, q) \<Longrightarrow> f64_of_dec neg c q = f64_round neg u 1"
  by (induction n arbitrary: p) (auto simp: dec_candidate_value split: option.splits)

lemma exact_expansion:
  assumes "F64_ONE = 2 ^ k"
  shows "f64_of_dec neg (u * 5 ^ k) (- int k) = f64_round neg u 1"
proof -
  have "(5 :: nat) ^ k * 2 ^ k = 10 ^ k" by (simp flip: power_mult_distrib)
  then have "u * 5 ^ k * F64_ONE = u * 10 ^ k" unfolding assms by (simp add: mult.assoc)
  then have "f64_of_dec neg (u * 5 ^ k) (- int k) = f64_round neg (u * 10 ^ k) (1 * 10 ^ k)"
    by (cases "u = 0") (simp_all add: f64_of_dec_def mult.assoc)
  then show ?thesis unfolding f64_round_def by (simp only: f64_nearest_scale zero_less_power zero_less_numeral)
qed

lemma dec_shortest_value: "dec_shortest u = (c, p) \<Longrightarrow> f64_of_dec neg c p = f64_round neg u 1"
  using exact_expansion [OF F64_ONE_def, of neg u]
  by (auto simp only: dec_shortest_def of_nat_numeral dec_search_value prod.inject split: option.splits)

section \<open>Text\<close>

lemma takeWhile_digits:
  assumes "list_all is_ascii_digit d" and "r = [] \<or> \<not> is_ascii_digit (hd r)"
  shows "split_digits (d @ r) = (d, r)"
  using assms by (induction d) (auto simp: split_digits_def takeWhile_eq_Nil_iff dropWhile_eq_self_iff)

lemma read_digits_append: "read_digits (s @ t) = read_digits s * 10 ^ length t + read_digits t"
  by (induction t rule: rev_induct) (simp_all add: read_digits_def algebra_simps)

lemma read_digits_zeros [simp]: "read_digits (replicate n (CHR ''0'')) = 0"
  by (induction n) (simp_all add: read_digits_def digit_val_def)

lemma show_nat_all_digits [simp]: "list_all is_ascii_digit (show_nat n)"
  using show_nat_digits by (simp add: list_all_iff)

lemma zeros_digits [simp]: "list_all is_ascii_digit (replicate n (CHR ''0''))"
  by (simp add: list_all_iff is_ascii_digit_def)

lemma dot_not_digit [simp]: "\<not> is_ascii_digit (CHR ''.'')"
  by (simp add: is_ascii_digit_def)

lemma parse_decimal_whole:
  assumes "list_all is_ascii_digit d" and "d \<noteq> []"
  shows "parse_decimal d = Some (read_digits d, 0)"
  using takeWhile_digits [OF assms(1), of "[]"] assms(2) by (simp add: parse_decimal_def)

lemma parse_decimal_frac:
  assumes "list_all is_ascii_digit d" and "list_all is_ascii_digit f" and "d \<noteq> []"
  shows "parse_decimal (d @ ''.'' @ f) = Some (read_digits (d @ f), - int (length f))"
  using takeWhile_digits [OF assms(1), of "''.'' @ f"] takeWhile_digits [OF assms(2), of "[]"] assms(3)
  by (simp add: parse_decimal_def)

lemma parse_show_decimal:
  "\<exists>c' p'. parse_decimal (show_decimal (c, p)) = Some (c', p') \<and> f64_of_dec neg c' p' = f64_of_dec neg c p"
proof (cases "0 \<le> p")
  case True
  then have "parse_decimal (show_decimal (c, p)) = Some (c * 10 ^ nat p, 0)"
    by (simp add: show_decimal_def parse_decimal_whole read_digits_append)
  then show ?thesis using True f64_of_dec_shifts [of neg c "nat p" 0] by simp
next
  case False
  define k ds where "k = nat (- p)" and "ds = show_nat c"
  have ds: "list_all is_ascii_digit (take i ds)" "list_all is_ascii_digit (drop i ds)" "read_digits ds = c" for i
    using show_nat_digits [of c] by (auto simp: ds_def list_all_iff dest: in_set_takeD in_set_dropD)
  have "parse_decimal (show_decimal (c, p)) = Some (c, - int k)"
  proof (cases "k < length ds")
    case True
    then have "parse_decimal (take (length ds - k) ds @ ''.'' @ drop (length ds - k) ds)
        = Some (read_digits (take (length ds - k) ds @ drop (length ds - k) ds), - int (length (drop (length ds - k) ds)))"
      using ds by (intro parse_decimal_frac) auto
    with True False ds show ?thesis by (simp add: show_decimal_def k_def ds_def Let_def)
  next
    case short: False
    define z where "z = replicate (k - length ds) (CHR ''0'') @ ds"
    have "parse_decimal (''0'' @ ''.'' @ z) = Some (read_digits (''0'' @ z), - int (length z))"
      by (intro parse_decimal_frac) (simp_all add: z_def ds_def is_ascii_digit_def)
    moreover have "read_digits (''0'' @ z) = c" "length z = k"
      using short ds(3) by (simp_all add: z_def read_digits_append del: append_Cons) (simp add: read_digits_def digit_val_def)
    ultimately show ?thesis using short False by (simp add: show_decimal_def k_def ds_def z_def Let_def)
  qed
  with False show ?thesis by (simp add: k_def)
qed

lemma show_decimal_head: "\<exists>c cs. show_decimal d = c # cs \<and> is_ascii_digit c"
proof -
  obtain n p where d: "d = (n, p)" by fastforce
  obtain c cs where ds: "show_nat n = c # cs" "is_ascii_digit c"
    using show_nat_all_digits [of n] by (cases "show_nat n") auto
  show ?thesis
    using ds by (auto simp: d show_decimal_def Let_def take_Cons' is_ascii_digit_def)
qed

lemma split_sign_digit: "is_ascii_digit c \<Longrightarrow> split_sign (c # cs) = (False, c # cs)"
  by (auto simp: split_sign_def is_ascii_digit_def)

lemma f64_make_self: "f64_make (f64_sign x) (f64_magnitude x) = x"
proof (rule bit_word_eqI)
  fix n assume n: "n < LENGTH(64)"
  then have "n < 64" by simp
  then show "bit (f64_make (f64_sign x) (f64_magnitude x)) n = bit x n"
    by (cases "n = 63") (auto simp: f64_make_def f64_sign_def f64_magnitude_def bit_set_bit_iff bit_take_bit_iff)
qed

lemma f64_add_0:
  assumes "f64_magnitude x < F64_INF" and "f64_units x \<noteq> 0"
  shows "f64_add 0 x = x" "f64_add x 0 = x"
proof -
  have nan: "\<not> f64_is_nan x" "\<not> f64_is_nan 0" using assms(1) not_nan_le [of x] not_nan_le [of 0]
    by (simp_all add: f64_zero_parts F64_INF_def)
  have fin: "\<not> f64_is_infinite x" "\<not> f64_is_infinite 0" using assms(1) by (simp_all add: f64_is_infinite_def f64_zero_parts F64_INF_def)
  have zero: "f64_units 0 = 0" by (simp add: f64_units_def f64_zero_parts units_of_def)
  have "0 < units_of (f64_magnitude x)"
    by (rule ccontr) (use assms(2) in \<open>simp add: f64_units_def split: if_splits\<close>)
  then have parts: "f64_units x < 0 \<longleftrightarrow> f64_sign x" "nat \<bar>f64_units x\<bar> = units_of (f64_magnitude x)"
    by (auto simp: f64_units_def)
  then have "f64_round (f64_units x < 0) (nat \<bar>f64_units x\<bar>) 1 = x"
    using f64_nearest_units [OF assms(1)] f64_make_self [of x] by (simp add: f64_round_def)
  then show "f64_add 0 x = x" "f64_add x 0 = x" using nan fin zero assms(2) by (simp_all add: f64_add_def)
qed

lemma negative_parts:
  assumes "small_nat n" and "0 < n"
  shows "f64_magnitude (f64_neg (f64_of_nat n)) < F64_INF" "f64_units (f64_neg (f64_of_nat n)) < 0"
    "\<not> f64_le 0 (f64_neg (f64_of_nat n))"
proof -
  note d = dyadic_of_nat [OF assms(1)]
  have u: "f64_units (f64_of_nat n) = int (n * F64_ONE)" using small_nat_exact [OF assms(1)] dyadic_parts(3) [OF d]
    by (simp add: f64_units_def f64_abs_units_def)
  show m: "f64_magnitude (f64_neg (f64_of_nat n)) < F64_INF" using d by (simp add: f64_neg_parts dyadic_def)
  show neg: "f64_units (f64_neg (f64_of_nat n)) < 0" using u assms(2) F64_ONE_pos by (simp add: f64_neg_parts)
  show "\<not> f64_le 0 (f64_neg (f64_of_nat n))"
    using neg f64_key_units [of "f64_neg (f64_of_nat n)" 0] by (simp add: f64_le_def f64_units_def [of 0] f64_zero_parts units_of_def)
qed

lemma f64_parse_display_finite:
  assumes "f64_magnitude x < F64_INF" and "f64_abs_units x \<noteq> 0"
  shows "f64_from_str (f64_display x) = Some x"
proof -
  define d where "d = strip_zeros (dec_shortest (f64_abs_units x))"
  obtain c p where sh: "dec_shortest (f64_abs_units x) = (c, p)" by fastforce
  obtain c' p' where d': "d = (c', p')" by fastforce
  have "f64_of_dec (f64_sign x) c' p' = f64_round (f64_sign x) (f64_abs_units x) 1"
    using strip_zeros_value [of c p c' p'] dec_shortest_value [OF sh] d' by (simp add: d_def sh)
  also have "\<dots> = x"
    using assms(1) by (simp add: f64_round_def f64_abs_units_def f64_nearest_units [unfolded One_nat_def] f64_make_self)
  finally have val: "f64_of_dec (f64_sign x) c' p' = x" .
  obtain a b where "parse_decimal (show_decimal (c', p')) = Some (a, b)" "f64_of_dec (f64_sign x) a b = x"
    using parse_show_decimal [of c' p' "f64_sign x"] val by auto
  moreover have "\<not> f64_is_nan x" "\<not> f64_is_infinite x"
    using assms(1) not_nan_le [of x] by (simp_all add: f64_is_infinite_def)
  moreover have "split_sign ((if f64_sign x then ''-'' else []) @ show_decimal d) = (f64_sign x, show_decimal d)"
    using show_decimal_head [of d] by (auto simp: split_sign_digit) (simp add: split_sign_def)
  ultimately show ?thesis
    using assms(2) by (simp add: f64_display_def f64_from_str_def d' flip: d_def)
qed

lemma not_nan_bound: "\<not> f64_is_nan x \<Longrightarrow> f64_magnitude x \<le> F64_INF"
proof (rule ccontr)
  assume "\<not> f64_is_nan x" and "\<not> f64_magnitude x \<le> F64_INF"
  then have gt: "2047 * 2 ^ 52 < f64_magnitude x" by (simp add: F64_INF_def)
  have "f64_magnitude x < 2 ^ 63" unfolding f64_magnitude_def unsigned_take_bit_eq by (rule take_bit_nat_less_exp)
  with gt have "f64_magnitude x div 2 ^ 52 = 2047" by (simp add: div_nat_eqI)
  moreover from this gt have "f64_magnitude x mod 2 ^ 52 \<noteq> 0"
    by (metis add.right_neutral div_mult_mod_eq less_irrefl)
  ultimately show False
    using \<open>\<not> f64_is_nan x\<close> by (simp add: f64_is_nan_def f64_exponent_def f64_fraction_def)
qed

lemma f64_parse_display: "\<not> f64_is_nan x \<Longrightarrow> f64_from_str (f64_display x) = Some x"
proof -
  assume n: "\<not> f64_is_nan x"
  consider (inf) "f64_is_infinite x" | (zero) "f64_abs_units x = 0" "\<not> f64_is_infinite x"
    | (finite) "f64_magnitude x < F64_INF" "f64_abs_units x \<noteq> 0"
    using n not_nan_bound [of x] by (fastforce simp: f64_is_infinite_def le_less)
  then show ?thesis
  proof cases
    case inf
    have "parse_decimal ''inf'' = None" by (simp add: parse_decimal_def split_digits_def is_ascii_digit_def code_def)
    moreover have "map to_ascii_lowercase ''inf'' = ''inf''" by (simp add: to_ascii_lowercase_def code_def)
    moreover have "f64_inf (f64_sign x) = x" using inf f64_make_self [of x] by (simp add: f64_inf_def f64_is_infinite_def)
    ultimately show ?thesis using n inf by (cases "f64_sign x") (simp_all add: f64_display_def f64_from_str_def split_sign_def)
  next
    case zero
    then have "f64_magnitude x = 0" by (simp add: f64_abs_units_def units_of_def split: if_splits)
    then have "f64_of_dec (f64_sign x) 0 0 = x"
      using f64_make_self [of x] by (simp add: f64_of_dec_def f64_round_def f64_nearest_def round_half_even_def)
    moreover have "parse_decimal ''0'' = Some (0, 0)"
      by (simp add: parse_decimal_whole is_ascii_digit_def read_digits_def digit_val_def)
    ultimately show ?thesis using n zero by (cases "f64_sign x") (simp_all add: f64_display_def f64_from_str_def split_sign_def)
  next
    case finite
    then show ?thesis by (rule f64_parse_display_finite)
  qed
qed

end
