(* ===== verification/Durations.thy ===== *)
theory Durations
  imports Float64_Text
begin

text \<open>
  Duration strings: the parsers of \<open>config/validate.rs\<close> and the printer of \<open>compiler/compile_after.rs\<close>. A \<open>Duration\<close> is
  its number of nanoseconds. The texts of the errors are not modelled; an error is its variant and the strings it quotes.
\<close>

section \<open>Text helpers of the standard library\<close>

text \<open>The UTF-8 forms of the code points with the property White_Space, which \<open>str::trim\<close> removes.\<close>

definition WHITE_SPACE :: "string list" where
  "WHITE_SPACE =
     map (map char_of)
       ([[9], [10], [11], [12], [13], [32], [0xC2, 0x85], [0xC2, 0xA0], [0xE1, 0x9A, 0x80], [0xE2, 0x80, 0xA8],
         [0xE2, 0x80, 0xA9], [0xE2, 0x80, 0xAF], [0xE2, 0x81, 0x9F], [0xE3, 0x80, 0x80]]
        @ map (\<lambda>n. [0xE2, 0x80, 0x80 + n]) [0..<11])"

function trim_start_with :: "string list \<Rightarrow> string \<Rightarrow> string" where
  "trim_start_with ws s =
     (case find (\<lambda>w. w \<noteq> [] \<and> starts_with s w) ws of
        Some w \<Rightarrow> trim_start_with ws (drop (length w) s)
      | None \<Rightarrow> s)"
  by pat_completeness auto
termination
  by (relation "measure (\<lambda>(ws, s). length s)") (auto simp: find_Some_iff starts_with_iff)

declare trim_start_with.simps [simp del]

definition trim :: "string \<Rightarrow> string" where
  "trim s = rev (trim_start_with (map rev WHITE_SPACE) (rev (trim_start_with WHITE_SPACE s)))"

section \<open>Parsing\<close>

datatype DurationError =
    DurationEmpty
  | UnrecognizedUnit string
  | NoNumericValue string
  | NegativeDuration string
  | InvalidNumber string string
  | NotPositive string
  | DurationOverflow string

definition split_unit :: "string \<Rightarrow> (string \<times> nat) option" where
  "split_unit s =
     (case strip_suffix ''ms'' s of Some r \<Rightarrow> Some (r, 1)
      | None \<Rightarrow>
     (case strip_suffix ''h'' s of Some r \<Rightarrow> Some (r, 3600000)
      | None \<Rightarrow>
     (case strip_suffix ''m'' s of Some r \<Rightarrow> Some (r, 60000)
      | None \<Rightarrow>
     (case strip_suffix ''s'' s of Some r \<Rightarrow> Some (r, 1000) | None \<Rightarrow> None))))"

definition duration_from_micros :: "u64 \<Rightarrow> nat" where
  "duration_from_micros m = unat m * 1000"

definition parse_duration :: "string \<Rightarrow> DurationError + nat" where
  "parse_duration s =
     (if s = [] then Inl DurationEmpty
      else
        case split_unit s of
          None \<Rightarrow> Inl (UnrecognizedUnit s)
        | Some (numeric_str, multiplier_ms) \<Rightarrow>
            if numeric_str = [] then Inl (NoNumericValue s)
            else if starts_with numeric_str ''-'' then Inl (NegativeDuration s)
            else
              case f64_from_str numeric_str of
                None \<Rightarrow> Inl (InvalidNumber s numeric_str)
              | Some v \<Rightarrow>
                  if f64_is_nan v \<or> f64_is_infinite v \<or> f64_le v 0 then Inl (NotPositive s)
                  else
                    let total_ms = f64_mul v (f64_of_nat multiplier_ms)
                    in if f64_lt (f64_of_nat (2 ^ 64 - 1)) total_ms then Inl (DurationOverflow s)
                       else Inr (duration_from_micros (f64_to_u64 (f64_mul total_ms (f64_of_nat 1000)))))"

definition is_zero_number :: "string \<Rightarrow> bool" where
  "is_zero_number s = (case f64_from_str s of Some v \<Rightarrow> f64_eq v 0 | None \<Rightarrow> False)"

definition parse_offset_duration :: "string \<Rightarrow> DurationError + nat" where
  "parse_offset_duration s =
     (case parse_duration s of
        Inr d \<Rightarrow> Inr d
      | Inl e \<Rightarrow>
          let trimmed = trim s
          in if starts_with trimmed ''-'' then Inl e
             else if is_zero_number (case split_unit trimmed of Some (r, _) \<Rightarrow> r | None \<Rightarrow> trimmed) then Inr 0
             else Inl e)"

definition parse_delay_duration :: "string \<Rightarrow> DurationError + nat" where
  "parse_delay_duration = parse_offset_duration"

definition parse_optional_duration :: "string \<Rightarrow> DurationError + nat option" where
  "parse_optional_duration s =
     (case parse_duration s of
        Inr d \<Rightarrow> Inr (Some d)
      | Inl e \<Rightarrow>
          if is_zero_number (case split_unit (trim s) of Some (r, _) \<Rightarrow> r | None \<Rightarrow> []) then Inr None else Inl e)"

text \<open>\<open>parse_phase_offset\<close> only rewords the error, which is the one of \<open>parse_duration\<close>.\<close>

definition parse_phase_offset :: "string \<Rightarrow> DurationError + nat option" where
  "parse_phase_offset = parse_optional_duration"

section \<open>Seconds as a number\<close>

definition as_secs_f64 :: "nat \<Rightarrow> f64" where
  "as_secs_f64 d = f64_add (f64_of_nat (d div 10 ^ 9)) (f64_div (f64_of_nat (d mod 10 ^ 9)) (f64_of_nat (10 ^ 9)))"

definition format_duration_secs :: "f64 \<Rightarrow> string" where
  "format_duration_secs secs =
     (if f64_is_nan secs \<or> f64_is_infinite secs \<or> f64_le secs 0 then ''0s''
      else
        let ms = unat (f64_to_u64 (f64_round_away (f64_mul secs (f64_of_nat 1000))))
        in if ms mod 1000 = 0
           then
             let whole_secs = ms div 1000
             in if 0 < whole_secs \<and> whole_secs mod 3600 = 0 then show_nat (whole_secs div 3600) @ ''h''
                else if 0 < whole_secs \<and> whole_secs mod 60 = 0 then show_nat (whole_secs div 60) @ ''m''
                else show_nat whole_secs @ ''s''
           else if ms < 1 then f64_display secs @ ''s''
           else f64_display (f64_div (f64_of_nat ms) (f64_of_nat 1000)) @ ''s'')"

text \<open>
  The assertion at the head of \<open>format_duration_secs\<close>, which only debug builds check; the definition above is what a
  release build returns.
\<close>

definition format_duration_asserts :: "f64 \<Rightarrow> bool" where
  "format_duration_asserts secs \<longleftrightarrow> \<not> f64_is_nan secs \<and> \<not> f64_is_infinite secs \<and> f64_le 0 secs"

section \<open>Whole numbers of a unit\<close>

lemma from_str_show_nat: "f64_from_str (show_nat n) = Some (f64_of_nat n)"
proof -
  obtain c cs where s: "show_nat n = c # cs" "is_ascii_digit c"
    using show_nat_all_digits [of n] by (cases "show_nat n") auto
  then have "split_sign (show_nat n) = (False, show_nat n)" by (simp add: split_sign_digit)
  then show ?thesis
    by (simp add: f64_from_str_def parse_decimal_whole f64_of_dec_def f64_of_nat_def)
qed

lemma show_nat_not_minus: "\<not> starts_with (show_nat n) ''-''"
proof
  assume "starts_with (show_nat n) ''-''"
  then have "CHR ''-'' \<in> set (show_nat n)" by (auto simp: starts_with_iff)
  with show_nat_digits [of n] show False by (auto simp: is_ascii_digit_def)
qed

lemma parse_duration_units:
  assumes "split_unit s = Some (show_nat n, k)" and "0 < n" and "0 < k" and "n * k * 1000 \<le> 2 ^ 53"
  shows "parse_duration s = Inr (n * k * 1000 * 1000)"
proof -
  have "s \<noteq> []" using assms(1) by (auto simp: split_unit_def strip_suffix_def)
  have small: "small_nat n" "small_nat k" "small_nat (n * k)" "small_nat 1000" "small_nat (n * k * 1000)"
  proof -
    have "n \<le> n * k" "k \<le> n * k" "n * k \<le> n * k * 1000" using assms(2,3) by simp_all
    with assms(4) show "small_nat n" "small_nat k" "small_nat (n * k)" "small_nat (n * k * 1000)"
      unfolding small_nat_def by linarith+
  qed (simp add: small_nat_def)
  have "f64_lt 0 (f64_of_nat n)" using dyadic_lt [OF dyadic_0 dyadic_of_nat [OF small(1)]] assms(2) by simp
  then have pos: "\<not> f64_le (f64_of_nat n) 0" using small(1) dyadic_parts(1) [OF dyadic_0] by (simp add: f64_le_iff)
  have "n * k < 2 ^ 64" using small(3) by (simp add: small_nat_def)
  then have no_overflow: "\<not> f64_lt (f64_of_nat (2 ^ 64 - 1)) (f64_of_nat (n * k))"
    using dyadic_lt [OF dyadic_u64_max dyadic_of_nat [OF small(3)]] by simp
  show ?thesis
    using \<open>s \<noteq> []\<close> assms(1) small pos no_overflow
    by (simp add: parse_duration_def show_nat_not_minus from_str_show_nat small_nat_mul small_nat_to_u64
        duration_from_micros_def del: of_nat_mult)
qed

lemma last_show_nat: "is_ascii_digit (last (show_nat n))"
  using show_nat_digits [of n] last_in_set [of "show_nat n"] by simp

lemma strip_suffix_snoc: "strip_suffix [c] (s @ [d]) = (if c = d then Some s else None)"
  by (simp add: strip_suffix_def)

lemma split_unit_show:
  "split_unit (show_nat n @ ''h'') = Some (show_nat n, 3600000)"
  "split_unit (show_nat n @ ''m'') = Some (show_nat n, 60000)"
  "split_unit (show_nat n @ ''s'') = Some (show_nat n, 1000)"
proof -
  have ms: "strip_suffix ''ms'' (show_nat n @ [c]) = None" for c
  proof (rule ccontr)
    assume "strip_suffix ''ms'' (show_nat n @ [c]) \<noteq> None"
    then obtain r where "show_nat n @ [c] = (r @ ''m'') @ ''s''" by (auto simp: strip_suffix_Some)
    then have "show_nat n = r @ ''m''" by (simp only: append_same_eq append1_eq_conv)
    then show False using last_show_nat [of n] by (simp add: is_ascii_digit_def code_def)
  qed
  show "split_unit (show_nat n @ ''h'') = Some (show_nat n, 3600000)"
    "split_unit (show_nat n @ ''m'') = Some (show_nat n, 60000)"
    "split_unit (show_nat n @ ''s'') = Some (show_nat n, 1000)"
    by (simp_all add: split_unit_def ms strip_suffix_snoc)
qed

lemma format_whole:
  assumes "0 < n" and "n * 10 ^ 6 \<le> 2 ^ 53"
  shows "format_duration_secs (f64_of_nat n) =
    (if n mod 3600 = 0 then show_nat (n div 3600) @ ''h''
     else if n mod 60 = 0 then show_nat (n div 60) @ ''m'' else show_nat n @ ''s'')"
proof -
  have small: "small_nat n" "small_nat 1000" "small_nat (n * 1000)" using assms by (simp_all add: small_nat_def)
  have "f64_lt 0 (f64_of_nat n)" using dyadic_lt [OF dyadic_0 dyadic_of_nat [OF small(1)]] assms(1) by simp
  then have "\<not> f64_le (f64_of_nat n) 0" using small(1) dyadic_parts(1) [OF dyadic_0] by (simp add: f64_le_iff)
  moreover have "f64_round_away (f64_of_nat (n * 1000)) = f64_of_nat (n * 1000)"
    using dyadic_round_away [OF dyadic_of_nat [OF small(3)]] by (simp add: mult.commute)
  ultimately show ?thesis
    using small assms(1) by (simp add: format_duration_secs_def small_nat_mul small_nat_to_u64)
qed

text \<open>
  A whole number of seconds, up to the limit below which its microseconds are exact, is printed in hours, minutes or
  seconds, and the duration parsed from the text is that number of seconds.
\<close>

lemma duration_whole_roundtrip:
  assumes "0 < n" and "n * 10 ^ 6 \<le> 2 ^ 53"
  shows "parse_duration (format_duration_secs (f64_of_nat n)) = Inr (n * 10 ^ 9)"
proof -
  have "n = n div 3600 * 3600" if "n mod 3600 = 0" using that by auto
  moreover have "n = n div 60 * 60" if "n mod 60 = 0" using that by auto
  moreover have "0 < n div 3600" if "n mod 3600 = 0" using that assms(1) by (auto simp: div_greater_zero_iff)
  moreover have "0 < n div 60" if "n mod 60 = 0" using that assms(1) by (auto simp: div_greater_zero_iff)
  ultimately show ?thesis
    unfolding format_whole [OF assms] using assms
    by (auto simp: parse_duration_units [OF split_unit_show(1)] parse_duration_units [OF split_unit_show(2)]
        parse_duration_units [OF split_unit_show(3)])
qed

lemma duration_whole_roundtrip_witness: "parse_duration (format_duration_secs (f64_of_nat 5400)) = Inr (5400 * 10 ^ 9)"
  by (rule duration_whole_roundtrip) simp_all

section \<open>Where text and duration part\<close>

lemma f64_from_dec:
  assumes "parse_decimal s = Some (c, p)" and "\<exists>d ds. s = d # ds \<and> is_ascii_digit d"
  shows "f64_from_str s = Some (f64_of_dec False c p)" and "\<not> starts_with s ''-''" and "s \<noteq> []"
proof -
  from assms(2) obtain d ds where s: "s = d # ds" "is_ascii_digit d" by blast
  then show "f64_from_str s = Some (f64_of_dec False c p)" "s \<noteq> []"
    using assms(1) by (simp_all add: f64_from_str_def split_sign_digit)
  show "\<not> starts_with s ''-''" using s by (auto simp: starts_with_iff is_ascii_digit_def)
qed

lemma dyadic_positive: "dyadic v n j \<Longrightarrow> 0 < n \<Longrightarrow> \<not> f64_le v 0"
  using dyadic_le [OF _ dyadic_0] by simp

lemma parse_duration_eval:
  assumes "split_unit s = Some (t, k)" and "parse_decimal t = Some (c, p)" and "\<exists>d ds. t = d # ds \<and> is_ascii_digit d"
    and v: "dyadic (f64_of_dec False c p) n j" "0 < n"
    and ms: "dyadic (f64_mul (f64_of_dec False c p) (f64_of_nat k)) n' j'" "n' \<le> 2 ^ 64 * 2 ^ j'"
    and us: "dyadic (f64_mul (f64_mul (f64_of_dec False c p) (f64_of_nat k)) (f64_of_nat 1000)) n'' j''"
  shows "parse_duration s = Inr (min (n'' div 2 ^ j'') (2 ^ 64 - 1) * 1000)"
proof -
  have "s \<noteq> []" using assms(1) by (auto simp: split_unit_def strip_suffix_def)
  moreover have "\<not> f64_lt (f64_of_nat (2 ^ 64 - 1)) (f64_mul (f64_of_dec False c p) (f64_of_nat k))"
    using dyadic_lt [OF dyadic_u64_max ms(1)] ms(2) by simp
  ultimately show ?thesis
    using f64_from_dec [OF assms(2,3)] dyadic_parts [OF v(1)] dyadic_positive [OF v] dyadic_to_u64 [OF us] assms(1)
    by (simp add: parse_duration_def duration_from_micros_def)
qed

lemma dyadic_mul_round:
  assumes "dyadic a n i" and "dyadic b m k" and "2 ^ 52 * 2 ^ (i + k) \<le> n * m * 2 ^ j" and "n * m * 2 ^ j < 2 ^ 53 * 2 ^ (i + k)"
    and "0 < j" and "j \<le> 1074" and "round_half_even (n * m * 2 ^ j) (2 ^ (i + k)) = q" and "2 ^ 52 \<le> q" and "q < 2 ^ 53"
  shows "dyadic (f64_mul a b) q j"
  unfolding dyadic_mul [OF assms(1,2)] using assms(3-) by (rule dyadic_round)

lemma dyadic_numeral: "numeral n \<le> (2 ^ 53 :: nat) \<Longrightarrow> dyadic (f64_of_nat (numeral n)) (numeral n) 0"
  by (rule dyadic_of_nat) (simp add: small_nat_def)

lemmas text_evals = parse_decimal_def split_digits_def is_ascii_digit_def read_digits_def digit_val_def code_def
  split_unit_def strip_suffix_def

text \<open>A millisecond fraction loses a microsecond: the product with 1000 is rounded below the whole number.\<close>

lemma parse_1001ms: "parse_duration ''1.001s'' = Inr 1000999000"
proof -
  have v: "dyadic (f64_of_dec False 1001 (- 3)) 4508103226997866 52"
    unfolding f64_of_dec_def using dyadic_round [of 1000 1001 52] by (simp add: round_half_even_def)
  have ms: "dyadic (f64_mul (f64_of_dec False 1001 (- 3)) (f64_of_nat 1000)) 8804889115230207 43"
    by (rule dyadic_mul_round [OF v dyadic_numeral]) (simp_all add: round_half_even_def)
  have us: "dyadic (f64_mul (f64_mul (f64_of_dec False 1001 (- 3)) (f64_of_nat 1000)) (f64_of_nat 1000)) 8598524526591999 33"
    by (rule dyadic_mul_round [OF ms dyadic_numeral]) (simp_all add: round_half_even_def)
  have "parse_duration ''1.001s'' = Inr (min (8598524526591999 div 2 ^ 33) (2 ^ 64 - 1) * 1000)"
    by (rule parse_duration_eval [where t = "''1.001''", OF _ _ _ v _ ms _ us]) (simp_all add: text_evals)
  then show ?thesis by simp
qed

text \<open>A positive duration below a microsecond is accepted as zero.\<close>

lemma parse_sub_microsecond: "parse_duration ''0.0001ms'' = Inr 0"
proof -
  have v: "dyadic (f64_of_dec False 1 (- 4)) 7378697629483821 66"
    unfolding f64_of_dec_def using dyadic_round [of 10000 1 66] by (simp add: round_half_even_def)
  have ms: "dyadic (f64_mul (f64_of_dec False 1 (- 4)) (f64_of_nat 1)) 7378697629483821 66"
    by (rule dyadic_mul_round [OF v dyadic_of_nat]) (simp_all add: round_half_even_def small_nat_def)
  have us: "dyadic (f64_mul (f64_mul (f64_of_dec False 1 (- 4)) (f64_of_nat 1)) (f64_of_nat 1000)) 7205759403792794 56"
    by (rule dyadic_mul_round [OF ms dyadic_numeral]) (simp_all add: round_half_even_def)
  have "parse_duration ''0.0001ms'' = Inr (min (7205759403792794 div 2 ^ 56) (2 ^ 64 - 1) * 1000)"
    by (rule parse_duration_eval [where t = "''0.0001''", OF _ _ _ v _ ms _ us]) (simp_all add: text_evals)
  then show ?thesis by simp
qed

text \<open>The guard compares milliseconds, but the microseconds saturate first.\<close>

lemma parse_saturates: "parse_duration ''9e18ms'' = Inr ((2 ^ 64 - 1) * 1000)"
proof -
  have v: "dyadic (f64_of_dec False 9 18) (9 * 5 ^ 18 * 2 ^ 18) 0"
    using dyadic_of_shifted [of "9 * 5 ^ 18" 18] by (simp add: f64_of_dec_def f64_of_nat_def small_nat_def)
  have ms: "dyadic (f64_mul (f64_of_dec False 9 18) (f64_of_nat 1)) (9 * 5 ^ 18 * 2 ^ 18) 0"
    using dyadic_mul [OF v dyadic_of_nat [of 1]] dyadic_of_shifted [of "9 * 5 ^ 18" 18]
    by (simp add: small_nat_def f64_of_nat_def)
  have us: "dyadic (f64_mul (f64_mul (f64_of_dec False 9 18) (f64_of_nat 1)) (f64_of_nat 1000)) (9 * 5 ^ 21 * 2 ^ 21) 0"
    using dyadic_mul [OF ms dyadic_of_nat [of 1000]] dyadic_of_shifted [of "9 * 5 ^ 21" 21]
    by (simp add: small_nat_def f64_of_nat_def)
  have "parse_duration ''9e18ms'' = Inr (min (9 * 5 ^ 21 * 2 ^ 21 div 2 ^ 0) (2 ^ 64 - 1) * 1000)"
    by (rule parse_duration_eval [where t = "''9e18''", OF _ _ _ v _ ms _ us])
      (simp_all add: text_evals to_ascii_lowercase_def parse_exponent_def split_sign_def)
  then show ?thesis by simp
qed

lemma show_nat_0: "show_nat 0 = ''0''"
  using code_inj [of "char_of (48 :: nat)" "CHR ''0''"] by (simp add: show_nat.simps digit_char_def)

text \<open>Half a millisecond and less is printed as \<open>0s\<close>, which is refused: the branch for less than a millisecond is dead.\<close>

lemma format_sub_millisecond:
  assumes "dyadic secs 1 12"
  shows "format_duration_secs secs = ''0s''" and "parse_duration ''0s'' = Inl (NotPositive ''0s'')"
proof -
  have ms: "dyadic (f64_mul secs (f64_of_nat 1000)) (1000 * 2 ^ 43) 55"
    by (rule dyadic_mul_round [OF assms dyadic_numeral]) (simp_all add: round_half_even_def)
  have "f64_round_away (f64_mul secs (f64_of_nat 1000)) = 0"
    using dyadic_round_away [OF ms] by (simp add: f64_of_nat_0)
  moreover have "f64_to_u64 0 = 0" using dyadic_to_u64 [OF dyadic_0] by simp
  ultimately show "format_duration_secs secs = ''0s''"
    using dyadic_parts [OF assms] dyadic_positive [OF assms]
    by (simp add: format_duration_secs_def show_nat_0)
  have "f64_from_str ''0'' = Some 0"
    using from_str_show_nat [of 0] by (simp add: show_nat_0 f64_of_nat_0)
  then show "parse_duration ''0s'' = Inl (NotPositive ''0s'')"
    using dyadic_le [OF dyadic_0 dyadic_0] by (simp add: parse_duration_def text_evals starts_with_iff)
qed

end
