(* ===== verification/Schedule_Windows.thy ===== *)
theory Schedule_Windows
  imports Util
begin

text \<open>
  The one-shot gap windows, spike labels and dynamic labels of \<open>schedule/mod.rs\<close>. A \<open>Duration\<close> is a number of
  nanoseconds, at most \<open>Duration::MAX\<close>. The periodic windows of the same file compare remainders of floating-point
  seconds and are not modelled.
\<close>

section \<open>One-shot gaps\<close>

definition DURATION_MAX :: nat where
  "DURATION_MAX = (2 ^ 64 - 1) * 10 ^ 9 + 999999999"

record OneShotGap =
  og_at :: nat
  og_duration :: nat

definition OneShotGap_end :: "OneShotGap \<Rightarrow> nat" where
  "OneShotGap_end w = min (og_at w + og_duration w) DURATION_MAX"

definition gap_covers :: "OneShotGap \<Rightarrow> nat \<Rightarrow> bool" where
  "gap_covers w elapsed \<longleftrightarrow> og_at w \<le> elapsed \<and> elapsed < OneShotGap_end w"

definition is_in_gap_window :: "nat \<Rightarrow> OneShotGap list \<Rightarrow> bool" where
  "is_in_gap_window elapsed windows \<longleftrightarrow> list_ex (\<lambda>w. gap_covers w elapsed) windows"

text \<open>One pass of the \<open>for\<close> loop: the cursor and whether it moved.\<close>

fun gap_pass :: "OneShotGap list \<Rightarrow> nat \<Rightarrow> bool \<Rightarrow> nat \<times> bool" where
  "gap_pass [] cursor moved = (cursor, moved)"
| "gap_pass (w # windows) cursor moved =
     (if gap_covers w cursor then gap_pass windows (OneShotGap_end w) True else gap_pass windows cursor moved)"

text \<open>A pass moves the cursor forward, to the end of some window, exactly when it covers it, and only over covered time.\<close>

lemma gap_pass_forward:
  assumes "gap_pass windows cursor moved = (cursor', moved')"
  shows "cursor \<le> cursor'" and "moved \<Longrightarrow> moved'" and "\<not> moved \<Longrightarrow> moved' = (cursor < cursor')"
    and "cursor' = cursor \<or> cursor' \<in> OneShotGap_end ` set windows"
    and "\<And>t. cursor \<le> t \<Longrightarrow> t < cursor' \<Longrightarrow> is_in_gap_window t windows"
    and "\<not> moved' \<Longrightarrow> \<not> is_in_gap_window cursor windows"
proof -
  have "cursor \<le> cursor' \<and> (moved \<longrightarrow> moved') \<and> (\<not> moved \<longrightarrow> moved' = (cursor < cursor'))
    \<and> (cursor' = cursor \<or> cursor' \<in> OneShotGap_end ` set windows)
    \<and> (\<forall>t. cursor \<le> t \<and> t < cursor' \<longrightarrow> is_in_gap_window t windows)
    \<and> (\<not> moved' \<longrightarrow> \<not> is_in_gap_window cursor windows)"
    using assms
  proof (induction windows arbitrary: cursor moved)
    case Nil
    then show ?case by (simp add: is_in_gap_window_def)
  next
    case (Cons w windows)
    show ?case
    proof (cases "gap_covers w cursor")
      case True
      then have c: "og_at w \<le> cursor" "cursor < OneShotGap_end w" by (simp_all add: gap_covers_def)
      from True Cons.prems have "gap_pass windows (OneShotGap_end w) True = (cursor', moved')" by simp
      from Cons.IH [OF this] c show ?thesis
        by (auto simp: is_in_gap_window_def gap_covers_def not_less)
    next
      case False
      with Cons.prems have "gap_pass windows cursor moved = (cursor', moved')" by simp
      from Cons.IH [OF this] False show ?thesis by (auto simp: is_in_gap_window_def)
    qed
  qed
  then show "cursor \<le> cursor'" "moved \<Longrightarrow> moved'" "\<not> moved \<Longrightarrow> moved' = (cursor < cursor')"
    "cursor' = cursor \<or> cursor' \<in> OneShotGap_end ` set windows"
    "\<And>t. cursor \<le> t \<Longrightarrow> t < cursor' \<Longrightarrow> is_in_gap_window t windows"
    "\<not> moved' \<Longrightarrow> \<not> is_in_gap_window cursor windows"
    by simp_all
qed

text \<open>The \<open>while\<close> loop ends: every pass but the last moves the cursor to a later end of a window.\<close>

function gap_walk :: "OneShotGap list \<Rightarrow> nat \<Rightarrow> nat" where
  "gap_walk windows cursor =
     (case gap_pass windows cursor False of
        (cursor, moved) \<Rightarrow> if moved then gap_walk windows cursor else cursor)"
  by pat_completeness auto
termination
proof (relation "measure (\<lambda>(windows, cursor). sum_list (map OneShotGap_end windows) - cursor)")
  fix windows cursor x y
  assume p: "(x, y) = gap_pass windows cursor False" y
  then have "gap_pass windows cursor False = (x, y)" by simp
  note fwd = gap_pass_forward [OF this]
  have "cursor < x" using fwd(3) p(2) by simp
  moreover from this fwd(4) have "x \<le> sum_list (map OneShotGap_end windows)"
    by (auto intro!: member_le_sum_list)
  ultimately show "((windows, x), windows, cursor)
      \<in> measure (\<lambda>(windows, cursor). sum_list (map OneShotGap_end windows) - cursor)" by simp
qed simp

declare gap_walk.simps [simp del]

definition time_until_gap_window_end :: "nat \<Rightarrow> OneShotGap list \<Rightarrow> nat" where
  "time_until_gap_window_end elapsed windows = gap_walk windows elapsed - elapsed"

lemma gap_walk_end:
  "cursor \<le> gap_walk windows cursor \<and> \<not> is_in_gap_window (gap_walk windows cursor) windows
   \<and> (\<forall>t. cursor \<le> t \<and> t < gap_walk windows cursor \<longrightarrow> is_in_gap_window t windows)"
proof (induction windows cursor rule: gap_walk.induct)
  case (1 windows cursor)
  obtain c moved where p: "gap_pass windows cursor False = (c, moved)" by fastforce
  note fwd = gap_pass_forward [OF p]
  show ?case
  proof (cases moved)
    case True
    have walk: "gap_walk windows cursor = gap_walk windows c"
      using p True by (subst gap_walk.simps) simp
    have IH: "c \<le> gap_walk windows c \<and> \<not> is_in_gap_window (gap_walk windows c) windows
        \<and> (\<forall>t. c \<le> t \<and> t < gap_walk windows c \<longrightarrow> is_in_gap_window t windows)"
      using 1 [OF p [symmetric] True] .
    then show ?thesis unfolding walk using fwd(1, 5) by (meson le_trans not_le)
  next
    case False
    then have "gap_walk windows cursor = c" using p by (subst gap_walk.simps) simp
    moreover have "c = cursor" using False fwd(1, 3) by simp
    ultimately show ?thesis using fwd(6) False by auto
  qed
qed

lemma gap_walk_least: "gap_walk windows elapsed = (LEAST t. elapsed \<le> t \<and> \<not> is_in_gap_window t windows)"
  by (rule Least_equality [symmetric]) (use gap_walk_end [of elapsed windows] in \<open>auto simp: not_less [symmetric]\<close>)

lemma is_in_gap_window_cong: "set ws = set vs \<Longrightarrow> is_in_gap_window t ws = is_in_gap_window t vs"
  by (simp add: is_in_gap_window_def list_ex_iff)


section \<open>Labels that change with the tick\<close>

datatype SpikeStrategy = SpikeCounter | SpikeRandom

record CardinalitySpikeWindow =
  sw_label :: string
  sw_every :: nat
  sw_duration :: nat
  sw_cardinality :: u64
  sw_strategy :: SpikeStrategy
  sw_prefix :: string
  sw_seed :: u64

text \<open>The remainder panics on a cardinality of zero, which is the value \<open>None\<close>.\<close>

definition spike_label_value_for_tick :: "CardinalitySpikeWindow \<Rightarrow> u64 \<Rightarrow> string option" where
  "spike_label_value_for_tick w tick =
     (if sw_cardinality w = 0 then None
      else
        let index = tick mod sw_cardinality w
        in Some (case sw_strategy w of
                   SpikeCounter \<Rightarrow> sw_prefix w @ show_nat (unat index)
                 | SpikeRandom \<Rightarrow> random_spike_value (sw_prefix w) (sw_seed w) index))"

record DynamicLabel =
  dl_key :: string
  dl_prefix :: string
  dl_cardinality :: u64
  dl_values :: "string list"

definition dynamic_label_value_for_tick :: "DynamicLabel \<Rightarrow> u64 \<Rightarrow> string option" where
  "dynamic_label_value_for_tick d tick =
     (if dl_cardinality d = 0 then None
      else
        let index = tick mod dl_cardinality d
        in if dl_values d = [] then Some (dl_prefix d @ show_nat (unat index))
           else if unat index < length (dl_values d) then Some (dl_values d ! unat index)
           else None)"

datatype DynamicLabelStrategy = ValuesList "string list" | CounterLabel "string option" u64

definition resolve_dynamic_label :: "string \<Rightarrow> DynamicLabelStrategy \<Rightarrow> DynamicLabel" where
  "resolve_dynamic_label key strategy =
     (case strategy of
        CounterLabel prefix cardinality \<Rightarrow>
          \<lparr> dl_key = key, dl_prefix = (case prefix of Some p \<Rightarrow> p | None \<Rightarrow> key @ ''_''), dl_cardinality = cardinality,
            dl_values = [] \<rparr>
      | ValuesList values \<Rightarrow>
          \<lparr> dl_key = key, dl_prefix = [], dl_cardinality = of_nat (length values), dl_values = values \<rparr>)"

lemma spike_value_index:
  assumes "sw_cardinality w \<noteq> 0"
  shows "spike_label_value_for_tick w t = spike_label_value_for_tick w u
    \<longleftrightarrow> t mod sw_cardinality w = u mod sw_cardinality w"
  using assms by (cases "sw_strategy w")
    (simp_all add: spike_label_value_for_tick_def random_spike_value_inj show_nat_inj word_unat_eq_iff Let_def)

text \<open>As many values as there are remainders.\<close>

lemma card_remainders:
  fixes c :: u64
  assumes "c \<noteq> 0" and "\<And>t u. f t = f u \<longleftrightarrow> t mod c = u mod c"
  shows "card (range f) = unat c"
proof -
  have small: "t mod c = t" if "t < c" for t
    using that by (simp add: word_unat_eq_iff unat_mod_distrib word_less_nat_alt)
  have inj: "inj_on f {..<c}"
    using assms(2) by (auto intro!: inj_onI simp: small)
  have "f t \<in> f ` {..<c}" for t
  proof -
    have "f t = f (t mod c)" by (simp add: assms(2) word_unat_eq_iff unat_mod_distrib)
    moreover have "t mod c < c" using assms(1) by (simp add: word_mod_less_divisor word_gt_0)
    ultimately show ?thesis by blast
  qed
  then have "range f = f ` {..<c}" by blast
  then have "card (range f) = card {..<c}" using inj by (simp add: card_image)
  also have "\<dots> = card (unat ` {..<c})" by (rule card_image [symmetric]) (simp add: inj_on_def word_unat_eq_iff)
  also have "unat ` {..<c} = {..<unat c}"
  proof (intro set_eqI iffI)
    fix n assume "n \<in> {..<unat c}"
    then have n: "n < unat c" by simp
    then have "n < 2 ^ 64" using unat_u64_less [of c] by linarith
    then have "unat (of_nat n :: u64) = n" by (simp add: unat_of_nat take_bit_eq_mod)
    with n have "n = unat (of_nat n :: u64)" "(of_nat n :: u64) < c" by (simp_all add: word_less_nat_alt)
    then show "n \<in> unat ` {..<c}" by blast
  qed (auto simp: word_less_nat_alt)
  finally show ?thesis by simp
qed


section \<open>Properties\<close>

text \<open>
  A cardinality spike of either strategy gives, over all ticks, exactly as many distinct label values as its
  cardinality, one for each remainder of the tick: the decimal counter and the SplitMix64 hash of seed and index are both
  injective.
\<close>

theorem spike_label_cardinality:
  assumes "sw_cardinality w \<noteq> 0"
  shows "card (range (spike_label_value_for_tick w)) = unat (sw_cardinality w)
    \<and> None \<notin> range (spike_label_value_for_tick w)
    \<and> (spike_label_value_for_tick w t = spike_label_value_for_tick w u
         \<longleftrightarrow> t mod sw_cardinality w = u mod sw_cardinality w)"
proof (intro conjI)
  show "card (range (spike_label_value_for_tick w)) = unat (sw_cardinality w)"
    by (rule card_remainders [OF assms spike_value_index [OF assms]])
  show "None \<notin> range (spike_label_value_for_tick w)"
    using assms by (auto simp: spike_label_value_for_tick_def Let_def)
qed (rule spike_value_index [OF assms])

definition example_spike :: CardinalitySpikeWindow where
  "example_spike =
     \<lparr> sw_label = ''pod'', sw_every = 60, sw_duration = 10, sw_cardinality = 3, sw_strategy = SpikeRandom,
       sw_prefix = ''pod_'', sw_seed = 42 \<rparr>"

theorem spike_label_cardinality_witness: "card (range (spike_label_value_for_tick example_spike)) = 3"
  using spike_label_cardinality [of example_spike 0 0] by (simp add: example_spike_def)

text \<open>
  C11: the walk over one-shot gap windows returns for every list of windows, in any order, overlapping, adjacent or
  saturated, and the time it returns leads to the first instant from now on that no window covers; sorting the list, as the
  schedule does, changes nothing.
\<close>

theorem gap_window_end:
  "\<not> is_in_gap_window (elapsed + time_until_gap_window_end elapsed windows) windows
   \<and> elapsed + time_until_gap_window_end elapsed windows = (LEAST t. elapsed \<le> t \<and> \<not> is_in_gap_window t windows)
   \<and> time_until_gap_window_end elapsed (sort_key og_at windows) = time_until_gap_window_end elapsed windows"
proof -
  have walk: "elapsed + time_until_gap_window_end elapsed windows = gap_walk windows elapsed"
    using gap_walk_end [of elapsed windows] by (simp add: time_until_gap_window_end_def)
  have "is_in_gap_window t (sort_key og_at windows) = is_in_gap_window t windows" for t
    by (rule is_in_gap_window_cong) simp
  then have "gap_walk (sort_key og_at windows) elapsed = gap_walk windows elapsed" unfolding gap_walk_least by simp
  moreover have "\<not> is_in_gap_window (gap_walk windows elapsed) windows" using gap_walk_end by blast
  ultimately show ?thesis
    unfolding walk using gap_walk_least unfolding time_until_gap_window_end_def by metis
qed

end
