(* ===== verification/Schedule_Loop.thy ===== *)
theory Schedule_Loop
  imports Durations Schedule_Windows Metric Gate_Registry
begin

text \<open>
  The schedule loop that drives every signal (\<open>run_schedule_loop_with_initial_tick\<close> of
  \<open>schedule/core_loop.rs\<close>) with the periodic windows it asks about (\<open>schedule/mod.rs\<close>), the statistics
  it keeps (\<open>schedule/stats.rs\<close>) and the rate limiter of its warnings. Instants and durations are
  nanoseconds. What the loop learns from outside in one iteration - whether it is cancelled, the
  readings of the clock, what the tick callback and the sink's writes return - is a \<open>Turn\<close>; the loop
  is a function of the list of its turns, and every theorem holds for every list. \<open>None\<close>, and
  \<open>LoopPanic\<close> of a step, is a panic, arithmetic overflow of a tick counter included.
\<close>

section \<open>Durations from a number of seconds\<close>

definition from_secs_f64 :: "f64 \<Rightarrow> nat option" where
  "from_secs_f64 x =
     (if f64_is_nan x \<or> f64_is_infinite x \<or> f64_lt x 0 then None
      else
        let nanos = round_half_even (f64_abs_units x * 10 ^ 9) F64_ONE
        in if nanos < 2 ^ 64 * 10 ^ 9 then Some nanos else None)"

definition duration_mul_f64 :: "nat \<Rightarrow> f64 \<Rightarrow> nat option" where
  "duration_mul_f64 d x = from_secs_f64 (f64_mul x (as_secs_f64 d))"

section \<open>Periodic windows\<close>

record GapWindow =
  gw_every :: nat
  gw_duration :: nat

record BurstWindow =
  bw_every :: nat
  bw_duration :: nat
  bw_multiplier :: f64

definition is_in_burst :: "nat \<Rightarrow> BurstWindow \<Rightarrow> f64 option" where
  "is_in_burst elapsed burst =
     (let every_secs = as_secs_f64 (bw_every burst);
          duration_secs = as_secs_f64 (bw_duration burst);
          cycle_pos = f64_rem (as_secs_f64 elapsed) every_secs
      in if f64_lt cycle_pos duration_secs then Some (bw_multiplier burst) else None)"

definition time_until_burst_end :: "nat \<Rightarrow> BurstWindow \<Rightarrow> nat option" where
  "time_until_burst_end elapsed burst =
     (let every_secs = as_secs_f64 (bw_every burst);
          duration_secs = as_secs_f64 (bw_duration burst);
          cycle_pos = f64_rem (as_secs_f64 elapsed) every_secs;
          remaining_secs = f64_sub duration_secs cycle_pos
      in if f64_le remaining_secs 0 then Some 0 else from_secs_f64 remaining_secs)"

definition is_in_gap :: "nat \<Rightarrow> GapWindow \<Rightarrow> bool" where
  "is_in_gap elapsed gap =
     (let every_secs = as_secs_f64 (gw_every gap);
          duration_secs = as_secs_f64 (gw_duration gap);
          cycle_pos = f64_rem (as_secs_f64 elapsed) every_secs
      in f64_le (f64_sub every_secs duration_secs) cycle_pos)"

definition time_until_gap_end :: "nat \<Rightarrow> GapWindow \<Rightarrow> nat option" where
  "time_until_gap_end elapsed gap =
     (let every_secs = as_secs_f64 (gw_every gap);
          cycle_pos = f64_rem (as_secs_f64 elapsed) every_secs;
          remaining_secs = f64_sub every_secs cycle_pos
      in if f64_le remaining_secs 0 then Some 0 else from_secs_f64 remaining_secs)"

definition is_in_spike :: "nat \<Rightarrow> CardinalitySpikeWindow \<Rightarrow> bool" where
  "is_in_spike elapsed spike =
     (let every_secs = as_secs_f64 (sw_every spike);
          duration_secs = as_secs_f64 (sw_duration spike);
          cycle_pos = f64_rem (as_secs_f64 elapsed) every_secs
      in f64_lt cycle_pos duration_secs)"

section \<open>The schedule\<close>

datatype OnSinkError = Warn | Fail

datatype StartTime = StartNow | StartAbsolute int | StartOffset bool nat

record ParsedSchedule =
  ps_replays_recorded_rows :: bool
  ps_total_duration :: "nat option"
  ps_gap_window :: "GapWindow option"
  ps_gap_windows :: "OneShotGap list"
  ps_burst_window :: "BurstWindow option"
  ps_spike_windows :: "CardinalitySpikeWindow list"
  ps_dynamic_labels :: "DynamicLabel list"
  ps_on_sink_error :: OnSinkError
  ps_name :: string
  ps_start_time :: StartTime

text \<open>A wall-clock time counts nanoseconds from the epoch; an instant counts them from the boot.\<close>

record WallClock =
  wc_base :: int
  wc_scenario_start :: nat

definition WallClock_resolve :: "ParsedSchedule \<Rightarrow> int \<Rightarrow> nat \<Rightarrow> WallClock" where
  "WallClock_resolve schedule start_wall scenario_start =
     \<lparr> wc_base = (case ps_start_time schedule of
                    StartNow \<Rightarrow> start_wall
                  | StartAbsolute t \<Rightarrow> t
                  | StartOffset forward by_ns \<Rightarrow> if forward then start_wall + int by_ns else start_wall - int by_ns),
        wc_scenario_start = scenario_start \<rparr>"

definition wall_at :: "WallClock \<Rightarrow> nat \<Rightarrow> nat \<Rightarrow> int" where
  "wall_at w segment_start tick_elapsed =
     (let scenario_elapsed = (segment_start - wc_scenario_start w) + tick_elapsed
      in wc_base w + int scenario_elapsed)"

section \<open>Errors, warnings and statistics\<close>

datatype SondaError = SinkError string | EventRejected string | ConfigError string | OtherError string

definition SINK_WARN_INTERVAL :: nat where
  "SINK_WARN_INTERVAL = 60 * 10 ^ 9"

record SinkErrorRateLimiter =
  rl_last_emit :: "nat option"
  rl_suppressed_count :: u64

definition SinkErrorRateLimiter_new :: SinkErrorRateLimiter where
  "SinkErrorRateLimiter_new = \<lparr> rl_last_emit = None, rl_suppressed_count = 0 \<rparr>"

text \<open>
  The limiter after one more error at the instant \<open>now\<close>, and the line printed: its count and its last
  error. The two readings of the clock in \<open>record\<close>, one after the other, are one here.
\<close>

definition limiter_record :: "nat \<Rightarrow> string \<Rightarrow> SinkErrorRateLimiter \<Rightarrow>
    SinkErrorRateLimiter \<times> (u64 \<times> string) option" where
  "limiter_record now what limiter =
     (let count = rl_suppressed_count limiter + 1;
          should_emit = (case rl_last_emit limiter of None \<Rightarrow> True | Some t \<Rightarrow> SINK_WARN_INTERVAL \<le> now - t)
      in if should_emit then (\<lparr> rl_last_emit = Some now, rl_suppressed_count = 0 \<rparr>, Some (count, what))
         else (limiter \<lparr> rl_suppressed_count := count \<rparr>, None))"

record ScenarioStats =
  ss_total_events :: u64
  ss_bytes_emitted :: u64
  ss_current_rate :: f64
  ss_errors :: u64
  ss_rejected_events :: u64
  ss_in_gap :: bool
  ss_in_burst :: bool
  ss_in_cardinality_spike :: bool
  ss_consecutive_failures :: u64
  ss_total_sink_failures :: u64
  ss_last_sink_error :: "string option"
  ss_last_successful_write_at :: "u64 option"
  ss_current_values :: "MetricKey \<rightharpoonup> MetricEvent"
  ss_state :: ScenarioState
  ss_close_emit_series :: "MetricKey set"
  ss_last_emit_ts :: "nat option"
  ss_track_close_series :: bool
  ss_last_state_transition_at :: "nat option"
  ss_cumulative_resolution_attempts :: u64

definition ScenarioStats_default :: ScenarioStats where
  "ScenarioStats_default =
     \<lparr> ss_total_events = 0, ss_bytes_emitted = 0, ss_current_rate = 0, ss_errors = 0, ss_rejected_events = 0,
       ss_in_gap = False, ss_in_burst = False, ss_in_cardinality_spike = False, ss_consecutive_failures = 0,
       ss_total_sink_failures = 0, ss_last_sink_error = None, ss_last_successful_write_at = None,
       ss_current_values = Map.empty, ss_state = StPending, ss_close_emit_series = {}, ss_last_emit_ts = None,
       ss_track_close_series = False, ss_last_state_transition_at = None, ss_cumulative_resolution_attempts = 0 \<rparr>"

definition push_metric :: "MetricEvent \<Rightarrow> ScenarioStats \<Rightarrow> ScenarioStats" where
  "push_metric event st =
     (let key = (ev_name event, ev_labels event);
          st = (if ss_track_close_series st
                then st \<lparr> ss_close_emit_series := insert key (ss_close_emit_series st),
                           ss_last_emit_ts := Some (ev_timestamp event) \<rparr>
                else st)
      in st \<lparr> ss_current_values := (ss_current_values st)(key \<mapsto> event) \<rparr>)"

definition stats_transition_state :: "nat \<Rightarrow> ScenarioState \<Rightarrow> ScenarioStats \<Rightarrow> ScenarioStats" where
  "stats_transition_state now new_state st =
     st \<lparr> ss_state := new_state, ss_last_state_transition_at := Some now \<rparr>"

definition drain_close_emit_series :: "ScenarioStats \<Rightarrow> (MetricKey set \<times> nat option) \<times> ScenarioStats" where
  "drain_close_emit_series st =
     ((ss_close_emit_series st, ss_last_emit_ts st), st \<lparr> ss_close_emit_series := {}, ss_last_emit_ts := None \<rparr>)"

definition DEGRADED_STALENESS_NANOS :: u64 where
  "DEGRADED_STALENESS_NANOS = 30000000000"

definition is_degraded :: "u64 \<Rightarrow> ScenarioStats \<Rightarrow> bool" where
  "is_degraded now_unix_nanos st =
     (if ss_total_sink_failures st = 0 then False
      else
        case ss_last_successful_write_at st of
          None \<Rightarrow> True
        | Some written \<Rightarrow> DEGRADED_STALENESS_NANOS < (if now_unix_nanos < written then 0 else now_unix_nanos - written))"

definition record_sink_failure :: "string \<Rightarrow> ScenarioStats \<Rightarrow> ScenarioStats" where
  "record_sink_failure err st =
     st \<lparr> ss_errors := saturating_succ (ss_errors st),
          ss_total_sink_failures := saturating_succ (ss_total_sink_failures st),
          ss_consecutive_failures := saturating_succ (ss_consecutive_failures st),
          ss_last_sink_error := Some err \<rparr>"

definition count_rejected :: "ScenarioStats \<Rightarrow> ScenarioStats" where
  "count_rejected st =
     st \<lparr> ss_errors := saturating_succ (ss_errors st),
          ss_rejected_events := saturating_succ (ss_rejected_events st) \<rparr>"

section \<open>One iteration\<close>

record TickContext =
  tc_tick :: nat
  tc_spike_windows :: "CardinalitySpikeWindow list"
  tc_dynamic_labels :: "DynamicLabel list"
  tc_elapsed :: nat
  tc_wall_clock :: int

record TickResult =
  tr_bytes_written :: u64
  tr_delivered :: bool

text \<open>
  \<open>tn_writes\<close> has one element for each write the callback queued: the error of the sink's write, or
  what \<open>last_write_delivered\<close> answers after it.
\<close>

record Turn =
  tn_cancelled :: bool
  tn_now :: nat
  tn_before_sleep :: nat
  tn_sleep_cancelled :: bool
  tn_tick :: "SondaError + TickResult \<times> MetricEvent list"
  tn_writes :: "(SondaError + bool) list"
  tn_after :: nat
  tn_window_now :: nat
  tn_unix_nanos :: "u64 option"

text \<open>\<open>lr_overflow_checks\<close> is the build profile: whether unsigned arithmetic that leaves its range panics or wraps.\<close>

record LoopRun =
  lr_overflow_checks :: bool
  lr_schedule :: ParsedSchedule
  lr_base_interval :: nat
  lr_start :: nat
  lr_wall :: WallClock
  lr_initial_tick :: nat

text \<open>
  \<open>lp_emitted\<close> is the history of the calls of the tick callback, each with the grid slot of its tick,
  \<open>lp_printed\<close> that of the warnings.
\<close>

record LoopState =
  lp_next_deadline :: nat
  lp_tick :: nat
  lp_rate_window_tick :: nat
  lp_rate_window_start :: nat
  lp_sink_limiter :: SinkErrorRateLimiter
  lp_reject_limiter :: SinkErrorRateLimiter
  lp_stats :: "ScenarioStats option"
  lp_emitted :: "(nat \<times> TickContext) list"
  lp_printed :: "(u64 \<times> string) list"

datatype StepResult = LoopContinue LoopState | LoopBreak LoopState | LoopError SondaError LoopState | LoopPanic

fun drain_loop :: "bool option \<Rightarrow> (SondaError + bool) list \<Rightarrow> SondaError + bool option" where
  "drain_loop delivered [] = Inr delivered"
| "drain_loop delivered (written # rest) =
     (case written of Inl e \<Rightarrow> Inl e | Inr d \<Rightarrow> drain_loop (Some d) rest)"

definition drain_writes :: "(SondaError + bool) list \<Rightarrow> SondaError + bool option" where
  "drain_writes writes = drain_loop None writes"

function skip_one_shot :: "nat \<Rightarrow> OneShotGap list \<Rightarrow> nat \<Rightarrow> nat option" where
  "skip_one_shot base_interval windows ticks_elapsed =
     (if 2 ^ 64 \<le> ticks_elapsed then None
      else
        case duration_mul_f64 base_interval (f64_of_nat ticks_elapsed) of
          None \<Rightarrow> None
        | Some slot \<Rightarrow>
            if is_in_gap_window slot windows then skip_one_shot base_interval windows (ticks_elapsed + 1)
            else Some ticks_elapsed)"
  by pat_completeness auto

termination skip_one_shot
  by (relation "measure (\<lambda>(_, _, k). 2 ^ 64 - k)") auto

declare skip_one_shot.simps [simp del]

definition still_silent :: "ParsedSchedule \<Rightarrow> nat \<Rightarrow> bool" where
  "still_silent schedule slot =
     ((case ps_gap_window schedule of None \<Rightarrow> False | Some g \<Rightarrow> is_in_gap slot g) \<or>
      is_in_gap_window slot (ps_gap_windows schedule))"

function resume_walk :: "ParsedSchedule \<Rightarrow> nat \<Rightarrow> bool \<Rightarrow> nat \<Rightarrow> nat \<Rightarrow> nat option" where
  "resume_walk schedule base_interval has_recorded_rows resumed_at ticks_elapsed =
     (if 2 ^ 64 \<le> ticks_elapsed then None
      else
        case duration_mul_f64 base_interval (f64_of_nat ticks_elapsed) of
          None \<Rightarrow> None
        | Some slot \<Rightarrow>
            let not_yet = \<not> has_recorded_rows \<and> slot < resumed_at
            in if not_yet \<or> still_silent schedule slot
               then resume_walk schedule base_interval has_recorded_rows resumed_at (ticks_elapsed + 1)
               else Some ticks_elapsed)"
  by pat_completeness auto

termination resume_walk
  by (relation "measure (\<lambda>(_, _, _, _, k). 2 ^ 64 - k)") auto

declare resume_walk.simps [simp del]

definition move_to :: "LoopRun \<Rightarrow> nat option \<Rightarrow> LoopState \<Rightarrow> StepResult" where
  "move_to run ticks s =
     (case ticks of
        None \<Rightarrow> LoopPanic
      | Some ticks_elapsed \<Rightarrow>
          if 2 ^ 64 \<le> lr_initial_tick run + ticks_elapsed then LoopPanic
          else
            case duration_mul_f64 (lr_base_interval run) (f64_of_nat ticks_elapsed) of
              None \<Rightarrow> LoopPanic
            | Some slot \<Rightarrow>
                LoopContinue (s \<lparr> lp_tick := lr_initial_tick run + ticks_elapsed,
                                  lp_next_deadline := lr_start run + slot \<rparr>))"

definition has_recorded_rows :: "ParsedSchedule \<Rightarrow> bool" where
  "has_recorded_rows schedule \<longleftrightarrow> ps_replays_recorded_rows schedule \<or> ps_gap_windows schedule \<noteq> []"

definition gap_step :: "LoopRun \<Rightarrow> Turn \<Rightarrow> nat \<Rightarrow> GapWindow option \<Rightarrow> LoopState \<Rightarrow> StepResult" where
  "gap_step run t elapsed periodic_gap s =
     (let schedule = lr_schedule run;
          s = s \<lparr> lp_stats := map_option (\<lambda>st. st \<lparr> ss_in_gap := True, ss_in_burst := False \<rparr>) (lp_stats s) \<rparr>
      in case periodic_gap of
           None \<Rightarrow>
             move_to run (skip_one_shot (lr_base_interval run) (ps_gap_windows schedule)
               (lp_tick s - lr_initial_tick run)) s
         | Some gap \<Rightarrow>
             (case time_until_gap_end elapsed gap of
                None \<Rightarrow> LoopPanic
              | Some periodic_sleep \<Rightarrow>
                  let one_shot_sleep = time_until_gap_window_end elapsed (ps_gap_windows schedule);
                      sleep_for = max periodic_sleep one_shot_sleep;
                      gap_end = lr_start run + elapsed + sleep_for
                  in if tn_before_sleep t < gap_end \<and> tn_sleep_cancelled t then LoopContinue s
                     else
                       let resumed_at = elapsed + sleep_for;
                           ticks_elapsed =
                             (if has_recorded_rows schedule then lp_tick s - lr_initial_tick run
                              else unat (f64_to_u64 (f64_div (as_secs_f64 resumed_at)
                                          (as_secs_f64 (lr_base_interval run)))))
                       in move_to run (resume_walk schedule (lr_base_interval run)
                            (has_recorded_rows schedule) resumed_at ticks_elapsed) s))"

definition effective_interval :: "LoopRun \<Rightarrow> nat \<Rightarrow> (nat \<times> bool) option" where
  "effective_interval run elapsed =
     (case ps_burst_window (lr_schedule run) of
        None \<Rightarrow> Some (lr_base_interval run, False)
      | Some burst \<Rightarrow>
          (case is_in_burst elapsed burst of
             None \<Rightarrow> Some (lr_base_interval run, False)
           | Some multiplier \<Rightarrow>
               map_option (\<lambda>d. (d, True)) (from_secs_f64 (f64_div (as_secs_f64 (lr_base_interval run)) multiplier))))"

text \<open>The callback, then the writes it queued: the outcome, and whether an error is the sink's.\<close>

definition tick_outcome :: "Turn \<Rightarrow> (SondaError + TickResult \<times> MetricEvent list) \<times> bool" where
  "tick_outcome t =
     (case tn_tick t of
        Inl e \<Rightarrow> (Inl e, False)
      | Inr (result, events) \<Rightarrow>
          (case drain_writes (tn_writes t) of
             Inr (Some delivered) \<Rightarrow> (Inr (result \<lparr> tr_delivered := delivered \<rparr>, events), False)
           | Inr None \<Rightarrow> (Inr (result, events), False)
           | Inl e \<Rightarrow> (Inl e, True)))"

definition set_windows :: "bool \<Rightarrow> bool \<Rightarrow> ScenarioStats \<Rightarrow> ScenarioStats" where
  "set_windows in_burst in_spike st =
     st \<lparr> ss_in_gap := False, ss_in_burst := in_burst, ss_in_cardinality_spike := in_spike \<rparr>"

definition stats_ok :: "TickResult \<Rightarrow> MetricEvent list \<Rightarrow> f64 \<Rightarrow> u64 option \<Rightarrow> bool \<Rightarrow> bool \<Rightarrow>
    ScenarioStats \<Rightarrow> ScenarioStats" where
  "stats_ok result events rate unix_nanos in_burst in_spike st =
     (let st = set_windows in_burst in_spike
            (st \<lparr> ss_total_events := ss_total_events st + 1,
                 ss_bytes_emitted := ss_bytes_emitted st + tr_bytes_written result,
                 ss_current_rate := rate \<rparr>);
          st = (if tr_delivered result
                then st \<lparr> ss_consecutive_failures := 0, ss_last_successful_write_at := unix_nanos \<rparr>
                else st)
      in fold push_metric events st)"

text \<open>
  The statistics after a tick that went well; \<open>current_rate\<close> is renewed once a second. The ticks of the rate window are a
  difference of 64-bit counters, and a periodic gap after a burst can set the tick back behind the window's first one:
  the difference then wraps, or panics when the build checks overflow (\<open>rate_underflows\<close>).
\<close>

definition rate_underflows :: "Turn \<Rightarrow> LoopState \<Rightarrow> bool" where
  "rate_underflows t s \<longleftrightarrow>
     (case tick_outcome t of (Inr _, _) \<Rightarrow> lp_stats s \<noteq> None | _ \<Rightarrow> False) \<and>
     10 ^ 9 \<le> tn_after t - lp_rate_window_start s \<and> lp_tick s < lp_rate_window_tick s"

definition account_ok :: "Turn \<Rightarrow> TickResult \<Rightarrow> MetricEvent list \<Rightarrow> bool \<Rightarrow> bool \<Rightarrow> LoopState \<Rightarrow> LoopState" where
  "account_ok t result events in_burst in_spike s =
     (case lp_stats s of
        None \<Rightarrow> s
      | Some st \<Rightarrow>
          let window_elapsed = tn_after t - lp_rate_window_start s
          in if 10 ^ 9 \<le> window_elapsed
             then
               let events_in_window = unat (word_of_nat (lp_tick s) - word_of_nat (lp_rate_window_tick s) :: u64);
                   rate = f64_div (f64_of_nat events_in_window) (as_secs_f64 window_elapsed)
               in s \<lparr> lp_rate_window_tick := lp_tick s, lp_rate_window_start := tn_window_now t,
                      lp_stats := Some (stats_ok result events rate (tn_unix_nanos t) in_burst in_spike st) \<rparr>
             else s \<lparr> lp_stats := Some (stats_ok result events (ss_current_rate st) (tn_unix_nanos t)
                                         in_burst in_spike st) \<rparr>)"

definition warn_sink :: "nat \<Rightarrow> string \<Rightarrow> LoopState \<Rightarrow> LoopState" where
  "warn_sink now err s =
     (let (limiter, line) = limiter_record now err (lp_sink_limiter s)
      in s \<lparr> lp_sink_limiter := limiter,
             lp_printed := lp_printed s @ (case line of None \<Rightarrow> [] | Some l \<Rightarrow> [l]) \<rparr>)"

definition record_rejected_event :: "nat \<Rightarrow> string \<Rightarrow> LoopState \<Rightarrow> LoopState" where
  "record_rejected_event now reason s =
     (let (limiter, line) = limiter_record now reason (lp_reject_limiter s)
      in s \<lparr> lp_reject_limiter := limiter,
             lp_printed := lp_printed s @ (case line of None \<Rightarrow> [] | Some l \<Rightarrow> [l]),
             lp_stats := map_option count_rejected (lp_stats s) \<rparr>)"

text \<open>What an outcome does to the state: the loop goes on (\<open>Inr\<close>) or the scenario ends with the error.\<close>

definition account :: "ParsedSchedule \<Rightarrow> Turn \<Rightarrow> bool \<Rightarrow> bool \<Rightarrow> LoopState \<Rightarrow> SondaError \<times> LoopState + LoopState" where
  "account schedule t in_burst in_spike s =
     (case tick_outcome t of
        (Inr (result, events), _) \<Rightarrow> Inr (account_ok t result events in_burst in_spike s)
      | (Inl e, from_sink) \<Rightarrow>
          (case e of
             SinkError io_err \<Rightarrow>
               (case ps_on_sink_error schedule of
                  Warn \<Rightarrow>
                    Inr ((warn_sink (tn_after t) io_err s)
                      \<lparr> lp_stats := map_option (\<lambda>st. set_windows in_burst in_spike (record_sink_failure io_err st))
                          (lp_stats s) \<rparr>)
                | Fail \<Rightarrow>
                    Inl (e, s \<lparr> lp_stats := map_option (record_sink_failure io_err) (lp_stats s) \<rparr>))
           | EventRejected reason \<Rightarrow>
               (let s = record_rejected_event (tn_after t) reason s
                in Inr (s \<lparr> lp_stats := map_option (set_windows in_burst in_spike) (lp_stats s) \<rparr>))
           | ConfigError reason \<Rightarrow>
               if from_sink
               then Inl (e, s \<lparr> lp_stats := map_option (\<lambda>st. set_windows in_burst in_spike (record_sink_failure reason st))
                                 (lp_stats s) \<rparr>)
               else Inl (e, s)
           | OtherError _ \<Rightarrow> Inl (e, s)))"

definition emit_step :: "LoopRun \<Rightarrow> Turn \<Rightarrow> nat \<Rightarrow> nat \<Rightarrow> LoopState \<Rightarrow> StepResult" where
  "emit_step run t emit_at elapsed s =
     (let schedule = lr_schedule run
      in case effective_interval run elapsed of
           None \<Rightarrow> LoopPanic
         | Some (interval, in_burst) \<Rightarrow>
             if tn_before_sleep t < emit_at \<and> tn_sleep_cancelled t then LoopContinue s
             else
               let ctx = \<lparr> tc_tick = lp_tick s, tc_spike_windows = ps_spike_windows schedule,
                           tc_dynamic_labels = ps_dynamic_labels schedule, tc_elapsed = elapsed,
                           tc_wall_clock = wall_at (lr_wall run) (lr_start run) elapsed \<rparr>;
                   s = s \<lparr> lp_emitted := lp_emitted s @ [(lp_next_deadline s - lr_start run, ctx)] \<rparr>;
                   in_spike = list_ex (is_in_spike elapsed) (ps_spike_windows schedule)
               in if lr_overflow_checks run \<and> rate_underflows t s then LoopPanic
                  else
                  case account schedule t in_burst in_spike s of
                    Inl (e, s) \<Rightarrow> LoopError e s
                  | Inr s \<Rightarrow>
                      if 2 ^ 64 \<le> lp_tick s + 1 then LoopPanic
                      else LoopContinue (s \<lparr> lp_next_deadline := lp_next_deadline s + interval,
                                             lp_tick := lp_tick s + 1 \<rparr>))"

definition loop_step :: "LoopRun \<Rightarrow> Turn \<Rightarrow> LoopState \<Rightarrow> StepResult" where
  "loop_step run t s =
     (if tn_cancelled t then LoopBreak s
      else
        let schedule = lr_schedule run;
            emit_at = max (lp_next_deadline s) (tn_now t);
            elapsed = emit_at - lr_start run
        in if (case ps_total_duration schedule of None \<Rightarrow> False | Some limit \<Rightarrow> limit \<le> elapsed) then LoopBreak s
           else
             let row_at = lp_next_deadline s - lr_start run;
                 periodic_gap = (case ps_gap_window schedule of
                                   None \<Rightarrow> None
                                 | Some gap \<Rightarrow> if is_in_gap elapsed gap then Some gap else None);
                 in_one_shot = is_in_gap_window row_at (ps_gap_windows schedule)
             in if periodic_gap \<noteq> None \<or> in_one_shot then gap_step run t elapsed periodic_gap s
                else emit_step run t emit_at elapsed s)"

text \<open>The loop over its turns: a loop that has used its turns up is still running.\<close>

fun schedule_loop :: "LoopRun \<Rightarrow> Turn list \<Rightarrow> LoopState \<Rightarrow> StepResult" where
  "schedule_loop run [] s = LoopContinue s"
| "schedule_loop run (t # ts) s =
     (case loop_step run t s of
        LoopContinue s' \<Rightarrow> schedule_loop run ts s'
      | r \<Rightarrow> r)"

definition loop_start :: "LoopRun \<Rightarrow> ScenarioStats option \<Rightarrow> LoopState" where
  "loop_start run stats =
     \<lparr> lp_next_deadline = lr_start run, lp_tick = lr_initial_tick run, lp_rate_window_tick = 0,
       lp_rate_window_start = lr_start run, lp_sink_limiter = SinkErrorRateLimiter_new,
       lp_reject_limiter = SinkErrorRateLimiter_new, lp_stats = stats, lp_emitted = [], lp_printed = [] \<rparr>"

text \<open>The interval of a rate; a gated run passes its own anchor, any other resolves one here.\<close>

definition schedule_run :: "bool \<Rightarrow> ParsedSchedule \<Rightarrow> f64 \<Rightarrow> nat \<Rightarrow> int \<Rightarrow> WallClock option \<Rightarrow> nat \<Rightarrow> LoopRun option" where
  "schedule_run overflow_checks schedule rate start start_wall wall initial_tick =
     map_option (\<lambda>base_interval.
       \<lparr> lr_overflow_checks = overflow_checks, lr_schedule = schedule, lr_base_interval = base_interval, lr_start = start,
         lr_wall = (case wall of Some w \<Rightarrow> w | None \<Rightarrow> WallClock_resolve schedule start_wall start),
         lr_initial_tick = initial_tick \<rparr>)
       (from_secs_f64 (f64_div (f64_of_nat 1) rate))"

definition apply_shutdown_flush_policy :: "OnSinkError \<Rightarrow> ScenarioStats option \<Rightarrow> SondaError + unit \<Rightarrow>
    (SondaError + unit) \<times> ScenarioStats option" where
  "apply_shutdown_flush_policy policy stats flush_result =
     (case flush_result of
        Inr _ \<Rightarrow> (Inr (), stats)
      | Inl (SinkError io_err) \<Rightarrow>
          (case policy of
             Warn \<Rightarrow> (Inr (), map_option (record_sink_failure io_err) stats)
           | Fail \<Rightarrow> (Inl (SinkError io_err), stats))
      | Inl other \<Rightarrow> (Inl other, stats))"

definition finalize_sink :: "ParsedSchedule \<Rightarrow> SondaError + unit \<Rightarrow> ScenarioStats option \<Rightarrow> SondaError + unit \<Rightarrow>
    (SondaError + unit) \<times> ScenarioStats option" where
  "finalize_sink schedule flush_result stats loop_result =
     (case loop_result of
        Inr _ \<Rightarrow> apply_shutdown_flush_policy (ps_on_sink_error schedule) stats flush_result
      | Inl e \<Rightarrow> (Inl e, stats))"

end
