(* ===== verification/Whole_Seconds.thy ===== *)
theory Whole_Seconds
  imports Schedule_Loop
begin

text \<open>
  Rules that compute with durations of whole seconds: on them the floating-point arithmetic of the schedule
  windows is exact, and the simplifier evaluates concrete runs of the loop with these rules.
\<close>

lemma small_nat_div:
  assumes "small_nat a" and "small_nat b" and "b dvd a" and "0 < b"
  shows "f64_div (f64_of_nat a) (f64_of_nat b) = f64_of_nat (a div b)"
proof -
  from assms(3) obtain q where a: "a = q * b" by (metis dvd_div_mult_self)
  have "f64_nearest (q * b * F64_ONE * F64_ONE) (b * F64_ONE) = f64_nearest (q * F64_ONE) 1"
    using f64_nearest_scale [of "b * F64_ONE" "q * F64_ONE" 1] assms(4) by (simp add: ac_simps)
  with assms a small_nat_magnitude [OF assms(2,4)] show ?thesis
    by (simp add: f64_div_def small_nat_exact f64_of_nat_def [of q] f64_round_def Let_def)
qed

lemma small_nat_rem:
  assumes "small_nat a" and "small_nat b" and "0 < b"
  shows "f64_rem (f64_of_nat a) (f64_of_nat b) = f64_of_nat (a mod b)"
  using assms small_nat_magnitude [OF assms(2,3)]
  by (simp add: f64_rem_def small_nat_exact f64_of_nat_def [of "a mod b"] mod_mult_mult2)

lemma small_nat_sub:
  assumes "small_nat m" and "small_nat n" and "n \<le> m"
  shows "f64_sub (f64_of_nat m) (f64_of_nat n) = f64_of_nat (m - n)"
proof (cases "m = n")
  case True
  with assms show ?thesis by (simp add: f64_sub_def f64_add_def f64_neg_parts f64_of_nat_0 f64_make_def)
next
  case False
  define k where "k = (m - n) * F64_ONE"
  have "0 < k" using False assms(3) F64_ONE_pos by (simp add: k_def)
  have "f64_units (f64_of_nat m) - f64_units (f64_of_nat n) = int k"
    using assms by (simp add: small_nat_key k_def algebra_simps of_nat_diff)
  moreover have "f64_of_nat (m - n) = f64_round False k 1" by (simp only: f64_of_nat_def k_def)
  ultimately show ?thesis
    using \<open>0 < k\<close> assms(1,2) by (simp add: f64_sub_def f64_add_def f64_neg_parts)
qed

lemma f64_lt_zero: "small_nat a \<Longrightarrow> \<not> f64_lt (f64_of_nat a) 0"
  using small_nat_lt [of a 0] by (simp add: f64_of_nat_0 small_nat_def)

lemma f64_le_zero: "small_nat a \<Longrightarrow> f64_le (f64_of_nat a) 0 \<longleftrightarrow> a = 0"
  using small_nat_lt [of 0 a] by (simp add: f64_le_iff f64_of_nat_0 [symmetric] small_nat_def)

lemma small_nat_le: "small_nat a \<Longrightarrow> small_nat b \<Longrightarrow> f64_le (f64_of_nat a) (f64_of_nat b) \<longleftrightarrow> a \<le> b"
  by (simp add: f64_le_iff small_nat_lt not_less)

lemma as_secs_whole:
  assumes "10 ^ 9 dvd d" and "small_nat (d div 10 ^ 9)"
  shows "as_secs_f64 d = f64_of_nat (d div 10 ^ 9)"
proof -
  have "d mod 10 ^ 9 = 0" using assms(1) by simp
  then have "as_secs_f64 d = f64_add (f64_of_nat (d div 10 ^ 9)) (f64_of_nat 0)"
    using small_nat_div [of 0 "10 ^ 9"] by (simp add: as_secs_f64_def small_nat_def)
  then show ?thesis using small_nat_add [OF assms(2), of 0] by (simp add: small_nat_def)
qed

lemma from_secs_whole: "small_nat n \<Longrightarrow> from_secs_f64 (f64_of_nat n) = Some (n * 10 ^ 9)"
proof -
  assume n: "small_nat n"
  then have "n * 10 ^ 9 < 2 ^ 64 * 10 ^ 9" by (simp add: small_nat_def)
  moreover have "round_half_even (n * F64_ONE * 10 ^ 9) F64_ONE = n * 10 ^ 9"
    using round_half_even_dvd [OF F64_ONE_pos, of "n * 10 ^ 9"] by (simp add: ac_simps)
  ultimately show ?thesis
    using n f64_lt_zero [OF n] by (simp add: from_secs_f64_def small_nat_exact Let_def)
qed

lemma dyadic_from_secs:
  assumes "dyadic x n j" and "round_half_even (n * 10 ^ 9) (2 ^ j) = nanos" and "nanos < 2 ^ 64 * 10 ^ 9"
  shows "from_secs_f64 x = Some nanos"
proof -
  have u: "f64_abs_units x * 2 ^ j = n * F64_ONE" using assms(1) by (simp add: dyadic_def)
  have "round_half_even (f64_abs_units x * 10 ^ 9) F64_ONE
      = round_half_even (f64_abs_units x * 10 ^ 9 * 2 ^ j) (F64_ONE * 2 ^ j)"
    by (rule round_half_even_scale [symmetric]) simp
  also have "f64_abs_units x * 10 ^ 9 * 2 ^ j = n * 10 ^ 9 * F64_ONE" using u by (simp add: ac_simps)
  also have "round_half_even (n * 10 ^ 9 * F64_ONE) (F64_ONE * 2 ^ j) = round_half_even (n * 10 ^ 9) (2 ^ j)"
    using round_half_even_scale [OF F64_ONE_pos, of "n * 10 ^ 9" "2 ^ j"] by (simp add: ac_simps)
  finally show ?thesis
    using assms(2,3) dyadic_parts [OF assms(1)]
    by (simp add: from_secs_f64_def Let_def f64_lt_def f64_key_def f64_zero_parts)
qed

lemma mul_f64_whole:
  assumes "10 ^ 9 dvd d" and "small_nat (d div 10 ^ 9)" and "small_nat k" and "small_nat (k * (d div 10 ^ 9))"
  shows "duration_mul_f64 d (f64_of_nat k) = Some (k * d)"
  using assms by (auto simp: duration_mul_f64_def as_secs_whole small_nat_mul from_secs_whole)

lemmas whole_seconds = as_secs_whole from_secs_whole mul_f64_whole small_nat_mul small_nat_div small_nat_rem
  small_nat_sub small_nat_lt small_nat_le f64_le_zero small_nat_to_u64 small_nat_def

end
