(* ===== verification/Schedule_Ticks.thy ===== *)
theory Schedule_Ticks
  imports Whole_Seconds
begin

text \<open>
  What the schedule loop of \<open>Schedule_Loop\<close> guarantees about the ticks it emits: rows that were
  recorded are never lost, nothing is emitted in a silence or after the end, a run without windows
  stays on its grid, and every call of the callback is counted once in the statistics.
\<close>

section \<open>What a step does to the ticks\<close>

definition silent :: "LoopRun \<Rightarrow> nat \<Rightarrow> bool" where
  "silent run k \<longleftrightarrow>
     (case duration_mul_f64 (lr_base_interval run) (f64_of_nat k) of
        None \<Rightarrow> False
      | Some slot \<Rightarrow> still_silent (lr_schedule run) slot)"

definition ticks :: "LoopState \<Rightarrow> nat list" where
  "ticks s = map (\<lambda>(row, ctx). tc_tick ctx) (lp_emitted s)"

text \<open>The part of the state that decides which ticks are emitted, and when.\<close>

definition grid :: "LoopState \<Rightarrow> nat \<times> nat \<times> (nat \<times> TickContext) list" where
  "grid s = (lp_next_deadline s, lp_tick s, lp_emitted s)"

definition periodic_silent :: "ParsedSchedule \<Rightarrow> nat \<Rightarrow> bool" where
  "periodic_silent schedule elapsed \<longleftrightarrow>
     (case ps_gap_window schedule of None \<Rightarrow> False | Some gap \<Rightarrow> is_in_gap elapsed gap)"

definition within_duration :: "ParsedSchedule \<Rightarrow> nat \<Rightarrow> bool" where
  "within_duration schedule elapsed \<longleftrightarrow>
     (case ps_total_duration schedule of None \<Rightarrow> True | Some limit \<Rightarrow> elapsed < limit)"

definition step_context :: "LoopRun \<Rightarrow> Turn \<Rightarrow> LoopState \<Rightarrow> nat \<times> TickContext" where
  "step_context run t s =
     (let elapsed = max (lp_next_deadline s) (tn_now t) - lr_start run
      in (lp_next_deadline s - lr_start run,
          \<lparr> tc_tick = lp_tick s, tc_spike_windows = ps_spike_windows (lr_schedule run),
            tc_dynamic_labels = ps_dynamic_labels (lr_schedule run), tc_elapsed = elapsed,
            tc_wall_clock = wall_at (lr_wall run) (lr_start run) elapsed \<rparr>))"

lemma grid_stats [simp]: "grid (s \<lparr> lp_stats := st \<rparr>) = grid s"
  by (simp add: grid_def)

lemma grid_account:
  "account schedule t in_burst in_spike s = Inr s' \<Longrightarrow> grid s' = grid s"
  "account schedule t in_burst in_spike s = Inl (e, s') \<Longrightarrow> grid s' = grid s"
  by (auto simp: account_def account_ok_def warn_sink_def record_rejected_event_def grid_def Let_def
      split: prod.splits sum.splits SondaError.splits OnSinkError.splits option.splits if_splits)

lemma skip_one_shot_range:
  "skip_one_shot base ws k = Some k' \<Longrightarrow>
   k \<le> k' \<and> (\<forall>j. k \<le> j \<and> j < k' \<longrightarrow>
     (\<exists>slot. duration_mul_f64 base (f64_of_nat j) = Some slot \<and> is_in_gap_window slot ws))"
proof (induction base ws k rule: skip_one_shot.induct)
  case (1 base ws k)
  show ?case
  proof (cases "k = k'")
    case False
    with "1.prems" obtain slot where slot: "\<not> 2 ^ 64 \<le> k" "duration_mul_f64 base (f64_of_nat k) = Some slot"
      "is_in_gap_window slot ws" "skip_one_shot base ws (k + 1) = Some k'"
      by (subst (asm) skip_one_shot.simps) (auto split: if_splits option.splits)
    from "1.IH" [OF slot] have "k + 1 \<le> k' \<and> (\<forall>j. k + 1 \<le> j \<and> j < k' \<longrightarrow>
      (\<exists>slot. duration_mul_f64 base (f64_of_nat j) = Some slot \<and> is_in_gap_window slot ws))" .
    with slot(2,3) show ?thesis by (metis Suc_eq_plus1 le_eq_less_or_eq less_eq_Suc_le)
  qed auto
qed

lemma resume_walk_range:
  "resume_walk schedule base recorded r k = Some k' \<Longrightarrow> recorded \<Longrightarrow>
   k \<le> k' \<and> (\<forall>j. k \<le> j \<and> j < k' \<longrightarrow>
     (\<exists>slot. duration_mul_f64 base (f64_of_nat j) = Some slot \<and> still_silent schedule slot))"
proof (induction schedule base recorded r k rule: resume_walk.induct)
  case (1 schedule base recorded r k)
  show ?case
  proof (cases "k = k'")
    case False
    with "1.prems" obtain slot where slot: "\<not> 2 ^ 64 \<le> k" "duration_mul_f64 base (f64_of_nat k) = Some slot"
      "still_silent schedule slot" "resume_walk schedule base recorded r (k + 1) = Some k'"
      by (subst (asm) resume_walk.simps) (auto simp: Let_def split: if_splits option.splits)
    from "1.IH" [OF slot(1,2) refl _ slot(4) "1.prems"(2)] slot(3)
    have "k + 1 \<le> k' \<and> (\<forall>j. k + 1 \<le> j \<and> j < k' \<longrightarrow>
      (\<exists>slot. duration_mul_f64 base (f64_of_nat j) = Some slot \<and> still_silent schedule slot))" by simp
    with slot(2,3) show ?thesis by (metis Suc_eq_plus1 le_eq_less_or_eq less_eq_Suc_le)
  qed auto
qed

lemma move_to_Continue:
  "move_to run n s = LoopContinue s' \<longleftrightarrow>
   (\<exists>k slot. n = Some k \<and> lr_initial_tick run + k < 2 ^ 64 \<and>
      duration_mul_f64 (lr_base_interval run) (f64_of_nat k) = Some slot \<and>
      s' = s \<lparr> lp_tick := lr_initial_tick run + k, lp_next_deadline := lr_start run + slot \<rparr>)"
  by (auto simp: move_to_def split: option.splits)

lemma move_to_other: "move_to run n s \<noteq> LoopBreak s'" "move_to run n s \<noteq> LoopError e s'"
  by (auto simp: move_to_def split: option.splits)

lemma silentI:
  "duration_mul_f64 (lr_base_interval run) (f64_of_nat k) = Some slot \<Longrightarrow> still_silent (lr_schedule run) slot \<Longrightarrow>
   silent run k"
  by (simp add: silent_def)

text \<open>A run whose tick never moves back: it replays rows, or has no periodic gap.\<close>

definition steady :: "ParsedSchedule \<Rightarrow> bool" where
  "steady schedule \<longleftrightarrow> has_recorded_rows schedule \<or> ps_gap_window schedule = None"

text \<open>The three things a step that goes on can do.\<close>

definition idle_step :: "LoopState \<Rightarrow> LoopState \<Rightarrow> bool" where
  "idle_step s s' \<longleftrightarrow> grid s' = grid s"

definition skip_step :: "LoopRun \<Rightarrow> LoopState \<Rightarrow> LoopState \<Rightarrow> bool" where
  "skip_step run s s' \<longleftrightarrow>
     (\<exists>k slot. lp_emitted s' = lp_emitted s \<and> lp_tick s' = lr_initial_tick run + k \<and>
       lp_next_deadline s' = lr_start run + slot \<and>
       duration_mul_f64 (lr_base_interval run) (f64_of_nat k) = Some slot \<and>
       lp_tick s - lr_initial_tick run \<le> k \<and>
       (\<forall>j. lp_tick s - lr_initial_tick run \<le> j \<and> j < k \<longrightarrow> silent run j))"

lemma gap_step_Continue:
  assumes "gap_step run t elapsed g s = LoopContinue s'" and "steady (lr_schedule run)"
    and "g \<noteq> None \<Longrightarrow> ps_gap_window (lr_schedule run) \<noteq> None"
  shows "idle_step s s' \<or> skip_step run s s'"
proof (cases g)
  case None
  then obtain k slot where k: "skip_one_shot (lr_base_interval run) (ps_gap_windows (lr_schedule run))
      (lp_tick s - lr_initial_tick run) = Some k"
    and s': "duration_mul_f64 (lr_base_interval run) (f64_of_nat k) = Some slot"
      "lp_emitted s' = lp_emitted s" "lp_tick s' = lr_initial_tick run + k"
      "lp_next_deadline s' = lr_start run + slot"
    using assms(1) by (auto simp: gap_step_def move_to_Continue)
  note range = skip_one_shot_range [OF k]
  have "silent run j" if "lp_tick s - lr_initial_tick run \<le> j" "j < k" for j
  proof -
    from range that obtain slot where "duration_mul_f64 (lr_base_interval run) (f64_of_nat j) = Some slot"
      and "is_in_gap_window slot (ps_gap_windows (lr_schedule run))" by blast
    then show ?thesis by (simp add: silent_def still_silent_def)
  qed
  then show ?thesis
    using range s' unfolding skip_step_def by (intro disjI2 exI [of _ k] exI [of _ slot]) simp
next
  case (Some gap)
  then have h: "has_recorded_rows (lr_schedule run)" using assms(2,3) by (auto simp: steady_def)
  show ?thesis
  proof (cases "idle_step s s'")
    case False
    with Some h obtain r k slot where k: "resume_walk (lr_schedule run) (lr_base_interval run) True r
        (lp_tick s - lr_initial_tick run) = Some k"
      and s': "duration_mul_f64 (lr_base_interval run) (f64_of_nat k) = Some slot"
        "lp_emitted s' = lp_emitted s" "lp_tick s' = lr_initial_tick run + k"
        "lp_next_deadline s' = lr_start run + slot"
      using assms(1) by (auto simp: gap_step_def move_to_Continue idle_step_def Let_def split: option.splits if_splits)
    note range = resume_walk_range [OF k TrueI]
    have "silent run j" if "lp_tick s - lr_initial_tick run \<le> j" "j < k" for j
      using range that by (auto intro: silentI)
    then show ?thesis
    using range s' unfolding skip_step_def by (intro disjI2 exI [of _ k] exI [of _ slot]) simp
  qed simp
qed

lemma gap_step_other: "gap_step run t elapsed g s \<noteq> LoopBreak s'" "gap_step run t elapsed g s \<noteq> LoopError e s'"
  by (auto simp: gap_step_def Let_def move_to_other split: option.splits)

definition emits :: "LoopRun \<Rightarrow> Turn \<Rightarrow> LoopState \<Rightarrow> LoopState \<Rightarrow> bool" where
  "emits run t s s' \<longleftrightarrow>
     lp_emitted s' = lp_emitted s @ [step_context run t s] \<and>
     within_duration (lr_schedule run) (tc_elapsed (snd (step_context run t s))) \<and>
     \<not> periodic_silent (lr_schedule run) (tc_elapsed (snd (step_context run t s))) \<and>
     \<not> is_in_gap_window (fst (step_context run t s)) (ps_gap_windows (lr_schedule run))"

definition emit_step_ok :: "LoopRun \<Rightarrow> Turn \<Rightarrow> LoopState \<Rightarrow> LoopState \<Rightarrow> bool" where
  "emit_step_ok run t s s' \<longleftrightarrow> emits run t s s' \<and> lp_tick s' = lp_tick s + 1 \<and>
     (\<exists>in_burst. effective_interval run (tc_elapsed (snd (step_context run t s))) =
        Some (lp_next_deadline s' - lp_next_deadline s, in_burst) \<and> lp_next_deadline s \<le> lp_next_deadline s')"

lemma emit_step_Continue:
  assumes "emit_step run t (max (lp_next_deadline s) (tn_now t)) (max (lp_next_deadline s) (tn_now t) - lr_start run) s
      = LoopContinue s'"
  shows "idle_step s s' \<or>
    (lp_emitted s' = lp_emitted s @ [step_context run t s] \<and> lp_tick s' = lp_tick s + 1 \<and>
     (\<exists>in_burst. effective_interval run (tc_elapsed (snd (step_context run t s))) =
        Some (lp_next_deadline s' - lp_next_deadline s, in_burst) \<and> lp_next_deadline s \<le> lp_next_deadline s'))"
  using assms
  by (auto simp: emit_step_def Let_def idle_step_def step_context_def grid_def
      split: option.splits if_splits sum.splits prod.splits dest!: grid_account(1))

lemma emit_step_Error:
  assumes "emit_step run t (max (lp_next_deadline s) (tn_now t)) (max (lp_next_deadline s) (tn_now t) - lr_start run) s
      = LoopError e s'"
  shows "lp_emitted s' = lp_emitted s @ [step_context run t s] \<and> lp_tick s' = lp_tick s"
  using assms
  by (auto simp: emit_step_def Let_def step_context_def grid_def
      split: option.splits if_splits sum.splits prod.splits dest!: grid_account(2))

lemma emit_step_not_Break: "emit_step run t e el s \<noteq> LoopBreak s'"
  by (auto simp: emit_step_def Let_def split: option.splits sum.splits prod.splits)

lemma loop_step_eq:
  "loop_step run t s =
     (let schedule = lr_schedule run; elapsed = max (lp_next_deadline s) (tn_now t) - lr_start run
      in if tn_cancelled t \<or> \<not> within_duration schedule elapsed then LoopBreak s
         else if periodic_silent schedule elapsed \<or>
                 is_in_gap_window (lp_next_deadline s - lr_start run) (ps_gap_windows schedule)
         then gap_step run t elapsed (if periodic_silent schedule elapsed then ps_gap_window schedule else None) s
         else emit_step run t (max (lp_next_deadline s) (tn_now t)) elapsed s)"
  by (auto simp: loop_step_def Let_def within_duration_def periodic_silent_def split: option.splits)

lemma loop_step_Continue:
  assumes "loop_step run t s = LoopContinue s'" and "steady (lr_schedule run)"
  shows "idle_step s s' \<or> skip_step run s s' \<or> emit_step_ok run t s s'"
proof -
  let ?e = "max (lp_next_deadline s) (tn_now t)"
  let ?el = "?e - lr_start run"
  let ?g = "if periodic_silent (lr_schedule run) ?el then ps_gap_window (lr_schedule run) else None"
  consider (gap) "gap_step run t ?el ?g s = LoopContinue s'"
    | (emit) "emit_step run t ?e ?el s = LoopContinue s'" "within_duration (lr_schedule run) ?el"
      "\<not> periodic_silent (lr_schedule run) ?el"
      "\<not> is_in_gap_window (lp_next_deadline s - lr_start run) (ps_gap_windows (lr_schedule run))"
    using assms(1) by (auto simp: loop_step_eq Let_def split: if_splits)
  then show ?thesis
  proof cases
    case gap
    have "?g \<noteq> None \<Longrightarrow> ps_gap_window (lr_schedule run) \<noteq> None" by (simp split: if_splits)
    from gap_step_Continue [OF gap assms(2) this] show ?thesis by blast
  next
    case emit
    from emit_step_Continue [OF emit(1)] emit(2-4) show ?thesis
      by (auto simp: emit_step_ok_def emits_def step_context_def Let_def)
  qed
qed

lemma gap_step_emitted: "gap_step run t el g s = LoopContinue s' \<Longrightarrow> lp_emitted s' = lp_emitted s"
  by (auto simp: gap_step_def move_to_Continue Let_def split: option.splits if_splits)

lemma loop_step_emitted:
  assumes "loop_step run t s = LoopContinue s' \<or> loop_step run t s = LoopBreak s' \<or> loop_step run t s = LoopError e s'"
  shows "lp_emitted s' = lp_emitted s \<or> emits run t s s'"
proof -
  let ?e = "max (lp_next_deadline s) (tn_now t)"
  let ?el = "?e - lr_start run"
  consider "s' = s" | g where "gap_step run t ?el g s = LoopContinue s'"
    | (emit) "emit_step run t ?e ?el s = LoopContinue s' \<or> emit_step run t ?e ?el s = LoopError e s'"
      "within_duration (lr_schedule run) ?el" "\<not> periodic_silent (lr_schedule run) ?el"
      "\<not> is_in_gap_window (lp_next_deadline s - lr_start run) (ps_gap_windows (lr_schedule run))"
    using assms by (auto simp: loop_step_eq Let_def gap_step_other emit_step_not_Break split: if_splits)
  then show ?thesis
  proof cases
    case emit
    then have "lp_emitted s' = lp_emitted s \<or> lp_emitted s' = lp_emitted s @ [step_context run t s]"
      using emit_step_Continue [of run t s s'] emit_step_Error [of run t s e s'] by (auto simp: idle_step_def grid_def)
    with emit(2-4) show ?thesis by (auto simp: emits_def step_context_def Let_def)
  qed (simp_all add: gap_step_emitted)
qed

section \<open>The ticks of a run\<close>

definition rows_kept :: "LoopRun \<Rightarrow> nat list \<Rightarrow> nat \<Rightarrow> bool" where
  "rows_kept run emitted n \<longleftrightarrow>
     (\<forall>k. lr_initial_tick run \<le> k \<and> k < n \<longrightarrow> k \<in> set emitted \<or> silent run (k - lr_initial_tick run))"

definition ticks_inv :: "LoopRun \<Rightarrow> LoopState \<Rightarrow> bool" where
  "ticks_inv run s \<longleftrightarrow>
     lr_initial_tick run \<le> lp_tick s \<and> sorted_wrt (<) (ticks s) \<and>
     set (ticks s) \<subseteq> {lr_initial_tick run..<lp_tick s} \<and> rows_kept run (ticks s) (lp_tick s)"

lemma ticks_inv_start: "ticks_inv run (loop_start run stats)"
  by (auto simp: ticks_inv_def ticks_def loop_start_def rows_kept_def)

lemma ticks_inv_skip:
  assumes "ticks_inv run s" and "skip_step run s s'"
  shows "ticks_inv run s'"
proof -
  from assms(2) obtain k where e: "lp_emitted s' = lp_emitted s" and t: "lp_tick s' = lr_initial_tick run + k"
    and le: "lp_tick s - lr_initial_tick run \<le> k"
    and sil: "\<And>j. lp_tick s - lr_initial_tick run \<le> j \<Longrightarrow> j < k \<Longrightarrow> silent run j"
    by (auto simp: skip_step_def)
  have "rows_kept run (ticks s) (lp_tick s')"
    unfolding rows_kept_def
  proof (intro allI impI)
    fix j assume j: "lr_initial_tick run \<le> j \<and> j < lp_tick s'"
    show "j \<in> set (ticks s) \<or> silent run (j - lr_initial_tick run)"
    proof (cases "j < lp_tick s")
      case True
      with assms(1) j show ?thesis by (auto simp: ticks_inv_def rows_kept_def)
    next
      case False
      with j t show ?thesis by (intro disjI2 sil) auto
    qed
  qed
  moreover have "lp_tick s \<le> lp_tick s'" using le t assms(1) by (simp add: ticks_inv_def)
  ultimately show ?thesis using assms(1) e unfolding ticks_inv_def ticks_def by fastforce
qed

lemma ticks_inv_emit:
  assumes "ticks_inv run s" and "emit_step_ok run t s s'"
  shows "ticks_inv run s'"
proof -
  have "ticks s' = ticks s @ [lp_tick s]" and "lp_tick s' = lp_tick s + 1"
    using assms(2) by (simp_all add: emit_step_ok_def emits_def ticks_def step_context_def Let_def)
  with assms(1) show ?thesis
    by (auto simp: ticks_inv_def rows_kept_def sorted_wrt_append less_Suc_eq)
qed

lemma ticks_inv_step:
  assumes "ticks_inv run s" and "loop_step run t s = LoopContinue s'" and "steady (lr_schedule run)"
  shows "ticks_inv run s'"
proof -
  have "ticks_inv run s'" if "idle_step s s'"
    using that assms(1) by (simp add: idle_step_def grid_def ticks_inv_def ticks_def)
  then show ?thesis
    using loop_step_Continue [OF assms(2,3)] ticks_inv_skip [OF assms(1)] ticks_inv_emit [OF assms(1)] by blast
qed

lemma loop_step_Break: "loop_step run t s = LoopBreak s' \<Longrightarrow> s' = s"
  by (auto simp: loop_step_eq Let_def gap_step_other emit_step_not_Break split: if_splits)

lemma schedule_loop_invariant:
  assumes "\<And>t s s'. P s \<Longrightarrow> loop_step run t s = LoopContinue s' \<Longrightarrow> P s'"
    and "P s" and "schedule_loop run ts s = LoopContinue s' \<or> schedule_loop run ts s = LoopBreak s'"
  shows "P s'"
  using assms(2,3)
proof (induction ts arbitrary: s)
  case (Cons t ts)
  then show ?case
    by (auto split: StepResult.splits dest: loop_step_Break intro: assms(1))
qed auto

text \<open>
  C1. A row is never lost. In a run that replays recorded rows, or has no periodic gap, the tick
  callback is called for strictly increasing ticks from the initial one, and every tick below the
  counter was emitted or lies in a declared silence by its own grid slot, however late the loop ran,
  whatever the clock, the sink and the callback did.
\<close>

theorem recorded_rows_kept:
  assumes "steady (lr_schedule run)"
    and "schedule_loop run ts (loop_start run stats) = LoopContinue s \<or>
         schedule_loop run ts (loop_start run stats) = LoopBreak s"
  shows "sorted_wrt (<) (ticks s) \<and> set (ticks s) \<subseteq> {lr_initial_tick run..<lp_tick s} \<and>
    (\<forall>k. lr_initial_tick run \<le> k \<and> k < lp_tick s \<longrightarrow>
       k \<in> set (ticks s) \<or> silent run (k - lr_initial_tick run))"
proof -
  have "ticks_inv run s"
    by (rule schedule_loop_invariant [of "ticks_inv run" run])
       (use assms ticks_inv_start ticks_inv_step in blast)+
  then show ?thesis by (simp add: ticks_inv_def rows_kept_def)
qed

section \<open>When a tick is emitted\<close>

fun loop_state :: "StepResult \<Rightarrow> LoopState option" where
  "loop_state (LoopContinue s) = Some s"
| "loop_state (LoopBreak s) = Some s"
| "loop_state (LoopError e s) = Some s"
| "loop_state LoopPanic = None"

lemma loop_state_Some:
  "loop_state r = Some s \<longleftrightarrow> r = LoopContinue s \<or> r = LoopBreak s \<or> (\<exists>e. r = LoopError e s)"
  by (cases r) auto

definition emission_ok :: "LoopRun \<Rightarrow> Turn set \<Rightarrow> nat \<times> TickContext \<Rightarrow> bool" where
  "emission_ok run turns em \<longleftrightarrow>
     (let (row, ctx) = em; schedule = lr_schedule run
      in within_duration schedule (tc_elapsed ctx) \<and> \<not> periodic_silent schedule (tc_elapsed ctx) \<and>
         \<not> is_in_gap_window row (ps_gap_windows schedule) \<and>
         (tc_elapsed ctx = row \<or> (\<exists>t \<in> turns. row < tc_elapsed ctx \<and> tc_elapsed ctx = tn_now t - lr_start run)) \<and>
         tc_wall_clock ctx = wall_at (lr_wall run) (lr_start run) (tc_elapsed ctx))"

lemma emits_ok:
  assumes "emits run t s s'" and "t \<in> turns"
  shows "emission_ok run turns (step_context run t s)"
proof -
  have "tc_elapsed (snd (step_context run t s)) = fst (step_context run t s) \<or>
      (fst (step_context run t s) < tc_elapsed (snd (step_context run t s)) \<and>
       tc_elapsed (snd (step_context run t s)) = tn_now t - lr_start run)"
    by (auto simp: step_context_def Let_def max_def)
  with assms show ?thesis
    by (auto simp: emits_def emission_ok_def Let_def split: prod.splits) (simp_all add: step_context_def Let_def)
qed

lemma schedule_loop_emissions:
  assumes "loop_state (schedule_loop run ts s) = Some s'" and "set ts \<subseteq> turns"
    and "\<forall>em \<in> set (lp_emitted s). emission_ok run turns em"
  shows "\<forall>em \<in> set (lp_emitted s'). emission_ok run turns em"
  using assms
proof (induction ts arbitrary: s)
  case (Cons t ts)
  have step: "\<forall>em \<in> set (lp_emitted s1). emission_ok run turns em" if "loop_state (loop_step run t s) = Some s1" for s1
  proof -
    have "lp_emitted s1 = lp_emitted s \<or> emits run t s s1"
      using that loop_step_emitted [of run t s s1] by (auto simp: loop_state_Some)
    then show ?thesis
      using Cons.prems(2,3) emits_ok [of run t s s1 turns] by (auto simp: emits_def)
  qed
  show ?case
  proof (cases "loop_step run t s")
    case (LoopContinue s1)
    with Cons show ?thesis using step [of s1] by auto
  qed (use Cons.prems step in auto)
qed auto

text \<open>
  C8. No event is emitted outside its time. Every call of the tick callback - also the one whose
  error ends the loop - happens before the duration expires, at an instant outside the periodic gap and
  for a grid slot outside every one-shot window; the instant is the slot itself while the loop keeps
  up and a reading of the clock behind the slot once it has fallen behind, and the time stamp
  is the scenario's anchor plus that instant.
\<close>

theorem emissions_in_time:
  assumes "loop_state (schedule_loop run ts (loop_start run stats)) = Some s"
  shows "\<forall>em \<in> set (lp_emitted s). emission_ok run (set ts) em"
  by (rule schedule_loop_emissions [OF assms]) (simp_all add: loop_start_def)

lemma emission_not_early: "emission_ok run turns em \<Longrightarrow> fst em \<le> tc_elapsed (snd em)"
  by (cases em) (auto simp: emission_ok_def Let_def)

section \<open>The grid of a run without windows\<close>

definition plain :: "ParsedSchedule \<Rightarrow> bool" where
  "plain schedule \<longleftrightarrow> ps_gap_window schedule = None \<and> ps_gap_windows schedule = [] \<and> ps_burst_window schedule = None"

definition on_grid :: "LoopRun \<Rightarrow> LoopState \<Rightarrow> bool" where
  "on_grid run s \<longleftrightarrow>
     lp_next_deadline s = lr_start run + length (lp_emitted s) * lr_base_interval run \<and>
     lp_tick s = lr_initial_tick run + length (lp_emitted s) \<and>
     (\<forall>i < length (lp_emitted s). fst (lp_emitted s ! i) = i * lr_base_interval run \<and>
        tc_tick (snd (lp_emitted s ! i)) = lr_initial_tick run + i)"

lemma plain_step:
  assumes "loop_step run t s = LoopContinue s'" and "plain (lr_schedule run)"
  shows "idle_step s s' \<or>
    (lp_emitted s' = lp_emitted s @ [step_context run t s] \<and> lp_tick s' = lp_tick s + 1 \<and>
     lp_next_deadline s' = lp_next_deadline s + lr_base_interval run)"
proof -
  have "emit_step run t (max (lp_next_deadline s) (tn_now t))
      (max (lp_next_deadline s) (tn_now t) - lr_start run) s = LoopContinue s'"
    using assms by (auto simp: loop_step_eq Let_def plain_def periodic_silent_def is_in_gap_window_def split: if_splits)
  from emit_step_Continue [OF this] assms(2) show ?thesis
    by (auto simp: effective_interval_def plain_def)
qed

lemma on_grid_step:
  assumes "on_grid run s" and "loop_step run t s = LoopContinue s'" and "plain (lr_schedule run)"
  shows "on_grid run s'"
  using plain_step [OF assms(2,3)]
proof
  assume "idle_step s s'"
  with assms(1) show ?thesis by (simp add: idle_step_def grid_def on_grid_def)
next
  assume "lp_emitted s' = lp_emitted s @ [step_context run t s] \<and> lp_tick s' = lp_tick s + 1 \<and>
     lp_next_deadline s' = lp_next_deadline s + lr_base_interval run"
  with assms(1) show ?thesis
    by (auto simp: on_grid_def nth_append less_Suc_eq step_context_def Let_def)
qed

text \<open>
  C34. Without gaps and bursts the loop stays on its grid: the \<open>i\<close>th call of the callback is for the tick
  \<open>i\<close> after the initial one and for the slot \<open>i\<close> times the interval, exactly, and it comes no earlier
  than its slot, however long the run and however often it fell behind.
\<close>

theorem rows_play_at_their_slot:
  assumes "plain (lr_schedule run)"
    and "schedule_loop run ts (loop_start run stats) = LoopContinue s \<or>
         schedule_loop run ts (loop_start run stats) = LoopBreak s"
  shows "\<forall>i < length (lp_emitted s). fst (lp_emitted s ! i) = i * lr_base_interval run \<and>
        tc_tick (snd (lp_emitted s ! i)) = lr_initial_tick run + i \<and>
        i * lr_base_interval run \<le> tc_elapsed (snd (lp_emitted s ! i))"
proof -
  have start: "on_grid run (loop_start run stats)" by (simp add: on_grid_def loop_start_def)
  have grid: "on_grid run s" using on_grid_step [OF _ _ assms(1)] start assms(2) by (rule schedule_loop_invariant)
  have "loop_state (schedule_loop run ts (loop_start run stats)) = Some s"
    using assms(2) by (auto simp: loop_state_Some)
  then have em: "\<forall>em \<in> set (lp_emitted s). emission_ok run (set ts) em"
    by (rule schedule_loop_emissions) (simp_all add: loop_start_def)
  have "fst (lp_emitted s ! i) \<le> tc_elapsed (snd (lp_emitted s ! i))" if "i < length (lp_emitted s)" for i
    using bspec [OF em nth_mem [OF that]] by (rule emission_not_early)
  with grid show ?thesis by (simp add: on_grid_def)
qed

section \<open>Statistics\<close>

definition counts :: "ScenarioStats \<Rightarrow> u64 \<times> u64 \<times> u64 \<times> u64" where
  "counts st = (ss_total_events st, ss_total_sink_failures st, ss_rejected_events st, ss_errors st)"

definition counted :: "LoopState \<Rightarrow> bool" where
  "counted s \<longleftrightarrow>
     (case lp_stats s of
        None \<Rightarrow> True
      | Some st \<Rightarrow>
          unat (ss_total_events st) + unat (ss_total_sink_failures st) + unat (ss_rejected_events st) =
            length (lp_emitted s) \<and>
          unat (ss_errors st) = unat (ss_total_sink_failures st) + unat (ss_rejected_events st))"

lemma counts_simps [simp]:
  "counts (set_windows b sp st) = counts st"
  "counts (push_metric ev st) = counts st"
  "counts (fold push_metric evs st) = counts st"
proof -
  show p: "counts (push_metric ev st) = counts st" for ev st
    by (simp add: counts_def push_metric_def Let_def)
  show "counts (fold push_metric evs st) = counts st"
    by (induction evs arbitrary: st) (simp_all add: p)
qed (simp add: counts_def set_windows_def)

lemma unat_succ_u64: "unat v < 2 ^ 64 - 1 \<Longrightarrow> unat (v + 1) = unat v + 1" for v :: u64
  by (simp add: unat_word_ariths)

lemma unat_saturating_succ: "unat v < 2 ^ 64 - 1 \<Longrightarrow> unat (saturating_succ v) = unat v + 1"
proof -
  assume v: "unat v < 2 ^ 64 - 1"
  have "unat (- 1 :: u64) = 2 ^ 64 - 1"
    by (simp add: unsigned_minus_1_eq_mask mask_eq_exp_minus_1)
  with v have "v \<noteq> - 1" by auto
  with v show ?thesis by (simp add: saturating_succ_def unat_succ_u64)
qed

text \<open>One tick counted: as an event, as a failure of the sink, or as a rejected event.\<close>

definition one_more :: "ScenarioStats \<Rightarrow> ScenarioStats \<Rightarrow> bool" where
  "one_more st st' \<longleftrightarrow>
     counts st' = (ss_total_events st + 1, ss_total_sink_failures st, ss_rejected_events st, ss_errors st) \<or>
     counts st' = (ss_total_events st, saturating_succ (ss_total_sink_failures st), ss_rejected_events st,
       saturating_succ (ss_errors st)) \<or>
     counts st' = (ss_total_events st, ss_total_sink_failures st, saturating_succ (ss_rejected_events st),
       saturating_succ (ss_errors st))"

lemma one_more_ok: "one_more st (stats_ok result events rate unix b sp st)"
  by (simp add: one_more_def stats_ok_def Let_def) (simp add: counts_def set_windows_def)

lemma one_more_failure: "one_more st (set_windows b sp (record_sink_failure err st))"
  by (simp add: one_more_def) (simp add: counts_def record_sink_failure_def)

lemma one_more_rejected: "one_more st (set_windows b sp (count_rejected st))"
  by (simp add: one_more_def) (simp add: counts_def count_rejected_def)

definition one_more_in :: "LoopState \<Rightarrow> LoopState \<Rightarrow> bool" where
  "one_more_in s s' \<longleftrightarrow>
     (case lp_stats s of None \<Rightarrow> lp_stats s' = None | Some st \<Rightarrow> \<exists>st'. lp_stats s' = Some st' \<and> one_more st st')"

lemma account_ok_one_more: "one_more_in s (account_ok t result events b sp s)"
  by (cases "lp_stats s") (simp_all add: one_more_in_def account_ok_def one_more_ok Let_def)

lemma stats_one_more:
  assumes "\<And>st. one_more st (f st)" and "lp_stats s' = map_option f (lp_stats s)"
  shows "one_more_in s s'"
  using assms by (cases "lp_stats s") (simp_all add: one_more_in_def)

lemma account_one_more:
  assumes "account schedule t b sp s = Inr s'"
  shows "one_more_in s s'"
proof (cases "tick_outcome t")
  case (Pair r from_sink)
  show ?thesis
  proof (cases r)
    case (Inr v)
    with Pair assms show ?thesis by (auto simp: account_def account_ok_one_more split: prod.splits)
  next
    case (Inl e)
    note a = assms [unfolded account_def Pair Inl, simplified]
    show ?thesis
    proof (cases e)
      case (SinkError io)
      then have "lp_stats s' = map_option (\<lambda>st. set_windows b sp (record_sink_failure io st)) (lp_stats s)"
        using a by (auto split: OnSinkError.splits)
      then show ?thesis by (rule stats_one_more [OF one_more_failure])
    next
      case (EventRejected reason)
      then have "lp_stats s' = map_option (\<lambda>st. set_windows b sp (count_rejected st)) (lp_stats s)"
        using a by (auto simp: record_rejected_event_def Let_def option.map_comp o_def split: prod.splits)
      then show ?thesis by (rule stats_one_more [OF one_more_rejected])
    qed (use a in \<open>auto split: if_splits\<close>)
  qed
qed

lemma counted_one_more:
  assumes "unat (ss_total_events st) + unat (ss_total_sink_failures st) + unat (ss_rejected_events st) = n"
    and "unat (ss_errors st) = unat (ss_total_sink_failures st) + unat (ss_rejected_events st)"
    and "one_more st st'" and "n < 2 ^ 64 - 1"
  shows "unat (ss_total_events st') + unat (ss_total_sink_failures st') + unat (ss_rejected_events st') = n + 1 \<and>
    unat (ss_errors st') = unat (ss_total_sink_failures st') + unat (ss_rejected_events st')"
  using assms by (auto simp: one_more_def counts_def unat_saturating_succ unat_succ_u64)

lemma emit_step_account:
  assumes "emit_step run t (max (lp_next_deadline s) (tn_now t)) (max (lp_next_deadline s) (tn_now t) - lr_start run) s
      = LoopContinue s'"
  shows "s' = s \<or> (\<exists>interval b sp s2.
    account (lr_schedule run) t b sp (s \<lparr> lp_emitted := lp_emitted s @ [step_context run t s] \<rparr>) = Inr s2 \<and>
    s' = s2 \<lparr> lp_next_deadline := lp_next_deadline s2 + interval, lp_tick := lp_tick s2 + 1 \<rparr>)"
  using assms
  by (auto simp: emit_step_def step_context_def Let_def split: option.splits prod.splits if_splits sum.splits)

lemma counted_account:
  assumes "counted s" and "account schedule t b sp (s \<lparr> lp_emitted := lp_emitted s @ [em] \<rparr>) = Inr s2"
    and "length (lp_emitted s) < 2 ^ 64 - 1"
  shows "counted s2"
proof -
  have len: "length (lp_emitted s2) = length (lp_emitted s) + 1"
    using grid_account(1) [OF assms(2)] by (simp add: grid_def)
  show ?thesis
  proof (cases "lp_stats s")
    case None
    with account_one_more [OF assms(2)] show ?thesis by (simp add: counted_def one_more_in_def)
  next
    case (Some st)
    with account_one_more [OF assms(2)] obtain st' where st': "lp_stats s2 = Some st'" "one_more st st'"
      by (auto simp: one_more_in_def)
    from assms(1) Some have "unat (ss_total_events st) + unat (ss_total_sink_failures st) +
        unat (ss_rejected_events st) = length (lp_emitted s)"
      "unat (ss_errors st) = unat (ss_total_sink_failures st) + unat (ss_rejected_events st)"
      by (simp_all add: counted_def)
    from counted_one_more [OF this st'(2) assms(3)] st'(1) len show ?thesis by (simp add: counted_def)
  qed
qed

lemma counted_step:
  assumes "counted s" and "loop_step run t s = LoopContinue s'" and "length (lp_emitted s') < 2 ^ 64"
  shows "counted s'"
proof -
  let ?e = "max (lp_next_deadline s) (tn_now t)"
  let ?el = "?e - lr_start run"
  consider g where "gap_step run t ?el g s = LoopContinue s'" | (emit) "emit_step run t ?e ?el s = LoopContinue s'"
    using assms(2) by (auto simp: loop_step_eq Let_def split: if_splits)
  then show ?thesis
  proof cases
    case 1
    then have "lp_stats s' = map_option (\<lambda>st. st \<lparr> ss_in_gap := True, ss_in_burst := False \<rparr>) (lp_stats s)"
      "lp_emitted s' = lp_emitted s"
      by (auto simp: gap_step_def move_to_Continue Let_def split: option.splits if_splits)
    with assms(1) show ?thesis by (auto simp: counted_def split: option.splits)
  next
    case emit
    from emit_step_account [OF this] show ?thesis
    proof
      assume "\<exists>interval b sp s2.
        account (lr_schedule run) t b sp (s \<lparr> lp_emitted := lp_emitted s @ [step_context run t s] \<rparr>) = Inr s2 \<and>
        s' = s2 \<lparr> lp_next_deadline := lp_next_deadline s2 + interval, lp_tick := lp_tick s2 + 1 \<rparr>"
      then obtain interval b sp s2 where acc:
          "account (lr_schedule run) t b sp (s \<lparr> lp_emitted := lp_emitted s @ [step_context run t s] \<rparr>) = Inr s2"
        and s': "s' = s2 \<lparr> lp_next_deadline := lp_next_deadline s2 + interval, lp_tick := lp_tick s2 + 1 \<rparr>"
        by blast
      have "length (lp_emitted s') = length (lp_emitted s) + 1"
        using grid_account(1) [OF acc] s' by (simp add: grid_def)
      with assms(3) have "counted s2" by (intro counted_account [OF assms(1) acc]) simp
      moreover have "lp_stats s' = lp_stats s2" "lp_emitted s' = lp_emitted s2" using s' by simp_all
      ultimately show ?thesis by (simp only: counted_def)
    qed (use assms(1) in simp)
  qed
qed

lemma loop_step_longer: "loop_step run t s = LoopContinue s' \<Longrightarrow> length (lp_emitted s) \<le> length (lp_emitted s')"
  using loop_step_emitted [of run t s s'] by (auto simp: emits_def)

text \<open>
  C30. Every tick is accounted for exactly once. After any number of iterations, the events counted, the
  failures of the sink and the rejected events add up to the calls of the tick callback, and the errors
  are the failures and the rejections.
\<close>

theorem every_tick_counted:
  assumes "schedule_loop run ts (loop_start run (Some ScenarioStats_default)) = LoopContinue s \<or>
         schedule_loop run ts (loop_start run (Some ScenarioStats_default)) = LoopBreak s"
    and "lp_stats s = Some st" and "length (lp_emitted s) < 2 ^ 64"
  shows "unat (ss_total_events st) + unat (ss_total_sink_failures st) + unat (ss_rejected_events st) =
           length (lp_emitted s) \<and>
         unat (ss_errors st) = unat (ss_total_sink_failures st) + unat (ss_rejected_events st)"
proof -
  let ?P = "\<lambda>s. length (lp_emitted s) < 2 ^ 64 \<longrightarrow> counted s"
  have start: "?P (loop_start run (Some ScenarioStats_default))"
    by (simp add: counted_def loop_start_def ScenarioStats_default_def)
  have step: "?P s'" if "?P s" "loop_step run t s = LoopContinue s'" for t s s'
    using that counted_step loop_step_longer le_less_trans by blast
  have "?P s" using step start assms(1) by (rule schedule_loop_invariant)
  with assms(2,3) show ?thesis by (simp add: counted_def)
qed

section \<open>Concrete runs\<close>

definition bare_schedule :: ParsedSchedule where
  "bare_schedule = \<lparr> ps_replays_recorded_rows = False, ps_total_duration = None, ps_gap_window = None,
     ps_gap_windows = [], ps_burst_window = None, ps_spike_windows = [], ps_dynamic_labels = [],
     ps_on_sink_error = Warn, ps_name = ''demo'', ps_start_time = StartNow \<rparr>"

definition run_of :: "ParsedSchedule \<Rightarrow> nat \<Rightarrow> nat \<Rightarrow> LoopRun" where
  "run_of schedule interval initial_tick = \<lparr> lr_overflow_checks = True, lr_schedule = schedule, lr_base_interval = interval, lr_start = 0,
     lr_wall = \<lparr> wc_base = 0, wc_scenario_start = 0 \<rparr>, lr_initial_tick = initial_tick \<rparr>"

text \<open>A turn at the instant \<open>now\<close> in which the tick and its write succeed.\<close>

definition good_turn :: "nat \<Rightarrow> Turn" where
  "good_turn now = \<lparr> tn_cancelled = False, tn_now = now, tn_before_sleep = now, tn_sleep_cancelled = False,
     tn_tick = Inr (\<lparr> tr_bytes_written = 1, tr_delivered = False \<rparr>, []), tn_writes = [Inr True], tn_after = now,
     tn_window_now = now, tn_unix_nanos = None \<rparr>"

lemma no_window_end: "time_until_gap_window_end elapsed [] = 0"
  by (simp add: time_until_gap_window_end_def gap_walk.simps)

lemmas run_simps = no_window_end loop_step_def gap_step_def emit_step_def move_to_def effective_interval_def account_def account_ok_def
  tick_outcome_def rate_underflows_def drain_writes_def is_in_gap_window_def gap_covers_def OneShotGap_end_def DURATION_MAX_def
  has_recorded_rows_def still_silent_def skip_one_shot.simps resume_walk.simps is_in_gap_def is_in_burst_def
  time_until_gap_end_def Let_def whole_seconds run_of_def good_turn_def bare_schedule_def loop_start_def ticks_def

definition replay :: LoopRun where
  "replay = run_of (bare_schedule \<lparr> ps_gap_windows := [\<lparr> og_at = 1000000000, og_duration = 1000000000 \<rparr>] \<rparr>) 1000000000 0"

lemma replay_run:
  "\<exists>s. schedule_loop replay [good_turn 0, good_turn 3000000000, good_turn 3000000000] (loop_start replay None) =
       LoopContinue s \<and> ticks s = [0, 2] \<and> lp_tick s = 3"
  by (simp add: replay_def run_simps)

theorem recorded_rows_kept_witness:
  "\<exists>s. schedule_loop replay [good_turn 0, good_turn 3000000000, good_turn 3000000000] (loop_start replay None) =
       LoopContinue s \<and> ticks s = [0, 2] \<and> lp_tick s = 3 \<and> silent replay 1"
proof -
  obtain s where s: "schedule_loop replay [good_turn 0, good_turn 3000000000, good_turn 3000000000]
      (loop_start replay None) = LoopContinue s" "ticks s = [0, 2]" "lp_tick s = 3"
    using replay_run by blast
  have "steady (lr_schedule replay)"
    by (simp add: steady_def has_recorded_rows_def replay_def run_of_def)
  from recorded_rows_kept [OF this disjI1 [OF s(1)]]
  have rows: "\<forall>k. lr_initial_tick replay \<le> k \<and> k < lp_tick s \<longrightarrow>
      k \<in> set (ticks s) \<or> silent replay (k - lr_initial_tick replay)" by blast
  have "lr_initial_tick replay = 0" by (simp add: replay_def run_of_def)
  with spec [OF rows, of 1] s(2,3) have "silent replay 1" by simp
  with s show ?thesis by auto
qed

theorem emissions_in_time_witness:
  "\<exists>s. loop_state (schedule_loop replay [good_turn 0, good_turn 3000000000, good_turn 3000000000]
         (loop_start replay None)) = Some s \<and> length (lp_emitted s) = 2 \<and>
       (\<forall>em \<in> set (lp_emitted s).
          emission_ok replay (set [good_turn 0, good_turn 3000000000, good_turn 3000000000]) em)"
proof -
  obtain s where s: "schedule_loop replay [good_turn 0, good_turn 3000000000, good_turn 3000000000]
      (loop_start replay None) = LoopContinue s" "ticks s = [0, 2]"
    using replay_run by blast
  then have r: "loop_state (schedule_loop replay [good_turn 0, good_turn 3000000000, good_turn 3000000000]
      (loop_start replay None)) = Some s" by simp
  have "length (lp_emitted s) = 2" using arg_cong [OF s(2), of length] by (simp add: ticks_def)
  with r emissions_in_time [OF r] show ?thesis by blast
qed

definition synthetic :: LoopRun where
  "synthetic = run_of bare_schedule 1000000000 100"

lemma synthetic_run:
  "\<exists>s. schedule_loop synthetic [good_turn 0, good_turn 5000000000] (loop_start synthetic None) = LoopContinue s \<and>
       length (lp_emitted s) = 2"
  by (simp add: synthetic_def run_simps)

theorem rows_play_at_their_slot_witness:
  "\<exists>s. schedule_loop synthetic [good_turn 0, good_turn 5000000000] (loop_start synthetic None) = LoopContinue s \<and>
       length (lp_emitted s) = 2 \<and> fst (lp_emitted s ! 1) = 1000000000 \<and> tc_tick (snd (lp_emitted s ! 1)) = 101"
proof -
  obtain s where s: "schedule_loop synthetic [good_turn 0, good_turn 5000000000] (loop_start synthetic None) =
      LoopContinue s" "length (lp_emitted s) = 2"
    using synthetic_run by blast
  have "plain (lr_schedule synthetic)" by (simp add: plain_def synthetic_def run_of_def bare_schedule_def)
  from rows_play_at_their_slot [OF this disjI1 [OF s(1)]] s show ?thesis
    by (auto simp: synthetic_def run_of_def)
qed

definition bad_turn :: "SondaError \<Rightarrow> Turn" where
  "bad_turn e = (good_turn 0) \<lparr> tn_tick := Inl e \<rparr>"

lemma counted_run:
  "\<exists>s st. schedule_loop synthetic [good_turn 0, bad_turn (SinkError ''refused''), bad_turn (EventRejected ''nan'')]
       (loop_start synthetic (Some ScenarioStats_default)) = LoopContinue s \<and> lp_stats s = Some st \<and>
     length (lp_emitted s) = 3 \<and> ss_total_events st = 1"
  by (simp add: synthetic_def bad_turn_def warn_sink_def limiter_record_def SinkErrorRateLimiter_new_def
      record_rejected_event_def stats_ok_def set_windows_def count_rejected_def record_sink_failure_def
      ScenarioStats_default_def run_simps)

theorem every_tick_counted_witness:
  "\<exists>s st. schedule_loop synthetic [good_turn 0, bad_turn (SinkError ''refused''), bad_turn (EventRejected ''nan'')]
       (loop_start synthetic (Some ScenarioStats_default)) = LoopContinue s \<and> lp_stats s = Some st \<and>
     unat (ss_errors st) = 2"
proof -
  obtain s st where s: "schedule_loop synthetic
      [good_turn 0, bad_turn (SinkError ''refused''), bad_turn (EventRejected ''nan'')]
      (loop_start synthetic (Some ScenarioStats_default)) = LoopContinue s" "lp_stats s = Some st"
    "length (lp_emitted s) = 3" "ss_total_events st = 1"
    using counted_run by blast
  from every_tick_counted [OF disjI1 [OF s(1)] s(2)] s show ?thesis by auto
qed

section \<open>Where the loop departs from its documentation\<close>

text \<open>
  A burst runs ahead of the grid, and the synthetic walk after a periodic gap goes back to it: the
  tick counter, documented as increasing, returns to a tick that was emitted before.
\<close>

lemma burst_then_gap:
  "\<exists>s. schedule_loop (run_of (bare_schedule \<lparr>
         ps_burst_window := Some \<lparr> bw_every = 8000000000, bw_duration = 2000000000, bw_multiplier = f64_of_nat 4 \<rparr>,
         ps_gap_window := Some \<lparr> gw_every = 8000000000, gw_duration = 2000000000 \<rparr> \<rparr>) 4000000000 0)
       [good_turn 0, good_turn 1000000000, good_turn 2000000000, good_turn 6000000000, good_turn 8000000000]
       (loop_start (run_of bare_schedule 4000000000 0) None) = LoopContinue s \<and> ticks s = [0, 1, 2, 2]"
  by (simp add: run_simps)

text \<open>
  \<open>rate_window_tick\<close> starts at 0 also when the loop resumes at a later tick: one second after a resume at tick 100,
  a scenario of one event per second reports a rate of 101.
\<close>

lemma rate_after_resume:
  "\<exists>s st. schedule_loop synthetic [good_turn 0, good_turn 1000000000]
       (loop_start synthetic (Some ScenarioStats_default)) = LoopContinue s \<and> lp_stats s = Some st \<and>
     ss_current_rate st = f64_of_nat 101"
  by (simp add: synthetic_def stats_ok_def set_windows_def ScenarioStats_default_def run_simps)

end
