(* ===== verification/Gated_Loop.thy ===== *)
theory Gated_Loop
  imports Schedule_Ticks
begin

text \<open>
  The lifecycle gate around the schedule loop (\<open>gated_loop\<close> of \<open>schedule/core_loop.rs\<close>): the states
  pending, running, paused, held and unresolved, the debounce timers, the running segments with the drain of the
  gate's edges after every tick, and the close-emit. As in \<open>Schedule_Loop\<close>, what an iteration learns from
  outside is an argument, here a \<open>Round\<close>, and the loop is a function of the list of its rounds. The history
  \<open>gd_trace\<close> records the edges taken from the receiver, the calls of the tick callback, the close-emits
  and the states written.
\<close>

section \<open>Debounce\<close>

record DelayClause =
  dc_open :: "nat option"
  dc_close :: "nat option"

record DebounceState =
  db_delay_open :: nat
  db_delay_close :: nat
  db_pending_open_at :: "nat option"
  db_pending_close_at :: "nat option"

definition DebounceState_from_clause :: "DelayClause option \<Rightarrow> DebounceState" where
  "DebounceState_from_clause clause =
     (let (delay_open, delay_close) = (case clause of
            Some c \<Rightarrow> (unwrap_or (dc_open c) 0, unwrap_or (dc_close c) 0)
          | None \<Rightarrow> (0, 0))
      in \<lparr> db_delay_open = delay_open, db_delay_close = delay_close,
           db_pending_open_at = None, db_pending_close_at = None \<rparr>)"

definition debounce_observe :: "GateEdge \<Rightarrow> nat \<Rightarrow> DebounceState \<Rightarrow> DebounceState" where
  "debounce_observe edge now d =
     (case edge of
        WhileOpen \<Rightarrow> d \<lparr> db_pending_close_at := None,
          db_pending_open_at := Some (if db_delay_open d = 0 then now else now + db_delay_open d) \<rparr>
      | WhileClose \<Rightarrow> d \<lparr> db_pending_open_at := None,
          db_pending_close_at := Some (if db_delay_close d = 0 then now else now + db_delay_close d) \<rparr>
      | AfterFired \<Rightarrow> d
      | UpstreamGone \<Rightarrow> d)"

definition sooner :: "nat \<Rightarrow> nat option \<Rightarrow> nat option \<Rightarrow> nat option" where
  "sooner now soonest due_at =
     (case due_at of
        None \<Rightarrow> soonest
      | Some t \<Rightarrow> Some (case soonest of Some s \<Rightarrow> min s (t - now) | None \<Rightarrow> t - now))"

definition debounce_next_wakeup :: "nat \<Rightarrow> DebounceState \<Rightarrow> nat option" where
  "debounce_next_wakeup now d = foldl (sooner now) None [db_pending_open_at d, db_pending_close_at d]"

definition debounce_fire_if_due :: "nat \<Rightarrow> DebounceState \<Rightarrow> GateEdge option \<times> DebounceState" where
  "debounce_fire_if_due now d =
     (if (case db_pending_open_at d of Some t \<Rightarrow> t \<le> now | None \<Rightarrow> False)
      then (Some WhileOpen, d \<lparr> db_pending_open_at := None \<rparr>)
      else if (case db_pending_close_at d of Some t \<Rightarrow> t \<le> now | None \<Rightarrow> False)
      then (Some WhileClose, d \<lparr> db_pending_close_at := None \<rparr>)
      else (None, d))"

definition debounce_reset :: "DebounceState \<Rightarrow> DebounceState" where
  "debounce_reset d = d \<lparr> db_pending_open_at := None, db_pending_close_at := None \<rparr>"

section \<open>Context, rounds and state\<close>

definition PAUSED_POLL_INTERVAL :: nat where
  "PAUSED_POLL_INTERVAL = 100 * 10 ^ 6"

record GateContext =
  gx_overflow_checks :: bool
  gx_schedule :: ParsedSchedule
  gx_rate :: f64
  gx_started_at :: nat
  gx_wall :: WallClock
  gx_initial :: InitialState
  gx_delay :: "DelayClause option"
  gx_has_after :: bool
  gx_has_while :: bool
  gx_close_emit :: bool
  gx_if_unresolved :: "UnresolvedBehavior option"
  gx_start_unresolved :: bool
  gx_holds_on_close :: bool

datatype LoopExit = ExitShutdown | ExitDurationExpired | ExitUpstreamFinished

datatype SegmentExit = SegWhileClose | SegUpstreamGone | SegWhileOpen | SegShutdownOrDuration

text \<open>How a wait for an edge ends: by the cancellation, or with what \<open>recv_edge_timeout\<close> returns.\<close>

datatype Wait = WaitCancelled | WaitReceived "GateEdge option"

record CloseTurn =
  ct_emit :: "SondaError + unit"
  ct_writes :: "(SondaError + bool) list"
  ct_rejected :: "string list"
  ct_flush :: "SondaError + unit"
  ct_now :: nat

text \<open>One iteration of the wait in \<open>debounce_close_to_paused\<close>: the checks, the clock, and the wait.\<close>

record Poll =
  pl_cancelled :: bool
  pl_top :: nat
  pl_now :: nat
  pl_wait :: Wait

record Round =
  rd_cancelled :: bool
  rd_top :: nat
  rd_wait :: Wait
  rd_now :: nat
  rd_segment_start :: nat
  rd_segment :: "(Turn \<times> GateEdge list) list"
  rd_cancelled_after :: bool
  rd_after :: nat
  rd_debounce_start :: nat
  rd_polls :: "Poll list"
  rd_close :: CloseTurn

record CloseLimiters =
  cl_sink :: SinkErrorRateLimiter
  cl_rejected :: SinkErrorRateLimiter

definition CloseLimiters_new :: CloseLimiters where
  "CloseLimiters_new = \<lparr> cl_sink = SinkErrorRateLimiter_new, cl_rejected = SinkErrorRateLimiter_new \<rparr>"

datatype gate_event = GotEdge GateEdge nat | Ticked TickContext | CloseEmitted | Wrote ScenarioState

record Gated =
  gd_state :: ScenarioState
  gd_after_satisfied :: bool
  gd_while_open :: bool
  gd_debounce :: DebounceState
  gd_next_tick :: nat
  gd_stats :: "ScenarioStats option"
  gd_limiters :: CloseLimiters
  gd_trace :: "gate_event list"

datatype RoundResult =
    RoundContinue Gated
  | RoundExit LoopExit Gated
  | RoundError SondaError Gated
  | RoundWaiting Gated
  | RoundPanic

section \<open>Durations, states and statistics\<close>

definition duration_expired :: "GateContext \<Rightarrow> nat \<Rightarrow> bool" where
  "duration_expired x now =
     (case ps_total_duration (gx_schedule x) of Some limit \<Rightarrow> limit \<le> now - gx_started_at x | None \<Rightarrow> False)"

definition remaining_duration :: "GateContext \<Rightarrow> nat \<Rightarrow> nat option" where
  "remaining_duration x now =
     map_option (\<lambda>limit. let elapsed = now - gx_started_at x in if limit \<le> elapsed then 0 else limit - elapsed)
       (ps_total_duration (gx_schedule x))"

definition remaining_until :: "GateContext \<Rightarrow> nat \<Rightarrow> nat \<Rightarrow> nat" where
  "remaining_until x now dflt = (case remaining_duration x now of Some r \<Rightarrow> min r dflt | None \<Rightarrow> dflt)"

definition close_target_state :: "bool \<Rightarrow> ScenarioStats option \<Rightarrow> ScenarioState" where
  "close_target_state holds_on_close stats =
     (if \<not> holds_on_close then StPaused
      else
        let has_emitted = (case stats of Some st \<Rightarrow> ss_current_values st \<noteq> Map.empty | None \<Rightarrow> False)
        in if has_emitted then StHeld else StPaused)"

definition write_state :: "nat \<Rightarrow> ScenarioState \<Rightarrow> bool \<Rightarrow> Gated \<Rightarrow> Gated" where
  "write_state now new_state paused_zero_rate g =
     g \<lparr> gd_stats := map_option (\<lambda>st.
            let st = (if ss_state st \<noteq> new_state then stats_transition_state now new_state st else st)
            in if paused_zero_rate then st \<lparr> ss_current_rate := 0 \<rparr> else st) (gd_stats g),
          gd_trace := gd_trace g @ [Wrote new_state] \<rparr>"

text \<open>Every transition of the loop sets the local state and writes it.\<close>

definition enter :: "nat \<Rightarrow> ScenarioState \<Rightarrow> bool \<Rightarrow> Gated \<Rightarrow> Gated" where
  "enter now new_state paused_zero_rate g = write_state now new_state paused_zero_rate (g \<lparr> gd_state := new_state \<rparr>)"

definition finish :: "nat \<Rightarrow> Gated \<Rightarrow> Gated" where
  "finish now g =
     g \<lparr> gd_stats := map_option (\<lambda>st.
            if ss_state st \<noteq> StFinished then stats_transition_state now StFinished st else st) (gd_stats g),
          gd_trace := gd_trace g @ [Wrote StFinished] \<rparr>"

section \<open>The close-emit\<close>

definition close_failure :: "string \<Rightarrow> ScenarioStats \<Rightarrow> ScenarioStats" where
  "close_failure err st =
     st \<lparr> ss_errors := saturating_succ (ss_errors st),
          ss_total_sink_failures := saturating_succ (ss_total_sink_failures st),
          ss_last_sink_error := Some err \<rparr>"

definition apply_close_emit_policy :: "ParsedSchedule \<Rightarrow> nat \<Rightarrow> SondaError \<Rightarrow> Gated \<Rightarrow> (SondaError + unit) \<times> Gated" where
  "apply_close_emit_policy schedule now err g =
     (case err of
        EventRejected reason \<Rightarrow>
          (Inr (), g \<lparr> gd_limiters := (gd_limiters g) \<lparr> cl_rejected := fst (limiter_record now reason (cl_rejected (gd_limiters g))) \<rparr>,
                       gd_stats := map_option count_rejected (gd_stats g) \<rparr>)
      | SinkError io_err \<Rightarrow>
          (case ps_on_sink_error schedule of
             Warn \<Rightarrow>
               (Inr (), g \<lparr> gd_limiters := (gd_limiters g) \<lparr> cl_sink := fst (limiter_record now io_err (cl_sink (gd_limiters g))) \<rparr>,
                            gd_stats := map_option (close_failure io_err) (gd_stats g) \<rparr>)
           | Fail \<Rightarrow> (Inl err, g))
      | _ \<Rightarrow> (Inl err, g))"

fun reject_loop :: "ParsedSchedule \<Rightarrow> nat \<Rightarrow> string list \<Rightarrow> Gated \<Rightarrow> (SondaError + unit) \<times> Gated" where
  "reject_loop schedule now [] g = (Inr (), g)"
| "reject_loop schedule now (reason # reasons) g =
     (case apply_close_emit_policy schedule now (EventRejected reason) g of
        (Inl e, g) \<Rightarrow> (Inl e, g)
      | (Inr _, g) \<Rightarrow> reject_loop schedule now reasons g)"

definition invoke_close_emit :: "GateContext \<Rightarrow> CloseTurn \<Rightarrow> Gated \<Rightarrow> (SondaError + unit) \<times> Gated" where
  "invoke_close_emit x ct g =
     (if \<not> gx_close_emit x then (Inr (), g)
      else
        let g = g \<lparr> gd_trace := gd_trace g @ [CloseEmitted] \<rparr>;
            outcome = rbind (ct_emit ct) (\<lambda>_. rbind (drain_writes (ct_writes ct)) (\<lambda>_. Inr ()))
        in case reject_loop (gx_schedule x) (ct_now ct) (ct_rejected ct) g of
             (Inl e, g) \<Rightarrow> (Inl e, g)
           | (Inr _, g) \<Rightarrow>
               (case outcome of
                  Inr _ \<Rightarrow>
                    (case ct_flush ct of
                       Inr _ \<Rightarrow> (Inr (), g)
                     | Inl e \<Rightarrow> apply_close_emit_policy (gx_schedule x) (ct_now ct) e g)
                | Inl e \<Rightarrow> apply_close_emit_policy (gx_schedule x) (ct_now ct) e g))"

section \<open>A running segment\<close>

definition SEGMENT_EXIT_NONE :: u8 where "SEGMENT_EXIT_NONE = 0"
definition SEGMENT_EXIT_WHILE_CLOSE :: u8 where "SEGMENT_EXIT_WHILE_CLOSE = 1"
definition SEGMENT_EXIT_UPSTREAM_GONE :: u8 where "SEGMENT_EXIT_UPSTREAM_GONE = 2"
definition SEGMENT_EXIT_WHILE_OPEN :: u8 where "SEGMENT_EXIT_WHILE_OPEN = 3"

lemmas segment_codes = SEGMENT_EXIT_NONE_def SEGMENT_EXIT_WHILE_CLOSE_def SEGMENT_EXIT_UPSTREAM_GONE_def
  SEGMENT_EXIT_WHILE_OPEN_def

definition decode_segment_exit :: "u8 \<Rightarrow> SegmentExit" where
  "decode_segment_exit observed =
     (if observed = SEGMENT_EXIT_UPSTREAM_GONE then SegUpstreamGone
      else if observed = SEGMENT_EXIT_WHILE_CLOSE then SegWhileClose
      else if observed = SEGMENT_EXIT_WHILE_OPEN then SegWhileOpen
      else SegShutdownOrDuration)"

text \<open>The code observed so far and whether the segment's token is cancelled, after one more edge.\<close>

definition observe_edge :: "bool \<Rightarrow> GateEdge \<Rightarrow> u8 \<times> bool \<Rightarrow> u8 \<times> bool" where
  "observe_edge exit_on_while_open edge seg =
     (case edge of
        WhileClose \<Rightarrow> (SEGMENT_EXIT_WHILE_CLOSE, True)
      | WhileOpen \<Rightarrow> if exit_on_while_open then (SEGMENT_EXIT_WHILE_OPEN, True) else seg
      | AfterFired \<Rightarrow> seg
      | UpstreamGone \<Rightarrow> (SEGMENT_EXIT_UPSTREAM_GONE, True))"

definition drain_edges :: "bool \<Rightarrow> GateEdge list \<Rightarrow> u8 \<times> bool \<Rightarrow> u8 \<times> bool" where
  "drain_edges exit_on_while_open edges seg = fold (observe_edge exit_on_while_open) edges seg"

text \<open>
  The inner loop with the wrapped callback: after every call of the callback the pending edges are
  drained, and a cancelled segment ends at the check at the top of the loop. The result carries the
  code, the final state of the loop and the history of the segment.
\<close>

datatype SegmentResult =
    SegmentDone u8 LoopState "gate_event list"
  | SegmentFailed SondaError LoopState "gate_event list"
  | SegmentWaiting LoopState "gate_event list"
  | SegmentPanic

fun segment_loop :: "LoopRun \<Rightarrow> bool \<Rightarrow> (Turn \<times> GateEdge list) list \<Rightarrow> u8 \<times> bool \<Rightarrow> LoopState \<Rightarrow>
    gate_event list \<Rightarrow> SegmentResult" where
  "segment_loop run exit_on_while_open [] seg s trace = SegmentWaiting s trace"
| "segment_loop run exit_on_while_open ((t, edges) # rest) seg s trace =
     (case loop_step run (t \<lparr> tn_cancelled := tn_cancelled t \<or> snd seg \<rparr>) s of
        LoopBreak s' \<Rightarrow> SegmentDone (fst seg) s' trace
      | LoopPanic \<Rightarrow> SegmentPanic
      | LoopError e s' \<Rightarrow>
          SegmentFailed e s' (trace @ [Ticked (snd (last (lp_emitted s')))] @ map (\<lambda>e. GotEdge e (tn_after t)) edges)
      | LoopContinue s' \<Rightarrow>
          if length (lp_emitted s) < length (lp_emitted s')
          then segment_loop run exit_on_while_open rest (drain_edges exit_on_while_open edges seg) s'
                 (trace @ [Ticked (snd (last (lp_emitted s')))] @ map (\<lambda>e. GotEdge e (tn_after t)) edges)
          else segment_loop run exit_on_while_open rest seg s' trace)"

definition run_running_segment :: "GateContext \<Rightarrow> Round \<Rightarrow> bool \<Rightarrow> Gated \<Rightarrow> SegmentResult" where
  "run_running_segment x r exit_on_while_open g =
     (case schedule_run (gx_overflow_checks x) (gx_schedule x) (gx_rate x) (rd_segment_start r) 0 (Some (gx_wall x)) (gd_next_tick g) of
        None \<Rightarrow> SegmentPanic
      | Some run \<Rightarrow>
          segment_loop run exit_on_while_open (rd_segment r) (SEGMENT_EXIT_NONE, False)
            (loop_start run (gd_stats g)) [])"

definition after_segment :: "LoopState \<Rightarrow> gate_event list \<Rightarrow> Gated \<Rightarrow> Gated" where
  "after_segment s trace g =
     g \<lparr> gd_next_tick := lp_tick s, gd_stats := lp_stats s, gd_trace := gd_trace g @ trace \<rparr>"

text \<open>The wait for \<open>delay.close\<close>: whether the close is committed, the edges taken, and \<open>None\<close> while it still waits.\<close>

fun debounce_loop :: "GateContext \<Rightarrow> nat \<Rightarrow> Poll list \<Rightarrow> gate_event list \<Rightarrow> (bool \<times> gate_event list) option" where
  "debounce_loop x deadline [] trace = None"
| "debounce_loop x deadline (p # ps) trace =
     (if pl_cancelled p \<or> duration_expired x (pl_top p) then Some (True, trace)
      else if deadline \<le> pl_now p then Some (True, trace)
      else
        case pl_wait p of
          WaitCancelled \<Rightarrow> Some (True, trace)
        | WaitReceived None \<Rightarrow> debounce_loop x deadline ps trace
        | WaitReceived (Some edge) \<Rightarrow>
            (let trace = trace @ [GotEdge edge (pl_now p)]
             in case edge of
                  WhileOpen \<Rightarrow> Some (False, trace)
                | WhileClose \<Rightarrow> debounce_loop x deadline ps trace
                | AfterFired \<Rightarrow> debounce_loop x deadline ps trace
                | UpstreamGone \<Rightarrow> Some (True, trace)))"

definition debounce_close_to_paused :: "GateContext \<Rightarrow> Round \<Rightarrow> DebounceState \<Rightarrow> (bool \<times> gate_event list) option" where
  "debounce_close_to_paused x r d =
     (if db_delay_close d = 0 then Some (True, [])
      else debounce_loop x (rd_debounce_start r + db_delay_close d) (rd_polls r) [])"

section \<open>The arms of the loop\<close>

definition to_unresolved :: "Round \<Rightarrow> Gated \<Rightarrow> Gated" where
  "to_unresolved r g =
     (enter (rd_now r) StUnresolved True (g \<lparr> gd_while_open := False \<rparr>)) \<lparr> gd_debounce := debounce_reset (gd_debounce g) \<rparr>"

definition to_closed :: "GateContext \<Rightarrow> Round \<Rightarrow> Gated \<Rightarrow> Gated" where
  "to_closed x r g = enter (rd_now r) (close_target_state (gx_holds_on_close x) (gd_stats g)) True g"

definition upstream_gone :: "GateContext \<Rightarrow> Round \<Rightarrow> Gated \<Rightarrow> RoundResult" where
  "upstream_gone x r g =
     (if gx_if_unresolved x = None then RoundExit ExitUpstreamFinished g else RoundContinue (to_unresolved r g))"

definition got_edge :: "GateEdge \<Rightarrow> nat \<Rightarrow> Gated \<Rightarrow> Gated" where
  "got_edge edge now g = g \<lparr> gd_trace := gd_trace g @ [GotEdge edge now] \<rparr>"

definition pending_arm :: "GateContext \<Rightarrow> Round \<Rightarrow> Gated \<Rightarrow> RoundResult" where
  "pending_arm x r g =
     (if \<not> gd_after_satisfied g
      then (case rd_wait r of
              WaitCancelled \<Rightarrow> RoundExit ExitShutdown g
            | WaitReceived None \<Rightarrow> RoundContinue g
            | WaitReceived (Some edge) \<Rightarrow>
                (let g = got_edge edge (rd_now r) g
                 in case edge of
                      AfterFired \<Rightarrow> RoundContinue (g \<lparr> gd_after_satisfied := True \<rparr>)
                    | WhileOpen \<Rightarrow> RoundContinue (g \<lparr> gd_while_open := True \<rparr>)
                    | WhileClose \<Rightarrow> RoundContinue (g \<lparr> gd_while_open := False \<rparr>)
                    | UpstreamGone \<Rightarrow> upstream_gone x r g))
      else if \<not> gx_has_while x then RoundContinue (enter (rd_now r) StRunning False g)
      else if gd_while_open g then RoundContinue (enter (rd_now r) StRunning False g)
      else RoundContinue (to_closed x r g))"

definition with_close_emit :: "GateContext \<Rightarrow> Round \<Rightarrow> Gated \<Rightarrow> (Gated \<Rightarrow> Gated) \<Rightarrow> RoundResult" where
  "with_close_emit x r g f =
     (case invoke_close_emit x (rd_close r) g of
        (Inl e, g) \<Rightarrow> RoundError e g
      | (Inr _, g) \<Rightarrow> RoundContinue (f g))"

text \<open>The state after a committed close.\<close>

definition closed_after_running :: "GateContext \<Rightarrow> Round \<Rightarrow> Gated \<Rightarrow> Gated" where
  "closed_after_running x r g =
     (to_closed x r (g \<lparr> gd_while_open := False \<rparr>)) \<lparr> gd_debounce := debounce_reset (gd_debounce g) \<rparr>"

definition running_arm :: "GateContext \<Rightarrow> Round \<Rightarrow> Gated \<Rightarrow> RoundResult" where
  "running_arm x r g =
     (case run_running_segment x r False g of
        SegmentPanic \<Rightarrow> RoundPanic
      | SegmentWaiting s trace \<Rightarrow> RoundWaiting (after_segment s trace g)
      | SegmentFailed e s trace \<Rightarrow> RoundError e (after_segment s trace g)
      | SegmentDone observed s trace \<Rightarrow>
          let g = after_segment s trace g; exit = decode_segment_exit observed
          in if rd_cancelled_after r then RoundExit ExitShutdown g
             else if duration_expired x (rd_after r) then RoundExit ExitDurationExpired g
             else if exit = SegUpstreamGone
             then (if gx_if_unresolved x = None then RoundExit ExitUpstreamFinished g
                   else with_close_emit x r g (to_unresolved r))
             else if exit = SegWhileClose
             then (case debounce_close_to_paused x r (gd_debounce g) of
                     None \<Rightarrow> RoundWaiting g
                   | Some (commit, edges) \<Rightarrow>
                       let g = g \<lparr> gd_trace := gd_trace g @ edges \<rparr>
                       in if \<not> commit then RoundContinue (g \<lparr> gd_while_open := True \<rparr>)
                          else with_close_emit x r g (closed_after_running x r))
             else RoundContinue (closed_after_running x r g))"

definition paused_arm :: "GateContext \<Rightarrow> Round \<Rightarrow> Gated \<Rightarrow> RoundResult" where
  "paused_arm x r g =
     (case rd_wait r of
        WaitCancelled \<Rightarrow> RoundExit ExitShutdown g
      | WaitReceived recv \<Rightarrow>
          let now = rd_now r;
              g = (case recv of None \<Rightarrow> g | Some edge \<Rightarrow> got_edge edge now g)
          in if recv = Some UpstreamGone then upstream_gone x r g
             else
               let g = (case recv of
                          Some WhileOpen \<Rightarrow>
                            g \<lparr> gd_while_open := True, gd_debounce := debounce_observe WhileOpen now (gd_debounce g) \<rparr>
                        | Some WhileClose \<Rightarrow>
                            g \<lparr> gd_while_open := False, gd_debounce := debounce_observe WhileClose now (gd_debounce g) \<rparr>
                        | Some AfterFired \<Rightarrow> g \<lparr> gd_after_satisfied := True \<rparr>
                        | _ \<Rightarrow> g);
                   (due, d) = debounce_fire_if_due now (gd_debounce g);
                   g = g \<lparr> gd_debounce := d \<rparr>
               in if due = Some WhileOpen \<and> gd_while_open g then RoundContinue (enter now StRunning False g)
                  else RoundContinue g)"

text \<open>The longest the paused arm waits, from the instants of its two readings of the clock.\<close>

definition paused_wakeup :: "GateContext \<Rightarrow> nat \<Rightarrow> nat \<Rightarrow> Gated \<Rightarrow> nat" where
  "paused_wakeup x now later g =
     (let wakeup = PAUSED_POLL_INTERVAL;
          wakeup = (case debounce_next_wakeup now (gd_debounce g) of Some d \<Rightarrow> min wakeup d | None \<Rightarrow> wakeup)
      in case remaining_duration x later of Some remaining \<Rightarrow> min wakeup remaining | None \<Rightarrow> wakeup)"

definition unresolved_open_arm :: "GateContext \<Rightarrow> Round \<Rightarrow> Gated \<Rightarrow> RoundResult" where
  "unresolved_open_arm x r g =
     (case run_running_segment x r True g of
        SegmentPanic \<Rightarrow> RoundPanic
      | SegmentWaiting s trace \<Rightarrow> RoundWaiting (after_segment s trace g)
      | SegmentFailed e s trace \<Rightarrow> RoundError e (after_segment s trace g)
      | SegmentDone observed s trace \<Rightarrow>
          let g = after_segment s trace g
          in if rd_cancelled_after r then RoundExit ExitShutdown g
             else if duration_expired x (rd_after r) then RoundExit ExitDurationExpired g
             else
               case decode_segment_exit observed of
                 SegWhileClose \<Rightarrow> with_close_emit x r g (closed_after_running x r)
               | SegUpstreamGone \<Rightarrow> RoundContinue g
               | SegWhileOpen \<Rightarrow>
                   RoundContinue ((enter (rd_now r) StRunning False (g \<lparr> gd_while_open := True \<rparr>))
                     \<lparr> gd_debounce := debounce_reset (gd_debounce g) \<rparr>)
               | SegShutdownOrDuration \<Rightarrow> RoundContinue g)"

definition unresolved_wait_arm :: "GateContext \<Rightarrow> Round \<Rightarrow> Gated \<Rightarrow> RoundResult" where
  "unresolved_wait_arm x r g =
     (case rd_wait r of
        WaitCancelled \<Rightarrow> RoundExit ExitShutdown g
      | WaitReceived None \<Rightarrow> RoundContinue g
      | WaitReceived (Some edge) \<Rightarrow>
          (let g = got_edge edge (rd_now r) g
           in case edge of
                WhileOpen \<Rightarrow>
                  RoundContinue ((enter (rd_now r) StPending False (g \<lparr> gd_while_open := True \<rparr>))
                    \<lparr> gd_debounce := debounce_reset (gd_debounce g) \<rparr>)
              | WhileClose \<Rightarrow> RoundContinue (closed_after_running x r g)
              | AfterFired \<Rightarrow> RoundContinue (g \<lparr> gd_after_satisfied := True \<rparr>)
              | UpstreamGone \<Rightarrow> RoundContinue g))"

definition gated_round :: "GateContext \<Rightarrow> Round \<Rightarrow> Gated \<Rightarrow> RoundResult" where
  "gated_round x r g =
     (if rd_cancelled r then RoundExit ExitShutdown g
      else if duration_expired x (rd_top r) then RoundExit ExitDurationExpired g
      else
        case gd_state g of
          StPending \<Rightarrow> pending_arm x r g
        | StRunning \<Rightarrow> running_arm x r g
        | StPaused \<Rightarrow> paused_arm x r g
        | StHeld \<Rightarrow> paused_arm x r g
        | StUnresolved \<Rightarrow>
            (case unwrap_or (gx_if_unresolved x) UnresolvedPending of
               UnresolvedOpen \<Rightarrow> unresolved_open_arm x r g
             | UnresolvedClosed \<Rightarrow> unresolved_wait_arm x r g
             | UnresolvedPending \<Rightarrow> unresolved_wait_arm x r g)
        | StFinished \<Rightarrow> RoundExit ExitShutdown g)"

fun gated_rounds :: "GateContext \<Rightarrow> Round list \<Rightarrow> Gated \<Rightarrow> RoundResult" where
  "gated_rounds x [] g = RoundWaiting g"
| "gated_rounds x (r # rs) g =
     (case gated_round x r g of
        RoundContinue g' \<Rightarrow> gated_rounds x rs g'
      | result \<Rightarrow> result)"

definition gated_start :: "GateContext \<Rightarrow> nat \<Rightarrow> ScenarioStats option \<Rightarrow> Gated" where
  "gated_start x now stats =
     (let state = (if gx_start_unresolved x then StUnresolved else StPending)
      in write_state now state (state \<in> {StUnresolved, StPaused, StHeld})
           \<lparr> gd_state = state,
             gd_after_satisfied = (if gx_has_after x then is_after_already_fired (gx_initial x) else True),
             gd_while_open = (if gx_has_while x then unwrap_or (is_while_gate_open (gx_initial x)) False else True),
             gd_debounce = DebounceState_from_clause (gx_delay x), gd_next_tick = 0, gd_stats = stats,
             gd_limiters = CloseLimiters_new, gd_trace = [] \<rparr>)"

text \<open>The whole scenario: the body, then close-emit and \<open>finish\<close> on a clean exit, then the flush.\<close>

definition gated_loop :: "GateContext \<Rightarrow> Round list \<Rightarrow> nat \<Rightarrow> CloseTurn \<Rightarrow> SondaError + unit \<Rightarrow>
    ScenarioStats option \<Rightarrow> ((SondaError + unit) \<times> Gated) option" where
  "gated_loop x rounds now tail_close flush_result stats =
     (case gated_rounds x rounds (gated_start x now stats) of
        RoundPanic \<Rightarrow> None
      | RoundContinue g \<Rightarrow> None
      | RoundWaiting g \<Rightarrow> None
      | RoundExit _ g \<Rightarrow>
          (case invoke_close_emit x tail_close g of
             (Inl e, g) \<Rightarrow> Some (Inl e, g)
           | (Inr _, g) \<Rightarrow>
               let g = finish now g;
                   (result, st) = finalize_sink (gx_schedule x) flush_result (gd_stats g) (Inr ())
               in Some (result, g \<lparr> gd_stats := st \<rparr>))
      | RoundError e g \<Rightarrow> Some (Inl e, g))"

end
