(* ===== verification/Gate_Lifecycle.thy ===== *)
theory Gate_Lifecycle
  imports Gated_Loop
begin

text \<open>
  What the lifecycle gate of \<open>Gated_Loop\<close> guarantees: no tick is emitted while the last edge taken from the gate says
  closed, ticks never repeat across pauses, a paused scenario resumes only after the gate has stayed
  open for the configured delay, and every clean exit emits its close markers and finishes. The last section holds
  runs in which the code departs from its documentation.
\<close>

section \<open>Histories\<close>

fun view_step :: "gate_event \<Rightarrow> bool \<Rightarrow> bool" where
  "view_step (GotEdge edge now) v =
     (case edge of WhileOpen \<Rightarrow> True | WhileClose \<Rightarrow> False | UpstreamGone \<Rightarrow> False | AfterFired \<Rightarrow> v)"
| "view_step ev v = v"

definition gate_view :: "bool \<Rightarrow> gate_event list \<Rightarrow> bool" where
  "gate_view v trace = fold view_step trace v"

text \<open>Every tick comes while the gate, by the edges taken so far, is open.\<close>

fun ticks_open :: "bool \<Rightarrow> gate_event list \<Rightarrow> bool" where
  "ticks_open v [] = True"
| "ticks_open v (ev # trace) \<longleftrightarrow> (case ev of Ticked _ \<Rightarrow> v | _ \<Rightarrow> True) \<and> ticks_open (view_step ev v) trace"

fun tick_numbers :: "gate_event list \<Rightarrow> nat list" where
  "tick_numbers [] = []"
| "tick_numbers (Ticked ctx # trace) = tc_tick ctx # tick_numbers trace"
| "tick_numbers (ev # trace) = tick_numbers trace"

text \<open>The last edge of the \<open>while\<close> clause, with the instant it was taken at.\<close>

fun last_while :: "gate_event list \<Rightarrow> (GateEdge \<times> nat) option" where
  "last_while [] = None"
| "last_while (ev # trace) =
     (case last_while trace of
        Some e \<Rightarrow> Some e
      | None \<Rightarrow> (case ev of GotEdge edge now \<Rightarrow> if edge = AfterFired then None else Some (edge, now) | _ \<Rightarrow> None))"

fun round_state :: "RoundResult \<Rightarrow> Gated option" where
  "round_state (RoundContinue g) = Some g"
| "round_state (RoundExit e g) = Some g"
| "round_state (RoundError e g) = Some g"
| "round_state (RoundWaiting g) = Some g"
| "round_state RoundPanic = None"

text \<open>A property \<open>P\<close> of the states between rounds, and \<open>Q\<close> of the state the loop ends or waits in.\<close>

fun result_all :: "(Gated \<Rightarrow> bool) \<Rightarrow> (Gated \<Rightarrow> bool) \<Rightarrow> RoundResult \<Rightarrow> bool" where
  "result_all P Q (RoundContinue g) = P g"
| "result_all P Q (RoundExit e g) = Q g"
| "result_all P Q (RoundError err g) = Q g"
| "result_all P Q (RoundWaiting g) = Q g"
| "result_all P Q RoundPanic = True"

lemma gated_rounds_all:
  assumes "\<And>r g. P g \<Longrightarrow> result_all P Q (gated_round x r g)" and "\<And>g. P g \<Longrightarrow> Q g"
    and "P g" and "round_state (gated_rounds x rs g) = Some g'"
  shows "Q g'"
  using assms(3,4)
proof (induction rs arbitrary: g)
  case Nil
  then show ?case using assms(2) by simp
next
  case (Cons r rs)
  with assms(1) [OF Cons.prems(1), of r] show ?case by (cases "gated_round x r g") auto
qed

lemma gate_view_simps [simp]:
  "gate_view v [] = v"
  "gate_view v (ev # trace) = gate_view (view_step ev v) trace"
  "gate_view v (a @ b) = gate_view (gate_view v a) b"
  by (simp_all add: gate_view_def)

lemma ticks_open_append [simp]: "ticks_open v (a @ b) \<longleftrightarrow> ticks_open v a \<and> ticks_open (gate_view v a) b"
  by (induction a arbitrary: v) auto

lemma tick_numbers_append [simp]: "tick_numbers (a @ b) = tick_numbers a @ tick_numbers b"
  by (induction a rule: tick_numbers.induct) auto

lemma last_while_append [simp]:
  "last_while (a @ b) = (case last_while b of Some e \<Rightarrow> Some e | None \<Rightarrow> last_while a)"
  by (induction a) (auto split: option.splits)

lemma edges_history [simp]:
  "ticks_open v (map (\<lambda>e. GotEdge e now) edges)"
  "tick_numbers (map (\<lambda>e. GotEdge e now) edges) = []"
  by (induction edges arbitrary: v) auto

section \<open>Segments\<close>

lemma drain_edges_simps [simp]:
  "drain_edges b [] seg = seg"
  "drain_edges b (e # es) seg = drain_edges b es (observe_edge b e seg)"
  by (simp_all add: drain_edges_def)

lemma drain_edges_cancelled: "snd seg \<Longrightarrow> snd (drain_edges b es seg)"
  by (induction es arbitrary: seg) (auto simp: observe_edge_def split: GateEdge.splits)

lemma drain_edges_open:
  "\<not> snd (drain_edges False es seg) \<Longrightarrow> v \<Longrightarrow> gate_view v (map (\<lambda>e. GotEdge e now) es)"
proof (induction es arbitrary: seg v)
  case (Cons e es)
  then have "\<not> snd (observe_edge False e seg)" using drain_edges_cancelled [of "observe_edge False e seg"] by auto
  with Cons show ?case by (cases e) (auto simp: observe_edge_def)
qed simp

text \<open>The loop a segment runs is the schedule loop: each of its turns is one step of it.\<close>

fun segment_state :: "SegmentResult \<Rightarrow> (LoopState \<times> gate_event list) option" where
  "segment_state (SegmentDone c s trace) = Some (s, trace)"
| "segment_state (SegmentFailed e s trace) = Some (s, trace)"
| "segment_state (SegmentWaiting s trace) = Some (s, trace)"
| "segment_state SegmentPanic = None"

lemma segment_ticks_open:
  assumes "segment_state (segment_loop run False rest seg s trace) = Some (s', trace')"
    and "ticks_open True trace" and "\<not> snd seg \<longrightarrow> gate_view True trace"
  shows "ticks_open True trace'"
  using assms
proof (induction run "False" rest seg s trace rule: segment_loop.induct)
  case (2 run t edges rest seg s trace)
  show ?case
  proof (cases "loop_step run (t \<lparr> tn_cancelled := tn_cancelled t \<or> snd seg \<rparr>) s")
    case (LoopContinue s1)
    then have nc: "\<not> snd seg" by (auto simp: loop_step_def)
    let ?trace = "trace @ [Ticked (snd (last (lp_emitted s1)))] @ map (\<lambda>e. GotEdge e (tn_after t)) edges"
    show ?thesis
    proof (cases "length (lp_emitted s) < length (lp_emitted s1)")
      case True
      have "ticks_open True ?trace" using 2 nc by simp
      moreover have "\<not> snd (drain_edges False edges seg) \<longrightarrow> gate_view True ?trace"
        using 2 nc drain_edges_open by auto
      ultimately show ?thesis using 2 LoopContinue True by simp
    qed (use 2 LoopContinue in simp)
  next
    case (LoopError e s1)
    then have "\<not> snd seg" by (auto simp: loop_step_def)
    with 2 LoopError show ?thesis by auto
  qed (use 2 in auto)
qed auto

section \<open>No tick while the gate is closed\<close>

definition lifecycle_inv :: "bool \<Rightarrow> Gated \<Rightarrow> bool" where
  "lifecycle_inv v g \<longleftrightarrow> ticks_open v (gd_trace g) \<and> (gd_while_open g \<and> gd_state g \<noteq> StUnresolved \<longrightarrow> gate_view v (gd_trace g)) \<and>
     (gd_state g = StRunning \<longrightarrow> gd_while_open g)"

definition result_inv :: "bool \<Rightarrow> RoundResult \<Rightarrow> bool" where
  "result_inv v = result_all (lifecycle_inv v) (\<lambda>g. ticks_open v (gd_trace g))"

lemma result_inv_simps [simp]:
  "result_inv v (RoundContinue g) = lifecycle_inv v g"
  "result_inv v (RoundExit e g) = ticks_open v (gd_trace g)"
  "result_inv v (RoundError err g) = ticks_open v (gd_trace g)"
  "result_inv v (RoundWaiting g) = ticks_open v (gd_trace g)"
  "result_inv v RoundPanic"
  by (simp_all add: result_inv_def)

lemmas move_defs = enter_def write_state_def to_closed_def closed_after_running_def to_unresolved_def got_edge_def

lemma lifecycle_inv_enter_closed: "ticks_open v (gd_trace g) \<Longrightarrow> lifecycle_inv v (closed_after_running x r g)"
  by (auto simp: lifecycle_inv_def move_defs close_target_state_def Let_def)

lemma lifecycle_inv_to_unresolved: "ticks_open v (gd_trace g) \<Longrightarrow> lifecycle_inv v (to_unresolved r g)"
  by (auto simp: lifecycle_inv_def move_defs)

lemma policy_trace: "apply_close_emit_policy schedule now e g = (res, g') \<Longrightarrow> gd_trace g' = gd_trace g"
  by (auto simp: apply_close_emit_policy_def split: SondaError.splits OnSinkError.splits)

lemma reject_loop_trace: "reject_loop schedule now reasons g = (res, g') \<Longrightarrow> gd_trace g' = gd_trace g"
  by (induction reasons arbitrary: g) (auto dest: policy_trace split: prod.splits sum.splits)

lemma close_emit_trace:
  assumes "invoke_close_emit x ct g = (res, g')"
  shows "gd_trace g' = gd_trace g \<or> gd_trace g' = gd_trace g @ [CloseEmitted]"
  using assms
  by (auto simp: invoke_close_emit_def Let_def split: if_splits prod.splits sum.splits
      dest!: reject_loop_trace policy_trace)

lemma result_inv_close_emit:
  assumes "ticks_open v (gd_trace g)" and "\<And>g'. ticks_open v (gd_trace g') \<Longrightarrow> lifecycle_inv v (f g')"
  shows "result_inv v (with_close_emit x r g f)"
proof -
  obtain res g' where e: "invoke_close_emit x (rd_close r) g = (res, g')" by fastforce
  have "ticks_open v (gd_trace g')" using close_emit_trace [OF e] assms(1) by auto
  with assms(2) e show ?thesis by (auto simp: with_close_emit_def split: sum.splits)
qed

lemma debounce_loop_history:
  "debounce_loop x deadline ps trace = Some (commit, trace') \<Longrightarrow>
   \<exists>edges. trace' = trace @ edges \<and> ticks_open v edges \<and> tick_numbers edges = [] \<and> (\<not> commit \<longrightarrow> gate_view v edges)"
proof (induction ps arbitrary: trace v)
  case (Cons p ps)
  have later: "\<exists>edges. trace' = trace @ edges \<and> ticks_open v edges \<and> tick_numbers edges = [] \<and> (\<not> commit \<longrightarrow> gate_view v edges)"
    if "debounce_loop x deadline ps (trace @ [GotEdge e now]) = Some (commit, trace')" for e now
  proof -
    from Cons.IH [OF that, of "view_step (GotEdge e now) v"] obtain edges where
      "trace' = (trace @ [GotEdge e now]) @ edges" "ticks_open (view_step (GotEdge e now) v) edges"
      "tick_numbers edges = []" "\<not> commit \<longrightarrow> gate_view (view_step (GotEdge e now) v) edges" by blast
    then show ?thesis by (intro exI [of _ "GotEdge e now # edges"]) simp
  qed
  show ?case
  proof (cases "pl_cancelled p \<or> duration_expired x (pl_top p) \<or> deadline \<le> pl_now p")
    case True
    with Cons.prems show ?thesis by (auto split: if_splits)
  next
    case False
    show ?thesis
    proof (cases "pl_wait p")
      case (WaitReceived recv)
      then show ?thesis
        using Cons False later
        by (cases recv) (auto simp: Let_def split: GateEdge.splits)
    qed (use Cons.prems False in auto)
  qed
qed simp

lemma running_segment_open:
  assumes "segment_state (run_running_segment x r False g) = Some (s, trace)" and "lifecycle_inv v g" and "gd_state g = StRunning"
  shows "ticks_open v (gd_trace (after_segment s trace g))"
proof -
  from assms(1) obtain run where "segment_state (segment_loop run False (rd_segment r) (SEGMENT_EXIT_NONE, False)
      (loop_start run (gd_stats g)) []) = Some (s, trace)"
    by (auto simp: run_running_segment_def split: option.splits)
  then have "ticks_open True trace" by (rule segment_ticks_open) simp_all
  moreover have "gate_view v (gd_trace g) = True" "ticks_open v (gd_trace g)"
    using assms(2,3) by (simp_all add: lifecycle_inv_def)
  ultimately show ?thesis by (simp add: after_segment_def)
qed

lemma running_arm_inv:
  assumes "lifecycle_inv v g" and "gd_state g = StRunning"
  shows "result_inv v (running_arm x r g)"
proof (cases "run_running_segment x r False g")
  case (SegmentDone observed s trace)
  let ?g = "after_segment s trace g"
  have t: "ticks_open v (gd_trace ?g)" by (rule running_segment_open [OF _ assms, of x r]) (simp add: SegmentDone)
  have closes: "result_inv v (with_close_emit x r g1 (closed_after_running x r))"
    "result_inv v (with_close_emit x r g1 (to_unresolved r))" if "ticks_open v (gd_trace g1)" for g1
    using result_inv_close_emit [OF that] lifecycle_inv_enter_closed lifecycle_inv_to_unresolved by blast+
  have deb: "ticks_open v (gd_trace ?g @ edges) \<and> (\<not> commit \<longrightarrow> gate_view v (gd_trace ?g @ edges))"
    if "debounce_close_to_paused x r d = Some (commit, edges)" for d commit edges
  proof (cases "db_delay_close d = 0")
    case False
    with that have "debounce_loop x (rd_debounce_start r + db_delay_close d) (rd_polls r) [] = Some (commit, edges)"
      by (simp add: debounce_close_to_paused_def)
    from debounce_loop_history [OF this, of "gate_view v (gd_trace ?g)"] t show ?thesis by auto
  qed (use that t in \<open>auto simp: debounce_close_to_paused_def\<close>)
  show ?thesis
    using SegmentDone t closes deb lifecycle_inv_enter_closed [OF t] assms(2)
    by (auto simp: running_arm_def Let_def lifecycle_inv_def after_segment_def split: option.splits prod.splits)
qed (use running_segment_open [OF _ assms, of x r] in \<open>auto simp: running_arm_def\<close>)

lemma paused_arm_inv:
  assumes "lifecycle_inv v g" and "gd_state g = StPaused \<or> gd_state g = StHeld"
  shows "result_inv v (paused_arm x r g)"
proof (cases "rd_wait r")
  case (WaitReceived recv)
  show ?thesis
  proof (cases recv)
    case None
    with assms WaitReceived show ?thesis
      by (auto simp: paused_arm_def lifecycle_inv_def Let_def move_defs split: prod.splits)
  next
    case (Some edge)
    with assms WaitReceived show ?thesis
      by (cases edge)
         (auto simp: paused_arm_def lifecycle_inv_def Let_def move_defs upstream_gone_def split: prod.splits)
  qed
qed (use assms in \<open>auto simp: paused_arm_def lifecycle_inv_def\<close>)

lemma pending_arm_inv:
  assumes "lifecycle_inv v g" and "gd_state g = StPending" and "gx_has_while x"
  shows "result_inv v (pending_arm x r g)"
  using assms
  by (auto simp: pending_arm_def lifecycle_inv_def Let_def move_defs upstream_gone_def close_target_state_def
      split: Wait.splits option.splits GateEdge.splits)

lemma unresolved_wait_arm_inv:
  assumes "lifecycle_inv v g" and "gd_state g = StUnresolved"
  shows "result_inv v (unresolved_wait_arm x r g)"
  using assms
  by (auto simp: unresolved_wait_arm_def lifecycle_inv_def Let_def move_defs close_target_state_def
      split: Wait.splits option.splits GateEdge.splits)

lemma gated_round_inv:
  assumes "lifecycle_inv v g" and "gx_has_while x" and "gx_if_unresolved x \<noteq> Some UnresolvedOpen"
  shows "result_inv v (gated_round x r g)"
proof -
  have "unwrap_or (gx_if_unresolved x) UnresolvedPending \<noteq> UnresolvedOpen"
    using assms(3) by (auto simp: unwrap_or_def split: option.splits)
  with assms running_arm_inv [OF assms(1)] paused_arm_inv [OF assms(1)] pending_arm_inv [OF assms(1)]
    unresolved_wait_arm_inv [OF assms(1)]
  show ?thesis
    by (auto simp: gated_round_def lifecycle_inv_def split: ScenarioState.splits UnresolvedBehavior.splits)
qed

text \<open>
  C35. A gated scenario is silent while its gate is closed. For a scenario with a \<open>while:\<close> clause that does not run while its
  upstream is missing (\<open>if_unresolved\<close> is not \<open>open\<close>), in every run each call of the tick callback
  comes while the gate is open, by its state at the subscription and the edges taken from the receiver since,
  whatever the delays, the clock, the cancellations and the errors.
\<close>

theorem silent_while_closed:
  assumes "gx_has_while x" and "gx_if_unresolved x \<noteq> Some UnresolvedOpen"
    and "round_state (gated_rounds x rounds (gated_start x now stats)) = Some g"
  shows "ticks_open (is_while_gate_open (gx_initial x) = Some True) (gd_trace g)"
proof (rule gated_rounds_all [OF _ _ _ assms(3)])
  let ?v = "is_while_gate_open (gx_initial x) = Some True"
  show "lifecycle_inv ?v (gated_start x now stats)"
    using assms(1)
    by (auto simp: lifecycle_inv_def gated_start_def Let_def write_state_def unwrap_or_def split: option.splits)
  show "result_all (lifecycle_inv ?v) (\<lambda>g. ticks_open ?v (gd_trace g)) (gated_round x r g)" if "lifecycle_inv ?v g" for r g
    using gated_round_inv [OF that assms(1,2)] by (simp add: result_inv_def)
qed (simp add: lifecycle_inv_def)

section \<open>Ticks across pauses\<close>

lemma loop_step_Error:
  assumes "loop_step run t s = LoopError e s'"
  shows "lp_emitted s' = lp_emitted s @ [step_context run t s]"
  using assms emit_step_Error [of run t s e s']
  by (auto simp: loop_step_eq Let_def gap_step_other split: if_splits)

definition segment_ok :: "LoopRun \<Rightarrow> LoopState \<Rightarrow> gate_event list \<Rightarrow> bool" where
  "segment_ok run s trace \<longleftrightarrow> ticks_inv run s \<and> tick_numbers trace = ticks s"

definition segment_order :: "LoopRun \<Rightarrow> SegmentResult \<Rightarrow> bool" where
  "segment_order run result \<longleftrightarrow>
     (case result of
        SegmentDone c s trace \<Rightarrow> segment_ok run s trace
      | SegmentWaiting s trace \<Rightarrow> segment_ok run s trace
      | SegmentFailed e s trace \<Rightarrow>
          sorted_wrt (<) (tick_numbers trace) \<and> (\<forall>k \<in> set (tick_numbers trace). lr_initial_tick run \<le> k)
      | SegmentPanic \<Rightarrow> True)"

lemma segment_ticks:
  assumes "steady (lr_schedule run)" and "segment_ok run s trace"
  shows "segment_order run (segment_loop run b rest seg s trace)"
  using assms
proof (induction run b rest seg s trace rule: segment_loop.induct)
  case (2 run b t edges rest seg s trace)
  let ?t = "t \<lparr> tn_cancelled := tn_cancelled t \<or> snd seg \<rparr>"
  have inv: "ticks_inv run s" and nums: "tick_numbers trace = ticks s" using 2(4) by (simp_all add: segment_ok_def)
  show ?case
  proof (cases "loop_step run ?t s")
    case (LoopContinue s1)
    have inv1: "ticks_inv run s1" by (rule ticks_inv_step [OF inv LoopContinue 2(3)])
    have em: "lp_emitted s1 = lp_emitted s \<or> lp_emitted s1 = lp_emitted s @ [step_context run ?t s]"
      using loop_step_emitted [of run ?t s s1] LoopContinue by (auto simp: emits_def)
    show ?thesis
    proof (cases "length (lp_emitted s) < length (lp_emitted s1)")
      case True
      with em have "lp_emitted s1 = lp_emitted s @ [step_context run ?t s]" by auto
      then have "segment_ok run s1 (trace @ [Ticked (snd (last (lp_emitted s1)))] @ map (\<lambda>e. GotEdge e (tn_after t)) edges)"
        using inv1 nums by (simp add: segment_ok_def ticks_def split: prod.splits)
      with 2(1,3) LoopContinue True show ?thesis by simp
    next
      case False
      with em have "segment_ok run s1 trace" using inv1 nums by (auto simp: segment_ok_def ticks_def)
      with 2(2,3) LoopContinue False show ?thesis by simp
    qed
  next
    case (LoopError e s1)
    have "tick_numbers trace @ [lp_tick s] = ticks s @ [lp_tick s]" using nums by simp
    moreover have "snd (last (lp_emitted s1)) = snd (step_context run ?t s)"
      using loop_step_Error [OF LoopError] by simp
    moreover have "tc_tick (snd (step_context run ?t s)) = lp_tick s" by (simp add: step_context_def Let_def)
    ultimately show ?thesis
      using LoopError inv by (auto simp: segment_order_def ticks_inv_def sorted_wrt_append)
  next
    case (LoopBreak s1)
    with loop_step_Break [OF LoopBreak] 2(4) show ?thesis by (simp add: segment_order_def)
  qed (simp add: segment_order_def)
qed (simp add: segment_order_def)

definition order_inv :: "Gated \<Rightarrow> bool" where
  "order_inv g \<longleftrightarrow> sorted_wrt (<) (tick_numbers (gd_trace g)) \<and>
     (\<forall>k \<in> set (tick_numbers (gd_trace g)). k < gd_next_tick g)"

definition in_order :: "Gated \<Rightarrow> bool" where
  "in_order g \<longleftrightarrow> sorted_wrt (<) (tick_numbers (gd_trace g))"

text \<open>A step that emits no tick.\<close>

definition quiet :: "Gated \<Rightarrow> Gated \<Rightarrow> bool" where
  "quiet g g' \<longleftrightarrow> tick_numbers (gd_trace g') = tick_numbers (gd_trace g) \<and> gd_next_tick g' = gd_next_tick g"

lemma quiet_order: "quiet g g' \<Longrightarrow> order_inv g \<Longrightarrow> order_inv g'"
  by (simp add: quiet_def order_inv_def)

lemma order_inv_in_order: "order_inv g \<Longrightarrow> in_order g"
  by (simp add: order_inv_def in_order_def)

lemma quiet_moves:
  "quiet g (enter now st z g)" "quiet g (to_closed x r g)" "quiet g (closed_after_running x r g)" "quiet g (to_unresolved r g)"
  "quiet g (got_edge e now g)"
  by (simp_all add: quiet_def move_defs)

lemma policy_next_tick: "apply_close_emit_policy schedule now e g = (res, g') \<Longrightarrow> gd_next_tick g' = gd_next_tick g"
  by (auto simp: apply_close_emit_policy_def split: SondaError.splits OnSinkError.splits)

lemma reject_loop_next_tick: "reject_loop schedule now reasons g = (res, g') \<Longrightarrow> gd_next_tick g' = gd_next_tick g"
  by (induction reasons arbitrary: g) (auto dest: policy_next_tick split: prod.splits sum.splits)

lemma close_emit_quiet:
  assumes "invoke_close_emit x ct g = (res, g')"
  shows "quiet g g'"
proof -
  have "gd_next_tick g' = gd_next_tick g"
    using assms
    by (auto simp: invoke_close_emit_def Let_def split: if_splits prod.splits sum.splits
        dest!: reject_loop_next_tick policy_next_tick)
  with close_emit_trace [OF assms] show ?thesis by (auto simp: quiet_def)
qed

lemma order_close_emit:
  assumes "order_inv g" and "\<And>g'. quiet g' (f g')"
  shows "result_all order_inv in_order (with_close_emit x r g f)"
proof -
  obtain res g' where e: "invoke_close_emit x (rd_close r) g = (res, g')" by fastforce
  have "order_inv g'" by (rule quiet_order [OF close_emit_quiet [OF e] assms(1)])
  moreover from this have "order_inv (f g')" by (rule quiet_order [OF assms(2)])
  ultimately show ?thesis using e by (auto simp: with_close_emit_def order_inv_in_order split: sum.splits)
qed

lemma running_segment_order:
  assumes "steady (gx_schedule x)" and "order_inv g"
  shows "case run_running_segment x r b g of
      SegmentDone c s trace \<Rightarrow> order_inv (after_segment s trace g)
    | SegmentWaiting s trace \<Rightarrow> order_inv (after_segment s trace g)
    | SegmentFailed e s trace \<Rightarrow> in_order (after_segment s trace g)
    | SegmentPanic \<Rightarrow> True"
proof (cases "schedule_run (gx_overflow_checks x) (gx_schedule x) (gx_rate x) (rd_segment_start r) 0 (Some (gx_wall x)) (gd_next_tick g)")
  case (Some run)
  then have run: "lr_schedule run = gx_schedule x" "lr_initial_tick run = gd_next_tick g"
    by (auto simp: schedule_run_def)
  have "segment_ok run (loop_start run (gd_stats g)) []"
    using ticks_inv_start [of run "gd_stats g"] by (simp add: segment_ok_def ticks_def loop_start_def)
  then have "segment_order run (run_running_segment x r b g)"
    using segment_ticks [of run] assms(1) Some run(1) by (simp add: run_running_segment_def)
  then show ?thesis
    using assms(2) run(2)
    by (auto simp: segment_order_def segment_ok_def ticks_inv_def order_inv_def in_order_def after_segment_def
        sorted_wrt_append split: SegmentResult.splits) fastforce+
qed (simp add: run_running_segment_def)

lemma running_arm_order:
  assumes "steady (gx_schedule x)" and "order_inv g"
  shows "result_all order_inv in_order (running_arm x r g)"
proof (cases "run_running_segment x r False g")
  case (SegmentDone observed s trace)
  let ?g = "after_segment s trace g"
  have o: "order_inv ?g" using running_segment_order [OF assms, of r False] SegmentDone by simp
  have closes: "result_all order_inv in_order (with_close_emit x r g1 (closed_after_running x r))"
    "result_all order_inv in_order (with_close_emit x r g1 (to_unresolved r))" if "order_inv g1" for g1
    using order_close_emit [OF that] quiet_moves by blast+
  have deb: "order_inv (?g \<lparr> gd_trace := gd_trace ?g @ edges \<rparr>)"
    if "debounce_close_to_paused x r d = Some (commit, edges)" for d commit edges
  proof (cases "db_delay_close d = 0")
    case False
    with that have "debounce_loop x (rd_debounce_start r + db_delay_close d) (rd_polls r) [] = Some (commit, edges)"
      by (simp add: debounce_close_to_paused_def)
    from debounce_loop_history [OF this] o show ?thesis by (auto simp: order_inv_def)
  qed (use that o in \<open>auto simp: debounce_close_to_paused_def\<close>)
  have "order_inv (closed_after_running x r ?g)" by (rule quiet_order [OF quiet_moves(3) o])
  moreover have "order_inv (g1 \<lparr> gd_while_open := w \<rparr>)" if "order_inv g1" for g1 w
    using that by (simp add: order_inv_def)
  ultimately show ?thesis
    using SegmentDone o closes deb
    by (auto simp: running_arm_def Let_def order_inv_in_order split: option.splits prod.splits)
qed (use running_segment_order [OF assms, of r False] in \<open>auto simp: running_arm_def order_inv_in_order\<close>)

lemma unresolved_open_arm_order:
  assumes "steady (gx_schedule x)" and "order_inv g"
  shows "result_all order_inv in_order (unresolved_open_arm x r g)"
proof (cases "run_running_segment x r True g")
  case (SegmentDone observed s trace)
  let ?g = "after_segment s trace g"
  have o: "order_inv ?g" using running_segment_order [OF assms, of r True] SegmentDone by simp
  have "result_all order_inv in_order (with_close_emit x r ?g (closed_after_running x r))"
    using order_close_emit [OF o] quiet_moves(3) by blast
  moreover have "order_inv ((enter now StRunning False (?g \<lparr> gd_while_open := True \<rparr>)) \<lparr> gd_debounce := d \<rparr>)" for now d
    using o by (simp add: order_inv_def move_defs)
  ultimately show ?thesis
    using SegmentDone o
    by (auto simp: unresolved_open_arm_def Let_def order_inv_in_order split: SegmentExit.splits)
qed (use running_segment_order [OF assms, of r True] in \<open>auto simp: unresolved_open_arm_def order_inv_in_order\<close>)

lemma waiting_arms_order:
  assumes "order_inv g"
  shows "result_all order_inv in_order (pending_arm x r g)" "result_all order_inv in_order (paused_arm x r g)"
    "result_all order_inv in_order (unresolved_wait_arm x r g)"
proof -
  show "result_all order_inv in_order (pending_arm x r g)"
    using assms
    by (auto simp: pending_arm_def order_inv_def in_order_def Let_def move_defs upstream_gone_def
        split: Wait.splits option.splits GateEdge.splits)
  show "result_all order_inv in_order (unresolved_wait_arm x r g)"
    using assms
    by (auto simp: unresolved_wait_arm_def order_inv_def in_order_def Let_def move_defs
        split: Wait.splits option.splits GateEdge.splits)
  show "result_all order_inv in_order (paused_arm x r g)"
    using assms
    by (cases "rd_wait r")
       (auto simp: paused_arm_def order_inv_def in_order_def Let_def move_defs upstream_gone_def
          split: option.splits GateEdge.splits prod.splits)
qed

lemma gated_round_order:
  assumes "steady (gx_schedule x)" and "order_inv g"
  shows "result_all order_inv in_order (gated_round x r g)"
  using running_arm_order [OF assms] unresolved_open_arm_order [OF assms] waiting_arms_order [OF assms(2)]
    order_inv_in_order [OF assms(2)]
  by (auto simp: gated_round_def split: ScenarioState.splits UnresolvedBehavior.splits)

text \<open>
  C38. Pausing never repeats a tick. For a schedule that replays rows or has no periodic gap, the ticks a gated scenario
  emits over its whole life, across any number of pauses, resumes and losses of its upstream, strictly increase: each running
  segment goes on after the last tick of the one before.
\<close>

theorem ticks_across_pauses:
  assumes "steady (gx_schedule x)"
    and "round_state (gated_rounds x rounds (gated_start x now stats)) = Some g"
  shows "sorted_wrt (<) (tick_numbers (gd_trace g))"
proof -
  have "in_order g"
  proof (rule gated_rounds_all [OF gated_round_order [OF assms(1)] order_inv_in_order _ assms(2)])
    show "order_inv (gated_start x now stats)" by (simp add: order_inv_def gated_start_def Let_def write_state_def)
  qed
  then show ?thesis by (simp add: in_order_def)
qed

section \<open>The delay before a resume\<close>

definition delay_inv :: "GateContext \<Rightarrow> Gated \<Rightarrow> bool" where
  "delay_inv x g \<longleftrightarrow>
     db_delay_open (gd_debounce g) = db_delay_open (DebounceState_from_clause (gx_delay x)) \<and>
     (case db_pending_open_at (gd_debounce g) of
        None \<Rightarrow> True
      | Some due \<Rightarrow>
          (gd_state g = StPaused \<or> gd_state g = StHeld) \<and>
          (\<exists>t. last_while (gd_trace g) = Some (WhileOpen, t) \<and> due = t + db_delay_open (gd_debounce g)))"

lemma delay_inv_idle:
  "delay_inv x g \<Longrightarrow> gd_state g \<noteq> StPaused \<Longrightarrow> gd_state g \<noteq> StHeld \<Longrightarrow> db_pending_open_at (gd_debounce g) = None"
  by (auto simp: delay_inv_def split: option.splits)

lemma delay_inv_no_timer:
  "db_delay_open (gd_debounce g) = db_delay_open (DebounceState_from_clause (gx_delay x)) \<Longrightarrow>
   db_pending_open_at (gd_debounce g) = None \<Longrightarrow> delay_inv x g"
  by (simp add: delay_inv_def)

lemma policy_debounce: "apply_close_emit_policy schedule now e g = (res, g') \<Longrightarrow> gd_debounce g' = gd_debounce g"
  by (auto simp: apply_close_emit_policy_def split: SondaError.splits OnSinkError.splits)

lemma reject_loop_debounce: "reject_loop schedule now reasons g = (res, g') \<Longrightarrow> gd_debounce g' = gd_debounce g"
  by (induction reasons arbitrary: g) (auto dest: policy_debounce split: prod.splits sum.splits)

lemma close_emit_debounce: "invoke_close_emit x ct g = (res, g') \<Longrightarrow> gd_debounce g' = gd_debounce g"
  by (auto simp: invoke_close_emit_def Let_def split: if_splits prod.splits sum.splits
      dest!: reject_loop_debounce policy_debounce)

text \<open>A state without a timer, and the moves that keep it so.\<close>

definition no_timer :: "GateContext \<Rightarrow> Gated \<Rightarrow> bool" where
  "no_timer x g \<longleftrightarrow> db_delay_open (gd_debounce g) = db_delay_open (DebounceState_from_clause (gx_delay x)) \<and>
     db_pending_open_at (gd_debounce g) = None"

lemma no_timer_delay: "no_timer x g \<Longrightarrow> delay_inv x g"
  by (simp add: no_timer_def delay_inv_def)

lemma delay_no_timer: "delay_inv x g \<Longrightarrow> gd_state g \<noteq> StPaused \<Longrightarrow> gd_state g \<noteq> StHeld \<Longrightarrow> no_timer x g"
  by (simp add: no_timer_def delay_inv_idle) (simp add: delay_inv_def)

lemma no_timer_cong: "gd_debounce g' = gd_debounce g \<Longrightarrow> no_timer x g' = no_timer x g"
  by (simp add: no_timer_def)

lemma no_timer_moves:
  "no_timer x g \<Longrightarrow> no_timer x (closed_after_running x r g)" "no_timer x g \<Longrightarrow> no_timer x (to_unresolved r g)"
  by (simp_all add: no_timer_def move_defs debounce_reset_def)

lemma no_timer_close_emit:
  assumes "no_timer x g" and "\<And>g'. no_timer x g' \<Longrightarrow> no_timer x (f g')"
  shows "result_all (delay_inv x) (delay_inv x) (with_close_emit x r g f)"
proof -
  obtain res g' where e: "invoke_close_emit x (rd_close r) g = (res, g')" by fastforce
  have "no_timer x g'" using no_timer_cong [OF close_emit_debounce [OF e]] assms(1) by simp
  with assms(2) e show ?thesis by (auto simp: with_close_emit_def no_timer_delay split: sum.splits)
qed

lemma running_arms_delay:
  assumes "no_timer x g"
  shows "result_all (delay_inv x) (delay_inv x) (running_arm x r g)"
    "result_all (delay_inv x) (delay_inv x) (unresolved_open_arm x r g)"
proof -
  have seg: "no_timer x (after_segment s trace g)" for s trace
    using assms by (simp add: no_timer_def after_segment_def)
  have upd: "no_timer x (g1 \<lparr> gd_trace := tr \<rparr>)" "no_timer x (g1 \<lparr> gd_while_open := w \<rparr>)" if "no_timer x g1" for g1 tr w
    using that by (simp_all add: no_timer_def)
  have run: "no_timer x ((enter now StRunning False (g1 \<lparr> gd_while_open := True \<rparr>)) \<lparr> gd_debounce := debounce_reset (gd_debounce g1) \<rparr>)"
    if "no_timer x g1" for g1 now
    using that by (simp add: no_timer_def move_defs debounce_reset_def)
  note facts = seg upd run no_timer_moves no_timer_close_emit no_timer_delay
  show "result_all (delay_inv x) (delay_inv x) (running_arm x r g)"
    by (auto simp: running_arm_def Let_def facts split: SegmentResult.splits option.splits prod.splits)
  show "result_all (delay_inv x) (delay_inv x) (unresolved_open_arm x r g)"
    by (auto simp: unresolved_open_arm_def Let_def facts split: SegmentResult.splits SegmentExit.splits)
qed

lemma waiting_arms_delay:
  assumes "no_timer x g"
  shows "result_all (delay_inv x) (delay_inv x) (pending_arm x r g)"
    "result_all (delay_inv x) (delay_inv x) (unresolved_wait_arm x r g)"
  using assms
  by (auto simp: pending_arm_def unresolved_wait_arm_def no_timer_def delay_inv_def Let_def move_defs upstream_gone_def
      debounce_reset_def split: Wait.splits option.splits GateEdge.splits)

definition timer_due :: "Gated \<Rightarrow> nat \<Rightarrow> bool" where
  "timer_due g now \<longleftrightarrow>
     (\<exists>t. last_while (gd_trace g) = Some (WhileOpen, t) \<and> t + db_delay_open (gd_debounce g) \<le> now)"

text \<open>What the paused arm does once the edge is taken into account.\<close>

definition fire :: "nat \<Rightarrow> Gated \<Rightarrow> RoundResult" where
  "fire now g =
     (let (due, d) = debounce_fire_if_due now (gd_debounce g); g = g \<lparr> gd_debounce := d \<rparr>
      in if due = Some WhileOpen \<and> gd_while_open g then RoundContinue (enter now StRunning False g)
         else RoundContinue g)"

lemma fire_delay:
  assumes "delay_inv x g" and "gd_state g = StPaused \<or> gd_state g = StHeld"
  shows "result_all (delay_inv x) (delay_inv x) (fire now g)"
  using assms
  by (auto simp: fire_def debounce_fire_if_due_def delay_inv_def Let_def move_defs split: option.splits if_splits)

lemma fire_running:
  assumes "delay_inv x g" and "gd_state g = StPaused \<or> gd_state g = StHeld"
    and "fire now g = RoundContinue g'" and "gd_state g' = StRunning"
  shows "timer_due g' now"
  using assms
  by (auto simp: fire_def debounce_fire_if_due_def delay_inv_def timer_due_def Let_def move_defs
      split: option.splits if_splits prod.splits)

definition take_edge :: "GateEdge option \<Rightarrow> nat \<Rightarrow> Gated \<Rightarrow> Gated" where
  "take_edge recv now g =
     (case recv of
        Some WhileOpen \<Rightarrow>
          (got_edge WhileOpen now g) \<lparr> gd_while_open := True, gd_debounce := debounce_observe WhileOpen now (gd_debounce g) \<rparr>
      | Some WhileClose \<Rightarrow>
          (got_edge WhileClose now g) \<lparr> gd_while_open := False, gd_debounce := debounce_observe WhileClose now (gd_debounce g) \<rparr>
      | Some AfterFired \<Rightarrow> (got_edge AfterFired now g) \<lparr> gd_after_satisfied := True \<rparr>
      | _ \<Rightarrow> g)"

lemma paused_arm_eq:
  "paused_arm x r g =
     (case rd_wait r of
        WaitCancelled \<Rightarrow> RoundExit ExitShutdown g
      | WaitReceived recv \<Rightarrow>
          if recv = Some UpstreamGone then upstream_gone x r (got_edge UpstreamGone (rd_now r) g)
          else fire (rd_now r) (take_edge recv (rd_now r) g))"
  by (auto simp: paused_arm_def fire_def take_edge_def got_edge_def Let_def
      split: Wait.splits option.splits GateEdge.splits prod.splits)

lemma take_edge_delay:
  assumes "delay_inv x g" and "gd_state g = StPaused \<or> gd_state g = StHeld" and "recv \<noteq> Some UpstreamGone"
  shows "delay_inv x (take_edge recv now g)" "gd_state (take_edge recv now g) = gd_state g"
  using assms
  by (auto simp: take_edge_def delay_inv_def got_edge_def debounce_observe_def split: option.splits GateEdge.splits)

lemma paused_arm_delay:
  assumes "delay_inv x g" and "gd_state g = StPaused \<or> gd_state g = StHeld"
  shows "result_all (delay_inv x) (\<lambda>g. True) (paused_arm x r g)"
proof (cases "rd_wait r")
  case (WaitReceived recv)
  show ?thesis
  proof (cases "recv = Some UpstreamGone")
    case True
    with WaitReceived assms show ?thesis
      by (auto simp: paused_arm_eq upstream_gone_def delay_inv_def move_defs debounce_reset_def)
  next
    case False
    note e = take_edge_delay [OF assms False]
    have "result_all (delay_inv x) (delay_inv x) (fire (rd_now r) (take_edge recv (rd_now r) g))"
      using e assms(2) by (intro fire_delay) simp_all
    with WaitReceived False show ?thesis
      by (cases "fire (rd_now r) (take_edge recv (rd_now r) g)") (auto simp: paused_arm_eq)
  qed
qed (simp add: paused_arm_eq)

text \<open>The states between rounds.\<close>

fun after_rounds :: "GateContext \<Rightarrow> Round list \<Rightarrow> Gated \<Rightarrow> Gated option" where
  "after_rounds x [] g = Some g"
| "after_rounds x (r # rs) g =
     (case gated_round x r g of RoundContinue g' \<Rightarrow> after_rounds x rs g' | _ \<Rightarrow> None)"

lemma gated_round_delay:
  assumes "delay_inv x g" and "gated_round x r g = RoundContinue g'"
  shows "delay_inv x g'"
proof (cases "gd_state g = StPaused \<or> gd_state g = StHeld")
  case True
  then have "gated_round x r g = paused_arm x r g"
    using assms(2) by (auto simp: gated_round_def split: if_splits)
  with paused_arm_delay [OF assms(1) True, of r] assms(2) show ?thesis by simp
next
  case False
  then have n: "no_timer x g" using delay_no_timer [OF assms(1)] by blast
  from assms(2) running_arms_delay [OF n, of r] waiting_arms_delay [OF n, of r] False show ?thesis
    by (auto simp: gated_round_def split: if_splits ScenarioState.splits UnresolvedBehavior.splits)
qed

lemma after_rounds_delay:
  "delay_inv x g \<Longrightarrow> after_rounds x rs g = Some g' \<Longrightarrow> delay_inv x g'"
  by (induction rs arbitrary: g) (auto dest: gated_round_delay split: RoundResult.splits)

definition open_delay :: "GateContext \<Rightarrow> nat" where
  "open_delay x = (case gx_delay x of Some c \<Rightarrow> unwrap_or (dc_open c) 0 | None \<Rightarrow> 0)"

text \<open>
  C20. \<open>delay.open\<close> debounces the gate: whenever a paused or held scenario resumes, the last edge of its \<open>while:\<close> clause
  opened the gate and was taken at least \<open>delay.open\<close> before; a close in between restarts the wait.
\<close>

theorem resume_after_delay:
  assumes "after_rounds x rounds (gated_start x now stats) = Some g" and "gd_state g = StPaused \<or> gd_state g = StHeld"
    and "gated_round x r g = RoundContinue g'" and "gd_state g' = StRunning"
  shows "\<exists>t. last_while (gd_trace g') = Some (WhileOpen, t) \<and> t + open_delay x \<le> rd_now r"
proof -
  have start: "delay_inv x (gated_start x now stats)"
    by (simp add: delay_inv_def gated_start_def Let_def write_state_def DebounceState_from_clause_def split: option.splits)
  have inv: "delay_inv x g" by (rule after_rounds_delay [OF start assms(1)])
  have "paused_arm x r g = RoundContinue g'" using assms(2,3) by (auto simp: gated_round_def split: if_splits)
  then obtain recv where recv: "rd_wait r = WaitReceived recv" "recv \<noteq> Some UpstreamGone"
      "fire (rd_now r) (take_edge recv (rd_now r) g) = RoundContinue g'"
    using assms(4) by (auto simp: paused_arm_eq upstream_gone_def move_defs split: Wait.splits if_splits)
  note e = take_edge_delay [OF inv assms(2) recv(2), of "rd_now r"]
  have "timer_due g' (rd_now r)" using fire_running [OF e(1) _ recv(3) assms(4)] e(2) assms(2) by simp
  moreover have "db_delay_open (gd_debounce g') = open_delay x"
    using gated_round_delay [OF inv assms(3)]
    by (simp add: delay_inv_def DebounceState_from_clause_def open_delay_def split: option.splits)
  ultimately show ?thesis by (simp add: timer_due_def)
qed

section \<open>The end of a scenario\<close>

text \<open>
  A clean end emits the close markers, when there are any to emit, and then writes \<open>finished\<close>; nothing follows.
\<close>

lemma clean_end:
  assumes "gated_loop x rounds now tail_close flush_result stats = Some (Inr (), g)"
  shows "\<exists>trace. gd_trace g = trace @ (if gx_close_emit x then [CloseEmitted] else []) @ [Wrote StFinished]"
    and "\<forall>st. gd_stats g = Some st \<longrightarrow> ss_state st = StFinished"
proof -
  from assms obtain e g1 g2 st res where g1: "gated_rounds x rounds (gated_start x now stats) = RoundExit e g1"
    and g2: "invoke_close_emit x tail_close g1 = (Inr (), g2)"
    and fin: "finalize_sink (gx_schedule x) flush_result (gd_stats (finish now g2)) (Inr ()) = (res, st)"
    and g: "g = (finish now g2) \<lparr> gd_stats := st \<rparr>"
    by (auto simp: gated_loop_def Let_def split: RoundResult.splits prod.splits sum.splits)
  have "gd_trace g2 = gd_trace g1 @ (if gx_close_emit x then [CloseEmitted] else [])"
    using g2 by (auto simp: invoke_close_emit_def Let_def split: if_splits prod.splits sum.splits
        dest!: reject_loop_trace policy_trace)
  with g show "\<exists>trace. gd_trace g = trace @ (if gx_close_emit x then [CloseEmitted] else []) @ [Wrote StFinished]"
    by (simp add: finish_def)
  show "\<forall>st. gd_stats g = Some st \<longrightarrow> ss_state st = StFinished"
    using fin g
    by (auto simp: finalize_sink_def apply_shutdown_flush_policy_def finish_def record_sink_failure_def
        stats_transition_state_def split: sum.splits SondaError.splits OnSinkError.splits option.splits if_splits)
qed

section \<open>Concrete runs\<close>

definition demo_gate :: GateContext where
  "demo_gate = \<lparr> gx_overflow_checks = True, gx_schedule = bare_schedule, gx_rate = f64_of_nat 1, gx_started_at = 0,
     gx_wall = \<lparr> wc_base = 0, wc_scenario_start = 0 \<rparr>,
     gx_initial = \<lparr> is_after_already_fired = False, is_while_gate_open = Some True, is_current_value = 0 \<rparr>,
     gx_delay = None, gx_has_after = False, gx_has_while = True, gx_close_emit = False, gx_if_unresolved = None,
     gx_start_unresolved = False, gx_holds_on_close = False \<rparr>"

definition quiet_round :: "nat \<Rightarrow> Round" where
  "quiet_round now = \<lparr> rd_cancelled = False, rd_top = now, rd_wait = WaitReceived None, rd_now = now,
     rd_segment_start = now, rd_segment = [], rd_cancelled_after = False, rd_after = now, rd_debounce_start = now,
     rd_polls = [],
     rd_close = \<lparr> ct_emit = Inr (), ct_writes = [], ct_rejected = [], ct_flush = Inr (), ct_now = now \<rparr> \<rparr>"

definition edge_round :: "GateEdge \<Rightarrow> nat \<Rightarrow> Round" where
  "edge_round edge now = (quiet_round now) \<lparr> rd_wait := WaitReceived (Some edge) \<rparr>"

definition segment_round :: "nat \<Rightarrow> (Turn \<times> GateEdge list) list \<Rightarrow> nat \<Rightarrow> Round" where
  "segment_round start turns after = (quiet_round start) \<lparr> rd_segment := turns, rd_after := after \<rparr>"

lemmas gate_simps = gated_round_def pending_arm_def running_arm_def paused_arm_def upstream_gone_def with_close_emit_def
  move_defs close_target_state_def duration_expired_def run_running_segment_def schedule_run_def after_segment_def
  drain_edges_def observe_edge_def decode_segment_exit_def segment_codes debounce_close_to_paused_def
  debounce_fire_if_due_def debounce_observe_def debounce_reset_def DebounceState_from_clause_def gated_start_def
  invoke_close_emit_def unwrap_or_def demo_gate_def quiet_round_def edge_round_def segment_round_def wall_at_def

text \<open>Two ticks, a close, a reopening three seconds later, and the next tick after the resume is tick 2.\<close>

definition pause_rounds :: "Round list" where
  "pause_rounds = [quiet_round 0,
     segment_round 0 [(good_turn 0, []), (good_turn 1000000000, [WhileClose]), (good_turn 1000000000, [])] 1000000000,
     edge_round WhileOpen 4000000000,
     segment_round 4000000000 [(good_turn 4000000000, [])] 4000000000]"

lemma pause_run:
  "\<exists>g. gated_rounds demo_gate pause_rounds (gated_start demo_gate 0 None) = RoundWaiting g \<and>
       tick_numbers (gd_trace g) = [0, 1, 2]"
  by (simp add: pause_rounds_def gate_simps run_simps)

theorem silent_while_closed_witness:
  "\<exists>g. gated_rounds demo_gate pause_rounds (gated_start demo_gate 0 None) = RoundWaiting g \<and>
       tick_numbers (gd_trace g) = [0, 1, 2] \<and> ticks_open True (gd_trace g)"
proof -
  obtain g where g: "gated_rounds demo_gate pause_rounds (gated_start demo_gate 0 None) = RoundWaiting g"
    "tick_numbers (gd_trace g) = [0, 1, 2]"
    using pause_run by blast
  have "ticks_open (is_while_gate_open (gx_initial demo_gate) = Some True) (gd_trace g)"
    by (rule silent_while_closed [of demo_gate pause_rounds 0 None]) (simp_all add: g, simp_all add: demo_gate_def)
  with g show ?thesis by (auto simp: demo_gate_def)
qed

theorem ticks_across_pauses_witness:
  "\<exists>g. gated_rounds demo_gate pause_rounds (gated_start demo_gate 0 None) = RoundWaiting g \<and>
       sorted_wrt (<) (tick_numbers (gd_trace g))"
proof -
  obtain g where g: "gated_rounds demo_gate pause_rounds (gated_start demo_gate 0 None) = RoundWaiting g"
    using pause_run by blast
  have "sorted_wrt (<) (tick_numbers (gd_trace g))"
    by (rule ticks_across_pauses [of demo_gate pause_rounds 0 None])
       (simp_all add: g, simp add: demo_gate_def steady_def bare_schedule_def)
  with g show ?thesis by blast
qed

text \<open>With a delay of two seconds, a gate that opens at second 2 lets the scenario run at second 4.\<close>

definition delayed_gate :: GateContext where
  "delayed_gate = demo_gate \<lparr> gx_delay := Some \<lparr> dc_open = Some 2000000000, dc_close = None \<rparr>,
     gx_initial := \<lparr> is_after_already_fired = False, is_while_gate_open = Some False, is_current_value = 0 \<rparr> \<rparr>"

lemma delayed_run:
  "\<exists>g g'. after_rounds delayed_gate [quiet_round 0, edge_round WhileOpen 2000000000] (gated_start delayed_gate 0 None) =
       Some g \<and> gd_state g = StPaused \<and> gated_round delayed_gate (quiet_round 4000000000) g = RoundContinue g' \<and>
     gd_state g' = StRunning"
  by (simp add: delayed_gate_def gate_simps run_simps)

theorem resume_after_delay_witness:
  "\<exists>g g'. gated_round delayed_gate (quiet_round 4000000000) g = RoundContinue g' \<and> gd_state g' = StRunning \<and>
     (\<exists>t. last_while (gd_trace g') = Some (WhileOpen, t) \<and> t + 2000000000 \<le> 4000000000)"
proof -
  obtain g g' where g: "after_rounds delayed_gate [quiet_round 0, edge_round WhileOpen 2000000000]
      (gated_start delayed_gate 0 None) = Some g" "gd_state g = StPaused"
    "gated_round delayed_gate (quiet_round 4000000000) g = RoundContinue g'" "gd_state g' = StRunning"
    using delayed_run by blast
  have "open_delay delayed_gate = 2000000000" by (simp add: open_delay_def delayed_gate_def unwrap_or_def)
  with resume_after_delay [OF g(1) disjI1 [OF g(2)] g(3,4)] g(3,4) show ?thesis
    by (auto simp: quiet_round_def)
qed

section \<open>Where the gate departs from its documentation\<close>

text \<open>
  A reopening taken in the same drain as the close before it is dropped: the segment ends as closed and the scenario
  stays paused, with nothing left to wake it, although the gate is open.
\<close>

lemma reopen_lost:
  "\<exists>g. after_rounds demo_gate [quiet_round 0,
         segment_round 0 [(good_turn 0, [WhileClose, WhileOpen]), (good_turn 0, [])] 0] (gated_start demo_gate 0 None) = Some g \<and>
       gd_state g = StPaused \<and> gate_view True (gd_trace g) \<and>
       gated_round demo_gate (quiet_round now) g = RoundContinue g"
  by (simp add: gate_simps run_simps)

text \<open>
  The loss of the upstream while a close is being debounced is taken as a commit of the close and then forgotten: the
  scenario is paused, where \<open>if_unresolved: open\<close> would have it go on emitting.
\<close>

definition closing_gate :: GateContext where
  "closing_gate = demo_gate \<lparr> gx_if_unresolved := Some UnresolvedOpen,
     gx_delay := Some \<lparr> dc_open = None, dc_close = Some 5000000000 \<rparr> \<rparr>"

lemma gone_while_closing:
  "\<exists>g. after_rounds closing_gate
         [quiet_round 0,
          (segment_round 0 [(good_turn 0, [WhileClose]), (good_turn 0, [])] 0)
            \<lparr> rd_polls := [\<lparr> pl_cancelled = False, pl_top = 0, pl_now = 0, pl_wait = WaitReceived (Some UpstreamGone) \<rparr>] \<rparr>]
         (gated_start closing_gate 0 None) = Some g \<and>
       gd_state g = StPaused"
  by (simp add: closing_gate_def gate_simps run_simps)

definition short_gate :: "nat \<Rightarrow> GateContext" where
  "short_gate limit = demo_gate \<lparr> gx_schedule := bare_schedule \<lparr> ps_total_duration := Some limit \<rparr> \<rparr>"

text \<open>
  The duration of a segment counts from the start of the segment: a scenario of four seconds that was paused
  from second 1 to second 3 still emits at second 5.
\<close>

lemma runs_past_its_duration:
  "\<exists>g. gated_rounds (short_gate 4000000000)
         [quiet_round 0,
          segment_round 0 [(good_turn 0, []), (good_turn 1000000000, [WhileClose]), (good_turn 1000000000, [])] 1000000000,
          edge_round WhileOpen 3000000000,
          segment_round 3000000000
            [(good_turn 3000000000, []), (good_turn 4000000000, []), (good_turn 5000000000, [])] 5000000000]
         (gated_start (short_gate 4000000000) 0 None) = RoundWaiting g \<and>
       list_ex (\<lambda>ev. case ev of Ticked ctx \<Rightarrow> tc_wall_clock ctx = 5000000000 | _ \<Rightarrow> False) (gd_trace g)"
  by (simp add: short_gate_def gate_simps run_simps)

text \<open>
  The inner loop stops as soon as the next slot is past the duration, and the outer one, whose clock is still
  before it, takes that for a close: an open scenario reports \<open>paused\<close> for its last interval.
\<close>

lemma paused_before_the_end:
  "\<exists>g. after_rounds (short_gate 2000000000)
         [quiet_round 0, segment_round 0 [(good_turn 0, []), (good_turn 1000000000, []), (good_turn 1000000000, [])] 1000000000]
         (gated_start (short_gate 2000000000) 0 (Some ScenarioStats_default)) = Some g \<and>
       map_option ss_state (gd_stats g) = Some StPaused \<and> gate_view True (gd_trace g)"
  by (simp add: short_gate_def gate_simps run_simps stats_ok_def set_windows_def stats_transition_state_def
      ScenarioStats_default_def)

end
