(* ===== verification/Generators.thy ===== *)
theory Generators
  imports Durations Util
begin

text \<open>
  The value generators of \<open>generator/\<close>: their configuration, the factory and the value of a tick, in the arithmetic of
  \<open>f64\<close>. The sine of the platform and the reading of a file are parameters.
\<close>

section \<open>Configuration\<close>

datatype FlapEnum = Boolean | LinkState | OperState | AdminState | NeighborState

definition FlapEnum_defaults :: "FlapEnum \<Rightarrow> f64 \<times> f64" where
  "FlapEnum_defaults e =
     (case e of
        Boolean \<Rightarrow> (f64_of_nat 1, f64_of_nat 0)
      | LinkState \<Rightarrow> (f64_of_nat 1, f64_of_nat 0)
      | OperState \<Rightarrow> (f64_of_nat 1, f64_of_nat 2)
      | AdminState \<Rightarrow> (f64_of_nat 1, f64_of_nat 2)
      | NeighborState \<Rightarrow> (f64_of_nat 6, f64_of_nat 1))"

record CsvColumnSpec =
  column_index :: nat
  column_name :: string
  column_labels :: "(string \<rightharpoonup> string) option"

datatype GeneratorConfig =
    Constant f64
  | Uniform f64 f64 "u64 option"
  | Sine f64 f64 f64
  | Sawtooth f64 f64 f64
  | Sequence "f64 list" "bool option"
  | Spike f64 f64 f64 f64
  | CsvReplay string "nat option" "CsvColumnSpec list option" "bool option" "f64 option" "string option"
  | Step "f64 option" f64 "f64 option"
  | Flap "string option" "string option" "f64 option" "f64 option" "FlapEnum option" "string option"
  | Saturation "f64 option" "f64 option" "string option"
  | Leak "f64 option" "f64 option" "string option"
  | Degradation "f64 option" "f64 option" "string option" "f64 option" "u64 option"
  | Steady "f64 option" "f64 option" "string option" "f64 option" "u64 option"
  | SpikeEvent "f64 option" "f64 option" "string option" "string option"

lemma unwrap_or_simps [simp]: "unwrap_or (Some v) d = v" "unwrap_or None d = d"
  by (simp_all add: unwrap_or_def)

fun is_alias :: "GeneratorConfig \<Rightarrow> bool" where
  "is_alias (Flap _ _ _ _ _ _) = True"
| "is_alias (Saturation _ _ _) = True"
| "is_alias (Leak _ _ _) = True"
| "is_alias (Degradation _ _ _ _ _) = True"
| "is_alias (Steady _ _ _ _ _) = True"
| "is_alias (SpikeEvent _ _ _ _) = True"
| "is_alias _ = False"

section \<open>Reading a column of a CSV file\<close>

datatype GeneratorError =
    SequenceEmpty
  | SpikeInterval
  | SpikeDuration
  | ColumnsNotExpanded
  | AliasNotDesugared
  | FileRead string
  | CsvNoValues string nat
  | CsvMissingColumn nat nat nat
  | CsvNotANumber nat nat string

text \<open>\<open>str::lines\<close>: lines end at a line feed, a carriage return before it belongs to the end; no line after the last end.\<close>

definition strip_cr :: "string \<Rightarrow> string" where
  "strip_cr s = (case strip_suffix [CHR 13] s of Some r \<Rightarrow> r | None \<Rightarrow> s)"

definition lines :: "string \<Rightarrow> string list" where
  "lines s =
     (let ws = split_on (CHR 10) s
      in map strip_cr (butlast ws) @ (if last ws = [] then [] else [last ws]))"

definition is_header_line :: "string \<Rightarrow> bool" where
  "is_header_line line =
     (let fields = split_on (CHR '','') line
      in if length fields \<le> 1
         then (case fields of f # _ \<Rightarrow> f64_from_str (trim f) = None | [] \<Rightarrow> False)
         else list_ex (\<lambda>f. f64_from_str (trim f) = None) (drop 1 fields))"

text \<open>The loop over the lines: line number, whether a data line is still to come, the values and the blank rows.\<close>

fun parse_values_loop :: "nat \<Rightarrow> string list \<Rightarrow> nat \<Rightarrow> bool \<Rightarrow> f64 list \<Rightarrow> nat list
    \<Rightarrow> GeneratorError + f64 list \<times> nat list" where
  "parse_values_loop column [] line_no first_data_line values blanks = Inr (values, blanks)"
| "parse_values_loop column (line # rest) line_no first_data_line values blanks =
     (let trimmed = trim line
      in if trimmed = [] \<or> starts_with trimmed ''#''
         then parse_values_loop column rest (line_no + 1) first_data_line values blanks
         else if first_data_line \<and> is_header_line trimmed
         then parse_values_loop column rest (line_no + 1) False values blanks
         else
           let fields = split_on (CHR '','') trimmed
           in if length fields \<le> column then Inl (CsvMissingColumn line_no (length fields) column)
              else
                let cell = trim (fields ! column)
                in if cell = []
                   then parse_values_loop column rest (line_no + 1) False (values @ [f64_nan]) (blanks @ [length values])
                   else
                     case f64_from_str cell of
                       None \<Rightarrow> Inl (CsvNotANumber line_no column cell)
                     | Some v \<Rightarrow> parse_values_loop column rest (line_no + 1) False (values @ [v]) blanks)"

definition parse_values_and_gaps :: "string \<Rightarrow> nat \<Rightarrow> GeneratorError + f64 list \<times> nat list" where
  "parse_values_and_gaps content column = parse_values_loop column (lines content) 1 True [] []"

section \<open>Generators\<close>

datatype ValueGenerator =
    ConstantGen f64
  | UniformRandom f64 f64 u64
  | SineGen f64 f64 f64
  | SawtoothGen f64 f64 f64
  | SpikeGenerator f64 f64 f64 f64
  | SequenceGenerator "f64 list" bool
  | CsvReplayGenerator "f64 list" bool
  | StepGenerator f64 f64 "f64 option"
  | JitterWrapper ValueGenerator f64 u64

definition Sine_new :: "f64 \<Rightarrow> f64 \<Rightarrow> f64 \<Rightarrow> f64 \<Rightarrow> ValueGenerator" where
  "Sine_new amplitude period_secs offset rate = SineGen amplitude (f64_mul period_secs rate) offset"

definition Sawtooth_new :: "f64 \<Rightarrow> f64 \<Rightarrow> f64 \<Rightarrow> f64 \<Rightarrow> ValueGenerator" where
  "Sawtooth_new lo hi period_secs rate = SawtoothGen lo hi (f64_mul period_secs rate)"

definition SpikeGenerator_new :: "f64 \<Rightarrow> f64 \<Rightarrow> f64 \<Rightarrow> f64 \<Rightarrow> f64 \<Rightarrow> ValueGenerator" where
  "SpikeGenerator_new baseline magnitude duration_secs interval_secs rate =
     SpikeGenerator baseline magnitude (f64_mul duration_secs rate) (f64_mul interval_secs rate)"

definition SequenceGenerator_new :: "f64 list \<Rightarrow> bool \<Rightarrow> GeneratorError + ValueGenerator" where
  "SequenceGenerator_new values repeat =
     (if values = [] then Inl SequenceEmpty else Inr (SequenceGenerator values repeat))"

definition CsvReplayGenerator_new ::
  "(string \<Rightarrow> string option) \<Rightarrow> string \<Rightarrow> nat \<Rightarrow> bool \<Rightarrow> GeneratorError + ValueGenerator" where
  "CsvReplayGenerator_new read_file path column repeat =
     (case read_file path of
        None \<Rightarrow> Inl (FileRead path)
      | Some content \<Rightarrow>
          rbind (parse_values_and_gaps content column) (\<lambda>(values, _).
            if values = [] then Inl (CsvNoValues path column) else Inr (CsvReplayGenerator values repeat)))"

fun create_generator ::
  "(string \<Rightarrow> string option) \<Rightarrow> GeneratorConfig \<Rightarrow> f64 \<Rightarrow> GeneratorError + ValueGenerator" where
  "create_generator read_file (Constant v) rate = Inr (ConstantGen v)"
| "create_generator read_file (Uniform lo hi seed) rate = Inr (UniformRandom lo hi (unwrap_or seed 0))"
| "create_generator read_file (Sine amplitude period_secs offset) rate =
     Inr (Sine_new amplitude period_secs offset rate)"
| "create_generator read_file (Sawtooth lo hi period_secs) rate = Inr (Sawtooth_new lo hi period_secs rate)"
| "create_generator read_file (Spike baseline magnitude duration_secs interval_secs) rate =
     (if f64_le interval_secs 0 then Inl SpikeInterval
      else if f64_lt duration_secs 0 then Inl SpikeDuration
      else Inr (SpikeGenerator_new baseline magnitude duration_secs interval_secs rate))"
| "create_generator read_file (Sequence values repeat) rate = SequenceGenerator_new values (unwrap_or repeat True)"
| "create_generator read_file (CsvReplay file column columns repeat timescale default_metric_name) rate =
     (if columns \<noteq> None then Inl ColumnsNotExpanded
      else CsvReplayGenerator_new read_file file (unwrap_or column 0) (unwrap_or repeat True))"
| "create_generator read_file (Step start step_size max_val) rate = Inr (StepGenerator (unwrap_or start 0) step_size max_val)"
| "create_generator read_file _ rate = Inl AliasNotDesugared"

definition JITTER_MAGIC :: u64 where
  "JITTER_MAGIC = 0xa0761d6478bd642f"

definition F64_PI :: f64 where
  "F64_PI = 0x400921FB54442D18"

text \<open>A hash as a fraction of \<open>u64::MAX\<close>.\<close>

definition hash_unit :: "u64 \<Rightarrow> f64" where
  "hash_unit h = f64_div (f64_of_nat (unat h)) (f64_of_nat (2 ^ 64 - 1))"

definition slot :: "f64 list \<Rightarrow> bool \<Rightarrow> u64 \<Rightarrow> nat" where
  "slot values repeat tick =
     (if repeat then unat tick mod length values else min (unat tick) (length values - 1))"

definition uniform_value :: "f64 \<Rightarrow> f64 \<Rightarrow> u64 \<Rightarrow> u64 \<Rightarrow> f64" where
  "uniform_value lo hi seed tick = f64_add lo (f64_mul (hash_unit (splitmix64 (seed XOR tick))) (f64_sub hi lo))"

definition sine_value :: "(f64 \<Rightarrow> f64) \<Rightarrow> f64 \<Rightarrow> f64 \<Rightarrow> f64 \<Rightarrow> u64 \<Rightarrow> f64" where
  "sine_value sin amplitude period_ticks offset tick =
     f64_add offset (f64_mul amplitude
       (sin (f64_div (f64_mul (f64_mul (f64_of_nat 2) F64_PI) (f64_of_nat (unat tick))) period_ticks)))"

definition sawtooth_value :: "f64 \<Rightarrow> f64 \<Rightarrow> f64 \<Rightarrow> u64 \<Rightarrow> f64" where
  "sawtooth_value lo hi period_ticks tick =
     (let position = f64_rem (f64_of_nat (unat tick)) period_ticks; fraction = f64_div position period_ticks
      in f64_add lo (f64_mul fraction (f64_sub hi lo)))"

definition spike_value :: "f64 \<Rightarrow> f64 \<Rightarrow> f64 \<Rightarrow> f64 \<Rightarrow> u64 \<Rightarrow> f64" where
  "spike_value baseline magnitude duration_ticks interval_ticks tick =
     (let position = f64_rem (f64_of_nat (unat tick)) interval_ticks
      in if f64_lt position duration_ticks then f64_add baseline magnitude else baseline)"

definition sequence_value :: "f64 list \<Rightarrow> bool \<Rightarrow> u64 \<Rightarrow> f64" where
  "sequence_value values repeat tick = values ! slot values repeat tick"

definition csv_replay_value :: "f64 list \<Rightarrow> bool \<Rightarrow> u64 \<Rightarrow> f64" where
  "csv_replay_value values repeat tick = values ! slot values repeat tick"

definition step_value :: "f64 \<Rightarrow> f64 \<Rightarrow> f64 option \<Rightarrow> u64 \<Rightarrow> f64" where
  "step_value start step_size max_val tick =
     (let raw = f64_mul (f64_of_nat (unat tick)) step_size
      in case max_val of
           Some m \<Rightarrow>
             if f64_lt start m then f64_add start (f64_rem_euclid raw (f64_sub m start)) else f64_add start raw
         | None \<Rightarrow> f64_add start raw)"

definition jitter_value :: "f64 \<Rightarrow> f64 \<Rightarrow> u64 \<Rightarrow> u64 \<Rightarrow> f64" where
  "jitter_value base half_range seed tick =
     (let unit = hash_unit (splitmix64 (seed XOR tick XOR JITTER_MAGIC));
          noise = f64_sub (f64_mul (f64_mul unit (f64_of_nat 2)) half_range) half_range
      in f64_add base noise)"

fun generator_value :: "(f64 \<Rightarrow> f64) \<Rightarrow> ValueGenerator \<Rightarrow> u64 \<Rightarrow> f64" where
  "generator_value sin (ConstantGen v) tick = v"
| "generator_value sin (UniformRandom lo hi seed) tick = uniform_value lo hi seed tick"
| "generator_value sin (SineGen amplitude period_ticks offset) tick = sine_value sin amplitude period_ticks offset tick"
| "generator_value sin (SawtoothGen lo hi period_ticks) tick = sawtooth_value lo hi period_ticks tick"
| "generator_value sin (SpikeGenerator baseline magnitude duration_ticks interval_ticks) tick =
     spike_value baseline magnitude duration_ticks interval_ticks tick"
| "generator_value sin (SequenceGenerator values repeat) tick = sequence_value values repeat tick"
| "generator_value sin (CsvReplayGenerator values repeat) tick = csv_replay_value values repeat tick"
| "generator_value sin (StepGenerator start step_size max_val) tick = step_value start step_size max_val tick"
| "generator_value sin (JitterWrapper inner half_range seed) tick =
     jitter_value (generator_value sin inner tick) half_range seed tick"

definition wrap_with_jitter :: "ValueGenerator \<Rightarrow> f64 option \<Rightarrow> u64 option \<Rightarrow> ValueGenerator" where
  "wrap_with_jitter generator jitter jitter_seed =
     (case jitter of
        Some j \<Rightarrow> if \<not> f64_eq j 0 then JitterWrapper generator j (unwrap_or jitter_seed 0) else generator
      | None \<Rightarrow> generator)"

section \<open>Every generator answers every tick\<close>

text \<open>Whether the value of a tick is read from within the values of the generator.\<close>

fun answers :: "ValueGenerator \<Rightarrow> u64 \<Rightarrow> bool" where
  "answers (SequenceGenerator values repeat) tick \<longleftrightarrow> slot values repeat tick < length values"
| "answers (CsvReplayGenerator values repeat) tick \<longleftrightarrow> slot values repeat tick < length values"
| "answers (JitterWrapper inner _ _) tick \<longleftrightarrow> answers inner tick"
| "answers _ tick \<longleftrightarrow> True"

lemma slot_less: "values \<noteq> [] \<Longrightarrow> slot values repeat tick < length values"
  by (cases "values") (auto simp: slot_def intro: mod_less_divisor)

lemma wrap_answers: "answers (wrap_with_jitter g jitter seed) tick \<longleftrightarrow> answers g tick"
  by (simp add: wrap_with_jitter_def split: option.split)

text \<open>
  C21. A configuration that is not an alias is either refused or makes a generator that, wrapped with jitter or not, reads
  the value of every tick from within its values; an alias is always refused.
\<close>

theorem create_generator_answers:
  "case create_generator read_file config rate of
     Inr g \<Rightarrow> \<not> is_alias config \<and> (\<forall>tick. answers (wrap_with_jitter g jitter jitter_seed) tick)
   | Inl e \<Rightarrow> (e = AliasNotDesugared) = is_alias config"
proof (cases config)
  case (Sequence vs repeat)
  then show ?thesis by (auto simp: SequenceGenerator_new_def wrap_answers slot_less)
next
  case (CsvReplay path column columns repeat timescale name)
  have "parse_values_and_gaps content c \<noteq> Inl AliasNotDesugared" for content c
  proof -
    have "parse_values_loop c ls n b vs bs \<noteq> Inl AliasNotDesugared" for ls n b vs bs
      by (induction c ls n b vs bs rule: parse_values_loop.induct) (simp_all add: Let_def split: option.split)
    then show ?thesis by (simp add: parse_values_and_gaps_def)
  qed
  then show ?thesis
    by (auto simp: CsvReplay CsvReplayGenerator_new_def wrap_answers slot_less sonda_simps
        split: option.splits sum.splits prod.splits if_splits)
qed (auto simp: wrap_answers Sine_new_def Sawtooth_new_def SpikeGenerator_new_def)

end
