(* ===== verification/Timing.thy ===== *)
theory Timing
  imports Generators
begin

text \<open>
  The crossing times of \<open>compiler/timing.rs\<close> and their dispatch in \<open>compile_after.rs\<close>: when a generator first satisfies a
  comparison, in seconds. An error is its variant; the messages are not modelled.
\<close>

datatype Operator = LessThan | GreaterThan

datatype TimingError =
    OutOfRange
  | Ambiguous
  | Unsupported
  | TimingInvalidDuration string string DurationError

definition holds :: "Operator \<Rightarrow> f64 \<Rightarrow> f64 \<Rightarrow> bool" where
  "holds op threshold v =
     (case op of LessThan \<Rightarrow> f64_lt v threshold | GreaterThan \<Rightarrow> f64_lt threshold v)"

definition flap_crossing_secs ::
  "Operator \<Rightarrow> f64 \<Rightarrow> f64 \<Rightarrow> f64 \<Rightarrow> f64 \<Rightarrow> f64 \<Rightarrow> f64 \<Rightarrow> TimingError + f64" where
  "flap_crossing_secs op threshold up_duration_secs down_duration_secs up_value down_value phase_secs =
     (let cycle_secs = f64_add up_duration_secs down_duration_secs;
          into_cycle = (if f64_lt 0 cycle_secs \<and> f64_is_finite phase_secs \<and> f64_lt 0 phase_secs
                        then f64_rem_euclid phase_secs cycle_secs else 0);
          starts_up = (f64_eq into_cycle 0 \<or> f64_lt into_cycle up_duration_secs);
          up_holds = holds op threshold up_value;
          down_holds = holds op threshold down_value;
          starts_where_it_holds = (if starts_up then up_holds else down_holds)
      in if \<not> up_holds \<and> \<not> down_holds then Inl OutOfRange
         else if up_holds \<and> down_holds then Inl Ambiguous
         else if starts_where_it_holds then Inl Ambiguous
         else if starts_up then Inr (f64_sub up_duration_secs into_cycle)
         else Inr (f64_sub cycle_secs into_cycle))"

definition F64_EPSILON :: f64 where
  "F64_EPSILON = 0x3CB0000000000000"

definition sawtooth_crossing_secs :: "Operator \<Rightarrow> f64 \<Rightarrow> f64 \<Rightarrow> f64 \<Rightarrow> f64 \<Rightarrow> TimingError + f64" where
  "sawtooth_crossing_secs op threshold baseline ceiling period_secs =
     (let rng = f64_sub ceiling baseline;
          (lo, hi) = (if f64_le baseline ceiling then (baseline, ceiling) else (ceiling, baseline))
      in if f64_lt (f64_abs rng) F64_EPSILON then Inl OutOfRange
         else
           case op of
             GreaterThan \<Rightarrow>
               if f64_le hi threshold then Inl OutOfRange
               else if f64_lt threshold lo then Inl Ambiguous
               else Inr (f64_mul (f64_div (f64_sub threshold baseline) rng) period_secs)
           | LessThan \<Rightarrow>
               if f64_le threshold lo then Inl OutOfRange
               else if f64_lt hi threshold then Inl Ambiguous
               else if f64_lt baseline threshold then Inl Ambiguous
               else Inl OutOfRange)"

definition spike_crossing_secs :: "Operator \<Rightarrow> f64 \<Rightarrow> f64 \<Rightarrow> f64 \<Rightarrow> f64 \<Rightarrow> TimingError + f64" where
  "spike_crossing_secs op threshold baseline spike_height spike_duration_secs =
     (let peak = f64_add baseline spike_height; lo = f64_min baseline peak; hi = f64_max baseline peak
      in case op of
           GreaterThan \<Rightarrow>
             if f64_le hi threshold then Inl OutOfRange
             else if f64_lt threshold lo then Inl Ambiguous
             else if f64_lt threshold peak then Inl Ambiguous
             else Inl OutOfRange
         | LessThan \<Rightarrow>
             if f64_le threshold lo then Inl OutOfRange
             else if f64_lt hi threshold then Inl Ambiguous
             else if f64_lt baseline threshold then Inr spike_duration_secs
             else Inl OutOfRange)"

definition steady_crossing_secs :: "TimingError + f64" where
  "steady_crossing_secs = Inl Unsupported"

definition rate_ok :: "f64 \<Rightarrow> bool" where
  "rate_ok rate \<longleftrightarrow> \<not> (\<not> f64_is_finite rate \<or> f64_le rate 0)"

definition step_crossing_secs ::
  "Operator \<Rightarrow> f64 \<Rightarrow> f64 \<Rightarrow> f64 \<Rightarrow> f64 option \<Rightarrow> f64 \<Rightarrow> TimingError + f64" where
  "step_crossing_secs op threshold start step_size max_val rate =
     (if \<not> rate_ok rate then Inl OutOfRange
      else
        case op of
          LessThan \<Rightarrow> Inl Unsupported
        | GreaterThan \<Rightarrow>
            if f64_eq step_size 0 then Inl OutOfRange
            else if f64_lt step_size 0 then Inl OutOfRange
            else if f64_lt threshold start then Inl Ambiguous
            else
              let delta = f64_sub threshold start;
                  first = f64_ceil (f64_div delta step_size);
                  ticks = (if f64_le first 0 then f64_of_nat 1
                           else if f64_le (f64_add start (f64_mul first step_size)) threshold
                           then f64_add first (f64_of_nat 1) else first);
                  wraps = (case max_val of
                             Some m \<Rightarrow> f64_lt start m
                               \<and> (f64_le m threshold \<or> f64_le m (f64_add start (f64_mul ticks step_size)))
                           | None \<Rightarrow> False)
              in if wraps then Inl OutOfRange else Inr (f64_div ticks rate))"

fun sequence_scan :: "Operator \<Rightarrow> f64 \<Rightarrow> f64 \<Rightarrow> nat \<Rightarrow> f64 list \<Rightarrow> TimingError + f64" where
  "sequence_scan op threshold rate i [] = Inl OutOfRange"
| "sequence_scan op threshold rate i (v # vs) =
     (if holds op threshold v
      then (if i = 0 then Inl Ambiguous else Inr (f64_div (f64_of_nat i) rate))
      else sequence_scan op threshold rate (i + 1) vs)"

definition sequence_crossing_secs ::
  "Operator \<Rightarrow> f64 \<Rightarrow> f64 list \<Rightarrow> bool option \<Rightarrow> f64 \<Rightarrow> TimingError + f64" where
  "sequence_crossing_secs op threshold values repeat rate =
     (if \<not> rate_ok rate then Inl OutOfRange
      else if values = [] then Inl OutOfRange
      else sequence_scan op threshold rate 0 values)"

definition constant_crossing_secs :: "Operator \<Rightarrow> f64 \<Rightarrow> f64 \<Rightarrow> TimingError + f64" where
  "constant_crossing_secs op threshold v = (if holds op threshold v then Inl Ambiguous else Inl OutOfRange)"

definition sine_crossing_secs :: "TimingError + f64" where
  "sine_crossing_secs = Inl Unsupported"

definition uniform_crossing_secs :: "TimingError + f64" where
  "uniform_crossing_secs = Inl Unsupported"

definition csv_replay_crossing_secs :: "TimingError + f64" where
  "csv_replay_crossing_secs = Inl Unsupported"

section \<open>Dispatch\<close>

definition duration_or_default :: "string option \<Rightarrow> f64 \<Rightarrow> string \<Rightarrow> TimingError + f64" where
  "duration_or_default input default_secs field =
     (case input of
        Some s \<Rightarrow> map_err (TimingInvalidDuration field s) (rbind (parse_duration s) (\<lambda>d. Inr (as_secs_f64 d)))
      | None \<Rightarrow> Inr default_secs)"

definition offset_or_zero :: "string option \<Rightarrow> string \<Rightarrow> TimingError + f64" where
  "offset_or_zero input field =
     (case input of
        Some s \<Rightarrow> map_err (TimingInvalidDuration field s) (rbind (parse_offset_duration s) (\<lambda>d. Inr (as_secs_f64 d)))
      | None \<Rightarrow> Inr 0)"

fun crossing_secs :: "GeneratorConfig \<Rightarrow> Operator \<Rightarrow> f64 \<Rightarrow> f64 \<Rightarrow> TimingError + f64" where
  "crossing_secs (Constant v) op threshold rate = constant_crossing_secs op threshold v"
| "crossing_secs (Uniform _ _ _) op threshold rate = uniform_crossing_secs"
| "crossing_secs (Sine _ _ _) op threshold rate = sine_crossing_secs"
| "crossing_secs (CsvReplay _ _ _ _ _ _) op threshold rate = csv_replay_crossing_secs"
| "crossing_secs (Sawtooth lo hi period_secs) op threshold rate = sawtooth_crossing_secs op threshold lo hi period_secs"
| "crossing_secs (Sequence values repeat) op threshold rate = sequence_crossing_secs op threshold values repeat rate"
| "crossing_secs (Step start step_size max_val) op threshold rate =
     step_crossing_secs op threshold (unwrap_or start 0) step_size max_val rate"
| "crossing_secs (Spike baseline magnitude duration_secs _) op threshold rate =
     spike_crossing_secs op threshold baseline magnitude duration_secs"
| "crossing_secs (Flap up_duration down_duration up_value down_value enum_kind phase) op threshold rate =
     rbind (duration_or_default up_duration (f64_of_nat 10) ''flap.up_duration'') (\<lambda>up_secs.
     rbind (duration_or_default down_duration (f64_of_nat 5) ''flap.down_duration'') (\<lambda>down_secs.
     rbind (offset_or_zero phase ''flap.phase'') (\<lambda>phase_secs.
       let (up_default, down_default) = unwrap_or (map_option FlapEnum_defaults enum_kind) (f64_of_nat 1, 0)
       in flap_crossing_secs op threshold up_secs down_secs (unwrap_or up_value up_default)
            (unwrap_or down_value down_default) phase_secs)))"
| "crossing_secs (Saturation baseline ceiling time_to_saturate) op threshold rate =
     rbind (duration_or_default time_to_saturate (f64_mul (f64_of_nat 5) (f64_of_nat 60)) ''saturation.time_to_saturate'')
       (sawtooth_crossing_secs op threshold (unwrap_or baseline 0) (unwrap_or ceiling (f64_of_nat 100)))"
| "crossing_secs (Leak baseline ceiling time_to_ceiling) op threshold rate =
     rbind (duration_or_default time_to_ceiling (f64_mul (f64_of_nat 10) (f64_of_nat 60)) ''leak.time_to_ceiling'')
       (sawtooth_crossing_secs op threshold (unwrap_or baseline 0) (unwrap_or ceiling (f64_of_nat 100)))"
| "crossing_secs (Degradation baseline ceiling time_to_degrade _ _) op threshold rate =
     rbind (duration_or_default time_to_degrade (f64_mul (f64_of_nat 5) (f64_of_nat 60)) ''degradation.time_to_degrade'')
       (sawtooth_crossing_secs op threshold (unwrap_or baseline 0) (unwrap_or ceiling (f64_of_nat 100)))"
| "crossing_secs (Steady _ _ _ _ _) op threshold rate = steady_crossing_secs"
| "crossing_secs (SpikeEvent baseline spike_height spike_duration _) op threshold rate =
     rbind (duration_or_default spike_duration (f64_of_nat 10) ''spike_event.spike_duration'')
       (spike_crossing_secs op threshold (unwrap_or baseline 0) (unwrap_or spike_height (f64_of_nat 100)))"

section \<open>A sequence is crossed at the first tick that satisfies the comparison\<close>

lemma sequence_scan_Inr:
  "sequence_scan op threshold rate i vs = Inr t \<Longrightarrow>
   \<exists>k < length vs. t = f64_div (f64_of_nat (i + k)) rate \<and> 0 < i + k
     \<and> holds op threshold (vs ! k) \<and> (\<forall>j < k. \<not> holds op threshold (vs ! j))"
proof (induction vs arbitrary: i)
  case (Cons v vs)
  show ?case
  proof (cases "holds op threshold v")
    case True
    with Cons.prems show ?thesis by (intro exI [of _ 0]) (auto split: if_splits)
  next
    case False
    with Cons.prems have "sequence_scan op threshold rate (i + 1) vs = Inr t" by simp
    from Cons.IH [OF this] obtain k where k: "k < length vs" "t = f64_div (f64_of_nat (i + 1 + k)) rate"
      "holds op threshold (vs ! k)" "\<forall>j < k. \<not> holds op threshold (vs ! j)" by blast
    from k False show ?thesis by (intro exI [of _ "Suc k"]) (auto simp: less_Suc_eq_0_disj)
  qed
qed simp

lemma sequence_scan_Inl:
  "sequence_scan op threshold rate i vs = Inl e \<Longrightarrow>
   (e = Ambiguous \<and> i = 0 \<and> vs \<noteq> [] \<and> holds op threshold (hd vs))
   \<or> (e = OutOfRange \<and> (\<forall>v \<in> set vs. \<not> holds op threshold v))"
proof (induction vs arbitrary: i)
  case (Cons v vs)
  then show ?case by (cases "holds op threshold v") (auto split: if_splits)
qed simp

lemma slot_small: "unat tick < length values \<Longrightarrow> slot values repeat tick = unat tick"
  by (simp add: slot_def)

text \<open>
  C12. Let a \<open>sequence\<close> target be created from its configuration, at a rate that is positive and finite. The crossing time is
  then found exactly when the comparison fails at the first tick and holds at some tick, and it is the number of the
  first such tick divided by the rate. It is refused as ambiguous exactly when the comparison holds at the first tick,
  and as out of range exactly when it holds at no tick at all, whether the sequence repeats or holds its last value.
\<close>

theorem sequence_crossing_first_tick:
  assumes "create_generator read_file (Sequence values repeat) rate = Inr g" and "rate_ok rate"
    and "length values < 2 ^ 64"
  shows "case crossing_secs (Sequence values repeat) op threshold rate of
    Inr t \<Rightarrow> \<exists>tick :: u64. t = f64_div (f64_of_nat (unat tick)) rate \<and> 0 < tick
      \<and> holds op threshold (generator_value sin g tick)
      \<and> (\<forall>earlier < tick. \<not> holds op threshold (generator_value sin g earlier))
  | Inl e \<Rightarrow> (e = Ambiguous \<and> holds op threshold (generator_value sin g 0))
      \<or> (e = OutOfRange \<and> (\<forall>tick. \<not> holds op threshold (generator_value sin g tick)))"
proof -
  from assms(1) have ne: "values \<noteq> []" and g: "g = SequenceGenerator values (unwrap_or repeat True)"
    by (auto simp: SequenceGenerator_new_def split: if_splits)
  have val: "generator_value sin g tick = values ! unat tick" if "unat tick < length values" for tick
    using that by (simp add: g sequence_value_def slot_small)
  have cross: "crossing_secs (Sequence values repeat) op threshold rate = sequence_scan op threshold rate 0 values"
    using assms(2) ne by (simp add: sequence_crossing_secs_def)
  show ?thesis
  proof (cases "sequence_scan op threshold rate 0 values")
    case (Inr t)
    from sequence_scan_Inr [OF this] obtain k where k: "k < length values" "t = f64_div (f64_of_nat k) rate" "0 < k"
      "holds op threshold (values ! k)" "\<forall>j < k. \<not> holds op threshold (values ! j)" by auto
    define tick :: u64 where "tick = of_nat k"
    have "k < 2 ^ 64" using k(1) assms(3) by simp
    then have tick: "unat tick = k" by (simp add: tick_def)
    have "0 < tick" using k(3) tick by (simp add: word_less_nat_alt)
    moreover have "\<not> holds op threshold (generator_value sin g earlier)" if "earlier < tick" for earlier
      using that k tick val [of earlier] by (simp add: word_less_nat_alt)
    ultimately show ?thesis using Inr cross k tick val [of tick] by (auto intro!: exI [of _ tick])
  next
    case (Inl e)
    from sequence_scan_Inl [OF this] show ?thesis
      using Inl cross ne val [of 0] slot_less [OF ne] by (auto simp: g sequence_value_def hd_conv_nth)
  qed
qed

lemma rate_ok_small: "small_nat n \<Longrightarrow> 0 < n \<Longrightarrow> rate_ok (f64_of_nat n)"
proof -
  assume n: "small_nat n" "0 < n"
  have "\<not> f64_le (f64_of_nat n) 0" by (rule dyadic_positive [OF dyadic_of_nat [OF n(1)] n(2)])
  moreover have "f64_is_finite (f64_of_nat n)"
  proof -
    have "f64_magnitude (f64_of_nat n) < 2047 * 2 ^ 52" using small_nat_exact(2) [OF n(1)] by (simp add: F64_INF_def)
    then show ?thesis by (simp add: f64_is_finite_def f64_exponent_def less_mult_imp_div_less)
  qed
  ultimately show ?thesis by (simp add: rate_ok_def)
qed

theorem sequence_crossing_first_tick_witness:
  "case crossing_secs (Sequence [f64_of_nat 3, f64_of_nat 8] None) GreaterThan (f64_of_nat 5) (f64_of_nat 2) of
    Inr t \<Rightarrow> \<exists>tick :: u64. t = f64_div (f64_of_nat (unat tick)) (f64_of_nat 2) \<and> 0 < tick
      \<and> holds GreaterThan (f64_of_nat 5) (generator_value id (SequenceGenerator [f64_of_nat 3, f64_of_nat 8] True) tick)
      \<and> (\<forall>earlier < tick. \<not> holds GreaterThan (f64_of_nat 5)
            (generator_value id (SequenceGenerator [f64_of_nat 3, f64_of_nat 8] True) earlier))
  | Inl e \<Rightarrow> (e = Ambiguous
        \<and> holds GreaterThan (f64_of_nat 5) (generator_value id (SequenceGenerator [f64_of_nat 3, f64_of_nat 8] True) 0))
      \<or> (e = OutOfRange \<and> (\<forall>tick. \<not> holds GreaterThan (f64_of_nat 5)
            (generator_value id (SequenceGenerator [f64_of_nat 3, f64_of_nat 8] True) tick)))"
proof (rule sequence_crossing_first_tick [where read_file = "\<lambda>_. None"])
  show "rate_ok (f64_of_nat 2)" by (rule rate_ok_small) (simp_all add: small_nat_def)
qed (simp_all add: SequenceGenerator_new_def)

section \<open>A falling sawtooth\<close>

lemma f64_make_abs: "m < 2 ^ 63 \<Longrightarrow> f64_abs (f64_make neg m) = f64_make False m"
proof -
  assume m: "m < 2 ^ 63"
  then have "\<not> bit m 63" by (simp add: bit_iff_odd)
  then have nb: "\<not> bit (of_nat m :: f64) 63"
    using bit_unsigned_iff [of "of_nat m :: f64" 63, where 'a = nat] m by simp
  show ?thesis
    by (rule bit_word_eqI) (use nb in \<open>auto simp: f64_abs_def f64_make_def bit_unset_bit_iff bit_set_bit_iff\<close>)
qed

lemma f64_round_abs: "f64_abs (f64_round neg num den) = f64_round False num den"
  using f64_make_abs [of "f64_nearest num den" neg] f64_nearest_le [of num den] F64_INF_less
  by (simp add: f64_round_def)

lemma small_nat_sub_less:
  assumes "small_nat m" and "small_nat n" and "m < n"
  shows "f64_sub (f64_of_nat m) (f64_of_nat n) = f64_round True ((n - m) * F64_ONE) 1"
proof -
  define k where "k = (n - m) * F64_ONE"
  have "0 < k" using assms(3) by (simp add: k_def)
  have "f64_units (f64_of_nat m) - f64_units (f64_of_nat n) = - int k"
    using assms by (simp add: small_nat_key k_def algebra_simps of_nat_diff)
  with \<open>0 < k\<close> show ?thesis
    using assms(1,2) by (simp add: f64_sub_def f64_add_def f64_neg_parts flip: k_def)
qed

lemma dyadic_epsilon: "dyadic F64_EPSILON 1 52"
proof -
  have m: "f64_magnitude F64_EPSILON = 971 * 2 ^ 52" by (simp add: f64_magnitude_def F64_EPSILON_def take_bit_eq_mod)
  have "units_of (971 * 2 ^ 52) * 2 ^ 52 = 2 ^ 52 * 2 ^ 970 * 2 ^ 52" by (simp add: units_of_def)
  also have "\<dots> = 2 ^ (52 + 970 + 52)" by (simp only: power_add)
  also have "\<dots> = F64_ONE" by (simp add: F64_ONE_def)
  finally show ?thesis
    using m by (simp add: dyadic_def f64_abs_units_def F64_INF_def f64_sign_def F64_EPSILON_def)
qed

lemma sawtooth_falling:
  assumes "small_nat b" and "c \<le> t" and "t < b"
  shows "\<exists>secs. crossing_secs (Sawtooth (f64_of_nat b) (f64_of_nat c) period) GreaterThan (f64_of_nat t) rate = Inr secs"
    and "holds GreaterThan (f64_of_nat t) (f64_of_nat b)"
    and "c < t \<Longrightarrow> crossing_secs (Sawtooth (f64_of_nat b) (f64_of_nat c) period) LessThan (f64_of_nat t) rate = Inl OutOfRange"
proof -
  have small: "small_nat c" "small_nat t" "small_nat (b - c)" using assms by (simp_all add: small_nat_def)
  have "f64_abs (f64_sub (f64_of_nat c) (f64_of_nat b)) = f64_of_nat (b - c)"
    using small_nat_sub_less [of c b] assms small by (simp add: f64_round_abs f64_of_nat_def)
  then have wide: "\<not> f64_lt (f64_abs (f64_sub (f64_of_nat c) (f64_of_nat b))) F64_EPSILON"
    using dyadic_lt [OF dyadic_of_nat [OF small(3)] dyadic_epsilon] assms by simp
  note le = dyadic_le [OF dyadic_of_nat dyadic_of_nat]
  show "\<exists>secs. crossing_secs (Sawtooth (f64_of_nat b) (f64_of_nat c) period) GreaterThan (f64_of_nat t) rate = Inr secs"
    using wide assms small by (simp add: sawtooth_crossing_secs_def le small_nat_lt)
  show "holds GreaterThan (f64_of_nat t) (f64_of_nat b)"
    using assms small by (simp add: holds_def small_nat_lt)
  show "crossing_secs (Sawtooth (f64_of_nat b) (f64_of_nat c) period) LessThan (f64_of_nat t) rate = Inl OutOfRange" if "c < t"
    using that wide assms small by (simp add: sawtooth_crossing_secs_def le small_nat_lt)
qed

lemma f64_round_zero: "0 < d \<Longrightarrow> f64_round neg 0 d = f64_make neg 0"
  by (simp add: f64_round_def f64_nearest_def round_half_even_def)

lemma f64_make_zero: "f64_make False 0 = 0"
  by (simp add: f64_make_def)

lemma zero_parts: "\<not> f64_is_nan 0" "\<not> f64_is_infinite 0" "\<not> f64_sign 0" "f64_abs_units 0 = 0"
  using dyadic_parts [OF dyadic_0] by (simp_all add: f64_abs_units_def f64_zero_parts units_of_def)

lemma sawtooth_starts_at_min:
  assumes "small_nat k" and "0 < k" and "small_nat b" and "small_nat c" and "c < b"
  shows "generator_value sin (SawtoothGen (f64_of_nat b) (f64_of_nat c) (f64_of_nat k)) 0 = f64_of_nat b"
proof -
  have "f64_rem (f64_of_nat 0) (f64_of_nat k) = 0" "f64_div 0 (f64_of_nat k) = 0"
    using assms small_nat_magnitude [of k]
    by (simp_all add: f64_rem_def f64_div_def f64_of_nat_0 zero_parts f64_round_zero f64_make_zero small_nat_exact)
  moreover have "f64_sub (f64_of_nat c) (f64_of_nat b) = f64_round True ((b - c) * F64_ONE) 1"
    using assms by (intro small_nat_sub_less)
  moreover have "small_nat (b - c)" using assms by (simp add: small_nat_def)
  from small_nat_exact(2) [OF this] have "f64_nearest ((b - c) * F64_ONE) 1 \<noteq> F64_INF" by (simp add: f64_of_nat_def)
  then have "f64_mul 0 (f64_round True ((b - c) * F64_ONE) 1) = f64_make True 0"
    by (simp add: f64_mul_def zero_parts f64_round_zero) (simp add: f64_is_infinite_def)
  moreover have "f64_add (f64_of_nat b) (f64_make True 0) = f64_of_nat b"
  proof -
    have z: "f64_magnitude (f64_make True 0) = 0" "f64_sign (f64_make True 0)" by (simp_all add: f64_make_parts)
    have "f64_units (f64_make True 0) = 0" "\<not> f64_is_infinite (f64_make True 0)" "\<not> f64_is_nan (f64_make True 0)"
      using z by (simp_all add: f64_units_def units_of_def f64_is_infinite_def F64_INF_def f64_is_nan_def f64_exponent_def)
    moreover define u where "u = b * F64_ONE"
    have "f64_units (f64_of_nat b) = int u" "0 < u" "f64_of_nat b = f64_round False u 1"
      using small_nat_key [OF assms(3)] assms(5) by (simp_all only: u_def) (simp_all add: f64_of_nat_def)
    ultimately show ?thesis using assms(3) by (simp add: f64_add_def)
  qed
  ultimately show ?thesis by (simp add: sawtooth_value_def)
qed

end
