(* ===== verification/Clause_Graph.thy ===== *)
theory Clause_Graph
  imports Prelude
begin

text \<open>
  The dependency graph of \<open>compiler/compile_after.rs\<close>: Kahn's sort, and the depth-first search that reports a cycle when
  the sort leaves entries out. A graph is the list of outgoing edges of every entry, each with the clause it comes from.
\<close>

section \<open>Graphs\<close>

datatype ClauseKind = AfterClauseKind | WhileClauseKind

type_synonym clause_graph = "(nat \<times> ClauseKind) list list"

definition valid_graph :: "clause_graph \<Rightarrow> bool" where
  "valid_graph g \<longleftrightarrow> (\<forall>es \<in> set g. \<forall>e \<in> set es. fst e < length g)"

definition targets :: "clause_graph \<Rightarrow> nat \<Rightarrow> nat set" where
  "targets g i = fst ` set (g ! i)"

text \<open>Nodes that all depend on another one of them: what a sort by dependencies can never reach.\<close>

definition stuck :: "clause_graph \<Rightarrow> nat set \<Rightarrow> bool" where
  "stuck g S \<longleftrightarrow> S \<subseteq> {..<length g} \<and> (\<forall>i \<in> S. targets g i \<inter> S \<noteq> {})"

lemma targets_less: "valid_graph g \<Longrightarrow> i < length g \<Longrightarrow> d \<in> targets g i \<Longrightarrow> d < length g"
  by (fastforce simp: valid_graph_def targets_def)

section \<open>Kahn's sort\<close>

text \<open>Counting the edges of an entry and recording it with the entries it depends on.\<close>

fun add_edges :: "nat \<Rightarrow> (nat \<times> ClauseKind) list \<Rightarrow> nat list \<times> clause_graph \<Rightarrow> nat list \<times> clause_graph" where
  "add_edges i [] st = st"
| "add_edges i ((d, c) # es) (in_degree, dependents) =
     add_edges i es (in_degree[i := in_degree ! i + 1], dependents[d := dependents ! d @ [(i, c)]])"

fun add_entries :: "nat \<Rightarrow> clause_graph \<Rightarrow> nat list \<times> clause_graph \<Rightarrow> nat list \<times> clause_graph" where
  "add_entries i [] st = st"
| "add_entries i (es # rest) st = add_entries (i + 1) rest (add_edges i es st)"

definition build_dependents :: "clause_graph \<Rightarrow> nat list \<times> clause_graph" where
  "build_dependents g = add_entries 0 g (replicate (length g) 0, replicate (length g) [])"

text \<open>Taking an entry from the queue: \<open>None\<close> stands for the subtraction that would go below zero.\<close>

fun release_dependents :: "(nat \<times> ClauseKind) list \<Rightarrow> nat list \<Rightarrow> nat list \<Rightarrow> (nat list \<times> nat list) option" where
  "release_dependents [] in_degree queue = Some (in_degree, queue)"
| "release_dependents ((dependent, _) # ds) in_degree queue =
     (if length in_degree \<le> dependent \<or> in_degree ! dependent = 0 then None
      else
        let k = in_degree ! dependent - 1
        in release_dependents ds (in_degree[dependent := k]) (if k = 0 then queue @ [dependent] else queue))"

lemma sum_list_dec: "i < length xs \<Longrightarrow> 0 < xs ! i \<Longrightarrow> sum_list (xs[i := xs ! i - 1]) < sum_list (xs :: nat list)"
  by (induction xs arbitrary: i) (auto simp: nth_Cons' split: nat.splits)

lemma release_dependents_measure:
  "release_dependents ds in_degree queue = Some (in_degree', queue') \<Longrightarrow>
   sum_list in_degree' + length queue' \<le> sum_list in_degree + length queue"
proof (induction ds in_degree queue rule: release_dependents.induct)
  case (2 dependent c ds in_degree queue)
  then have "dependent < length in_degree" "0 < in_degree ! dependent" by (auto split: if_splits)
  from sum_list_dec [OF this] 2 show ?case by (fastforce simp: Let_def split: if_splits)
qed simp

function kahn_loop :: "clause_graph \<Rightarrow> nat list \<Rightarrow> nat list \<Rightarrow> nat list \<Rightarrow> nat list option" where
  "kahn_loop dependents [] in_degree order = Some order"
| "kahn_loop dependents (idx # queue) in_degree order =
     (case release_dependents (dependents ! idx) in_degree queue of
        None \<Rightarrow> None
      | Some (in_degree', queue') \<Rightarrow> kahn_loop dependents queue' in_degree' (order @ [idx]))"
  by pat_completeness auto
termination
  by (relation "measure (\<lambda>(dependents, queue, in_degree, sorted). sum_list in_degree + length queue)")
    (auto dest!: release_dependents_measure)

definition kahn_sort :: "clause_graph \<Rightarrow> nat list option" where
  "kahn_sort g =
     (case build_dependents g of
        (in_degree, dependents) \<Rightarrow>
          kahn_loop dependents (filter (\<lambda>i. in_degree ! i = 0) [0..<length g]) in_degree [])"

section \<open>Finding a cycle\<close>

datatype Color = White | Gray | Black

type_synonym clause_path = "(nat \<times> ClauseKind) list"

definition set_last_kind :: "ClauseKind \<Rightarrow> clause_path \<Rightarrow> clause_path" where
  "set_last_kind c path = (if path = [] then [] else butlast path @ [(fst (last path), c)])"

definition slice_cycle :: "nat \<Rightarrow> ClauseKind \<Rightarrow> clause_path \<Rightarrow> clause_path" where
  "slice_cycle dep c path =
     (if dep \<in> fst ` set path then dropWhile (\<lambda>(x, _). x \<noteq> dep) path else path) @ [(dep, c)]"

text \<open>
  The recursive search, with fuel for its depth: \<open>None\<close> when the fuel runs out. Otherwise the colors and the path, and
  the cycle if one was closed.
\<close>

fun dfs :: "nat \<Rightarrow> clause_graph \<Rightarrow> nat \<Rightarrow> Color list \<Rightarrow> clause_path
      \<Rightarrow> (Color list \<times> clause_path \<times> clause_path option) option"
  and dfs_edges :: "nat \<Rightarrow> clause_graph \<Rightarrow> nat \<Rightarrow> (nat \<times> ClauseKind) list \<Rightarrow> Color list \<Rightarrow> clause_path
      \<Rightarrow> (Color list \<times> clause_path \<times> clause_path option) option" where
  "dfs 0 g node color path = None"
| "dfs (Suc fuel) g node color path =
     dfs_edges fuel g node (g ! node) (color[node := Gray]) (path @ [(node, AfterClauseKind)])"
| "dfs_edges fuel g node [] color path = Some (color[node := Black], butlast path, None)"
| "dfs_edges fuel g node ((dep, c) # es) color path =
     (let path = set_last_kind c path
      in case color ! dep of
           White \<Rightarrow>
             (case dfs fuel g dep color path of
                None \<Rightarrow> None
              | Some (color, path, Some cycle) \<Rightarrow> Some (color, path, Some cycle)
              | Some (color, path, None) \<Rightarrow> dfs_edges fuel g node es color path)
         | Gray \<Rightarrow> Some (color, path, Some (slice_cycle dep c path))
         | Black \<Rightarrow> dfs_edges fuel g node es color path)"

fun dfs_starts :: "nat \<Rightarrow> clause_graph \<Rightarrow> nat list \<Rightarrow> Color list \<Rightarrow> clause_path \<Rightarrow> clause_path option option" where
  "dfs_starts fuel g [] color path = Some None"
| "dfs_starts fuel g (start # starts) color path =
     (if color ! start = White
      then (case dfs fuel g start color path of
              None \<Rightarrow> None
            | Some (color, path, Some cycle) \<Rightarrow> Some (Some cycle)
            | Some (color, path, None) \<Rightarrow> dfs_starts fuel g starts color path)
      else dfs_starts fuel g starts color path)"

text \<open>The depth never exceeds the number of entries.\<close>

definition find_cycle_path :: "clause_graph \<Rightarrow> clause_path option option" where
  "find_cycle_path g = dfs_starts (length g + 1) g [0..<length g] (replicate (length g) White) []"

section \<open>The sort is complete\<close>

definition edge_count :: "nat \<Rightarrow> (nat \<times> ClauseKind) list \<Rightarrow> nat" where
  "edge_count i es = length (filter (\<lambda>e. fst e = i) es)"

lemma edge_count_simps [simp]:
  "edge_count i [] = 0" "edge_count i (e # es) = (if fst e = i then 1 else 0) + edge_count i es"
  "edge_count i (xs @ ys) = edge_count i xs + edge_count i ys"
  by (simp_all add: edge_count_def)

lemma add_edges_spec:
  assumes "add_edges i es (deg, dep) = (deg', dep')" and "i < length deg" and "\<forall>e \<in> set es. fst e < length dep"
  shows "deg' = deg[i := deg ! i + length es]" and "length dep' = length dep"
    and "d < length dep \<Longrightarrow> edge_count j (dep' ! d) = edge_count j (dep ! d) + (if j = i then edge_count d es else 0)"
    and "d < length dep \<Longrightarrow> \<forall>e \<in> set (dep' ! d). e \<in> set (dep ! d) \<or> fst e = i"
proof -
  have "deg' = deg[i := deg ! i + length es] \<and> length dep' = length dep
    \<and> (\<forall>d < length dep. edge_count j (dep' ! d) = edge_count j (dep ! d) + (if j = i then edge_count d es else 0)
         \<and> (\<forall>e \<in> set (dep' ! d). e \<in> set (dep ! d) \<or> fst e = i))"
    using assms
  proof (induction es arbitrary: deg dep)
    case (Cons e es)
    obtain x c where e: "e = (x, c)" by fastforce
    from Cons.prems Cons.IH [of "deg[i := deg ! i + 1]" "dep[x := dep ! x @ [(i, c)]]"]
    show ?case by (auto simp: e nth_list_update split: if_splits) (metis fst_conv)+
  qed simp
  then show "deg' = deg[i := deg ! i + length es]" "length dep' = length dep"
    "d < length dep \<Longrightarrow> edge_count j (dep' ! d) = edge_count j (dep ! d) + (if j = i then edge_count d es else 0)"
    "d < length dep \<Longrightarrow> \<forall>e \<in> set (dep' ! d). e \<in> set (dep ! d) \<or> fst e = i"
    by blast+
qed

lemma add_entries_spec:
  assumes "add_entries i es (deg, dep) = (deg', dep')" and "i + length es = length deg" and "length dep = length deg"
    and "\<forall>e \<in> set es. \<forall>x \<in> set e. fst x < length dep" and "\<forall>d < length dep. \<forall>e \<in> set (dep ! d). fst e < i"
    and "\<forall>j < length deg. i \<le> j \<longrightarrow> deg ! j = 0"
  shows "length deg' = length deg \<and> length dep' = length dep
    \<and> (\<forall>j < length deg. deg' ! j = (if j < i then deg ! j else length (es ! (j - i))))
    \<and> (\<forall>d < length dep. \<forall>j < length deg.
         edge_count j (dep' ! d) = (if j < i then edge_count j (dep ! d) else edge_count d (es ! (j - i))))
    \<and> (\<forall>d < length dep. \<forall>e \<in> set (dep' ! d). fst e < length deg)"
  using assms
proof (induction es arbitrary: i deg dep)
  case Nil
  then show ?case by auto
next
  case (Cons e es)
  obtain deg1 dep1 where one: "add_edges i e (deg, dep) = (deg1, dep1)" by fastforce
  note spec = add_edges_spec [OF one]
  have i: "i < length deg" using Cons.prems(2) by simp
  have e: "\<forall>x \<in> set e. fst x < length dep" using Cons.prems(4) by simp
  note spec = spec [OF i e]
  have none: "edge_count i (dep ! d) = 0" if "d < length dep" for d
    using Cons.prems(5) that by (fastforce simp: edge_count_def filter_empty_conv)
  have "add_entries (i + 1) es (deg1, dep1) = (deg', dep')" using Cons.prems(1) one by simp
  moreover have "\<forall>d < length dep1. \<forall>e \<in> set (dep1 ! d). fst e < i + 1"
    using spec(2,4) Cons.prems(5) by fastforce
  moreover have "\<forall>j < length deg1. i + 1 \<le> j \<longrightarrow> deg1 ! j = 0"
    using spec(1) Cons.prems(6) by (simp add: nth_list_update)
  ultimately have IH: "length deg' = length deg1 \<and> length dep' = length dep1
    \<and> (\<forall>j < length deg1. deg' ! j = (if j < i + 1 then deg1 ! j else length (es ! (j - (i + 1)))))
    \<and> (\<forall>d < length dep1. \<forall>j < length deg1.
         edge_count j (dep' ! d) = (if j < i + 1 then edge_count j (dep1 ! d) else edge_count d (es ! (j - (i + 1)))))
    \<and> (\<forall>d < length dep1. \<forall>e \<in> set (dep' ! d). fst e < length deg1)"
    using Cons.prems spec(1,2) by (intro Cons.IH) auto
  have at: "(e # es) ! (j - i) = (if j = i then e else es ! (j - (i + 1)))" if "\<not> j < i" for j
    using that by (cases "j = i") (auto simp: nth_Cons')
  show ?case
    using IH spec i none Cons.prems(6) by (auto simp: at nth_list_update less_Suc_eq)
qed

lemma build_dependents_spec:
  assumes "valid_graph g" and "build_dependents g = (deg, dep)"
  shows "length deg = length g" and "length dep = length g"
    and "i < length g \<Longrightarrow> deg ! i = length (g ! i)"
    and "i < length g \<Longrightarrow> d < length g \<Longrightarrow> edge_count i (dep ! d) = edge_count d (g ! i)"
    and "d < length g \<Longrightarrow> e \<in> set (dep ! d) \<Longrightarrow> fst e < length g"
  using add_entries_spec [of 0 g "replicate (length g) 0" "replicate (length g) []" deg dep] assms
  by (auto simp: build_dependents_def valid_graph_def)

text \<open>What taking an entry does to the counts and the queue, when no count is too small.\<close>

lemma release_dependents_spec:
  assumes "\<forall>e \<in> set ds. fst e < length deg" and "\<forall>i < length deg. edge_count i ds \<le> deg ! i"
  shows "\<exists>deg' new. release_dependents ds deg queue = Some (deg', queue @ new) \<and> length deg' = length deg
    \<and> (\<forall>i < length deg. deg' ! i = deg ! i - edge_count i ds) \<and> distinct new
    \<and> set new = {i. i < length deg \<and> 0 < edge_count i ds \<and> deg ! i = edge_count i ds}"
  using assms
proof (induction ds arbitrary: deg queue)
  case (Cons e ds)
  obtain x c where e: "e = (x, c)" by fastforce
  have x: "x < length deg" "0 < deg ! x" using Cons.prems e by fastforce+
  define deg1 queue1 where "deg1 = deg[x := deg ! x - 1]"
    and "queue1 = (if deg ! x - 1 = 0 then queue @ [x] else queue)"
  have "\<forall>i < length deg1. edge_count i ds \<le> deg1 ! i"
  proof (intro allI impI)
    fix i assume "i < length deg1"
    with Cons.prems(2) have "edge_count i (e # ds) \<le> deg ! i" by (simp add: deg1_def)
    then show "edge_count i ds \<le> deg1 ! i"
      using \<open>i < length deg1\<close> by (cases "i = x") (simp_all add: deg1_def e)
  qed
  moreover have "\<forall>e \<in> set ds. fst e < length deg1" using Cons.prems(1) by (simp add: deg1_def)
  ultimately obtain deg' new where IH: "release_dependents ds deg1 queue1 = Some (deg', queue1 @ new)"
    "length deg' = length deg1" "\<forall>i < length deg1. deg' ! i = deg1 ! i - edge_count i ds" "distinct new"
    "set new = {i. i < length deg1 \<and> 0 < edge_count i ds \<and> deg1 ! i = edge_count i ds}"
    using Cons.IH by blast
  have run: "release_dependents (e # ds) deg queue = Some (deg', queue1 @ new)"
    using x IH(1) by (simp add: e deg1_def queue1_def Let_def)
  have le: "1 + edge_count x ds \<le> deg ! x" using Cons.prems(2) x by (auto simp: e)
  have deg': "\<forall>i < length deg. deg' ! i = deg ! i - edge_count i (e # ds)"
    using IH(3) by (auto simp: deg1_def e nth_list_update)
  have new: "i \<in> set new \<longleftrightarrow> i < length deg \<and> 0 < edge_count i ds \<and> deg1 ! i = edge_count i ds" for i
    unfolding IH(5) by (simp add: deg1_def)
  show ?case
  proof (cases "deg ! x - 1 = 0")
    case True
    with le x have "edge_count x ds = 0" "deg ! x = 1" by simp_all
    then have "x \<notin> set new" by (simp add: new)
    moreover have "set (x # new) = {i. i < length deg \<and> 0 < edge_count i (e # ds) \<and> deg ! i = edge_count i (e # ds)}"
    proof (rule set_eqI)
      fix i show "i \<in> set (x # new) \<longleftrightarrow> i \<in> {i. i < length deg \<and> 0 < edge_count i (e # ds) \<and> deg ! i = edge_count i (e # ds)}"
        using x \<open>edge_count x ds = 0\<close> \<open>deg ! x = 1\<close> by (cases "i = x") (simp_all add: new e deg1_def)
    qed
    ultimately show ?thesis
      using run True IH(2,4) deg' by (intro exI [of _ deg'] exI [of _ "x # new"]) (simp add: queue1_def deg1_def)
  next
    case False
    have "set new = {i. i < length deg \<and> 0 < edge_count i (e # ds) \<and> deg ! i = edge_count i (e # ds)}"
    proof (rule set_eqI)
      fix i show "i \<in> set new \<longleftrightarrow> i \<in> {i. i < length deg \<and> 0 < edge_count i (e # ds) \<and> deg ! i = edge_count i (e # ds)}"
        using x le False by (cases "i = x") (auto simp: new e deg1_def)
    qed
    then show ?thesis
      using run False IH(2,4) deg' by (intro exI [of _ deg'] exI [of _ new]) (simp add: queue1_def deg1_def)
  qed
qed auto

text \<open>The edges of an entry that lead outside a set.\<close>

definition pending :: "clause_graph \<Rightarrow> nat set \<Rightarrow> nat \<Rightarrow> nat" where
  "pending g S i = length (filter (\<lambda>e. fst e \<notin> S) (g ! i))"

lemma pending_insert: "x \<notin> S \<Longrightarrow> pending g S i = edge_count x (g ! i) + pending g (insert x S) i"
proof -
  assume "x \<notin> S"
  then have "length (filter (\<lambda>e. fst e \<notin> S) es) = edge_count x es + length (filter (\<lambda>e. fst e \<notin> insert x S) es)" for es
    by (induction es) auto
  then show ?thesis by (simp add: pending_def)
qed

lemma pending_0: "pending g S i = 0 \<longleftrightarrow> targets g i \<subseteq> S"
  by (auto simp: pending_def targets_def filter_empty_conv)

definition deps_first :: "clause_graph \<Rightarrow> nat list \<Rightarrow> bool" where
  "deps_first g order \<longleftrightarrow> (\<forall>k < length order. targets g (order ! k) \<subseteq> set (take k order))"

lemma deps_first_snoc: "deps_first g order \<Longrightarrow> targets g i \<subseteq> set order \<Longrightarrow> deps_first g (order @ [i])"
  by (auto simp: deps_first_def nth_append less_Suc_eq)

definition kahn_inv :: "clause_graph \<Rightarrow> nat list \<Rightarrow> nat list \<Rightarrow> nat list \<Rightarrow> bool" where
  "kahn_inv g queue deg order \<longleftrightarrow> length deg = length g \<and> distinct (order @ queue)
     \<and> (\<forall>i < length g. deg ! i = pending g (set order) i)
     \<and> set (order @ queue) = {i. i < length g \<and> deg ! i = 0} \<and> deps_first g order"

lemma kahn_step:
  assumes g: "valid_graph g" "build_dependents g = (deg0, dependents)" and inv: "kahn_inv g (x # queue) deg order"
  shows "\<exists>deg' queue'. release_dependents (dependents ! x) deg queue = Some (deg', queue')
    \<and> kahn_inv g queue' deg' (order @ [x])"
proof -
  note build = build_dependents_spec [OF g]
  from inv have len: "length deg = length g" and dist: "distinct (order @ x # queue)"
    and deg: "\<forall>i < length g. deg ! i = pending g (set order) i"
    and zero: "set (order @ x # queue) = {i. i < length g \<and> deg ! i = 0}" and first: "deps_first g order"
    by (simp_all add: kahn_inv_def)
  have x: "x < length g" "x \<notin> set order" "deg ! x = 0" using zero dist by auto
  have cnt: "edge_count i (dependents ! x) = edge_count x (g ! i)" if "i < length g" for i using build(4) that x by simp
  have split: "deg ! i = edge_count i (dependents ! x) + pending g (set (order @ [x])) i" if "i < length g" for i
    using that deg cnt pending_insert [OF x(2), of g i] by simp
  have "\<forall>e \<in> set (dependents ! x). fst e < length deg" using build(5) x len by simp
  moreover have "\<forall>i < length deg. edge_count i (dependents ! x) \<le> deg ! i" using split len by simp
  ultimately obtain deg' new where rel: "release_dependents (dependents ! x) deg queue = Some (deg', queue @ new)"
    "length deg' = length deg" "\<forall>i < length deg. deg' ! i = deg ! i - edge_count i (dependents ! x)" "distinct new"
    "set new = {i. i < length deg \<and> 0 < edge_count i (dependents ! x) \<and> deg ! i = edge_count i (dependents ! x)}"
    using release_dependents_spec by blast
  have deg': "\<forall>i < length g. deg' ! i = pending g (set (order @ [x])) i" using rel(3) split len by simp
  have new: "i \<in> set new \<longleftrightarrow> i < length g \<and> 0 < edge_count i (dependents ! x) \<and> deg ! i = edge_count i (dependents ! x)" for i
    unfolding rel(5) len by simp
  have fresh: "set new \<inter> set (order @ x # queue) = {}" unfolding zero by (auto simp: new)
  have "set (order @ [x] @ queue @ new) = {i. i < length g \<and> deg' ! i = 0}"
  proof -
    have "{i. i < length g \<and> deg' ! i = 0} = {i. i < length g \<and> deg ! i = 0} \<union> set new"
    proof (rule set_eqI)
      fix i show "i \<in> {i. i < length g \<and> deg' ! i = 0} \<longleftrightarrow> i \<in> {i. i < length g \<and> deg ! i = 0} \<union> set new"
        using rel(3) len split [of i] by (auto simp: new)
    qed
    then show ?thesis using zero by auto
  qed
  moreover have "deps_first g (order @ [x])"
    using first deg x pending_0 [of g "set order" x] by (intro deps_first_snoc) auto
  ultimately have "kahn_inv g (queue @ new) deg' (order @ [x])"
    using rel(2,4) len dist fresh deg' by (auto simp: kahn_inv_def)
  with rel(1) show ?thesis by blast
qed

lemma kahn_loop_spec:
  assumes "valid_graph g" and "build_dependents g = (deg0, dependents)" and "kahn_inv g queue deg order"
  shows "\<exists>order' deg'. kahn_loop dependents queue deg order = Some order' \<and> kahn_inv g [] deg' order'"
  using assms(3)
proof (induction "sum_list deg + length queue" arbitrary: queue deg order rule: less_induct)
  case less
  show ?case
  proof (cases queue)
    case (Cons x rest)
    from kahn_step [OF assms(1,2)] less.prems obtain deg' queue'
      where step: "release_dependents (dependents ! x) deg rest = Some (deg', queue')" "kahn_inv g queue' deg' (order @ [x])"
      unfolding Cons by blast
    from release_dependents_measure [OF step(1)] have "sum_list deg' + length queue' < sum_list deg + length queue"
      by (simp add: Cons)
    from less.hyps [OF this step(2)] show ?thesis by (simp add: Cons step(1))
  qed (use less.prems in auto)
qed

lemma kahn_sort_spec:
  assumes "valid_graph g"
  shows "\<exists>order. kahn_sort g = Some order \<and> distinct order \<and> set order \<subseteq> {..<length g} \<and> deps_first g order
    \<and> (\<forall>i < length g. targets g i \<subseteq> set order \<longrightarrow> i \<in> set order)"
proof -
  obtain deg dependents where b: "build_dependents g = (deg, dependents)" by fastforce
  note build = build_dependents_spec [OF assms b]
  have "kahn_inv g (filter (\<lambda>i. deg ! i = 0) [0..<length g]) deg []"
    using build by (auto simp: kahn_inv_def pending_def deps_first_def)
  from kahn_loop_spec [OF assms b this] obtain order deg' where
    "kahn_sort g = Some order" "kahn_inv g [] deg' order" by (auto simp: kahn_sort_def b)
  then show ?thesis by (auto simp: kahn_inv_def pending_0)
qed

text \<open>A sort that stops early leaves entries that depend on each other; one that does not proves there are none.\<close>

lemma sort_short_stuck:
  assumes "valid_graph g" and "set order \<subseteq> {..<length g}" and "length order < length g"
    and "\<forall>i < length g. targets g i \<subseteq> set order \<longrightarrow> i \<in> set order"
  shows "stuck g ({..<length g} - set order)" and "{..<length g} - set order \<noteq> {}"
proof -
  show "stuck g ({..<length g} - set order)"
    unfolding stuck_def
  proof (intro conjI ballI)
    fix i assume i: "i \<in> {..<length g} - set order"
    then obtain d where "d \<in> targets g i" "d \<notin> set order" using assms(4) by auto
    with i targets_less [OF assms(1)] show "targets g i \<inter> ({..<length g} - set order) \<noteq> {}" by auto
  qed simp
  have "card (set order) < length g" using assms(3) card_length [of order] by simp
  then show "{..<length g} - set order \<noteq> {}"
    using assms(2) by (metis Diff_eq_empty_iff card_lessThan finite_set card_mono not_le)
qed

lemma deps_first_not_stuck:
  assumes "deps_first g order" and "{..<length g} \<subseteq> set order" and "stuck g S"
  shows "S = {}"
proof (rule ccontr)
  assume ne: "S \<noteq> {}"
  obtain i where "i \<in> S" "i \<in> set order" using ne assms(2,3) by (auto simp: stuck_def)
  then have "\<exists>k. k < length order \<and> order ! k \<in> S" by (auto simp: in_set_conv_nth)
  from LeastI_ex [OF this] not_less_Least obtain k where k: "k < length order" "order ! k \<in> S"
    and least: "\<forall>j < k. \<not> (j < length order \<and> order ! j \<in> S)" by blast
  then obtain d where "d \<in> targets g (order ! k)" "d \<in> S" using assms(3) by (fastforce simp: stuck_def)
  with assms(1) k(1) have "d \<in> set (take k order)" by (auto simp: deps_first_def)
  then obtain j where "j < k" "order ! j = d" using k(1) by (auto simp: in_set_conv_nth)
  with least k(1) \<open>d \<in> S\<close> show False by auto
qed

section \<open>The search closes a cycle\<close>

definition edge_walk :: "clause_graph \<Rightarrow> clause_path \<Rightarrow> bool" where
  "edge_walk g path \<longleftrightarrow>
     (\<forall>k. Suc k < length path \<longrightarrow> (fst (path ! Suc k), snd (path ! k)) \<in> set (g ! fst (path ! k)))"

text \<open>A closed walk along clauses: every pair carries the clause that leads to the next.\<close>

definition clause_cycle :: "clause_graph \<Rightarrow> clause_path \<Rightarrow> bool" where
  "clause_cycle g cycle \<longleftrightarrow> 2 \<le> length cycle \<and> fst (hd cycle) = fst (last cycle) \<and> edge_walk g cycle
     \<and> (\<forall>e \<in> set cycle. fst e < length g)"

lemma edge_walk_snoc:
  "edge_walk g (path @ [e]) \<longleftrightarrow>
   edge_walk g path \<and> (path = [] \<or> (fst e, snd (last path)) \<in> set (g ! fst (last path)))"
proof (cases "path = []")
  case False
  then have l: "length path - 1 < length path" "last path = path ! (length path - 1)" by (simp_all add: last_conv_nth)
  show ?thesis
  proof
    assume w: "edge_walk g (path @ [e])"
    have "edge_walk g path"
      unfolding edge_walk_def
    proof (intro allI impI)
      fix k assume "Suc k < length path"
      with w show "(fst (path ! Suc k), snd (path ! k)) \<in> set (g ! fst (path ! k))"
        unfolding edge_walk_def by (auto simp: nth_append dest: spec [of _ k])
    qed
    moreover have "(fst e, snd (last path)) \<in> set (g ! fst (last path))"
      using w l False unfolding edge_walk_def by (auto simp: nth_append dest: spec [of _ "length path - 1"])
    ultimately show "edge_walk g path \<and> (path = [] \<or> (fst e, snd (last path)) \<in> set (g ! fst (last path)))" by simp
  next
    assume "edge_walk g path \<and> (path = [] \<or> (fst e, snd (last path)) \<in> set (g ! fst (last path)))"
    then show "edge_walk g (path @ [e])"
      using l False unfolding edge_walk_def by (auto simp: nth_append less_Suc_eq) (metis diff_Suc_Suc diff_zero)
  qed
qed (simp add: edge_walk_def)

lemma edge_walk_suffix: "edge_walk g (xs @ ys) \<Longrightarrow> edge_walk g ys"
  unfolding edge_walk_def
proof (intro allI impI)
  fix k assume w: "\<forall>k. Suc k < length (xs @ ys) \<longrightarrow>
    (fst ((xs @ ys) ! Suc k), snd ((xs @ ys) ! k)) \<in> set (g ! fst ((xs @ ys) ! k))" and k: "Suc k < length ys"
  from w [rule_format, of "length xs + k"] k show "(fst (ys ! Suc k), snd (ys ! k)) \<in> set (g ! fst (ys ! k))"
    by (simp add: nth_append)
qed

lemma set_last_kind_snoc [simp]: "set_last_kind c (path @ [(i, k)]) = path @ [(i, c)]"
  by (simp add: set_last_kind_def)

lemma slice_cycle_walk:
  assumes "edge_walk g (path @ [(i, c)])" and "(dep, c) \<in> set (g ! i)" and "dep \<in> fst ` set (path @ [(i, c)])"
    and "\<forall>e \<in> set (path @ [(i, c)]). fst e < length g"
  shows "clause_cycle g (slice_cycle dep c (path @ [(i, c)]))"
proof -
  define p where "p = path @ [(i, c)]"
  define d where "d = dropWhile (\<lambda>(x, _). x \<noteq> dep) p"
  have "\<exists>e \<in> set p. fst e = dep" using assms(3) by (auto simp: p_def)
  then have ne: "d \<noteq> []" by (auto simp: d_def)
  from hd_dropWhile [OF this [unfolded d_def]] have d: "d \<noteq> []" "fst (hd d) = dep"
    using ne by (auto simp: d_def case_prod_beta)
  have split: "p = takeWhile (\<lambda>(x, _). x \<noteq> dep) p @ d" by (simp add: d_def)
  then have "edge_walk g d" using assms(1) edge_walk_suffix [of g _ d] by (metis p_def)
  moreover have "last d = (i, c)" using split d(1) by (metis last_appendR last_snoc p_def)
  ultimately have "edge_walk g (d @ [(dep, c)])" using assms(2) by (simp add: edge_walk_snoc)
  moreover have "\<forall>e \<in> set d. fst e < length g" using assms(4) set_dropWhileD by (fastforce simp: d_def p_def)
  moreover have "dep < length g" using assms(3,4) by auto
  moreover have "slice_cycle dep c p = d @ [(dep, c)]" using assms(3) by (simp add: slice_cycle_def d_def p_def)
  ultimately show ?thesis
    using d by (cases d) (auto simp: clause_cycle_def simp flip: p_def)
qed

definition whites :: "Color list \<Rightarrow> nat" where
  "whites color = card {i. i < length color \<and> color ! i = White}"

text \<open>Gray entries are those of the path, which is a walk.\<close>

definition dfs_inv :: "clause_graph \<Rightarrow> Color list \<Rightarrow> clause_path \<Rightarrow> bool" where
  "dfs_inv g color path \<longleftrightarrow> length color = length g \<and> edge_walk g path \<and> distinct (map fst path)
     \<and> (\<forall>i < length g. color ! i = Gray \<longleftrightarrow> i \<in> fst ` set path) \<and> (\<forall>e \<in> set path. fst e < length g)"

lemma whites_update:
  assumes "i < length color" and "c \<noteq> White"
  shows "whites (color[i := c]) = (if color ! i = White then whites color - 1 else whites color)"
proof -
  have "{j. j < length color \<and> color[i := c] ! j = White} = {j. j < length color \<and> color ! j = White} - {i}"
    using assms by (auto simp: nth_list_update)
  then show ?thesis using assms by (auto simp: whites_def)
qed

lemma whites_pos: "i < length color \<Longrightarrow> color ! i = White \<Longrightarrow> 0 < whites color"
  by (auto simp: whites_def card_gt_0_iff)

text \<open>
  What one call of the search achieves from colors and a path in order: it returns when the fuel covers the white entries,
  and either closes a cycle, or leaves the path as it was, with more entries black and no entry of a stuck set among them.
\<close>

definition dfs_post :: "clause_graph \<Rightarrow> Color list \<Rightarrow> nat \<Rightarrow> clause_path
    \<Rightarrow> (Color list \<times> clause_path \<times> clause_path option) option \<Rightarrow> bool" where
  "dfs_post g color node path r \<longleftrightarrow>
     (\<exists>color' path' res. r = Some (color', path', res) \<and>
       (case res of
          Some cycle \<Rightarrow> clause_cycle g cycle
        | None \<Rightarrow> path' = path \<and> dfs_inv g color' path \<and> whites color' \<le> whites color \<and> color' ! node = Black
            \<and> (\<forall>i < length g. color ! i = Black \<longrightarrow> color' ! i = Black)
            \<and> (\<forall>S. stuck g S \<longrightarrow> (\<forall>i \<in> S. color ! i \<noteq> Black) \<longrightarrow> (\<forall>i \<in> S. color' ! i \<noteq> Black))))"

lemma dfs_finish:
  assumes inv: "dfs_inv g color (path @ [(node, c)])"
    and deps: "\<forall>d \<in> targets g node. color ! d = Black"
  shows "dfs_post g color node path (Some (color[node := Black], path, None))"
proof -
  from inv have len: "length color = length g" and node: "node < length g" "node \<notin> fst ` set path"
    by (auto simp: dfs_inv_def)
  have "dfs_inv g (color[node := Black]) path"
    using inv len node by (auto simp: dfs_inv_def edge_walk_snoc nth_list_update)
  moreover have "whites (color[node := Black]) \<le> whites color" using len node by (simp add: whites_update)
  moreover have "node \<notin> S" if "stuck g S" "\<forall>i \<in> S. color ! i \<noteq> Black" for S
    using that deps by (fastforce simp: stuck_def)
  ultimately show ?thesis
    using len node by (fastforce simp: dfs_post_def nth_list_update)
qed

lemma dfs_post_mono:
  assumes "dfs_post g color2 node path r" and "whites color2 \<le> whites color"
    and "\<forall>i < length g. color ! i = Black \<longrightarrow> color2 ! i = Black"
    and "\<forall>S. stuck g S \<longrightarrow> (\<forall>i \<in> S. color ! i \<noteq> Black) \<longrightarrow> (\<forall>i \<in> S. color2 ! i \<noteq> Black)"
  shows "dfs_post g color node path r"
proof -
  from assms(1) obtain color' path' res where r: "r = Some (color', path', res)"
    and res: "case res of Some cycle \<Rightarrow> clause_cycle g cycle
      | None \<Rightarrow> path' = path \<and> dfs_inv g color' path \<and> whites color' \<le> whites color2 \<and> color' ! node = Black
            \<and> (\<forall>i < length g. color2 ! i = Black \<longrightarrow> color' ! i = Black)
            \<and> (\<forall>S. stuck g S \<longrightarrow> (\<forall>i \<in> S. color2 ! i \<noteq> Black) \<longrightarrow> (\<forall>i \<in> S. color' ! i \<noteq> Black))"
    unfolding dfs_post_def by blast
  show ?thesis
  proof (cases res)
    case None
    with res have "path' = path" "dfs_inv g color' path" "color' ! node = Black" "whites color' \<le> whites color"
      "\<forall>i < length g. color ! i = Black \<longrightarrow> color' ! i = Black"
      using assms(2,3) by auto
    moreover have "\<forall>S. stuck g S \<longrightarrow> (\<forall>i \<in> S. color ! i \<noteq> Black) \<longrightarrow> (\<forall>i \<in> S. color' ! i \<noteq> Black)"
      using None res assms(4) by simp
    ultimately show ?thesis using r None by (simp add: dfs_post_def)
  next
    case (Some cycle)
    then show ?thesis using r res by (simp add: dfs_post_def)
  qed
qed

lemma dfs_enter:
  assumes "dfs_inv g color path" and "node < length g" and "color ! node = White"
    and "path = [] \<or> (node, snd (last path)) \<in> set (g ! fst (last path))"
  shows "dfs_inv g (color[node := Gray]) (path @ [(node, c)])"
proof -
  have "node \<notin> fst ` set path" using assms(1,2,3) by (auto simp: dfs_inv_def)
  with assms show ?thesis by (auto simp: dfs_inv_def edge_walk_snoc nth_list_update)
qed

lemma dfs_inv_kind: "dfs_inv g color (path @ [(node, c)]) \<Longrightarrow> dfs_inv g color (path @ [(node, c')])"
  by (simp add: dfs_inv_def edge_walk_snoc)

lemma dfs_correct:
  shows "valid_graph g \<Longrightarrow> dfs_inv g color path \<Longrightarrow> node < length g \<Longrightarrow> color ! node = White \<Longrightarrow>
      path = [] \<or> (node, snd (last path)) \<in> set (g ! fst (last path)) \<Longrightarrow> whites color \<le> fuel \<Longrightarrow>
      dfs_post g color node path (dfs fuel g node color path)"
    and "valid_graph g \<Longrightarrow> p = path' @ [(node, c)] \<Longrightarrow> dfs_inv g color p \<Longrightarrow> g ! node = seen @ es \<Longrightarrow>
      \<forall>e \<in> set seen. color ! fst e = Black \<Longrightarrow> whites color \<le> fuel \<Longrightarrow>
      dfs_post g color node path' (dfs_edges fuel g node es color p)"
proof (induction fuel g node color path and fuel g node es color p arbitrary: and path' c seen
    rule: dfs_dfs_edges.induct)
  case (1 g node color path)
  then show ?case using whites_pos [of node color] by (simp add: dfs_inv_def)
next
  case (2 fuel g node color path)
  then have len: "length color = length g" by (simp add: dfs_inv_def)
  have "whites (color[node := Gray]) \<le> fuel" using 2 len by (simp add: whites_update)
  moreover have "dfs_inv g (color[node := Gray]) (path @ [(node, AfterClauseKind)])" using 2 by (intro dfs_enter)
  ultimately have "dfs_post g (color[node := Gray]) node path (dfs (Suc fuel) g node color path)"
    using "2.IH" [of path AfterClauseKind "[]"] "2.prems"(1) by simp
  then show ?case
    by (rule dfs_post_mono) (use 2 len in \<open>auto simp: whites_update nth_list_update stuck_def\<close>)
next
  case (3 fuel g node color p)
  then have "\<forall>d \<in> targets g node. color ! d = Black" by (auto simp: targets_def)
  with dfs_finish [of g color path' node c] 3 show ?case by simp
next
  case (4 fuel g node dep k es color p)
  define q where "q = path' @ [(node, k)]"
  have q: "set_last_kind k p = q" "dfs_inv g color q"
    using "4.prems"(2,3) dfs_inv_kind by (auto simp: q_def)
  have node: "node < length g" using "4.prems"(2,3) by (auto simp: dfs_inv_def)
  have edge: "(dep, k) \<in> set (g ! node)" using "4.prems"(4) by simp
  then have dep: "dep < length g" using "4.prems"(1) node by (fastforce simp: valid_graph_def)
  have more: "g ! node = (seen @ [(dep, k)]) @ es" using "4.prems"(4) by simp
  have "\<forall>e \<in> set (g ! node). fst e < length g" using "4.prems"(1) node nth_mem unfolding valid_graph_def by blast
  then have seen: "\<forall>e \<in> set seen. fst e < length g" unfolding more by simp
  show ?case
  proof (cases "color ! dep")
    case White
    have post: "dfs_post g color dep q (dfs fuel g dep color q)"
      using "4.IH"(1) [OF q(1) [symmetric]] White "4.prems" q(2) dep edge by (simp add: q_def)
    then obtain color2 path2 res where r: "dfs fuel g dep color q = Some (color2, path2, res)"
      by (auto simp: dfs_post_def)
    show ?thesis
    proof (cases res)
      case (Some cycle)
      with post r have "clause_cycle g cycle" by (simp add: dfs_post_def)
      then show ?thesis using White Some r q(1) by (simp add: dfs_post_def)
    next
      case None
      with post r have c2: "path2 = q" "dfs_inv g color2 q" "whites color2 \<le> whites color" "color2 ! dep = Black"
        "\<forall>i < length g. color ! i = Black \<longrightarrow> color2 ! i = Black"
        "\<forall>S. stuck g S \<longrightarrow> (\<forall>i \<in> S. color ! i \<noteq> Black) \<longrightarrow> (\<forall>i \<in> S. color2 ! i \<noteq> Black)"
        by (simp_all add: dfs_post_def)
      have "\<forall>e \<in> set (seen @ [(dep, k)]). color2 ! fst e = Black"
        using c2(4,5) "4.prems"(5) seen by simp
      then have "dfs_post g color2 node path' (dfs_edges fuel g node es color2 q)"
        using "4.IH"(2) [OF q(1) [symmetric] White r refl refl, of path' k "seen @ [(dep, k)]"] None c2 more "4.prems"(1,6)
        by (simp add: q_def)
      then have "dfs_post g color node path' (dfs_edges fuel g node es color2 q)"
        by (rule dfs_post_mono) (use c2 in auto)
      then show ?thesis using White None r c2(1) q(1) by simp
    qed
  next
    case Gray
    then have "dep \<in> fst ` set q" using q(2) dep by (auto simp: dfs_inv_def)
    then have "clause_cycle g (slice_cycle dep k q)"
      using q(2) edge unfolding q_def by (intro slice_cycle_walk) (auto simp: dfs_inv_def)
    then show ?thesis using Gray q(1) by (simp add: dfs_post_def)
  next
    case Black
    then have "dfs_post g color node path' (dfs_edges fuel g node es color q)"
      using "4.IH"(3) [OF q(1) [symmetric] Black, of path' k "seen @ [(dep, k)]"] more "4.prems"(1,5,6) q(2)
      by (simp add: q_def)
    then show ?thesis using Black q(1) by simp
  qed
qed

text \<open>The search over all starts returns, and closes a cycle whenever a set of entries is stuck.\<close>

lemma dfs_starts_correct:
  assumes "valid_graph g"
  shows "dfs_inv g color [] \<Longrightarrow> whites color \<le> fuel \<Longrightarrow> \<forall>s \<in> set starts. s < length g \<Longrightarrow>
    (\<exists>cycle. dfs_starts fuel g starts color [] = Some (Some cycle) \<and> clause_cycle g cycle)
    \<or> (dfs_starts fuel g starts color [] = Some None \<and>
        (\<forall>S. stuck g S \<longrightarrow> (\<forall>i \<in> S. color ! i \<noteq> Black) \<longrightarrow> S \<inter> set starts = {}))"
proof (induction starts arbitrary: color)
  case (Cons s starts)
  show ?case
  proof (cases "color ! s = White")
    case True
    with Cons.prems assms have post: "dfs_post g color s [] (dfs fuel g s color [])"
      by (intro dfs_correct(1)) simp_all
    then obtain color2 path2 res where r: "dfs fuel g s color [] = Some (color2, path2, res)"
      by (auto simp: dfs_post_def)
    show ?thesis
    proof (cases res)
      case None
      with post r have c2: "path2 = []" "dfs_inv g color2 []" "whites color2 \<le> fuel" "color2 ! s = Black"
        "\<forall>S. stuck g S \<longrightarrow> (\<forall>i \<in> S. color ! i \<noteq> Black) \<longrightarrow> (\<forall>i \<in> S. color2 ! i \<noteq> Black)"
        using Cons.prems(2) by (auto simp: dfs_post_def)
      have "s \<notin> S" if "stuck g S" "\<forall>i \<in> S. color ! i \<noteq> Black" for S using that c2(4,5) by blast
      then have "S \<inter> set (s # starts) = S \<inter> set starts" if "stuck g S" "\<forall>i \<in> S. color ! i \<noteq> Black" for S
        using that by simp
      moreover have "dfs_starts fuel g (s # starts) color [] = dfs_starts fuel g starts color2 []"
        using True r None c2(1) by simp
      ultimately show ?thesis using Cons.IH [OF c2(2,3)] Cons.prems(3) c2(5) by (auto simp del: dfs_starts.simps)
    qed (use post r True in \<open>simp add: dfs_post_def\<close>)
  next
    case False
    have "color ! s \<noteq> Gray" using Cons.prems(1,3) by (auto simp: dfs_inv_def)
    with False have "color ! s = Black" by (cases "color ! s") simp_all
    then have "s \<notin> S" if "\<forall>i \<in> S. color ! i \<noteq> Black" for S using that by blast
    then have "S \<inter> set (s # starts) = S \<inter> set starts" if "\<forall>i \<in> S. color ! i \<noteq> Black" for S using that by simp
    with Cons.IH [OF Cons.prems(1,2)] Cons.prems(3) False show ?thesis by simp
  qed
qed simp

lemma whites_le: "whites color \<le> length color"
  using card_mono [of "{..<length color}" "{i. i < length color \<and> color ! i = White}"] by (auto simp: whites_def)

lemma find_cycle_correct:
  assumes "valid_graph g"
  shows "\<exists>res. find_cycle_path g = Some res \<and> (\<forall>cycle. res = Some cycle \<longrightarrow> clause_cycle g cycle)
    \<and> (\<forall>S. stuck g S \<longrightarrow> S \<noteq> {} \<longrightarrow> res \<noteq> None)"
proof -
  define color where "color = replicate (length g) White"
  have inv: "dfs_inv g color []" by (simp add: dfs_inv_def color_def edge_walk_def)
  have "whites color \<le> length g + 1" using whites_le [of color] by (simp add: color_def)
  from dfs_starts_correct [OF assms inv this, of "[0..<length g]"]
  consider cycle where "find_cycle_path g = Some (Some cycle)" "clause_cycle g cycle"
    | "find_cycle_path g = Some None" "\<forall>S. stuck g S \<longrightarrow> (\<forall>i \<in> S. color ! i \<noteq> Black) \<longrightarrow> S \<inter> {..<length g} = {}"
    by (auto simp: find_cycle_path_def color_def atLeast0LessThan)
  then show ?thesis
  proof cases
    case 2
    have "S = {}" if "stuck g S" for S
    proof -
      have sub: "S \<subseteq> {..<length g}" using that by (simp add: stuck_def)
      then have "\<forall>i \<in> S. color ! i \<noteq> Black" by (auto simp: color_def)
      with 2(2) that sub show ?thesis by blast
    qed
    with 2(1) show ?thesis by blast
  qed auto
qed

text \<open>A closed walk is a stuck set.\<close>

lemma clause_cycle_stuck:
  assumes "clause_cycle g cycle"
  shows "stuck g (fst ` set cycle)" and "fst ` set cycle \<noteq> {}"
proof -
  from assms have len: "2 \<le> length cycle" and closed: "fst (hd cycle) = fst (last cycle)" and walk: "edge_walk g cycle"
    and less: "\<forall>e \<in> set cycle. fst e < length g" by (simp_all add: clause_cycle_def)
  have next_in: "targets g (fst (cycle ! k)) \<inter> fst ` set cycle \<noteq> {}" if "Suc k < length cycle" for k
  proof -
    have "fst (cycle ! Suc k) \<in> targets g (fst (cycle ! k))"
      using walk that unfolding edge_walk_def targets_def by (metis fst_conv image_eqI)
    moreover have "fst (cycle ! Suc k) \<in> fst ` set cycle" using that by simp
    ultimately show ?thesis by blast
  qed
  have "targets g (fst e) \<inter> fst ` set cycle \<noteq> {}" if "e \<in> set cycle" for e
  proof -
    from that obtain k where k: "k < length cycle" "cycle ! k = e" by (auto simp: in_set_conv_nth)
    show ?thesis
    proof (cases "Suc k < length cycle")
      case False
      then have "k = length cycle - 1" using k(1) by simp
      then have "e = last cycle" using k len by (metis last_conv_nth list.size(3) not_numeral_le_zero)
      then have "fst e = fst (cycle ! 0)" using closed len by (metis hd_conv_nth list.size(3) not_numeral_le_zero)
      with next_in [of 0] len show ?thesis by simp
    qed (use next_in [of k] k in simp)
  qed
  with less show "stuck g (fst ` set cycle)" by (auto simp: stuck_def)
  show "fst ` set cycle \<noteq> {}" using len by auto
qed

end
