(* ===== verification/Clock_Groups.thy ===== *)
theory Clock_Groups
  imports Timing Clause_Graph Gate_Registry Ordered_Map
begin

text \<open>
  The entries the pass of \<open>compiler/compile_after.rs\<close> reads and writes, its errors, the index of signal identifiers, and the
  assignment of clock groups to the components of the \<open>after\<close> graph. Of an error the variant and its data are modelled, not
  the reasons put into words. The fields of an entry that the pass only copies are one field of a type parameter.
\<close>

section \<open>Data\<close>

datatype AfterOp = AfterOpLessThan | AfterOpGreaterThan

record AfterClause =
  ac_ref_id :: string
  ac_op :: AfterOp
  ac_value :: f64
  ac_delay :: "string option"

record WhileClause =
  wc_ref_id :: string
  wc_op :: WhileOp
  wc_value :: f64
  wc_scenario_name :: "string option"
  wc_if_unresolved :: "UnresolvedBehavior option"

record 'p ExpandedEntry =
  ee_id :: "string option"
  ee_signal_type :: string
  ee_name :: string
  ee_rate :: f64
  ee_generator :: "GeneratorConfig option"
  ee_phase_offset :: "string option"
  ee_clock_group :: "string option"
  ee_after :: "AfterClause option"
  ee_while_clause :: "WhileClause option"
  ee_carried :: 'p

record 'p ExpandedFile =
  ef_version :: nat
  ef_scenario_name :: "string option"
  ef_entries :: "'p ExpandedEntry list"

record 'p CompiledEntry =
  ce_id :: "string option"
  ce_signal_type :: string
  ce_name :: string
  ce_rate :: f64
  ce_generator :: "GeneratorConfig option"
  ce_phase_offset :: "string option"
  ce_clock_group :: "string option"
  ce_clock_group_is_auto :: bool
  ce_while_clause :: "WhileClause option"
  ce_after_ref :: "string option"
  ce_carried :: 'p

record 'p CompiledFile =
  cf_version :: nat
  cf_scenario_name :: "string option"
  cf_entries :: "'p CompiledEntry list"

datatype NanSource = NanConstant | NanSequenceValue nat | NanCsvCell string nat nat

text \<open>\<open>CompilePanic\<close> stands for the branches the code marks as unreachable and for arithmetic that would overflow.\<close>

datatype CompileAfterError =
    UnknownRef string string ClauseKind string
  | AmbiguousSubSignalRef string string string nat
  | SelfReference string ClauseKind
  | CircularDependency "(string \<times> ClauseKind) list"
  | UnsupportedGenerator string string string Operator
  | OutOfRangeThreshold string string Operator f64
  | AmbiguousAtT0 string string Operator f64
  | ConflictingClockGroup string string string string
  | NonMetricsTarget string string ClauseKind string
  | InvalidDuration string string string DurationError
  | WhileNanSource string string NanSource
  | WhileUnsupportedUpstreamGenerator string string string
  | CompilePanic

definition source_label :: "'p ExpandedEntry \<Rightarrow> string" where
  "source_label e = (case ee_id e of Some i \<Rightarrow> i | None \<Rightarrow> ''<anonymous:'' @ ee_name e @ ''>'')"

fun index_entries :: "nat \<Rightarrow> 'p ExpandedEntry list \<Rightarrow> (string, nat) btree \<Rightarrow> (string, nat) btree" where
  "index_entries i [] idx = idx"
| "index_entries i (e # es) idx =
     index_entries (i + 1) es (case ee_id e of Some k \<Rightarrow> btree_insert k i idx | None \<Rightarrow> idx)"

definition build_id_index :: "'p ExpandedEntry list \<Rightarrow> (string, nat) btree" where
  "build_id_index entries = index_entries 0 entries []"

section \<open>Components\<close>

fun link_entries :: "nat \<Rightarrow> 'p ExpandedEntry list \<Rightarrow> (string, nat) btree \<Rightarrow> nat list list \<Rightarrow> nat list list" where
  "link_entries i [] idx adj = adj"
| "link_entries i (e # es) idx adj =
     link_entries (i + 1) es idx
       (case ee_after e of
          None \<Rightarrow> adj
        | Some clause \<Rightarrow>
            case btree_get idx (ac_ref_id clause) of
              None \<Rightarrow> adj
            | Some dep \<Rightarrow>
                let adj = adj[i := adj ! i @ [dep]] in adj[dep := adj ! dep @ [i]])"

definition after_links :: "'p ExpandedEntry list \<Rightarrow> (string, nat) btree \<Rightarrow> nat list list" where
  "after_links entries idx = link_entries 0 entries idx (replicate (length entries) [])"

text \<open>
  The walk of one component: the top of the stack comes first. A component identifier is absent until the entry is
  visited; the indices on the stack are those of entries.
\<close>

definition unvisited :: "nat option list \<Rightarrow> nat \<Rightarrow> bool" where
  "unvisited component_id node \<longleftrightarrow> node < length component_id \<and> component_id ! node = None"

lemma unvisited_visit:
  assumes "unvisited component_id node"
  shows "card {i. unvisited (component_id[node := Some cid]) i} < card {i. unvisited component_id i}"
proof (rule psubset_card_mono)
  have "{i. unvisited component_id i} \<subseteq> {..<length component_id}" by (auto simp: unvisited_def)
  then show "finite {i. unvisited component_id i}" by (rule finite_subset) simp
  show "{i. unvisited (component_id[node := Some cid]) i} \<subset> {i. unvisited component_id i}"
    using assms by (auto simp: unvisited_def nth_list_update split: if_splits)
qed

function walk_component :: "nat list list \<Rightarrow> nat \<Rightarrow> nat list \<Rightarrow> nat option list \<Rightarrow> nat list \<Rightarrow> nat option list \<times> nat list" where
  "walk_component adj cid [] component_id members = (component_id, members)"
| "walk_component adj cid (node # stack) component_id members =
     (if unvisited component_id node
      then
        let component_id = component_id[node := Some cid]
        in walk_component adj cid (rev (filter (unvisited component_id) (adj ! node)) @ stack) component_id (members @ [node])
      else walk_component adj cid stack component_id members)"
  by pat_completeness auto
termination
  by (relation "measures [\<lambda>(adj, cid, stack, component_id, members). card {i. unvisited component_id i},
      \<lambda>(adj, cid, stack, component_id, members). length stack]") (auto simp: unvisited_visit)

fun walk_components :: "nat list list \<Rightarrow> nat list \<Rightarrow> nat option list \<Rightarrow> nat list list \<Rightarrow> nat list list" where
  "walk_components adj [] component_id components = components"
| "walk_components adj (start # starts) component_id components =
     (if unvisited component_id start
      then (case walk_component adj (length components) [start] component_id [] of
              (component_id, members) \<Rightarrow> walk_components adj starts component_id (components @ [members]))
      else walk_components adj starts component_id components)"

definition after_components :: "'p ExpandedEntry list \<Rightarrow> (string, nat) btree \<Rightarrow> nat list list" where
  "after_components entries idx =
     walk_components (after_links entries idx) [0..<length entries] (replicate (length entries) None) []"

section \<open>Names\<close>

datatype ClockGroupAssignment = Resolved string bool | Unassigned

definition auto_chain_name :: "nat list \<Rightarrow> 'p ExpandedEntry list \<Rightarrow> CompileAfterError + string" where
  "auto_chain_name members entries =
     (case sort (List.map_filter (\<lambda>i. ee_id (entries ! i)) members) of
        first # _ \<Rightarrow> Inr (''chain_'' @ first)
      | [] \<Rightarrow> Inl CompilePanic)"

fun distinct_groups :: "nat list \<Rightarrow> 'p ExpandedEntry list \<Rightarrow> (string, nat) btree \<Rightarrow> (string, nat) btree" where
  "distinct_groups [] entries groups = groups"
| "distinct_groups (i # ms) entries groups =
     distinct_groups ms entries
       (case ee_clock_group (entries ! i) of
          Some cg \<Rightarrow> if cg \<noteq> [] \<and> btree_get groups cg = None then btree_insert cg i groups else groups
        | None \<Rightarrow> groups)"

definition component_group :: "nat list \<Rightarrow> 'p ExpandedEntry list \<Rightarrow> CompileAfterError + string \<times> bool" where
  "component_group members entries =
     (case distinct_groups members entries [] of
        [] \<Rightarrow> rbind (auto_chain_name members entries) (\<lambda>name. Inr (name, True))
      | [(k, _)] \<Rightarrow> Inr (k, False)
      | (first_group, first_idx) # (second_group, second_idx) # _ \<Rightarrow>
          Inl (ConflictingClockGroup (source_label (entries ! first_idx)) first_group
                 (source_label (entries ! second_idx)) second_group))"

definition assign_members :: "nat list \<Rightarrow> ClockGroupAssignment \<Rightarrow> ClockGroupAssignment list \<Rightarrow> ClockGroupAssignment list" where
  "assign_members members a out = foldl (\<lambda>out i. out[i := a]) out members"

fun assign_components :: "nat list list \<Rightarrow> 'p ExpandedEntry list \<Rightarrow> ClockGroupAssignment list
    \<Rightarrow> CompileAfterError + ClockGroupAssignment list" where
  "assign_components [] entries out = Inr out"
| "assign_components (members # components) entries out =
     (if length members < 2 then assign_components components entries out
      else
        rbind (component_group members entries) (\<lambda>(name, is_auto).
          assign_components components entries (assign_members members (Resolved name is_auto) out)))"

definition assign_clock_groups ::
  "'p ExpandedEntry list \<Rightarrow> (string, nat) btree \<Rightarrow> CompileAfterError + ClockGroupAssignment list" where
  "assign_clock_groups entries idx =
     assign_components (after_components entries idx) entries (replicate (length entries) Unassigned)"

section \<open>The index\<close>

lemma index_entries_inv: "btree_inv idx \<Longrightarrow> btree_inv (index_entries i es idx)"
  by (induction es arbitrary: i idx) (auto simp: btree_inv_insert split: option.splits)

lemma index_entries_get:
  "btree_inv idx \<Longrightarrow> btree_get (index_entries i es idx) k = Some j \<Longrightarrow>
   btree_get idx k = Some j \<or> (i \<le> j \<and> j < i + length es \<and> ee_id (es ! (j - i)) = Some k)"
proof (induction es arbitrary: i idx)
  case (Cons e es)
  define idx' where "idx' = (case ee_id e of Some k \<Rightarrow> btree_insert k i idx | None \<Rightarrow> idx)"
  from Cons.prems have inv: "btree_inv idx'" and "btree_get (index_entries (i + 1) es idx') k = Some j"
    by (auto simp: idx'_def btree_inv_insert split: option.splits)
  from Cons.IH [OF this] show ?case
  proof
    assume "btree_get idx' k = Some j"
    then show ?thesis using Cons.prems(1) by (auto simp: idx'_def btree_get_insert split: option.splits if_splits)
  next
    assume "i + 1 \<le> j \<and> j < i + 1 + length es \<and> ee_id (es ! (j - (i + 1))) = Some k"
    then show ?thesis by (auto simp: nth_Cons')
  qed
qed simp

lemma id_index_get:
  "btree_get (build_id_index entries) k = Some j \<Longrightarrow> j < length entries \<and> ee_id (entries ! j) = Some k"
  using index_entries_get [where idx = "[]" and i = 0 and es = entries] by (fastforce simp: build_id_index_def btree_get_def)

lemma id_index_inv: "btree_inv (build_id_index entries)"
  by (simp add: build_id_index_def index_entries_inv)

section \<open>Links\<close>

definition after_dep :: "(string, nat) btree \<Rightarrow> 'p ExpandedEntry \<Rightarrow> nat option" where
  "after_dep idx e = (case ee_after e of Some clause \<Rightarrow> btree_get idx (ac_ref_id clause) | None \<Rightarrow> None)"

definition after_linked :: "'p ExpandedEntry list \<Rightarrow> (string, nat) btree \<Rightarrow> nat \<Rightarrow> nat \<Rightarrow> bool" where
  "after_linked entries idx x y \<longleftrightarrow> x < length entries \<and> y < length entries
     \<and> (after_dep idx (entries ! x) = Some y \<or> after_dep idx (entries ! y) = Some x)"

lemma link_entries_Cons:
  "link_entries i (e # es) idx adj =
   link_entries (i + 1) es idx
     (case after_dep idx e of
        None \<Rightarrow> adj
      | Some dep \<Rightarrow> let adj = adj[i := adj ! i @ [dep]] in adj[dep := adj ! dep @ [i]])"
  by (auto simp: after_dep_def split: option.splits)

lemma link_entries_spec:
  assumes "i + length es \<le> length adj" and "\<forall>e \<in> set es. \<forall>d. after_dep idx e = Some d \<longrightarrow> d < length adj" and "x < length adj"
  shows "length (link_entries i es idx adj) = length adj \<and>
    (y \<in> set (link_entries i es idx adj ! x) \<longleftrightarrow> y \<in> set (adj ! x)
      \<or> (\<exists>k < length es. after_dep idx (es ! k) = Some y \<and> x = i + k)
      \<or> (\<exists>k < length es. after_dep idx (es ! k) = Some x \<and> y = i + k))"
  using assms
proof (induction es arbitrary: i adj)
  case (Cons e es)
  define adj' where "adj' = (case after_dep idx e of None \<Rightarrow> adj
    | Some dep \<Rightarrow> let adj = adj[i := adj ! i @ [dep]] in adj[dep := adj ! dep @ [i]])"
  have len: "length adj' = length adj" by (simp add: adj'_def Let_def split: option.split)
  have one: "y \<in> set (adj' ! x) \<longleftrightarrow> y \<in> set (adj ! x) \<or> (after_dep idx e = Some y \<and> x = i) \<or> (after_dep idx e = Some x \<and> y = i)"
    using Cons.prems by (cases "after_dep idx e") (auto simp: adj'_def Let_def nth_list_update)
  have "length (link_entries (i + 1) es idx adj') = length adj' \<and>
    (y \<in> set (link_entries (i + 1) es idx adj' ! x) \<longleftrightarrow> y \<in> set (adj' ! x)
      \<or> (\<exists>k < length es. after_dep idx (es ! k) = Some y \<and> x = i + 1 + k)
      \<or> (\<exists>k < length es. after_dep idx (es ! k) = Some x \<and> y = i + 1 + k))"
    using Cons.prems by (intro Cons.IH) (auto simp: len)
  then show ?case
    unfolding link_entries_Cons adj'_def [symmetric] using len one by (simp add: Ex_less_Suc2) blast
qed simp

lemma after_links_linked:
  assumes "idx = build_id_index entries" and "x < length entries"
  shows "length (after_links entries idx) = length entries"
    and "y \<in> set (after_links entries idx ! x) \<longleftrightarrow> after_linked entries idx x y"
proof -
  have dep: "d < length entries" if "after_dep idx e = Some d" for e :: "'a ExpandedEntry" and d
    using that assms(1) id_index_get by (auto simp: after_dep_def split: option.splits)
  have "length (after_links entries idx) = length (replicate (length entries) ([] :: nat list)) \<and>
    (y \<in> set (after_links entries idx ! x) \<longleftrightarrow> y \<in> set (replicate (length entries) [] ! x)
      \<or> (\<exists>k < length entries. after_dep idx (entries ! k) = Some y \<and> x = 0 + k)
      \<or> (\<exists>k < length entries. after_dep idx (entries ! k) = Some x \<and> y = 0 + k))"
    unfolding after_links_def using assms(2) dep by (intro link_entries_spec) auto
  then show "length (after_links entries idx) = length entries"
    "y \<in> set (after_links entries idx ! x) \<longleftrightarrow> after_linked entries idx x y"
    using assms(2) dep by (auto simp: after_linked_def)
qed

lemma length_after_links:
  assumes "idx = build_id_index entries"
  shows "length (after_links entries idx) = length entries"
proof (cases "length entries")
  case 0
  then show ?thesis by (simp add: after_links_def)
qed (use after_links_linked(1) [OF assms, of 0] in simp)

section \<open>Components are closed and connected\<close>

definition sym_links :: "nat list list \<Rightarrow> bool" where
  "sym_links adj \<longleftrightarrow> (\<forall>x < length adj. \<forall>y \<in> set (adj ! x). y < length adj \<and> x \<in> set (adj ! y))"

definition link_step :: "nat list list \<Rightarrow> (nat \<times> nat) set" where
  "link_step adj = {(x, y). x < length adj \<and> y \<in> set (adj ! x)}"

definition closed :: "nat list list \<Rightarrow> nat set \<Rightarrow> bool" where
  "closed adj A \<longleftrightarrow> A \<subseteq> {..<length adj} \<and> (\<forall>x \<in> A. set (adj ! x) \<subseteq> A)"

definition visited :: "nat option list \<Rightarrow> nat set" where
  "visited component_id = {i. i < length component_id \<and> component_id ! i \<noteq> None}"

definition walk_inv :: "nat list list \<Rightarrow> nat \<Rightarrow> nat set \<Rightarrow> nat list \<Rightarrow> nat option list \<Rightarrow> nat list \<Rightarrow> bool" where
  "walk_inv adj start C stack component_id members \<longleftrightarrow>
     length component_id = length adj \<and> visited component_id = C \<union> set members \<and> C \<inter> set members = {}
     \<and> distinct members \<and> set stack \<subseteq> {..<length adj} \<and> (\<forall>x \<in> set stack \<union> set members. (start, x) \<in> (link_step adj)\<^sup>*)
     \<and> (\<forall>x \<in> set members. set (adj ! x) \<subseteq> C \<union> set members \<union> set stack)"

lemma unvisited_iff: "unvisited component_id i \<longleftrightarrow> i < length component_id \<and> i \<notin> visited component_id"
  by (auto simp: unvisited_def visited_def)

lemma visited_update: "i < length component_id \<Longrightarrow> visited (component_id[i := Some c]) = insert i (visited component_id)"
  by (auto simp: visited_def nth_list_update)

lemma walk_component_inv:
  "sym_links adj \<Longrightarrow> walk_inv adj start C stack component_id members \<Longrightarrow>
    walk_component adj cid stack component_id members = (component_id', members') \<Longrightarrow>
    walk_inv adj start C [] component_id' members' \<and> set stack \<union> set members \<subseteq> C \<union> set members'"
proof (induction adj cid stack component_id members rule: walk_component.induct)
  case (2 adj cid node stack component_id members)
  from "2.prems"(2) have len: "length component_id = length adj" and node: "node < length adj"
    and reach: "(start, node) \<in> (link_step adj)\<^sup>*" by (simp_all add: walk_inv_def)
  show ?case
  proof (cases "unvisited component_id node")
    case False
    then have vis: "node \<in> visited component_id" using node len by (simp add: unvisited_iff)
    then have "walk_inv adj start C stack component_id members" using "2.prems"(2) by (auto simp: walk_inv_def)
    with "2.IH"(2) [OF False] "2.prems"(1,3) False have
      "walk_inv adj start C [] component_id' members' \<and> set stack \<union> set members \<subseteq> C \<union> set members'" by simp
    moreover have "node \<in> C \<union> set members" using vis "2.prems"(2) by (simp add: walk_inv_def)
    ultimately show ?thesis by auto
  next
    case True
    define comp where "comp = component_id[node := Some cid]"
    define pushed where "pushed = rev (filter (unvisited comp) (adj ! node))"
    have vis: "visited comp = insert node (visited component_id)" using node len by (simp add: comp_def visited_update)
    have fresh: "node \<notin> visited component_id" using True by (simp add: unvisited_iff)
    have step: "(start, y) \<in> (link_step adj)\<^sup>*" if "y \<in> set (adj ! node)" for y
      using reach that node by (auto simp: link_step_def intro: rtrancl_into_rtrancl)
    have "y < length adj" if "y \<in> set (adj ! node)" for y using "2.prems"(1) that node unfolding sym_links_def by blast
    then have pushed: "set pushed = set (adj ! node) - visited comp"
      using len by (auto simp: pushed_def unvisited_iff comp_def)
    have inv: "walk_inv adj start C (pushed @ stack) comp (members @ [node])"
    proof -
      have "visited comp = C \<union> set (members @ [node])" "C \<inter> set (members @ [node]) = {}" "distinct (members @ [node])"
        using vis fresh "2.prems"(2) by (auto simp: walk_inv_def)
      moreover have "set (pushed @ stack) \<subseteq> {..<length adj}"
        using pushed \<open>\<And>y. y \<in> set (adj ! node) \<Longrightarrow> y < length adj\<close> "2.prems"(2) by (auto simp: walk_inv_def)
      moreover have "\<forall>x \<in> set (pushed @ stack) \<union> set (members @ [node]). (start, x) \<in> (link_step adj)\<^sup>*"
        using pushed step reach "2.prems"(2) by (auto simp: walk_inv_def)
      moreover have "\<forall>x \<in> set (members @ [node]). set (adj ! x) \<subseteq> C \<union> set (members @ [node]) \<union> set (pushed @ stack)"
        using pushed vis "2.prems"(2) by (auto simp: walk_inv_def)
      ultimately show ?thesis using len by (simp add: walk_inv_def comp_def)
    qed
    have "walk_component adj cid (pushed @ stack) comp (members @ [node]) = (component_id', members')"
      using "2.prems"(3) True by (simp add: comp_def pushed_def Let_def)
    with "2.IH"(1) [OF True comp_def] "2.prems"(1) inv have
      "walk_inv adj start C [] component_id' members' \<and> set (pushed @ stack) \<union> set (members @ [node]) \<subseteq> C \<union> set members'"
      by (simp add: pushed_def)
    then show ?thesis by auto
  qed
qed simp

lemma walk_component_closes:
  assumes "sym_links adj" and "closed adj (visited component_id)" and "length component_id = length adj"
    and "unvisited component_id start" and "walk_component adj cid [start] component_id [] = (component_id', members)"
  shows "length component_id' = length adj" and "visited component_id' = visited component_id \<union> set members"
    and "visited component_id \<inter> set members = {}" and "distinct members" and "start \<in> set members"
    and "closed adj (set members)" and "\<forall>x \<in> set members. (start, x) \<in> (link_step adj)\<^sup>*"
proof -
  define C where "C = visited component_id"
  have "walk_inv adj start C [start] component_id []"
    using assms(3,4) by (simp add: walk_inv_def C_def unvisited_iff)
  from walk_component_inv [OF assms(1) this assms(5)]
  have inv: "walk_inv adj start C [] component_id' members" and start: "start \<in> C \<union> set members" by auto
  from inv show "length component_id' = length adj" "visited component_id' = visited component_id \<union> set members"
    "visited component_id \<inter> set members = {}" "distinct members" "\<forall>x \<in> set members. (start, x) \<in> (link_step adj)\<^sup>*"
    by (simp_all add: walk_inv_def C_def)
  show "start \<in> set members" using start assms(4) by (simp add: C_def unvisited_iff)
  have sub: "set members \<subseteq> {..<length adj}" using inv by (auto simp: walk_inv_def visited_def)
  have "set (adj ! x) \<subseteq> set members" if x: "x \<in> set members" for x
  proof
    fix y assume y: "y \<in> set (adj ! x)"
    with inv x have "y \<in> C \<union> set members" by (auto simp: walk_inv_def)
    moreover have "y \<notin> C"
    proof
      assume "y \<in> C"
      moreover have "x \<in> set (adj ! y)" using assms(1) x y sub unfolding sym_links_def by blast
      ultimately have "x \<in> C" using assms(2) unfolding closed_def C_def by blast
      with inv x show False by (auto simp: walk_inv_def)
    qed
    ultimately show "y \<in> set members" by simp
  qed
  with sub show "closed adj (set members)" by (simp add: closed_def)
qed

definition component_of :: "nat list list \<Rightarrow> nat list \<Rightarrow> bool" where
  "component_of adj members \<longleftrightarrow> distinct members \<and> closed adj (set members)
     \<and> (\<exists>start \<in> set members. \<forall>x \<in> set members. (start, x) \<in> (link_step adj)\<^sup>*)"

lemma walk_components_spec:
  assumes "sym_links adj"
  shows "closed adj (visited component_id) \<Longrightarrow> length component_id = length adj \<Longrightarrow>
    \<forall>s \<in> set starts. s < length adj \<Longrightarrow> distinct (concat cs) \<Longrightarrow> set (concat cs) = visited component_id \<Longrightarrow>
    \<forall>M \<in> set cs. component_of adj M \<Longrightarrow> cs' = walk_components adj starts component_id cs \<Longrightarrow>
    distinct (concat cs') \<and> visited component_id \<union> set starts \<subseteq> set (concat cs') \<and> set (concat cs') \<subseteq> {..<length adj}
    \<and> (\<forall>M \<in> set cs'. component_of adj M)"
proof (induction starts arbitrary: component_id cs)
  case Nil
  then show ?case by (auto simp: closed_def)
next
  case (Cons s starts)
  show ?case
  proof (cases "unvisited component_id s")
    case False
    then have "s \<in> visited component_id" using Cons.prems(2,3) by (simp add: unvisited_iff)
    with Cons.IH [OF Cons.prems(1,2) _ Cons.prems(4,5,6)] Cons.prems(3,7) False show ?thesis by auto
  next
    case True
    obtain comp members where w: "walk_component adj (length cs) [s] component_id [] = (comp, members)" by fastforce
    note spec = walk_component_closes [OF assms Cons.prems(1,2) True w]
    have closed: "closed adj (visited comp)" using Cons.prems(1) spec(2,6) by (auto simp: closed_def)
    have parts: "distinct (concat (cs @ [members]))" "set (concat (cs @ [members])) = visited comp"
      using Cons.prems(4,5) spec(2,3,4) by auto
    have all: "\<forall>M \<in> set (cs @ [members]). component_of adj M"
      using Cons.prems(6) spec(4,5,6,7) by (auto simp: component_of_def)
    have run: "cs' = walk_components adj starts comp (cs @ [members])" using Cons.prems(7) True w by simp
    have "\<forall>s \<in> set starts. s < length adj" using Cons.prems(3) by simp
    from Cons.IH [OF closed spec(1) this parts all run] show ?thesis using spec(2,5) by auto
  qed
qed

lemma after_components_spec:
  fixes entries :: "'p ExpandedEntry list"
  assumes "idx = build_id_index entries"
  defines "cs \<equiv> after_components entries idx"
  shows "distinct (concat cs)" and "set (concat cs) = {..<length entries}"
    and "\<forall>M \<in> set cs. component_of (after_links entries idx) M"
proof -
  define adj where "adj = after_links entries idx"
  have len: "length adj = length entries" using length_after_links [OF assms(1)] by (simp add: adj_def)
  have "sym_links adj"
    using after_links_linked(2) [OF assms(1)] len unfolding sym_links_def adj_def by (auto simp: after_linked_def)
  moreover have "cs = walk_components adj [0..<length entries] (replicate (length entries) None) []"
    by (simp only: cs_def after_components_def adj_def)
  moreover have none: "visited (replicate (length entries) None) = {}" by (simp add: visited_def)
  ultimately have "distinct (concat cs) \<and> {..<length entries} \<subseteq> set (concat cs) \<and> set (concat cs) \<subseteq> {..<length adj}
    \<and> (\<forall>M \<in> set cs. component_of adj M)"
    using walk_components_spec [of adj "replicate (length entries) None" "[0..<length entries]" "[]" cs] len
    by (simp add: closed_def atLeast0LessThan)
  then show "distinct (concat cs)" "set (concat cs) = {..<length entries}"
    "\<forall>M \<in> set cs. component_of (after_links entries idx) M"
    using len by (auto simp: adj_def)
qed

section \<open>Groups\<close>

definition explicit_group :: "'p ExpandedEntry \<Rightarrow> string option" where
  "explicit_group e = (case ee_clock_group e of Some cg \<Rightarrow> if cg = [] then None else Some cg | None \<Rightarrow> None)"

lemma distinct_groups_spec:
  assumes "btree_inv groups" and "\<forall>k i. btree_get groups k = Some i \<longrightarrow> i \<in> A \<and> explicit_group (entries ! i) = Some k"
  shows "btree_inv (distinct_groups members entries groups)
    \<and> (\<forall>k i. btree_get (distinct_groups members entries groups) k = Some i \<longrightarrow>
          i \<in> A \<union> set members \<and> explicit_group (entries ! i) = Some k)
    \<and> (\<forall>k. (btree_get groups k \<noteq> None \<or> (\<exists>i \<in> set members. explicit_group (entries ! i) = Some k)) \<longrightarrow>
          btree_get (distinct_groups members entries groups) k \<noteq> None)"
  using assms
proof (induction members arbitrary: groups A)
  case (Cons i ms)
  define groups' where "groups' = (case ee_clock_group (entries ! i) of
    Some cg \<Rightarrow> if cg \<noteq> [] \<and> btree_get groups cg = None then btree_insert cg i groups else groups | None \<Rightarrow> groups)"
  have inv: "btree_inv groups'"
    using Cons.prems(1) by (auto simp: groups'_def btree_inv_insert split: option.split)
  have get: "btree_get groups' k = (if btree_get groups k = None \<and> explicit_group (entries ! i) = Some k then Some i else btree_get groups k)" for k
    using Cons.prems(1) by (auto simp: groups'_def explicit_group_def btree_get_insert split: option.splits)
  have "\<forall>k j. btree_get groups' k = Some j \<longrightarrow> j \<in> insert i A \<and> explicit_group (entries ! j) = Some k"
    using Cons.prems(2) by (auto simp: get)
  note IH = Cons.IH [OF inv this]
  have run: "distinct_groups (i # ms) entries groups = distinct_groups ms entries groups'" by (simp add: groups'_def)
  show ?case unfolding run
  proof (intro conjI allI impI)
    show "btree_inv (distinct_groups ms entries groups')" using IH by simp
    fix k j assume "btree_get (distinct_groups ms entries groups') k = Some j"
    with IH show "j \<in> A \<union> set (i # ms)" "explicit_group (entries ! j) = Some k" by fastforce+
  next
    fix k assume "btree_get groups k \<noteq> None \<or> (\<exists>j \<in> set (i # ms). explicit_group (entries ! j) = Some k)"
    then have "btree_get groups' k \<noteq> None \<or> (\<exists>j \<in> set ms. explicit_group (entries ! j) = Some k)" by (auto simp: get)
    with IH show "btree_get (distinct_groups ms entries groups') k \<noteq> None" by blast
  qed
qed auto

lemma groups_of_members:
  fixes entries :: "'p ExpandedEntry list"
  defines "groups \<equiv> \<lambda>members. distinct_groups members entries []"
  shows "btree_inv (groups members)"
    and "(k, i) \<in> set (groups members) \<Longrightarrow> i \<in> set members \<and> explicit_group (entries ! i) = Some k"
    and "i \<in> set members \<Longrightarrow> explicit_group (entries ! i) = Some k \<Longrightarrow> k \<in> fst ` set (groups members)"
proof -
  note spec = distinct_groups_spec [of "[]" "{}" entries members]
  show inv: "btree_inv (groups members)" using spec by (simp add: groups_def btree_get_def)
  show "(k, i) \<in> set (groups members) \<Longrightarrow> i \<in> set members \<and> explicit_group (entries ! i) = Some k"
    using spec inv by (simp add: groups_def btree_get_def) (metis btree_get_def btree_get_iff)
  assume "i \<in> set members" "explicit_group (entries ! i) = Some k"
  with spec have "btree_get (groups members) k \<noteq> None" by (auto simp: groups_def btree_get_def)
  then show "k \<in> fst ` set (groups members)" using btree_get_iff [OF inv] by force
qed

lemma component_group_Inr:
  assumes "component_group members entries = Inr (name, is_auto)"
  shows "i \<in> set members \<Longrightarrow> explicit_group (entries ! i) = Some k \<Longrightarrow> k = name \<and> \<not> is_auto"
    and "\<not> is_auto \<Longrightarrow> \<exists>i \<in> set members. explicit_group (entries ! i) = Some name"
    and "is_auto \<Longrightarrow> auto_chain_name members entries = Inr name"
proof -
  note groups = groups_of_members [where entries = entries and members = members]
  consider (none) "distinct_groups members entries [] = []" "is_auto" "auto_chain_name members entries = Inr name"
    | (one) j where "distinct_groups members entries [] = [(name, j)]" "\<not> is_auto"
    using assms by (auto simp: component_group_def sonda_simps split: list.splits prod.splits)
  note cases = this
  show "is_auto \<Longrightarrow> auto_chain_name members entries = Inr name" using cases by cases simp_all
  show "k = name \<and> \<not> is_auto" if "i \<in> set members" "explicit_group (entries ! i) = Some k"
    using cases groups(3) [OF that] by cases simp_all
  show "\<exists>i \<in> set members. explicit_group (entries ! i) = Some name" if "\<not> is_auto"
    using cases
  proof cases
    case (one j)
    with groups(2) [of name j] show ?thesis by auto
  qed (use that in simp)
qed

lemma component_group_Inl:
  assumes "component_group members entries = Inl e"
  shows "(e = CompilePanic \<and> (\<forall>i \<in> set members. ee_id (entries ! i) = None))
    \<or> (\<exists>i \<in> set members. \<exists>j \<in> set members. \<exists>g h. explicit_group (entries ! i) = Some g
        \<and> explicit_group (entries ! j) = Some h \<and> g \<noteq> h
        \<and> e = ConflictingClockGroup (source_label (entries ! i)) g (source_label (entries ! j)) h)"
proof -
  note groups = groups_of_members [where entries = entries and members = members]
  consider (none) "auto_chain_name members entries = Inl e"
    | (two) g i h j rest where "distinct_groups members entries [] = (g, i) # (h, j) # rest"
        "e = ConflictingClockGroup (source_label (entries ! i)) g (source_label (entries ! j)) h"
    using assms by (auto simp: component_group_def sonda_simps split: list.splits prod.splits)
  then show ?thesis
  proof cases
    case none
    then have "sort (List.map_filter (\<lambda>i. ee_id (entries ! i)) members) = []" "e = CompilePanic"
      by (auto simp: auto_chain_name_def split: list.splits)
    then have "List.map_filter (\<lambda>i. ee_id (entries ! i)) members = []" by (metis set_empty set_sort)
    then have "ee_id (entries ! i) = None" if "i \<in> set members" for i
      using that by (induction members) (auto simp: map_filter_simps split: option.splits)
    with \<open>e = CompilePanic\<close> show ?thesis by blast
  next
    case two
    have "g \<noteq> h" using groups(1) two(1) by auto
    with groups(2) [of g i] groups(2) [of h j] two show ?thesis by auto
  qed
qed

lemma length_assign_members [simp]: "length (assign_members members a out) = length out"
  by (induction members arbitrary: out) (auto simp: assign_members_def)

lemma nth_assign_members:
  "x < length out \<Longrightarrow> assign_members members a out ! x = (if x \<in> set members then a else out ! x)"
proof (induction members arbitrary: out)
  case (Cons m members)
  have "assign_members (m # members) a out = assign_members members a (out[m := a])" by (simp add: assign_members_def)
  with Cons.IH [of "out[m := a]"] Cons.prems show ?case by (simp add: nth_list_update)
qed (simp add: assign_members_def)

lemma assign_components_Inr:
  "assign_components cs entries out = Inr out' \<Longrightarrow> distinct (concat cs) \<Longrightarrow> set (concat cs) \<subseteq> {..<length out} \<Longrightarrow>
   length out' = length out \<and> (\<forall>x < length out. x \<notin> set (concat cs) \<longrightarrow> out' ! x = out ! x)
   \<and> (\<forall>M \<in> set cs. if length M < 2 then \<forall>x \<in> set M. out' ! x = out ! x
        else \<exists>name is_auto. component_group M entries = Inr (name, is_auto) \<and> (\<forall>x \<in> set M. out' ! x = Resolved name is_auto))"
proof (induction cs arbitrary: out)
  case (Cons M cs)
  have disj: "set M \<inter> set (concat cs) = {}" "distinct (concat cs)" and less: "set M \<subseteq> {..<length out}"
    using Cons.prems(2,3) by auto
  have other: "\<not> x \<in> set N" if "N \<in> set cs" "x \<in> set M" for N x using disj(1) that by auto
  show ?case
  proof (cases "length M < 2")
    case True
    with Cons.prems(1) have "assign_components cs entries out = Inr out'" by simp
    note IH = Cons.IH [OF this disj(2)]
    have "out' ! x = out ! x" if "x \<in> set M" for x
      using IH Cons.prems(3) that disj(1) less by (simp add: disjoint_iff subset_iff)
    with IH Cons.prems(3) True show ?thesis by auto
  next
    case False
    with Cons.prems(1) obtain name is_auto where c: "component_group M entries = Inr (name, is_auto)"
      "assign_components cs entries (assign_members M (Resolved name is_auto) out) = Inr out'"
      by (auto simp: sonda_simps)
    note IH = Cons.IH [OF c(2) disj(2)]
    have IH1: "length out' = length out"
      "\<forall>x < length out. x \<notin> set (concat cs) \<longrightarrow> out' ! x = assign_members M (Resolved name is_auto) out ! x"
      "\<forall>N \<in> set cs. if length N < 2 then \<forall>x \<in> set N. out' ! x = assign_members M (Resolved name is_auto) out ! x
        else \<exists>name is_auto. component_group N entries = Inr (name, is_auto) \<and> (\<forall>x \<in> set N. out' ! x = Resolved name is_auto)"
      using IH Cons.prems(3) by auto
    have keep: "assign_members M (Resolved name is_auto) out ! x = out ! x" if "x < length out" "x \<notin> set M" for x
      using that by (simp add: nth_assign_members)
    have "out' ! x = Resolved name is_auto" if "x \<in> set M" for x
    proof -
      have "x < length out" "x \<notin> set (concat cs)" using that less disj(1) by auto
      with IH1(2) that show ?thesis by (simp add: nth_assign_members)
    qed
    moreover have "if length N < 2 then \<forall>x \<in> set N. out' ! x = out ! x
        else \<exists>name is_auto. component_group N entries = Inr (name, is_auto) \<and> (\<forall>x \<in> set N. out' ! x = Resolved name is_auto)"
      if N: "N \<in> set cs" for N
    proof -
      have "\<forall>x \<in> set N. assign_members M (Resolved name is_auto) out ! x = out ! x"
        using N Cons.prems(3) other by (intro ballI keep) auto
      then show ?thesis using IH1(3) N by (auto split: if_splits)
    qed
    ultimately show ?thesis using IH1(1,2) c(1) False keep by auto
  qed
qed simp

lemma assign_components_Inl:
  "assign_components cs entries out = Inl e \<Longrightarrow> \<exists>M \<in> set cs. 2 \<le> length M \<and> component_group M entries = Inl e"
  by (induction cs arbitrary: out) (auto simp: sonda_simps split: if_splits)

section \<open>The assignment\<close>

lemma linked_in_component:
  assumes idx: "idx = build_id_index entries" and "after_linked entries idx x y"
    and "M \<in> set (after_components entries idx)" and "x \<in> set M"
  shows "y \<in> set M"
proof -
  have x: "x < length entries" using assms(2) by (simp add: after_linked_def)
  then have "y \<in> set (after_links entries idx ! x)" using assms(2) after_links_linked(2) [OF idx] by simp
  moreover have "component_of (after_links entries idx) M" using after_components_spec(3) [OF idx] assms(3) by blast
  ultimately show ?thesis using assms(4) by (auto simp: component_of_def closed_def)
qed

lemma link_step_linked:
  assumes "idx = build_id_index entries" and "(x, y) \<in> link_step (after_links entries idx)"
  shows "after_linked entries idx x y"
proof -
  have "x < length entries" using assms(2) length_after_links [OF assms(1)] by (simp add: link_step_def)
  then show ?thesis using assms(2) after_links_linked(2) [OF assms(1)] by (auto simp: link_step_def)
qed

lemma linked_sym: "after_linked entries idx x y \<Longrightarrow> after_linked entries idx y x"
  by (auto simp: after_linked_def)

text \<open>Members of a component are connected by links.\<close>

lemma component_connected:
  assumes idx: "idx = build_id_index entries" and "M \<in> set (after_components entries idx)" and "x \<in> set M" "y \<in> set M"
  shows "(after_linked entries idx)\<^sup>*\<^sup>* x y"
proof -
  have "component_of (after_links entries idx) M" using after_components_spec(3) [OF idx] assms(2) by blast
  then obtain s where s: "\<forall>z \<in> set M. (s, z) \<in> (link_step (after_links entries idx))\<^sup>*" by (auto simp: component_of_def)
  have reach: "(after_linked entries idx)\<^sup>*\<^sup>* s z" if "z \<in> set M" for z
  proof -
    from s that have "(s, z) \<in> (link_step (after_links entries idx))\<^sup>*" by blast
    then show ?thesis by induction (auto intro: rtranclp.rtrancl_into_rtrancl link_step_linked [OF idx])
  qed
  have sym: "symp (after_linked entries idx)" by (rule sympI) (rule linked_sym)
  have "(after_linked entries idx)\<^sup>*\<^sup>* x s" using symp_rtranclp [OF sym] reach [OF assms(3)] by (rule sympD)
  with reach [OF assms(4)] show ?thesis by simp
qed

lemma component_has_id:
  assumes idx: "idx = build_id_index entries" and M: "M \<in> set (after_components entries idx)" and "2 \<le> length M"
  shows "\<exists>i \<in> set M. ee_id (entries ! i) \<noteq> None"
proof -
  have "distinct M" using after_components_spec(3) [OF idx] M by (auto simp: component_of_def)
  then obtain x y where xy: "x \<in> set M" "y \<in> set M" "x \<noteq> y"
    using assms(3) by (metis One_nat_def Suc_1 Suc_le_lessD distinct_conv_nth lessI less_trans nth_mem zero_less_Suc less_numeral_extra(1) nat_neq_iff)
  from component_connected [OF idx M xy(1,2)] xy(3) obtain z where "after_linked entries idx x z"
    by (metis converse_rtranclpE)
  moreover from this have z: "z \<in> set M" using linked_in_component [OF idx _ M xy(1)] by blast
  ultimately obtain i j where "after_dep idx (entries ! i) = Some j" "j \<in> set M" using xy(1) by (auto simp: after_linked_def)
  moreover from this(1) obtain k where "btree_get (build_id_index entries) k = Some j"
    using idx by (auto simp: after_dep_def split: option.splits)
  ultimately show ?thesis using id_index_get by fastforce
qed

lemma assign_clock_groups_Inr:
  assumes idx: "idx = build_id_index entries" and "assign_clock_groups entries idx = Inr out"
  shows "length out = length entries"
    and "after_linked entries idx x y \<Longrightarrow> x \<noteq> y \<Longrightarrow> \<exists>name is_auto. out ! x = Resolved name is_auto \<and> out ! y = Resolved name is_auto"
    and "x < length entries \<Longrightarrow> out ! x = Resolved name is_auto \<Longrightarrow>
      (\<forall>k. explicit_group (entries ! x) = Some k \<longrightarrow> k = name \<and> \<not> is_auto)
      \<and> (\<exists>y < length entries. (after_linked entries idx)\<^sup>*\<^sup>* x y \<and> (if is_auto
            then \<exists>i. ee_id (entries ! y) = Some i \<and> name = ''chain_'' @ i else explicit_group (entries ! y) = Some name))"
proof -
  note comps = after_components_spec [OF idx]
  have less: "\<forall>M \<in> set (after_components entries idx). \<forall>x \<in> set M. x < length entries" using comps(2) by auto
  have run: "length out = length entries"
    "\<forall>M \<in> set (after_components entries idx). if length M < 2 then \<forall>x \<in> set M. out ! x = Unassigned
      else \<exists>name is_auto. component_group M entries = Inr (name, is_auto) \<and> (\<forall>x \<in> set M. out ! x = Resolved name is_auto)"
    using assign_components_Inr [OF assms(2) [unfolded assign_clock_groups_def] comps(1)] less comps(2)
    by (auto split: if_splits)
  show "length out = length entries" by (rule run(1))
  have comp: "\<exists>M \<in> set (after_components entries idx). x \<in> set M" if "x < length entries" for x
    using comps(2) that by auto
  show "\<exists>name is_auto. out ! x = Resolved name is_auto \<and> out ! y = Resolved name is_auto"
    if l: "after_linked entries idx x y" "x \<noteq> y"
  proof -
    obtain M where M: "M \<in> set (after_components entries idx)" "x \<in> set M" using comp l(1) by (auto simp: after_linked_def)
    have y: "y \<in> set M" by (rule linked_in_component [OF idx l(1) M])
    have "card {x, y} \<le> card (set M)" using M(2) y by (intro card_mono) auto
    then have "\<not> length M < 2" using l(2) card_length [of M] by simp
    with bspec [OF run(2) M(1)] obtain name is_auto where "\<forall>z \<in> set M. out ! z = Resolved name is_auto" by auto
    with M(2) y show ?thesis by blast
  qed
  assume x: "x < length entries" "out ! x = Resolved name is_auto"
  obtain M where M: "M \<in> set (after_components entries idx)" "x \<in> set M" using comp x(1) by blast
  with run(2) x(2) have g: "component_group M entries = Inr (name, is_auto)" by (fastforce split: if_splits)
  have conn: "(after_linked entries idx)\<^sup>*\<^sup>* x y" if "y \<in> set M" for y by (rule component_connected [OF idx M that])
  note group = component_group_Inr [OF g]
  have "\<exists>y \<in> set M. if is_auto then \<exists>i. ee_id (entries ! y) = Some i \<and> name = ''chain_'' @ i
      else explicit_group (entries ! y) = Some name"
  proof (cases is_auto)
    case True
    from group(3) [OF this] obtain i rest where
      "sort (List.map_filter (\<lambda>i. ee_id (entries ! i)) M) = i # rest" and name: "name = ''chain_'' @ i"
      by (auto simp: auto_chain_name_def split: list.splits)
    then have "i \<in> set (List.map_filter (\<lambda>i. ee_id (entries ! i)) M)" by (metis list.set_intros(1) set_sort)
    with True name show ?thesis by (auto simp: List.map_filter_def)
  qed (use group(2) in auto)
  with group(1) [OF M(2)] less M(1) conn show "(\<forall>k. explicit_group (entries ! x) = Some k \<longrightarrow> k = name \<and> \<not> is_auto)
      \<and> (\<exists>y < length entries. (after_linked entries idx)\<^sup>*\<^sup>* x y \<and> (if is_auto
            then \<exists>i. ee_id (entries ! y) = Some i \<and> name = ''chain_'' @ i else explicit_group (entries ! y) = Some name))"
    by blast
qed

lemma assign_clock_groups_Inl:
  assumes idx: "idx = build_id_index entries" and "assign_clock_groups entries idx = Inl e"
  shows "\<exists>i j g h. (after_linked entries idx)\<^sup>*\<^sup>* i j \<and> explicit_group (entries ! i) = Some g
    \<and> explicit_group (entries ! j) = Some h \<and> g \<noteq> h
    \<and> e = ConflictingClockGroup (source_label (entries ! i)) g (source_label (entries ! j)) h"
proof -
  from assign_components_Inl [OF assms(2) [unfolded assign_clock_groups_def]] obtain M
    where M: "M \<in> set (after_components entries idx)" "2 \<le> length M" "component_group M entries = Inl e" by blast
  have "\<exists>i \<in> set M. ee_id (entries ! i) \<noteq> None" by (rule component_has_id [OF idx M(1,2)])
  with component_group_Inl [OF M(3)] obtain i j g h where "i \<in> set M" "j \<in> set M"
    "explicit_group (entries ! i) = Some g" "explicit_group (entries ! j) = Some h" "g \<noteq> h"
    "e = ConflictingClockGroup (source_label (entries ! i)) g (source_label (entries ! j)) h" by auto
  with component_connected [OF idx M(1), of i j] show ?thesis by blast
qed

end
