(* ===== verification/Compile_After.thy ===== *)
theory Compile_After
  imports Clock_Groups
begin

text \<open>
  The pass of \<open>compiler/compile_after.rs\<close>: it resolves the references of \<open>after\<close> and \<open>while\<close> clauses, orders the entries by
  them, turns every \<open>after\<close> clause into a phase offset and gives linked entries one clock group.
\<close>

section \<open>References\<close>

definition is_deferred_while :: "WhileClause \<Rightarrow> string option \<Rightarrow> bool" where
  "is_deferred_while clause file_scenario_name =
     (case wc_scenario_name clause of Some name \<Rightarrow> Some name \<noteq> file_scenario_name | None \<Rightarrow> False)"

definition outgoing_edges :: "'p ExpandedEntry \<Rightarrow> string option \<Rightarrow> (string \<times> ClauseKind) list" where
  "outgoing_edges e file_scenario_name =
     (case ee_after e of Some c \<Rightarrow> [(ac_ref_id c, AfterClauseKind)] | None \<Rightarrow> [])
     @ (case ee_while_clause e of
          Some c \<Rightarrow> if is_deferred_while c file_scenario_name then [] else [(wc_ref_id c, WhileClauseKind)]
        | None \<Rightarrow> [])"

text \<open>\<open>rsplit_once('.')\<close>: what precedes the last dot.\<close>

definition before_last_dot :: "string \<Rightarrow> string option" where
  "before_last_dot s =
     (case split_on (CHR ''.'') s of
        [_] \<Rightarrow> None
      | parts \<Rightarrow> Some (join ''.'' (butlast parts)))"

definition resolve_reference ::
  "string \<Rightarrow> (string, nat) btree \<Rightarrow> string \<Rightarrow> ClauseKind \<Rightarrow> CompileAfterError + nat" where
  "resolve_reference ref_id idx source_id clause =
     (case btree_get idx ref_id of
        Some i \<Rightarrow> Inr i
      | None \<Rightarrow>
          let candidates = filter (\<lambda>k. starts_with k (ref_id @ ''.'')) (map fst idx)
          in if 1 < length candidates
             then Inl (AmbiguousSubSignalRef ref_id (unwrap_or (before_last_dot ref_id) ref_id)
                    (join '', '' candidates) (length candidates))
             else Inl (UnknownRef source_id ref_id clause (join '', '' (map fst idx))))"

fun check_edges :: "(string, nat) btree \<Rightarrow> 'p ExpandedEntry \<Rightarrow> (string \<times> ClauseKind) list \<Rightarrow> CompileAfterError + unit" where
  "check_edges idx e [] = Inr ()"
| "check_edges idx e ((ref_id, clause) # edges) =
     rbind (resolve_reference ref_id idx (source_label e) clause) (\<lambda>_.
       if ee_id e = Some ref_id then Inl (SelfReference (source_label e) clause) else check_edges idx e edges)"

fun check_refs ::
  "(string, nat) btree \<Rightarrow> string option \<Rightarrow> 'p ExpandedEntry list \<Rightarrow> CompileAfterError + unit" where
  "check_refs idx fsn [] = Inr ()"
| "check_refs idx fsn (e # es) = rbind (check_edges idx e (outgoing_edges e fsn)) (\<lambda>_. check_refs idx fsn es)"

text \<open>The clauses as edges between entries; every reference has been resolved when the graph is built.\<close>

definition entry_edges :: "(string, nat) btree \<Rightarrow> string option \<Rightarrow> 'p ExpandedEntry \<Rightarrow> (nat \<times> ClauseKind) list" where
  "entry_edges idx fsn e =
     List.map_filter (\<lambda>(ref_id, clause). map_option (\<lambda>i. (i, clause)) (btree_get idx ref_id)) (outgoing_edges e fsn)"

definition graph_of :: "(string, nat) btree \<Rightarrow> string option \<Rightarrow> 'p ExpandedEntry list \<Rightarrow> clause_graph" where
  "graph_of idx fsn entries = map (entry_edges idx fsn) entries"

definition find_cycle :: "(string, nat) btree \<Rightarrow> string option \<Rightarrow> 'p ExpandedEntry list
    \<Rightarrow> CompileAfterError + (string \<times> ClauseKind) list" where
  "find_cycle idx fsn entries =
     (case find_cycle_path (graph_of idx fsn entries) of
        None \<Rightarrow> Inl CompilePanic
      | Some (Some cycle) \<Rightarrow> Inr (map (\<lambda>(i, kind). (source_label (entries ! i), kind)) cycle)
      | Some None \<Rightarrow> Inr [(''<unknown cycle>'', AfterClauseKind)])"

text \<open>How the error prints the cycle: the clauses are named only if one of them is a \<open>while\<close>.\<close>

definition clause_name :: "ClauseKind \<Rightarrow> string" where
  "clause_name c = (case c of AfterClauseKind \<Rightarrow> ''after'' | WhileClauseKind \<Rightarrow> ''while'')"

fun labelled_cycle :: "(string \<times> ClauseKind) list \<Rightarrow> string" where
  "labelled_cycle [] = []"
| "labelled_cycle [(name, kind)] = name"
| "labelled_cycle ((name, kind) # rest) = name @ '' --['' @ clause_name kind @ '']--> '' @ labelled_cycle rest"

definition format_cycle :: "(string \<times> ClauseKind) list \<Rightarrow> string" where
  "format_cycle cycle =
     (if cycle = [] then ''circular dependency detected: <unknown cycle>''
      else if \<not> list_ex (\<lambda>(_, k). k = WhileClauseKind) (butlast cycle)
      then ''circular dependency detected: '' @ join '' -> '' (map fst cycle)
      else ''circular dependency detected: '' @ labelled_cycle cycle)"

section \<open>Upstreams of \<open>while\<close> clauses\<close>

fun is_supported_while_upstream :: "GeneratorConfig \<Rightarrow> bool" where
  "is_supported_while_upstream (CsvReplay _ _ _ _ _ _) = False"
| "is_supported_while_upstream _ = True"

fun generator_kind :: "GeneratorConfig \<Rightarrow> string" where
  "generator_kind (Constant _) = ''constant''"
| "generator_kind (Uniform _ _ _) = ''uniform''"
| "generator_kind (Sine _ _ _) = ''sine''"
| "generator_kind (Sawtooth _ _ _) = ''sawtooth''"
| "generator_kind (Sequence _ _) = ''sequence''"
| "generator_kind (Spike _ _ _ _) = ''spike''"
| "generator_kind (CsvReplay _ _ _ _ _ _) = ''csv_replay''"
| "generator_kind (Step _ _ _) = ''step''"
| "generator_kind (Flap _ _ _ _ _ _) = ''flap''"
| "generator_kind (Saturation _ _ _) = ''saturation''"
| "generator_kind (Leak _ _ _) = ''leak''"
| "generator_kind (Degradation _ _ _ _ _) = ''degradation''"
| "generator_kind (Steady _ _ _ _ _) = ''steady''"
| "generator_kind (SpikeEvent _ _ _ _) = ''spike_event''"

definition is_literal_nan :: "string \<Rightarrow> bool" where
  "is_literal_nan cell \<longleftrightarrow> map to_ascii_lowercase cell \<in> {''nan'', ''+nan'', ''-nan''}"

fun scan_rows :: "string \<Rightarrow> nat \<Rightarrow> nat \<Rightarrow> string list \<Rightarrow> NanSource option" where
  "scan_rows path column row [] = None"
| "scan_rows path column row (line # rest) =
     (let trimmed = trim line
      in if trimmed = [] \<or> starts_with trimmed ''#'' then scan_rows path column (row + 1) rest
         else
           let cells = split_on (CHR '','') trimmed
           in if length cells \<le> column then None
              else if is_literal_nan (trim (cells ! column)) then Some (NanCsvCell path row column)
              else scan_rows path column (row + 1) rest)"

definition scan_csv_for_nan :: "(string \<Rightarrow> string option) \<Rightarrow> string \<Rightarrow> nat \<Rightarrow> NanSource option" where
  "scan_csv_for_nan read_file path column =
     (case read_file path of None \<Rightarrow> None | Some contents \<Rightarrow> scan_rows path column 0 (lines contents))"

fun position :: "('a \<Rightarrow> bool) \<Rightarrow> 'a list \<Rightarrow> nat option" where
  "position P [] = None"
| "position P (x # xs) = (if P x then Some 0 else map_option Suc (position P xs))"

fun detect_nan_source :: "(string \<Rightarrow> string option) \<Rightarrow> GeneratorConfig \<Rightarrow> NanSource option" where
  "detect_nan_source read_file (Constant v) = (if f64_is_nan v then Some NanConstant else None)"
| "detect_nan_source read_file (Sequence vs _) = map_option NanSequenceValue (position f64_is_nan vs)"
| "detect_nan_source read_file (CsvReplay file column _ _ _ _) = scan_csv_for_nan read_file file (unwrap_or column 0)"
| "detect_nan_source read_file _ = None"

definition check_while :: "(string \<Rightarrow> string option) \<Rightarrow> (string, nat) btree \<Rightarrow> string option \<Rightarrow> 'p ExpandedEntry list
    \<Rightarrow> 'p ExpandedEntry \<Rightarrow> CompileAfterError + unit" where
  "check_while read_file idx fsn entries e =
     (case ee_while_clause e of
        None \<Rightarrow> Inr ()
      | Some clause \<Rightarrow>
          if is_deferred_while clause fsn then Inr ()
          else
            case btree_get idx (wc_ref_id clause) of
              None \<Rightarrow> Inl CompilePanic
            | Some dep \<Rightarrow>
                let target = entries ! dep
                in if ee_signal_type target \<noteq> ''metrics''
                   then Inl (NonMetricsTarget (source_label e) (wc_ref_id clause) WhileClauseKind (ee_signal_type target))
                   else
                     case ee_generator target of
                       None \<Rightarrow> Inr ()
                     | Some generator \<Rightarrow>
                         if \<not> is_supported_while_upstream generator
                         then Inl (WhileUnsupportedUpstreamGenerator (source_label e) (wc_ref_id clause)
                                (generator_kind generator))
                         else
                           case detect_nan_source read_file generator of
                             Some nan \<Rightarrow> Inl (WhileNanSource (source_label e) (wc_ref_id clause) nan)
                           | None \<Rightarrow> Inr ())"

fun check_whiles :: "(string \<Rightarrow> string option) \<Rightarrow> (string, nat) btree \<Rightarrow> string option \<Rightarrow> 'p ExpandedEntry list
    \<Rightarrow> 'p ExpandedEntry list \<Rightarrow> CompileAfterError + unit" where
  "check_whiles read_file idx fsn entries [] = Inr ()"
| "check_whiles read_file idx fsn entries (e # es) =
     rbind (check_while read_file idx fsn entries e) (\<lambda>_. check_whiles read_file idx fsn entries es)"

section \<open>Offsets\<close>

definition operator_from :: "AfterOp \<Rightarrow> Operator" where
  "operator_from op = (case op of AfterOpLessThan \<Rightarrow> LessThan | AfterOpGreaterThan \<Rightarrow> GreaterThan)"

definition parse_duration_secs :: "string \<Rightarrow> string \<Rightarrow> string \<Rightarrow> CompileAfterError + f64" where
  "parse_duration_secs input source_id field =
     map_err (InvalidDuration source_id field input) (rbind (parse_duration input) (\<lambda>d. Inr (as_secs_f64 d)))"

fun timing_to_error :: "TimingError \<Rightarrow> string \<Rightarrow> string \<Rightarrow> GeneratorConfig \<Rightarrow> Operator \<Rightarrow> f64 \<Rightarrow> CompileAfterError" where
  "timing_to_error Unsupported source_id ref_id generator op v =
     UnsupportedGenerator source_id ref_id (generator_kind generator) op"
| "timing_to_error OutOfRange source_id ref_id generator op v = OutOfRangeThreshold source_id ref_id op v"
| "timing_to_error Ambiguous source_id ref_id generator op v = AmbiguousAtT0 source_id ref_id op v"
| "timing_to_error (TimingInvalidDuration field input reason) source_id ref_id generator op v =
     InvalidDuration source_id field input reason"

fun base_offsets :: "'p ExpandedEntry list \<Rightarrow> CompileAfterError + f64 list" where
  "base_offsets [] = Inr []"
| "base_offsets (e # es) =
     rbind (case ee_phase_offset e of Some s \<Rightarrow> parse_duration_secs s (source_label e) ''phase_offset'' | None \<Rightarrow> Inr 0)
       (\<lambda>b. rbind (base_offsets es) (\<lambda>bs. Inr (b # bs)))"

text \<open>What an \<open>after\<close> clause adds to the offset of its target: the crossing time and the delay.\<close>

definition clause_secs :: "'p ExpandedEntry \<Rightarrow> AfterClause \<Rightarrow> 'p ExpandedEntry \<Rightarrow> CompileAfterError + f64 \<times> f64" where
  "clause_secs e clause target =
     (if ee_signal_type target \<noteq> ''metrics''
      then Inl (NonMetricsTarget (source_label e) (ac_ref_id clause) AfterClauseKind (ee_signal_type target))
      else
        case ee_generator target of
          None \<Rightarrow> Inl CompilePanic
        | Some generator \<Rightarrow>
            let op = operator_from (ac_op clause)
            in rbind (map_err (\<lambda>err. timing_to_error err (source_label e) (ac_ref_id clause) generator op (ac_value clause))
                 (crossing_secs generator op (ac_value clause) (ee_rate target))) (\<lambda>crossing.
               rbind (case ac_delay clause of
                        Some s \<Rightarrow> parse_duration_secs s (source_label e) ''after.delay'' | None \<Rightarrow> Inr 0) (\<lambda>delay.
                 Inr (crossing, delay))))"

definition entry_offset :: "(string, nat) btree \<Rightarrow> 'p ExpandedEntry list \<Rightarrow> f64 list \<Rightarrow> f64 list \<Rightarrow> nat
    \<Rightarrow> CompileAfterError + f64" where
  "entry_offset idx entries base totals i =
     (case ee_after (entries ! i) of
        None \<Rightarrow> Inr (base ! i)
      | Some clause \<Rightarrow>
          case btree_get idx (ac_ref_id clause) of
            None \<Rightarrow> Inl CompilePanic
          | Some dep \<Rightarrow>
              rbind (clause_secs (entries ! i) clause (entries ! dep)) (\<lambda>(crossing, delay).
                Inr (f64_add (f64_add (f64_add (base ! i) (totals ! dep)) crossing) delay)))"

fun total_offsets :: "(string, nat) btree \<Rightarrow> 'p ExpandedEntry list \<Rightarrow> f64 list \<Rightarrow> nat list \<Rightarrow> f64 list
    \<Rightarrow> CompileAfterError + f64 list" where
  "total_offsets idx entries base [] totals = Inr totals"
| "total_offsets idx entries base (i # order) totals =
     rbind (entry_offset idx entries base totals i) (\<lambda>t. total_offsets idx entries base order (totals[i := t]))"

section \<open>The pass\<close>

definition compile_entry :: "'p ExpandedEntry \<Rightarrow> f64 \<Rightarrow> ClockGroupAssignment \<Rightarrow> 'p CompiledEntry" where
  "compile_entry e secs assignment =
     \<lparr> ce_id = ee_id e, ce_signal_type = ee_signal_type e, ce_name = ee_name e, ce_rate = ee_rate e,
       ce_generator = ee_generator e,
       ce_phase_offset = (if ee_after e \<noteq> None \<or> \<not> f64_eq secs 0 then Some (format_duration_secs secs)
                          else ee_phase_offset e),
       ce_clock_group = (case assignment of Resolved name _ \<Rightarrow> Some name | Unassigned \<Rightarrow> ee_clock_group e),
       ce_clock_group_is_auto = (case assignment of Resolved _ is_auto \<Rightarrow> is_auto | Unassigned \<Rightarrow> False),
       ce_while_clause = ee_while_clause e, ce_after_ref = map_option ac_ref_id (ee_after e), ce_carried = ee_carried e \<rparr>"

text \<open>
  The two places of the pass that panic without a branch of their own: the index \<open>id_to_idx[ref_id]\<close> of the loop that builds the
  graph, and the assertion of \<open>format_duration_secs\<close> for every offset that is printed, checked in debug builds (\<open>debug\<close>).
\<close>

definition index_edges :: "(string, nat) btree \<Rightarrow> string option \<Rightarrow> 'p ExpandedEntry list \<Rightarrow> CompileAfterError + unit" where
  "index_edges idx fsn entries =
     (if list_all (\<lambda>e. list_all (\<lambda>(r, _). btree_get idx r \<noteq> None) (outgoing_edges e fsn)) entries then Inr ()
      else Inl CompilePanic)"

definition offset_asserts :: "'p ExpandedEntry \<Rightarrow> f64 \<Rightarrow> bool" where
  "offset_asserts e secs \<longleftrightarrow> (ee_after e \<noteq> None \<or> \<not> f64_eq secs 0) \<longrightarrow> format_duration_asserts secs"

definition assert_offsets :: "bool \<Rightarrow> 'p ExpandedEntry list \<Rightarrow> f64 list \<Rightarrow> CompileAfterError + unit" where
  "assert_offsets debug entries totals =
     (if debug \<and> \<not> list_all (\<lambda>(e, t). offset_asserts e t) (zip entries totals) then Inl CompilePanic else Inr ())"

definition compile_after ::
  "bool \<Rightarrow> (string \<Rightarrow> string option) \<Rightarrow> 'p ExpandedFile \<Rightarrow> CompileAfterError + 'p CompiledFile" where
  "compile_after debug read_file file =
     (let entries = ef_entries file; fsn = ef_scenario_name file; idx = build_id_index entries
      in rbind (check_refs idx fsn entries) (\<lambda>_. rbind (index_edges idx fsn entries) (\<lambda>_.
         case kahn_sort (graph_of idx fsn entries) of
           None \<Rightarrow> Inl CompilePanic
         | Some order \<Rightarrow>
             if length order < length entries
             then rbind (find_cycle idx fsn entries) (\<lambda>cycle. Inl (CircularDependency cycle))
             else
               rbind (check_whiles read_file idx fsn entries entries) (\<lambda>_.
               rbind (base_offsets entries) (\<lambda>base.
               rbind (total_offsets idx entries base order (replicate (length entries) 0)) (\<lambda>totals.
               rbind (assign_clock_groups entries idx) (\<lambda>groups.
               rbind (assert_offsets debug entries totals) (\<lambda>_.
                 Inr \<lparr> cf_version = ef_version file, cf_scenario_name = ef_scenario_name file,
                       cf_entries = map (\<lambda>((e, t), g). compile_entry e t g) (zip (zip entries totals) groups) \<rparr>))))))))"

section \<open>References and the graph\<close>

lemma entry_edges_iff:
  "(i, c) \<in> set (entry_edges idx fsn e) \<longleftrightarrow> (\<exists>r. (r, c) \<in> set (outgoing_edges e fsn) \<and> btree_get idx r = Some i)"
  by (force simp: entry_edges_def List.map_filter_def)

lemma graph_of_valid: "valid_graph (graph_of (build_id_index entries) fsn entries)"
  unfolding valid_graph_def
proof (intro ballI)
  fix es e assume "es \<in> set (graph_of (build_id_index entries) fsn entries)" "e \<in> set es"
  then obtain i c k where "e = (i, c)" "btree_get (build_id_index entries) k = Some i"
    by (cases e) (auto simp: graph_of_def entry_edges_iff)
  then show "fst e < length (graph_of (build_id_index entries) fsn entries)"
    using id_index_get by (fastforce simp: graph_of_def)
qed

lemma length_graph_of [simp]: "length (graph_of idx fsn entries) = length entries"
  by (simp add: graph_of_def)

definition refs_ok :: "(string, nat) btree \<Rightarrow> string option \<Rightarrow> 'p ExpandedEntry list \<Rightarrow> bool" where
  "refs_ok idx fsn entries \<longleftrightarrow>
     (\<forall>e \<in> set entries. \<forall>(r, c) \<in> set (outgoing_edges e fsn). btree_get idx r \<noteq> None \<and> ee_id e \<noteq> Some r)"

lemma resolve_reference_Inr: "resolve_reference r idx l c = Inr i \<longleftrightarrow> btree_get idx r = Some i"
  by (auto simp: resolve_reference_def Let_def split: option.splits)

lemma check_edges_Inr:
  "check_edges idx e edges = Inr () \<longleftrightarrow> (\<forall>(r, c) \<in> set edges. btree_get idx r \<noteq> None \<and> ee_id e \<noteq> Some r)"
  by (induction edges) (auto simp: sonda_simps resolve_reference_Inr split: if_splits)

lemma check_refs_Inr: "check_refs idx fsn entries = Inr () \<longleftrightarrow> refs_ok idx fsn entries"
  by (induction entries) (auto simp: sonda_simps check_edges_Inr refs_ok_def)

lemma index_edges_ok: "check_refs idx fsn entries = Inr () \<Longrightarrow> index_edges idx fsn entries = Inr ()"
  by (fastforce simp: check_refs_Inr refs_ok_def index_edges_def list_all_iff)

section \<open>Errors of the stages\<close>

text \<open>No stage but the sort and the groups report the errors of a chain of clauses.\<close>

definition chain_error :: "CompileAfterError \<Rightarrow> bool" where
  "chain_error err =
     (case err of CircularDependency _ \<Rightarrow> True | ConflictingClockGroup _ _ _ _ \<Rightarrow> True | _ \<Rightarrow> False)"

lemma chain_error_simps [simp]: "chain_error (CircularDependency cyc)" "chain_error (ConflictingClockGroup a b c d)"
  by (simp_all add: chain_error_def)

named_theorems no_chain \<open>stages that do not report an error of a chain\<close>

lemma check_refs_no_chain [no_chain]: "chain_error err \<Longrightarrow> check_refs idx fsn entries \<noteq> Inl err"
proof -
  assume err: "chain_error err"
  have "resolve_reference r idx l c \<noteq> Inl err" for r l c
    using err by (auto simp: resolve_reference_def Let_def chain_error_def split: option.splits)
  then have "check_edges idx e edges \<noteq> Inl err" for e :: "'a ExpandedEntry" and edges
    using err by (induction edges) (auto simp: sonda_simps chain_error_def split: if_splits)
  then show ?thesis by (induction entries) (auto simp: sonda_simps)
qed

lemma index_edges_no_chain [no_chain]: "chain_error err \<Longrightarrow> index_edges idx fsn entries \<noteq> Inl err"
  by (auto simp: index_edges_def chain_error_def)

lemma assert_offsets_no_chain [no_chain]: "chain_error err \<Longrightarrow> assert_offsets debug entries totals \<noteq> Inl err"
  by (auto simp: assert_offsets_def chain_error_def)

lemma check_whiles_no_chain [no_chain]: "chain_error err \<Longrightarrow> check_whiles read_file idx fsn entries es \<noteq> Inl err"
proof -
  assume "chain_error err"
  then have "check_while read_file idx fsn entries e \<noteq> Inl err" for e
    by (auto simp: check_while_def Let_def chain_error_def split: option.splits)
  then show ?thesis by (induction es) (auto simp: sonda_simps)
qed

lemma parse_duration_secs_no_chain [no_chain]: "chain_error err \<Longrightarrow> parse_duration_secs s l fld \<noteq> Inl err"
  by (cases "parse_duration s") (auto simp: parse_duration_secs_def chain_error_def)

lemma base_offsets_no_chain [no_chain]: "chain_error err \<Longrightarrow> base_offsets es \<noteq> Inl err"
  by (induction es) (auto simp: sonda_simps no_chain split: option.splits)

lemma clause_secs_no_chain [no_chain]: "chain_error err \<Longrightarrow> clause_secs e clause target \<noteq> Inl err"
proof -
  assume err: "chain_error err"
  have "\<not> chain_error (timing_to_error t l r g op v)" for t l r g op v by (cases t) (simp_all add: chain_error_def)
  then have "map_err (\<lambda>t. timing_to_error t l r g op v) m \<noteq> Inl err" for l r g op v and m :: "TimingError + f64"
    using err by (cases m) auto
  then show ?thesis
    using err by (auto simp: clause_secs_def sonda_simps no_chain Let_def chain_error_def split: option.splits if_splits)
qed

lemma total_offsets_no_chain [no_chain]: "chain_error err \<Longrightarrow> total_offsets idx entries base order totals \<noteq> Inl err"
proof -
  assume err: "chain_error err"
  then have "entry_offset idx entries base totals i \<noteq> Inl err" for totals i
    by (auto simp: entry_offset_def sonda_simps no_chain split: option.splits) (simp add: chain_error_def)
  then show ?thesis by (induction order arbitrary: totals) (auto simp: sonda_simps)
qed

lemma assign_clock_groups_no_cycle:
  "assign_clock_groups entries (build_id_index entries) \<noteq> Inl (CircularDependency cyc)"
  using assign_clock_groups_Inl [OF refl, of entries] by blast

section \<open>Circular dependencies\<close>

lemma sort_or_cycle:
  fixes entries :: "'p ExpandedEntry list" and fsn :: "string option"
  defines "g \<equiv> graph_of (build_id_index entries) fsn entries"
  obtains (sorted) order where "kahn_sort g = Some order" "length order = length entries" "distinct order"
      "set order = {..<length entries}" "deps_first g order" "\<not> (\<exists>cycle. clause_cycle g cycle)"
    | (cyclic) order cycle where "kahn_sort g = Some order" "length order < length entries"
      "find_cycle (build_id_index entries) fsn entries = Inr (map (\<lambda>(i, kind). (source_label (entries ! i), kind)) cycle)"
      "clause_cycle g cycle"
proof -
  have valid: "valid_graph g" unfolding g_def by (rule graph_of_valid)
  have len: "length g = length entries" by (simp add: g_def)
  from kahn_sort_spec [OF valid] obtain order where o: "kahn_sort g = Some order" "distinct order"
    "set order \<subseteq> {..<length entries}" "deps_first g order"
    "\<forall>i < length g. targets g i \<subseteq> set order \<longrightarrow> i \<in> set order" unfolding len by blast
  show thesis
  proof (cases "length order < length entries")
    case True
    with sort_short_stuck [OF valid] o len have "stuck g ({..<length g} - set order)" "{..<length g} - set order \<noteq> {}"
      by simp_all
    with find_cycle_correct [OF valid] obtain cycle where "find_cycle_path g = Some (Some cycle)" "clause_cycle g cycle"
      by (metis not_Some_eq)
    with cyclic o(1) True show thesis by (simp add: find_cycle_def g_def)
  next
    case False
    have "card (set order) = length order" using o(2) by (rule distinct_card)
    moreover have "card (set order) \<le> length entries" using card_mono [OF _ o(3)] by simp
    ultimately have l: "length order = length entries" using False by simp
    then have all: "set order = {..<length entries}"
      using o(2,3) by (intro card_subset_eq) (simp_all add: distinct_card)
    have "\<not> (\<exists>cycle. clause_cycle g cycle)"
      using clause_cycle_stuck deps_first_not_stuck [OF o(4)] all len by (metis order_refl)
    with sorted o l all show thesis by blast
  qed
qed

definition file_graph :: "'p ExpandedFile \<Rightarrow> clause_graph" where
  "file_graph f = graph_of (build_id_index (ef_entries f)) (ef_scenario_name f) (ef_entries f)"

definition file_refs_ok :: "'p ExpandedFile \<Rightarrow> bool" where
  "file_refs_ok f = refs_ok (build_id_index (ef_entries f)) (ef_scenario_name f) (ef_entries f)"

text \<open>
  C3. The pass reports a circular dependency exactly when every reference of the file names another entry of it and the
  clauses form a closed walk. What it reports is such a walk: the labels of its entries in order, the first one again at
  the end, each with the kind of the clause that leads to the next.
\<close>

theorem circular_dependency:
  "case compile_after debug read_file f of
     Inl (CircularDependency cyc) \<Rightarrow>
       file_refs_ok f \<and> (\<exists>cycle. clause_cycle (file_graph f) cycle
         \<and> cyc = map (\<lambda>(i, kind). (source_label (ef_entries f ! i), kind)) cycle)
   | _ \<Rightarrow> \<not> (file_refs_ok f \<and> (\<exists>cycle. clause_cycle (file_graph f) cycle))"
proof (cases "file_refs_ok f")
  case False
  then have "check_refs (build_id_index (ef_entries f)) (ef_scenario_name f) (ef_entries f) \<noteq> Inr ()"
    by (simp add: check_refs_Inr file_refs_ok_def)
  then obtain e where e: "check_refs (build_id_index (ef_entries f)) (ef_scenario_name f) (ef_entries f) = Inl e"
    by (cases "check_refs (build_id_index (ef_entries f)) (ef_scenario_name f) (ef_entries f)") auto
  then have "compile_after debug read_file f = Inl e" by (simp add: compile_after_def)
  moreover have "e \<noteq> CircularDependency cyc" for cyc using e check_refs_no_chain chain_error_simps(1) by metis
  ultimately show ?thesis using False by (simp split: CompileAfterError.split)
next
  case True
  then have ok: "check_refs (build_id_index (ef_entries f)) (ef_scenario_name f) (ef_entries f) = Inr ()"
    by (simp add: check_refs_Inr file_refs_ok_def)
  show ?thesis
  proof (cases rule: sort_or_cycle [of "ef_entries f" "ef_scenario_name f"])
    case (sorted order)
    then have "compile_after debug read_file f \<noteq> Inl (CircularDependency cyc)" for cyc
      using ok index_edges_ok [OF ok]
      by (auto simp: compile_after_def Let_def sonda_simps no_chain assign_clock_groups_no_cycle)
    then show ?thesis
      using sorted(6) by (auto simp: file_graph_def split: sum.split CompileAfterError.split)
  next
    case (cyclic order cycle)
    then show ?thesis using ok index_edges_ok [OF ok] True by (auto simp: compile_after_def Let_def file_graph_def)
  qed
qed

section \<open>Offsets\<close>

lemma entry_offset_cong:
  assumes "\<forall>dep. after_dep idx (entries ! i) = Some dep \<longrightarrow> totals ! dep = totals' ! dep"
  shows "entry_offset idx entries base totals i = entry_offset idx entries base totals' i"
  using assms by (auto simp: entry_offset_def after_dep_def split: option.split)

lemma total_offsets_equation:
  assumes "total_offsets idx entries base order totals = Inr totals'" and "distinct order"
    and "\<forall>k < length order. \<forall>dep. after_dep idx (entries ! (order ! k)) = Some dep \<longrightarrow> dep \<in> seen \<union> set (take k order)"
    and "seen \<inter> set order = {}" and "\<forall>i \<in> set order. i < length totals"
  shows "length totals' = length totals \<and> (\<forall>j. j \<notin> set order \<longrightarrow> totals' ! j = totals ! j)
    \<and> (\<forall>i \<in> set order. entry_offset idx entries base totals' i = Inr (totals' ! i))"
  using assms
proof (induction order arbitrary: totals seen)
  case (Cons i order)
  from Cons.prems(1) obtain t where t: "entry_offset idx entries base totals i = Inr t"
    "total_offsets idx entries base order (totals[i := t]) = Inr totals'" by (auto simp: sonda_simps)
  have dep: "dep \<in> seen" if "after_dep idx (entries ! i) = Some dep" for dep
    using Cons.prems(3) [rule_format, of 0] that by simp
  have "\<forall>k < length order. \<forall>dep. after_dep idx (entries ! (order ! k)) = Some dep \<longrightarrow> dep \<in> insert i seen \<union> set (take k order)"
  proof (intro allI impI)
    fix k dep assume "k < length order" "after_dep idx (entries ! (order ! k)) = Some dep"
    with Cons.prems(3) [rule_format, of "Suc k" dep] show "dep \<in> insert i seen \<union> set (take k order)" by auto
  qed
  from Cons.IH [OF t(2) _ this] Cons.prems(2,4,5)
  have IH: "length totals' = length totals" "\<forall>j. j \<notin> set order \<longrightarrow> totals' ! j = totals[i := t] ! j"
    "\<forall>j \<in> set order. entry_offset idx entries base totals' j = Inr (totals' ! j)" by auto
  have "totals' ! dep = totals ! dep" if "after_dep idx (entries ! i) = Some dep" for dep
  proof -
    have "dep \<notin> set order" "dep \<noteq> i" using dep [OF that] Cons.prems(4) by auto
    with IH(2) show ?thesis by simp
  qed
  then have "entry_offset idx entries base totals' i = Inr t"
    using t(1) entry_offset_cong [of idx entries i totals totals' base] by simp
  moreover have "totals' ! i = t" using IH(2) Cons.prems(2,5) by auto
  ultimately show ?case using IH by auto
qed simp

lemma after_dep_target:
  assumes "i < length entries" and "after_dep idx (entries ! i) = Some dep"
  shows "dep \<in> targets (graph_of idx fsn entries) i"
proof -
  from assms(2) obtain c where "ee_after (entries ! i) = Some c" "btree_get idx (ac_ref_id c) = Some dep"
    by (auto simp: after_dep_def split: option.splits)
  then have "(dep, AfterClauseKind) \<in> set (entry_edges idx fsn (entries ! i))"
    by (auto simp: entry_edges_iff outgoing_edges_def)
  then show ?thesis using assms(1) by (force simp: targets_def graph_of_def)
qed

lemma compile_after_Inr:
  assumes "compile_after debug read_file f = Inr cf"
  obtains base totals groups where "base_offsets (ef_entries f) = Inr base"
    "assign_clock_groups (ef_entries f) (build_id_index (ef_entries f)) = Inr groups"
    "length totals = length (ef_entries f)" "length groups = length (ef_entries f)"
    "length (cf_entries cf) = length (ef_entries f)"
    "\<forall>i < length (ef_entries f). cf_entries cf ! i = compile_entry (ef_entries f ! i) (totals ! i) (groups ! i)"
    "\<forall>i < length (ef_entries f).
       entry_offset (build_id_index (ef_entries f)) (ef_entries f) base totals i = Inr (totals ! i)"
    "file_refs_ok f" "cf_version cf = ef_version f" "cf_scenario_name cf = ef_scenario_name f"
    "\<And>debug. compile_after debug read_file f = rbind (assert_offsets debug (ef_entries f) totals) (\<lambda>_. Inr cf)"
proof -
  define entries idx where "entries = ef_entries f" and "idx = build_id_index entries"
  note [simp] = entries_def [symmetric]
  have refs: "check_refs idx (ef_scenario_name f) entries = Inr ()"
    using assms by (auto simp: compile_after_def Let_def idx_def sonda_simps)
  then have ok: "file_refs_ok f" by (simp add: check_refs_Inr file_refs_ok_def idx_def)
  show thesis
  proof (cases rule: sort_or_cycle [of entries "ef_scenario_name f"])
    case (sorted order)
    with assms refs index_edges_ok [OF refs] obtain base totals groups where run: "base_offsets entries = Inr base"
      "check_whiles read_file idx (ef_scenario_name f) entries entries = Inr ()"
      "total_offsets idx entries base order (replicate (length entries) 0) = Inr totals"
      "assign_clock_groups entries idx = Inr groups"
      "cf = \<lparr> cf_version = ef_version f, cf_scenario_name = ef_scenario_name f,
         cf_entries = map (\<lambda>((e, t), g). compile_entry e t g) (zip (zip entries totals) groups) \<rparr>"
      by (auto simp: compile_after_def Let_def idx_def sonda_simps)
    have "dep \<in> {} \<union> set (take k order)" if "k < length order" "after_dep idx (entries ! (order ! k)) = Some dep" for k dep
    proof -
      have "order ! k < length entries" using sorted(4) that(1) nth_mem by blast
      with after_dep_target that(2) sorted(5) that(1) show ?thesis by (fastforce simp: deps_first_def idx_def)
    qed
    then have tot: "length totals = length entries"
      "\<forall>i < length entries. entry_offset idx entries base totals i = Inr (totals ! i)"
      using total_offsets_equation [OF run(3) sorted(3), of "{}"] sorted(4) by auto
    have gr: "length groups = length entries" using assign_clock_groups_Inr(1) [OF idx_def run(4)] .
    have "compile_after d read_file f = rbind (assert_offsets d entries totals) (\<lambda>_. Inr cf)" for d
      using refs index_edges_ok [OF refs] sorted(1,2) run by (simp add: compile_after_def Let_def idx_def)
    then show thesis
      using that [of base groups totals] run tot gr ok by (simp add: idx_def)
  next
    case (cyclic order cycle)
    with assms refs index_edges_ok [OF refs] show thesis by (simp add: compile_after_def Let_def idx_def)
  qed
qed

definition secs_of :: "string option \<Rightarrow> f64" where
  "secs_of s = (case s of None \<Rightarrow> 0 | Some s \<Rightarrow> as_secs_f64 (projr (parse_duration s)))"

lemma parse_duration_secs_Inr: "parse_duration_secs s l fld = Inr x \<Longrightarrow> x = secs_of (Some s)"
  by (cases "parse_duration s") (auto simp: parse_duration_secs_def secs_of_def)

lemma base_offsets_Inr:
  "base_offsets es = Inr base \<Longrightarrow> length base = length es \<and> (\<forall>i < length es. base ! i = secs_of (ee_phase_offset (es ! i)))"
proof (induction es arbitrary: base)
  case (Cons e es)
  then obtain b bs where b: "base = b # bs" "base_offsets es = Inr bs" "b = secs_of (ee_phase_offset e)"
    by (auto simp: sonda_simps secs_of_def split: option.splits dest: parse_duration_secs_Inr)
  with Cons.IH [OF b(2)] show ?case by (auto simp: nth_Cons')
qed simp

lemma clause_secs_Inr:
  assumes "clause_secs e clause target = Inr (crossing, delay)"
  shows "\<exists>generator. ee_signal_type target = ''metrics'' \<and> ee_generator target = Some generator
    \<and> crossing_secs generator (operator_from (ac_op clause)) (ac_value clause) (ee_rate target) = Inr crossing
    \<and> delay = secs_of (ac_delay clause)"
  using assms
  by (auto simp: clause_secs_def Let_def sonda_simps secs_of_def split: option.splits if_splits dest: parse_duration_secs_Inr)

lemma entry_offset_meaning:
  assumes "base_offsets entries = Inr base" and "entry_offset (build_id_index entries) entries base totals i = Inr (totals ! i)"
    and "i < length entries"
  shows "case ee_after (entries ! i) of
      None \<Rightarrow> totals ! i = secs_of (ee_phase_offset (entries ! i))
    | Some clause \<Rightarrow>
        \<exists>dep < length entries. \<exists>generator crossing.
          ee_id (entries ! dep) = Some (ac_ref_id clause) \<and> ee_generator (entries ! dep) = Some generator
          \<and> crossing_secs generator (operator_from (ac_op clause)) (ac_value clause) (ee_rate (entries ! dep)) = Inr crossing
          \<and> totals ! i = f64_add (f64_add (f64_add (secs_of (ee_phase_offset (entries ! i))) (totals ! dep)) crossing)
                          (secs_of (ac_delay clause))"
proof (cases "ee_after (entries ! i)")
  case None
  with assms base_offsets_Inr [OF assms(1)] show ?thesis by (simp add: entry_offset_def)
next
  case (Some clause)
  with assms(2) obtain dep crossing delay where d: "btree_get (build_id_index entries) (ac_ref_id clause) = Some dep"
    "clause_secs (entries ! i) clause (entries ! dep) = Inr (crossing, delay)"
    "totals ! i = f64_add (f64_add (f64_add (base ! i) (totals ! dep)) crossing) delay"
    by (auto simp: entry_offset_def sonda_simps split: option.splits prod.splits)
  have "dep < length entries" "ee_id (entries ! dep) = Some (ac_ref_id clause)"
    using id_index_get d(1) by auto
  with clause_secs_Inr [OF d(2)] d(3) base_offsets_Inr [OF assms(1)] assms(3) Some show ?thesis by auto
qed

text \<open>
  C5. When a file is accepted there is one offset in seconds per entry such that an entry without an \<open>after\<close> clause has its own
  phase offset, and one with a clause has its own phase offset plus the offset of the entry it refers to, plus the time
  at which that entry's generator crosses the threshold, plus the delay. The compiled phase offset is the text of it; the
  text of an entry without a clause and with offset zero is kept.
\<close>

theorem offsets_accumulate:
  assumes "compile_after debug read_file f = Inr cf"
  shows "\<exists>totals. \<forall>i < length (ef_entries f).
    let e = ef_entries f ! i; compiled = ce_phase_offset (cf_entries cf ! i)
    in case ee_after e of
         None \<Rightarrow> totals i = secs_of (ee_phase_offset e)
           \<and> compiled = (if f64_eq (totals i) 0 then ee_phase_offset e else Some (format_duration_secs (totals i)))
       | Some clause \<Rightarrow>
           \<exists>dep < length (ef_entries f). \<exists>generator crossing.
             ee_id (ef_entries f ! dep) = Some (ac_ref_id clause) \<and> ee_generator (ef_entries f ! dep) = Some generator
             \<and> crossing_secs generator (operator_from (ac_op clause)) (ac_value clause) (ee_rate (ef_entries f ! dep))
                 = Inr crossing
             \<and> totals i = f64_add (f64_add (f64_add (secs_of (ee_phase_offset e)) (totals dep)) crossing)
                             (secs_of (ac_delay clause))
             \<and> compiled = Some (format_duration_secs (totals i))"
proof -
  define entries idx where "entries = ef_entries f" and "idx = build_id_index entries"
  from compile_after_Inr [OF assms] obtain base totals groups where c: "base_offsets entries = Inr base"
    "\<forall>i < length entries. cf_entries cf ! i = compile_entry (entries ! i) (totals ! i) (groups ! i)"
    "\<forall>i < length entries. entry_offset idx entries base totals i = Inr (totals ! i)"
    unfolding entries_def [symmetric] idx_def [symmetric] by metis
  show ?thesis unfolding entries_def [symmetric]
  proof (intro exI [of _ "(!) totals"] allI impI)
    fix i assume i: "i < length entries"
    have ce: "cf_entries cf ! i = compile_entry (entries ! i) (totals ! i) (groups ! i)" using c(2) i by blast
    from entry_offset_meaning [OF c(1) _ i] c(3) i
    show "let e = entries ! i; compiled = ce_phase_offset (cf_entries cf ! i)
      in case ee_after e of
         None \<Rightarrow> totals ! i = secs_of (ee_phase_offset e)
           \<and> compiled = (if f64_eq (totals ! i) 0 then ee_phase_offset e else Some (format_duration_secs (totals ! i)))
       | Some clause \<Rightarrow>
           \<exists>dep < length entries. \<exists>generator crossing.
             ee_id (entries ! dep) = Some (ac_ref_id clause) \<and> ee_generator (entries ! dep) = Some generator
             \<and> crossing_secs generator (operator_from (ac_op clause)) (ac_value clause) (ee_rate (entries ! dep)) = Inr crossing
             \<and> totals ! i = f64_add (f64_add (f64_add (secs_of (ee_phase_offset e)) (totals ! dep)) crossing)
                             (secs_of (ac_delay clause))
             \<and> compiled = Some (format_duration_secs (totals ! i))"
      unfolding idx_def by (cases "ee_after (entries ! i)") (auto simp: ce compile_entry_def Let_def)
  qed
qed

section \<open>Clock groups\<close>

lemma explicit_group_Some: "explicit_group e = Some g \<longleftrightarrow> ee_clock_group e = Some g \<and> g \<noteq> []"
  by (auto simp: explicit_group_def split: option.splits)

text \<open>
  C10. In an accepted file an entry and the entry its \<open>after\<close> clause refers to have the same clock group, and every entry with a
  group of its own that is not empty keeps it. A group the compiler made up is named after an entry it is linked to.
\<close>

theorem clock_groups_shared:
  assumes "compile_after debug read_file f = Inr cf" and "i < length (ef_entries f)"
  shows "(\<forall>clause. ee_after (ef_entries f ! i) = Some clause \<longrightarrow>
      (\<exists>dep < length (ef_entries f). \<exists>name. ee_id (ef_entries f ! dep) = Some (ac_ref_id clause)
        \<and> ce_clock_group (cf_entries cf ! i) = Some name \<and> ce_clock_group (cf_entries cf ! dep) = Some name))
    \<and> (\<forall>g. ee_clock_group (ef_entries f ! i) = Some g \<and> g \<noteq> [] \<longrightarrow>
        ce_clock_group (cf_entries cf ! i) = Some g \<and> \<not> ce_clock_group_is_auto (cf_entries cf ! i))
    \<and> (ce_clock_group_is_auto (cf_entries cf ! i) \<longrightarrow>
        (\<exists>j < length (ef_entries f). \<exists>k. (after_linked (ef_entries f) (build_id_index (ef_entries f)))\<^sup>*\<^sup>* i j
          \<and> ee_id (ef_entries f ! j) = Some k \<and> ce_clock_group (cf_entries cf ! i) = Some (''chain_'' @ k)))"
proof -
  define entries idx where "entries = ef_entries f" and "idx = build_id_index entries"
  from compile_after_Inr [OF assms(1)] obtain totals groups where c: "assign_clock_groups entries idx = Inr groups"
    "\<forall>i < length entries. cf_entries cf ! i = compile_entry (entries ! i) (totals ! i) (groups ! i)" "file_refs_ok f"
    unfolding entries_def [symmetric] idx_def [symmetric] by metis
  note g = assign_clock_groups_Inr [OF idx_def c(1)]
  have i: "i < length entries" using assms(2) by (simp add: entries_def)
  have ce: "ce_clock_group (cf_entries cf ! k) = (case groups ! k of Resolved name _ \<Rightarrow> Some name | Unassigned \<Rightarrow> ee_clock_group (entries ! k))"
    "ce_clock_group_is_auto (cf_entries cf ! k) = (case groups ! k of Resolved _ is_auto \<Rightarrow> is_auto | Unassigned \<Rightarrow> False)"
    if "k < length entries" for k
    using c(2) that by (simp_all add: compile_entry_def)
  show ?thesis unfolding entries_def [symmetric] idx_def [symmetric]
  proof (intro conjI allI impI)
    fix clause assume clause: "ee_after (entries ! i) = Some clause"
    then have "(ac_ref_id clause, AfterClauseKind) \<in> set (outgoing_edges (entries ! i) (ef_scenario_name f))"
      by (simp add: outgoing_edges_def)
    with c(3) i obtain dep where dep: "btree_get idx (ac_ref_id clause) = Some dep" "ee_id (entries ! i) \<noteq> Some (ac_ref_id clause)"
      unfolding file_refs_ok_def refs_ok_def entries_def [symmetric] idx_def [symmetric] by (fastforce dest!: nth_mem)
    have d: "dep < length entries" "ee_id (entries ! dep) = Some (ac_ref_id clause)"
      using id_index_get dep(1) by (auto simp: idx_def)
    have "after_linked entries idx i dep" using i d clause dep(1) by (simp add: after_linked_def after_dep_def)
    moreover have "i \<noteq> dep" using dep(2) d(2) by auto
    ultimately obtain name is_auto where "groups ! i = Resolved name is_auto" "groups ! dep = Resolved name is_auto"
      using g(2) by blast
    then show "\<exists>dep < length entries. \<exists>name. ee_id (entries ! dep) = Some (ac_ref_id clause)
        \<and> ce_clock_group (cf_entries cf ! i) = Some name \<and> ce_clock_group (cf_entries cf ! dep) = Some name"
      using d i ce by auto
  next
    fix grp assume "ee_clock_group (entries ! i) = Some grp \<and> grp \<noteq> []"
    then have "explicit_group (entries ! i) = Some grp" by (simp add: explicit_group_Some)
    with g(3) [OF i] ce [OF i] \<open>ee_clock_group (entries ! i) = Some grp \<and> grp \<noteq> []\<close>
    show "ce_clock_group (cf_entries cf ! i) = Some grp" "\<not> ce_clock_group_is_auto (cf_entries cf ! i)"
      by (auto split: ClockGroupAssignment.splits)
  next
    assume "ce_clock_group_is_auto (cf_entries cf ! i)"
    then obtain name where "groups ! i = Resolved name True" using ce(2) [OF i] by (auto split: ClockGroupAssignment.splits)
    with g(3) [OF i this] ce [OF i] show "\<exists>j < length entries. \<exists>k. (after_linked entries idx)\<^sup>*\<^sup>* i j
          \<and> ee_id (entries ! j) = Some k \<and> ce_clock_group (cf_entries cf ! i) = Some (''chain_'' @ k)" by auto
  qed
qed

text \<open>
  A file is refused for conflicting clock groups only when two entries that a chain of \<open>after\<close> clauses links have different
  groups of their own; the error names them.
\<close>

theorem clock_group_conflict:
  assumes "compile_after debug read_file f = Inl (ConflictingClockGroup first_entry first_group second_entry second_group)"
  shows "\<exists>i j. (after_linked (ef_entries f) (build_id_index (ef_entries f)))\<^sup>*\<^sup>* i j
    \<and> ee_clock_group (ef_entries f ! i) = Some first_group \<and> ee_clock_group (ef_entries f ! j) = Some second_group
    \<and> first_group \<noteq> second_group \<and> first_entry = source_label (ef_entries f ! i) \<and> second_entry = source_label (ef_entries f ! j)"
proof -
  define entries idx where "entries = ef_entries f" and "idx = build_id_index entries"
  define err where "err = ConflictingClockGroup first_entry first_group second_entry second_group"
  have chain: "chain_error err" by (simp add: err_def)
  have "assign_clock_groups entries idx = Inl err"
  proof (cases rule: sort_or_cycle [of entries "ef_scenario_name f"])
    case (sorted order)
    with assms chain show ?thesis
      by (auto simp: compile_after_def Let_def sonda_simps no_chain idx_def entries_def err_def)
  next
    case (cyclic order cycle)
    with assms chain show ?thesis
      by (auto simp: compile_after_def Let_def sonda_simps no_chain idx_def entries_def err_def)
  qed
  from assign_clock_groups_Inl [OF idx_def this] show ?thesis
    unfolding entries_def [symmetric] idx_def [symmetric] by (auto simp: err_def explicit_group_Some)
qed

section \<open>No panic\<close>

lemma check_whiles_no_panic:
  assumes "refs_ok idx fsn es"
  shows "check_whiles read_file idx fsn entries es \<noteq> Inl CompilePanic"
  using assms
proof (induction es)
  case (Cons e es)
  have "btree_get idx (wc_ref_id clause) \<noteq> None" if "ee_while_clause e = Some clause" "\<not> is_deferred_while clause fsn" for clause
  proof -
    have "(wc_ref_id clause, WhileClauseKind) \<in> set (outgoing_edges e fsn)" using that by (simp add: outgoing_edges_def)
    with Cons.prems show ?thesis by (fastforce simp: refs_ok_def)
  qed
  then have "check_while read_file idx fsn entries e \<noteq> Inl CompilePanic"
    by (auto simp: check_while_def Let_def split: option.splits if_splits)
  with Cons show ?case by (auto simp: sonda_simps refs_ok_def)
qed simp

lemma parse_duration_secs_no_panic: "parse_duration_secs s l fld \<noteq> Inl CompilePanic"
  by (cases "parse_duration s") (auto simp: parse_duration_secs_def)

lemma base_offsets_no_panic: "base_offsets es \<noteq> Inl CompilePanic"
  by (induction es) (auto simp: sonda_simps parse_duration_secs_no_panic split: option.splits)

lemma clause_secs_no_panic:
  assumes "ee_signal_type target = ''metrics'' \<Longrightarrow> ee_generator target \<noteq> None"
  shows "clause_secs e clause target \<noteq> Inl CompilePanic"
proof -
  have "timing_to_error t l r g op v \<noteq> CompilePanic" for t l r g op v by (cases t) simp_all
  then have "map_err (\<lambda>t. timing_to_error t l r g op v) m \<noteq> Inl CompilePanic" for l r g op v and m :: "TimingError + f64"
    by (cases m) simp_all
  then show ?thesis
    using assms by (auto simp: clause_secs_def sonda_simps Let_def parse_duration_secs_no_panic split: option.splits if_splits)
qed

lemma total_offsets_no_panic:
  assumes "\<forall>e \<in> set entries. ee_signal_type e = ''metrics'' \<longrightarrow> ee_generator e \<noteq> None"
    and "refs_ok (build_id_index entries) fsn entries"
  shows "\<forall>i \<in> set order. i < length entries \<Longrightarrow>
    total_offsets (build_id_index entries) entries base order totals \<noteq> Inl CompilePanic"
proof (induction order arbitrary: totals)
  case (Cons i order)
  have i: "entries ! i \<in> set entries" using Cons.prems by simp
  have "entry_offset (build_id_index entries) entries base totals i \<noteq> Inl CompilePanic"
  proof (cases "ee_after (entries ! i)")
    case (Some clause)
    then have "(ac_ref_id clause, AfterClauseKind) \<in> set (outgoing_edges (entries ! i) fsn)" by (simp add: outgoing_edges_def)
    with assms(2) i obtain dep where dep: "btree_get (build_id_index entries) (ac_ref_id clause) = Some dep"
      by (fastforce simp: refs_ok_def)
    then have "entries ! dep \<in> set entries" using id_index_get by fastforce
    then have "clause_secs (entries ! i) clause (entries ! dep) \<noteq> Inl CompilePanic"
      using assms(1) by (intro clause_secs_no_panic) auto
    then show ?thesis using Some dep by (auto simp: entry_offset_def sonda_simps)
  qed (simp add: entry_offset_def)
  with Cons show ?case by (auto simp: sonda_simps)
qed simp

lemma release_no_panic:
  assumes "\<forall>e \<in> set (ef_entries f). ee_signal_type e = ''metrics'' \<longrightarrow> ee_generator e \<noteq> None"
  shows "compile_after False read_file f \<noteq> Inl CompilePanic"
proof -
  define entries idx where "entries = ef_entries f" and "idx = build_id_index entries"
  have refs: "check_refs idx fsn es \<noteq> Inl CompilePanic" for fsn and es :: "'a ExpandedEntry list"
  proof -
    have "resolve_reference r idx l c \<noteq> Inl CompilePanic" for r l c
      by (auto simp: resolve_reference_def Let_def split: option.splits)
    then have "check_edges idx e edges \<noteq> Inl CompilePanic" for e :: "'a ExpandedEntry" and edges
      by (induction edges) (auto simp: sonda_simps split: if_splits)
    then show ?thesis by (induction es) (auto simp: sonda_simps)
  qed
  show ?thesis
  proof (cases "check_refs idx (ef_scenario_name f) entries")
    case (Inl e)
    with refs have "e \<noteq> CompilePanic" by metis
    with Inl show ?thesis by (simp add: compile_after_def idx_def entries_def)
  next
    case (Inr u)
    then have ok: "refs_ok idx (ef_scenario_name f) entries" using check_refs_Inr by (metis old.unit.exhaust)
    have ix: "index_edges idx (ef_scenario_name f) entries = Inr ()" using index_edges_ok Inr by simp
    show ?thesis
    proof (cases rule: sort_or_cycle [of entries "ef_scenario_name f"])
      case (sorted order)
      have "total_offsets idx entries base order totals \<noteq> Inl CompilePanic" for base totals
        unfolding idx_def using assms ok sorted(4) by (intro total_offsets_no_panic) (auto simp: entries_def idx_def)
      moreover have "assign_clock_groups entries idx \<noteq> Inl CompilePanic"
        using assign_clock_groups_Inl [OF idx_def] by blast
      ultimately show ?thesis
        using Inr ix sorted check_whiles_no_panic [OF ok]
        by (auto simp: compile_after_def Let_def sonda_simps idx_def entries_def base_offsets_no_panic assert_offsets_def)
    next
      case (cyclic order cycle)
      with Inr ix show ?thesis by (simp add: compile_after_def Let_def idx_def entries_def)
    qed
  qed
qed

lemma compile_after_Inl: "compile_after False read_file f = Inl e \<Longrightarrow> compile_after debug read_file f = Inl e"
  by (auto simp: compile_after_def Let_def sonda_simps assert_offsets_def split: option.splits if_splits)

text \<open>The offsets of a file in seconds: the recursion along the \<open>after\<close> clauses.\<close>

definition offsets_of :: "'p ExpandedFile \<Rightarrow> (nat \<Rightarrow> f64) \<Rightarrow> bool" where
  "offsets_of f totals \<longleftrightarrow> (\<forall>i < length (ef_entries f). let e = ef_entries f ! i in
     case ee_after e of
       None \<Rightarrow> totals i = secs_of (ee_phase_offset e)
     | Some clause \<Rightarrow>
         \<exists>dep < length (ef_entries f). \<exists>generator crossing.
           ee_id (ef_entries f ! dep) = Some (ac_ref_id clause) \<and> ee_generator (ef_entries f ! dep) = Some generator
           \<and> crossing_secs generator (operator_from (ac_op clause)) (ac_value clause) (ee_rate (ef_entries f ! dep))
               = Inr crossing
           \<and> totals i = f64_add (f64_add (f64_add (secs_of (ee_phase_offset e)) (totals dep)) crossing)
                           (secs_of (ac_delay clause)))"

text \<open>
  C19. Where the pass panics, when every metrics entry has a generator. A release build never does: no reference is looked up
  in vain, no count goes below zero, the search for a cycle ends and no branch marked unreachable is taken. A debug build
  gives the same error or the same file, except that it panics on exactly the files a release build accepts in which an
  offset that is printed is negative or not finite.
\<close>

theorem compile_after_panics:
  assumes "\<forall>e \<in> set (ef_entries f). ee_signal_type e = ''metrics'' \<longrightarrow> ee_generator e \<noteq> None"
  shows "case compile_after False read_file f of
      Inl e \<Rightarrow> e \<noteq> CompilePanic \<and> compile_after True read_file f = Inl e
    | Inr cf \<Rightarrow> \<exists>totals. offsets_of f totals \<and> compile_after True read_file f =
        (if \<exists>i < length (ef_entries f). (ee_after (ef_entries f ! i) \<noteq> None \<or> \<not> f64_eq (totals i) 0)
              \<and> \<not> (\<not> f64_is_nan (totals i) \<and> \<not> f64_is_infinite (totals i) \<and> f64_le 0 (totals i))
         then Inl CompilePanic else Inr cf)"
proof (cases "compile_after False read_file f")
  case (Inl e)
  with release_no_panic [OF assms] compile_after_Inl show ?thesis by auto
next
  case (Inr cf)
  from compile_after_Inr [OF Inr] obtain base totals where c: "base_offsets (ef_entries f) = Inr base"
    "length totals = length (ef_entries f)"
    "\<forall>i < length (ef_entries f). entry_offset (build_id_index (ef_entries f)) (ef_entries f) base totals i = Inr (totals ! i)"
    "\<And>debug. compile_after debug read_file f = rbind (assert_offsets debug (ef_entries f) totals) (\<lambda>_. Inr cf)"
    by metis
  have "offsets_of f ((!) totals)"
    unfolding offsets_of_def Let_def using entry_offset_meaning [OF c(1)] c(3) by blast
  moreover have "list_all (\<lambda>(e, t). offset_asserts e t) (zip (ef_entries f) totals)
      \<longleftrightarrow> (\<forall>i < length (ef_entries f). offset_asserts (ef_entries f ! i) (totals ! i))"
    using c(2) by (simp add: list_all_length)
  ultimately show ?thesis
    using Inr c(4) by (auto simp: assert_offsets_def offset_asserts_def format_duration_asserts_def intro!: exI [of _ "(!) totals"])
qed

section \<open>An example\<close>

definition plain_entry :: "unit ExpandedEntry" where
  "plain_entry =
     \<lparr> ee_id = None, ee_signal_type = ''metrics'', ee_name = ''m'', ee_rate = f64_of_nat 3,
       ee_generator = Some (Spike (f64_of_nat 3) (f64_of_nat 4) (f64_of_nat 9) (f64_of_nat 60)), ee_phase_offset = None,
       ee_clock_group = None, ee_after = None, ee_while_clause = None, ee_carried = () \<rparr>"

text \<open>A spike, and an entry that starts when the spike is over.\<close>

definition chain_file :: "unit ExpandedFile" where
  "chain_file =
     \<lparr> ef_version = 2, ef_scenario_name = None,
       ef_entries =
         [plain_entry \<lparr> ee_id := Some ''a'' \<rparr>,
          plain_entry \<lparr> ee_after := Some \<lparr> ac_ref_id = ''a'', ac_op = AfterOpLessThan, ac_value = f64_of_nat 5,
            ac_delay = None \<rparr> \<rparr>] \<rparr>"

text \<open>The same with a clock group on each.\<close>

definition conflict_file :: "unit ExpandedFile" where
  "conflict_file =
     \<lparr> ef_version = 2, ef_scenario_name = None,
       ef_entries =
         [plain_entry \<lparr> ee_id := Some ''a'', ee_clock_group := Some ''x'' \<rparr>,
          plain_entry \<lparr> ee_clock_group := Some ''y'', ee_after := Some \<lparr> ac_ref_id = ''a'', ac_op = AfterOpLessThan,
            ac_value = f64_of_nat 5, ac_delay = None \<rparr> \<rparr>] \<rparr>"

text \<open>
  A spike whose duration is negative: nothing refuses it before the pass, the entry that starts when the spike is over gets
  the offset of minus five seconds, a debug build panics where it prints the offset and a release build prints \<open>0s\<close>.
\<close>

definition negative_file :: "unit ExpandedFile" where
  "negative_file =
     \<lparr> ef_version = 2, ef_scenario_name = None,
       ef_entries =
         [plain_entry \<lparr> ee_id := Some ''a'',
            ee_generator := Some (Spike (f64_of_nat 3) (f64_of_nat 4) (f64_neg (f64_of_nat 5)) (f64_of_nat 60)) \<rparr>,
          plain_entry \<lparr> ee_after := Some \<lparr> ac_ref_id = ''a'', ac_op = AfterOpLessThan, ac_value = f64_of_nat 5,
            ac_delay = None \<rparr> \<rparr>] \<rparr>"

lemma chain_crossing: "spike_crossing_secs LessThan (f64_of_nat 5) (f64_of_nat 3) (f64_of_nat 4) d = Inr d"
proof -
  have small: "small_nat 3" "small_nat 4" "small_nat 5" "small_nat 7" by (simp_all add: small_nat_def)
  note le = dyadic_le [OF dyadic_of_nat dyadic_of_nat]
  show ?thesis
    using small by (simp add: spike_crossing_secs_def f64_min_def f64_max_def small_nat_add small_nat_lt le Let_def)
qed

lemma chain_offset:
  "f64_add (f64_add (f64_add 0 0) (f64_of_nat 9)) 0 = f64_of_nat 9" "format_duration_asserts (f64_of_nat 9)"
  using small_nat_add [of 0 9] small_nat_add [of 9 0] small_nat_lt [of 9 0] dyadic_parts [OF dyadic_0]
  by (simp_all add: f64_zero_add small_nat_def f64_of_nat_0 format_duration_asserts_def f64_le_iff)

lemma negative_offset:
  "f64_add (f64_add (f64_add 0 0) (f64_neg (f64_of_nat 5))) 0 = f64_neg (f64_of_nat 5)"
  "\<not> format_duration_asserts (f64_neg (f64_of_nat 5))"
  using f64_add_0 [of "f64_neg (f64_of_nat 5)"] negative_parts [of 5]
  by (simp_all add: f64_zero_add small_nat_def format_duration_asserts_def)

lemma zero_offset: "f64_eq 0 0"
  using dyadic_parts [OF dyadic_0] by (simp add: f64_eq_def)

lemmas chain_evals = chain_file_def conflict_file_def negative_file_def plain_entry_def compile_after_def assert_offsets_def offset_asserts_def
  chain_offset negative_offset zero_offset build_id_index_def btree_get_def outgoing_edges_def
  resolve_reference_def graph_of_def index_edges_def entry_edges_def List.map_filter_def kahn_sort_def build_dependents_def
  check_while_def entry_offset_def clause_secs_def operator_from_def chain_crossing assign_clock_groups_def
  after_components_def after_links_def unvisited_def component_group_def auto_chain_name_def Let_def

lemma chain_file_compiles: "\<exists>cf. compile_after True (\<lambda>_. None) chain_file = Inr cf"
  by (simp add: chain_evals)

lemma negative_file_panics:
  "compile_after True (\<lambda>_. None) negative_file = Inl CompilePanic"
  "\<exists>cf. compile_after False (\<lambda>_. None) negative_file = Inr cf"
  by (simp_all add: chain_evals)

lemma conflict_file_refused:
  "compile_after True (\<lambda>_. None) conflict_file = Inl (ConflictingClockGroup ''a'' ''x'' ''<anonymous:m>'' ''y'')"
  by (simp add: chain_evals source_label_def less_char_def)

theorem offsets_accumulate_witness:
  "\<exists>cf. compile_after True (\<lambda>_. None) chain_file = Inr cf \<and> (\<exists>totals. \<forall>i < length (ef_entries chain_file).
    let e = ef_entries chain_file ! i; compiled = ce_phase_offset (cf_entries cf ! i)
    in case ee_after e of
         None \<Rightarrow> totals i = secs_of (ee_phase_offset e)
           \<and> compiled = (if f64_eq (totals i) 0 then ee_phase_offset e else Some (format_duration_secs (totals i)))
       | Some clause \<Rightarrow>
           \<exists>dep < length (ef_entries chain_file). \<exists>generator crossing.
             ee_id (ef_entries chain_file ! dep) = Some (ac_ref_id clause)
             \<and> ee_generator (ef_entries chain_file ! dep) = Some generator
             \<and> crossing_secs generator (operator_from (ac_op clause)) (ac_value clause) (ee_rate (ef_entries chain_file ! dep))
                 = Inr crossing
             \<and> totals i = f64_add (f64_add (f64_add (secs_of (ee_phase_offset e)) (totals dep)) crossing)
                             (secs_of (ac_delay clause))
             \<and> compiled = Some (format_duration_secs (totals i)))"
proof -
  obtain cf where cf: "compile_after True (\<lambda>_. None) chain_file = Inr cf" using chain_file_compiles by blast
  show ?thesis by (intro exI [of _ cf] conjI cf offsets_accumulate [OF cf])
qed

theorem clock_groups_shared_witness:
  "\<exists>cf name. compile_after True (\<lambda>_. None) chain_file = Inr cf
    \<and> ce_clock_group (cf_entries cf ! 1) = Some name \<and> ce_clock_group (cf_entries cf ! 0) = Some name"
proof -
  obtain cf where cf: "compile_after True (\<lambda>_. None) chain_file = Inr cf" using chain_file_compiles by blast
  have one: "1 < length (ef_entries chain_file)" by (simp add: chain_file_def)
  obtain clause where clause: "ee_after (ef_entries chain_file ! 1) = Some clause" "ac_ref_id clause = ''a''"
    by (simp add: chain_file_def)
  from clock_groups_shared [OF cf one, THEN conjunct1, rule_format, OF clause(1)] obtain dep name
    where "dep < length (ef_entries chain_file)" "ee_id (ef_entries chain_file ! dep) = Some ''a''"
      "ce_clock_group (cf_entries cf ! 1) = Some name" "ce_clock_group (cf_entries cf ! dep) = Some name"
    using clause(2) by auto
  moreover from this have "dep = 0" by (auto simp: chain_file_def plain_entry_def less_Suc_eq)
  ultimately show ?thesis using cf by blast
qed

theorem clock_group_conflict_witness:
  "\<exists>i j. (after_linked (ef_entries conflict_file) (build_id_index (ef_entries conflict_file)))\<^sup>*\<^sup>* i j
    \<and> ee_clock_group (ef_entries conflict_file ! i) = Some ''x'' \<and> ee_clock_group (ef_entries conflict_file ! j) = Some ''y''"
  using clock_group_conflict [OF conflict_file_refused] by blast

theorem compile_after_panics_witness:
  "\<exists>cf totals. compile_after False (\<lambda>_. None) negative_file = Inr cf \<and> offsets_of negative_file totals
    \<and> compile_after True (\<lambda>_. None) negative_file = Inl CompilePanic
    \<and> (\<exists>i < length (ef_entries negative_file).
          \<not> (\<not> f64_is_nan (totals i) \<and> \<not> f64_is_infinite (totals i) \<and> f64_le 0 (totals i)))"
proof -
  obtain cf where cf: "compile_after False (\<lambda>_. None) negative_file = Inr cf" using negative_file_panics(2) by blast
  have "\<forall>e \<in> set (ef_entries negative_file). ee_signal_type e = ''metrics'' \<longrightarrow> ee_generator e \<noteq> None"
    by (simp add: negative_file_def plain_entry_def)
  from compile_after_panics [OF this, of "\<lambda>_. None"] cf negative_file_panics(1)
  obtain totals where "offsets_of negative_file totals"
    "\<exists>i < length (ef_entries negative_file).
          \<not> (\<not> f64_is_nan (totals i) \<and> \<not> f64_is_infinite (totals i) \<and> f64_le 0 (totals i))"
    by (auto split: if_splits)
  with cf negative_file_panics(1) show ?thesis by blast
qed

end
