(* ===== verification/Env_Interpolate.thy ===== *)
theory Env_Interpolate
  imports Text
begin

text \<open>
  The expansion of environment variables in the text of a scenario before it is parsed
  (\<open>compiler/env_interpolate.rs\<close>): \<open>interpolate_with\<close> with its byte loop, its line and column
  counters and its three errors, the environment being the function \<open>lookup\<close>. A text is the list of
  its UTF-8 bytes. \<open>piece\<close> is the abstract syntax the module's documentation describes, with \<open>piece_text\<close>
  its concrete text and \<open>expand\<close> its meaning, which shares nothing with the code but the errors; \<open>interpolate_with\<close>
  computes the meaning of every rendered template whose references are ASCII, the position of the first bad reference
  included. A reference that does not end and a dollar sign that stands alone are not among the pieces.
\<close>

section \<open>The code\<close>

datatype InterpolateError =
    UnsetVariable string nat nat
  | Unterminated nat nat
  | InvalidName string nat nat

definition utf8_char_len :: "char \<Rightarrow> nat" where
  "utf8_char_len lead =
     (let b = code lead in
      if b \<le> 0x7f then 1
      else if 0xc0 \<le> b \<and> b \<le> 0xdf then 2
      else if 0xe0 \<le> b \<and> b \<le> 0xef then 3
      else if 0xf0 \<le> b \<and> b \<le> 0xf7 then 4
      else 1)"

definition advance_char :: "char \<Rightarrow> nat \<times> nat \<Rightarrow> nat \<times> nat" where
  "advance_char c pos = (if code c = 10 then (fst pos + 1, 1) else (fst pos, snd pos + 1))"

definition advance_position :: "string \<Rightarrow> nat \<times> nat \<Rightarrow> nat \<times> nat" where
  "advance_position consumed pos = fold advance_char consumed pos"

definition is_ascii_uppercase :: "char \<Rightarrow> bool" where
  "is_ascii_uppercase c \<longleftrightarrow> 65 \<le> code c \<and> code c \<le> 90"

definition validate_name :: "string \<Rightarrow> nat \<Rightarrow> nat \<Rightarrow> InterpolateError + unit" where
  "validate_name name line column =
     (case name of
        [] \<Rightarrow> Inl (InvalidName name line column)
      | first # chars \<Rightarrow>
          if \<not> (is_ascii_uppercase first \<or> first = CHR ''_'') then Inl (InvalidName name line column)
          else if list_ex (\<lambda>c. \<not> (is_ascii_uppercase c \<or> is_ascii_digit c \<or> c = CHR ''_'')) chars
          then Inl (InvalidName name line column)
          else Inr ())"

fun first_index :: "('a \<Rightarrow> bool) \<Rightarrow> 'a list \<Rightarrow> nat option" where
  "first_index p [] = None"
| "first_index p (x # xs) = (if p x then Some 0 else map_option Suc (first_index p xs))"

fun str_find :: "string \<Rightarrow> string \<Rightarrow> nat option" where
  "str_find pat [] = (if pat = [] then Some 0 else None)"
| "str_find pat (c # s) = (if starts_with (c # s) pat then Some 0 else map_option Suc (str_find pat s))"

definition split_default :: "string \<Rightarrow> string \<times> string option" where
  "split_default body =
     (case str_find '':-'' body of
        Some sep \<Rightarrow> (take sep body, Some (drop (sep + 2) body))
      | None \<Rightarrow> (body, None))"

text \<open>What a reference stands for, or why the expansion stops there.\<close>

definition resolve :: "(string \<Rightarrow> string option) \<Rightarrow> string \<Rightarrow> string option \<Rightarrow> nat \<Rightarrow> nat \<Rightarrow>
    InterpolateError + string" where
  "resolve lookup name dflt line column =
     rbind (validate_name name line column) (\<lambda>_.
       case lookup name of
         Some v \<Rightarrow> Inr v
       | None \<Rightarrow>
           (case dflt of
              Some d \<Rightarrow> Inr d
            | None \<Rightarrow> Inl (UnsetVariable name line column)))"

function interpolate_loop :: "(string \<Rightarrow> string option) \<Rightarrow> string \<Rightarrow> nat \<Rightarrow> nat \<Rightarrow> string \<Rightarrow>
    InterpolateError + string" where
  "interpolate_loop lookup bytes line column out =
     (case bytes of
        [] \<Rightarrow> Inr out
      | b # rest \<Rightarrow>
          if b = CHR ''$'' \<and> rest \<noteq> [] \<and> hd rest = CHR ''$''
          then interpolate_loop lookup (tl rest) line (column + 2) (out @ ''$'')
          else if b = CHR ''$'' \<and> rest \<noteq> [] \<and> hd rest = CHR 0x7B
          then (case first_index (\<lambda>c. c = CHR 0x7D) (tl rest) of
                  None \<Rightarrow> Inl (Unterminated line column)
                | Some off \<Rightarrow>
                    let body = take off (tl rest);
                        (name, dflt) = split_default body
                    in rbind (resolve lookup name dflt line column) (\<lambda>v.
                         let pos = advance_position (take (off + 3) bytes) (line, column)
                         in interpolate_loop lookup (drop (off + 3) bytes) (fst pos) (snd pos) (out @ v)))
          else
            let end = min (utf8_char_len b) (length bytes);
                pos = advance_char b (line, column)
            in interpolate_loop lookup (drop end bytes) (fst pos) (snd pos) (out @ take end bytes))"
  by pat_completeness auto

lemma utf8_char_len_pos: "0 < utf8_char_len b"
  by (simp add: utf8_char_len_def Let_def)

termination interpolate_loop
  by (relation "measure (\<lambda>(_, bytes, _). length bytes)")
     (auto simp: utf8_char_len_pos neq_Nil_conv)

declare interpolate_loop.simps [simp del]

definition interpolate_with :: "string \<Rightarrow> (string \<Rightarrow> string option) \<Rightarrow> InterpolateError + string" where
  "interpolate_with input lookup = interpolate_loop lookup input 1 1 []"

section \<open>Templates\<close>

text \<open>
  \<open>Plain\<close> is one character other than a dollar sign, by its UTF-8 bytes; \<open>Escaped\<close> is \<open>$$\<close>;
  \<open>Reference\<close> is a name with its optional default.
\<close>

datatype piece = Plain string | Escaped | Reference string "string option"

text \<open>A byte of the form \<open>10xxxxxx\<close> continues a character, any other begins one.\<close>

definition begins_char :: "char \<Rightarrow> bool" where
  "begins_char c \<longleftrightarrow> code c < 0x80 \<or> 0xc0 \<le> code c"

definition utf8_char :: "string \<Rightarrow> bool" where
  "utf8_char cs \<longleftrightarrow> cs \<noteq> [] \<and> length cs = utf8_char_len (hd cs) \<and> begins_char (hd cs)
     \<and> list_all (\<lambda>c. \<not> begins_char c) (tl cs)"

definition is_ascii :: "char \<Rightarrow> bool" where
  "is_ascii c \<longleftrightarrow> code c < 0x80"

fun well_formed :: "piece \<Rightarrow> bool" where
  "well_formed (Plain cs) \<longleftrightarrow> utf8_char cs \<and> hd cs \<noteq> CHR ''$''"
| "well_formed Escaped \<longleftrightarrow> True"
| "well_formed (Reference name d) \<longleftrightarrow>
     CHR 0x7D \<notin> set name \<and> str_find '':-'' (name @ '':'') = None \<and> list_all is_ascii name \<and>
     (case d of None \<Rightarrow> True | Some t \<Rightarrow> CHR 0x7D \<notin> set t \<and> list_all is_ascii t)"

definition reference_body :: "string \<Rightarrow> string option \<Rightarrow> string" where
  "reference_body name d = name @ (case d of None \<Rightarrow> [] | Some t \<Rightarrow> '':-'' @ t)"

fun piece_text :: "piece \<Rightarrow> string" where
  "piece_text (Plain cs) = cs"
| "piece_text Escaped = ''$$''"
| "piece_text (Reference name d) = ''$'' @ [CHR 0x7B] @ reference_body name d @ [CHR 0x7D]"

text \<open>The position behind a text, as a reader counts it: its line breaks, and the characters since the last one.\<close>

definition position_behind :: "string \<Rightarrow> nat \<times> nat" where
  "position_behind s =
     (1 + length (filter (\<lambda>c. code c = 10) s), 1 + length (filter begins_char (takeWhile (\<lambda>c. code c \<noteq> 10) (rev s))))"

text \<open>Names are \<open>[A-Z_][A-Z0-9_]*\<close>; the value comes before the default.\<close>

definition valid_name :: "string \<Rightarrow> bool" where
  "valid_name name \<longleftrightarrow>
     set name \<subseteq> set ''ABCDEFGHIJKLMNOPQRSTUVWXYZ_0123456789'' \<and> name \<noteq> [] \<and> hd name \<notin> set ''0123456789''"

fun meaning :: "(string \<Rightarrow> string option) \<Rightarrow> piece \<Rightarrow> nat \<times> nat \<Rightarrow> InterpolateError + string" where
  "meaning lookup (Plain cs) pos = Inr cs"
| "meaning lookup Escaped pos = Inr ''$''"
| "meaning lookup (Reference name d) pos =
     (if \<not> valid_name name then Inl (InvalidName name (fst pos) (snd pos))
      else case (lookup name, d) of
          (Some v, _) \<Rightarrow> Inr v
        | (None, Some t) \<Rightarrow> Inr t
        | (None, None) \<Rightarrow> Inl (UnsetVariable name (fst pos) (snd pos)))"

text \<open>The pieces that follow a text.\<close>

fun expand :: "(string \<Rightarrow> string option) \<Rightarrow> string \<Rightarrow> piece list \<Rightarrow> InterpolateError + string" where
  "expand lookup before [] = Inr []"
| "expand lookup before (p # ps) =
     rbind (meaning lookup p (position_behind before))
       (\<lambda>v. rbind (expand lookup (before @ piece_text p) ps) (\<lambda>w. Inr (v @ w)))"

section \<open>Lemmas\<close>

lemma position_append: "\<forall>x \<in> set xs. \<not> p x \<Longrightarrow> p y \<Longrightarrow> first_index p (xs @ y # ys) = Some (length xs)"
  by (induction xs) auto

lemma position_None: "first_index p xs = None \<longleftrightarrow> (\<forall>x \<in> set xs. \<not> p x)"
  by (induction xs) auto

lemma starts_with_Cons [simp]:
  "starts_with s [] = True"
  "starts_with [] (c # p) = False"
  "starts_with (d # s) (c # p) \<longleftrightarrow> c = d \<and> starts_with s p"
  by (auto simp: starts_with_iff)

lemma str_find_default:
  "str_find '':-'' (name @ '':'') = None \<Longrightarrow> str_find '':-'' (name @ '':-'' @ t) = Some (length name)"
proof (induction name)
  case (Cons c name)
  then show ?case by (cases name) (auto split: if_splits)
qed simp

lemma str_find_plain:
  "str_find '':-'' (name @ '':'') = None \<Longrightarrow> str_find '':-'' name = None"
proof (induction name)
  case (Cons c name)
  then show ?case by (cases name) (auto split: if_splits)
qed simp

lemma split_default_body:
  "str_find '':-'' (name @ '':'') = None \<Longrightarrow> split_default (reference_body name d) = (name, d)"
  using str_find_default [of name] str_find_plain [of name]
  by (cases d) (auto simp: split_default_def reference_body_def)

lemma position_behind_Nil: "position_behind [] = (1, 1)"
  by (simp add: position_behind_def)

lemma position_begins: "begins_char c \<Longrightarrow> position_behind (s @ [c]) = advance_char c (position_behind s)"
  by (auto simp: position_behind_def advance_char_def)

lemma position_continues: "list_all (\<lambda>c. \<not> begins_char c) cs \<Longrightarrow> position_behind (s @ cs) = position_behind s"
proof (induction cs arbitrary: s)
  case (Cons c cs)
  then have c: "\<not> begins_char c" "code c \<noteq> 10" by (auto simp: begins_char_def)
  have "position_behind (s @ [c]) = position_behind s" using c by (simp add: position_behind_def)
  with Cons.IH [of "s @ [c]"] Cons.prems show ?case by simp
qed simp

lemma position_ascii: "list_all is_ascii t \<Longrightarrow> position_behind (s @ t) = advance_position t (position_behind s)"
proof (induction t arbitrary: s)
  case (Cons c t)
  then have "position_behind (s @ [c]) = advance_char c (position_behind s)"
    by (intro position_begins) (simp add: is_ascii_def begins_char_def)
  with Cons.IH [of "s @ [c]"] Cons.prems show ?case by (simp add: advance_position_def)
qed (simp add: advance_position_def)

lemma mem_by_code: "c \<in> set cs \<longleftrightarrow> code c \<in> set (map code cs)"
proof -
  have "inj code" by (rule injI) (simp add: code_def)
  then show ?thesis by (simp add: inj_image_mem_iff)
qed

lemma uppercase_letter: "is_ascii_uppercase c \<longleftrightarrow> c \<in> set ''ABCDEFGHIJKLMNOPQRSTUVWXYZ''"
proof -
  have "map code ''ABCDEFGHIJKLMNOPQRSTUVWXYZ'' = [65..<91]" by code_simp
  note by_code = mem_by_code [of c "''ABCDEFGHIJKLMNOPQRSTUVWXYZ''", unfolded this]
  show ?thesis unfolding by_code set_upt by (auto simp: is_ascii_uppercase_def)
qed

lemma digit_char: "is_ascii_digit c \<longleftrightarrow> c \<in> set ''0123456789''"
proof -
  have "map code ''0123456789'' = [48..<58]" by code_simp
  note by_code = mem_by_code [of c "''0123456789''", unfolded this]
  show ?thesis unfolding by_code set_upt by (auto simp: is_ascii_digit_def)
qed

lemma validate_name_valid:
  "validate_name name line column = (if valid_name name then Inr () else Inl (InvalidName name line column))"
proof (cases name)
  case (Cons c cs)
  have split: "set ''ABCDEFGHIJKLMNOPQRSTUVWXYZ_0123456789'' = {x. is_ascii_uppercase x \<or> is_ascii_digit x \<or> x = CHR ''_''}"
    unfolding uppercase_letter digit_char by auto
  have "\<not> is_ascii_digit c" if "is_ascii_uppercase c \<or> c = CHR ''_''"
    using that by (auto simp: is_ascii_uppercase_def is_ascii_digit_def code_def)
  then show ?thesis
    unfolding Cons valid_name_def split digit_char [symmetric] by (auto simp: validate_name_def list_ex_iff)
qed (simp add: validate_name_def valid_name_def)

lemma resolve_meaning: "resolve lookup name d (fst pos) (snd pos) = meaning lookup (Reference name d) pos"
  by (simp add: resolve_def validate_name_valid rbind_def split: option.split)

lemma piece_position:
  assumes "well_formed p"
  shows "position_behind (s @ piece_text p) =
    (case p of Plain cs \<Rightarrow> advance_char (hd cs) (position_behind s)
     | Escaped \<Rightarrow> (fst (position_behind s), snd (position_behind s) + 2)
     | Reference _ _ \<Rightarrow> advance_position (piece_text p) (position_behind s))"
proof (cases p)
  case (Plain cs)
  then obtain b bs where cs: "cs = b # bs" "begins_char b" "list_all (\<lambda>c. \<not> begins_char c) bs"
    using assms by (cases cs) (auto simp: utf8_char_def)
  then show ?thesis
    using position_begins [of b s] position_continues [of bs "s @ [b]"] by (simp add: Plain cs)
next
  case Escaped
  then show ?thesis using position_ascii [of "''$$''" s] by (simp add: is_ascii_def code_def advance_position_def advance_char_def)
next
  case (Reference name d)
  then have "list_all is_ascii (piece_text p)"
    using assms by (auto simp: reference_body_def is_ascii_def code_def split: option.splits)
  then show ?thesis using position_ascii [of "piece_text p" s] Reference by simp
qed

lemma interpolate_piece:
  assumes "well_formed p"
  shows "interpolate_loop lookup (piece_text p @ s) (fst (position_behind before)) (snd (position_behind before)) out =
    rbind (meaning lookup p (position_behind before)) (\<lambda>v.
      interpolate_loop lookup s (fst (position_behind (before @ piece_text p))) (snd (position_behind (before @ piece_text p))) (out @ v))"
proof (cases p)
  case (Plain cs)
  then obtain b bs where cs: "cs = b # bs" "b \<noteq> CHR ''$''" "utf8_char_len b = Suc (length bs)"
    using assms by (cases cs) (auto simp: utf8_char_def)
  then show ?thesis
    using Plain piece_position [OF assms, of before]
    by (simp add: interpolate_loop.simps [of lookup "b # bs @ s"] min_def Let_def)
next
  case Escaped
  then show ?thesis
    using piece_position [OF assms, of before] by (simp add: interpolate_loop.simps [of lookup "CHR ''$'' # CHR ''$'' # s"])
next
  case (Reference name d)
  let ?body = "reference_body name d"
  have "first_index (\<lambda>c. c = CHR 0x7D) (?body @ CHR 0x7D # s) = Some (length ?body)"
    using assms Reference
    by (intro position_append) (auto simp: reference_body_def split: option.splits)
  moreover have "split_default ?body = (name, d)"
    using assms Reference by (intro split_default_body) simp
  ultimately show ?thesis
    using Reference piece_position [OF assms, of before] resolve_meaning [of lookup name d "position_behind before"]
    by (simp add: interpolate_loop.simps [of lookup "CHR ''$'' # CHR 0x7B # ?body @ CHR 0x7D # s"] Let_def numeral_3_eq_3
        del: meaning.simps)
qed

lemma loop_expand:
  "list_all well_formed ps \<Longrightarrow>
   interpolate_loop lookup (concat (map piece_text ps)) (fst (position_behind before)) (snd (position_behind before)) out =
   rbind (expand lookup before ps) (\<lambda>w. Inr (out @ w))"
proof (induction ps arbitrary: before out)
  case Nil
  show ?case by (simp add: interpolate_loop.simps)
next
  case (Cons p ps)
  then show ?case
    by (cases "meaning lookup p (position_behind before)"; cases "expand lookup (before @ piece_text p) ps")
      (simp_all add: interpolate_piece)
qed

text \<open>
  \<open>interpolate_with\<close> computes the documented meaning of every template: characters other than
  \<open>$\<close> stand for themselves, \<open>$$\<close> for one dollar sign, a reference for the variable's value, else for its
  default; a value is inserted as it is and never expanded again, and the first reference with
  an invalid name or with no value and no default stops the expansion with its position, counted in
  characters. References are ASCII here: in others the code counts bytes.
\<close>

lemma interpolate_refines:
  assumes "list_all well_formed ps"
  shows "interpolate_with (concat (map piece_text ps)) lookup = expand lookup [] ps"
  using loop_expand [OF assms, of lookup "[]" "[]"]
  by (cases "expand lookup [] ps") (simp_all add: interpolate_with_def position_behind_Nil)

lemma interpolate_refines_witness:
  "interpolate_with ''a$$${X:-b}${Y}'' (\<lambda>n. if n = ''Y'' then Some ''${X}'' else None) = Inr ''a$b${X}''"
  using interpolate_refines [of "[Plain ''a'', Escaped, Reference ''X'' (Some ''b''), Reference ''Y'' None]"
      "\<lambda>n. if n = ''Y'' then Some ''${X}'' else None"]
  by (simp add: utf8_char_def utf8_char_len_def code_def reference_body_def
      valid_name_def is_ascii_def begins_char_def)

section \<open>Escaping\<close>

definition escape_piece :: "string \<Rightarrow> piece" where
  "escape_piece cs = (if hd cs = CHR ''$'' then Escaped else Plain cs)"

definition dollar_escape :: "string \<Rightarrow> string" where
  "dollar_escape s = concat (map (\<lambda>c. if c = CHR ''$'' then ''$$'' else [c]) s)"

lemma dollar_escape_append [simp]: "dollar_escape (s @ t) = dollar_escape s @ dollar_escape t"
  by (simp add: dollar_escape_def)

lemma code_dollar: "code (CHR ''$'') = 36"
  by (simp add: code_def)

lemma dollar_escape_high: "list_all (\<lambda>c. \<not> begins_char c) s \<Longrightarrow> dollar_escape s = s"
  by (induction s) (auto simp: dollar_escape_def begins_char_def code_dollar)

lemma utf8_char_dollar: "utf8_char cs \<Longrightarrow> hd cs = CHR ''$'' \<Longrightarrow> cs = ''$''"
  by (cases cs) (auto simp: utf8_char_def utf8_char_len_def code_dollar)

lemma render_escape: "utf8_char cs \<Longrightarrow> piece_text (escape_piece cs) = dollar_escape cs"
  using dollar_escape_high [of "tl cs"]
  by (cases cs) (auto simp: escape_piece_def utf8_char_def dollar_escape_def utf8_char_len_def code_dollar)

lemma expand_escape:
  "list_all utf8_char cs \<Longrightarrow> expand lookup before (map escape_piece cs) = Inr (concat cs)"
  by (induction cs arbitrary: before) (auto simp: escape_piece_def dest: utf8_char_dollar)

text \<open>
  Doubling every dollar sign quotes a text: whatever the environment, expanding the escaped
  form of a UTF-8 text gives the text back.
\<close>

theorem dollar_escape_roundtrip:
  assumes "list_all utf8_char cs"
  shows "interpolate_with (dollar_escape (concat cs)) lookup = Inr (concat cs)"
proof -
  have "dollar_escape (concat cs) = concat (map piece_text (map escape_piece cs))"
    using assms by (induction cs) (simp_all add: render_escape, simp add: dollar_escape_def)
  moreover have "list_all well_formed (map escape_piece cs)"
    using assms by (auto simp: list_all_iff escape_piece_def)
  ultimately show ?thesis
    using loop_expand [of "map escape_piece cs" lookup "[]" "[]"] assms
    by (simp add: interpolate_with_def expand_escape position_behind_Nil)
qed

theorem dollar_escape_roundtrip_witness:
  "interpolate_with ''$${A}'' (\<lambda>_. None) = Inr ''${A}''"
  using dollar_escape_roundtrip [of "[''$'', ''{'', ''A'', ''}'']" "\<lambda>_. None"]
  by (simp add: utf8_char_def utf8_char_len_def begins_char_def code_def dollar_escape_def)

text \<open>
  Columns are counted in characters in plain text and in bytes inside a reference: the default
  \<open>\<acute>e\<close> (two bytes) moves the column of the next error by one more than the same character outside.
\<close>

lemma column_after_default:
  "interpolate_with (''${A:-'' @ [CHR 0xC3, CHR 0xA9] @ ''}${B}'') (\<lambda>_. None) = Inl (UnsetVariable ''B'' 1 9)"
  "interpolate_with ([CHR 0xC3, CHR 0xA9] @ ''${A:-}${B}'') (\<lambda>_. None) = Inl (UnsetVariable ''B'' 1 8)"
  by code_simp+

end
