(* ===== verification/Retry.thy ===== *)
theory Retry
  imports Durations Schedule_Windows
begin

text \<open>
  The retry policy of the network sinks (\<open>sink/retry.rs\<close>): its configuration and the checks of
  \<open>from_config\<close>, the exponential backoff with full jitter, and the loop of \<open>execute\<close>. A duration is
  its number of nanoseconds. The operation that is retried is a function of a state of the caller's,
  the name of the thread an argument; \<open>execute\<close> returns what the code returns, the final state and
  the sleeps between the calls, and \<open>None\<close> for a panic.
\<close>

section \<open>Configuration\<close>

record RetryConfig =
  rc_max_attempts :: u32
  rc_initial_backoff :: string
  rc_max_backoff :: string

record RetryPolicy =
  rp_max_attempts :: u32
  rp_initial_backoff :: nat
  rp_max_backoff :: nat

datatype RetryError = NoAttempts | BadBackoff DurationError | BackoffOrder string string

definition RetryPolicy_from_config :: "RetryConfig \<Rightarrow> RetryError + RetryPolicy" where
  "RetryPolicy_from_config config =
     (if rc_max_attempts config < 1 then Inl NoAttempts
      else
        rbind (map_err BadBackoff (parse_duration (rc_initial_backoff config))) (\<lambda>initial_backoff.
        rbind (map_err BadBackoff (parse_duration (rc_max_backoff config))) (\<lambda>max_backoff.
          if max_backoff < initial_backoff
          then Inl (BackoffOrder (rc_max_backoff config) (rc_initial_backoff config))
          else Inr \<lparr> rp_max_attempts = rc_max_attempts config,
                     rp_initial_backoff = initial_backoff,
                     rp_max_backoff = max_backoff \<rparr>)))"

section \<open>Backoff\<close>

definition duration_saturating_mul :: "nat \<Rightarrow> u32 \<Rightarrow> nat" where
  "duration_saturating_mul d m = min (d * unat m) DURATION_MAX"

definition one_checked_shl :: "u32 \<Rightarrow> u32 option" where
  "one_checked_shl k = (if unat k < 32 then Some (push_bit (unat k) 1) else None)"

definition thread_hash :: "string \<Rightarrow> u64" where
  "thread_hash name =
     foldl (\<lambda>h byte. (h XOR of_nat (code byte)) * 0x0100000001b3) 0xcbf29ce484222325 name"

definition jittered_backoff :: "RetryPolicy \<Rightarrow> string \<Rightarrow> u32 \<Rightarrow> nat option" where
  "jittered_backoff policy thread_name attempt =
     (let multiplier = unwrap_or (one_checked_shl attempt) (- 1);
          base = duration_saturating_mul (rp_initial_backoff policy) multiplier;
          capped = min base (rp_max_backoff policy);
          nanos = (of_nat capped :: u64)
      in if nanos = 0 then Some 0
         else if nanos = - 1 then None
         else
           let seed = ucast attempt * 0x517cc1b727220a95 + thread_hash thread_name;
               hash = splitmix64 seed
           in Some (unat (hash mod (nanos + 1))))"

section \<open>The loop\<close>

fun retry_loop :: "RetryPolicy \<Rightarrow> string \<Rightarrow> ('s \<Rightarrow> ('e + unit) \<times> 's) \<Rightarrow> ('e \<Rightarrow> bool) \<Rightarrow>
    nat list \<Rightarrow> 'e \<Rightarrow> 's \<Rightarrow> (('e + unit) \<times> 's \<times> nat list) option" where
  "retry_loop policy thread_name operation classify [] last_error s = Some (Inl last_error, s, [])"
| "retry_loop policy thread_name operation classify (attempt # attempts) last_error s =
     (if \<not> classify last_error then Some (Inl last_error, s, [])
      else
        case jittered_backoff policy thread_name (of_nat attempt) of
          None \<Rightarrow> None
        | Some backoff \<Rightarrow>
            (case operation s of
               (Inr _, s') \<Rightarrow> Some (Inr (), s', [backoff])
             | (Inl e, s') \<Rightarrow>
                 map_option (\<lambda>(r, s'', sleeps). (r, s'', backoff # sleeps))
                   (retry_loop policy thread_name operation classify attempts e s')))"

definition execute :: "RetryPolicy \<Rightarrow> string \<Rightarrow> ('s \<Rightarrow> ('e + unit) \<times> 's) \<Rightarrow> ('e \<Rightarrow> bool) \<Rightarrow> 's \<Rightarrow>
    (('e + unit) \<times> 's \<times> nat list) option" where
  "execute policy thread_name operation classify s =
     (case operation s of
        (Inr _, s') \<Rightarrow> Some (Inr (), s', [])
      | (Inl e, s') \<Rightarrow>
          retry_loop policy thread_name operation classify [0..<unat (rp_max_attempts policy)] e s')"

section \<open>The specification\<close>

text \<open>The state before the \<open>i\<close>th call of an operation, and what that call returns.\<close>

primrec before_call :: "('s \<Rightarrow> ('e + unit) \<times> 's) \<Rightarrow> 's \<Rightarrow> nat \<Rightarrow> 's" where
  "before_call operation s 0 = s"
| "before_call operation s (Suc i) = before_call operation (snd (operation s)) i"

definition call_result :: "('s \<Rightarrow> ('e + unit) \<times> 's) \<Rightarrow> 's \<Rightarrow> nat \<Rightarrow> 'e + unit" where
  "call_result operation s i = fst (operation (before_call operation s i))"

definition transient :: "('e \<Rightarrow> bool) \<Rightarrow> 'e + unit \<Rightarrow> bool" where
  "transient classify r = (case r of Inl e \<Rightarrow> classify e | Inr _ \<Rightarrow> False)"

definition backoff_bound :: "RetryPolicy \<Rightarrow> nat \<Rightarrow> nat" where
  "backoff_bound policy attempt = min (rp_max_backoff policy) (rp_initial_backoff policy * 2 ^ attempt)"

text \<open>What a policy of \<open>from_config\<close> satisfies.\<close>

definition policy_ok :: "RetryPolicy \<Rightarrow> bool" where
  "policy_ok policy \<longleftrightarrow>
     1 \<le> rp_max_attempts policy \<and> rp_initial_backoff policy \<le> rp_max_backoff policy \<and>
     1000 dvd rp_initial_backoff policy \<and> 1000 dvd rp_max_backoff policy \<and>
     rp_max_backoff policy < DURATION_MAX"

section \<open>Lemmas\<close>

lemma unat_u64_le: "unat (v :: u64) \<le> 18446744073709551615"
  using unat_u64_less [of v] by simp

lemma parse_duration_micros:
  "parse_duration s = Inr d \<Longrightarrow> 1000 dvd d \<and> d \<le> (2 ^ 64 - 1) * 1000"
  by (auto simp: parse_duration_def duration_from_micros_def Let_def unat_u64_le split: if_splits option.splits)

lemma word_pos_ge_1: "w \<noteq> 0 \<Longrightarrow> 1 \<le> w" for w :: u32
  by (metis word_less_1 not_le)

lemma from_config_ok:
  assumes "RetryPolicy_from_config c = Inr p"
  shows "policy_ok p"
  using assms
  by (auto simp: RetryPolicy_from_config_def policy_ok_def DURATION_MAX_def rbind_eq_Inr map_err_def
      not_less word_pos_ge_1 split: if_splits sum.splits dest: parse_duration_micros)

lemma multiplier_le: "unat (unwrap_or (one_checked_shl attempt) (- 1)) \<le> 2 ^ unat attempt"
proof (cases "unat attempt < 32")
  case True
  then have "(2 :: nat) ^ unat attempt < 2 ^ 32" by (intro power_strict_increasing) simp_all
  then have "unat (of_nat (2 ^ unat attempt) :: u32) = 2 ^ unat attempt" by (rule unat_of_nat_small(2))
  moreover have "push_bit (unat attempt) 1 = (of_nat (2 ^ unat attempt) :: u32)"
    by (simp add: push_bit_eq_mult)
  ultimately have "unat (push_bit (unat attempt) 1 :: u32) = 2 ^ unat attempt" by argo
  with True show ?thesis by (simp add: one_checked_shl_def unwrap_or_def)
next
  case False
  then have "(2 :: nat) ^ 32 \<le> 2 ^ unat attempt" by (intro power_increasing) simp_all
  with False show ?thesis
    using unat_u32_less [of "- 1"] by (simp add: one_checked_shl_def unwrap_or_def)
qed

lemma capped_le:
  "min (duration_saturating_mul (rp_initial_backoff p) (unwrap_or (one_checked_shl attempt) (- 1)))
       (rp_max_backoff p) \<le> backoff_bound p (unat attempt)"
proof -
  have "rp_initial_backoff p * unat (unwrap_or (one_checked_shl attempt) (- 1)) \<le>
      rp_initial_backoff p * 2 ^ unat attempt"
    by (rule mult_le_mono2 [OF multiplier_le])
  then show ?thesis unfolding duration_saturating_mul_def backoff_bound_def by linarith
qed

lemma capped_dvd:
  assumes "policy_ok p"
  shows "1000 dvd min (duration_saturating_mul (rp_initial_backoff p) m) (rp_max_backoff p)"
  using assms by (auto simp: duration_saturating_mul_def policy_ok_def min_def)

lemma unat_max_u64: "unat (- 1 :: u64) = 2 ^ 64 - 1"
  by (simp add: unsigned_minus_1_eq_mask mask_eq_exp_minus_1)

lemma even_not_max: "2 dvd n \<Longrightarrow> (of_nat n :: u64) \<noteq> - 1"
proof
  assume e: "2 dvd n" and "(of_nat n :: u64) = - 1"
  then have "n mod 2 ^ 64 = 2 ^ 64 - 1" using unat_of_nat [of n, where ?'a = 64] by (simp add: unat_max_u64)
  moreover have "2 dvd n mod 2 ^ 64" using e by (intro dvd_mod) simp_all
  moreover have "\<not> 2 dvd (2 ^ 64 - 1 :: nat)" by simp
  ultimately show False by argo
qed

lemma unat_mod_Suc: "n \<noteq> - 1 \<Longrightarrow> unat (h mod (n + 1)) \<le> unat n" for h n :: u64
proof -
  assume "n \<noteq> - 1"
  then have "unat n \<noteq> 2 ^ 64 - 1" using unat_max_u64 by (metis word_unat_eq_iff)
  then have u: "unat (n + 1) = unat n + 1"
    using unat_u64_less [of n] by (simp add: unat_word_ariths)
  have "unat h mod (unat n + 1) < unat n + 1" by simp
  then show ?thesis by (simp add: unat_mod_distrib u)
qed

lemma jittered_backoff_some:
  assumes "policy_ok p"
  shows "\<exists>d. jittered_backoff p th attempt = Some d \<and> d \<le> backoff_bound p (unat attempt)"
proof -
  let ?c = "min (duration_saturating_mul (rp_initial_backoff p) (unwrap_or (one_checked_shl attempt) (- 1)))
       (rp_max_backoff p)"
  have "2 dvd ?c" using capped_dvd [OF assms] by (rule dvd_trans [rotated]) simp
  then have n: "(of_nat ?c :: u64) \<noteq> - 1" by (rule even_not_max)
  have "unat (h mod (of_nat ?c + 1)) \<le> backoff_bound p (unat attempt)" for h :: u64
    using unat_mod_Suc [OF n, of h] capped_le [of p attempt]
    by (simp add: unat_of_nat)
  with n show ?thesis by (simp add: jittered_backoff_def Let_def)
qed

definition retry_outcome :: "RetryPolicy \<Rightarrow> ('s \<Rightarrow> ('e + unit) \<times> 's) \<Rightarrow> ('e \<Rightarrow> bool) \<Rightarrow> 's \<Rightarrow> nat \<Rightarrow> nat \<Rightarrow>
    nat \<Rightarrow> nat list \<Rightarrow> bool" where
  "retry_outcome policy operation classify s first retries k sleeps \<longleftrightarrow>
     k \<le> retries \<and> length sleeps = k \<and>
     (\<forall>i < k. transient classify (call_result operation s i) \<and>
        sleeps ! i \<le> backoff_bound policy (first + i)) \<and>
     (k = retries \<or> \<not> transient classify (call_result operation s k))"

lemma call_result_simps [simp]:
  "call_result operation s 0 = fst (operation s)"
  "call_result operation s (Suc i) = call_result operation (snd (operation s)) i"
  by (simp_all add: call_result_def)

lemma retry_outcome_0: "retries = 0 \<or> \<not> transient classify (fst (operation s)) \<Longrightarrow>
    retry_outcome policy operation classify s first retries 0 []"
  by (auto simp: retry_outcome_def)

lemma retry_outcome_Suc:
  assumes "retry_outcome policy operation classify (snd (operation s)) (Suc first) retries k sleeps"
    and "transient classify (fst (operation s))" and "d \<le> backoff_bound policy first"
  shows "retry_outcome policy operation classify s first (Suc retries) (Suc k) (d # sleeps)"
  using assms by (auto simp: retry_outcome_def less_Suc_eq_0_disj)

lemma retry_loop_outcome:
  assumes "policy_ok p" and "operation s0 = (Inl e, s)" and "a + n < 2 ^ 32"
  shows "\<exists>k sleeps. retry_loop p th operation classify [a..<a + n] e s =
      Some (call_result operation s0 k, before_call operation s0 (Suc k), sleeps) \<and>
    retry_outcome p operation classify s0 a n k sleeps"
  using assms
proof (induction n arbitrary: a s0 e s)
  case 0
  have "retry_outcome p operation classify s0 a 0 0 []" by (rule retry_outcome_0) simp
  with 0 show ?case by (intro exI [of _ 0] exI [of _ "[]"]) simp
next
  case (Suc n)
  have upt: "[a..<Suc (a + n)] = a # [Suc a..<Suc (a + n)]" by (simp add: upt_conv_Cons)
  show ?case
  proof (cases "classify e")
    case False
    then have "retry_outcome p operation classify s0 a (Suc n) 0 []"
      using Suc.prems by (intro retry_outcome_0) (simp add: transient_def)
    with False Suc.prems show ?thesis
      by (intro exI [of _ 0] exI [of _ "[]"]) (simp add: upt del: upt_Suc)
  next
    case True
    have ua: "unat (of_nat a :: u32) = a" using Suc.prems by (intro unat_of_nat_small(2)) simp
    obtain d where d: "jittered_backoff p th (of_nat a) = Some d" "d \<le> backoff_bound p a"
      using jittered_backoff_some [OF Suc.prems(1), of th "of_nat a"] unfolding ua by blast
    have t: "transient classify (fst (operation s0))" using True Suc.prems by (simp add: transient_def)
    obtain r s' where op: "operation s = (r, s')" by fastforce
    show ?thesis
    proof (cases r)
      case (Inr u)
      then have "retry_outcome p operation classify (snd (operation s0)) (Suc a) n 0 []"
        using Suc.prems op by (intro retry_outcome_0) (simp add: transient_def)
      from retry_outcome_Suc [OF this t d(2)]
      show ?thesis using True d op Inr Suc.prems
        by (intro exI [of _ "Suc 0"] exI [of _ "[d]"]) (simp add: upt del: upt_Suc)
    next
      case (Inl e')
      obtain k sleeps where k: "retry_loop p th operation classify [Suc a..<Suc a + n] e' s' =
          Some (call_result operation s k, before_call operation s (Suc k), sleeps)"
        and o: "retry_outcome p operation classify s (Suc a) n k sleeps"
        using Suc.IH [OF Suc.prems(1), of s e' s' "Suc a"] op Inl Suc.prems(3) by auto
      have "retry_outcome p operation classify s0 a (Suc n) (Suc k) (d # sleeps)"
        using o t d(2) Suc.prems(2) by (intro retry_outcome_Suc) simp_all
      then show ?thesis using True d op Inl Suc.prems k
        by (intro exI [of _ "Suc k"] exI [of _ "d # sleeps"]) (simp add: upt del: upt_Suc)
    qed
  qed
qed

section \<open>The contract of \<open>execute\<close>\<close>

text \<open>
  C7. Under a policy that \<open>from_config\<close> accepts, \<open>execute\<close> never panics and makes exactly the
  calls the documentation promises: it calls the operation \<open>k + 1\<close> times with \<open>k\<close> at most
  \<open>max_attempts\<close>, retries after each of the first \<open>k\<close> results because it is a transient error, sleeps before the
  \<open>i\<close>th retry for at most \<open>min (max_backoff, initial_backoff * 2^i)\<close>, stops because the last
  result is a success, a permanent error, or the last attempt allowed, and returns that result.
\<close>

theorem execute_outcome:
  assumes "RetryPolicy_from_config c = Inr p"
  shows "\<exists>k sleeps. execute p th operation classify s =
      Some (call_result operation s k, before_call operation s (Suc k), sleeps) \<and>
    retry_outcome p operation classify s 0 (unat (rp_max_attempts p)) k sleeps"
proof -
  obtain r s' where op: "operation s = (r, s')" by fastforce
  show ?thesis
  proof (cases r)
    case (Inr u)
    then have "retry_outcome p operation classify s 0 (unat (rp_max_attempts p)) 0 []"
      using op by (intro retry_outcome_0) (simp add: transient_def)
    with Inr op show ?thesis
      by (intro exI [of _ 0] exI [of _ "[]"]) (simp add: execute_def)
  next
    case (Inl e)
    with retry_loop_outcome [OF from_config_ok [OF assms], of operation s e s' 0 "unat (rp_max_attempts p)"]
    show ?thesis using op unat_u32_less [of "rp_max_attempts p"] by (simp add: execute_def)
  qed
qed

definition three_tries :: RetryPolicy where
  "three_tries = \<lparr> rp_max_attempts = 3, rp_initial_backoff = 1000000000, rp_max_backoff = 5000000000 \<rparr>"

definition third_time_lucky :: "nat \<Rightarrow> (string + unit) \<times> nat" where
  "third_time_lucky calls = (if calls < 2 then Inl ''refused'' else Inr (), calls + 1)"

lemma three_tries_config:
  "RetryPolicy_from_config \<lparr> rc_max_attempts = 3, rc_initial_backoff = ''1s'', rc_max_backoff = ''5s'' \<rparr> =
   Inr three_tries"
proof -
  have "show_nat 1 = ''1''" "show_nat 5 = ''5''" by code_simp+
  then have "parse_duration ''1s'' = Inr 1000000000" "parse_duration ''5s'' = Inr 5000000000"
    using parse_duration_units [OF split_unit_show(3), of 1] parse_duration_units [OF split_unit_show(3), of 5]
    by simp_all
  then show ?thesis by (simp add: RetryPolicy_from_config_def three_tries_def)
qed

text \<open>Two refused connections are retried and the third call succeeds, after two sleeps.\<close>

theorem execute_outcome_witness:
  "\<exists>sleeps. execute three_tries ''main'' third_time_lucky (\<lambda>_. True) 0 = Some (Inr (), 3, sleeps) \<and> length sleeps = 2"
proof -
  obtain k sleeps where e: "execute three_tries ''main'' third_time_lucky (\<lambda>_. True) 0 =
      Some (call_result third_time_lucky 0 k, before_call third_time_lucky 0 (Suc k), sleeps)"
    and o: "retry_outcome three_tries third_time_lucky (\<lambda>_. True) 0 0 (unat (rp_max_attempts three_tries)) k sleeps"
    using execute_outcome [OF three_tries_config, of "''main''" third_time_lucky "\<lambda>_. True" 0] by blast
  have c: "call_result third_time_lucky 0 0 = Inl ''refused''"
    "call_result third_time_lucky 0 (Suc 0) = Inl ''refused''"
    "call_result third_time_lucky 0 (Suc (Suc 0)) = Inr ()"
    by (simp_all add: third_time_lucky_def)
  have r: "\<forall>i < k. transient (\<lambda>_. True) (call_result third_time_lucky 0 i)"
    "k = 3 \<or> \<not> transient (\<lambda>_. True) (call_result third_time_lucky 0 k)" "length sleeps = k"
    using o by (simp_all add: retry_outcome_def three_tries_def)
  have "\<not> Suc (Suc 0) < k" using spec [OF r(1), of "Suc (Suc 0)"] c(3) by (auto simp: transient_def)
  moreover have "k \<noteq> 0"
  proof
    assume "k = 0"
    with r(2) c(1) show False by (simp add: transient_def)
  qed
  moreover have "k \<noteq> Suc 0"
  proof
    assume "k = Suc 0"
    with r(2) c(2) show False by (simp add: transient_def)
  qed
  ultimately have "k = Suc (Suc 0)" by simp
  with e r(3) c(3) show ?thesis by (simp add: third_time_lucky_def)
qed

end
