(* ===== verification/Csv_Header.thy ===== *)
theory Csv_Header
  imports Generators Metric
begin

text \<open>
  The header row of a capture: the parser of \<open>generator/csv_header.rs\<close>, which reads a metric name and labels from every
  column, and the printer of \<open>acquire/csv_out.rs\<close>, which writes them. What is written is read back unchanged.
\<close>

section \<open>The parser\<close>

datatype HeaderError =
    BlockStart
  | UnmatchedBrace
  | ExpectedEquals string
  | EmptyKey
  | UnterminatedValue
  | UnterminatedEscape

record ParsedColumnHeader =
  metric_name :: "string option"
  header_labels :: Labels

definition trim_start :: "string \<Rightarrow> string" where
  "trim_start s = trim_start_with WHITE_SPACE s"

text \<open>\<open>str::find\<close> of a character: what is before its first occurrence and what is behind it.\<close>

definition find_char :: "char \<Rightarrow> string \<Rightarrow> (string \<times> string) option" where
  "find_char c s =
     (if c \<in> set s then Some (takeWhile (\<lambda>x. x \<noteq> c) s, drop 1 (dropWhile (\<lambda>x. x \<noteq> c) s)) else None)"

text \<open>\<open>str::rfind\<close>: what is before the last occurrence.\<close>

definition before_last :: "char \<Rightarrow> string \<Rightarrow> string option" where
  "before_last c s = (if c \<in> set s then Some (rev (drop 1 (dropWhile (\<lambda>x. x \<noteq> c) (rev s)))) else None)"

fun parse_quoted_value :: "string \<Rightarrow> string \<Rightarrow> HeaderError + string \<times> string" where
  "parse_quoted_value value [] = Inl UnterminatedValue"
| "parse_quoted_value value (ch # rest) =
     (if ch = CHR 92
      then (case rest of [] \<Rightarrow> Inl UnterminatedEscape | c # rest' \<Rightarrow> parse_quoted_value (value @ [c]) rest')
      else if ch = CHR 34 then Inr (value, rest)
      else parse_quoted_value (value @ [ch]) rest)"

definition parse_unquoted_value :: "string \<Rightarrow> HeaderError + string \<times> string" where
  "parse_unquoted_value input =
     (case find_char (CHR '','') input of
        Some (before, behind) \<Rightarrow> Inr (trim before, CHR '','' # behind)
      | None \<Rightarrow> Inr (trim input, []))"

definition parse_value :: "string \<Rightarrow> HeaderError + string \<times> string" where
  "parse_value remaining =
     (case strip_prefix [CHR 34] remaining of
        Some stripped \<Rightarrow> parse_quoted_value [] stripped
      | None \<Rightarrow> parse_unquoted_value remaining)"

definition skip_comma :: "string \<Rightarrow> string" where
  "skip_comma remaining =
     (if starts_with remaining '','' then trim_start (drop 1 remaining) else remaining)"

lemma trim_start_with_length: "length (trim_start_with ws s) \<le> length s"
proof (induction ws s rule: trim_start_with.induct)
  case (1 ws s)
  then show ?case by (subst trim_start_with.simps) (fastforce split: option.split)
qed

lemma trim_start_length: "length (trim_start s) \<le> length s"
  by (simp add: trim_start_def trim_start_with_length)

lemma parse_quoted_length: "parse_quoted_value v s = Inr (value, rest) \<Longrightarrow> length rest \<le> length s"
  by (induction v s rule: parse_quoted_value.induct) (auto split: if_splits list.splits)

lemma find_char_Some: "find_char c s = Some (a, b) \<longleftrightarrow> s = a @ c # b \<and> c \<notin> set a"
proof
  assume "find_char c s = Some (a, b)"
  then have "c \<in> set s" and a: "a = takeWhile (\<lambda>x. x \<noteq> c) s" and b: "b = drop 1 (dropWhile (\<lambda>x. x \<noteq> c) s)"
    by (auto simp: find_char_def split: if_splits)
  then obtain d where "dropWhile (\<lambda>x. x \<noteq> c) s = c # d"
    by (metis (mono_tags, lifting) dropWhile_eq_Nil_conv hd_dropWhile list.exhaust_sel)
  then show "s = a @ c # b \<and> c \<notin> set a"
    using a b takeWhile_dropWhile_id [of "\<lambda>x. x \<noteq> c" s] by (auto dest: set_takeWhileD)
next
  assume s: "s = a @ c # b \<and> c \<notin> set a"
  then have "takeWhile (\<lambda>x. x \<noteq> c) s = a" "dropWhile (\<lambda>x. x \<noteq> c) s = c # b"
    by (auto simp: takeWhile_append dropWhile_append3)
  with s show "find_char c s = Some (a, b)" by (simp add: find_char_def)
qed

lemma parse_value_length: "parse_value s = Inr (value, rest) \<Longrightarrow> length rest \<le> length s"
  by (auto simp: parse_value_def parse_unquoted_value_def find_char_Some strip_prefix_Some
      dest!: parse_quoted_length split: option.splits)

lemma skip_comma_length: "length (skip_comma s) \<le> length s"
  using trim_start_length [of "drop 1 s"] by (auto simp: skip_comma_def)

function parse_label_pairs :: "Labels \<Rightarrow> string \<Rightarrow> HeaderError + Labels" where
  "parse_label_pairs labels remaining =
     (if remaining = [] then Inr labels
      else
        case find_char (CHR ''='') remaining of
          None \<Rightarrow> Inl (ExpectedEquals remaining)
        | Some (before, behind) \<Rightarrow>
            let key = trim before
            in if key = [] then Inl EmptyKey
               else
                 case parse_value (trim_start behind) of
                   Inl e \<Rightarrow> Inl e
                 | Inr (value, rest) \<Rightarrow> parse_label_pairs (btree_insert key value labels) (skip_comma (trim_start rest)))"
  by pat_completeness auto
termination
proof (relation "measure (\<lambda>(_, s). length s)")
  fix labels :: Labels and remaining x "before" behind key p val rest
  assume "find_char (CHR ''='') remaining = Some x" "(before, behind) = x"
    "parse_value (trim_start behind) = Inr p" "(val, rest) = p"
  then have "length behind < length remaining" "length rest \<le> length (trim_start behind)"
    by (auto simp: find_char_Some dest: parse_value_length)
  moreover have "length (skip_comma (trim_start rest)) \<le> length rest"
    using skip_comma_length [of "trim_start rest"] trim_start_length [of rest] by linarith
  ultimately show "((btree_insert key val labels, skip_comma (trim_start rest)), labels, remaining) \<in> measure (\<lambda>(_, s). length s)"
    using trim_start_length [of behind] by simp
qed simp

declare parse_label_pairs.simps [simp del]

definition parse_label_block :: "string \<Rightarrow> HeaderError + Labels" where
  "parse_label_block block =
     (let block = trim block
      in if \<not> starts_with block ''{'' then Inl BlockStart
         else
           case before_last (CHR ''}'') block of
             None \<Rightarrow> Inl UnmatchedBrace
           | Some block_start \<Rightarrow>
               let inner = trim (drop 1 block_start)
               in if inner = [] then Inr [] else parse_label_pairs [] (trim inner))"

definition parse_column_header :: "string \<Rightarrow> HeaderError + ParsedColumnHeader" where
  "parse_column_header header =
     (let header = trim header
      in if header = [] then Inr \<lparr> metric_name = None, header_labels = [] \<rparr>
         else
           case find_char (CHR ''{'') header of
             None \<Rightarrow> Inr \<lparr> metric_name = Some header, header_labels = [] \<rparr>
           | Some ([], _) \<Rightarrow>
               rbind (parse_label_block header) (\<lambda>labels.
                 Inr \<lparr> metric_name = btree_get labels ''__name__'', header_labels = btree_remove ''__name__'' labels \<rparr>)
           | Some (before, behind) \<Rightarrow>
               rbind (parse_label_block (CHR ''{'' # behind)) (\<lambda>labels.
                 Inr \<lparr> metric_name = Some (trim before), header_labels = labels \<rparr>))"

text \<open>The fields of a header line: the fields found, the field being read and whether it is in quotes.\<close>

fun split_fields_loop :: "string list \<Rightarrow> string \<Rightarrow> bool \<Rightarrow> string \<Rightarrow> string list" where
  "split_fields_loop found current in_quotes [] = found @ [current]"
| "split_fields_loop found current in_quotes (ch # chars) =
     (if in_quotes
      then if ch = CHR 34
           then (case chars of
                   c # rest \<Rightarrow>
                     if c = CHR 34 then split_fields_loop found (current @ [CHR 34]) True rest
                     else split_fields_loop found current False chars
                 | [] \<Rightarrow> split_fields_loop found current False chars)
           else split_fields_loop found (current @ [ch]) True chars
      else if ch = CHR '','' then split_fields_loop (found @ [current]) [] False chars
      else if ch = CHR 34 then split_fields_loop found current True chars
      else split_fields_loop found (current @ [ch]) False chars)"

definition split_csv_header_fields :: "string \<Rightarrow> string list" where
  "split_csv_header_fields line = split_fields_loop [] [] False line"

fun parse_headers :: "string list \<Rightarrow> HeaderError + ParsedColumnHeader list" where
  "parse_headers [] = Inr []"
| "parse_headers (field # rest) =
     rbind (parse_column_header field) (\<lambda>h. rbind (parse_headers rest) (\<lambda>hs. Inr (h # hs)))"

definition parse_header_row :: "string \<Rightarrow> HeaderError + ParsedColumnHeader list" where
  "parse_header_row line = parse_headers (split_csv_header_fields line)"

section \<open>The printer\<close>

datatype CaptureLabelError = NewlineInKey string | NewlineInValue string string | EqualsInKey string

definition has_newline :: "string \<Rightarrow> bool" where
  "has_newline s \<longleftrightarrow> CHR 10 \<in> set s \<or> CHR 13 \<in> set s"

fun check_labels :: "Labels \<Rightarrow> CaptureLabelError + unit" where
  "check_labels [] = Inr ()"
| "check_labels ((k, v) # rest) =
     (if has_newline k then Inl (NewlineInKey k)
      else if has_newline v then Inl (NewlineInValue k v)
      else if CHR ''='' \<in> set k then Inl (EqualsInKey k)
      else check_labels rest)"

definition escape_label_value :: "string \<Rightarrow> string" where
  "escape_label_value value = concat (map (\<lambda>ch. if ch = CHR 92 \<or> ch = CHR 34 then [CHR 92, ch] else [ch]) value)"

definition label_pair :: "string \<times> string \<Rightarrow> string" where
  "label_pair kv = fst kv @ ''='' @ [CHR 34] @ escape_label_value (snd kv) @ [CHR 34]"

text \<open>The pairs in the order they are written: the metric name first.\<close>

definition name_first :: "Labels \<Rightarrow> (string \<times> string) list" where
  "name_first labels =
     (case map_of labels ''__name__'' of None \<Rightarrow> [] | Some name \<Rightarrow> [(''__name__'', name)])
     @ filter (\<lambda>(k, v). k \<noteq> ''__name__'') labels"

definition column_header :: "Labels \<Rightarrow> CaptureLabelError + string" where
  "column_header labels =
     rbind (check_labels labels) (\<lambda>_.
       Inr (''{'' @ join '', '' (map label_pair (name_first labels)) @ ''}''))"

definition csv_quote_field :: "string \<Rightarrow> string" where
  "csv_quote_field field =
     [CHR 34] @ concat (map (\<lambda>ch. if ch = CHR 34 then [CHR 34, ch] else [ch]) field) @ [CHR 34]"


text \<open>The first line of \<open>write_csv\<close>.\<close>

fun header_cells :: "Labels list \<Rightarrow> CaptureLabelError + string" where
  "header_cells [] = Inr []"
| "header_cells (labels # rest) =
     rbind (column_header labels) (\<lambda>h. rbind (header_cells rest) (\<lambda>cells. Inr ('','' @ csv_quote_field h @ cells)))"

definition capture_header_line :: "Labels list \<Rightarrow> CaptureLabelError + string" where
  "capture_header_line series = rbind (header_cells series) (\<lambda>cells. Inr (''timestamp'' @ cells))"

section \<open>Trimmed text\<close>

definition visible :: "char \<Rightarrow> bool" where
  "visible c \<longleftrightarrow> 33 \<le> (of_char c :: nat) \<and> (of_char c :: nat) \<le> 126"

lemma white_space_forms: "w \<in> set WHITE_SPACE \<Longrightarrow> w \<noteq> []" "w \<in> set WHITE_SPACE \<Longrightarrow> c \<in> set w \<Longrightarrow> \<not> visible c"
  by (auto simp: WHITE_SPACE_def visible_def)

lemma trim_start_id: "trim_start_with ws s = s \<longleftrightarrow> (\<forall>w \<in> set ws. w \<noteq> [] \<longrightarrow> \<not> starts_with s w)"
proof (cases "find (\<lambda>w. w \<noteq> [] \<and> starts_with s w) ws")
  case None
  then have "trim_start_with ws s = s" by (subst trim_start_with.simps) (simp only: option.simps)
  then show ?thesis using None by (auto simp: find_None_iff)
next
  case (Some w)
  then have w: "w \<in> set ws" "w \<noteq> []" "starts_with s w" by (auto simp: find_Some_iff)
  then have "length (drop (length w) s) < length s" by (auto simp: starts_with_iff)
  then have "length (trim_start_with ws (drop (length w) s)) < length s"
    using trim_start_with_length [of ws "drop (length w) s"] by linarith
  then have "trim_start_with ws s \<noteq> s" using Some by (subst trim_start_with.simps) auto
  with w show ?thesis by blast
qed

text \<open>Text that \<open>trim\<close> leaves alone at its start: also when text that no white space contains follows.\<close>

definition firm :: "string list \<Rightarrow> string \<Rightarrow> bool" where
  "firm ws s \<longleftrightarrow> s \<noteq> [] \<and> (\<forall>w \<in> set ws. \<not> starts_with s w)"

lemma starts_with_cut:
  assumes "starts_with (s @ c # r) w" and "c \<notin> set w"
  shows "starts_with s w"
proof -
  from assms(1) obtain t where "s @ c # r = w @ t" by (auto simp: starts_with_iff)
  then consider u where "s = w @ u" | u where "w = s @ u" "c # r = u @ t"
    by (auto simp: append_eq_append_conv2)
  then show ?thesis
    using assms(2) by cases (auto simp: starts_with_iff Cons_eq_append_conv)
qed

lemma firm_append: "firm ws s \<Longrightarrow> \<forall>w \<in> set ws. c \<notin> set w \<Longrightarrow> firm ws (s @ c # r)"
  using starts_with_cut by (fastforce simp: firm_def)

lemma firm_head: "\<forall>w \<in> set ws. w \<noteq> [] \<and> c \<notin> set w \<Longrightarrow> firm ws (c # r)"
  by (auto simp: firm_def starts_with_def) (metis list.set_intros(1) take_Cons')

lemma firm_trim_start: "firm WHITE_SPACE s \<Longrightarrow> trim_start s = s"
  by (auto simp: trim_start_def trim_start_id firm_def)

lemma white_not_visible: "visible c \<Longrightarrow> \<forall>w \<in> set WHITE_SPACE. w \<noteq> [] \<and> c \<notin> set w"
    "visible c \<Longrightarrow> \<forall>w \<in> set (map rev WHITE_SPACE). w \<noteq> [] \<and> c \<notin> set w"
  using white_space_forms by auto

lemma marks [simp]: "visible (CHR ''='')" "visible (CHR '','')" "visible (CHR ''{'')" "visible (CHR ''}'')" "visible (CHR 34)"
  by (simp_all add: visible_def)

lemma firm_trim: "firm WHITE_SPACE s \<Longrightarrow> firm (map rev WHITE_SPACE) (rev s) \<Longrightarrow> trim s = s"
  using firm_trim_start [of s] trim_start_id [of "map rev WHITE_SPACE" "rev s"]
  by (simp add: trim_def trim_start_def firm_def)

lemma trim_Nil [simp]: "trim [] = []"
  using trim_start_with_length [of WHITE_SPACE "[]"] trim_start_with_length [of "map rev WHITE_SPACE" "[]"]
  by (simp add: trim_def)

lemma trim_visible: "visible (hd s) \<Longrightarrow> visible (last s) \<Longrightarrow> s \<noteq> [] \<Longrightarrow> trim s = s"
  using firm_trim [of s] firm_head [OF white_not_visible(1), of "hd s" "tl s"]
    firm_head [OF white_not_visible(2), of "last s" "rev (butlast s)"]
  by (simp add: rev_append [symmetric] del: rev_append) (metis append_butlast_last_id rev.simps(2) rev_rev_ident)

lemma trimmed_firm:
  assumes "trim s = s" and "s \<noteq> []"
  shows "firm WHITE_SPACE s"
proof -
  let ?t = "trim_start_with WHITE_SPACE s"
  have "length (trim s) \<le> length ?t"
    using trim_start_with_length [of "map rev WHITE_SPACE" "rev ?t"] by (simp add: trim_def)
  then have len: "length s \<le> length ?t" using assms(1) by simp
  have "?t = s"
  proof (rule ccontr)
    assume "?t \<noteq> s"
    then obtain w where w: "find (\<lambda>w. w \<noteq> [] \<and> starts_with s w) WHITE_SPACE = Some w"
      by (cases "find (\<lambda>w. w \<noteq> [] \<and> starts_with s w) WHITE_SPACE") (auto simp: trim_start_with.simps [of WHITE_SPACE s])
    then have "length (drop (length w) s) < length s" by (auto simp: find_Some_iff starts_with_iff)
    moreover have "?t = trim_start_with WHITE_SPACE (drop (length w) s)"
      using w by (subst trim_start_with.simps) simp
    ultimately show False using len trim_start_with_length [of WHITE_SPACE "drop (length w) s"] by simp
  qed
  then show ?thesis using assms(2) white_space_forms(1) by (auto simp: firm_def trim_start_id)
qed

section \<open>What is written is read back\<close>

lemma parse_quoted_escape: "parse_quoted_value v (escape_label_value s @ CHR 34 # rest) = Inr (v @ s, rest)"
  by (induction s arbitrary: v) (auto simp: escape_label_value_def)

lemma parse_value_quoted: "parse_value (CHR 34 # escape_label_value s @ CHR 34 # rest) = Inr (s, rest)"
  by (simp add: parse_value_def parse_quoted_escape)

definition good_key :: "string \<Rightarrow> bool" where
  "good_key k \<longleftrightarrow> trim k = k \<and> k \<noteq> [] \<and> CHR ''='' \<notin> set k"

lemma good_key_firm: "good_key k \<Longrightarrow> firm WHITE_SPACE (k @ CHR ''='' # r)"
  using firm_append [OF trimmed_firm [of k]] white_not_visible(1) [of "CHR ''=''"] by (auto simp: good_key_def)

text \<open>What the loop sees behind a value: nothing, or a comma, a space and the next pair.\<close>

lemma label_pair_firm: "good_key (fst kv) \<Longrightarrow> firm WHITE_SPACE (label_pair kv @ r)"
  using good_key_firm [of "fst kv" "[CHR 34] @ escape_label_value (snd kv) @ [CHR 34] @ r"] by (simp add: label_pair_def)

lemma join_pairs_firm: "\<forall>kv \<in> set ps. good_key (fst kv) \<Longrightarrow> ps \<noteq> [] \<Longrightarrow> firm WHITE_SPACE (join '', '' (map label_pair ps) @ r)"
  using label_pair_firm by (cases ps rule: list.exhaust; cases "tl ps") auto

lemma space_char: "char_of (32 :: nat) = CHR '' ''"
  by code_simp

lemma space_is_white: "'' '' \<in> set WHITE_SPACE" "w \<in> set WHITE_SPACE \<Longrightarrow> hd w = CHR '' '' \<Longrightarrow> w = '' ''"
proof -
  show "'' '' \<in> set WHITE_SPACE" unfolding WHITE_SPACE_def by (simp add: space_char)
  assume "hd w = CHR '' ''"
  then have "of_char (hd w) = (32 :: nat)" by simp
  then show "w \<in> set WHITE_SPACE \<Longrightarrow> w = '' ''" by (auto simp: WHITE_SPACE_def space_char)
qed

lemma trim_start_space: "trim_start (CHR '' '' # s) = trim_start s"
proof -
  have "\<exists>w \<in> set WHITE_SPACE. w \<noteq> [] \<and> starts_with (CHR '' '' # s) w"
    using space_is_white(1) by (intro bexI [of _ "'' ''"]) (auto simp: starts_with_def)
  then obtain w where w: "find (\<lambda>w. w \<noteq> [] \<and> starts_with (CHR '' '' # s) w) WHITE_SPACE = Some w"
    by (cases "find (\<lambda>w. w \<noteq> [] \<and> starts_with (CHR '' '' # s) w) WHITE_SPACE") (auto simp: find_None_iff)
  then have "w \<in> set WHITE_SPACE" "w \<noteq> []" "starts_with (CHR '' '' # s) w" by (auto simp: find_Some_iff)
  then have "w = '' ''" using space_is_white(2) [of w] by (auto simp: starts_with_iff Cons_eq_append_conv)
  with w show ?thesis by (simp add: trim_start_def trim_start_with.simps [of WHITE_SPACE "CHR '' '' # s"])
qed

lemma trim_space: "trim (CHR '' '' # s) = trim s"
  using trim_start_space [of s] by (simp add: trim_def trim_start_def)

lemma parse_pair:
  assumes "good_key k"
  shows "parse_label_pairs m (label_pair (k, v) @ tail) = parse_label_pairs (btree_insert k v m) (skip_comma (trim_start tail))"
proof -
  have "find_char (CHR ''='') (label_pair (k, v) @ tail) = Some (k, CHR 34 # escape_label_value v @ CHR 34 # tail)"
    using assms by (simp add: find_char_Some label_pair_def good_key_def)
  moreover have "trim_start (CHR 34 # escape_label_value v @ CHR 34 # tail) = CHR 34 # escape_label_value v @ CHR 34 # tail"
    by (intro firm_trim_start firm_head white_not_visible) simp
  moreover have "label_pair (k, v) @ tail \<noteq> []" by (simp add: label_pair_def)
  ultimately show ?thesis
    using assms by (subst parse_label_pairs.simps) (simp add: parse_value_quoted good_key_def Let_def del: append_is_Nil_conv)
qed

lemma skip_nothing: "skip_comma (trim_start []) = []"
  using trim_start_length [of "[]"] by (simp add: skip_comma_def starts_with_def)

lemma skip_to_next: "firm WHITE_SPACE r \<Longrightarrow> skip_comma (trim_start ('', '' @ r)) = r"
  using firm_trim_start [OF firm_head [OF white_not_visible(1) [of "CHR '',''"]], of "CHR '' '' # r"]
  by (simp add: skip_comma_def starts_with_def trim_start_space firm_trim_start)

definition set_label :: "string \<times> string \<Rightarrow> Labels \<Rightarrow> Labels" where
  "set_label kv m = btree_insert (fst kv) (snd kv) m"

lemma parse_pairs_join:
  assumes "\<forall>kv \<in> set ps. good_key (fst kv)"
  shows "parse_label_pairs m (join '', '' (map label_pair ps)) = Inr (fold set_label ps m)"
  using assms
proof (induction ps arbitrary: m)
  case Nil
  show ?case by (simp add: parse_label_pairs.simps)
next
  case (Cons kv ps)
  obtain k v where kv: "kv = (k, v)" by (cases kv)
  have k: "good_key k" using Cons.prems kv by simp
  show ?case
  proof (cases ps)
    case Nil
    show ?thesis using parse_pair [OF k, of m v "[]"] by (simp add: kv Nil skip_nothing set_label_def parse_label_pairs.simps [of _ "[]"])
  next
    case ps: (Cons kv' ps')
    have "join '', '' (map label_pair (kv # ps)) = label_pair (k, v) @ '', '' @ join '', '' (map label_pair ps)"
      by (simp add: kv ps)
    then have "parse_label_pairs m (join '', '' (map label_pair (kv # ps))) =
        parse_label_pairs (btree_insert k v m) (join '', '' (map label_pair ps))"
      using parse_pair [OF k, of m v "'', '' @ join '', '' (map label_pair ps)"]
        skip_to_next join_pairs_firm [of ps "[]"] Cons.prems ps by simp
    then show ?thesis using Cons by (simp add: kv set_label_def)
  qed
qed

lemma fold_set_label:
  assumes "distinct (map fst ps)" and "btree_inv m"
  shows "btree_inv (fold set_label ps m)" and "btree_get (fold set_label ps m) = btree_get m ++ map_of ps"
proof -
  have "btree_inv (fold set_label ps m) \<and> btree_get (fold set_label ps m) = btree_get m ++ map_of ps"
    using assms
  proof (induction ps arbitrary: m)
    case (Cons kv ps)
    have inv: "btree_inv (set_label kv m)" using Cons.prems by (simp add: set_label_def btree_inv_insert)
    have "map_of ps (fst kv) = None" using Cons.prems by (simp add: map_of_eq_None_iff)
    then have "btree_get (set_label kv m) ++ map_of ps = btree_get m ++ map_of (kv # ps)"
      using Cons.prems by (intro ext) (auto simp: set_label_def btree_get_insert map_add_def split: option.split)
    moreover have "btree_inv (fold set_label ps (set_label kv m)) \<and>
        btree_get (fold set_label ps (set_label kv m)) = btree_get (set_label kv m) ++ map_of ps"
      by (rule Cons.IH) (use Cons.prems inv in simp_all)
    ultimately show ?case by (simp only: fold_simps)
  qed simp
  then show "btree_inv (fold set_label ps m)" and "btree_get (fold set_label ps m) = btree_get m ++ map_of ps" by blast+
qed

lemma btree_distinct: "btree_inv m \<Longrightarrow> distinct (map fst m)"
  by (simp add: btree_inv_def strict_sorted_iff)

text \<open>The header read back from a series' labels.\<close>

definition header_of :: "Labels \<Rightarrow> ParsedColumnHeader" where
  "header_of labels = \<lparr> metric_name = btree_get labels ''__name__'', header_labels = btree_remove ''__name__'' labels \<rparr>"

definition good_labels :: "Labels \<Rightarrow> bool" where
  "good_labels labels \<longleftrightarrow> btree_inv labels \<and> (\<forall>kv \<in> set labels. trim (fst kv) = fst kv \<and> fst kv \<noteq> [])"

lemma check_labels_ok: "check_labels labels = Inr u \<Longrightarrow> \<forall>kv \<in> set labels. CHR ''='' \<notin> set (fst kv)"
  by (induction labels rule: check_labels.induct) (auto split: if_splits)

lemma map_of_name_first:
  assumes "distinct (map fst labels)"
  shows "map_of (name_first labels) = map_of labels"
proof
  fix k
  have "map_of (filter (\<lambda>(k, v). k \<noteq> n) labels) k = (if k = n then None else map_of labels k)" for n
    by (induction labels) auto
  then show "map_of (name_first labels) k = map_of labels k"
    by (auto simp: name_first_def map_add_def split: option.split)
qed

lemma distinct_name_first: "distinct (map fst labels) \<Longrightarrow> distinct (map fst (name_first labels))"
  by (induction labels) (auto simp: name_first_def split: option.split)

lemma set_name_first: "set (name_first labels) \<subseteq> set labels"
  by (cases "map_of labels ''__name__''") (auto simp: name_first_def dest: map_of_SomeD)

lemma pairs_end: "ps \<noteq> [] \<Longrightarrow> \<exists>x. join '', '' (map label_pair ps) = x @ [CHR 34]"
  by (induction ps rule: induct_list012) (auto simp: label_pair_def)

lemma trim_between:
  assumes "firm WHITE_SPACE (s @ [c])" and "visible c"
  shows "trim (s @ [c]) = s @ [c]"
  using firm_trim [OF assms(1)] firm_head [OF white_not_visible(2) [OF assms(2)]] by simp

lemma trim_pairs:
  assumes "\<forall>kv \<in> set ps. good_key (fst kv)" and "ps \<noteq> []"
  shows "trim (join '', '' (map label_pair ps)) = join '', '' (map label_pair ps)"
  using pairs_end [OF assms(2)] join_pairs_firm [OF assms, of "[]"] trim_between by fastforce

lemma before_last_end: "before_last c (s @ [c]) = Some s"
  by (simp add: before_last_def)

lemma parse_block_pairs:
  assumes "\<forall>kv \<in> set ps. good_key (fst kv)"
  shows "parse_label_block (''{'' @ join '', '' (map label_pair ps) @ ''}'') = Inr (fold set_label ps [])"
proof -
  let ?inner = "join '', '' (map label_pair ps)"
  have "trim ((''{'' @ ?inner) @ [CHR ''}'']) = (''{'' @ ?inner) @ [CHR ''}'']"
    by (rule trim_between) (simp_all add: firm_head [OF white_not_visible(1)])
  moreover have "before_last (CHR ''}'') ((''{'' @ ?inner) @ [CHR ''}'']) = Some (''{'' @ ?inner)" by (rule before_last_end)
  moreover have "trim ?inner = ?inner"
  proof (cases "ps = []")
    case True
    then show ?thesis by simp
  qed (rule trim_pairs [OF assms])
  moreover have "?inner \<noteq> []" if "ps \<noteq> []" using pairs_end [OF that] by auto
  ultimately show ?thesis
    using parse_pairs_join [OF assms, of "[]"]
    by (cases "ps = []") (auto simp: parse_label_block_def Let_def starts_with_def)
qed

lemma column_header_read:
  assumes "good_labels labels" and "column_header labels = Inr h"
  shows "parse_column_header h = Inr (header_of labels)"
proof -
  have check: "check_labels labels = Inr ()" and h: "h = ''{'' @ join '', '' (map label_pair (name_first labels)) @ ''}''"
    using assms(2) by (auto simp: column_header_def rbind_eq_Inr)
  have keys: "\<forall>kv \<in> set (name_first labels). good_key (fst kv)"
    using check_labels_ok [OF check] set_name_first [of labels] assms(1) by (auto simp: good_labels_def good_key_def)
  have d: "distinct (map fst labels)" using assms(1) by (simp add: good_labels_def btree_distinct)
  have t: "trim h = h"
    using trim_between [of "''{'' @ join '', '' (map label_pair (name_first labels))" "CHR ''}''"]
    by (simp add: h firm_head [OF white_not_visible(1)])
  have "fold set_label (name_first labels) [] = labels"
    using fold_set_label [OF distinct_name_first [OF d], of "[]"] map_of_name_first [OF d] assms(1)
    by (intro btree_get_eqI) (auto simp: btree_get_def good_labels_def fun_eq_iff map_add_def split: option.split)
  then have "parse_label_block h = Inr labels" using parse_block_pairs [OF keys] by (simp add: h)
  moreover have "find_char (CHR ''{'') h = Some ([], drop 1 h)" by (simp add: h find_char_Some)
  ultimately show ?thesis using t by (simp add: parse_column_header_def Let_def h header_of_def rbind_def)
qed

text \<open>The fields of a line of quoted cells.\<close>

lemma split_quoted:
  assumes "rest = [] \<or> hd rest \<noteq> CHR 34"
  shows "split_fields_loop fs cur True
      (concat (map (\<lambda>ch. if ch = CHR 34 then [CHR 34, ch] else [ch]) s) @ CHR 34 # rest) =
    split_fields_loop fs (cur @ s) False rest"
  using assms
proof (induction s arbitrary: cur)
  case Nil
  then show ?case by (cases rest) auto
qed auto

lemma split_cells:
  assumes "header_cells series = Inr cells" and "map column_header series = map Inr hs"
  shows "split_fields_loop fs cur False cells = fs @ cur # hs"
  using assms
proof (induction series arbitrary: cells hs fs cur)
  case (Cons labels series)
  then obtain h hs' cells' where h: "hs = h # hs'" "column_header labels = Inr h" "map column_header series = map Inr hs'"
    and c: "header_cells series = Inr cells'" "cells = '','' @ csv_quote_field h @ cells'"
    by (auto simp: rbind_eq_Inr Cons_eq_map_conv)
  have "cells' = [] \<or> hd cells' \<noteq> CHR 34" using c(1) by (cases series) (auto simp: rbind_eq_Inr)
  then have "split_fields_loop fs cur False cells = split_fields_loop (fs @ [cur]) h False cells'"
    using split_quoted [of cells' "fs @ [cur]" "[]" h] by (simp add: c(2) csv_quote_field_def)
  then show ?case using Cons.IH [OF c(1) h(3), of "fs @ [cur]" h] h(1) by simp
qed (auto simp: Cons_eq_map_conv)

lemma column_headers_exist: "header_cells series = Inr cells \<Longrightarrow> \<exists>hs. map column_header series = map Inr hs"
proof (induction series arbitrary: cells)
  case (Cons labels series)
  then obtain h cells' hs where "column_header labels = Inr h" "map column_header series = map Inr hs"
    by (auto simp: rbind_eq_Inr)
  then show ?case by (intro exI [of _ "h # hs"]) simp
qed simp

lemma parse_headers_read:
  assumes "\<forall>labels \<in> set series. good_labels labels" and "map column_header series = map Inr hs"
  shows "parse_headers hs = Inr (map header_of series)"
  using assms
proof (induction series arbitrary: hs)
  case (Cons labels series)
  then show ?case by (auto simp: Cons_eq_map_conv column_header_read rbind_def)
qed simp

lemma timestamp_header:
  "parse_column_header ''timestamp'' = Inr \<lparr> metric_name = Some ''timestamp'', header_labels = [] \<rparr>"
proof -
  have "trim ''timestamp'' = ''timestamp''" by (simp add: trim_visible visible_def)
  moreover have "find_char (CHR ''{'') ''timestamp'' = None" by (simp add: find_char_def)
  ultimately show ?thesis by (simp add: parse_column_header_def)
qed

lemma split_timestamp: "split_fields_loop [] [] False (''timestamp'' @ cells) = split_fields_loop [] ''timestamp'' False cells"
  by simp

text \<open>
  C15. The header of a capture that is written is read back as the labels it was written from, if no key is empty or has
  white space around it: through the escapes of the label block and the quotes of the CSV line, every column gets back its
  metric name and its other labels, whatever the values contain.
\<close>

theorem capture_header_roundtrip:
  assumes "\<forall>labels \<in> set series. good_labels labels" and "capture_header_line series = Inr line"
  shows "parse_header_row line =
    Inr (\<lparr> metric_name = Some ''timestamp'', header_labels = [] \<rparr> # map header_of series)"
proof -
  obtain cells where c: "header_cells series = Inr cells" "line = ''timestamp'' @ cells"
    using assms(2) by (auto simp: capture_header_line_def rbind_eq_Inr)
  obtain hs where hs: "map column_header series = map Inr hs" using column_headers_exist [OF c(1)] by blast
  have "split_csv_header_fields line = ''timestamp'' # hs"
    unfolding split_csv_header_fields_def c(2) split_timestamp split_cells [OF c(1) hs] by simp
  then show ?thesis
    by (simp add: parse_header_row_def timestamp_header parse_headers_read [OF assms(1) hs] rbind_def)
qed

definition hostile_labels :: Labels where
  "hostile_labels = [(''__name__'', ''up''), (''job'', ''a}, b='' @ [CHR 34, CHR 92])]"

theorem capture_header_roundtrip_witness:
  "\<exists>line. capture_header_line [hostile_labels] = Inr line \<and>
     parse_header_row line = Inr [\<lparr> metric_name = Some ''timestamp'', header_labels = [] \<rparr>,
       \<lparr> metric_name = Some ''up'', header_labels = [(''job'', ''a}, b='' @ [CHR 34, CHR 92])] \<rparr>]"
proof -
  have "check_labels hostile_labels = Inr ()" by (simp add: hostile_labels_def has_newline_def)
  then obtain line where line: "capture_header_line [hostile_labels] = Inr line"
    by (auto simp: capture_header_line_def column_header_def)
  have "btree_inv hostile_labels" by (simp add: hostile_labels_def less_char_def)
  then have "good_labels hostile_labels" by (auto simp: good_labels_def hostile_labels_def trim_visible visible_def)
  then have "\<forall>labels \<in> set [hostile_labels]. good_labels labels" by simp
  from capture_header_roundtrip [OF this line] line show ?thesis
    by (auto simp: header_of_def hostile_labels_def btree_get_def btree_remove_def)
qed

text \<open>A label key with space around it is written as it is, and read back without the space.\<close>

lemma spaced_key_changes:
  "column_header [('' a'', ''1'')] = Inr (''{ a='' @ [CHR 34] @ ''1'' @ [CHR 34] @ ''}'')"
  "parse_column_header (''{ a='' @ [CHR 34] @ ''1'' @ [CHR 34] @ ''}'') = Inr (header_of [(''a'', ''1'')])"
proof -
  show "column_header [('' a'', ''1'')] = Inr (''{ a='' @ [CHR 34] @ ''1'' @ [CHR 34] @ ''}'')" by code_simp
  let ?h = "''{ a='' @ [CHR 34] @ ''1'' @ [CHR 34] @ ''}''" and ?inner = "''a='' @ [CHR 34] @ ''1'' @ [CHR 34]"
  have a: "trim ''a'' = ''a''" by (simp add: trim_visible visible_def)
  then have key: "good_key ''a''" by (simp add: good_key_def)
  have "trim ?h = ?h"
    using trim_between [of "''{ a='' @ [CHR 34] @ ''1'' @ [CHR 34]" "CHR ''}''"] by (simp add: firm_head [OF white_not_visible(1)])
  moreover have inner: "?inner = label_pair (''a'', ''1'') @ []" by (simp add: label_pair_def escape_label_value_def)
  moreover have "trim ?inner = ?inner" using trim_pairs [of "[(''a'', ''1'')]"] key inner by simp
  moreover from this have "trim (CHR '' '' # ?inner) = ?inner" by (simp only: trim_space)
  moreover have "before_last (CHR ''}'') ?h = Some (CHR ''{'' # CHR '' '' # ?inner)" by code_simp
  moreover have "label_pair (''a'', ''1'') \<noteq> []" by (simp add: label_pair_def)
  ultimately show "parse_column_header ?h = Inr (header_of [(''a'', ''1'')])"
    using parse_pair [OF key, of "[]" "''1''" "[]"]
    by (simp add: parse_column_header_def parse_label_block_def Let_def find_char_def starts_with_def skip_nothing
        parse_label_pairs.simps [of _ "[]"] header_of_def rbind_def)
qed
end
