(* ===== verification/Capture_Check.thy ===== *)
theory Capture_Check
  imports Generators
begin

text \<open>
  The check of a recorded capture against the silences its scenario declares (\<open>generator/csv_replay.rs\<close>,
  \<open>cross_check_gap_windows\<close>): a blank cell must lie in a gap window and a recorded sample must not. The check walks the
  windows instead of the ticks; the walk is shown to find what a search through all ticks finds.
\<close>

section \<open>Windows\<close>

type_synonym gap_secs = "f64 \<times> f64"

definition tick_at :: "f64 \<Rightarrow> nat \<Rightarrow> f64" where
  "tick_at step_secs t = f64_mul (f64_of_nat t) step_secs"

definition tick_in_window :: "nat \<Rightarrow> f64 \<Rightarrow> gap_secs \<Rightarrow> bool" where
  "tick_in_window t step_secs window =
     (let at = tick_at step_secs t in f64_le (fst window) at \<and> f64_lt at (snd window))"

text \<open>The search for the first tick past a window, between one inside and one outside.\<close>

function window_boundary :: "f64 \<Rightarrow> gap_secs \<Rightarrow> nat \<Rightarrow> nat \<Rightarrow> nat" where
  "window_boundary step_secs window lo hi =
     (if 1 < hi - lo
      then let mid = lo + (hi - lo) div 2
           in if tick_in_window mid step_secs window then window_boundary step_secs window mid hi
              else window_boundary step_secs window lo mid
      else hi)"
  by pat_completeness auto

termination
  by (relation "measure (\<lambda>(_, _, lo, hi). hi - lo)") auto

declare window_boundary.simps [simp del]

text \<open>The loop over the windows in the order of their starts; the instants of a window are never NaN.\<close>

fun walk_windows :: "f64 \<Rightarrow> nat \<Rightarrow> nat \<Rightarrow> gap_secs list \<Rightarrow> nat option" where
  "walk_windows step_secs to cursor [] = (if cursor \<le> to then Some cursor else None)"
| "walk_windows step_secs to cursor (window # rest) =
     (if f64_lt (tick_at step_secs cursor) (fst window) then Some cursor
      else if \<not> tick_in_window cursor step_secs window then walk_windows step_secs to cursor rest
      else if tick_in_window to step_secs window then None
      else walk_windows step_secs to (window_boundary step_secs window cursor to) rest)"

definition first_uncovered_tick :: "nat \<Rightarrow> u64 \<Rightarrow> gap_secs list \<Rightarrow> f64 \<Rightarrow> nat option" where
  "first_uncovered_tick from to windows step_secs =
     (if unat to < from then None
      else walk_windows step_secs (unat to) from (sort_key (\<lambda>w. f64_key (fst w)) windows))"

definition row_covered :: "gap_secs list \<Rightarrow> f64 \<Rightarrow> nat \<Rightarrow> bool" where
  "row_covered windows step_secs row = list_ex (tick_in_window row step_secs) windows"

section \<open>The check\<close>

record Playback =
  row_count :: nat
  replay_repeat :: bool
  last_tick :: "u64 option"
  replay_bursts :: bool

definition MAX_NAMED :: nat where
  "MAX_NAMED = 8"

text \<open>The rows an error names, counted from one, and how many more there are.\<close>

definition format_rows :: "nat list \<Rightarrow> nat list \<times> nat" where
  "format_rows rows = (map Suc (take MAX_NAMED rows), length rows - MAX_NAMED)"

datatype CrossCheckError =
    SilenceLoops nat
  | SilenceInBursts nat
  | BlankUncovered nat "nat list \<times> nat"
  | SampleSilenced nat "nat list \<times> nat"
  | HeldForever nat
  | HeldUncovered nat nat

definition cross_check_gap_windows ::
  "nat list \<Rightarrow> Playback \<Rightarrow> gap_secs list \<Rightarrow> f64 \<Rightarrow> CrossCheckError + unit" where
  "cross_check_gap_windows blanks playback windows step_secs =
     (let covered = row_covered windows step_secs;
          uncovered = filter (\<lambda>r. \<not> covered r) blanks;
          present_but_silenced = filter (\<lambda>r. covered r \<and> r \<notin> set blanks) [0..<row_count playback]
      in if replay_repeat playback \<and> blanks \<noteq> [] then Inl (SilenceLoops (length blanks))
         else if replay_bursts playback \<and> blanks \<noteq> [] then Inl (SilenceInBursts (length blanks))
         else if uncovered \<noteq> [] then Inl (BlankUncovered (length uncovered) (format_rows uncovered))
         else if present_but_silenced \<noteq> []
         then Inl (SampleSilenced (length present_but_silenced) (format_rows present_but_silenced))
         else if row_count playback = 0 \<or> row_count playback - 1 \<notin> set blanks then Inr ()
         else
           case last_tick playback of
             None \<Rightarrow> Inl (HeldForever (row_count playback))
           | Some l \<Rightarrow>
               (case first_uncovered_tick (row_count playback) l windows step_secs of
                  Some first \<Rightarrow> Inl (HeldUncovered (row_count playback) first)
                | None \<Rightarrow> Inr ()))"

section \<open>The walk finds the first uncovered tick\<close>

text \<open>A step between two rows: a finite number that is not negative. The instants of the ticks then never decrease.\<close>

definition replay_step :: "f64 \<Rightarrow> bool" where
  "replay_step s \<longleftrightarrow> f64_is_finite s \<and> \<not> f64_sign s"

lemma tick_at_mono: "replay_step s \<Longrightarrow> t \<le> u \<Longrightarrow> u < 2 ^ 64 \<Longrightarrow> f64_le (tick_at s t) (tick_at s u)"
  unfolding tick_at_def by (rule f64_mul_of_nat_mono) (simp_all add: replay_step_def)

lemma entered_window:
  "replay_step s \<Longrightarrow> f64_le (fst w) (tick_at s t) \<Longrightarrow> t \<le> u \<Longrightarrow> u < 2 ^ 64 \<Longrightarrow> f64_le (fst w) (tick_at s u)"
  using tick_at_mono [of s t u] by (auto simp: f64_le_def)

text \<open>A window that was entered and left is not entered again, so the ticks inside it are one run.\<close>

lemma left_window:
  assumes "replay_step s" and "f64_le (fst w) (tick_at s t)" and "\<not> tick_in_window t s w" and "t \<le> u" and "u < 2 ^ 64"
  shows "\<not> tick_in_window u s w"
  using tick_at_mono [OF assms(1,4,5)] assms(2,3) by (auto simp: tick_in_window_def Let_def f64_le_def f64_lt_def)

lemma inside_run:
  assumes "replay_step s" and "tick_in_window t s w" and "tick_in_window v s w" and "t \<le> u" and "u \<le> v" and "v < 2 ^ 64"
  shows "tick_in_window u s w"
  using left_window [of s w u v] entered_window [of s w t u] assms by (auto simp: tick_in_window_def Let_def)

lemma before_window:
  "f64_lt (tick_at s t) (fst w) \<Longrightarrow> f64_key (fst w) \<le> f64_key (fst v) \<Longrightarrow> \<not> tick_in_window t s v"
  by (auto simp: tick_in_window_def Let_def f64_le_def f64_lt_def)

lemma window_boundary_spec:
  assumes "replay_step s" and "tick_in_window lo s w" and "\<not> tick_in_window hi s w" and "lo < hi" and "hi < 2 ^ 64"
  shows "lo < window_boundary s w lo hi \<and> window_boundary s w lo hi \<le> hi \<and>
    \<not> tick_in_window (window_boundary s w lo hi) s w \<and> (\<forall>t. lo \<le> t \<and> t < window_boundary s w lo hi \<longrightarrow> tick_in_window t s w)"
  using assms
proof (induction s w lo hi rule: window_boundary.induct)
  case (1 s w lo hi)
  let ?mid = "lo + (hi - lo) div 2"
  show ?case
  proof (cases "1 < hi - lo")
    case False
    then have hi: "hi = Suc lo" using 1(6) by simp
    then have "window_boundary s w lo hi = hi" by (subst window_boundary.simps) simp
    with 1(3-) hi show ?thesis by (auto simp: less_Suc_eq_le dest: le_antisym)
  next
    case True
    then have mid: "lo < ?mid" "?mid < hi" by linarith+
    show ?thesis
    proof (cases "tick_in_window ?mid s w")
      case inside: True
      have low: "tick_in_window t s w" if "lo \<le> t" "t \<le> ?mid" for t
        using inside_run [of s lo w ?mid t] 1(3-) inside that mid by simp
      have eq: "window_boundary s w lo hi = window_boundary s w ?mid hi"
        using True inside by (simp add: window_boundary.simps [of s w lo hi] Let_def)
      have rec: "?mid < window_boundary s w ?mid hi" "window_boundary s w ?mid hi \<le> hi"
          "\<not> tick_in_window (window_boundary s w ?mid hi) s w"
          "\<And>t. ?mid \<le> t \<Longrightarrow> t < window_boundary s w ?mid hi \<Longrightarrow> tick_in_window t s w"
        using 1(1) [OF True refl inside] 1(3-) inside mid by blast+
      then have "tick_in_window t s w" if "lo \<le> t" "t < window_boundary s w ?mid hi" for t
        using low [of t] that by (cases "t \<le> ?mid") auto
      then show ?thesis unfolding eq using rec mid by auto
    next
      case outside: False
      moreover have "window_boundary s w lo hi = window_boundary s w lo ?mid"
        using True outside by (simp add: window_boundary.simps [of s w lo hi] Let_def)
      ultimately show ?thesis using 1(2) [OF True refl outside] 1(3-) mid by simp
    qed
  qed
qed

text \<open>What the walk is to find: the first tick from \<open>from\<close> to \<open>to\<close> that no window covers, by trying them all.\<close>

definition search_uncovered :: "nat \<Rightarrow> nat \<Rightarrow> gap_secs list \<Rightarrow> f64 \<Rightarrow> nat option" where
  "search_uncovered from to windows step_secs =
     find (\<lambda>t. \<not> row_covered windows step_secs t) [from..<Suc to]"

lemma find_append_None: "find P xs = None \<Longrightarrow> find P (xs @ ys) = find P ys"
  by (induction xs) (auto split: if_splits)

lemma search_from:
  assumes "from \<le> t" and "t \<le> to" and "\<And>u. from \<le> u \<Longrightarrow> u < t \<Longrightarrow> row_covered ws s u"
  shows "search_uncovered from to ws s = search_uncovered t to ws s"
proof -
  have "[from..<Suc to] = [from..<t] @ [t..<Suc to]" using assms(1,2) upt_add_eq_append [of "from" t "Suc to - t"] by simp
  moreover have "find (\<lambda>t. \<not> row_covered ws s t) [from..<t] = None" using assms(3) by (auto simp: find_None_iff)
  ultimately show ?thesis by (simp add: search_uncovered_def find_append_None del: upt_Suc)
qed

lemma search_here: "from \<le> to \<Longrightarrow> \<not> row_covered ws s from \<Longrightarrow> search_uncovered from to ws s = Some from"
  by (simp add: search_uncovered_def upt_conv_Cons del: upt_Suc)

lemma search_none: "(\<And>t. from \<le> t \<Longrightarrow> t \<le> to \<Longrightarrow> row_covered ws s t) \<Longrightarrow> search_uncovered from to ws s = None"
  by (auto simp: search_uncovered_def find_None_iff)

text \<open>
  The walk over windows in order, when those before \<open>cursor\<close> were all entered and left: its answer is that of the search.
\<close>

definition passed :: "f64 \<Rightarrow> nat \<Rightarrow> gap_secs list \<Rightarrow> bool" where
  "passed s cursor ws \<longleftrightarrow> (\<forall>w \<in> set ws. f64_le (fst w) (tick_at s cursor) \<and> \<not> tick_in_window cursor s w)"

lemma passed_mono: "replay_step s \<Longrightarrow> passed s c ws \<Longrightarrow> c \<le> d \<Longrightarrow> d < 2 ^ 64 \<Longrightarrow> passed s d ws"
  unfolding passed_def using left_window entered_window by blast

lemma walk_windows_search:
  assumes "replay_step s" and "to < 2 ^ 64" and "\<forall>w \<in> set ws. \<not> f64_is_nan (fst w)"
    and "sorted (map (\<lambda>w. f64_key (fst w)) ws)" and "passed s cursor done" and "cursor \<le> to"
  shows "walk_windows s to cursor ws = search_uncovered cursor to (done @ ws) s"
  using assms
proof (induction ws arbitrary: cursor "done")
  case Nil
  then have "\<not> row_covered done s cursor" by (auto simp: passed_def row_covered_def list_ex_iff)
  with Nil show ?case by (simp add: search_here)
next
  case (Cons w ws)
  consider (before) "f64_lt (tick_at s cursor) (fst w)"
    | (past) "\<not> f64_lt (tick_at s cursor) (fst w)" "\<not> tick_in_window cursor s w"
    | (all) "tick_in_window cursor s w" "tick_in_window to s w"
    | (through) "tick_in_window cursor s w" "\<not> tick_in_window to s w"
    by blast
  then show ?case
  proof cases
    case before
    have "\<not> row_covered (done @ w # ws) s cursor"
      using Cons.prems before_window [OF before] by (auto simp: row_covered_def list_ex_iff passed_def)
    with before Cons.prems show ?thesis by (simp add: search_here)
  next
    case past
    have "\<not> f64_is_nan (tick_at s cursor)"
      using tick_at_mono [of s cursor cursor] Cons.prems by (simp add: f64_le_def)
    with past Cons.prems have "f64_le (fst w) (tick_at s cursor)" by (simp add: f64_le_iff)
    with past Cons.prems have "passed s cursor (done @ [w])" by (auto simp: passed_def)
    then have "walk_windows s to cursor ws = search_uncovered cursor to ((done @ [w]) @ ws) s"
      using Cons.IH Cons.prems by simp
    with past show ?thesis by simp
  next
    case all
    have "row_covered (done @ w # ws) s t" if "cursor \<le> t" "t \<le> to" for t
      using inside_run [of s cursor w to t] all that Cons.prems by (simp add: row_covered_def)
    with all show ?thesis by (auto simp: search_none tick_in_window_def Let_def f64_le_def f64_lt_def)
  next
    case through
    let ?next = "window_boundary s w cursor to"
    have "cursor < to" using through Cons.prems by (cases "cursor = to") auto
    then have b: "cursor < ?next" "?next \<le> to" "\<not> tick_in_window ?next s w"
        "\<And>t. cursor \<le> t \<Longrightarrow> t < ?next \<Longrightarrow> tick_in_window t s w"
      using window_boundary_spec [of s cursor w to] through Cons.prems by auto
    have "passed s ?next (done @ [w])"
      using passed_mono [of s cursor "done" ?next] entered_window [of s w cursor ?next] b through Cons.prems
      by (auto simp: passed_def tick_in_window_def Let_def)
    then have "walk_windows s to ?next ws = search_uncovered ?next to ((done @ [w]) @ ws) s"
      using Cons.IH Cons.prems b by simp
    moreover have "search_uncovered cursor to (done @ w # ws) s = search_uncovered ?next to (done @ w # ws) s"
      by (rule search_from) (use b in \<open>auto simp: row_covered_def\<close>)
    moreover have "\<not> f64_lt (tick_at s cursor) (fst w)"
      using through by (auto simp: tick_in_window_def Let_def f64_le_def f64_lt_def)
    ultimately show ?thesis using through by simp
  qed
qed

lemma row_covered_set: "set ws = set vs \<Longrightarrow> row_covered ws = row_covered vs"
  by (intro ext) (simp add: row_covered_def list_ex_iff)

lemma first_uncovered_search:
  assumes "replay_step step_secs" and "\<forall>w \<in> set windows. \<not> f64_is_nan (fst w)"
  shows "first_uncovered_tick from to windows step_secs = search_uncovered from (unat to) windows step_secs"
proof (cases "unat to < from")
  case True
  then show ?thesis by (simp add: first_uncovered_tick_def search_uncovered_def)
next
  case False
  then have "first_uncovered_tick from to windows step_secs
      = search_uncovered from (unat to) ([] @ sort_key (\<lambda>w. f64_key (fst w)) windows) step_secs"
    unfolding first_uncovered_tick_def
    using walk_windows_search [of step_secs "unat to" "sort_key (\<lambda>w. f64_key (fst w)) windows" "from" "[]"]
      assms unsigned_less [of to] by (simp add: passed_def)
  then show ?thesis by (simp add: search_uncovered_def row_covered_set [of "sort_key (\<lambda>w. f64_key (fst w)) windows" windows])
qed

section \<open>What an accepted capture means\<close>

lemma cross_check_accepts:
  assumes "replay_step step_secs" and "\<forall>w \<in> set windows. \<not> f64_is_nan (fst w)"
  shows "cross_check_gap_windows blanks playback windows step_secs = Inr () \<longleftrightarrow>
    (blanks \<noteq> [] \<longrightarrow> \<not> replay_repeat playback \<and> \<not> replay_bursts playback) \<and>
    (\<forall>r \<in> set blanks. row_covered windows step_secs r) \<and>
    (\<forall>r < row_count playback. row_covered windows step_secs r \<longrightarrow> r \<in> set blanks) \<and>
    (0 < row_count playback \<and> row_count playback - 1 \<in> set blanks \<longrightarrow>
      (\<exists>l. last_tick playback = Some l \<and>
        (\<forall>t. row_count playback \<le> t \<and> t \<le> unat l \<longrightarrow> row_covered windows step_secs t)))"
proof -
  have search: "first_uncovered_tick n l windows step_secs = None \<longleftrightarrow>
      (\<forall>t. n \<le> t \<and> t \<le> unat l \<longrightarrow> row_covered windows step_secs t)" for n l
    by (auto simp: first_uncovered_search [OF assms] search_uncovered_def find_None_iff simp del: upt_Suc)
  have clear: "filter (\<lambda>r. row_covered windows step_secs r \<and> r \<notin> set blanks) [0..<row_count playback] = [] \<longleftrightarrow>
      (\<forall>r < row_count playback. row_covered windows step_secs r \<longrightarrow> r \<in> set blanks)"
    by (auto simp: filter_empty_conv)
  show ?thesis
    unfolding cross_check_gap_windows_def Let_def clear
    by (auto simp: search [symmetric] filter_empty_conv split: option.splits)
qed

text \<open>
  C32. For a step that is finite and not negative and windows whose starts are not NaN, the walk over the windows finds the
  first tick of a range that no window covers: its answer is a tick of the range,
  uncovered, before which every tick of the range is covered, and no answer means that the whole range is covered, whatever
  the order, the overlaps and the rounding of the windows, though it never visits the ticks.
\<close>

theorem first_uncovered_least:
  assumes "replay_step step_secs" and "\<forall>w \<in> set windows. \<not> f64_is_nan (fst w)"
  shows "(first_uncovered_tick from to windows step_secs = Some t \<longleftrightarrow>
      from \<le> t \<and> t \<le> unat to \<and> \<not> row_covered windows step_secs t \<and>
      (\<forall>u. from \<le> u \<and> u < t \<longrightarrow> row_covered windows step_secs u)) \<and>
    (first_uncovered_tick from to windows step_secs = None \<longleftrightarrow>
      (\<forall>u. from \<le> u \<and> u \<le> unat to \<longrightarrow> row_covered windows step_secs u))"
proof -
  let ?search = "search_uncovered from (unat to) windows step_secs"
  have none: "?search = None \<longleftrightarrow> (\<forall>u. from \<le> u \<and> u \<le> unat to \<longrightarrow> row_covered windows step_secs u)"
    by (auto simp: search_uncovered_def find_None_iff simp del: upt_Suc)
  have least: "?search = Some t" if "from \<le> t" "t \<le> unat to" "\<not> row_covered windows step_secs t"
      "\<forall>u. from \<le> u \<and> u < t \<longrightarrow> row_covered windows step_secs u" for t
    using search_from [of "from" t "unat to" windows step_secs] search_here [of t "unat to"] that by auto
  have "from \<le> t \<and> t \<le> unat to \<and> \<not> row_covered windows step_secs t \<and>
      (\<forall>u. from \<le> u \<and> u < t \<longrightarrow> row_covered windows step_secs u)" if "?search = Some t"
  proof -
    let ?P = "\<lambda>u. from \<le> u \<and> u \<le> unat to \<and> \<not> row_covered windows step_secs u"
    define m where "m = Least ?P"
    from that none obtain u where "?P u" by auto
    then have m: "?P m" unfolding m_def by (rule LeastI)
    have below: "\<not> ?P v" if "v < m" for v using that unfolding m_def by (rule not_less_Least)
    have before: "\<forall>u. from \<le> u \<and> u < m \<longrightarrow> row_covered windows step_secs u"
    proof (intro allI impI)
      fix u assume u: "from \<le> u \<and> u < m"
      then have "u \<le> unat to" using m by linarith
      with below [of u] u show "row_covered windows step_secs u" by blast
    qed
    have "?search = Some m" using m before by (intro least) blast+
    with that have "m = t" by simp
    with m before show ?thesis by blast
  qed
  with none least show ?thesis unfolding first_uncovered_search [OF assms] by blast
qed

theorem first_uncovered_least_witness:
  "first_uncovered_tick 1 5 [(f64_of_nat 3, f64_of_nat 4), (f64_of_nat 1, f64_of_nat 3)] (f64_of_nat 1) = Some 4"
proof -
  let ?windows = "[(f64_of_nat 3, f64_of_nat 4), (f64_of_nat 1, f64_of_nat 3)]"
  have step: "replay_step (f64_of_nat 1)"
    using dyadic_of_nat [of 1]
    by (auto simp: replay_step_def dyadic_def f64_is_finite_def f64_exponent_def F64_INF_def small_nat_def)
  have number: "\<not> f64_is_nan (f64_of_nat n)" if "n \<le> 5" for n
    using dyadic_parts(1) [OF dyadic_of_nat [of n]] that by (simp add: small_nat_def)
  then have starts: "\<forall>w \<in> set ?windows. \<not> f64_is_nan (fst w)" by simp
  have inside: "tick_in_window t (f64_of_nat 1) (f64_of_nat a, f64_of_nat b) \<longleftrightarrow> a \<le> t \<and> t < b"
    if "t \<le> 5" "a \<le> 5" "b \<le> 5" for t a b
  proof -
    have "small_nat t" "small_nat a" "small_nat b" "small_nat 1" using that by (simp_all add: small_nat_def)
    then show ?thesis
      using number [OF that(1)] number [OF that(2)] small_nat_mul [of t 1]
      by (simp add: tick_in_window_def tick_at_def small_nat_lt f64_le_iff not_less del: One_nat_def)
  qed
  have cov: "row_covered ?windows (f64_of_nat 1) t \<longleftrightarrow> 1 \<le> t \<and> t < 4" if "t \<le> 5" for t
    using inside [OF that, of 3 4] inside [OF that, of 1 3] by (auto simp: row_covered_def)
  have "\<forall>u. 1 \<le> u \<and> u < 4 \<longrightarrow> row_covered ?windows (f64_of_nat 1) u" using cov by simp
  with first_uncovered_least [OF step starts, of 1 5 4] cov [of 4] show ?thesis by simp
qed

end
