(* ===== verification/Capture_Expand.thy ===== *)
theory Capture_Expand
  imports Csv_Header Capture_Check
begin

text \<open>
  The expansion of a scenario that replays a capture (\<open>expand_scenario\<close> of \<open>config/mod.rs\<close>): one scenario for every
  column, its rate derived from the time stamps of the file, its columns from the header row or the configuration, and the
  silences of every column checked against the gap windows. A file is what \<open>read_file\<close> answers for its path, \<open>None\<close> when
  it cannot be read; the texts of the errors are their variants and what they quote.
\<close>

section \<open>Configuration\<close>

record GapWindowConfig =
  gwc_at :: string
  gwc_for :: string

definition GapWindowConfig_resolve :: "GapWindowConfig \<Rightarrow> DurationError + nat \<times> nat" where
  "GapWindowConfig_resolve w =
     rbind (parse_offset_duration (gwc_at w)) (\<lambda>at. rbind (parse_duration (gwc_for w)) (\<lambda>len. Inr (at, len)))"

text \<open>The fields that the expansion reads or writes; the others stay as they are in \<open>sc_rest\<close>.\<close>

record ('b, 'r) ScenarioConfig =
  sc_name :: string
  sc_rate :: f64
  sc_duration :: "string option"
  sc_gap_windows :: "GapWindowConfig list option"
  sc_bursts :: "'b option"
  sc_labels :: "(string \<rightharpoonup> string) option"
  sc_generator :: GeneratorConfig
  sc_rest :: 'r

datatype IntervalError =
    FewTimestamps nat
  | NonMonotonicDelta nat f64 f64
  | NotPositiveMedian f64

datatype ExpandError =
    CaptureFile string
  | NoDataLines string
  | ColumnsEmpty
  | DuplicateIndex nat
  | DuplicateName string
  | BadTimescale f64
  | BadHeader HeaderError
  | NoHeader
  | NamelessColumn nat
  | NoDataColumns
  | NameCollision string nat
  | BadTimestamp nat string
  | NonMonotonic nat f64 f64
  | FewRows string
  | BadInterval IntervalError
  | BadDuration DurationError
  | BadColumn GeneratorError
  | SilenceMismatch CrossCheckError

section \<open>Columns and time scale\<close>

fun first_repeated :: "'a list \<Rightarrow> 'a list \<Rightarrow> 'a option" where
  "first_repeated seen [] = None"
| "first_repeated seen (x # xs) = (if x \<in> set seen then Some x else first_repeated (x # seen) xs)"

definition validate_csv_columns :: "CsvColumnSpec list option \<Rightarrow> ExpandError + unit" where
  "validate_csv_columns columns =
     (case columns of
        None \<Rightarrow> Inr ()
      | Some cols \<Rightarrow>
          if cols = [] then Inl ColumnsEmpty
          else
            case first_repeated [] (map column_index cols) of
              Some i \<Rightarrow> Inl (DuplicateIndex i)
            | None \<Rightarrow>
                (case first_repeated [] (map column_name cols) of
                   Some n \<Rightarrow> Inl (DuplicateName n)
                 | None \<Rightarrow> Inr ()))"

definition validate_csv_timescale :: "f64 option \<Rightarrow> ExpandError + f64" where
  "validate_csv_timescale timescale =
     (let ts = unwrap_or timescale (f64_of_nat 1)
      in if \<not> (\<not> f64_is_nan ts \<and> \<not> f64_is_infinite ts \<and> f64_lt 0 ts) then Inl (BadTimescale ts) else Inr ts)"

section \<open>Time stamps\<close>

definition is_csv_skippable_line :: "string \<Rightarrow> bool" where
  "is_csv_skippable_line line = (let trimmed = trim line in trimmed = [] \<or> starts_with trimmed ''#'')"

definition read_csv_header :: "(string \<Rightarrow> string option) \<Rightarrow> string \<Rightarrow> ExpandError + string" where
  "read_csv_header read_file path =
     (case read_file path of
        None \<Rightarrow> Inl (CaptureFile path)
      | Some content \<Rightarrow>
          ok_or (find (\<lambda>line. \<not> is_csv_skippable_line line) (lines content)) (NoDataLines path))"

definition read_csv_first_lines :: "(string \<Rightarrow> string option) \<Rightarrow> string \<Rightarrow> nat \<Rightarrow> ExpandError + string list" where
  "read_csv_first_lines read_file path max_lines =
     (case read_file path of
        None \<Rightarrow> Inl (CaptureFile path)
      | Some content \<Rightarrow> Inr (take max_lines (filter (\<lambda>line. \<not> is_csv_skippable_line line) (lines content))))"

definition parse_csv_timestamp :: "string \<Rightarrow> f64 option" where
  "parse_csv_timestamp cell =
     (case f64_from_str (trim cell) of
        None \<Rightarrow> None
      | Some v \<Rightarrow>
          if f64_is_nan v \<or> f64_is_infinite v then None
          else if f64_lt (f64_of_nat (10 ^ 12)) v then Some (f64_div v (f64_of_nat 1000))
          else Some v)"

definition nth_cell :: "string \<Rightarrow> nat \<Rightarrow> string" where
  "nth_cell line i = (let cells = split_on (CHR '','') line in if i < length cells then cells ! i else [])"

text \<open>The loop over the lines: the previous stamp, the number of the row and whether the header was looked for.\<close>

fun monotonic_loop :: "nat \<Rightarrow> string list \<Rightarrow> f64 option \<Rightarrow> nat \<Rightarrow> bool \<Rightarrow> ExpandError + unit" where
  "monotonic_loop col [] prev row_idx header_checked = Inr ()"
| "monotonic_loop col (line # rest) prev row_idx header_checked =
     (if is_csv_skippable_line line then monotonic_loop col rest prev row_idx header_checked
      else if \<not> header_checked \<and> is_header_line line then monotonic_loop col rest prev row_idx True
      else
        case parse_csv_timestamp (nth_cell line col) of
          None \<Rightarrow> Inl (BadTimestamp row_idx (nth_cell line col))
        | Some ts \<Rightarrow>
            (case prev of
               Some previous \<Rightarrow>
                 if f64_le ts previous then Inl (NonMonotonic row_idx ts previous)
                 else monotonic_loop col rest (Some ts) (row_idx + 1) True
             | None \<Rightarrow> monotonic_loop col rest (Some ts) (row_idx + 1) True))"

definition validate_csv_timestamps_monotonic :: "(string \<Rightarrow> string option) \<Rightarrow> string \<Rightarrow> nat \<Rightarrow> ExpandError + unit" where
  "validate_csv_timestamps_monotonic read_file path col =
     (case read_file path of
        None \<Rightarrow> Inl (CaptureFile path)
      | Some content \<Rightarrow> monotonic_loop col (lines content) None 0 False)"

fun pair_deltas :: "f64 list \<Rightarrow> f64 list \<Rightarrow> IntervalError + f64 list" where
  "pair_deltas deltas (a # b # rest) =
     (let d = f64_sub b a
      in if f64_le d 0 then Inl (NonMonotonicDelta (length deltas + 1) b a)
         else pair_deltas (deltas @ [d]) (b # rest))"
| "pair_deltas deltas _ = Inr deltas"

text \<open>Differences of finite stamps are never NaN, so the comparison that sorts them never fails.\<close>

definition median_delta_seconds :: "f64 list \<Rightarrow> IntervalError + f64" where
  "median_delta_seconds timestamps =
     (if length timestamps < 2 then Inl (FewTimestamps (length timestamps))
      else
        rbind (pair_deltas [] timestamps) (\<lambda>deltas.
          let sorted_deltas = sort_key f64_key deltas;
              mid = length sorted_deltas div 2;
              median =
                (if even (length sorted_deltas)
                 then f64_div (f64_add (sorted_deltas ! (mid - 1)) (sorted_deltas ! mid)) (f64_of_nat 2)
                 else sorted_deltas ! mid)
          in if f64_le median 0 \<or> f64_is_nan median \<or> f64_is_infinite median then Inl (NotPositiveMedian median)
             else Inr median))"

definition CSV_DELTA_SAMPLE_ROWS :: nat where
  "CSV_DELTA_SAMPLE_ROWS = 100"

fun row_timestamps :: "nat \<Rightarrow> nat \<Rightarrow> string list \<Rightarrow> ExpandError + f64 list" where
  "row_timestamps col row_idx [] = Inr []"
| "row_timestamps col row_idx (line # rest) =
     (case parse_csv_timestamp (nth_cell line col) of
        None \<Rightarrow> Inl (BadTimestamp row_idx (nth_cell line col))
      | Some ts \<Rightarrow> rbind (row_timestamps col (row_idx + 1) rest) (\<lambda>tss. Inr (ts # tss)))"

definition compute_csv_delta_seconds :: "(string \<Rightarrow> string option) \<Rightarrow> string \<Rightarrow> nat \<Rightarrow> ExpandError + f64" where
  "compute_csv_delta_seconds read_file path col =
     rbind (read_csv_first_lines read_file path (CSV_DELTA_SAMPLE_ROWS + 1)) (\<lambda>first_lines.
       if first_lines = [] then Inl (NoDataLines path)
       else
         let data_lines = (if is_header_line (hd first_lines) then tl first_lines else first_lines)
         in rbind (row_timestamps col 0 data_lines) (\<lambda>timestamps.
              if length timestamps < 2 then Inl (FewRows path)
              else map_err BadInterval (median_delta_seconds timestamps)))"

section \<open>Columns from the header\<close>

definition merge_header_labels :: "ParsedColumnHeader list option \<Rightarrow> CsvColumnSpec \<Rightarrow> CsvColumnSpec" where
  "merge_header_labels parsed_header spec =
     (let hdr = (case parsed_header of
                   None \<Rightarrow> None
                 | Some hs \<Rightarrow> if column_index spec < length hs then Some (header_labels (hs ! column_index spec)) else None)
      in spec \<lparr> column_labels :=
           (case (hdr, column_labels spec) of
              (None, None) \<Rightarrow> None
            | (None, Some user) \<Rightarrow> Some user
            | (Some h, None) \<Rightarrow> if h = [] then None else Some (map_of h)
            | (Some h, Some user) \<Rightarrow> Some (map_of h ++ user)) \<rparr>)"

definition merge_header_labels_into_specs :: "CsvColumnSpec list \<Rightarrow> ParsedColumnHeader list option \<Rightarrow> CsvColumnSpec list" where
  "merge_header_labels_into_specs user_specs parsed_header = map (merge_header_labels parsed_header) user_specs"

text \<open>The name of a column, and whether it comes from the default.\<close>

definition discovered_name :: "string option \<Rightarrow> bool \<Rightarrow> nat \<Rightarrow> ParsedColumnHeader \<Rightarrow> ExpandError + string \<times> bool" where
  "discovered_name default_name needs_suffix i ph =
     (case metric_name ph of
        Some n \<Rightarrow> Inr (n, False)
      | None \<Rightarrow>
          (case default_name of
             None \<Rightarrow> Inl (NamelessColumn i)
           | Some base \<Rightarrow> Inr (if needs_suffix then base @ ''_'' @ show_nat i else base, True)))"

fun discover_loop :: "string option \<Rightarrow> bool \<Rightarrow> nat \<Rightarrow> ParsedColumnHeader list \<Rightarrow> ExpandError + (CsvColumnSpec \<times> bool) list" where
  "discover_loop default_name needs_suffix i [] = Inr []"
| "discover_loop default_name needs_suffix i (ph # rest) =
     rbind (discovered_name default_name needs_suffix i ph) (\<lambda>(name, derived).
          rbind (discover_loop default_name needs_suffix (i + 1) rest) (\<lambda>specs.
            Inr ((\<lparr> column_index = i, column_name = name,
                    column_labels = (if header_labels ph = [] then None else Some (map_of (header_labels ph))) \<rparr>, derived)
                 # specs)))"

definition auto_discover_specs :: "ParsedColumnHeader list \<Rightarrow> string option \<Rightarrow> ExpandError + CsvColumnSpec list" where
  "auto_discover_specs parsed default_metric_name =
     (let nameless = filter (\<lambda>ph. metric_name ph = None) (drop 1 parsed);
          needs_suffix = 1 < length nameless
      in rbind (discover_loop default_metric_name needs_suffix 1 (drop 1 parsed)) (\<lambda>specs.
           if specs = [] then Inl NoDataColumns
           else
             let explicit_names = map (column_name \<circ> fst) (filter (\<lambda>s. \<not> snd s) specs)
             in case find (\<lambda>s. snd s \<and> column_name (fst s) \<in> set explicit_names) specs of
                  Some s \<Rightarrow> Inl (NameCollision (column_name (fst s)) (column_index (fst s)))
                | None \<Rightarrow> Inr (map fst specs)))"

section \<open>The expansion\<close>

definition window_secs :: "nat \<times> nat \<Rightarrow> gap_secs" where
  "window_secs w = (as_secs_f64 (fst w), f64_add (as_secs_f64 (fst w)) (as_secs_f64 (snd w)))"

fun resolve_windows :: "GapWindowConfig list \<Rightarrow> ExpandError + (nat \<times> nat) list" where
  "resolve_windows [] = Inr []"
| "resolve_windows (w # ws) =
     rbind (map_err BadDuration (GapWindowConfig_resolve w)) (\<lambda>g. rbind (resolve_windows ws) (\<lambda>gs. Inr (g # gs)))"

definition last_tick_from :: "f64 \<Rightarrow> nat \<Rightarrow> u64" where
  "last_tick_from step_secs d =
     (let ticks = f64_to_u64 (f64_ceil (f64_div (as_secs_f64 d) step_secs))
      in if ticks = 0 then 0 else ticks - 1)"

definition resolve_last_tick :: "string option \<Rightarrow> f64 \<Rightarrow> ExpandError + u64 option" where
  "resolve_last_tick duration step_secs =
     (case duration of
        None \<Rightarrow> Inr None
      | Some s \<Rightarrow> rbind (map_err BadDuration (parse_duration s)) (\<lambda>d. Inr (Some (last_tick_from step_secs d))))"

fun check_columns :: "string \<Rightarrow> bool \<Rightarrow> u64 option \<Rightarrow> bool \<Rightarrow> gap_secs list \<Rightarrow> f64 \<Rightarrow> CsvColumnSpec list \<Rightarrow> ExpandError + unit" where
  "check_columns content repeat lt bursts windows step_secs [] = Inr ()"
| "check_columns content repeat lt bursts windows step_secs (spec # specs) =
     rbind (map_err BadColumn (parse_values_and_gaps content (column_index spec))) (\<lambda>(values, blanks).
       rbind (map_err SilenceMismatch (cross_check_gap_windows blanks
           \<lparr> row_count = length values, replay_repeat = repeat, last_tick = lt, replay_bursts = bursts \<rparr> windows step_secs))
         (\<lambda>_. check_columns content repeat lt bursts windows step_secs specs))"

definition column_scenario :: "('b, 'r) ScenarioConfig \<Rightarrow> f64 \<Rightarrow> CsvColumnSpec \<Rightarrow> ('b, 'r) ScenarioConfig" where
  "column_scenario config derived_rate spec =
     config \<lparr> sc_name := column_name spec, sc_rate := derived_rate,
       sc_labels := (case column_labels spec of
                       None \<Rightarrow> sc_labels config
                     | Some col \<Rightarrow> Some (unwrap_or (sc_labels config) Map.empty ++ col)),
       sc_generator := (case sc_generator config of
                          CsvReplay file _ _ repeat timescale name \<Rightarrow>
                            CsvReplay file (Some (column_index spec)) None repeat timescale name
                        | g \<Rightarrow> g) \<rparr>"

definition resolve_specs ::
  "CsvColumnSpec list option \<Rightarrow> ParsedColumnHeader list option \<Rightarrow> string option \<Rightarrow> ExpandError + CsvColumnSpec list" where
  "resolve_specs columns parsed_header default_name =
     (case columns of
        Some cols \<Rightarrow> Inr (merge_header_labels_into_specs cols parsed_header)
      | None \<Rightarrow>
          (case parsed_header of
             None \<Rightarrow> Inl NoHeader
           | Some parsed \<Rightarrow> auto_discover_specs parsed default_name))"

definition parse_first_line :: "string \<Rightarrow> ExpandError + ParsedColumnHeader list option" where
  "parse_first_line header_line =
     (if is_header_line header_line
      then rbind (map_err BadHeader (parse_header_row header_line)) (\<lambda>hs. Inr (Some hs))
      else Inr None)"

definition expand_scenario ::
  "(string \<Rightarrow> string option) \<Rightarrow> ('b, 'r) ScenarioConfig \<Rightarrow> ExpandError + ('b, 'r) ScenarioConfig list" where
  "expand_scenario read_file config =
     (case sc_generator config of
        CsvReplay file _ columns repeat_field timescale_opt default_name \<Rightarrow>
          rbind (validate_csv_columns columns) (\<lambda>_.
          rbind (validate_csv_timescale timescale_opt) (\<lambda>timescale.
          rbind (read_csv_header read_file file) (\<lambda>header_line.
          rbind (parse_first_line header_line) (\<lambda>parsed_header.
          rbind (resolve_specs columns parsed_header default_name) (\<lambda>specs.
          rbind (validate_csv_timestamps_monotonic read_file file 0) (\<lambda>_.
          rbind (compute_csv_delta_seconds read_file file 0) (\<lambda>delta.
          let derived_rate = f64_div timescale delta
          in rbind (resolve_windows (unwrap_or (sc_gap_windows config) [])) (\<lambda>gaps.
             case read_file file of
               None \<Rightarrow> Inl (CaptureFile file)
             | Some content \<Rightarrow>
                 let step_secs = f64_div (f64_of_nat 1) derived_rate; repeat = unwrap_or repeat_field True
                 in rbind (resolve_last_tick (sc_duration config) step_secs) (\<lambda>lt.
                    rbind (check_columns content repeat lt (sc_bursts config \<noteq> None) (map window_secs gaps) step_secs specs) (\<lambda>_.
                    Inr (map (column_scenario config derived_rate) specs)))))))))))
      | _ \<Rightarrow> Inr [config])"

section \<open>What an expansion guarantees\<close>

lemma check_columns_ok:
  "check_columns content repeat lt bursts windows step_secs specs = Inr () \<longleftrightarrow>
   (\<forall>spec \<in> set specs. \<exists>values blanks. parse_values_and_gaps content (column_index spec) = Inr (values, blanks) \<and>
      cross_check_gap_windows blanks
        \<lparr> row_count = length values, replay_repeat = repeat, last_tick = lt, replay_bursts = bursts \<rparr> windows step_secs = Inr ())"
  by (induction content repeat lt bursts windows step_secs specs rule: check_columns.induct)
     (auto simp: sonda_simps map_err_def split: sum.splits)


lemma expand_parts:
  assumes "expand_scenario read_file config = Inr children"
    and "sc_generator config = CsvReplay file c columns repeat_field timescale_opt default_name"
  obtains timescale delta specs gaps content lt parsed
  where "validate_csv_columns columns = Inr ()" "resolve_specs columns parsed default_name = Inr specs" "validate_csv_timescale timescale_opt = Inr timescale" "compute_csv_delta_seconds read_file file 0 = Inr delta"
    "validate_csv_timestamps_monotonic read_file file 0 = Inr ()"
    "resolve_windows (unwrap_or (sc_gap_windows config) []) = Inr gaps" "read_file file = Some content"
    "resolve_last_tick (sc_duration config) (f64_div (f64_of_nat 1) (f64_div timescale delta)) = Inr lt"
    "check_columns content (unwrap_or repeat_field True) lt (sc_bursts config \<noteq> None) (map window_secs gaps)
       (f64_div (f64_of_nat 1) (f64_div timescale delta)) specs = Inr ()"
    "children = map (column_scenario config (f64_div timescale delta)) specs"
  using assms
  by (auto simp: expand_scenario_def sonda_simps Let_def split: option.splits)

text \<open>A child has the derived rate, the column of its spec, and a column whose silences were checked.\<close>

lemma expand_child:
  assumes "expand_scenario read_file config = Inr children" and "child \<in> set children"
    and "sc_generator config = CsvReplay file c columns repeat_field timescale_opt default_name"
  obtains gaps content lt column vals blanks
  where "resolve_windows (unwrap_or (sc_gap_windows config) []) = Inr gaps" "read_file file = Some content"
    "resolve_last_tick (sc_duration config) (f64_div (f64_of_nat 1) (sc_rate child)) = Inr lt"
    "sc_generator child = CsvReplay file (Some column) None repeat_field timescale_opt default_name"
    "parse_values_and_gaps content column = Inr (vals, blanks)"
    "cross_check_gap_windows blanks \<lparr> row_count = length vals, replay_repeat = unwrap_or repeat_field True, last_tick = lt,
        replay_bursts = (sc_bursts config \<noteq> None) \<rparr> (map window_secs gaps) (f64_div (f64_of_nat 1) (sc_rate child)) = Inr ()"
proof -
  from assms(1,3) obtain timescale delta specs gaps content lt
    where p: "resolve_windows (unwrap_or (sc_gap_windows config) []) = Inr gaps" "read_file file = Some content"
      "resolve_last_tick (sc_duration config) (f64_div (f64_of_nat 1) (f64_div timescale delta)) = Inr lt"
      "check_columns content (unwrap_or repeat_field True) lt (sc_bursts config \<noteq> None) (map window_secs gaps)
         (f64_div (f64_of_nat 1) (f64_div timescale delta)) specs = Inr ()"
      "children = map (column_scenario config (f64_div timescale delta)) specs"
    by (rule expand_parts)
  from p(5) assms(2) obtain spec where spec: "spec \<in> set specs" "child = column_scenario config (f64_div timescale delta) spec"
    by auto
  then have rate: "sc_rate child = f64_div timescale delta" by (simp add: column_scenario_def)
  from p(4) spec(1) obtain vals blanks where "parse_values_and_gaps content (column_index spec) = Inr (vals, blanks)"
      "cross_check_gap_windows blanks \<lparr> row_count = length vals, replay_repeat = unwrap_or repeat_field True, last_tick = lt,
        replay_bursts = (sc_bursts config \<noteq> None) \<rparr> (map window_secs gaps) (f64_div (f64_of_nat 1) (f64_div timescale delta)) = Inr ()"
    by (auto simp: check_columns_ok)
  moreover have "sc_generator child = CsvReplay file (Some (column_index spec)) None repeat_field timescale_opt default_name"
    using spec(2) assms(3) by (simp add: column_scenario_def)
  ultimately show ?thesis using p(1-3) rate by (intro that) simp_all
qed

section \<open>Columns are told apart\<close>

lemma first_repeated_None: "first_repeated seen xs = None \<longleftrightarrow> distinct xs \<and> set seen \<inter> set xs = {}"
  by (induction xs arbitrary: seen) auto

lemma discover_indices:
  "discover_loop name sfx i hs = Inr specs \<Longrightarrow> map (column_index \<circ> fst) specs = [i..<i + length hs]"
proof (induction name sfx i hs arbitrary: specs rule: discover_loop.induct)
  case (2 name sfx i ph rest)
  from "2.prems" obtain nm derived specs' where nd: "discovered_name name sfx i ph = Inr (nm, derived)"
    and "discover_loop name sfx (i + 1) rest = Inr specs'" and "map (column_index \<circ> fst) specs = i # map (column_index \<circ> fst) specs'"
    by (auto simp: rbind_eq_Inr)
  with "2.IH" [of specs'] show ?case by (simp add: upt_conv_Cons comp_def del: upt_Suc)
qed simp

lemma discovered_distinct: "auto_discover_specs parsed name = Inr specs \<Longrightarrow> distinct (map column_index specs)"
  by (auto simp: auto_discover_specs_def sonda_simps Let_def dest!: discover_indices split: if_splits option.splits)

lemma merged_columns:
  "map column_index (merge_header_labels_into_specs specs parsed) = map column_index specs"
  "map column_name (merge_header_labels_into_specs specs parsed) = map column_name specs"
  by (simp_all add: merge_header_labels_into_specs_def merge_header_labels_def Let_def)

lemma resolved_distinct:
  assumes "validate_csv_columns columns = Inr ()" and "resolve_specs columns parsed name = Inr specs"
  shows "distinct (map column_index specs)" and "columns \<noteq> None \<Longrightarrow> distinct (map column_name specs)"
  using assms merged_columns
  by (auto simp: validate_csv_columns_def resolve_specs_def first_repeated_None discovered_distinct
      split: option.splits if_splits)

lemma expand_distinct:
  assumes "expand_scenario read_file config = Inr children"
    and "sc_generator config = CsvReplay file c columns repeat_field timescale_opt default_name"
  shows "distinct (map sc_generator children)" and "columns \<noteq> None \<Longrightarrow> distinct (map sc_name children)"
proof -
  from assms obtain timescale delta specs parsed
    where v: "validate_csv_columns columns = Inr ()" "resolve_specs columns parsed default_name = Inr specs"
      and c: "children = map (column_scenario config (f64_div timescale delta)) specs"
    by (rule expand_parts)
  have "map sc_generator children = map (\<lambda>i. CsvReplay file (Some i) None repeat_field timescale_opt default_name) (map column_index specs)"
    by (simp add: c column_scenario_def assms(2))
  then show "distinct (map sc_generator children)"
    using resolved_distinct(1) [OF v] by (simp only: distinct_map) (auto simp: inj_on_def)
  have "map sc_name children = map column_name specs" by (simp add: c column_scenario_def)
  then show "distinct (map sc_name children)" if "columns \<noteq> None" using resolved_distinct(2) [OF v that] by simp
qed
end
