(* ===== verification/Capture_Replay.thy ===== *)
theory Capture_Replay
  imports Capture_Expand Schedule_Ticks
begin

text \<open>
  Replaying an accepted capture: the check of \<open>Capture_Check\<close> in seconds of \<open>f64\<close> and the schedule loop in nanoseconds
  agree about the silent rows when the rows are whole seconds apart, and then the loop emits exactly the recorded rows.
  On other grids they can disagree.
\<close>

section \<open>Silence in seconds and in nanoseconds\<close>

text \<open>A resolved gap window as the schedule has it, and windows of whole seconds.\<close>

definition one_shot :: "nat \<times> nat \<Rightarrow> OneShotGap" where
  "one_shot g = \<lparr> og_at = fst g, og_duration = snd g \<rparr>"

definition whole_gap :: "nat \<times> nat \<Rightarrow> bool" where
  "whole_gap g \<longleftrightarrow> 10 ^ 9 dvd fst g \<and> 10 ^ 9 dvd snd g \<and> fst g + snd g \<le> 2 ^ 53 * 10 ^ 9"

definition whole_gaps :: "(nat \<times> nat) list \<Rightarrow> bool" where
  "whole_gaps gaps \<longleftrightarrow> list_all whole_gap gaps"

lemma whole_gap_parts:
  assumes "whole_gap g"
  obtains a l where "g = (a * 10 ^ 9, l * 10 ^ 9)" and "a + l \<le> 2 ^ 53"
proof -
  from assms obtain a l where "fst g = a * 10 ^ 9" "snd g = l * 10 ^ 9"
    unfolding whole_gap_def by (metis dvd_div_mult_self)
  moreover from this assms have "(a + l) * 10 ^ 9 \<le> 2 ^ 53 * 10 ^ 9" unfolding whole_gap_def by (simp only: add_mult_distrib)
  ultimately show ?thesis using that [of a l] by (simp add: prod_eq_iff)
qed

lemma window_secs_whole: "a + l \<le> 2 ^ 53 \<Longrightarrow> window_secs (a * 10 ^ 9, l * 10 ^ 9) = (f64_of_nat a, f64_of_nat (a + l))"
  by (simp add: window_secs_def as_secs_whole small_nat_add small_nat_def)

lemma small_nat_number: "small_nat n \<Longrightarrow> \<not> f64_is_nan (f64_of_nat n)"
  using dyadic_of_nat dyadic_parts(1) by blast

lemma whole_gaps_numbers: "whole_gaps gaps \<Longrightarrow> \<forall>w \<in> set (map window_secs gaps). \<not> f64_is_nan (fst w)"
proof
  fix w assume gaps: "whole_gaps gaps" and "w \<in> set (map window_secs gaps)"
  then obtain g where g: "whole_gap g" "w = window_secs g" by (auto simp: whole_gaps_def list_all_iff)
  from g(1) show "\<not> f64_is_nan (fst w)"
    by (rule whole_gap_parts) (simp add: g(2) window_secs_whole [simplified] small_nat_number small_nat_def)
qed

lemma replay_step_whole: "small_nat d \<Longrightarrow> replay_step (f64_of_nat d)"
  using dyadic_of_nat [of d]
  by (auto simp: replay_step_def dyadic_def f64_is_finite_def f64_exponent_def F64_INF_def)

text \<open>On whole seconds the two notions of silence are the same.\<close>

lemma small_nat_factor: "small_nat (k * d) \<Longrightarrow> 0 < d \<Longrightarrow> small_nat k"
  unfolding small_nat_def using mult_le_mono2 [of 1 d k] by linarith

lemma covers_same:
  assumes "whole_gap g" and "small_nat (k * d)" and "small_nat k" and "small_nat d"
  shows "tick_in_window k (f64_of_nat d) (window_secs g) \<longleftrightarrow> gap_covers (one_shot g) (k * (d * 10 ^ 9))"
proof -
  from assms(1) obtain a l where g: "g = (a * 10 ^ 9, l * 10 ^ 9)" and al: "a + l \<le> 2 ^ 53" by (rule whole_gap_parts)
  have fit: "small_nat a" "small_nat (a + l)" using al by (simp_all add: small_nat_def)
  have "OneShotGap_end (one_shot g) = (a + l) * 10 ^ 9"
    using al by (simp add: OneShotGap_end_def one_shot_def g DURATION_MAX_def)
  moreover have "k * (d * 10 ^ 9) = (k * d) * 10 ^ 9" by simp
  ultimately have "gap_covers (one_shot g) (k * (d * 10 ^ 9)) \<longleftrightarrow> a \<le> k * d \<and> k * d < a + l"
    unfolding gap_covers_def by (simp only: mult_less_cancel2) (simp add: one_shot_def g)
  then show ?thesis
    using assms(2-4) fit
    by (simp add: tick_in_window_def tick_at_def g window_secs_whole [OF al, simplified] small_nat_mul small_nat_le small_nat_lt)
qed

lemma covered_iff_silent:
  assumes "whole_gaps gaps" and "small_nat (k * d)" and "small_nat d" and "0 < d"
  shows "row_covered (map window_secs gaps) (f64_of_nat d) k \<longleftrightarrow>
         is_in_gap_window (k * (d * 10 ^ 9)) (map one_shot gaps)"
proof -
  have "small_nat k" using assms(2,4) by (rule small_nat_factor)
  then show ?thesis
    using assms(1-3) covers_same
    by (auto simp: row_covered_def is_in_gap_window_def list_ex_iff whole_gaps_def list_all_iff)
qed

section \<open>The loop on a grid of whole seconds\<close>

text \<open>The run of a replay whose rows are \<open>d\<close> seconds apart and whose only windows are the gaps declared.\<close>

definition grid_run :: "LoopRun \<Rightarrow> nat \<Rightarrow> (nat \<times> nat) list \<Rightarrow> bool" where
  "grid_run run d gaps \<longleftrightarrow>
     lr_base_interval run = d * 10 ^ 9 \<and> lr_initial_tick run = 0 \<and>
     ps_gap_window (lr_schedule run) = None \<and> ps_burst_window (lr_schedule run) = None \<and>
     ps_gap_windows (lr_schedule run) = map one_shot gaps \<and>
     whole_gaps gaps \<and> small_nat d \<and> 0 < d"

definition whole_grid :: "LoopRun \<Rightarrow> LoopState \<Rightarrow> bool" where
  "whole_grid run s \<longleftrightarrow>
     lp_next_deadline s = lr_start run + lp_tick s * lr_base_interval run \<and>
     (\<forall>em \<in> set (lp_emitted s). fst em = tc_tick (snd em) * lr_base_interval run)"

lemma replay_steady: "grid_run run d gaps \<Longrightarrow> steady (lr_schedule run)"
  by (simp add: grid_run_def steady_def)

lemma slot_whole:
  assumes "grid_run run d gaps" and "small_nat (k * d)"
  shows "duration_mul_f64 (lr_base_interval run) (f64_of_nat k) = Some (k * lr_base_interval run)"
proof -
  have "small_nat k" using assms by (intro small_nat_factor [of k d]) (simp_all add: grid_run_def)
  then show ?thesis using assms mul_f64_whole [of "d * 10 ^ 9" k] by (simp add: grid_run_def)
qed

lemma whole_grid_step:
  assumes "grid_run run d gaps" and "whole_grid run s" and "loop_step run t s = LoopContinue s'"
    and "small_nat (lp_tick s' * d)"
  shows "whole_grid run s'"
proof -
  have init: "lr_initial_tick run = 0" using assms(1) by (simp add: grid_run_def)
  have "whole_grid run s'" if "skip_step run s s'"
  proof -
    from that init obtain slot where "lp_emitted s' = lp_emitted s" "lp_next_deadline s' = lr_start run + slot"
      "duration_mul_f64 (lr_base_interval run) (f64_of_nat (lp_tick s')) = Some slot"
      unfolding skip_step_def by auto
    with slot_whole [OF assms(1,4)] assms(2) show ?thesis by (simp add: whole_grid_def)
  qed
  moreover have "whole_grid run s'" if "idle_step s s'"
    using that assms(2) by (simp add: idle_step_def grid_def whole_grid_def)
  moreover have "whole_grid run s'" if "emit_step_ok run t s s'"
  proof -
    have "lp_next_deadline s' = lp_next_deadline s + lr_base_interval run"
      using that assms(1) by (auto simp: emit_step_ok_def effective_interval_def grid_run_def)
    with that assms(2) show ?thesis
      by (auto simp: emit_step_ok_def emits_def whole_grid_def step_context_def Let_def)
  qed
  ultimately show ?thesis using loop_step_Continue [OF assms(3) replay_steady [OF assms(1)]] by blast
qed

lemma lp_tick_mono:
  assumes "loop_step run t s = LoopContinue s'" and "steady (lr_schedule run)" and "lr_initial_tick run \<le> lp_tick s"
  shows "lp_tick s \<le> lp_tick s'"
  using loop_step_Continue [OF assms(1,2)] assms(3)
  by (auto simp: idle_step_def grid_def skip_step_def emit_step_ok_def)

lemma whole_grid_run:
  assumes "grid_run run d gaps"
    and "schedule_loop run ts (loop_start run stats) = LoopContinue s \<or>
         schedule_loop run ts (loop_start run stats) = LoopBreak s"
    and "small_nat (lp_tick s * d)"
  shows "whole_grid run s"
proof -
  let ?P = "\<lambda>s. small_nat (lp_tick s * d) \<longrightarrow> whole_grid run s"
  have start: "?P (loop_start run stats)"
    using assms(1) by (simp add: whole_grid_def loop_start_def grid_run_def)
  have step: "?P s'" if P: "?P s" and st: "loop_step run t s = LoopContinue s'" for t s s'
  proof
    assume small: "small_nat (lp_tick s' * d)"
    have "lp_tick s \<le> lp_tick s'"
      using lp_tick_mono [OF st replay_steady [OF assms(1)]] assms(1) by (simp add: grid_run_def)
    then have "lp_tick s * d \<le> lp_tick s' * d" by simp
    with small have "small_nat (lp_tick s * d)" unfolding small_nat_def by linarith
    with P show "whole_grid run s'" using whole_grid_step [OF assms(1) _ st small] by blast
  qed
  have "?P s" using step start assms(2) by (rule schedule_loop_invariant)
  with assms(3) show ?thesis by blast
qed

lemma ticks_inv_run:
  assumes "steady (lr_schedule run)"
    and "schedule_loop run ts (loop_start run stats) = LoopContinue s \<or>
         schedule_loop run ts (loop_start run stats) = LoopBreak s"
  shows "ticks_inv run s"
  by (rule schedule_loop_invariant [of "ticks_inv run" run])
     (use assms ticks_inv_start ticks_inv_step in blast)+

text \<open>The ticks emitted are those below the counter that no gap covers.\<close>

lemma emitted_uncovered:
  assumes run: "grid_run run d gaps"
    and loop: "schedule_loop run ts (loop_start run stats) = LoopContinue s \<or>
         schedule_loop run ts (loop_start run stats) = LoopBreak s"
    and small: "small_nat (lp_tick s * d)"
  shows "set (ticks s) = {k. k < lp_tick s \<and> \<not> row_covered (map window_secs gaps) (f64_of_nat d) k}"
proof -
  have inv: "ticks_inv run s" by (rule ticks_inv_run [OF replay_steady [OF run] loop])
  have grid: "whole_grid run s" by (rule whole_grid_run [OF run loop small])
  have p: "lr_initial_tick run = 0" "lr_base_interval run = d * 10 ^ 9" "ps_gap_window (lr_schedule run) = None"
      "ps_gap_windows (lr_schedule run) = map one_shot gaps" "whole_gaps gaps" "small_nat d" "0 < d"
    using run by (simp_all add: grid_run_def)
  have sm: "small_nat (k * d)" if "k < lp_tick s" for k
    using small mult_le_mono1 [of k "lp_tick s" d] that unfolding small_nat_def by linarith
  have cov: "row_covered (map window_secs gaps) (f64_of_nat d) k \<longleftrightarrow>
      is_in_gap_window (k * lr_base_interval run) (ps_gap_windows (lr_schedule run))" if "k < lp_tick s" for k
    using covered_iff_silent [OF p(5) sm [OF that] p(6,7)] p(2,4) by simp
  have "loop_state (schedule_loop run ts (loop_start run stats)) = Some s" using loop by (auto simp: loop_state_Some)
  then have ok: "\<forall>em \<in> set (lp_emitted s). emission_ok run (set ts) em"
    by (rule schedule_loop_emissions) (simp_all add: loop_start_def)
  have below: "k < lp_tick s" if "k \<in> set (ticks s)" for k using inv that by (auto simp: ticks_inv_def)
  have uncovered: "\<not> row_covered (map window_secs gaps) (f64_of_nat d) k" if "k \<in> set (ticks s)" for k
  proof -
    from that obtain em where em: "em \<in> set (lp_emitted s)" "tc_tick (snd em) = k" by (auto simp: ticks_def)
    then have "fst em = k * lr_base_interval run" using grid by (auto simp: whole_grid_def)
    moreover have "\<not> is_in_gap_window (fst em) (ps_gap_windows (lr_schedule run))"
      using bspec [OF ok em(1)] by (auto simp: emission_ok_def Let_def split: prod.splits)
    ultimately show ?thesis using cov [OF below [OF that]] by simp
  qed
  have "k \<in> set (ticks s)" if "k < lp_tick s" "\<not> row_covered (map window_secs gaps) (f64_of_nat d) k" for k
  proof -
    have "k \<in> set (ticks s) \<or> silent run k" using inv that(1) p(1) by (auto simp: ticks_inv_def rows_kept_def)
    moreover have "\<not> silent run k"
      using that(2) cov [OF that(1)] slot_whole [OF run sm [OF that(1)]] p(3) by (simp add: silent_def still_silent_def)
    ultimately show ?thesis by blast
  qed
  with below uncovered show ?thesis by blast
qed

section \<open>Exactly the recorded rows\<close>

lemma parse_loop_blanks:
  "parse_values_loop c ls n b vs bs = Inr (values, blanks) \<Longrightarrow> set bs \<subseteq> {..<length vs} \<Longrightarrow>
   set blanks \<subseteq> {..<length values}"
  by (induction c ls n b vs bs rule: parse_values_loop.induct)
     (auto simp: Let_def subset_iff less_Suc_eq split: if_splits option.splits)

lemma blanks_are_rows: "parse_values_and_gaps content column = Inr (values, blanks) \<Longrightarrow> set blanks \<subseteq> {..<length values}"
  using parse_loop_blanks [of column "lines content" 1 True "[]" "[]"] by (simp add: parse_values_and_gaps_def)

lemma run_emits_before_end:
  assumes "loop_state (schedule_loop run ts (loop_start run stats)) = Some s" and "whole_grid run s"
    and "k \<in> set (ticks s)"
  shows "within_duration (lr_schedule run) (k * lr_base_interval run)"
proof -
  from assms(3) obtain em where em: "em \<in> set (lp_emitted s)" "tc_tick (snd em) = k" by (auto simp: ticks_def)
  have ok: "emission_ok run (set ts) em"
    using schedule_loop_emissions [OF assms(1) order_refl] em(1) by (simp add: loop_start_def)
  have "k * lr_base_interval run \<le> tc_elapsed (snd em)"
    using emission_not_early [OF ok] assms(2) em by (auto simp: whole_grid_def)
  moreover have "within_duration (lr_schedule run) (tc_elapsed (snd em))"
    using ok by (auto simp: emission_ok_def Let_def split: prod.splits)
  ultimately show ?thesis by (auto simp: within_duration_def split: option.splits)
qed

text \<open>
  The last tick the check is told of: none without a duration, else the number of rows a duration of whole seconds
  has room for, less one.
\<close>

definition last_tick_of :: "ParsedSchedule \<Rightarrow> nat \<Rightarrow> u64 option \<Rightarrow> bool" where
  "last_tick_of schedule d lt \<longleftrightarrow>
     (case ps_total_duration schedule of
        None \<Rightarrow> lt = None
      | Some limit \<Rightarrow> \<exists>l. lt = Some l \<and> limit \<le> Suc (unat l) * (d * 10 ^ 9))"

lemma accepted_replay:
  assumes run: "grid_run run d gaps"
    and loop: "schedule_loop run ts (loop_start run stats) = LoopContinue s \<or>
         schedule_loop run ts (loop_start run stats) = LoopBreak s"
    and small: "small_nat (lp_tick s * d)" and rows: "set blanks \<subseteq> {..<length values}"
    and lt: "last_tick_of (lr_schedule run) d lt"
    and check: "cross_check_gap_windows blanks
        \<lparr> row_count = length values, replay_repeat = rep, last_tick = lt, replay_bursts = False \<rparr>
        (map window_secs gaps) (f64_of_nat d) = Inr ()"
  shows "set (ticks s) \<inter> {..<length values} = {k. k < length values \<and> k < lp_tick s \<and> k \<notin> set blanks}"
    and "k \<in> set (ticks s) \<Longrightarrow> slot values rep (of_nat k) \<notin> set blanks"
proof -
  let ?cov = "row_covered (map window_secs gaps) (f64_of_nat d)"
  have hyps: "replay_step (f64_of_nat d)" "\<forall>w \<in> set (map window_secs gaps). \<not> f64_is_nan (fst w)"
    using run replay_step_whole [of d] whole_gaps_numbers [of gaps] by (simp_all add: grid_run_def)
  note acc = check [unfolded cross_check_accepts [OF hyps], simplified]
  have em: "set (ticks s) = {k. k < lp_tick s \<and> \<not> ?cov k}" by (rule emitted_uncovered [OF run loop small])
  have row: "?cov k \<longleftrightarrow> k \<in> set blanks" if "k < length values" for k using acc that by auto
  show "set (ticks s) \<inter> {..<length values} = {k. k < length values \<and> k < lp_tick s \<and> k \<notin> set blanks}"
    using em row by blast
  show "slot values rep (of_nat k) \<notin> set blanks" if k: "k \<in> set (ticks s)"
  proof
    assume blank: "slot values rep (of_nat k) \<in> set blanks"
    then have rep: "\<not> rep" and pos: "0 < length values" using acc rows by auto
    have "small_nat k" using k em run small mult_le_mono [of k "lp_tick s" 1 d]
      by (auto simp: small_nat_def grid_run_def)
    then have slot: "slot values rep (of_nat k) = min k (length values - 1)"
      using rep by (simp add: slot_def small_nat_def unsigned_of_nat take_bit_nat_eq_self)
    show False
    proof (cases "k < length values")
      case True
      with slot blank row [OF True] k em show False by (simp add: min_absorb1)
    next
      case False
      with slot blank have "length values - 1 \<in> set blanks" by (simp add: min_absorb2)
      with acc pos obtain l where l: "lt = Some l" "\<And>t. length values \<le> t \<Longrightarrow> t \<le> unat l \<Longrightarrow> ?cov t" by auto
      have "loop_state (schedule_loop run ts (loop_start run stats)) = Some s" using loop by (auto simp: loop_state_Some)
      from run_emits_before_end [OF this whole_grid_run [OF run loop small] k]
      have "k * (d * 10 ^ 9) < Suc (unat l) * (d * 10 ^ 9)"
        using lt l(1) run by (auto simp: last_tick_of_def within_duration_def grid_run_def split: option.splits)
      then have "k \<le> unat l" by (simp only: mult_less_cancel2 less_Suc_eq_le)
      with l(2) False k em show False by auto
    qed
  qed
qed

section \<open>From the configuration to the wire\<close>

lemma ceil_whole: "small_nat n \<Longrightarrow> f64_ceil (f64_of_nat n) = f64_of_nat n"
  using dyadic_parts [OF dyadic_of_nat [of n]]
  by (simp add: f64_ceil_def f64_whole_def small_nat_exact div_ceil_def) (simp add: f64_of_nat_def)

lemma last_tick_whole:
  assumes "small_nat (n * d)" and "0 < d" and "0 < n"
  shows "unat (last_tick_from (f64_of_nat d) (n * d * 10 ^ 9)) = n - 1"
proof -
  have small: "small_nat n" "small_nat d"
    using small_nat_factor [OF assms(1,2)] small_nat_factor [of d n] assms by (simp_all add: mult.commute)
  let ?ticks = "f64_to_u64 (f64_of_nat n)"
  have "f64_ceil (f64_div (as_secs_f64 (n * d * 10 ^ 9)) (f64_of_nat d)) = f64_of_nat n"
    using assms small by (simp add: as_secs_whole small_nat_div ceil_whole)
  moreover have t: "unat ?ticks = n" by (rule small_nat_to_u64 [OF small(1)])
  moreover have "?ticks \<noteq> 0" using t assms(3) by (metis unsigned_0 less_irrefl)
  ultimately show ?thesis by (simp add: last_tick_from_def Let_def unat_minus_one)
qed

text \<open>The schedule of an expanded scenario with no windows but its resolved gaps, and a duration of \<open>n\<close> whole rows if any.\<close>

definition replay_schedule :: "ParsedSchedule \<Rightarrow> string option \<Rightarrow> nat \<Rightarrow> (nat \<times> nat) list \<Rightarrow> bool" where
  "replay_schedule schedule duration d gaps \<longleftrightarrow>
     ps_gap_window schedule = None \<and> ps_burst_window schedule = None \<and> ps_gap_windows schedule = map one_shot gaps \<and>
     (case duration of
        None \<Rightarrow> ps_total_duration schedule = None
      | Some text \<Rightarrow> \<exists>n. parse_duration text = Inr (n * d * 10 ^ 9) \<and> ps_total_duration schedule = Some (n * d * 10 ^ 9) \<and>
                         0 < n \<and> small_nat (n * d))"

lemma schedule_last_tick:
  assumes "replay_schedule schedule duration d gaps" and "0 < d" and "resolve_last_tick duration (f64_of_nat d) = Inr lt"
  shows "last_tick_of schedule d lt"
proof (cases duration)
  case None
  with assms show ?thesis by (simp add: replay_schedule_def resolve_last_tick_def last_tick_of_def)
next
  case (Some len)
  with assms(1) obtain n where n: "parse_duration len = Inr (n * d * 10 ^ 9)"
      "ps_total_duration schedule = Some (n * d * 10 ^ 9)" "0 < n" "small_nat (n * d)"
    by (auto simp: replay_schedule_def)
  with assms(3) Some have "lt = Some (last_tick_from (f64_of_nat d) (n * d * 10 ^ 9))"
    by (simp add: resolve_last_tick_def map_err_def)
  moreover have "Suc (unat (last_tick_from (f64_of_nat d) (n * d * 10 ^ 9))) = n"
    unfolding last_tick_whole [OF n(4) assms(2) n(3)] using n(3) by simp
  ultimately show ?thesis using n(2) by (simp add: last_tick_of_def del: mult_Suc)
qed

lemma grid_run_of_schedule:
  assumes "replay_schedule schedule duration d gaps" and "whole_gaps gaps" and "small_nat d" and "0 < d"
    and "f64_div (f64_of_nat 1) rate = f64_of_nat d" and "schedule_run checks schedule rate start start_wall wall 0 = Some run"
  shows "grid_run run d gaps" and "lr_schedule run = schedule"
  using assms by (auto simp: schedule_run_def grid_run_def replay_schedule_def from_secs_whole)


section \<open>A concrete capture\<close>

definition demo_file :: string where
  "demo_file = ''1,5'' @ [CHR 10] @ ''2,'' @ [CHR 10] @ ''3,7'' @ [CHR 10]"

definition demo_column :: CsvColumnSpec where
  "demo_column = \<lparr> column_index = 1, column_name = ''up'', column_labels = None \<rparr>"

definition demo_config :: "(unit, unit) ScenarioConfig" where
  "demo_config = \<lparr> sc_name = ''capture'', sc_rate = 0, sc_duration = None,
     sc_gap_windows = Some [\<lparr> gwc_at = ''1s'', gwc_for = ''1s'' \<rparr>], sc_bursts = None, sc_labels = None,
     sc_generator = CsvReplay ''up.csv'' None (Some [demo_column]) (Some False) None None, sc_rest = () \<rparr>"

lemma demo_texts:
  "lines demo_file = [''1,5'', ''2,'', ''3,7'']" "trim ''1,5'' = ''1,5''" "trim ''2,'' = ''2,''" "trim ''3,7'' = ''3,7''"
  "trim ''1'' = ''1''" "trim ''2'' = ''2''" "trim ''3'' = ''3''" "trim ''5'' = ''5''" "trim ''7'' = ''7''" "trim [] = []"
proof -
  show "lines demo_file = [''1,5'', ''2,'', ''3,7'']" by (simp add: lines_def demo_file_def strip_cr_def strip_suffix_def)
qed (simp_all add: trim_visible visible_def)

lemma demo_numbers:
  "f64_from_str ''1'' = Some (f64_of_nat 1)" "f64_from_str ''2'' = Some (f64_of_nat 2)" "f64_from_str ''3'' = Some (f64_of_nat 3)"
  "f64_from_str ''5'' = Some (f64_of_nat 5)" "f64_from_str ''7'' = Some (f64_of_nat 7)"
proof -
  have "show_nat 1 = ''1''" "show_nat 2 = ''2''" "show_nat 3 = ''3''" "show_nat 5 = ''5''" "show_nat 7 = ''7''" by code_simp+
  then show "f64_from_str ''1'' = Some (f64_of_nat 1)" "f64_from_str ''2'' = Some (f64_of_nat 2)" "f64_from_str ''3'' = Some (f64_of_nat 3)"
    "f64_from_str ''5'' = Some (f64_of_nat 5)" "f64_from_str ''7'' = Some (f64_of_nat 7)"
    using from_str_show_nat [of 1] from_str_show_nat [of 2] from_str_show_nat [of 3] from_str_show_nat [of 5] from_str_show_nat [of 7]
    by simp_all
qed

lemma demo_stamps:
  "parse_csv_timestamp ''1'' = Some (f64_of_nat 1)" "parse_csv_timestamp ''2'' = Some (f64_of_nat 2)"
  "parse_csv_timestamp ''3'' = Some (f64_of_nat 3)"
  by (simp_all add: parse_csv_timestamp_def demo_texts demo_numbers small_nat_lt small_nat_def)

lemma demo_lines: "\<not> is_csv_skippable_line ''1,5''" "\<not> is_csv_skippable_line ''2,''" "\<not> is_csv_skippable_line ''3,7''"
    "\<not> is_header_line ''1,5''"
  by (simp_all add: is_csv_skippable_line_def demo_texts is_header_line_def demo_numbers starts_with_def Let_def)

lemma demo_cells: "nth_cell ''1,5'' 0 = ''1''" "nth_cell ''2,'' 0 = ''2''" "nth_cell ''3,7'' 0 = ''3''"
  by (simp_all add: nth_cell_def)

lemma demo_values: "parse_values_and_gaps demo_file 1 = Inr ([f64_of_nat 5, f64_nan, f64_of_nat 7], [1])"
  by (simp add: parse_values_and_gaps_def demo_texts demo_numbers demo_lines starts_with_def Let_def)

lemma demo_delta: "compute_csv_delta_seconds (\<lambda>_. Some demo_file) p 0 = Inr (f64_of_nat 1)"
  by (simp add: compute_csv_delta_seconds_def read_csv_first_lines_def CSV_DELTA_SAMPLE_ROWS_def demo_texts demo_lines
      demo_cells demo_stamps median_delta_seconds_def small_nat_sub small_nat_def f64_le_zero small_nat_add small_nat_div
      map_err_def Let_def)

lemma demo_monotonic: "validate_csv_timestamps_monotonic (\<lambda>_. Some demo_file) p 0 = Inr ()"
  by (simp add: validate_csv_timestamps_monotonic_def demo_texts demo_lines demo_cells demo_stamps small_nat_le small_nat_def)

lemma demo_windows: "resolve_windows (unwrap_or (sc_gap_windows demo_config) []) = Inr [(10 ^ 9, 10 ^ 9)]"
proof -
  have "split_unit ''1s'' = Some (show_nat 1, 1000)" by code_simp
  from parse_duration_units [OF this] have "parse_duration ''1s'' = Inr (10 ^ 9)" by simp
  then show ?thesis by (simp add: demo_config_def GapWindowConfig_resolve_def parse_offset_duration_def map_err_def)
qed

definition demo_child :: "(unit, unit) ScenarioConfig" where
  "demo_child = demo_config \<lparr> sc_name := ''up'', sc_rate := f64_of_nat 1,
     sc_generator := CsvReplay ''up.csv'' (Some 1) None (Some False) None None \<rparr>"

lemma demo_check:
  "cross_check_gap_windows [1] \<lparr> row_count = 3, replay_repeat = False, last_tick = None, replay_bursts = False \<rparr>
     [window_secs (10 ^ 9, 10 ^ 9)] (f64_of_nat 1) = Inr ()"
proof -
  have whole: "whole_gaps [(10 ^ 9, 10 ^ 9)]" by (simp add: whole_gaps_def whole_gap_def)
  have cov: "row_covered [window_secs (10 ^ 9, 10 ^ 9)] (f64_of_nat 1) k \<longleftrightarrow> k = 1" if "k < 3" for k
    using covered_iff_silent [OF whole, of k 1] that
    by (auto simp: small_nat_def is_in_gap_window_def gap_covers_def OneShotGap_end_def one_shot_def DURATION_MAX_def)
  show ?thesis
    using cov whole_gaps_numbers [OF whole]
    by (subst cross_check_accepts) (auto simp: replay_step_whole small_nat_def)
qed

lemma demo_expand: "expand_scenario (\<lambda>_. Some demo_file) demo_config = Inr [demo_child]"
proof -
  have gen: "sc_generator demo_config = CsvReplay ''up.csv'' None (Some [demo_column]) (Some False) None None"
      "sc_duration demo_config = None" "sc_bursts demo_config = None"
    by (simp_all add: demo_config_def)
  have one: "f64_div (f64_of_nat 1) (f64_of_nat 1) = f64_of_nat 1" by (simp add: small_nat_div small_nat_def)
  have scale: "validate_csv_timescale None = Inr (f64_of_nat 1)"
    using small_nat_lt [of 0 1] by (simp add: validate_csv_timescale_def small_nat_def f64_of_nat_0)
  have head: "read_csv_header (\<lambda>_. Some demo_file) p = Inr ''1,5''" for p
    by (simp add: read_csv_header_def demo_texts demo_lines ok_or_def)
  have cols: "validate_csv_columns (Some [demo_column]) = Inr ()" by (simp add: validate_csv_columns_def)
  have specs: "resolve_specs (Some [demo_column]) None None = Inr [demo_column]"
    by (simp add: resolve_specs_def merge_header_labels_into_specs_def merge_header_labels_def demo_column_def)
  have check: "check_columns demo_file False None False (map window_secs [(1000000000, 1000000000)]) (f64_of_nat 1) [demo_column] = Inr ()"
    using demo_check by (simp add: demo_column_def demo_values [unfolded One_nat_def] map_err_def numeral_3_eq_3)
  have child: "column_scenario demo_config (f64_of_nat 1) demo_column = demo_child"
    by (simp add: column_scenario_def demo_child_def gen(1)) (simp add: demo_column_def demo_config_def)
  show ?thesis
    unfolding expand_scenario_def gen
    by (simp add: cols scale head parse_first_line_def demo_lines specs demo_monotonic demo_delta one demo_windows
        resolve_last_tick_def Let_def check del: check_columns.simps One_nat_def list.map)
      (simp add: child del: One_nat_def)
qed


section \<open>Where the check and the loop disagree\<close>

text \<open>The step that the check computes for rows 93 seconds apart: the reciprocal of the reciprocal is a little less.\<close>

definition step_93 :: f64 where
  "step_93 = f64_div (f64_of_nat 1) (f64_div (f64_of_nat 1) (f64_of_nat 93))"

lemma rate_93: "dyadic (f64_div (f64_of_nat 1) (f64_of_nat 93)) 6198502712940038 59"
proof -
  have "f64_div (f64_of_nat 1) (f64_of_nat 93) = f64_round False (1 * F64_ONE) 93"
    using dyadic_div [OF dyadic_of_nat [of 1] dyadic_of_nat [of 93]] by (simp add: small_nat_def)
  then show ?thesis using dyadic_round [of 93 1 59 6198502712940038] by (simp add: round_half_even_def)
qed

lemma step_93: "dyadic step_93 (93 * 2 ^ 46 - 1) 46"
proof -
  have "step_93 = f64_round False (2 ^ 59 * F64_ONE) 6198502712940038"
    unfolding step_93_def using dyadic_div [OF dyadic_of_nat [of 1] rate_93] by (simp add: small_nat_def)
  then show ?thesis using dyadic_round [of 6198502712940038 "2 ^ 59" 46] by (simp add: round_half_even_def)
qed

lemma interval_93: "from_secs_f64 step_93 = Some (93 * 10 ^ 9)"
  by (rule dyadic_from_secs [OF step_93]) (simp_all add: round_half_even_def)

lemma tick_93: "dyadic (tick_at step_93 0) 0 0" "dyadic (tick_at step_93 1) (93 * 2 ^ 46 - 1) 46"
    "dyadic (tick_at step_93 2) (93 * 2 ^ 46 - 1) 45" "dyadic (tick_at step_93 3) (279 * 2 ^ 44 - 1) 44"
proof -
  have at: "tick_at step_93 k = f64_round False (k * (93 * 2 ^ 46 - 1) * F64_ONE) (2 ^ 46)" if "small_nat k" for k
    unfolding tick_at_def using dyadic_mul [OF dyadic_of_nat [OF that] step_93] by simp
  show "dyadic (tick_at step_93 0) 0 0"
    using at [of 0] dyadic_0 by (simp add: small_nat_def f64_round_def f64_nearest_def round_half_even_def f64_make_def)
  show "dyadic (tick_at step_93 1) (93 * 2 ^ 46 - 1) 46"
    using at [of 1] dyadic_round [of "2 ^ 46" "93 * 2 ^ 46 - 1" 46 "93 * 2 ^ 46 - 1"] by (simp add: small_nat_def round_half_even_def)
  show "dyadic (tick_at step_93 2) (93 * 2 ^ 46 - 1) 45"
    using at [of 2] dyadic_round [of "2 ^ 46" "2 * (93 * 2 ^ 46 - 1)" 45 "93 * 2 ^ 46 - 1"] by (simp add: small_nat_def round_half_even_def)
  show "dyadic (tick_at step_93 3) (279 * 2 ^ 44 - 1) 44"
    using at [of 3] dyadic_round [of "2 ^ 46" "3 * (93 * 2 ^ 46 - 1)" 44 "279 * 2 ^ 44 - 1"] by (simp add: small_nat_def round_half_even_def)
qed

lemma in_window_93:
  assumes "dyadic (tick_at step_93 k) n j" and "a + l \<le> 2 ^ 53"
  shows "tick_in_window k step_93 (window_secs (a * 10 ^ 9, l * 10 ^ 9)) \<longleftrightarrow> a * 2 ^ j \<le> n \<and> n < (a + l) * 2 ^ j"
proof -
  have "dyadic (f64_of_nat a) a 0" "dyadic (f64_of_nat (a + l)) (a + l) 0"
    using assms(2) by (auto intro!: dyadic_of_nat simp: small_nat_def)
  then show ?thesis
    unfolding tick_in_window_def Let_def window_secs_whole [OF assms(2)]
    using dyadic_le [OF _ assms(1)] dyadic_lt [OF assms(1)] by simp
qed

text \<open>
  The check can accept the wrong window and refuse the right one. For a capture with a row every 93 seconds and a blank
  third row, the step of the check is a little below 93 seconds, the interval of the loop exactly 93 seconds: a window
  from 93 to 186 seconds is accepted, in which the loop silences the second row, which was recorded, and emits the blank
  third one; the window from 186 to 279 seconds, which silences exactly the blank row, is refused.
\<close>

lemma check_and_loop_disagree:
  "cross_check_gap_windows [2] \<lparr> row_count = 4, replay_repeat = False, last_tick = None, replay_bursts = False \<rparr>
     [window_secs (93 * 10 ^ 9, 93 * 10 ^ 9)] step_93 = Inr () \<and>
   cross_check_gap_windows [2] \<lparr> row_count = 4, replay_repeat = False, last_tick = None, replay_bursts = False \<rparr>
     [window_secs (186 * 10 ^ 9, 93 * 10 ^ 9)] step_93 = Inl (BlankUncovered 1 ([3], 0)) \<and>
   from_secs_f64 step_93 = Some (93 * 10 ^ 9) \<and>
   is_in_gap_window (1 * (93 * 10 ^ 9)) [one_shot (93 * 10 ^ 9, 93 * 10 ^ 9)] \<and>
   \<not> is_in_gap_window (2 * (93 * 10 ^ 9)) [one_shot (93 * 10 ^ 9, 93 * 10 ^ 9)]"
proof -
  have upt: "[0..<4] = [0, 1, 2, 3 :: nat]" by code_simp
  have rows: "row_covered [window_secs (93 * 10 ^ 9, 93 * 10 ^ 9)] step_93 2"
      "\<not> row_covered [window_secs (93 * 10 ^ 9, 93 * 10 ^ 9)] step_93 0"
      "\<not> row_covered [window_secs (93 * 10 ^ 9, 93 * 10 ^ 9)] step_93 1"
      "\<not> row_covered [window_secs (93 * 10 ^ 9, 93 * 10 ^ 9)] step_93 3"
      "\<not> row_covered [window_secs (186 * 10 ^ 9, 93 * 10 ^ 9)] step_93 2"
    using in_window_93 [OF tick_93(1), of 93 93] in_window_93 [OF tick_93(2), of 93 93] in_window_93 [OF tick_93(3), of 93 93]
      in_window_93 [OF tick_93(4), of 93 93] in_window_93 [OF tick_93(3), of 186 93]
    by (simp_all add: row_covered_def)
  have "cross_check_gap_windows [2] \<lparr> row_count = 4, replay_repeat = False, last_tick = None, replay_bursts = False \<rparr>
     [window_secs (93 * 10 ^ 9, 93 * 10 ^ 9)] step_93 = Inr ()"
    using rows by (simp add: cross_check_gap_windows_def upt Let_def del: upt_rec_numeral upt_Suc One_nat_def)
  moreover have "cross_check_gap_windows [2] \<lparr> row_count = 4, replay_repeat = False, last_tick = None, replay_bursts = False \<rparr>
     [window_secs (186 * 10 ^ 9, 93 * 10 ^ 9)] step_93 = Inl (BlankUncovered 1 ([3], 0))"
    using rows(5) by (simp add: cross_check_gap_windows_def format_rows_def MAX_NAMED_def Let_def)
  moreover have "is_in_gap_window (1 * (93 * 10 ^ 9)) [one_shot (93 * 10 ^ 9, 93 * 10 ^ 9)] \<and>
     \<not> is_in_gap_window (2 * (93 * 10 ^ 9)) [one_shot (93 * 10 ^ 9, 93 * 10 ^ 9)]"
    by (simp add: is_in_gap_window_def gap_covers_def OneShotGap_end_def one_shot_def DURATION_MAX_def)
  ultimately show ?thesis using interval_93 by blast
qed

end
