(* ===== verification/Capture_Write.thy ===== *)
theory Capture_Write
  imports Capture_Replay
begin

text \<open>
  The gap windows written beside a capture (\<open>gap_windows_for\<close> of \<open>acquire/csv_out.rs\<close>): one for every run of absent rows,
  its edges half a step from the rows, each verified by reading it back. They are shown to pass the check of the capture.
\<close>

section \<open>Windows of the absent rows\<close>

text \<open>One half as a number.\<close>

definition F64_HALF :: f64 where
  "F64_HALF = f64_div (f64_of_nat 1) (f64_of_nat 2)"

datatype WindowError =
    WindowDuration DurationError
  | DoesNotCover nat nat nat
  | CoversRow nat nat nat

definition verify_window :: "GapWindowConfig \<Rightarrow> nat \<Rightarrow> nat \<Rightarrow> nat \<Rightarrow> f64 \<Rightarrow> WindowError + nat \<times> nat" where
  "verify_window window first final total_rows step_secs =
     rbind (map_err WindowDuration (GapWindowConfig_resolve window)) (\<lambda>w.
       let pair = window_secs w
       in if \<not> tick_in_window first step_secs pair then Inl (DoesNotCover first final first)
          else if \<not> tick_in_window final step_secs pair then Inl (DoesNotCover first final final)
          else if 0 < first \<and> tick_in_window (first - 1) step_secs pair then Inl (CoversRow first final (first - 1))
          else if final + 1 < total_rows \<and> tick_in_window (final + 1) step_secs pair then Inl (CoversRow first final (final + 1))
          else Inr w)"

definition run_window :: "nat \<Rightarrow> nat \<Rightarrow> f64 \<Rightarrow> GapWindowConfig" where
  "run_window first final step_secs =
     (let at_secs = (if first = 0 then 0 else f64_mul (f64_sub (f64_of_nat first) F64_HALF) step_secs);
          end_secs = f64_mul (f64_add (f64_of_nat final) F64_HALF) step_secs
      in \<lparr> gwc_at = f64_display at_secs @ ''s'', gwc_for = f64_display (f64_sub end_secs at_secs) @ ''s'' \<rparr>)"

text \<open>The inner loop: the first row from \<open>row\<close> on that is present, or the end.\<close>

function run_end :: "'a option list \<Rightarrow> nat \<Rightarrow> nat" where
  "run_end rows row = (if row < length rows \<and> rows ! row = None then run_end rows (row + 1) else row)"
  by pat_completeness auto
termination
  by (relation "measure (\<lambda>(rows, row). length rows - row)") auto

declare run_end.simps [simp del]

lemma run_end_le: "row \<le> run_end rows row"
proof (induction rows row rule: run_end.induct)
  case (1 rows row)
  then show ?case by (subst run_end.simps) auto
qed

lemma run_end_grows: "row < length rows \<Longrightarrow> rows ! row = None \<Longrightarrow> row < run_end rows row"
  using run_end_le [of "row + 1" rows] by (subst run_end.simps) simp

text \<open>The outer loop, over the rows.\<close>

function windows_loop :: "'a option list \<Rightarrow> f64 \<Rightarrow> nat \<Rightarrow> WindowError + GapWindowConfig list" where
  "windows_loop rows step_secs row =
     (if row < length rows
      then if rows ! row \<noteq> None then windows_loop rows step_secs (row + 1)
           else
             let stop = run_end rows row; final = stop - 1; window = run_window row final step_secs
             in rbind (verify_window window row final (length rows) step_secs) (\<lambda>_.
                rbind (windows_loop rows step_secs stop) (\<lambda>rest. Inr (window # rest)))
      else Inr [])"
  by pat_completeness auto
termination
proof (relation "measure (\<lambda>(rows, _, row). length rows - row)")
  fix rows :: "'a option list" and step_secs row stop
  assume "row < length rows" "\<not> rows ! row \<noteq> None" "stop = run_end rows row"
  then show "((rows, step_secs, stop), rows, step_secs, row) \<in> measure (\<lambda>(rows, _, row). length rows - row)"
    using run_end_grows [of row rows] by simp
qed auto

declare windows_loop.simps [simp del]

definition gap_windows_for :: "'a option list \<Rightarrow> f64 \<Rightarrow> WindowError + GapWindowConfig list" where
  "gap_windows_for rows step_secs = windows_loop rows step_secs 0"


section \<open>The windows cover the absent rows and no others\<close>

text \<open>A verified window covers the rows of its run and no other row.\<close>

lemma verified_window_exact:
  assumes "verify_window window first final n step_secs = Inr w" and "replay_step step_secs"
    and "first \<le> final" and "final < n" and "n < 2 ^ 64" and "r < n"
  shows "tick_in_window r step_secs (window_secs w) \<longleftrightarrow> first \<le> r \<and> r \<le> final"
proof -
  let ?in = "\<lambda>r. tick_in_window r step_secs (window_secs w)"
  have ends: "?in first" "?in final" "0 < first \<Longrightarrow> \<not> ?in (first - 1)" "final + 1 < n \<Longrightarrow> \<not> ?in (final + 1)"
    using assms(1) by (auto simp: verify_window_def rbind_eq_Inr Let_def split: if_splits)
  note run = inside_run [OF assms(2)]
  have "\<not> ?in r" if "r < first"
  proof
    assume "?in r"
    then have "?in (first - 1)" using run [of r "window_secs w" first "first - 1"] ends(1) that assms(3-5) by auto
    with ends(3) that show False by simp
  qed
  moreover have "\<not> ?in r" if "final < r"
  proof
    assume "?in r"
    then have "?in (final + 1)" using run [of final "window_secs w" r "final + 1"] ends(2) that assms(5,6) by auto
    with ends(4) that assms(6) show False by simp
  qed
  moreover have "?in r" if "first \<le> r" "r \<le> final"
    using run [of first "window_secs w" final r] ends(1,2) that assms(4,5) by auto
  ultimately show ?thesis by force
qed

lemma run_end_rows: "row \<le> r \<Longrightarrow> r < run_end rows row \<Longrightarrow> r < length rows \<and> rows ! r = None"
proof (induction rows row rule: run_end.induct)
  case (1 rows row)
  then show ?case by (cases "r = row") (auto simp: run_end.simps [of rows row] split: if_splits)
qed

lemma run_end_bound: "row \<le> length rows \<Longrightarrow> run_end rows row \<le> length rows"
proof (induction rows row rule: run_end.induct)
  case (1 rows row)
  then show ?case by (subst run_end.simps) auto
qed

text \<open>The absent rows from \<open>row\<close> on are those that a window of the loop covers.\<close>

lemma windows_loop_exact:
  assumes "windows_loop rows step_secs row = Inr windows" and "replay_step step_secs" and "length rows < 2 ^ 64"
  shows "\<exists>ws. resolve_windows windows = Inr ws \<and>
    (\<forall>r < length rows. list_ex (\<lambda>w. tick_in_window r step_secs (window_secs w)) ws \<longleftrightarrow> row \<le> r \<and> rows ! r = None)"
  using assms
proof (induction rows step_secs row arbitrary: windows rule: windows_loop.induct)
  case (1 rows step_secs row)
  show ?case
  proof (cases "row < length rows")
    case False
    with 1(3) have "windows = []" by (subst (asm) windows_loop.simps) simp
    with False show ?thesis by auto
  next
    case here: True
    show ?thesis
    proof (cases "rows ! row = None")
      case False
      with 1(3) here have "windows_loop rows step_secs (row + 1) = Inr windows" by (subst (asm) windows_loop.simps) simp
      from 1(1) [OF here False this 1(4,5)] obtain ws where "resolve_windows windows = Inr ws"
        and c: "\<And>r. r < length rows \<Longrightarrow>
          list_ex (\<lambda>w. tick_in_window r step_secs (window_secs w)) ws \<longleftrightarrow> row + 1 \<le> r \<and> rows ! r = None" by blast
      moreover have "row + 1 \<le> r \<and> rows ! r = None \<longleftrightarrow> row \<le> r \<and> rows ! r = None" for r
        using False by (cases "r = row") auto
      ultimately show ?thesis by auto
    next
      case True
      let ?stop = "run_end rows row" and ?window = "run_window row (run_end rows row - 1) step_secs"
      from 1(3) here True obtain w rest where w: "verify_window ?window row (?stop - 1) (length rows) step_secs = Inr w"
          and rest: "windows_loop rows step_secs ?stop = Inr rest" and windows: "windows = ?window # rest"
        by (subst (asm) windows_loop.simps) (auto simp: Let_def rbind_eq_Inr)
      from 1(2) [OF here _ refl refl refl rest 1(4,5)] True obtain ws where ws: "resolve_windows rest = Inr ws"
        and c: "\<And>r. r < length rows \<Longrightarrow>
          list_ex (\<lambda>w. tick_in_window r step_secs (window_secs w)) ws \<longleftrightarrow> ?stop \<le> r \<and> rows ! r = None" by auto
      have stop: "row < ?stop" "?stop \<le> length rows"
        using run_end_grows [OF here True] run_end_bound [of row rows] here by auto
      have "GapWindowConfig_resolve ?window = Inr w"
        using w by (auto simp: verify_window_def map_err_def rbind_eq_Inr Let_def split: sum.splits if_splits)
      with ws windows have "resolve_windows windows = Inr (w # ws)" by (simp add: map_err_def)
      moreover have "list_ex (\<lambda>w. tick_in_window r step_secs (window_secs w)) (w # ws) \<longleftrightarrow> row \<le> r \<and> rows ! r = None"
        if "r < length rows" for r
      proof -
        have "row \<le> ?stop - 1" "?stop - 1 < length rows" using stop by auto
        from verified_window_exact [OF w 1(4) this 1(5) that]
        have "tick_in_window r step_secs (window_secs w) \<longleftrightarrow> row \<le> r \<and> r < ?stop" using stop by auto
        with c [OF that] run_end_rows [of row r rows] stop(1) show ?thesis by (cases "r < ?stop") auto
      qed
      ultimately show ?thesis by blast
    qed
  qed
qed

definition absent_rows :: "'a option list \<Rightarrow> nat list" where
  "absent_rows rows = filter (\<lambda>r. rows ! r = None) [0..<length rows]"

text \<open>
  The windows the writer of a capture puts into the scenario pass the check when the scenario is replayed: each reads back, and
  together they cover exactly the rows without a sample. Rows that end in silence are left to the writer's caller, which does
  not write them.
\<close>

lemma written_windows_accepted:
  assumes "gap_windows_for rows step_secs = Inr windows" and "replay_step step_secs" and "length rows < 2 ^ 64"
    and "rows = [] \<or> last rows \<noteq> None"
  shows "\<exists>ws. resolve_windows windows = Inr ws \<and>
    cross_check_gap_windows (absent_rows rows)
      \<lparr> row_count = length rows, replay_repeat = False, last_tick = lt, replay_bursts = False \<rparr>
      (map window_secs ws) step_secs = Inr ()"
proof -
  from windows_loop_exact [OF assms(1) [unfolded gap_windows_for_def] assms(2,3)]
  obtain ws where ws: "resolve_windows windows = Inr ws"
    and c: "\<And>r. r < length rows \<Longrightarrow> row_covered (map window_secs ws) step_secs r \<longleftrightarrow> rows ! r = None"
    by (auto simp: row_covered_def list_ex_iff)
  have absent: "r \<in> set (absent_rows rows) \<longleftrightarrow> r < length rows \<and> rows ! r = None" for r by (auto simp: absent_rows_def)
  have "filter (\<lambda>r. \<not> row_covered (map window_secs ws) step_secs r) (absent_rows rows) = []"
    using c absent by (auto simp: filter_empty_conv)
  moreover have "filter (\<lambda>r. row_covered (map window_secs ws) step_secs r \<and> r \<notin> set (absent_rows rows)) [0..<length rows] = []"
    using c absent by (auto simp: filter_empty_conv)
  moreover have "length rows = 0 \<or> length rows - 1 \<notin> set (absent_rows rows)"
    using assms(4) by (auto simp: absent last_conv_nth)
  ultimately show ?thesis using ws by (intro exI [of _ ws]) (auto simp: cross_check_gap_windows_def Let_def)
qed

section \<open>A concrete capture that begins in silence\<close>

lemma display_digit:
  assumes "0 < n" and "n < 10"
  shows "f64_display (f64_of_nat n) = show_nat n"
proof -
  have small: "small_nat n" using assms(2) by (simp add: small_nat_def)
  have u: "f64_abs_units (f64_of_nat n) = n * F64_ONE" using small_nat_exact [OF small] by simp
  have nz: "F64_ONE = 0 \<longleftrightarrow> False" using F64_ONE_pos by (metis less_irrefl)
  have len: "length (show_nat n) = 1" using assms(2) by (simp add: show_nat.simps [of n])
  have "dec_candidate (n * F64_ONE) 0 = Some n" by (simp add: dec_candidate_def Let_def)
  then have "dec_shortest (n * F64_ONE) = (n, 0)"
    using len assms(1) by (simp add: dec_shortest_def dec_exponent_def numeral_eq_Suc Suc_le_eq)
  moreover have "strip_zeros (n, 0) = (n, 0)" using assms by (simp add: strip_zeros.simps [of n 0])
  ultimately show ?thesis
    using u assms(1) dyadic_parts [OF dyadic_of_nat [OF small]] by (simp add: f64_display_def show_decimal_def nz)
qed

lemma half: "dyadic F64_HALF (2 ^ 52) 53"
proof -
  have "F64_HALF = f64_round False (1 * F64_ONE) 2"
    unfolding F64_HALF_def using dyadic_div [OF dyadic_of_nat [of 1] dyadic_of_nat [of 2]] by (simp add: small_nat_def)
  then show ?thesis using dyadic_round [of 2 1 53 "2 ^ 52"] by (simp add: round_half_even_def)
qed

lemma f64_add_zero:
  assumes "dyadic x n j" and "0 < n"
  shows "f64_add 0 x = x"
proof (rule f64_add_0(1))
  have x: "f64_magnitude x < F64_INF" "f64_abs_units x * 2 ^ j = n * F64_ONE" "\<not> f64_sign x" using assms(1) by (simp_all add: dyadic_def)
  have "f64_abs_units x \<noteq> 0" using x(2) assms(2) F64_ONE_pos by (metis mult_is_0 neq0_conv)
  then show "f64_units x \<noteq> 0" using x(3) unfolding f64_units_def f64_abs_units_def by simp
  show "f64_magnitude x < F64_INF" by (rule x(1))
qed

lemma half_of_two: "f64_mul F64_HALF (f64_of_nat 2) = f64_of_nat 1"
proof -
  have "f64_mul F64_HALF (f64_of_nat 2) = f64_round False (2 ^ 53 * F64_ONE) (2 ^ 53)"
    using dyadic_mul [OF half dyadic_of_nat [of 2]] by (simp add: small_nat_def)
  also have "\<dots> = f64_of_nat 1"
    using f64_nearest_scale [of "2 ^ 53" F64_ONE 1] by (simp add: f64_of_nat_def f64_round_def ac_simps)
  finally show ?thesis .
qed

lemma show_one: "show_nat 0 = ''0''" "show_nat 1 = ''1''"
  by code_simp+

definition silent_start :: "unit option list" where
  "silent_start = [None, Some ()]"

lemma silent_start_window: "run_window 0 0 (f64_of_nat 2) = \<lparr> gwc_at = ''0s'', gwc_for = ''1s'' \<rparr>"
proof -
  have "f64_mul (f64_add (f64_of_nat 0) F64_HALF) (f64_of_nat 2) = f64_of_nat 1"
    using f64_add_zero [OF half] half_of_two by (simp add: f64_of_nat_0)
  moreover have "f64_sub (f64_of_nat 1) 0 = f64_of_nat 1" using small_nat_sub [of 1 0] by (simp add: f64_of_nat_0 small_nat_def)
  moreover have "f64_display (f64_of_nat 1) = ''1''" using display_digit [of 1] show_one by simp
  moreover have "f64_display 0 = ''0''"
    using dyadic_parts [OF dyadic_0] by (simp add: f64_display_def f64_abs_units_def f64_zero_parts units_of_def)
  ultimately show ?thesis by (simp add: run_window_def)
qed

lemma silent_start_resolved: "GapWindowConfig_resolve \<lparr> gwc_at = ''0s'', gwc_for = ''1s'' \<rparr> = Inr (0, 10 ^ 9)"
proof -
  have unit0: "split_unit ''0s'' = Some (''0'', 1000)" and unit1: "split_unit ''1s'' = Some (show_nat 1, 1000)" by code_simp+
  have one: "parse_duration ''1s'' = Inr (10 ^ 9)" using parse_duration_units [OF unit1] by simp
  have zero: "f64_from_str ''0'' = Some 0" using from_str_show_nat [of 0] show_one by (simp add: f64_of_nat_0)
  have number: "\<not> f64_is_nan 0" "\<not> f64_is_infinite 0" using dyadic_parts [OF dyadic_0] by simp_all
  have "parse_duration ''0s'' = Inl (NotPositive ''0s'')"
    using number by (simp add: parse_duration_def unit0 zero starts_with_def f64_le_def)
  then have "parse_offset_duration ''0s'' = Inr 0"
    using number by (simp add: parse_offset_duration_def unit0 zero is_zero_number_def f64_eq_def trim_visible visible_def starts_with_def Let_def)
  with one show ?thesis by (simp add: GapWindowConfig_resolve_def)
qed

lemma silent_start_windows:
  "gap_windows_for silent_start (f64_of_nat 2) = Inr [\<lparr> gwc_at = ''0s'', gwc_for = ''1s'' \<rparr>]"
proof -
  have stop: "run_end silent_start 0 = 1"
    unfolding silent_start_def by (simp add: run_end.simps)
  have win: "window_secs (0, 10 ^ 9) = (f64_of_nat 0, f64_of_nat 1)" using window_secs_whole [of 0 1] by simp
  have inside: "tick_in_window 0 (f64_of_nat 2) (f64_of_nat 0, f64_of_nat 1)" "\<not> tick_in_window 1 (f64_of_nat 2) (f64_of_nat 0, f64_of_nat 1)"
    using small_nat_mul [of 0 2] small_nat_mul [of 1 2]
    by (simp_all add: tick_in_window_def tick_at_def small_nat_le small_nat_lt small_nat_def)
  have "verify_window \<lparr> gwc_at = ''0s'', gwc_for = ''1s'' \<rparr> 0 0 (length silent_start) (f64_of_nat 2) = Inr (0, 10 ^ 9)"
    using inside win by (simp add: verify_window_def silent_start_resolved map_err_def)
  moreover have "windows_loop silent_start (f64_of_nat 2) 1 = Inr []"
    unfolding silent_start_def by (simp add: windows_loop.simps)
  ultimately show ?thesis
    unfolding gap_windows_for_def
    by (subst windows_loop.simps) (simp add: stop silent_start_window Let_def, simp add: silent_start_def)
qed

lemma written_windows_accepted_witness:
  "\<exists>ws. resolve_windows [\<lparr> gwc_at = ''0s'', gwc_for = ''1s'' \<rparr>] = Inr ws \<and>
    cross_check_gap_windows [0] \<lparr> row_count = 2, replay_repeat = False, last_tick = None, replay_bursts = False \<rparr>
      (map window_secs ws) (f64_of_nat 2) = Inr ()"
proof -
  have absent: "absent_rows silent_start = [0]" "length silent_start = 2" by (simp_all add: absent_rows_def silent_start_def)
  have "replay_step (f64_of_nat 2)" by (rule replay_step_whole) (simp add: small_nat_def)
  from written_windows_accepted [OF silent_start_windows this, of None] show ?thesis
    unfolding absent by (simp add: silent_start_def)
qed

end
