(* ===== verification/Spec2Isabelle.thy ===== *)
theory Spec2Isabelle
  imports Serving Snmp_World Snmp_Registry Gate_Registry Gate_Lifecycle Compile_After Env_Interpolate Retry Capture_Write
begin

text \<open>
  Sonda generates synthetic telemetry. A scenario's runner draws values from a generator, an encoder turns each
  event into bytes and a sink delivers them; the HTTP server and the command line launch scenarios. This
  development verifies five subsystems of the Rust sources under \<open>src/\<close>: the loop that schedules every signal, with its
  windows, statistics and lifecycle gate; the gates that couple one scenario to the values of another; the
  part of the scenario compiler that turns the order of signals into start offsets, with the generators it reads; the replay
  of captures, from the header and the gap windows a capture is written with to the rows its replay emits; and
  the SNMP agent, from the object identifier of a metric to the datagram a manager receives.

  \<^bold>\<open>Shared theories.\<close> Prelude fixes the conventions: machine integers are words, \<open>usize\<close> a natural number, a
  \<open>Result\<close> a sum with the error on the left, a mutable buffer an argument and a result, a heap a list of cells addressed
  by index. Text is what the code uses of \<open>str\<close>. Ordered_Map is \<open>BTreeMap\<close> as a sorted association list behind the
  locale of an ordered map. Float64 is \<open>f64\<close> as its bits, with the comparison proved to be that of the values;
  Float64_Arith is its arithmetic, every result the exact one rounded to the nearest number with ties to even, NaN the
  canonical one, and Float64_Text its decimal text, which reads back for every number.
  Util (\<open>util.rs\<close>) has SplitMix64 with its inverse; Metric (\<open>model/metric.rs\<close>) has names, labels and events.

  \<^bold>\<open>The SNMP agent, bottom up.\<close>
  \<^item> Oid and Oid_Template (\<open>encoder/snmp/oid.rs\<close>): object identifiers as text and as BER, templates that render
    labels into indexes. Both forms round-trip exactly, rendering is injective on the placeholders and bounded, and
    \<open>can_render_under\<close> is sound.
  \<^item> Ber and Ber_Codec (\<open>encoder/snmp/ber.rs\<close>): the BER subset. The writers back-patch lengths in place; they are
    proved equal to a header-first reference, and the readers invert them.
  \<^item> Socket (\<open>sink/listener_registry.rs\<close>, addresses) and Snmp_Config (\<open>sink/snmp/mod.rs\<close>, configuration): accepted
    settings satisfy the documented bounds.
  \<^item> Agent (\<open>sink/snmp/agent.rs\<close>): the table of published instances and the system group. Lookup, bulk traversal and
    walks refine the merged ordered view.
  \<^item> V3, Usm and V3_Write (\<open>encoder/snmp/v3.rs\<close>, \<open>sink/snmp/usm.rs\<close>): SNMPv3 messages and user-based security. The hash,
    the HMAC and the block ciphers are parameters with the laws the code relies on. Verification reports the first
    failing check, what it accepts carries the user's tag and is in the time window, and what is written decodes,
    authenticates and decrypts to what was written.
  \<^item> Responder (\<open>sink/snmp/responder.rs\<close>) with Responder_Size, Responder_Answer and Serving: every PDU type,
    trimming to the size budget, errors, SNMPv3 dispatch, counters, one turn of the serve loop; then runs of any
    interleaving of datagrams and table operations. Every response is within the budget as long as the community leaves room
    for an empty one, except a report that echoes an overlong user name, which is shown to exceed it; every datagram is counted
    once; what becomes of a read is told exactly, also for a community that leaves no room.
  \<^item> Snmp_Record (\<open>encoder/snmp/mod.rs\<close>), Snmp_Sink and Snmp_World (\<open>sink/snmp/mod.rs\<close>): sinks of several launches publish
    into one agent and are dropped, in any order. An instance is served exactly while a live sink of the launch
    holds it.
  \<^item> Listener and Snmp_Registry (\<open>sink/listener_registry.rs\<close>): acquiring a listener awaits several times, so it is a step
    relation. No two live targets contend for a port, and acquires of one address share one target.

  \<^bold>\<open>Gates.\<close>
  \<^item> Gate_Channel (\<open>schedule/gate_bus.rs\<close>): the single-slot channels, and \<open>wait_for_change\<close> one atomic operation at a time
    against senders on other threads. The \<open>Notify\<close> of tokio is a parameter with one law; no wake-up is lost.
  \<^item> Gate_Bus and Gate_View: the bus with its fast path, and subscribers that poll it. However many edges a slot has
    overwritten, a subscriber that has drained its channels knows the gate's current state, and an \<open>after\<close> clause fires once.
  \<^item> Gate_Registry (\<open>sonda-server/src/gate_registry.rs\<close>): buses, subscribers and waiters of the server. A subscriber tracked
    when its upstream leaves, under a handle identifier of its own, is subscribed to the new bus when the upstream comes back;
    one recorded after the upstream left is not, and of two that wait under one identifier the first is lost.

  \<^bold>\<open>The compiler of \<open>after\<close> clauses.\<close>
  \<^item> Durations (\<open>config/validate.rs\<close>, \<open>compiler/compile_after.rs\<close>): parsing and printing of durations on that arithmetic. Whole
    seconds round-trip; a fraction may lose a microsecond, less than half a millisecond prints as zero, less than a
    microsecond parses as zero, and the guard against overflow lets microseconds saturate.
  \<^item> Generators (\<open>generator/\<close>): configurations, the factory, the value of a tick and the reading of a CSV column. The sine and
    the file system are parameters. Every generator that is made answers every tick.
  \<^item> Timing (\<open>compiler/timing.rs\<close>): when a generator first satisfies a comparison. For a sequence this is the first tick at
    which the generator's own value does; for a falling sawtooth the code answers wrongly, as is shown.
  \<^item> Clause_Graph: Kahn's sort and the depth-first search for a cycle. The sort is total and puts dependencies first; it
    leaves entries out exactly when some depend on each other in a circle, and the search then closes one.
  \<^item> Clock_Groups and Compile_After (\<open>compiler/compile_after.rs\<close>): the whole pass. Circular dependencies are reported exactly
    when there are any, offsets accumulate along chains, linked entries share a clock group, and no branch marked
    unreachable is reached. A debug build differs from a release build exactly where an offset that is printed is negative or not
    finite, which a spike with a negative duration brings about.

  \<^bold>\<open>Schedules.\<close> What a loop learns from outside in one iteration - the clock, the cancellation, edges, what the callback and
  the sink return - is an argument, so that a run is a function of the list of these turns and a theorem about every
  list is one about every behaviour of the runtime.
  \<^item> Schedule_Windows (\<open>schedule/mod.rs\<close>): one-shot gap windows, whose walk is proved to end at the first instant no
    window covers, and the labels of cardinality spikes, which take exactly as many values as configured.
  \<^item> Schedule_Loop (\<open>schedule/core_loop.rs\<close>, \<open>schedule/stats.rs\<close>) and Schedule_Ticks: the loop with its deadlines, periodic and one-shot gaps, bursts,
    the two frames in which silence is judged, the error policy, rate-limited warnings and statistics. No recorded row is lost however
    late the loop runs, nothing is emitted in a silence or after the end, a run without windows stays exactly on its grid, and
    every tick is counted once. Whole_Seconds has the rules that evaluate concrete runs.
  \<^item> Gated_Loop and Gate_Lifecycle (\<open>schedule/core_loop.rs\<close>): the states of a gated scenario, its running segments, the debounce timers
    and the close-emit. No tick comes while the gate is closed, ticks never repeat across pauses, a resume waits for
    \<open>delay.open\<close>, and a clean end emits its markers and finishes. Four runs show where the code departs from its documentation.

  \<^bold>\<open>Captures.\<close>
  \<^item> Csv_Header (\<open>generator/csv_header.rs\<close>, \<open>acquire/csv_out.rs\<close>): the parser of a header row with its label blocks, quotes and
    escapes, and the writer of one. What is written reads back, unless a key has white space around it.
  \<^item> Capture_Check (\<open>generator/csv_replay.rs\<close>): the check of gap windows against the blank rows of a column. Its search for an
    uncovered tick jumps from window to window by bisection and is proved to find the first one.
  \<^item> Capture_Expand (\<open>config/mod.rs\<close>): \<open>expand_scenario\<close>, which derives the rate of a capture from its timestamps, its columns and
    labels from its header, and one scenario per column, each checked.
  \<^item> Capture_Replay: an expanded capture on the scheduling loop. With whole seconds it emits exactly the rows that are not blank; with a
    step of 93 seconds the check and the loop place rows differently, as is shown.
  \<^item> Capture_Write (\<open>acquire/csv_out.rs\<close>): the windows a capture is written with pass the check.

  \<^bold>\<open>Smaller components.\<close> Env_Interpolate (\<open>compiler/env_interpolate.rs\<close>): the expansion of environment variables refines the documented
  template language, and doubling dollar signs quotes any text. Retry (\<open>sink/retry.rs\<close>): under an accepted policy the loop
  never panics, makes exactly the documented calls and sleeps within the exponential bound.

  \<^bold>\<open>Termination, bounds and fuel.\<close> The depth of the search for a cycle has fuel, one more than the number of
  entries, and it is proved never to run out. No other definition has fuel. The walks over grid slots end at the latest
  where the tick counter would overflow, which is a panic of the model. Loops over input are structural or decrease the length of
  what is left, and each such function is proved total. Encoded lengths are assumed below two to the 64, the size of
  the address space, where a statement needs it.

  \<^bold>\<open>Interfaces.\<close> The ordered map, the answer of one varbind, the target of a listener and the resolver of gate buses are
  locales, interpreted on the code's own definitions: the sorted association list, GET and GETNEXT, the SNMP agent,
  the server's registry.

  \<^bold>\<open>Build profiles and atomicity.\<close> Where a debug build panics and a release build goes on, the profile is an argument:
  \<open>compile_after\<close> takes whether assertions are checked, a run of the loop whether arithmetic is
  (\<open>lr_overflow_checks\<close>, for the difference of tick counters behind \<open>current_rate\<close>). The tick counter itself is not followed past 64
  bits: the model panics there in either profile. A step of Snmp_World is one call of a sink; the code takes the lock of the
  agent's table once for each operation of that call, so that datagrams and other sinks can come in between; those finer
  interleavings of table operations and datagrams are the ones of Serving. Handle identifiers
  of gate subscribers are not assumed distinct; a statement that needs it says so of the subscriber it is about.

  \<^bold>\<open>Not modelled.\<close> Configuration files and the rest of their validation, the compiler's passes over the YAML tree,
  packs and the catalog; the runners and launches around the modelled loop, which are tasks of the tokio runtime; histogram, summary and
  log generators; the conversion of samples to SNMP values; the other encoders and sinks; gNMI; traps; the HTTP routes, the command line and the bindings. Texts of error and log
  messages are left out throughout: an error is a constructor with what the message names. Sockets and timers appear as
  the events they cause. Poisoned locks are recovered by the code and are not represented.

  \<^bold>\<open>Plan.\<close> Next are the values of the SNMP encoder and its template cache, alias desugaring, and the paths and matcher of gNMI.
\<close>

end
